(* ===== verification/Prelude.thy ===== *)
theory Prelude
  imports Main "HOL-Library.Word"
begin

text \<open>
  Shared vocabulary of the development: the machine types of the Rust sources, the crate-wide
  error enum (\<open>src/error.rs\<close>), the result type every fallible codec operation returns, and
  the generic facts on lists and bytes that the component theories use.

  Slices and vectors of \<open>u8\<close> are byte lists.  A caller-owned \<open>&mut [u8]\<close> output
  buffer is modelled by its length on the way in and by the bytes written to its front on the
  way out: no codec modelled here reads the buffer before it has written to it.  \<open>usize\<close> is
  the 64-bit one; a length that cannot overflow it (no slice is longer than
  \<open>isize::MAX\<close>) is a \<open>nat\<close>.
\<close>

unbundle bit_operations_syntax

section \<open>Machine types\<close>

type_synonym byte = "8 word"
type_synonym u16 = "16 word"
type_synonym u32 = "32 word"
type_synonym u64 = "64 word"

text \<open>\<open>byte_of\<close> is the cast \<open>n as u8\<close> of an unsigned integer.\<close>

abbreviation byte_of :: "nat \<Rightarrow> byte" where
  "byte_of n \<equiv> word_of_nat n"

section \<open>Errors\<close>

text \<open>\<open>enum Error\<close> of \<open>src/error.rs\<close>, in the order of its variants.\<close>

datatype error =
    Corrupt
  | UnexpectedEnd
  | OutputTooSmall
  | BadHeader
  | InvalidBlockType
  | InvalidHuffmanTree
  | InvalidDistance
  | ChecksumMismatch
  | TrailerMismatch
  | Unsupported
  | OutputLimitExceeded
  | NeedDictionary

text \<open>\<open>impl fmt::Display for Error\<close>.\<close>

fun error_display :: "error \<Rightarrow> string" where
  "error_display Corrupt = ''encoded stream is corrupt''"
| "error_display UnexpectedEnd = ''unexpected end of input''"
| "error_display OutputTooSmall = ''output buffer too small to make progress''"
| "error_display BadHeader = ''container header is malformed''"
| "error_display InvalidBlockType = ''invalid deflate block type''"
| "error_display InvalidHuffmanTree = ''invalid Huffman code lengths''"
| "error_display InvalidDistance = ''invalid LZ77 back-reference distance''"
| "error_display ChecksumMismatch = ''checksum mismatch''"
| "error_display TrailerMismatch = ''decoded length doesn'' @ [CHR 0x27] @ ''t match trailer''"
| "error_display Unsupported = ''unsupported compression option''"
| "error_display OutputLimitExceeded =
     ''decompressed output would exceed the configured limit''"
| "error_display NeedDictionary = ''a preset dictionary is needed''"

section \<open>Lists, prefixes and machine arithmetic\<close>

text \<open>\<open>checked_add\<close> on \<open>usize\<close>: \<open>None\<close> when the sum does not fit.\<close>

definition checked_add :: "nat \<Rightarrow> nat \<Rightarrow> nat option" where
  "checked_add x y = (if x + y < 2 ^ 64 then Some (x + y) else None)"

text \<open>The simp set of the development's buffer arithmetic.\<close>

named_theorems buf_simps

text \<open>\<open>slot.fill(value)\<close> for \<open>n\<close> slots, and counting down a \<open>u8\<close> counter by a \<open>usize\<close>
  that is known to be no larger.\<close>

lemma unat_byte_of [simp]: "n < 256 \<Longrightarrow> unat (byte_of n) = n"
  by (simp add: unat_of_nat)

lemma unat_byte_less [simp]: "unat (b :: byte) < 256"
  using unsigned_less [of b, where ?'a = nat] by simp

lemma bit_byte_of_less: "m < 2 ^ n \<Longrightarrow> n \<le> k \<Longrightarrow> \<not> bit (byte_of m) k"
proof
  assume m: "m < 2 ^ n" "n \<le> k" "bit (byte_of m) k"
  then have "m < 2 ^ k" by (meson less_le_trans one_le_numeral power_increasing)
  then have "\<not> bit m k" by (simp add: bit_iff_odd)
  with m(3) show False by (simp add: bit_simps)
qed

lemma unat_sub_byte_of [buf_simps]:
  assumes "k \<le> unat (r :: byte)"
  shows "unat (r - byte_of k) = unat r - k"
proof -
  have "k < 256" using assms unat_byte_less [of r] by linarith
  then have "unat (byte_of k) = k" by simp
  with assms have "byte_of k \<le> r" by (simp add: word_le_nat_alt)
  then show ?thesis using \<open>unat (byte_of k) = k\<close> by (simp add: unat_sub)
qed

lemma byte_eq_0_unat: "(r :: byte) = 0 \<longleftrightarrow> unat r = 0"
  by (simp add: word_unat_eq_iff)

lemma unat_byte_inc [buf_simps]: "(c :: byte) < 255 \<Longrightarrow> unat (c + 1) = Suc (unat c)"
proof -
  assume "c < 255"
  then have "unat c < 255" by (simp add: word_less_nat_alt)
  then show ?thesis by (simp add: unat_word_ariths)
qed

lemma replicate_split: "k \<le> n \<Longrightarrow> replicate n x = replicate k x @ replicate (n - k) x"
  by (simp add: replicate_add [symmetric])

lemma take_min_length:
  "take (min (length xs) n) xs = take n xs" "take (min n (length xs)) xs = take n xs"
  by (simp_all add: min_def)

lemma length_drop_less: "0 < c \<Longrightarrow> c \<le> length xs \<Longrightarrow> length (drop c xs) < length xs"
  by simp

text \<open>\<open>b as i8\<close>\<close>

lemma sint_byte: "sint (h :: byte) = (if unat h < 128 then int (unat h) else int (unat h) - 256)"
proof -
  define k where "k = unat h"
  have k: "k < 256" by (simp add: k_def)
  have "sint h = signed_take_bit 7 (uint h)" by (simp add: sint_uint)
  also have "\<dots> = (int k + 128) mod 256 - 128"
    by (simp add: signed_take_bit_eq_take_bit_shift take_bit_eq_mod k_def)
  also have "\<dots> = (if k < 128 then int k else int k - 256)"
  proof (cases "k < 128")
    case False
    then have "(int k + 128) mod 256 = (int k - 128) mod 256"
      using mod_add_self2 [of "int k - 128" 256] by (simp add: add.commute)
    with False k show ?thesis by simp
  qed simp
  finally show ?thesis by (simp add: k_def)
qed

end
