(* ===== verification/Traits.thy ===== *)
theory Traits
  imports Prelude
begin

text \<open>
  The streaming codec traits (\<open>src/traits.rs\<close>): the progress records, the status enum, the
  bridge from the private \<open>Raw*\<close> traits to the public \<open>Encoder\<close> / \<open>Decoder\<close> traits, the
  default \<open>raw_flush\<close> and \<open>raw_skip\<close>, and the contract each trait puts on its implementors,
  stated as the locales \<open>encoder_contract\<close> and \<open>decoder_contract\<close>.

  A codec operation takes the codec's state, the caller's input slice and the length of the
  caller's output slice; it returns the new state and either an error or the progress record
  together with the bytes it put at the front of the output slice
  (\<open>output[..p.written]\<close>).
\<close>

section \<open>Progress, status and flush mode\<close>

record progress =
  pr_consumed :: nat
  pr_written :: nat

datatype status = InputEmpty | OutputFull | StreamEnd

datatype flush = FlushSync | FlushFull

record raw_progress =
  rp_consumed :: nat
  rp_written :: nat
  rp_done :: bool

type_synonym 's raw_result = "'s \<times> (error + raw_progress \<times> byte list)"
type_synonym 's call_result = "'s \<times> (error + progress \<times> status \<times> byte list)"

abbreviation raw_ok :: "'s \<Rightarrow> nat \<Rightarrow> byte list \<Rightarrow> bool \<Rightarrow> 's raw_result" where
  "raw_ok s c out d \<equiv>
     (s, Inr (\<lparr>rp_consumed = c, rp_written = length out, rp_done = d\<rparr>, out))"

section \<open>Default trait methods\<close>

text \<open>\<open>RawEncoder::raw_flush\<close>: formats with no sync marker report an empty, complete flush.\<close>

definition raw_flush_default :: "'s \<Rightarrow> nat \<Rightarrow> flush \<Rightarrow> 's raw_result" where
  "raw_flush_default s outlen mode = raw_ok s 0 [] True"

text \<open>
  \<open>RawDecoder::raw_skip\<close>: drain through a 1024-byte scratch buffer.  The result is \<open>None\<close>
  where the loop would not return: it spins, or \<open>&input[consumed..]\<close> is out of range.
\<close>

partial_function (option) raw_skip_loop ::
  "('s \<Rightarrow> byte list \<Rightarrow> nat \<Rightarrow> 's raw_result) \<Rightarrow> 's \<Rightarrow> byte list \<Rightarrow> nat \<Rightarrow> nat \<Rightarrow> nat \<Rightarrow> bool
   \<Rightarrow> ('s \<times> (error + raw_progress)) option" where
  "raw_skip_loop raw_decode s input n consumed written done =
     (if written < n then
        if length input < consumed then None
        else let want = min (n - written) 1024 in
          (case raw_decode s (drop consumed input) want of
             (s', Inl e) \<Rightarrow> Some (s', Inl e)
           | (s', Inr (p, _)) \<Rightarrow>
               let consumed' = consumed + rp_consumed p;
                   written' = written + rp_written p;
                   done' = rp_done p
               in if done' \<or> (rp_consumed p = 0 \<and> rp_written p = 0)
                  then Some (s', Inr \<lparr>rp_consumed = consumed', rp_written = written',
                                      rp_done = done'\<rparr>)
                  else raw_skip_loop raw_decode s' input n consumed' written' done')
      else Some (s, Inr \<lparr>rp_consumed = consumed, rp_written = written, rp_done = done\<rparr>))"

definition raw_skip ::
  "('s \<Rightarrow> byte list \<Rightarrow> nat \<Rightarrow> 's raw_result) \<Rightarrow> 's \<Rightarrow> byte list \<Rightarrow> nat
   \<Rightarrow> ('s \<times> (error + raw_progress)) option" where
  "raw_skip raw_decode s input n = raw_skip_loop raw_decode s input n 0 0 False"

section \<open>The bridge to the public traits\<close>

text \<open>\<open>impl<T: RawEncoder> Encoder for T\<close>\<close>

definition encoder_encode ::
  "('s \<Rightarrow> byte list \<Rightarrow> nat \<Rightarrow> 's raw_result) \<Rightarrow> 's \<Rightarrow> byte list \<Rightarrow> nat \<Rightarrow> 's call_result" where
  "encoder_encode raw_encode s input outlen =
     (case raw_encode s input outlen of
        (s', Inl e) \<Rightarrow> (s', Inl e)
      | (s', Inr (p, out)) \<Rightarrow>
          let st = (if length input \<le> rp_consumed p then InputEmpty else OutputFull)
          in (s', Inr (\<lparr>pr_consumed = rp_consumed p, pr_written = rp_written p\<rparr>, st, out)))"

definition encoder_finish ::
  "('s \<Rightarrow> nat \<Rightarrow> 's raw_result) \<Rightarrow> 's \<Rightarrow> nat \<Rightarrow> 's call_result" where
  "encoder_finish raw_finish s outlen =
     (case raw_finish s outlen of
        (s', Inl e) \<Rightarrow> (s', Inl e)
      | (s', Inr (p, out)) \<Rightarrow>
          let st = (if rp_done p then StreamEnd else OutputFull)
          in (s', Inr (\<lparr>pr_consumed = 0, pr_written = rp_written p\<rparr>, st, out)))"

definition encoder_flush ::
  "('s \<Rightarrow> nat \<Rightarrow> flush \<Rightarrow> 's raw_result) \<Rightarrow> 's \<Rightarrow> nat \<Rightarrow> flush \<Rightarrow> 's call_result" where
  "encoder_flush raw_flush s outlen mode =
     (case raw_flush s outlen mode of
        (s', Inl e) \<Rightarrow> (s', Inl e)
      | (s', Inr (p, out)) \<Rightarrow>
          let st = (if rp_done p then InputEmpty else OutputFull)
          in (s', Inr (\<lparr>pr_consumed = 0, pr_written = rp_written p\<rparr>, st, out)))"

text \<open>\<open>impl<T: RawDecoder> Decoder for T\<close>; the status of \<open>decode\<close> looks at the output first.\<close>

definition decoder_decode ::
  "('s \<Rightarrow> byte list \<Rightarrow> nat \<Rightarrow> 's raw_result) \<Rightarrow> 's \<Rightarrow> byte list \<Rightarrow> nat \<Rightarrow> 's call_result" where
  "decoder_decode raw_decode s input outlen =
     (case raw_decode s input outlen of
        (s', Inl e) \<Rightarrow> (s', Inl e)
      | (s', Inr (p, out)) \<Rightarrow>
          let st = (if rp_done p then StreamEnd
                    else if rp_written p = outlen \<and> outlen \<noteq> 0 then OutputFull
                    else if length input \<le> rp_consumed p then InputEmpty
                    else OutputFull)
          in (s', Inr (\<lparr>pr_consumed = rp_consumed p, pr_written = rp_written p\<rparr>, st, out)))"

definition decoder_finish ::
  "('s \<Rightarrow> nat \<Rightarrow> 's raw_result) \<Rightarrow> 's \<Rightarrow> nat \<Rightarrow> 's call_result" where
  "decoder_finish raw_finish s outlen =
     (case raw_finish s outlen of
        (s', Inl e) \<Rightarrow> (s', Inl e)
      | (s', Inr (p, out)) \<Rightarrow>
          let st = (if rp_done p then StreamEnd else OutputFull)
          in (s', Inr (\<lparr>pr_consumed = 0, pr_written = rp_written p\<rparr>, st, out)))"

definition decoder_discard_output ::
  "('s \<Rightarrow> byte list \<Rightarrow> nat \<Rightarrow> 's raw_result) \<Rightarrow> 's \<Rightarrow> byte list \<Rightarrow> nat
   \<Rightarrow> ('s \<times> (error + progress \<times> status)) option" where
  "decoder_discard_output raw_decode s input n =
     (case raw_skip raw_decode s input n of
        None \<Rightarrow> None
      | Some (s', Inl e) \<Rightarrow> Some (s', Inl e)
      | Some (s', Inr p) \<Rightarrow>
          let st = (if rp_done p then StreamEnd
                    else if n \<le> rp_written p then OutputFull
                    else if length input \<le> rp_consumed p then InputEmpty
                    else OutputFull)
          in Some (s', Inr (\<lparr>pr_consumed = rp_consumed p, pr_written = rp_written p\<rparr>, st)))"

section \<open>What an implementor promises\<close>

text \<open>
  The contract of a \<open>RawEncoder\<close>.  \<open>owed s xs\<close> is everything that still has to come out of
  state \<open>s\<close> if the caller pushes the bytes \<open>xs\<close> and then finishes; \<open>ready s xs\<close> says that
  \<open>s\<close> may be pushed \<open>xs\<close>, and \<open>closing s\<close> that it may be finished.  A call never writes past
  the output slice, reports what it wrote, hands out a prefix of what is owed, and stops early
  only because the output slice is full.
\<close>

definition encode_law ::
  "('s \<Rightarrow> byte list \<Rightarrow> bool) \<Rightarrow> ('s \<Rightarrow> byte list \<Rightarrow> byte list) \<Rightarrow> 's \<Rightarrow> byte list \<Rightarrow> byte list
   \<Rightarrow> nat \<Rightarrow> 's raw_result \<Rightarrow> bool" where
  "encode_law ready owed s xs ys n r \<longleftrightarrow>
     (\<exists>s' c out. r = raw_ok s' c out False
        \<and> c \<le> length xs \<and> length out \<le> n \<and> (c < length xs \<longrightarrow> length out = n)
        \<and> ready s' (drop c xs @ ys)
        \<and> owed s (xs @ ys) = out @ owed s' (drop c xs @ ys))"

definition finish_law ::
  "('s \<Rightarrow> bool) \<Rightarrow> ('s \<Rightarrow> byte list \<Rightarrow> byte list) \<Rightarrow> 's \<Rightarrow> nat \<Rightarrow> 's raw_result \<Rightarrow> bool" where
  "finish_law closing owed s n r \<longleftrightarrow>
     (\<exists>s' out d. r = raw_ok s' 0 out d
        \<and> length out \<le> n \<and> (\<not> d \<longrightarrow> length out = n) \<and> closing s'
        \<and> owed s [] = out @ owed s' [] \<and> (d \<longrightarrow> owed s' [] = []))"

lemma encode_lawE:
  assumes "encode_law ready owed s xs ys n r"
  obtains s' c out where "r = raw_ok s' c out False" "c \<le> length xs" "length out \<le> n"
    "c < length xs \<Longrightarrow> length out = n" "ready s' (drop c xs @ ys)"
    "owed s (xs @ ys) = out @ owed s' (drop c xs @ ys)"
  using assms unfolding encode_law_def by blast

lemma finish_lawE:
  assumes "finish_law closing owed s n r"
  obtains s' out d where "r = raw_ok s' 0 out d" "length out \<le> n" "\<not> d \<Longrightarrow> length out = n"
    "closing s'" "owed s [] = out @ owed s' []" "d \<Longrightarrow> owed s' [] = []"
  using assms unfolding finish_law_def by blast

lemma finish_lawI:
  assumes "length out \<le> n" and "\<not> d \<Longrightarrow> length out = n" and "closing s'"
    and "owed s [] = out @ owed s' []" and "d \<Longrightarrow> owed s' [] = []" and "w = length out"
  shows "finish_law closing owed s n
    (s', Inr (\<lparr>rp_consumed = 0, rp_written = w, rp_done = d\<rparr>, out))"
  unfolding finish_law_def using assms by blast

text \<open>
  A caller's history of \<open>raw_encode\<close> calls over a fixed input stream: each call is offered some
  slice \<open>xs\<close> of what is still unread and an output slice of some length, in any sizes.  The
  caller presents the bytes a call did not consume again, as the trait's documentation asks.
\<close>

inductive encode_run ::
  "('s \<Rightarrow> byte list \<Rightarrow> nat \<Rightarrow> 's raw_result) \<Rightarrow> 's \<Rightarrow> byte list
   \<Rightarrow> byte list \<Rightarrow> byte list \<Rightarrow> 's \<Rightarrow> bool"
  for raw_encode s input where
  encode_run_start: "encode_run raw_encode s input [] input s"
| encode_run_step: "encode_run raw_encode s input got (xs @ ys) s1 \<Longrightarrow>
     raw_encode s1 xs n = (s2, Inr (p, out)) \<Longrightarrow>
     encode_run raw_encode s input (got @ out) (drop (rp_consumed p) xs @ ys) s2"

inductive finish_run ::
  "('s \<Rightarrow> nat \<Rightarrow> 's raw_result) \<Rightarrow> 's \<Rightarrow> byte list \<Rightarrow> bool \<Rightarrow> 's \<Rightarrow> bool"
  for raw_finish s where
  finish_run_start: "finish_run raw_finish s [] False s"
| finish_run_step: "finish_run raw_finish s got d s1 \<Longrightarrow>
     raw_finish s1 n = (s2, Inr (p, out)) \<Longrightarrow>
     finish_run raw_finish s (got @ out) (rp_done p) s2"

lemma encode_run_stepI:
  assumes "encode_run f s input got zs s1" and "zs = xs @ ys"
    and "case f s1 xs n of (s', Inl e) \<Rightarrow> False
      | (s', Inr (p, out)) \<Rightarrow> s' = s2 \<and> got' = got @ out \<and> zs' = drop (rp_consumed p) xs @ ys"
  shows "encode_run f s input got' zs' s2"
  using assms encode_run_step [of f s input got xs ys s1 n s2]
  by (cases "f s1 xs n") (auto split: sum.splits)

lemma finish_run_stepI:
  assumes "finish_run f s got d s1"
    and "case f s1 n of (s', Inl e) \<Rightarrow> False
      | (s', Inr (p, out)) \<Rightarrow> s' = s2 \<and> got' = got @ out \<and> d' = rp_done p"
  shows "finish_run f s got' d' s2"
  using assms finish_run_step [of f s got d s1 n s2]
  by (cases "f s1 n") (auto split: sum.splits)

locale encoder_contract =
  fixes raw_encode :: "'s \<Rightarrow> byte list \<Rightarrow> nat \<Rightarrow> 's raw_result"
    and raw_finish :: "'s \<Rightarrow> nat \<Rightarrow> 's raw_result"
    and ready :: "'s \<Rightarrow> byte list \<Rightarrow> bool"
    and closing :: "'s \<Rightarrow> bool"
    and owed :: "'s \<Rightarrow> byte list \<Rightarrow> byte list"
  assumes encode_contract:
      "ready s (xs @ ys) \<Longrightarrow> encode_law ready owed s xs ys n (raw_encode s xs n)"
    and closing_ready: "ready s [] \<Longrightarrow> closing s"
    and finish_contract: "closing s \<Longrightarrow> finish_law closing owed s n (raw_finish s n)"
begin

lemma encode_run_owed:
  assumes "encode_run raw_encode s input got rest s'" and "ready s input"
  shows "ready s' rest \<and> owed s input = got @ owed s' rest"
  using assms
proof (induction rule: encode_run.induct)
  case encode_run_start
  then show ?case by simp
next
  case (encode_run_step got xs ys s1 n s2 p out)
  then have "ready s1 (xs @ ys)" and IH: "owed s input = got @ owed s1 (xs @ ys)"
    by simp_all
  from encode_contract [OF this(1), of n] encode_run_step.hyps(2) IH show ?case
    by (auto elim!: encode_lawE)
qed

lemma finish_run_owed:
  assumes "finish_run raw_finish s got d s'" and "closing s"
  shows "closing s' \<and> owed s [] = got @ owed s' [] \<and> (d \<longrightarrow> owed s' [] = [])"
  using assms
proof (induction rule: finish_run.induct)
  case finish_run_start
  then show ?case by simp
next
  case (finish_run_step got d s1 n s2 p out)
  then have "closing s1" and IH: "owed s [] = got @ owed s1 []" by simp_all
  from finish_contract [OF this(1), of n] finish_run_step.hyps(2) IH show ?case
    by (auto elim!: finish_lawE)
qed

text \<open>Chunking does not matter: a complete run yields what was owed at the start.\<close>

lemma chunked_output:
  assumes "encode_run raw_encode s input got [] s1" and "finish_run raw_finish s1 rest True s2"
    and "ready s input"
  shows "got @ rest = owed s input"
proof -
  from encode_run_owed [OF assms(1,3)] have "ready s1 []" "owed s input = got @ owed s1 []"
    by simp_all
  with finish_run_owed [OF assms(2)] closing_ready show ?thesis by simp
qed

text \<open>No call fails on a stream the encoder accepts.\<close>

lemma encode_never_fails:
  "ready s xs \<Longrightarrow> \<exists>s' p out. raw_encode s xs n = (s', Inr (p, out))"
  using encode_contract [of s xs "[]" n] by (auto elim!: encode_lawE)

end

text \<open>
  The contract of a \<open>RawDecoder\<close>.  \<open>yields s xs\<close> is what the stream \<open>xs\<close> followed by the end
  of input decodes to from state \<open>s\<close>: the bytes it produces and the error it ends in, if any.
  A call that leaves input behind and is not done has filled its output or consumed something.
\<close>

type_synonym outcome = "byte list \<times> error option"

definition emit :: "byte list \<Rightarrow> outcome \<Rightarrow> outcome" where
  "emit out r = (out @ fst r, snd r)"

lemma emit_simps [simp]:
  "emit [] r = r" "emit a (emit b r) = emit (a @ b) r" "emit a (b, e) = (a @ b, e)"
  "fst (emit a r) = a @ fst r" "snd (emit a r) = snd r"
  by (simp_all add: emit_def)

definition decode_law ::
  "('s \<Rightarrow> bool) \<Rightarrow> ('s \<Rightarrow> byte list \<Rightarrow> outcome) \<Rightarrow> 's \<Rightarrow> byte list \<Rightarrow> byte list
   \<Rightarrow> nat \<Rightarrow> 's raw_result \<Rightarrow> bool" where
  "decode_law valid yields s xs ys n r \<longleftrightarrow>
     (\<exists>s' e. r = (s', Inl e) \<and> snd (yields s (xs @ ys)) = Some e) \<or>
     (\<exists>s' c out d. r = raw_ok s' c out d
        \<and> c \<le> length xs \<and> length out \<le> n \<and> (\<not> d \<and> c < length xs \<longrightarrow> length out = n \<or> 0 < c)
        \<and> valid s' \<and> (d \<longrightarrow> (\<forall>zs. yields s' zs = ([], None)))
        \<and> yields s (xs @ ys) = emit out (yields s' (drop c xs @ ys)))"

definition drain_law ::
  "('s \<Rightarrow> bool) \<Rightarrow> ('s \<Rightarrow> byte list \<Rightarrow> outcome) \<Rightarrow> 's \<Rightarrow> nat \<Rightarrow> 's raw_result \<Rightarrow> bool" where
  "drain_law closing yields s n r \<longleftrightarrow>
     (\<exists>s' e. r = (s', Inl e) \<and> snd (yields s []) = Some e) \<or>
     (\<exists>s' out d. r = raw_ok s' 0 out d
        \<and> length out \<le> n \<and> (\<not> d \<longrightarrow> length out = n) \<and> closing s'
        \<and> (d \<longrightarrow> yields s' [] = ([], None))
        \<and> yields s [] = emit out (yields s' []))"

lemma decode_lawE:
  assumes "decode_law valid yields s xs ys n r"
  obtains (fails) s' e where "r = (s', Inl e)" "snd (yields s (xs @ ys)) = Some e"
    | (runs) s' c out d where "r = raw_ok s' c out d" "c \<le> length xs" "length out \<le> n"
        "\<not> d \<Longrightarrow> c < length xs \<Longrightarrow> length out = n \<or> 0 < c" "valid s'"
        "\<And>zs. d \<Longrightarrow> yields s' zs = ([], None)"
        "yields s (xs @ ys) = emit out (yields s' (drop c xs @ ys))"
  using assms unfolding decode_law_def by blast

lemma drain_lawE:
  assumes "drain_law closing yields s n r"
  obtains (fails) s' e where "r = (s', Inl e)" "snd (yields s []) = Some e"
    | (runs) s' out d where "r = raw_ok s' 0 out d" "length out \<le> n"
        "\<not> d \<Longrightarrow> length out = n" "closing s'" "d \<Longrightarrow> yields s' [] = ([], None)"
        "yields s [] = emit out (yields s' [])"
  using assms unfolding drain_law_def by blast

lemma drain_lawI:
  assumes "length out \<le> n" and "\<not> d \<Longrightarrow> length out = n" and "closing s'"
    and "d \<Longrightarrow> yields s' [] = ([], None)" and "yields s [] = emit out (yields s' [])"
    and "w = length out"
  shows "drain_law closing yields s n
    (s', Inr (\<lparr>rp_consumed = 0, rp_written = w, rp_done = d\<rparr>, out))"
  unfolding drain_law_def using assms by blast

lemma drain_law_error: "snd (yields s []) = Some e \<Longrightarrow> drain_law closing yields s n (s', Inl e)"
  unfolding drain_law_def by blast

inductive decode_run ::
  "('s \<Rightarrow> byte list \<Rightarrow> nat \<Rightarrow> 's raw_result) \<Rightarrow> 's \<Rightarrow> byte list
   \<Rightarrow> byte list \<Rightarrow> byte list \<Rightarrow> 's \<Rightarrow> bool"
  for raw_decode s input where
  decode_run_start: "decode_run raw_decode s input [] input s"
| decode_run_step: "decode_run raw_decode s input got (xs @ ys) s1 \<Longrightarrow>
     raw_decode s1 xs n = (s2, Inr (p, out)) \<Longrightarrow>
     decode_run raw_decode s input (got @ out) (drop (rp_consumed p) xs @ ys) s2"

lemma decode_run_stepI:
  assumes "decode_run f s input got zs s1" and "zs = xs @ ys"
    and "case f s1 xs n of (s', Inl e) \<Rightarrow> False
      | (s', Inr (p, out)) \<Rightarrow> s' = s2 \<and> got' = got @ out \<and> zs' = drop (rp_consumed p) xs @ ys"
  shows "decode_run f s input got' zs' s2"
  using assms decode_run_step [of f s input got xs ys s1 n s2]
  by (cases "f s1 xs n") (auto split: sum.splits)

locale decoder_contract =
  fixes raw_decode :: "'s \<Rightarrow> byte list \<Rightarrow> nat \<Rightarrow> 's raw_result"
    and raw_finish :: "'s \<Rightarrow> nat \<Rightarrow> 's raw_result"
    and valid :: "'s \<Rightarrow> bool"
    and closing :: "'s \<Rightarrow> bool"
    and yields :: "'s \<Rightarrow> byte list \<Rightarrow> outcome"
  assumes decode_contract:
      "valid s \<Longrightarrow> decode_law valid yields s xs ys n (raw_decode s xs n)"
    and closing_valid: "valid s \<Longrightarrow> closing s"
    and drain_contract: "closing s \<Longrightarrow> drain_law closing yields s n (raw_finish s n)"
begin

lemma decode_run_yields:
  assumes "decode_run raw_decode s input got rest s'" and "valid s"
  shows "valid s' \<and> yields s input = emit got (yields s' rest)"
  using assms
proof (induction rule: decode_run.induct)
  case decode_run_start
  then show ?case by simp
next
  case (decode_run_step got xs ys s1 n s2 p out)
  then have "valid s1" and IH: "yields s input = emit got (yields s1 (xs @ ys))"
    by simp_all
  from decode_contract [OF this(1), of xs ys n] decode_run_step.hyps(2) IH show ?case
    by (auto elim!: decode_lawE)
qed

lemma drain_run_yields:
  assumes "finish_run raw_finish s got d s'" and "closing s"
  shows "closing s' \<and> yields s [] = emit got (yields s' []) \<and> (d \<longrightarrow> yields s' [] = ([], None))"
  using assms
proof (induction rule: finish_run.induct)
  case finish_run_start
  then show ?case by simp
next
  case (finish_run_step got d s1 n s2 p out)
  then have "closing s1" and IH: "yields s [] = emit got (yields s1 [])" by simp_all
  from drain_contract [OF this(1), of n] finish_run_step.hyps(2) IH show ?case
    by (auto elim!: drain_lawE)
qed

text \<open>However the stream is cut up, a decode that completes produced exactly its plaintext.\<close>

lemma chunked_decode:
  assumes "decode_run raw_decode s input got [] s1" and "finish_run raw_finish s1 rest True s2"
    and "valid s"
  shows "yields s input = (got @ rest, None)"
proof -
  from decode_run_yields [OF assms(1,3)]
  have "valid s1" "yields s input = emit got (yields s1 [])" by simp_all
  with drain_run_yields [OF assms(2)] closing_valid show ?thesis by simp
qed

end

section \<open>Loops with counters\<close>

text \<open>
  The body of most \<open>raw_encode\<close> / \<open>raw_decode\<close> implementations is a \<open>loop\<close> over \<open>consumed\<close> and
  \<open>written\<close> counters.  In the models such a loop takes the unread input \<open>input[consumed..]\<close>, the
  length of the output slice, the counter and the bytes written so far.  The two laws below are
  the contracts above with these accumulators; \<open>_stop\<close> is a \<open>return\<close>, \<open>_step\<close> one turn.
\<close>

definition encode_acc ::
  "('s \<Rightarrow> byte list \<Rightarrow> bool) \<Rightarrow> ('s \<Rightarrow> byte list \<Rightarrow> byte list) \<Rightarrow> 's \<Rightarrow> byte list \<Rightarrow> byte list
   \<Rightarrow> nat \<Rightarrow> nat \<Rightarrow> byte list \<Rightarrow> 's raw_result \<Rightarrow> bool" where
  "encode_acc ready owed s xs ys n c out r \<longleftrightarrow>
     (\<exists>s' k o1. r = raw_ok s' (c + k) (out @ o1) False
        \<and> k \<le> length xs \<and> length (out @ o1) \<le> n \<and> (k < length xs \<longrightarrow> length (out @ o1) = n)
        \<and> ready s' (drop k xs @ ys)
        \<and> owed s (xs @ ys) = o1 @ owed s' (drop k xs @ ys))"

lemma encode_acc_stop:
  assumes "length out \<le> n" and "xs = [] \<or> length out = n" and "ready s (xs @ ys)"
    and "w = length out"
  shows "encode_acc ready owed s xs ys n c out
    (s, Inr (\<lparr>rp_consumed = c, rp_written = w, rp_done = False\<rparr>, out))"
  unfolding encode_acc_def
  using assms by (intro exI [of _ s] exI [of _ 0] exI [of _ "[]"]) auto

lemma encode_acc_step:
  assumes "encode_acc ready owed s1 (drop k xs) ys n (c + k) (out @ o1) r" and "k \<le> length xs"
    and "owed s (xs @ ys) = o1 @ owed s1 (drop k xs @ ys)"
  shows "encode_acc ready owed s xs ys n c out r"
proof -
  from assms(1) obtain s' k' o2 where
    "r = raw_ok s' (c + k + k') ((out @ o1) @ o2) False" "k' \<le> length xs - k"
    "length ((out @ o1) @ o2) \<le> n" "k' < length xs - k \<longrightarrow> length ((out @ o1) @ o2) = n"
    "ready s' (drop (k' + k) xs @ ys)"
    "owed s1 (drop k xs @ ys) = o2 @ owed s' (drop (k' + k) xs @ ys)"
    unfolding encode_acc_def by (auto simp: add.commute)
  then show ?thesis
    unfolding encode_acc_def using assms(2,3)
    by (intro exI [of _ s'] exI [of _ "k' + k"] exI [of _ "o1 @ o2"])
      (auto simp: add.commute add.left_commute)
qed

lemma encode_acc_write:
  "encode_acc ready owed s1 xs ys n c (out @ o1) r \<Longrightarrow>
   owed s (xs @ ys) = o1 @ owed s1 (xs @ ys) \<Longrightarrow> encode_acc ready owed s xs ys n c out r"
  by (rule encode_acc_step [where k = 0 and ?s1.0 = s1 and ?o1.0 = o1]) simp_all

lemma encode_acc_read:
  "encode_acc ready owed s1 xs ys n (Suc c) out r \<Longrightarrow>
   owed s (x # xs @ ys) = owed s1 (xs @ ys) \<Longrightarrow> encode_acc ready owed s (x # xs) ys n c out r"
  by (rule encode_acc_step [where k = 1 and ?s1.0 = s1 and ?o1.0 = "[]"]) simp_all

lemma encode_acc_law:
  "encode_acc ready owed s xs ys n 0 [] r \<Longrightarrow> encode_law ready owed s xs ys n r"
  unfolding encode_acc_def encode_law_def by auto

definition decode_acc ::
  "('s \<Rightarrow> bool) \<Rightarrow> ('s \<Rightarrow> byte list \<Rightarrow> outcome) \<Rightarrow> 's \<Rightarrow> byte list \<Rightarrow> byte list
   \<Rightarrow> nat \<Rightarrow> nat \<Rightarrow> byte list \<Rightarrow> 's raw_result \<Rightarrow> bool" where
  "decode_acc valid yields s xs ys n c out r \<longleftrightarrow>
     (\<exists>s' e. r = (s', Inl e) \<and> snd (yields s (xs @ ys)) = Some e) \<or>
     (\<exists>s' k o1 d. r = raw_ok s' (c + k) (out @ o1) d
        \<and> k \<le> length xs \<and> length (out @ o1) \<le> n
        \<and> (\<not> d \<and> k < length xs \<longrightarrow> length (out @ o1) = n \<or> 0 < c + k)
        \<and> valid s' \<and> (d \<longrightarrow> (\<forall>zs. yields s' zs = ([], None)))
        \<and> yields s (xs @ ys) = emit o1 (yields s' (drop k xs @ ys)))"

lemma decode_acc_stop:
  assumes "length out \<le> n" and "xs = [] \<or> length out = n \<or> 0 < c" and "valid s" and "w = length out"
  shows "decode_acc valid yields s xs ys n c out
    (s, Inr (\<lparr>rp_consumed = c, rp_written = w, rp_done = False\<rparr>, out))"
  unfolding decode_acc_def
  using assms by (intro disjI2 exI [of _ s] exI [of _ 0] exI [of _ "[]"]) auto

lemma decode_acc_done:
  assumes "length out \<le> n" and "valid s" and "\<And>zs. yields s zs = ([], None)"
    and "w = length out"
  shows "decode_acc valid yields s xs ys n c out
    (s, Inr (\<lparr>rp_consumed = c, rp_written = w, rp_done = True\<rparr>, out))"
  unfolding decode_acc_def
  using assms by (intro disjI2 exI [of _ s] exI [of _ 0] exI [of _ "[]"]) auto

lemma decode_acc_error:
  "snd (yields s (xs @ ys)) = Some e \<Longrightarrow> decode_acc valid yields s xs ys n c out (s', Inl e)"
  unfolding decode_acc_def by blast

lemma decode_acc_step:
  assumes "decode_acc valid yields s1 (drop k xs) ys n (c + k) (out @ o1) r" and "k \<le> length xs"
    and "yields s (xs @ ys) = emit o1 (yields s1 (drop k xs @ ys))"
  shows "decode_acc valid yields s xs ys n c out r"
  using assms(1) unfolding decode_acc_def
proof (elim disjE exE conjE, goal_cases)
  case (1 s' e)
  with assms(3) show ?case by simp
next
  case (2 s' k' o2 d)
  with assms(2,3) show ?case
    by (intro disjI2 exI [of _ s'] exI [of _ "k' + k"] exI [of _ "o1 @ o2"] exI [of _ d])
      (auto simp: add.commute add.left_commute)
qed

lemma decode_acc_write:
  "decode_acc valid yields s1 xs ys n c (out @ o1) r \<Longrightarrow>
   yields s (xs @ ys) = emit o1 (yields s1 (xs @ ys)) \<Longrightarrow>
   decode_acc valid yields s xs ys n c out r"
  by (rule decode_acc_step [where k = 0 and ?s1.0 = s1 and ?o1.0 = o1]) simp_all

lemma decode_acc_read:
  "decode_acc valid yields s1 xs ys n (Suc c) out r \<Longrightarrow>
   yields s (x # xs @ ys) = yields s1 (xs @ ys) \<Longrightarrow>
   decode_acc valid yields s (x # xs) ys n c out r"
  by (rule decode_acc_step [where k = 1 and ?s1.0 = s1 and ?o1.0 = "[]"]) simp_all

lemma decode_acc_silent:
  "decode_acc valid yields s1 xs ys n c out r \<Longrightarrow>
   yields s (xs @ ys) = yields s1 (xs @ ys) \<Longrightarrow>
   decode_acc valid yields s xs ys n c out r"
  by (rule decode_acc_step [where k = 0 and ?s1.0 = s1 and ?o1.0 = "[]"]) simp_all

lemma decode_acc_law:
  "decode_acc valid yields s xs ys n 0 [] r \<Longrightarrow> decode_law valid yields s xs ys n r"
  unfolding decode_acc_def decode_law_def by auto

section \<open>The public decoder contract\<close>

text \<open>
  What a user of the public \<open>Decoder\<close> trait may rely on.  It is stated over the status enum, so
  that wrappers which are decoders themselves (\<open>LimitedDecoder\<close>) can be shown to keep it.
  \<open>plain s xs\<close> is the plaintext of the stream \<open>xs\<close> from state \<open>s\<close>, and \<open>faults s xs\<close> the
  errors a user may be given for it (none for a well-formed stream).
\<close>

definition call_law ::
  "('s \<Rightarrow> bool) \<Rightarrow> ('s \<Rightarrow> byte list \<Rightarrow> byte list) \<Rightarrow> ('s \<Rightarrow> byte list \<Rightarrow> error set)
   \<Rightarrow> 's \<Rightarrow> byte list \<Rightarrow> byte list \<Rightarrow> nat \<Rightarrow> 's call_result \<Rightarrow> bool" where
  "call_law valid plain faults s xs ys n r \<longleftrightarrow>
     (\<exists>s' e. r = (s', Inl e) \<and> e \<in> faults s (xs @ ys)) \<or>
     (\<exists>s' c out st. r = (s', Inr (\<lparr>pr_consumed = c, pr_written = length out\<rparr>, st, out))
        \<and> c \<le> length xs \<and> length out \<le> n \<and> valid s'
        \<and> (st = InputEmpty \<longrightarrow> c = length xs)
        \<and> (st = OutputFull \<and> 0 < n \<longrightarrow> 0 < c \<or> out \<noteq> [])
        \<and> (st = StreamEnd \<longrightarrow> (\<forall>zs. plain s' zs = [] \<and> faults s' zs = {}))
        \<and> plain s (xs @ ys) = out @ plain s' (drop c xs @ ys)
        \<and> faults s (xs @ ys) = faults s' (drop c xs @ ys))"

definition close_law ::
  "('s \<Rightarrow> bool) \<Rightarrow> ('s \<Rightarrow> byte list \<Rightarrow> byte list) \<Rightarrow> ('s \<Rightarrow> byte list \<Rightarrow> error set)
   \<Rightarrow> 's \<Rightarrow> nat \<Rightarrow> 's call_result \<Rightarrow> bool" where
  "close_law closing plain faults s n r \<longleftrightarrow>
     (\<exists>s' e. r = (s', Inl e) \<and> e \<in> faults s []) \<or>
     (\<exists>s' out st. r = (s', Inr (\<lparr>pr_consumed = 0, pr_written = length out\<rparr>, st, out))
        \<and> length out \<le> n \<and> closing s' \<and> st \<noteq> InputEmpty
        \<and> (st = OutputFull \<and> 0 < n \<longrightarrow> out \<noteq> [])
        \<and> (st = StreamEnd \<longrightarrow> plain s' [] = [] \<and> faults s' [] = {})
        \<and> plain s [] = out @ plain s' [] \<and> faults s [] = faults s' [])"

lemma call_lawE:
  assumes "call_law valid plain faults s xs ys n r"
  obtains (fails) s' e where "r = (s', Inl e)" "e \<in> faults s (xs @ ys)"
    | (runs) s' c out st where
        "r = (s', Inr (\<lparr>pr_consumed = c, pr_written = length out\<rparr>, st, out))"
        "c \<le> length xs" "length out \<le> n" "valid s'" "st = InputEmpty \<Longrightarrow> c = length xs"
        "st = OutputFull \<Longrightarrow> 0 < n \<Longrightarrow> 0 < c \<or> out \<noteq> []"
        "\<And>zs. st = StreamEnd \<Longrightarrow> plain s' zs = []" "\<And>zs. st = StreamEnd \<Longrightarrow> faults s' zs = {}"
        "plain s (xs @ ys) = out @ plain s' (drop c xs @ ys)"
        "faults s (xs @ ys) = faults s' (drop c xs @ ys)"
  using assms unfolding call_law_def by blast

lemma close_lawE:
  assumes "close_law closing plain faults s n r"
  obtains (fails) s' e where "r = (s', Inl e)" "e \<in> faults s []"
    | (runs) s' out st where
        "r = (s', Inr (\<lparr>pr_consumed = 0, pr_written = length out\<rparr>, st, out))"
        "length out \<le> n" "closing s'" "st \<noteq> InputEmpty"
        "st = OutputFull \<Longrightarrow> 0 < n \<Longrightarrow> out \<noteq> []"
        "st = StreamEnd \<Longrightarrow> plain s' [] = []" "st = StreamEnd \<Longrightarrow> faults s' [] = {}"
        "plain s [] = out @ plain s' []" "faults s [] = faults s' []"
  using assms unfolding close_law_def by blast

locale decoder_api =
  fixes decode :: "'s \<Rightarrow> byte list \<Rightarrow> nat \<Rightarrow> 's call_result"
    and finish :: "'s \<Rightarrow> nat \<Rightarrow> 's call_result"
    and valid :: "'s \<Rightarrow> bool"
    and closing :: "'s \<Rightarrow> bool"
    and plain :: "'s \<Rightarrow> byte list \<Rightarrow> byte list"
    and faults :: "'s \<Rightarrow> byte list \<Rightarrow> error set"
  assumes call_contract: "valid s \<Longrightarrow> call_law valid plain faults s xs ys n (decode s xs n)"
    and valid_closing: "valid s \<Longrightarrow> closing s"
    and close_contract: "closing s \<Longrightarrow> close_law closing plain faults s n (finish s n)"

text \<open>The bridge turns every contract-keeping \<open>RawDecoder\<close> into a contract-keeping \<open>Decoder\<close>.\<close>

sublocale decoder_contract \<subseteq> api: decoder_api
  "decoder_decode raw_decode" "decoder_finish raw_finish" valid closing
  "\<lambda>s xs. fst (yields s xs)" "\<lambda>s xs. set_option (snd (yields s xs))"
proof unfold_locales
  fix s xs ys n
  assume "valid s"
  from decode_contract [OF this, of xs ys n]
  show "call_law valid (\<lambda>s xs. fst (yields s xs)) (\<lambda>s xs. set_option (snd (yields s xs)))
          s xs ys n (decoder_decode raw_decode s xs n)"
  proof (cases rule: decode_lawE)
    case (fails s' e)
    then show ?thesis by (simp add: call_law_def decoder_decode_def)
  next
    case (runs s' c out d)
    then show ?thesis by (fastforce simp: call_law_def decoder_decode_def)
  qed
next
  fix s n
  assume "closing s"
  from drain_contract [OF this, of n]
  show "close_law closing (\<lambda>s xs. fst (yields s xs)) (\<lambda>s xs. set_option (snd (yields s xs)))
          s n (decoder_finish raw_finish s n)"
  proof (cases rule: drain_lawE)
    case (fails s' e)
    then show ?thesis by (simp add: close_law_def decoder_finish_def)
  next
    case (runs s' out d)
    then show ?thesis by (auto simp: close_law_def decoder_finish_def)
  qed
qed (fact closing_valid)

end
