(* ===== verification/OneShot.thy ===== *)
theory OneShot
  imports Traits
begin

text \<open>
  The one-shot helpers of \<open>src/vec.rs\<close>: the loops that drive a whole payload through an
  encoder or a decoder, and what they return for any implementor that keeps its trait's
  contract.  A loop of the source is a \<open>partial_function (option)\<close>; \<open>None\<close> means that it does
  not return (it spins, or slices \<open>&input[consumed..]\<close> out of range).  The lemmas inside the
  locales of \<open>Traits\<close> prove that it returns.
\<close>

definition SCRATCH :: nat where
  "SCRATCH = 64 * 1024"

lemma SCRATCH_pos [simp]: "0 < SCRATCH"
  by (simp add: SCRATCH_def)

section \<open>Compression\<close>

partial_function (option) compress_encode_loop ::
  "('s \<Rightarrow> byte list \<Rightarrow> nat \<Rightarrow> 's call_result) \<Rightarrow> 's \<Rightarrow> byte list \<Rightarrow> nat \<Rightarrow> byte list
   \<Rightarrow> (error + 's \<times> byte list) option" where
  "compress_encode_loop encode s input consumed out =
     (if consumed < length input then
        (case encode s (drop consumed input) SCRATCH of
           (s', Inl e) \<Rightarrow> Some (Inl e)
         | (s', Inr (p, st, o1)) \<Rightarrow>
             (case st of
                InputEmpty \<Rightarrow> Some (Inr (s', out @ o1))
              | OutputFull \<Rightarrow>
                  compress_encode_loop encode s' input (consumed + pr_consumed p) (out @ o1)
              | StreamEnd \<Rightarrow> Some (Inr (s', out @ o1))))
      else Some (Inr (s, out)))"

partial_function (option) compress_finish_loop ::
  "('s \<Rightarrow> nat \<Rightarrow> 's call_result) \<Rightarrow> 's \<Rightarrow> byte list \<Rightarrow> (error + byte list) option" where
  "compress_finish_loop finish s out =
     (case finish s SCRATCH of
        (s', Inl e) \<Rightarrow> Some (Inl e)
      | (s', Inr (p, st, o1)) \<Rightarrow>
          if st = StreamEnd then Some (Inr (out @ o1))
          else if pr_written p = 0 then Some (Inl Corrupt)
          else compress_finish_loop finish s' (out @ o1))"

definition compress_to_vec_with ::
  "('s \<Rightarrow> byte list \<Rightarrow> nat \<Rightarrow> 's call_result) \<Rightarrow> ('s \<Rightarrow> nat \<Rightarrow> 's call_result) \<Rightarrow> 's
   \<Rightarrow> byte list \<Rightarrow> (error + byte list) option" where
  "compress_to_vec_with encode finish enc input =
     (case compress_encode_loop encode enc input 0 [] of
        None \<Rightarrow> None
      | Some (Inl e) \<Rightarrow> Some (Inl e)
      | Some (Inr (s, out)) \<Rightarrow> compress_finish_loop finish s out)"

section \<open>Decompression\<close>

partial_function (option) drive_decode_loop ::
  "('s \<Rightarrow> byte list \<Rightarrow> nat \<Rightarrow> 's call_result) \<Rightarrow> 's \<Rightarrow> byte list \<Rightarrow> nat \<Rightarrow> nat \<Rightarrow> byte list
   \<Rightarrow> (error + 's \<times> byte list \<times> bool) option" where
  "drive_decode_loop decode s input scratch consumed out =
     (if length input < consumed then None
      else case decode s (drop consumed input) scratch of
        (s', Inl e) \<Rightarrow> Some (Inl e)
      | (s', Inr (p, st, o1)) \<Rightarrow>
          (case st of
             StreamEnd \<Rightarrow> Some (Inr (s', out @ o1, True))
           | InputEmpty \<Rightarrow> Some (Inr (s', out @ o1, False))
           | OutputFull \<Rightarrow>
               if pr_consumed p = 0 \<and> pr_written p = 0
               then Some (Inr (s', out @ o1, False))
               else drive_decode_loop decode s' input scratch (consumed + pr_consumed p)
                      (out @ o1)))"

partial_function (option) drive_finish_loop ::
  "('s \<Rightarrow> nat \<Rightarrow> 's call_result) \<Rightarrow> 's \<Rightarrow> nat \<Rightarrow> byte list \<Rightarrow> (error + byte list) option" where
  "drive_finish_loop finish s scratch out =
     (case finish s scratch of
        (s', Inl e) \<Rightarrow> Some (Inl e)
      | (s', Inr (p, st, o1)) \<Rightarrow>
          if st = StreamEnd then Some (Inr (out @ o1))
          else if pr_written p = 0 then Some (Inl Corrupt)
          else drive_finish_loop finish s' scratch (out @ o1))"

text \<open>The flag of \<open>drive_decode_loop\<close> is the early \<open>return Ok(())\<close> on \<open>StreamEnd\<close>.\<close>

definition drive_decoder ::
  "('s \<Rightarrow> byte list \<Rightarrow> nat \<Rightarrow> 's call_result) \<Rightarrow> ('s \<Rightarrow> nat \<Rightarrow> 's call_result) \<Rightarrow> 's
   \<Rightarrow> byte list \<Rightarrow> nat \<Rightarrow> (error + byte list) option" where
  "drive_decoder decode finish dec input scratch =
     (case drive_decode_loop decode dec input scratch 0 [] of
        None \<Rightarrow> None
      | Some (Inl e) \<Rightarrow> Some (Inl e)
      | Some (Inr (s, out, ended)) \<Rightarrow>
          if ended then Some (Inr out) else drive_finish_loop finish s scratch out)"

definition decompress_to_vec_with ::
  "('s \<Rightarrow> byte list \<Rightarrow> nat \<Rightarrow> 's call_result) \<Rightarrow> ('s \<Rightarrow> nat \<Rightarrow> 's call_result) \<Rightarrow> 's
   \<Rightarrow> byte list \<Rightarrow> (error + byte list) option" where
  "decompress_to_vec_with decode finish dec input =
     drive_decoder decode finish dec input SCRATCH"

section \<open>Invariants of the decode loops\<close>

text \<open>
  What every successful call keeps holds for the result of the loops, whatever the decoder.
\<close>

lemma drive_decode_loop_invariant:
  fixes decode :: "'s \<Rightarrow> byte list \<Rightarrow> nat \<Rightarrow> 's call_result"
  assumes step: "\<And>s xs n s' p st o1 out. I s out \<Longrightarrow> decode s xs n = (s', Inr (p, st, o1))
      \<Longrightarrow> I s' (out @ o1)"
    and ret: "drive_decode_loop decode s input scratch consumed out = Some (Inr (s', out', ended))"
    and start: "I s out"
  shows "I s' out'"
proof -
  let ?P = "\<lambda>dec s input (scratch :: nat) (consumed :: nat) out (r :: error + 's \<times> byte list \<times> bool). dec = decode \<longrightarrow> I s out \<longrightarrow>
      (\<forall>s' out' ended. r = Inr (s', out', ended) \<longrightarrow> I s' out')"
  have "?P decode s input scratch consumed out (Inr (s', out', ended))"
  proof (rule drive_decode_loop.raw_induct [where P = ?P, OF _ ret], goal_cases)
    case (1 loop dec s input scratch consumed out r)
    show ?case
    proof (intro impI allI)
      fix s2 out2 ended2
      assume a: "dec = decode" "I s out" "r = Inr (s2, out2, ended2)"
      with 1(2) obtain s1 p st o1 where
        d: "decode s (drop consumed input) scratch = (s1, Inr (p, st, o1))"
        by (auto split: if_splits prod.splits sum.splits)
      from step [OF a(2) d] have I1: "I s1 (out @ o1)" .
      show "I s2 out2"
      proof (cases "st = OutputFull \<and> \<not> (pr_consumed p = 0 \<and> pr_written p = 0)")
        case True
        with 1(2) d a have "loop decode s1 input scratch (consumed + pr_consumed p) (out @ o1)
            = Some (Inr (s2, out2, ended2))" by (auto split: if_splits)
        from 1(1) [OF this] I1 show ?thesis by blast
      next
        case False
        with 1(2) d a I1 show ?thesis by (cases st) (auto split: if_splits)
      qed
    qed
  qed
  with start show ?thesis by blast
qed

lemma drive_finish_loop_invariant:
  fixes finish :: "'s \<Rightarrow> nat \<Rightarrow> 's call_result"
  assumes step: "\<And>s n s' p st o1 out. I s out \<Longrightarrow> finish s n = (s', Inr (p, st, o1))
      \<Longrightarrow> I s' (out @ o1)"
    and ret: "drive_finish_loop finish s scratch out = Some (Inr out')"
    and start: "I s out"
  shows "\<exists>s'. I s' out'"
proof -
  let ?P = "\<lambda>fin s (scratch :: nat) out (r :: error + byte list). fin = finish \<longrightarrow> I s out \<longrightarrow>
      (\<forall>out'. r = Inr out' \<longrightarrow> (\<exists>s'. I s' out'))"
  have "?P finish s scratch out (Inr out')"
  proof (rule drive_finish_loop.raw_induct [where P = ?P, OF _ ret], goal_cases)
    case (1 loop fin s scratch out r)
    show ?case
    proof (intro impI allI)
      fix out2
      assume a: "fin = finish" "I s out" "r = Inr out2"
      with 1(2) obtain s1 p st o1 where d: "finish s scratch = (s1, Inr (p, st, o1))"
        by (auto split: if_splits prod.splits sum.splits)
      from step [OF a(2) d] have I1: "I s1 (out @ o1)" .
      show "\<exists>s'. I s' out2"
      proof (cases "st = StreamEnd \<or> pr_written p = 0")
        case True
        with 1(2) d a I1 show ?thesis by (auto split: if_splits)
      next
        case False
        with 1(2) d a have "loop finish s1 scratch (out @ o1) = Some (Inr out2)" by simp
        from 1(1) [OF this] I1 show ?thesis by blast
      qed
    qed
  qed
  with start show ?thesis by blast
qed

lemma drive_decoder_invariant:
  assumes "\<And>s xs n s' p st o1 out. I s out \<Longrightarrow> decode s xs n = (s', Inr (p, st, o1))
      \<Longrightarrow> I s' (out @ o1)"
    and "\<And>s n s' p st o1 out. I s out \<Longrightarrow> finish s n = (s', Inr (p, st, o1)) \<Longrightarrow> I s' (out @ o1)"
    and ret: "drive_decoder decode finish s input scratch = Some (Inr out)"
    and start: "I s []"
  shows "\<exists>s'. I s' out"
proof -
  from ret obtain s1 out1 ended where
    loop: "drive_decode_loop decode s input scratch 0 [] = Some (Inr (s1, out1, ended))"
    and rest: "ended \<and> out = out1 \<or> drive_finish_loop finish s1 scratch out1 = Some (Inr out)"
    by (auto simp: drive_decoder_def split: option.splits sum.splits if_splits)
  have "I s1 out1" 
    by (rule drive_decode_loop_invariant [where I = I, OF _ loop start]) (rule assms(1))
  from rest show ?thesis
  proof
    assume "drive_finish_loop finish s1 scratch out1 = Some (Inr out)"
    from assms(2) this \<open>I s1 out1\<close> show ?thesis by (rule drive_finish_loop_invariant)
  qed (use \<open>I s1 out1\<close> in blast)
qed

section \<open>The loops over an encoder that keeps its contract\<close>

context encoder_contract
begin

lemma encode_loop_returns:
  assumes "ready s (drop consumed input)" and "consumed \<le> length input"
  shows "\<exists>s' o1. compress_encode_loop (encoder_encode raw_encode) s input consumed out
           = Some (Inr (s', out @ o1)) \<and> ready s' []
           \<and> owed s (drop consumed input) = o1 @ owed s' []"
  using assms
proof (induction "length (owed s (drop consumed input))" arbitrary: s consumed out
    rule: less_induct)
  case less
  show ?case
  proof (cases "consumed < length input")
    case False
    with less.prems show ?thesis by (simp add: compress_encode_loop.simps)
  next
    case True
    from encode_contract [of s "drop consumed input" "[]" SCRATCH] less.prems
    obtain s' c o1 where r: "raw_encode s (drop consumed input) SCRATCH = raw_ok s' c o1 False"
      and c: "c \<le> length input - consumed"
      and full: "c < length input - consumed \<Longrightarrow> length o1 = SCRATCH"
      and ready': "ready s' (drop c (drop consumed input))"
      and owed: "owed s (drop consumed input) = o1 @ owed s' (drop c (drop consumed input))"
      by (auto elim!: encode_lawE)
    show ?thesis
    proof (cases "c < length input - consumed")
      case False
      with True r c ready' owed show ?thesis
        by (auto simp: compress_encode_loop.simps [of _ s] encoder_encode_def)
    next
      case more: True
      have "length (owed s' (drop (consumed + c) input)) < length (owed s (drop consumed input))"
        using owed full [OF more] by (simp add: add.commute)
      moreover have "consumed + c \<le> length input" using c True by simp
      ultimately obtain s'' o2 where
        "compress_encode_loop (encoder_encode raw_encode) s' input (consumed + c) (out @ o1)
           = Some (Inr (s'', out @ o1 @ o2))" "ready s'' []"
        "owed s' (drop (consumed + c) input) = o2 @ owed s'' []"
        using less.hyps [of s' "consumed + c" "out @ o1"] ready' by (auto simp: add.commute)
      with True r more owed show ?thesis
        by (auto simp: compress_encode_loop.simps [of _ s] encoder_encode_def add.commute)
    qed
  qed
qed

lemma finish_loop_returns:
  assumes "closing s"
  shows "compress_finish_loop (encoder_finish raw_finish) s out = Some (Inr (out @ owed s []))"
  using assms
proof (induction "length (owed s [])" arbitrary: s out rule: less_induct)
  case less
  from finish_contract [OF less.prems, of SCRATCH]
  obtain s' o1 d where r: "raw_finish s SCRATCH = raw_ok s' 0 o1 d"
    and full: "\<not> d \<Longrightarrow> length o1 = SCRATCH" and "closing s'"
    and owed: "owed s [] = o1 @ owed s' []" and empty: "d \<Longrightarrow> owed s' [] = []"
    by (auto elim!: finish_lawE)
  show ?case
  proof (cases d)
    case True
    with r owed empty show ?thesis
      by (simp add: compress_finish_loop.simps [of _ s] encoder_finish_def)
  next
    case False
    with owed full have "length (owed s' []) < length (owed s [])" by simp
    from less.hyps [OF this \<open>closing s'\<close>, of "out @ o1"] False r owed full show ?thesis
      by (simp add: compress_finish_loop.simps [of _ s] encoder_finish_def)
  qed
qed

lemma compress_returns:
  assumes "ready s input"
  shows "compress_to_vec_with (encoder_encode raw_encode) (encoder_finish raw_finish) s input
         = Some (Inr (owed s input))"
proof -
  from encode_loop_returns [of s 0 input "[]"] assms obtain s' o1 where
    "compress_encode_loop (encoder_encode raw_encode) s input 0 [] = Some (Inr (s', o1))"
    "ready s' []" "owed s input = o1 @ owed s' []" by auto
  then show ?thesis
    by (simp add: compress_to_vec_with_def finish_loop_returns closing_ready)
qed

end

section \<open>The loops over a decoder that keeps its contract\<close>

text \<open>A result the contract allows: the whole plaintext, or one of the stream's faults.\<close>

definition allowed_result :: "byte list \<Rightarrow> error set \<Rightarrow> error + byte list \<Rightarrow> bool" where
  "allowed_result out errs r \<longleftrightarrow> (case r of Inl e \<Rightarrow> e \<in> errs | Inr o1 \<Rightarrow> errs = {} \<and> o1 = out)"

lemma allowed_result_simps [simp]:
  "allowed_result out errs (Inl e) \<longleftrightarrow> e \<in> errs"
  "allowed_result out errs (Inr o1) \<longleftrightarrow> errs = {} \<and> o1 = out"
  by (simp_all add: allowed_result_def)

context decoder_api
begin

lemma finish_loop_allowed:
  assumes "closing s" and "0 < scratch"
  shows "\<exists>r. drive_finish_loop finish s scratch out = Some r
           \<and> allowed_result (out @ plain s []) (faults s []) r"
  using assms(1)
proof (induction "length (plain s [])" arbitrary: s out rule: less_induct)
  case less
  note step = drive_finish_loop.simps [of _ s]
  from close_contract [OF less.prems, of scratch] show ?case
  proof (cases rule: close_lawE)
    case (fails s' e)
    then show ?thesis by (simp add: step)
  next
    case (runs s' o1 st)
    show ?thesis
    proof (cases "st = StreamEnd")
      case True
      with runs show ?thesis by (simp add: step)
    next
      case False
      with runs(4) have "st = OutputFull" by (cases st) simp_all
      with runs assms(2) have "o1 \<noteq> []" by simp
      with runs(8) have "length (plain s' []) < length (plain s [])" by simp
      from less.hyps [OF this runs(3), of "out @ o1"] runs \<open>o1 \<noteq> []\<close> False show ?thesis
        by (auto simp: step)
    qed
  qed
qed

lemma decode_loop_allowed:
  assumes "valid s" and "consumed \<le> length input" and "0 < scratch"
  shows "case drive_decode_loop decode s input scratch consumed out of
            None \<Rightarrow> False
          | Some (Inl e) \<Rightarrow> e \<in> faults s (drop consumed input)
          | Some (Inr (s', out', ended)) \<Rightarrow> valid s'
              \<and> (ended \<longrightarrow> plain s' [] = [] \<and> faults s' [] = {})
              \<and> out @ plain s (drop consumed input) = out' @ plain s' []
              \<and> faults s (drop consumed input) = faults s' []"
  using assms(1,2)
proof (induction "length (plain s (drop consumed input)) + (length input - consumed)"
    arbitrary: s consumed out rule: less_induct)
  case less
  let ?in = "drop consumed input"
  note step = drive_decode_loop.simps [of _ s]
  from call_contract [OF less.prems(1), of ?in "[]" scratch] show ?case
  proof (cases rule: call_lawE)
    case (fails s' e)
    with less.prems show ?thesis by (simp add: step)
  next
    case (runs s' c o1 st)
    show ?thesis
    proof (cases "st = OutputFull")
      case True
      with runs(6) assms(3) have progress: "0 < c \<or> o1 \<noteq> []" by simp
      then have shorter: "length (plain s' (drop (consumed + c) input))
          + (length input - (consumed + c))
          < length (plain s ?in) + (length input - consumed)"
        using runs(2,9) by (cases o1) (auto simp: add.commute)
      have "consumed + c \<le> length input" using runs(2) less.prems(2) by simp
      from less.hyps [OF shorter runs(4) this, of "out @ o1"] runs True less.prems progress
      show ?thesis
        by (auto simp: step add.commute split: option.splits sum.splits prod.splits)
    next
      case False
      with runs less.prems show ?thesis by (cases st) (auto simp: step)
    qed
  qed
qed

lemma drive_allowed:
  assumes "valid s" and "0 < scratch"
  shows "\<exists>r. drive_decoder decode finish s input scratch = Some r
           \<and> allowed_result (plain s input) (faults s input) r"
proof (cases "drive_decode_loop decode s input scratch 0 []")
  case None
  with decode_loop_allowed [OF assms(1), of 0 input scratch "[]"] assms(2) show ?thesis by simp
next
  case (Some r)
  note loop = decode_loop_allowed [OF assms(1), of 0 input scratch "[]"]
  show ?thesis
  proof (cases r)
    case (Inl e)
    with Some loop assms(2) show ?thesis by (simp add: drive_decoder_def)
  next
    case (Inr t)
    obtain s' out ended where t: "t = (s', out, ended)" by (cases t)
    from Some Inr t loop assms(2) have "valid s'" and end_case: "ended \<Longrightarrow> plain s' [] = []"
      "ended \<Longrightarrow> faults s' [] = {}"
      and eqs: "plain s input = out @ plain s' []" "faults s input = faults s' []"
      by auto
    from finish_loop_allowed [OF valid_closing [OF \<open>valid s'\<close>] assms(2), of out]
    obtain r' where "drive_finish_loop finish s' scratch out = Some r'"
      "allowed_result (out @ plain s' []) (faults s' []) r'" by blast
    with Some Inr t end_case eqs show ?thesis
      by (cases ended) (auto simp: drive_decoder_def)
  qed
qed

text \<open>A stream without faults decodes to its plaintext; a faulty one is reported.\<close>

lemma drive_plain:
  assumes "valid s" and "0 < scratch" and "faults s input = {}"
  shows "drive_decoder decode finish s input scratch = Some (Inr (plain s input))"
proof -
  from drive_allowed [OF assms(1,2), of input] obtain r where
    "drive_decoder decode finish s input scratch = Some r"
    "allowed_result (plain s input) (faults s input) r" by blast
  with assms(3) show ?thesis by (cases r) auto
qed

lemma drive_fault:
  assumes "valid s" and "0 < scratch" and "faults s input \<noteq> {}"
  shows "\<exists>e \<in> faults s input. drive_decoder decode finish s input scratch = Some (Inl e)"
proof -
  from drive_allowed [OF assms(1,2), of input] obtain r where
    "drive_decoder decode finish s input scratch = Some r"
    "allowed_result (plain s input) (faults s input) r" by blast
  with assms(3) show ?thesis by (cases r) auto
qed

end

definition outcome_result :: "outcome \<Rightarrow> error + byte list" where
  "outcome_result r = (case snd r of None \<Rightarrow> Inr (fst r) | Some e \<Rightarrow> Inl e)"

context decoder_contract
begin

lemma decompress_returns:
  assumes "valid s"
  shows "decompress_to_vec_with (decoder_decode raw_decode) (decoder_finish raw_finish) s input
         = Some (outcome_result (yields s input))"
proof (cases "snd (yields s input)")
  case None
  then show ?thesis
    using api.drive_plain [OF assms, of SCRATCH input]
    by (simp add: decompress_to_vec_with_def outcome_result_def)
next
  case (Some e)
  then show ?thesis
    using api.drive_fault [OF assms, of SCRATCH input]
    by (simp add: decompress_to_vec_with_def outcome_result_def)
qed

end

end
