(* ===== verification/Limit.thy ===== *)
theory Limit
  imports OneShot
begin

text \<open>
  Decompression-bomb defence (\<open>src/limit.rs\<close>): \<open>LimitedDecoder\<close> wraps any decoder with a
  budget on decoded bytes.  The theory models the wrapper, shows that it keeps the public
  decoder contract (so the one-shot loops work on it), and relates its plaintext and faults to
  the inner decoder's.  The budget fields are \<open>u64\<close>; \<open>saturating_sub\<close> and \<open>saturating_add\<close>
  are written out on \<open>nat\<close>.
\<close>

definition u64_max :: nat where
  "u64_max = 2 ^ 64 - 1"

record 's limited =
  lim_inner :: 's
  lim_limit :: nat
  lim_written :: nat

definition limited_new :: "'s \<Rightarrow> nat \<Rightarrow> 's limited" where
  "limited_new inner max_output_bytes =
     \<lparr>lim_inner = inner, lim_limit = max_output_bytes, lim_written = 0\<rparr>"

definition limited_remaining :: "'s limited \<Rightarrow> nat" where
  "limited_remaining d = lim_limit d - lim_written d"

definition limited_charge :: "'s limited \<Rightarrow> nat \<Rightarrow> nat" where
  "limited_charge d w = min u64_max (lim_written d + w)"

definition limited_decode ::
  "('s \<Rightarrow> byte list \<Rightarrow> nat \<Rightarrow> 's call_result) \<Rightarrow> 's limited \<Rightarrow> byte list \<Rightarrow> nat
   \<Rightarrow> 's limited call_result" where
  "limited_decode decode d input outlen =
     (let remaining = limited_remaining d in
      if remaining = 0 then
        (case decode (lim_inner d) input 1 of
           (s', Inl e) \<Rightarrow> (d\<lparr>lim_inner := s'\<rparr>, Inl e)
         | (s', Inr (p, st, out)) \<Rightarrow>
             if 0 < pr_written p then (d\<lparr>lim_inner := s'\<rparr>, Inl OutputLimitExceeded)
             else (d\<lparr>lim_inner := s'\<rparr>,
                   Inr (\<lparr>pr_consumed = pr_consumed p, pr_written = 0\<rparr>, st, [])))
      else
        let cap = min remaining outlen in
        (case decode (lim_inner d) input cap of
           (s', Inl e) \<Rightarrow> (d\<lparr>lim_inner := s'\<rparr>, Inl e)
         | (s', Inr (p, st, out)) \<Rightarrow>
             (d\<lparr>lim_inner := s', lim_written := limited_charge d (pr_written p)\<rparr>,
              Inr (p, st, out))))"

definition limited_finish ::
  "('s \<Rightarrow> nat \<Rightarrow> 's call_result) \<Rightarrow> 's limited \<Rightarrow> nat \<Rightarrow> 's limited call_result" where
  "limited_finish finish d outlen =
     (let remaining = limited_remaining d in
      if remaining = 0 then
        (case finish (lim_inner d) 1 of
           (s', Inl e) \<Rightarrow> (d\<lparr>lim_inner := s'\<rparr>, Inl e)
         | (s', Inr (p, st, out)) \<Rightarrow>
             if 0 < pr_written p then (d\<lparr>lim_inner := s'\<rparr>, Inl OutputLimitExceeded)
             else (d\<lparr>lim_inner := s'\<rparr>,
                   Inr (\<lparr>pr_consumed = 0, pr_written = 0\<rparr>, st, [])))
      else
        let cap = min remaining outlen in
        (case finish (lim_inner d) cap of
           (s', Inl e) \<Rightarrow> (d\<lparr>lim_inner := s'\<rparr>, Inl e)
         | (s', Inr (p, st, out)) \<Rightarrow>
             (d\<lparr>lim_inner := s', lim_written := limited_charge d (pr_written p)\<rparr>,
              Inr (p, st, out))))"

definition limited_reset :: "('s \<Rightarrow> 's) \<Rightarrow> 's limited \<Rightarrow> 's limited" where
  "limited_reset reset d = d\<lparr>lim_inner := reset (lim_inner d), lim_written := 0\<rparr>"

text \<open>\<open>decompress_to_vec_capped_with\<close> of \<open>src/vec.rs\<close>.\<close>

definition decompress_to_vec_capped_with ::
  "('s \<Rightarrow> byte list \<Rightarrow> nat \<Rightarrow> 's call_result) \<Rightarrow> ('s \<Rightarrow> nat \<Rightarrow> 's call_result) \<Rightarrow> 's
   \<Rightarrow> byte list \<Rightarrow> nat \<Rightarrow> (error + byte list) option" where
  "decompress_to_vec_capped_with decode finish dec input max_output =
     drive_decoder (limited_decode decode) (limited_finish finish)
       (limited_new dec max_output) input SCRATCH"

section \<open>What the wrapper promises\<close>

text \<open>A well-formed budget: the count of written bytes stays within it.\<close>

definition budget_ok :: "'s limited \<Rightarrow> bool" where
  "budget_ok d \<longleftrightarrow> lim_written d \<le> lim_limit d \<and> lim_limit d \<le> u64_max"

lemma budget_ok_new [simp]: "m \<le> u64_max \<Longrightarrow> budget_ok (limited_new s m)"
  by (simp add: budget_ok_def limited_new_def)

lemma budget_charge:
  assumes "budget_ok d" and "w \<le> limited_remaining d"
  shows "budget_ok (d\<lparr>lim_inner := s', lim_written := limited_charge d w\<rparr>)"
    and "limited_remaining (d\<lparr>lim_inner := s', lim_written := limited_charge d w\<rparr>)
         = limited_remaining d - w"
  using assms by (auto simp: budget_ok_def limited_remaining_def limited_charge_def)

lemma budget_inner [simp]:
  "budget_ok (d\<lparr>lim_inner := s'\<rparr>) = budget_ok d"
  "limited_remaining (d\<lparr>lim_inner := s'\<rparr>) = limited_remaining d"
  by (simp_all add: budget_ok_def limited_remaining_def)

definition limited_faults ::
  "('s \<Rightarrow> byte list \<Rightarrow> byte list) \<Rightarrow> ('s \<Rightarrow> byte list \<Rightarrow> error set)
   \<Rightarrow> 's limited \<Rightarrow> byte list \<Rightarrow> error set" where
  "limited_faults plain faults d xs =
     faults (lim_inner d) xs
     \<union> (if limited_remaining d < length (plain (lim_inner d) xs) then {OutputLimitExceeded} else {})"

context decoder_api
begin

lemma limited_keeps_api:
  "decoder_api (limited_decode decode) (limited_finish finish)
     (\<lambda>d. budget_ok d \<and> valid (lim_inner d)) (\<lambda>d. budget_ok d \<and> closing (lim_inner d))
     (\<lambda>d xs. plain (lim_inner d) xs) (limited_faults plain faults)"
proof (unfold_locales, goal_cases)
  case (1 d xs ys n)
  then have v: "valid (lim_inner d)" and b: "budget_ok d" by simp_all
  show ?case
  proof (cases "limited_remaining d = 0")
    case True
    from call_contract [OF v, of xs ys 1] show ?thesis
    proof (cases rule: call_lawE)
      case (fails s' e)
      with True show ?thesis by (simp add: limited_decode_def call_law_def limited_faults_def)
    next
      case (runs s' c out st)
      show ?thesis
      proof (cases "out = []")
        case True
        with \<open>limited_remaining d = 0\<close> runs b show ?thesis
          by (auto simp: limited_decode_def call_law_def limited_faults_def)
      next
        case False
        with True runs b show ?thesis
          by (auto simp: limited_decode_def call_law_def limited_faults_def)
      qed
    qed
  next
    case False
    from call_contract [OF v, of xs ys "min (limited_remaining d) n"] show ?thesis
    proof (cases rule: call_lawE)
      case (fails s' e)
      with False show ?thesis
        by (simp add: limited_decode_def call_law_def limited_faults_def Let_def)
    next
      case (runs s' c out st)
      then have w: "length out \<le> limited_remaining d" by simp
      note b' = budget_charge [OF b w, of s']
      from runs False b' w show ?thesis
        by (auto simp: limited_decode_def call_law_def limited_faults_def Let_def
            less_diff_conv)
    qed
  qed
next
  case (2 d)
  then show ?case by (simp add: valid_closing)
next
  case (3 d n)
  then have v: "closing (lim_inner d)" and b: "budget_ok d" by simp_all
  show ?case
  proof (cases "limited_remaining d = 0")
    case True
    from close_contract [OF v, of 1] show ?thesis
    proof (cases rule: close_lawE)
      case (fails s' e)
      with True show ?thesis by (simp add: limited_finish_def close_law_def limited_faults_def)
    next
      case (runs s' out st)
      with True b show ?thesis
        by (cases "out = []")
          (auto simp: limited_finish_def close_law_def limited_faults_def)
    qed
  next
    case False
    from close_contract [OF v, of "min (limited_remaining d) n"] show ?thesis
    proof (cases rule: close_lawE)
      case (fails s' e)
      with False show ?thesis
        by (simp add: limited_finish_def close_law_def limited_faults_def Let_def)
    next
      case (runs s' out st)
      then have w: "length out \<le> limited_remaining d" by simp
      note b' = budget_charge [OF b w, of s']
      from runs False b' w show ?thesis
        by (auto simp: limited_finish_def close_law_def limited_faults_def Let_def
            less_diff_conv)
    qed
  qed
qed

text \<open>A stream without faults decodes to its plaintext exactly when it fits the budget.\<close>

lemma capped_returns:
  assumes "valid s" and "faults s input = {}" and "m \<le> u64_max"
  shows "decompress_to_vec_capped_with decode finish s input m =
    Some (if length (plain s input) \<le> m then Inr (plain s input) else Inl OutputLimitExceeded)"
proof -
  let ?d = "limited_new s m"
  let ?dec = "limited_decode decode" and ?fin = "limited_finish finish"
  have v: "budget_ok ?d \<and> valid (lim_inner ?d)"
    using assms by (simp add: limited_new_def budget_ok_def)
  have flt: "limited_faults plain faults ?d input
      = (if m < length (plain s input) then {OutputLimitExceeded} else {})"
    using assms(2) by (simp add: limited_faults_def limited_new_def limited_remaining_def)
  show ?thesis
  proof (cases "m < length (plain s input)")
    case True
    with decoder_api.drive_fault [OF limited_keeps_api v SCRATCH_pos, of input] flt
    show ?thesis by (simp add: decompress_to_vec_capped_with_def)
  next
    case False
    with decoder_api.drive_plain [OF limited_keeps_api v SCRATCH_pos, of input] flt
    show ?thesis by (simp add: decompress_to_vec_capped_with_def limited_new_def)
  qed
qed

lemma capped_fault:
  assumes "valid s" and "faults s input \<noteq> {}" and "m \<le> u64_max"
  shows "\<exists>e \<in> insert OutputLimitExceeded (faults s input).
           decompress_to_vec_capped_with decode finish s input m = Some (Inl e)"
proof -
  let ?d = "limited_new s m"
  have v: "budget_ok ?d \<and> valid (lim_inner ?d)"
    using assms by (simp add: limited_new_def budget_ok_def)
  have flt: "limited_faults plain faults ?d input \<noteq> {}"
    "limited_faults plain faults ?d input \<subseteq> insert OutputLimitExceeded (faults s input)"
    using assms(2) by (auto simp: limited_faults_def limited_new_def)
  from decoder_api.drive_fault [OF limited_keeps_api v SCRATCH_pos flt(1)] flt(2)
  show ?thesis by (auto simp: decompress_to_vec_capped_with_def)
qed

end

section \<open>The budget holds whatever the inner decoder does\<close>

text \<open>
  The only thing asked of the inner decoder here is what Rust's slice bounds enforce: it cannot
  write past the output slice it was given.
\<close>

definition in_bounds :: "('s \<Rightarrow> byte list \<Rightarrow> nat \<Rightarrow> 's call_result) \<Rightarrow> ('s \<Rightarrow> nat \<Rightarrow> 's call_result) \<Rightarrow> bool" where
  "in_bounds decode finish \<longleftrightarrow>
     (\<forall>s xs n s' p st out. decode s xs n = (s', Inr (p, st, out))
        \<longrightarrow> pr_written p = length out \<and> length out \<le> n) \<and>
     (\<forall>s n s' p st out. finish s n = (s', Inr (p, st, out))
        \<longrightarrow> pr_written p = length out \<and> length out \<le> n)"

lemma limited_decode_charges:
  assumes "in_bounds decode finish" and "budget_ok d"
    and "limited_decode decode d xs n = (d', Inr (p, st, out))"
  shows "budget_ok d' \<and> length out + limited_remaining d' = limited_remaining d
         \<and> length out \<le> n"
proof -
  have written: "pr_written p1 = length o1" "length o1 \<le> k"
    if "decode s xs k = (s', Inr (p1, st1, o1))" for s k s' p1 st1 o1
    using assms(1) that unfolding in_bounds_def by blast+
  show ?thesis
  proof (cases "limited_remaining d = 0")
    case True
    with assms show ?thesis
      by (auto simp: limited_decode_def split: prod.splits sum.splits if_splits)
  next
    case False
    with assms(3) obtain s' where
      inner: "decode (lim_inner d) xs (min (limited_remaining d) n) = (s', Inr (p, st, out))"
      and d': "d' = d\<lparr>lim_inner := s', lim_written := limited_charge d (pr_written p)\<rparr>"
      by (auto simp: limited_decode_def Let_def split: prod.splits sum.splits)
    with written [OF inner] budget_charge [OF assms(2), of "length out" s'] show ?thesis by simp
  qed
qed

lemma limited_finish_charges:
  assumes "in_bounds decode finish" and "budget_ok d"
    and "limited_finish finish d n = (d', Inr (p, st, out))"
  shows "budget_ok d' \<and> length out + limited_remaining d' = limited_remaining d
         \<and> length out \<le> n"
proof -
  have written: "pr_written p1 = length o1" "length o1 \<le> k"
    if "finish s k = (s', Inr (p1, st1, o1))" for s k s' p1 st1 o1
    using assms(1) that unfolding in_bounds_def by blast+
  show ?thesis
  proof (cases "limited_remaining d = 0")
    case True
    with assms show ?thesis
      by (auto simp: limited_finish_def split: prod.splits sum.splits if_splits)
  next
    case False
    with assms(3) obtain s' where
      inner: "finish (lim_inner d) (min (limited_remaining d) n) = (s', Inr (p, st, out))"
      and d': "d' = d\<lparr>lim_inner := s', lim_written := limited_charge d (pr_written p)\<rparr>"
      by (auto simp: limited_finish_def Let_def split: prod.splits sum.splits)
    with written [OF inner] budget_charge [OF assms(2), of "length out" s'] show ?thesis by simp
  qed
qed

lemma capped_within_budget:
  fixes s :: "'s"
  assumes "in_bounds decode finish" and "m \<le> u64_max"
    and "decompress_to_vec_capped_with decode finish s input m = Some (Inr out)"
  shows "length out \<le> m"
proof -
  let ?I = "\<lambda>(d :: 's limited) (out :: byte list). budget_ok d \<and> length out + limited_remaining d = m"
  have dec: "?I d' (out @ o1)"
    if "?I d out" "limited_decode decode d xs n = (d', Inr (p, st, o1))" for d xs n d' p st o1 out
    using limited_decode_charges [OF assms(1) _ that(2)] that(1) by auto
  have fin: "?I d' (out @ o1)"
    if "?I d out" "limited_finish finish d n = (d', Inr (p, st, o1))" for d n d' p st o1 out
    using limited_finish_charges [OF assms(1) _ that(2)] that(1) by auto
  have start: "?I (limited_new s m) []"
    using assms(2) by (simp add: limited_new_def limited_remaining_def budget_ok_def)
  have ret: "drive_decoder (limited_decode decode) (limited_finish finish) (limited_new s m)
      input SCRATCH = Some (Inr out)"
    using assms(3) by (simp add: decompress_to_vec_capped_with_def)
  have "\<exists>d. ?I d out"
    by (rule drive_decoder_invariant [where I = ?I, OF _ _ ret start]) (erule (1) dec, erule (1) fin)
  then show ?thesis by auto
qed

end
