(* ===== verification/Codec.thy ===== *)
theory Codec
  imports Limit
begin

text \<open>
  An \<open>Algorithm\<close> of the crate pairs an encoder with a decoder.  The locale \<open>codec\<close> is that pair:
  both sides keep their trait's contract and the decoder's reading of what the encoder owes is
  the input.  The round trips through the streaming calls (in any chunking), through the
  one-shot helpers and through the capped helper are proved here once for every codec.
  \<open>compress_to_vec\<close>, \<open>decompress_to_vec\<close> and \<open>decompress_to_vec_capped\<close> are the helpers of
  \<open>src/vec.rs\<close> over an algorithm's raw operations.
\<close>

definition compress_to_vec ::
  "('s \<Rightarrow> byte list \<Rightarrow> nat \<Rightarrow> 's raw_result) \<Rightarrow> ('s \<Rightarrow> nat \<Rightarrow> 's raw_result) \<Rightarrow> 's
   \<Rightarrow> byte list \<Rightarrow> (error + byte list) option" where
  "compress_to_vec raw_encode raw_finish enc input =
     compress_to_vec_with (encoder_encode raw_encode) (encoder_finish raw_finish) enc input"

definition decompress_to_vec ::
  "('s \<Rightarrow> byte list \<Rightarrow> nat \<Rightarrow> 's raw_result) \<Rightarrow> ('s \<Rightarrow> nat \<Rightarrow> 's raw_result) \<Rightarrow> 's
   \<Rightarrow> byte list \<Rightarrow> (error + byte list) option" where
  "decompress_to_vec raw_decode raw_finish dec input =
     decompress_to_vec_with (decoder_decode raw_decode) (decoder_finish raw_finish) dec input"

definition decompress_to_vec_capped ::
  "('s \<Rightarrow> byte list \<Rightarrow> nat \<Rightarrow> 's raw_result) \<Rightarrow> ('s \<Rightarrow> nat \<Rightarrow> 's raw_result) \<Rightarrow> 's
   \<Rightarrow> byte list \<Rightarrow> nat \<Rightarrow> (error + byte list) option" where
  "decompress_to_vec_capped raw_decode raw_finish dec input max_output =
     decompress_to_vec_capped_with (decoder_decode raw_decode) (decoder_finish raw_finish) dec
       input max_output"

context encoder_contract
begin

lemma vec_compress:
  "ready s input \<Longrightarrow> compress_to_vec raw_encode raw_finish s input = Some (Inr (owed s input))"
  by (simp add: compress_to_vec_def compress_returns)

end

context decoder_contract
begin

lemma vec_decompress:
  "valid s \<Longrightarrow> decompress_to_vec raw_decode raw_finish s input
     = Some (outcome_result (yields s input))"
  by (simp add: decompress_to_vec_def decompress_returns)

lemma vec_capped:
  "valid s \<Longrightarrow> yields s input = (out, None) \<Longrightarrow> m \<le> u64_max \<Longrightarrow>
   decompress_to_vec_capped raw_decode raw_finish s input m
     = Some (if length out \<le> m then Inr out else Inl OutputLimitExceeded)"
  by (simp add: decompress_to_vec_capped_def api.capped_returns)

end

locale codec =
  enc: encoder_contract raw_encode enc_finish ready enc_closing owed +
  dec: decoder_contract raw_decode dec_finish valid dec_closing yields
  for raw_encode :: "'e \<Rightarrow> byte list \<Rightarrow> nat \<Rightarrow> 'e raw_result"
    and enc_finish :: "'e \<Rightarrow> nat \<Rightarrow> 'e raw_result"
    and ready :: "'e \<Rightarrow> byte list \<Rightarrow> bool"
    and enc_closing :: "'e \<Rightarrow> bool"
    and owed :: "'e \<Rightarrow> byte list \<Rightarrow> byte list"
    and raw_decode :: "'d \<Rightarrow> byte list \<Rightarrow> nat \<Rightarrow> 'd raw_result"
    and dec_finish :: "'d \<Rightarrow> nat \<Rightarrow> 'd raw_result"
    and valid :: "'d \<Rightarrow> bool"
    and dec_closing :: "'d \<Rightarrow> bool"
    and yields :: "'d \<Rightarrow> byte list \<Rightarrow> outcome" +
  fixes enc0 :: "'e" and dec0 :: "'d" and admissible :: "byte list \<Rightarrow> bool"
  assumes admissible_ready: "admissible xs \<Longrightarrow> ready enc0 xs"
    and valid_new: "valid dec0"
    and inverse: "admissible xs \<Longrightarrow> yields dec0 (owed enc0 xs) = (xs, None)"
begin

text \<open>Whatever the sizes of the slices, decoding what was encoded gives the input back.\<close>

lemma chunked_roundtrip:
  assumes "admissible xs"
    and "encode_run raw_encode enc0 xs coded [] e1" and "finish_run enc_finish e1 tail True e2"
    and "decode_run raw_decode dec0 (coded @ tail) got [] d1"
    and "finish_run dec_finish d1 got2 True d2"
  shows "got @ got2 = xs"
proof -
  from enc.chunked_output [OF assms(2,3)] admissible_ready assms(1)
  have "coded @ tail = owed enc0 xs" by simp
  with dec.chunked_decode [OF assms(4,5) valid_new] inverse [OF assms(1)] show ?thesis by simp
qed

lemma vec_roundtrip:
  assumes "admissible xs"
  shows "compress_to_vec raw_encode enc_finish enc0 xs = Some (Inr (owed enc0 xs))"
    and "decompress_to_vec raw_decode dec_finish dec0 (owed enc0 xs) = Some (Inr xs)"
  using assms
  by (simp_all add: enc.vec_compress admissible_ready dec.vec_decompress valid_new inverse
      outcome_result_def)

lemma vec_capped_roundtrip:
  assumes "admissible xs" and "m \<le> u64_max"
  shows "decompress_to_vec_capped raw_decode dec_finish dec0 (owed enc0 xs) m
    = Some (if length xs \<le> m then Inr xs else Inl OutputLimitExceeded)"
  using assms by (simp add: dec.vec_capped valid_new inverse)

end

end
