(* ===== verification/Rle.thy ===== *)
theory Rle
  imports Codec
begin

text \<open>
  The run-length codec of \<open>src/rle.rs\<close>: its encoder and decoder state machines as the code has
  them, their trait contracts, and the round trip.
\<close>

section \<open>Encoder\<close>

datatype rle_enc_state =
    RleEmpty
  | RleRun byte byte
  | RlePartialPair byte

definition rle_encoder_new :: rle_enc_state where
  "rle_encoder_new = RleEmpty"

function rle_encode_loop ::
  "rle_enc_state \<Rightarrow> byte list \<Rightarrow> nat \<Rightarrow> nat \<Rightarrow> byte list \<Rightarrow> rle_enc_state raw_result" where
  "rle_encode_loop (RlePartialPair v) input n consumed out =
     (if length out = n then raw_ok (RlePartialPair v) consumed out False
      else rle_encode_loop RleEmpty input n consumed (out @ [v]))"
| "rle_encode_loop RleEmpty [] n consumed out = raw_ok RleEmpty consumed out False"
| "rle_encode_loop RleEmpty (b # input) n consumed out =
     rle_encode_loop (RleRun b 1) input n (Suc consumed) out"
| "rle_encode_loop (RleRun v count) [] n consumed out = raw_ok (RleRun v count) consumed out False"
| "rle_encode_loop (RleRun v count) (b # input) n consumed out =
     (if v = b \<and> count < 255 then
        rle_encode_loop (RleRun v (count + 1)) input n (Suc consumed) out
      else if length out = n then raw_ok (RleRun v count) consumed out False
      else if length (out @ [count]) = n then
        raw_ok (RlePartialPair v) consumed (out @ [count]) False
      else rle_encode_loop RleEmpty (b # input) n consumed (out @ [count, v]))"
  by pat_completeness auto
termination
  by (relation "measure (\<lambda>(st, input, _). 2 * length input + (if st = RleEmpty then 0 else 1))")
    auto

definition rle_raw_encode ::
  "rle_enc_state \<Rightarrow> byte list \<Rightarrow> nat \<Rightarrow> rle_enc_state raw_result" where
  "rle_raw_encode st input outlen = rle_encode_loop st input outlen 0 []"

text \<open>\<open>raw_finish\<close>: first the owed value byte, then the trailing run.\<close>

definition rle_enc_finish_run ::
  "rle_enc_state \<Rightarrow> nat \<Rightarrow> byte list \<Rightarrow> rle_enc_state raw_result" where
  "rle_enc_finish_run st n out =
     (case st of
        RleRun v count \<Rightarrow>
          if length out = n then raw_ok st 0 out False
          else if length (out @ [count]) = n then
            raw_ok (RlePartialPair v) 0 (out @ [count]) False
          else raw_ok RleEmpty 0 (out @ [count, v]) True
      | _ \<Rightarrow> raw_ok st 0 out (st = RleEmpty))"

definition rle_enc_raw_finish :: "rle_enc_state \<Rightarrow> nat \<Rightarrow> rle_enc_state raw_result" where
  "rle_enc_raw_finish st n =
     (case st of
        RlePartialPair v \<Rightarrow>
          if n = 0 then raw_ok st 0 [] False
          else rle_enc_finish_run RleEmpty n [v]
      | _ \<Rightarrow> rle_enc_finish_run st n [])"

definition rle_enc_raw_reset :: "rle_enc_state \<Rightarrow> rle_enc_state" where
  "rle_enc_raw_reset st = RleEmpty"

text \<open>Specification of the encoder: the pair stream owed for the rest of the input.\<close>

fun rle_owed :: "rle_enc_state \<Rightarrow> byte list \<Rightarrow> byte list" where
  "rle_owed RleEmpty [] = []"
| "rle_owed RleEmpty (b # xs) = rle_owed (RleRun b 1) xs"
| "rle_owed (RleRun v c) [] = [c, v]"
| "rle_owed (RleRun v c) (b # xs) =
     (if v = b \<and> c < 255 then rle_owed (RleRun v (c + 1)) xs
      else c # v # rle_owed (RleRun b 1) xs)"
| "rle_owed (RlePartialPair v) [] = [v]"
| "rle_owed (RlePartialPair v) (b # xs) = v # rle_owed (RleRun b 1) xs"

lemma rle_owed_partial: "rle_owed (RlePartialPair v) xs = v # rle_owed RleEmpty xs"
  by (cases xs) simp_all

lemma rle_encode_loop_acc:
  "length out \<le> n \<Longrightarrow>
   encode_acc (\<lambda>_ _. True) rle_owed st input ys n c out (rle_encode_loop st input n c out)"
proof (induction st input n c out rule: rle_encode_loop.induct)
  case (1 v input n c out)
  show ?case
  proof (cases "length out = n")
    case False
    with 1 have "encode_acc (\<lambda>_ _. True) rle_owed RleEmpty input ys n c (out @ [v])
        (rle_encode_loop RleEmpty input n c (out @ [v]))" by simp
    with False show ?thesis
      by (auto intro: encode_acc_write simp: rle_owed_partial)
  qed (auto intro: encode_acc_stop)
next
  case (5 v count b input n c out)
  consider (extend) "v = b \<and> count < 255" | (full) "\<not> (v = b \<and> count < 255)" "length out = n"
    | (half) "\<not> (v = b \<and> count < 255)" "Suc (length out) = n"
    | (both) "\<not> (v = b \<and> count < 255)" "Suc (length out) < n"
    using 5(3) by linarith
  then show ?case
  proof cases
    case extend
    with 5 show ?thesis by (auto intro: encode_acc_read)
  next
    case full
    then show ?thesis by (auto intro: encode_acc_stop)
  next
    case half
    then have "rle_encode_loop (RleRun v count) (b # input) n c out
        = raw_ok (RlePartialPair v) c (out @ [count]) False" by auto
    moreover have "encode_acc (\<lambda>_ _. True) rle_owed (RleRun v count) (b # input) ys n c out \<dots>"
      using half
      by - (rule encode_acc_write [where ?s1.0 = "RlePartialPair v" and ?o1.0 = "[count]"],
          rule encode_acc_stop, auto)
    ultimately show ?thesis by simp
  next
    case both
    with 5 have "encode_acc (\<lambda>_ _. True) rle_owed RleEmpty (b # input) ys n c (out @ [count, v])
        (rle_encode_loop RleEmpty (b # input) n c (out @ [count, v]))" by auto
    from encode_acc_write [OF this, of "RleRun v count"] both show ?thesis by auto
  qed
qed (auto intro: encode_acc_stop encode_acc_read)

interpretation rle_enc: encoder_contract rle_raw_encode rle_enc_raw_finish
  "\<lambda>_ _. True" "\<lambda>_. True" rle_owed
proof (unfold_locales, goal_cases)
  case (1 s xs ys n)
  show ?case
    unfolding rle_raw_encode_def by (rule encode_acc_law) (rule rle_encode_loop_acc, simp)
next
  case (3 s n)
  show ?case
    by (cases s)
      (auto simp: rle_enc_raw_finish_def rle_enc_finish_run_def intro!: finish_lawI)
qed simp

section \<open>Decoder\<close>

datatype rle_dec_state =
    RleExpectCount
  | RleExpectValue byte
  | RleEmittingRun byte byte

definition rle_decoder_new :: rle_dec_state where
  "rle_decoder_new = RleExpectCount"

function rle_decode_loop ::
  "rle_dec_state \<Rightarrow> byte list \<Rightarrow> nat \<Rightarrow> nat \<Rightarrow> byte list \<Rightarrow> rle_dec_state raw_result" where
  "rle_decode_loop (RleEmittingRun v r) input n consumed out =
     (if length out = n then raw_ok (RleEmittingRun v r) consumed out False
      else
        let k = min (unat r) (n - length out);
            out' = out @ replicate k v;
            r' = r - byte_of k
        in if r' = 0 then rle_decode_loop RleExpectCount input n consumed out'
           else raw_ok (RleEmittingRun v r') consumed out' False)"
| "rle_decode_loop RleExpectCount [] n consumed out = raw_ok RleExpectCount consumed out False"
| "rle_decode_loop RleExpectCount (b # input) n consumed out =
     (if b = 0 then (RleExpectCount, Inl Corrupt)
      else rle_decode_loop (RleExpectValue b) input n (Suc consumed) out)"
| "rle_decode_loop (RleExpectValue count) [] n consumed out =
     raw_ok (RleExpectValue count) consumed out False"
| "rle_decode_loop (RleExpectValue count) (b # input) n consumed out =
     rle_decode_loop (RleEmittingRun b count) input n (Suc consumed) out"
  by pat_completeness auto
termination
  by (relation "measure (\<lambda>(st, input, _). 2 * length input
        + (case st of RleEmittingRun _ _ \<Rightarrow> 1 | _ \<Rightarrow> 0))") auto

definition rle_raw_decode ::
  "rle_dec_state \<Rightarrow> byte list \<Rightarrow> nat \<Rightarrow> rle_dec_state raw_result" where
  "rle_raw_decode st input outlen = rle_decode_loop st input outlen 0 []"

definition rle_dec_raw_finish :: "rle_dec_state \<Rightarrow> nat \<Rightarrow> rle_dec_state raw_result" where
  "rle_dec_raw_finish st n =
     (case st of
        RleEmittingRun v r \<Rightarrow>
          let k = min (unat r) n; r' = r - byte_of k in
          if r' = 0 then raw_ok RleExpectCount 0 (replicate k v) True
          else raw_ok (RleEmittingRun v r') 0 (replicate k v) False
      | RleExpectCount \<Rightarrow> raw_ok RleExpectCount 0 [] True
      | RleExpectValue c \<Rightarrow> (RleExpectValue c, Inl UnexpectedEnd))"

definition rle_dec_raw_reset :: "rle_dec_state \<Rightarrow> rle_dec_state" where
  "rle_dec_raw_reset st = RleExpectCount"

text \<open>Specification of the decoder: what the pair stream decodes to, and how it ends.\<close>

fun rle_pairs :: "byte list \<Rightarrow> outcome" where
  "rle_pairs [] = ([], None)"
| "rle_pairs [c] = ([], Some (if c = 0 then Corrupt else UnexpectedEnd))"
| "rle_pairs (c # v # xs) =
     (if c = 0 then ([], Some Corrupt) else emit (replicate (unat c) v) (rle_pairs xs))"

fun rle_yields :: "rle_dec_state \<Rightarrow> byte list \<Rightarrow> outcome" where
  "rle_yields RleExpectCount xs = rle_pairs xs"
| "rle_yields (RleExpectValue c) [] = ([], Some UnexpectedEnd)"
| "rle_yields (RleExpectValue c) (v # xs) = emit (replicate (unat c) v) (rle_pairs xs)"
| "rle_yields (RleEmittingRun v r) xs = emit (replicate (unat r) v) (rle_pairs xs)"

lemma rle_pairs_count:
  "c \<noteq> 0 \<Longrightarrow> rle_pairs (c # xs) = rle_yields (RleExpectValue c) xs"
  by (cases xs) simp_all

lemma rle_pairs_zero: "rle_pairs (0 # xs) = ([], Some Corrupt)"
  by (cases xs) simp_all

text \<open>Counting a run down by what fits: whether it is over, and what is left of it.\<close>

lemma run_over_iff: "r = byte_of (min (unat r) m) \<longleftrightarrow> unat r \<le> m"
proof -
  have "r = byte_of (min (unat r) m) \<longleftrightarrow> r - byte_of (min (unat r) m) = 0" by simp
  then show ?thesis unfolding byte_eq_0_unat by (simp add: buf_simps)
qed

lemma run_join:
  "k \<le> unat r \<Longrightarrow> replicate k v @ replicate (unat (r - byte_of k)) v = replicate (unat r) v"
  by (simp add: buf_simps replicate_add [symmetric])

lemma rle_decode_loop_acc:
  "length out \<le> n \<Longrightarrow>
   decode_acc (\<lambda>_. True) rle_yields st input ys n c out (rle_decode_loop st input n c out)"
proof (induction st input n c out rule: rle_decode_loop.induct)
  case (1 v r input n c out)
  show ?case
  proof (cases "length out = n")
    case True
    then show ?thesis by (auto intro: decode_acc_stop)
  next
    case False
    define k where "k = min (unat r) (n - length out)"
    show ?thesis
    proof (cases "r - byte_of k = 0")
      case True
      with 1(2) False have k: "k = unat r" "length (out @ replicate k v) \<le> n"
        by (auto simp: k_def run_over_iff)
      with 1(1) [OF False k_def refl refl True] have
        "decode_acc (\<lambda>_. True) rle_yields RleExpectCount input ys n c (out @ replicate k v)
           (rle_decode_loop RleExpectCount input n c (out @ replicate k v))" by simp
      then have "decode_acc (\<lambda>_. True) rle_yields (RleEmittingRun v r) input ys n c out
          (rle_decode_loop RleExpectCount input n c (out @ replicate k v))"
        by (rule decode_acc_write) (simp add: k(1))
      then show ?thesis
        unfolding rle_decode_loop.simps(1) Let_def k_def [symmetric]
        by (simp only: False True if_False if_True refl)
    next
      case more: False
      then have k: "length (out @ replicate k v) = n" "k \<le> unat r"
        using 1(2) by (auto simp: k_def run_over_iff)
      have "rle_yields (RleEmittingRun v r) (input @ ys)
          = emit (replicate k v) (rle_yields (RleEmittingRun v (r - byte_of k)) (input @ ys))"
        by (simp add: run_join [OF k(2), of v])
      then have "decode_acc (\<lambda>_. True) rle_yields (RleEmittingRun v r) input ys n c out
          (raw_ok (RleEmittingRun v (r - byte_of k)) c (out @ replicate k v) False)"
        by (rule decode_acc_write [rotated]) (rule decode_acc_stop, simp_all only: k order_refl simp_thms)
      then show ?thesis
        using False more by (simp add: k_def [symmetric] Let_def)
    qed
  qed
next
  case (3 b input n c out)
  then show ?case
    by (auto simp: rle_pairs_zero rle_pairs_count intro: decode_acc_error decode_acc_read)
qed (auto intro: decode_acc_stop decode_acc_read)

interpretation rle_dec: decoder_contract rle_raw_decode rle_dec_raw_finish
  "\<lambda>_. True" "\<lambda>_. True" rle_yields
proof (unfold_locales, goal_cases)
  case (1 s xs ys n)
  show ?case
    unfolding rle_raw_decode_def by (rule decode_acc_law) (rule rle_decode_loop_acc, simp)
next
  case (3 s n)
  show ?case
  proof (cases s)
    case (RleEmittingRun v r)
    show ?thesis
      using RleEmittingRun
      by (auto simp: rle_dec_raw_finish_def Let_def run_over_iff run_join intro!: drain_lawI)
  qed (auto simp: rle_dec_raw_finish_def intro!: drain_lawI drain_law_error)
qed simp

section \<open>Round trip\<close>

lemma rle_pairs_owed_run:
  "c \<noteq> 0 \<Longrightarrow> rle_pairs (rle_owed (RleRun v c) xs) = (replicate (unat c) v @ xs, None)"
proof (induction xs arbitrary: v c)
  case Nil
  then show ?case by simp
next
  case (Cons b xs)
  show ?case
  proof (cases "v = b \<and> c < 255")
    case True
    then have "c + 1 \<noteq> 0" "unat (c + 1) = Suc (unat c)"
      using unat_byte_inc [of c] by (auto simp: byte_eq_0_unat)
    with Cons.IH [of "c + 1" v] True show ?thesis
      by (simp add: replicate_app_Cons_same)
  next
    case False
    with Cons show ?thesis by auto
  qed
qed

lemma rle_roundtrip_spec: "rle_yields RleExpectCount (rle_owed RleEmpty xs) = (xs, None)"
  by (cases xs) (simp_all add: rle_pairs_owed_run)

interpretation rle: codec rle_raw_encode rle_enc_raw_finish "\<lambda>_ _. True" "\<lambda>_. True" rle_owed
  rle_raw_decode rle_dec_raw_finish "\<lambda>_. True" "\<lambda>_. True" rle_yields
  rle_encoder_new rle_decoder_new "\<lambda>_. True"
  using rle_roundtrip_spec
  by unfold_locales (simp_all add: rle_encoder_new_def rle_decoder_new_def)

lemma rle_owed_bound:
  "length (rle_owed st xs) \<le> 2 * length xs + (case st of RleEmpty \<Rightarrow> 0 | _ \<Rightarrow> 2)"
  by (induction st xs rule: rle_owed.induct) auto

section \<open>Properties\<close>

text \<open>C24. Streaming RLE round trip: cut the input and both output sides into slices of any sizes
  (including empty ones); whenever the encoder calls have consumed the input and \<open>finish\<close> has
  reported the end, any sequence of decoder calls that consumes the coded bytes and finishes has
  produced the input.\<close>

theorem rle_streaming_roundtrip:
  assumes "encode_run rle_raw_encode rle_encoder_new xs coded [] e1"
    and "finish_run rle_enc_raw_finish e1 tail True e2"
    and "decode_run rle_raw_decode rle_decoder_new (coded @ tail) got [] d1"
    and "finish_run rle_dec_raw_finish d1 got2 True d2"
  shows "got @ got2 = xs"
  by (rule rle.chunked_roundtrip [OF TrueI assms])

theorem rle_streaming_roundtrip_witness:
  "encode_run rle_raw_encode rle_encoder_new [7, 7, 9] [2, 7] [] (RleRun 9 1)
   \<and> finish_run rle_enc_raw_finish (RleRun 9 1) [1, 9] True RleEmpty
   \<and> decode_run rle_raw_decode rle_decoder_new ([2, 7] @ [1, 9]) [7, 7] [] (RleEmittingRun 9 1)
   \<and> finish_run rle_dec_raw_finish (RleEmittingRun 9 1) [9] True RleExpectCount
   \<and> ([7, 7] @ [9] :: byte list) = [7, 7, 9]"
proof -
  have e1: "encode_run rle_raw_encode rle_encoder_new [7, 7, 9] [2] [9] (RlePartialPair 7)"
    by (rule encode_run_stepI [OF encode_run_start, where xs = "[7, 7, 9]" and ys = "[]" and n = 1])
      (simp_all add: rle_raw_encode_def rle_encoder_new_def)
  have e: "encode_run rle_raw_encode rle_encoder_new [7, 7, 9] [2, 7] [] (RleRun 9 1)"
    by (rule encode_run_stepI [OF e1, where xs = "[9]" and ys = "[]" and n = 5])
      (simp_all add: rle_raw_encode_def)
  have f: "finish_run rle_enc_raw_finish (RleRun 9 1) [1, 9] True RleEmpty"
    by (rule finish_run_stepI [OF finish_run_start, where n = 2])
      (simp_all add: rle_enc_raw_finish_def rle_enc_finish_run_def)
  have d: "decode_run rle_raw_decode rle_decoder_new ([2, 7] @ [1, 9]) [7, 7] [] (RleEmittingRun 9 1)"
    by (rule decode_run_stepI [OF decode_run_start, where xs = "[2, 7, 1, 9]" and ys = "[]" and n = 2])
      (simp_all add: rle_raw_decode_def rle_decoder_new_def Let_def, simp add: numeral_2_eq_2)
  have g: "finish_run rle_dec_raw_finish (RleEmittingRun 9 1) [9] True RleExpectCount"
    by (rule finish_run_stepI [OF finish_run_start, where n = 1])
      (simp_all add: rle_dec_raw_finish_def Let_def)
  from rle_streaming_roundtrip [OF e f d g] e f d g show ?thesis by blast
qed

text \<open>C25. One-shot RLE: compression returns, never expands the input by more than a factor of
  two, and decompressing its result returns the input.\<close>

theorem rle_vec_roundtrip:
  "\<exists>ys. compress_to_vec rle_raw_encode rle_enc_raw_finish rle_encoder_new xs = Some (Inr ys)
     \<and> length ys \<le> 2 * length xs
     \<and> decompress_to_vec rle_raw_decode rle_dec_raw_finish rle_decoder_new ys = Some (Inr xs)"
  using rle.vec_roundtrip [of xs] rle_owed_bound [of RleEmpty xs]
  by (auto simp: rle_encoder_new_def)

text \<open>C26. The RLE decompressor is total and precise: on any bytes it returns, with \<open>Corrupt\<close>
  exactly when the first count byte that is zero comes before the stream runs out,
  \<open>UnexpectedEnd\<close> when the stream ends after a count, and the expanded pairs otherwise.\<close>

theorem rle_decompress_total:
  "decompress_to_vec rle_raw_decode rle_dec_raw_finish rle_decoder_new ys
     = Some (outcome_result (rle_pairs ys))"
  using rle_dec.vec_decompress [of RleExpectCount ys] by (simp add: rle_decoder_new_def)

end
