(* ===== verification/Filters.thy ===== *)
theory Filters
  imports Codec
begin

text \<open>
  Filters: codecs that replace every byte by one byte and have no header or trailer
  (\<open>src/mtf\<close>, \<open>src/delta\<close>).  A call handles \<open>input.len().min(output.len())\<close> bytes.  The locale
  \<open>byte_filter\<close> asks that a call refines a byte-at-a-time machine \<open>step\<close> over an abstraction
  \<open>view\<close> of the state; it gives both trait contracts.  The locale \<open>filter_pair\<close> puts an encoder
  and a decoder in lock step and gives a \<open>codec\<close>.
\<close>

fun filter_run :: "('a \<Rightarrow> byte \<Rightarrow> 'a \<times> byte) \<Rightarrow> 'a \<Rightarrow> byte list \<Rightarrow> 'a \<times> byte list" where
  "filter_run step a [] = (a, [])"
| "filter_run step a (b # bs) =
     (case step a b of (a', c) \<Rightarrow>
        case filter_run step a' bs of (a'', cs) \<Rightarrow> (a'', c # cs))"

lemma filter_run_append:
  "filter_run step a (xs @ ys) =
     (case filter_run step a xs of (a', cs) \<Rightarrow>
        case filter_run step a' ys of (a'', ds) \<Rightarrow> (a'', cs @ ds))"
  by (induction xs arbitrary: a) (auto split: prod.splits)

lemma filter_run_length [simp]: "length (snd (filter_run step a xs)) = length xs"
  by (induction xs arbitrary: a) (simp_all add: split_beta)

locale byte_filter =
  fixes raw :: "'s \<Rightarrow> byte list \<Rightarrow> nat \<Rightarrow> 's raw_result"
    and fin :: "'s \<Rightarrow> nat \<Rightarrow> 's raw_result"
    and inv :: "'s \<Rightarrow> bool"
    and view :: "'s \<Rightarrow> 'a"
    and step :: "'a \<Rightarrow> byte \<Rightarrow> 'a \<times> byte"
  assumes raw_refines: "inv s \<Longrightarrow>
      \<exists>s'. raw s xs n = raw_ok s' (min (length xs) n) (snd (filter_run step (view s) (take n xs))) False
        \<and> inv s' \<and> view s' = fst (filter_run step (view s) (take n xs))"
    and fin_refines: "inv s \<Longrightarrow> \<exists>s'. fin s n = raw_ok s' 0 [] True \<and> inv s' \<and> view s' = view s"
begin

lemma raw_splits:
  assumes "inv s"
  obtains s' out where "raw s xs n = raw_ok s' (min (length xs) n) out False" "inv s'"
    "length out = min (length xs) n"
    "snd (filter_run step (view s) (xs @ ys)) =
       out @ snd (filter_run step (view s') (drop (min (length xs) n) xs @ ys))"
proof -
  let ?r = "filter_run step (view s) (take n xs)"
  from raw_refines [OF assms, of xs n] obtain s' where
    "raw s xs n = raw_ok s' (min (length xs) n) (snd ?r) False" "inv s'" "view s' = fst ?r"
    by blast
  moreover have "filter_run step (view s) (xs @ ys) =
      filter_run step (view s) (take n xs @ drop (min (length xs) n) xs @ ys)"
    by (simp add: min_def append_assoc [symmetric] del: append_assoc)
  then have "snd (filter_run step (view s) (xs @ ys)) =
      snd ?r @ snd (filter_run step (fst ?r) (drop (min (length xs) n) xs @ ys))"
    by (simp only: filter_run_append) (simp add: split_beta)
  ultimately show thesis using that [of s' "snd ?r"] by simp
qed

end

sublocale byte_filter \<subseteq> encoder: encoder_contract raw fin "\<lambda>s _. inv s" inv
  "\<lambda>s xs. snd (filter_run step (view s) xs)"
proof (unfold_locales, goal_cases)
  case (1 s xs ys n)
  then obtain s' out where "raw s xs n = raw_ok s' (min (length xs) n) out False" "inv s'"
    "length out = min (length xs) n"
    "snd (filter_run step (view s) (xs @ ys)) =
       out @ snd (filter_run step (view s') (drop (min (length xs) n) xs @ ys))"
    by (rule raw_splits)
  then show ?case unfolding encode_law_def
    by (intro exI [of _ s'] exI [of _ "min (length xs) n"] exI [of _ out]) auto
next
  case (3 s n)
  from fin_refines [OF this, of n] show ?case by (auto intro!: finish_lawI)
qed simp

sublocale byte_filter \<subseteq> decoder: decoder_contract raw fin inv inv
  "\<lambda>s xs. (snd (filter_run step (view s) xs), None)"
proof (unfold_locales, goal_cases)
  case (1 s xs ys n)
  then obtain s' out where "raw s xs n = raw_ok s' (min (length xs) n) out False" "inv s'"
    "length out = min (length xs) n"
    "snd (filter_run step (view s) (xs @ ys)) =
       out @ snd (filter_run step (view s') (drop (min (length xs) n) xs @ ys))"
    by (rule raw_splits)
  then show ?case unfolding decode_law_def
    by (intro disjI2 exI [of _ s'] exI [of _ "min (length xs) n"] exI [of _ out] exI [of _ False])
      auto
next
  case (3 s n)
  from fin_refines [OF this, of n] show ?case by (auto intro!: drain_lawI)
qed simp

locale filter_pair =
  f: byte_filter raw_f fin_f inv_f view_f step_f +
  g: byte_filter raw_g fin_g inv_g view_g step_g
  for raw_f :: "'s \<Rightarrow> byte list \<Rightarrow> nat \<Rightarrow> 's raw_result"
    and fin_f :: "'s \<Rightarrow> nat \<Rightarrow> 's raw_result"
    and inv_f :: "'s \<Rightarrow> bool"
    and view_f :: "'s \<Rightarrow> 'a"
    and step_f :: "'a \<Rightarrow> byte \<Rightarrow> 'a \<times> byte"
    and raw_g :: "'t \<Rightarrow> byte list \<Rightarrow> nat \<Rightarrow> 't raw_result"
    and fin_g :: "'t \<Rightarrow> nat \<Rightarrow> 't raw_result"
    and inv_g :: "'t \<Rightarrow> bool"
    and view_g :: "'t \<Rightarrow> 'b"
    and step_g :: "'b \<Rightarrow> byte \<Rightarrow> 'b \<times> byte" +
  fixes lock :: "'a \<Rightarrow> 'b \<Rightarrow> bool" and f0 :: "'s" and g0 :: "'t"
  assumes lock_step: "lock a b \<Longrightarrow> step_f a x = (a', c) \<Longrightarrow>
      \<exists>b'. step_g b c = (b', x) \<and> lock a' b'"
    and new_inv: "inv_f f0" "inv_g g0"
    and new_lock: "lock (view_f f0) (view_g g0)"
begin

lemma lock_run:
  "lock a b \<Longrightarrow> snd (filter_run step_g b (snd (filter_run step_f a xs))) = xs"
proof (induction xs arbitrary: a b)
  case (Cons x xs)
  obtain a' c where s: "step_f a x = (a', c)" by fastforce
  from lock_step [OF Cons.prems s] obtain b' where "step_g b c = (b', x)" "lock a' b'" by blast
  with Cons.IH [of a' b'] s show ?case by (simp add: split_beta)
qed simp

end

sublocale filter_pair \<subseteq> codec raw_f fin_f "\<lambda>s _. inv_f s" inv_f
  "\<lambda>s xs. snd (filter_run step_f (view_f s) xs)" raw_g fin_g inv_g inv_g
  "\<lambda>s xs. (snd (filter_run step_g (view_g s) xs), None)" f0 g0 "\<lambda>_. True"
  by unfold_locales (simp_all add: new_inv lock_run [OF new_lock])

end
