(* ===== verification/Mtf.thy ===== *)
theory Mtf
  imports Filters
begin

text \<open>
  The move-to-front filter of \<open>src/mtf/mod.rs\<close>.  \<open>Table\<close> is its array of 256 bytes.
  \<open>encode_byte\<close> indexes the array in a loop whose only exit is finding the symbol, so it is
  \<open>None\<close> where the index would run off the end (a panic); the table invariant excludes that.
\<close>

section \<open>The table\<close>

type_synonym mtf_table = "byte list"

definition mtf_table_fill :: "mtf_table \<Rightarrow> mtf_table" where
  "mtf_table_fill t = fold (\<lambda>i t. t[i := byte_of i]) [0..<256] t"

definition mtf_table_new :: mtf_table where
  "mtf_table_new = mtf_table_fill (replicate 256 0)"

definition mtf_table_reset :: "mtf_table \<Rightarrow> mtf_table" where
  "mtf_table_reset t = mtf_table_fill t"

text \<open>The loop of \<open>encode_byte\<close>: slide scanned entries back one slot until \<open>b\<close> turns up.\<close>

function mtf_scan :: "byte \<Rightarrow> nat \<Rightarrow> mtf_table \<Rightarrow> byte \<Rightarrow> (mtf_table \<times> byte) option" where
  "mtf_scan b rank t carry =
     (if rank < length t then
        let nxt = t ! rank; t' = t[rank := carry] in
        if nxt = b then Some (t', byte_of rank) else mtf_scan b (rank + 1) t' nxt
      else None)"
  by pat_completeness auto
termination by (relation "measure (\<lambda>(b, rank, t, carry). length t - rank)") auto

declare mtf_scan.simps [simp del]

definition mtf_encode_byte :: "mtf_table \<Rightarrow> byte \<Rightarrow> (mtf_table \<times> byte) option" where
  "mtf_encode_byte t b =
     (case t of
        [] \<Rightarrow> None
      | carry # _ \<Rightarrow>
          if carry = b then Some (t, 0) else mtf_scan b 1 (t[0 := b]) carry)"

text \<open>\<open>copy_within(0..rank, 1)\<close> and the write of slot 0.\<close>

definition mtf_move_to_front :: "mtf_table \<Rightarrow> nat \<Rightarrow> mtf_table option" where
  "mtf_move_to_front t rank =
     (if rank = 0 then Some t
      else if rank < length t then
        Some ((take 1 t @ take rank t @ drop (rank + 1) t)[0 := t ! rank])
      else None)"

definition mtf_decode_byte :: "mtf_table \<Rightarrow> byte \<Rightarrow> (mtf_table \<times> byte) option" where
  "mtf_decode_byte t rank =
     (if unat rank < length t then
        (case mtf_move_to_front t (unat rank) of
           None \<Rightarrow> None
         | Some t' \<Rightarrow> Some (t', t ! unat rank))
      else None)"

section \<open>The filter\<close>

text \<open>\<open>for i in 0..n { output[i] = f(input[i]) }\<close>\<close>

fun mtf_loop :: "(mtf_table \<Rightarrow> byte \<Rightarrow> (mtf_table \<times> byte) option) \<Rightarrow> mtf_table \<Rightarrow> byte list
    \<Rightarrow> (mtf_table \<times> byte list) option" where
  "mtf_loop f t [] = Some (t, [])"
| "mtf_loop f t (b # bs) =
     (case f t b of
        None \<Rightarrow> None
      | Some (t', c) \<Rightarrow>
          (case mtf_loop f t' bs of None \<Rightarrow> None | Some (t'', cs) \<Rightarrow> Some (t'', c # cs)))"

definition mtf_raw_encode :: "mtf_table \<Rightarrow> byte list \<Rightarrow> nat \<Rightarrow> mtf_table raw_result option" where
  "mtf_raw_encode t input outlen =
     (let n = min (length input) outlen in
      case mtf_loop mtf_encode_byte t (take n input) of
        None \<Rightarrow> None
      | Some (t', out) \<Rightarrow> Some (raw_ok t' n out False))"

definition mtf_raw_decode :: "mtf_table \<Rightarrow> byte list \<Rightarrow> nat \<Rightarrow> mtf_table raw_result option" where
  "mtf_raw_decode t input outlen =
     (let n = min (length input) outlen in
      case mtf_loop mtf_decode_byte t (take n input) of
        None \<Rightarrow> None
      | Some (t', out) \<Rightarrow> Some (raw_ok t' n out False))"

definition mtf_raw_finish :: "mtf_table \<Rightarrow> nat \<Rightarrow> mtf_table raw_result" where
  "mtf_raw_finish t outlen = raw_ok t 0 [] True"

definition mtf_raw_reset :: "mtf_table \<Rightarrow> mtf_table" where
  "mtf_raw_reset t = mtf_table_reset t"

text \<open>The value of a call that does not panic.\<close>

abbreviation mtf_encode_call :: "mtf_table \<Rightarrow> byte list \<Rightarrow> nat \<Rightarrow> mtf_table raw_result" where
  "mtf_encode_call t xs n \<equiv> the (mtf_raw_encode t xs n)"

abbreviation mtf_decode_call :: "mtf_table \<Rightarrow> byte list \<Rightarrow> nat \<Rightarrow> mtf_table raw_result" where
  "mtf_decode_call t xs n \<equiv> the (mtf_raw_decode t xs n)"

section \<open>The list specification\<close>

definition mtf_table_ok :: "mtf_table \<Rightarrow> bool" where
  "mtf_table_ok t \<longleftrightarrow> length t = 256 \<and> distinct t"

definition mtf_rank :: "mtf_table \<Rightarrow> byte \<Rightarrow> nat" where
  "mtf_rank t b = length (takeWhile (\<lambda>x. x \<noteq> b) t)"

definition mtf_front :: "mtf_table \<Rightarrow> byte \<Rightarrow> mtf_table" where
  "mtf_front t b = b # takeWhile (\<lambda>x. x \<noteq> b) t @ tl (dropWhile (\<lambda>x. x \<noteq> b) t)"

definition mtf_encode_step :: "mtf_table \<Rightarrow> byte \<Rightarrow> mtf_table \<times> byte" where
  "mtf_encode_step t b = (mtf_front t b, byte_of (mtf_rank t b))"

definition mtf_decode_step :: "mtf_table \<Rightarrow> byte \<Rightarrow> mtf_table \<times> byte" where
  "mtf_decode_step t r = (mtf_front t (t ! unat r), t ! unat r)"

lemma mtf_table_ok_mem: "mtf_table_ok t \<Longrightarrow> b \<in> set t"
proof -
  assume "mtf_table_ok t"
  then have "card (set t) = card (UNIV :: byte set)"
    by (simp add: mtf_table_ok_def distinct_card card_word)
  then have "set t = UNIV" by (intro card_subset_eq) simp_all
  then show ?thesis by simp
qed

lemma mtf_split: "b \<in> set t \<Longrightarrow>
    t = takeWhile (\<lambda>x. x \<noteq> b) t @ b # tl (dropWhile (\<lambda>x. x \<noteq> b) t)"
  by (induction t) auto

lemma mtf_front_ok:
  assumes "mtf_table_ok t"
  shows "mtf_table_ok (mtf_front t b)"
proof -
  let ?p = "takeWhile (\<lambda>x. x \<noteq> b) t" and ?q = "tl (dropWhile (\<lambda>x. x \<noteq> b) t)"
  from mtf_split [OF mtf_table_ok_mem [OF assms], of b] assms
  have "length (?p @ b # ?q) = 256" "distinct (?p @ b # ?q)"
    unfolding mtf_table_ok_def by metis+
  then show ?thesis by (simp add: mtf_table_ok_def mtf_front_def)
qed

lemma mtf_rank_less: "mtf_table_ok t \<Longrightarrow> mtf_rank t b < 256"
  using mtf_split [OF mtf_table_ok_mem, of t b]
  by (metis (no_types, lifting) length_append length_Cons less_add_Suc1 add_Suc_right
      mtf_rank_def mtf_table_ok_def)

lemma nth_mtf_rank: "b \<in> set t \<Longrightarrow> t ! mtf_rank t b = b"
  by (induction t) (auto simp: mtf_rank_def)

lemma takeWhile_distinct_nth:
  "distinct t \<Longrightarrow> r < length t \<Longrightarrow> takeWhile (\<lambda>x. x \<noteq> t ! r) t = take r t"
  by (rule takeWhile_eq_take_P_nth) (auto simp: nth_eq_iff_index_eq)

text \<open>The one-pass loop is the specification.\<close>

lemma mtf_scan_spec:
  "b \<in> set xs \<Longrightarrow> mtf_scan b (length p) (p @ xs) carry =
     Some (p @ carry # takeWhile (\<lambda>x. x \<noteq> b) xs @ tl (dropWhile (\<lambda>x. x \<noteq> b) xs),
           byte_of (length p + length (takeWhile (\<lambda>x. x \<noteq> b) xs)))"
proof (induction xs arbitrary: p carry)
  case (Cons x xs)
  show ?case
  proof (cases "x = b")
    case True
    then show ?thesis by (simp add: mtf_scan.simps [of b "length p"] list_update_append)
  next
    case False
    with Cons.IH [of "p @ [carry]" x] Cons.prems show ?thesis
      by (simp add: mtf_scan.simps [of b "length p"] list_update_append)
  qed
qed simp

lemma mtf_encode_byte_spec: "b \<in> set t \<Longrightarrow> mtf_encode_byte t b = Some (mtf_encode_step t b)"
  using mtf_scan_spec [of b _ "[b]"]
  by (cases t) (auto simp: mtf_encode_byte_def mtf_encode_step_def mtf_front_def mtf_rank_def)

lemma mtf_decode_byte_spec:
  assumes "mtf_table_ok t"
  shows "mtf_decode_byte t r = Some (mtf_decode_step t r)"
proof -
  have r: "unat r < length t" and d: "distinct t" using assms by (simp_all add: mtf_table_ok_def)
  note tw = takeWhile_distinct_nth [OF d r]
  from r obtain x xs where t: "t = x # xs" by (cases t) auto
  show ?thesis
  proof (cases "unat r = 0")
    case True
    then show ?thesis
      by (simp add: mtf_decode_byte_def mtf_move_to_front_def mtf_decode_step_def mtf_front_def t)
  next
    case False
    have "mtf_front t (t ! unat r) = t ! unat r # take (unat r) t @ drop (unat r + 1) t"
      using r by (simp add: mtf_front_def dropWhile_eq_drop tw tl_drop drop_Suc)
    with False r show ?thesis
      by (simp add: mtf_decode_byte_def mtf_move_to_front_def mtf_decode_step_def t)
  qed
qed

lemma mtf_loop_spec:
  assumes f: "\<And>t b. mtf_table_ok t \<Longrightarrow> f t b = Some (step t b)"
    and ok: "\<And>t b. mtf_table_ok t \<Longrightarrow> mtf_table_ok (fst (step t b))"
  shows "mtf_table_ok t \<Longrightarrow> mtf_loop f t xs = Some (filter_run step t xs)
    \<and> mtf_table_ok (fst (filter_run step t xs))"
proof (induction xs arbitrary: t)
  case (Cons x xs)
  obtain t' c where s: "step t x = (t', c)" by fastforce
  with ok [OF Cons.prems, of x] have "mtf_table_ok t'" by simp
  from Cons.IH [OF this] f [OF Cons.prems, of x] s show ?case by (simp add: split_beta)
qed simp

lemma mtf_encode_loop_spec:
  "mtf_table_ok t \<Longrightarrow> mtf_loop mtf_encode_byte t xs = Some (filter_run mtf_encode_step t xs)
    \<and> mtf_table_ok (fst (filter_run mtf_encode_step t xs))"
  by (rule mtf_loop_spec)
    (auto simp: mtf_encode_byte_spec mtf_table_ok_mem mtf_encode_step_def mtf_front_ok)

lemma mtf_decode_loop_spec:
  "mtf_table_ok t \<Longrightarrow> mtf_loop mtf_decode_byte t xs = Some (filter_run mtf_decode_step t xs)
    \<and> mtf_table_ok (fst (filter_run mtf_decode_step t xs))"
  by (rule mtf_loop_spec) (auto simp: mtf_decode_byte_spec mtf_decode_step_def mtf_front_ok)

lemma mtf_raw_encode_spec:
  "mtf_table_ok t \<Longrightarrow> mtf_raw_encode t xs n =
     (case filter_run mtf_encode_step t (take n xs) of
        (t', out) \<Rightarrow> Some (raw_ok t' (min (length xs) n) out False))"
  using filter_run_length [of mtf_encode_step t "take n xs"]
  by (simp add: mtf_raw_encode_def mtf_encode_loop_spec take_min_length min.commute Let_def
      split_beta)

lemma mtf_raw_decode_spec:
  "mtf_table_ok t \<Longrightarrow> mtf_raw_decode t xs n =
     (case filter_run mtf_decode_step t (take n xs) of
        (t', out) \<Rightarrow> Some (raw_ok t' (min (length xs) n) out False))"
  using filter_run_length [of mtf_decode_step t "take n xs"]
  by (simp add: mtf_raw_decode_def mtf_decode_loop_spec take_min_length min.commute Let_def
      split_beta)

lemma mtf_fill_eq: "length t = 256 \<Longrightarrow> mtf_table_fill t = map byte_of [0..<256]"
proof -
  assume len: "length t = 256"
  have "k \<le> 256 \<Longrightarrow>
      fold (\<lambda>i t. t[i := byte_of i]) [0..<k] t = map byte_of [0..<k] @ drop k t" for k
  proof (induction k)
    case (Suc k)
    then have "drop k t = t ! k # drop (Suc k) t" using len by (simp add: Cons_nth_drop_Suc)
    with Suc show ?case by (simp add: list_update_append)
  qed simp
  from this [of 256] len show ?thesis by (simp add: mtf_table_fill_def)
qed

lemma mtf_fill_ok: "length t = 256 \<Longrightarrow> mtf_table_ok (mtf_table_fill t)"
proof -
  have "inj_on byte_of {0..<256}"
    by (rule inj_onI) (metis atLeastLessThan_iff unat_byte_of)
  moreover assume "length t = 256"
  ultimately show ?thesis by (simp add: mtf_fill_eq mtf_table_ok_def distinct_map)
qed

lemma mtf_new_ok [simp]: "mtf_table_ok mtf_table_new"
  by (simp add: mtf_table_new_def mtf_fill_ok)

section \<open>The codec\<close>

interpretation mtf: filter_pair
  mtf_encode_call mtf_raw_finish mtf_table_ok "\<lambda>t. t" mtf_encode_step
  mtf_decode_call mtf_raw_finish mtf_table_ok "\<lambda>t. t" mtf_decode_step
  "\<lambda>t u. mtf_table_ok t \<and> t = u" mtf_table_new mtf_table_new
proof (unfold_locales, goal_cases)
  case (1 t xs n)
  with mtf_encode_loop_spec [OF 1, of "take n xs"] show ?case
    by (simp add: mtf_raw_encode_spec split_beta)
next
  case (2 t n)
  then show ?case by (simp add: mtf_raw_finish_def)
next
  case (3 t xs n)
  with mtf_decode_loop_spec [OF 3, of "take n xs"] show ?case
    by (simp add: mtf_raw_decode_spec split_beta)
next
  case (4 t u b t' c)
  then show ?case
    using mtf_rank_less [of t b] nth_mtf_rank [OF mtf_table_ok_mem, of t b]
    by (auto simp: mtf_encode_step_def mtf_decode_step_def mtf_front_ok)
qed simp_all

lemma mtf_run_lock:
  "mtf_table_ok t \<Longrightarrow>
   filter_run mtf_decode_step t (snd (filter_run mtf_encode_step t xs))
     = (fst (filter_run mtf_encode_step t xs), xs)"
proof (induction xs arbitrary: t)
  case (Cons x xs)
  have "mtf_decode_step t (snd (mtf_encode_step t x)) = (fst (mtf_encode_step t x), x)"
    using mtf_rank_less [OF Cons.prems, of x] nth_mtf_rank [OF mtf_table_ok_mem [OF Cons.prems]]
    by (simp add: mtf_encode_step_def mtf_decode_step_def)
  moreover have "mtf_table_ok (fst (mtf_encode_step t x))"
    by (simp add: mtf_encode_step_def mtf_front_ok Cons.prems)
  ultimately show ?case using Cons.IH by (simp add: split_beta)
qed simp

section \<open>Properties\<close>

text \<open>C34. On every table that is a permutation of the 256 byte values no call panics (the scan of
  \<open>encode_byte\<close> and the indices of \<open>decode_byte\<close> stay inside the array), and the two directions
  stay in lock step: decoding the ranks one encode call produced restores the bytes it consumed
  and leaves the decoder with the encoder's table, again a permutation.\<close>

theorem mtf_calls_lockstep:
  assumes "mtf_table_ok t"
  shows "(\<exists>t' out. mtf_raw_encode t xs n = Some (raw_ok t' (min (length xs) n) out False)
      \<and> mtf_raw_decode t out n = Some (raw_ok t' (min (length xs) n) (take n xs) False)
      \<and> mtf_table_ok t')
    \<and> mtf_raw_decode t ys n \<noteq> None"
  using assms mtf_encode_loop_spec [OF assms, of "take n xs"] mtf_run_lock [OF assms, of "take n xs"]
  by (simp_all add: mtf_raw_encode_spec mtf_raw_decode_spec split_beta)

theorem mtf_calls_lockstep_witness:
  "(\<exists>t' out. mtf_raw_encode mtf_table_new [7, 7, 3] 2 = Some (raw_ok t' 2 out False)
      \<and> mtf_raw_decode mtf_table_new out 2 = Some (raw_ok t' 2 [7, 7] False) \<and> mtf_table_ok t')
   \<and> mtf_raw_decode mtf_table_new [255, 0] 2 \<noteq> None"
  using mtf_calls_lockstep [OF mtf_new_ok, of "[7, 7, 3]" 2 "[255, 0]"]
  by (simp add: numeral_2_eq_2)

text \<open>C35. One-shot move-to-front round trip: the filter returns as many bytes as it was given,
  and decoding them returns the input.\<close>

theorem mtf_vec_roundtrip:
  "\<exists>ys. compress_to_vec mtf_encode_call mtf_raw_finish mtf_table_new xs = Some (Inr ys)
     \<and> length ys = length xs
     \<and> decompress_to_vec mtf_decode_call mtf_raw_finish mtf_table_new ys = Some (Inr xs)"
  using mtf.vec_roundtrip [of xs] by auto

end
