(* ===== verification/Delta.thy ===== *)
theory Delta
  imports Filters
begin

text \<open>
  The delta filter of \<open>src/delta/mod.rs\<close>: every byte becomes its difference to the byte \<open>dist\<close>
  positions earlier.  The code works in three phases per call (seed from the history ring, bulk
  subtraction or the in-place recurrence, refresh of the ring); the theory shows that they
  refine a queue of the last \<open>dist\<close> original bytes that moves one byte at a time.
\<close>

section \<open>History\<close>

definition MIN_DISTANCE :: nat where "MIN_DISTANCE = 1"
definition MAX_DISTANCE :: nat where "MAX_DISTANCE = 256"

record delta_history =
  dh_buf :: "byte list"
  dh_dist :: nat
  dh_pos :: nat
  dh_valid :: bool

definition delta_history_new :: "nat \<Rightarrow> delta_history" where
  "delta_history_new dist =
     \<lparr>dh_buf = replicate MAX_DISTANCE 0, dh_dist = dist, dh_pos = 0, dh_valid = False\<rparr>"

definition delta_check :: "delta_history \<Rightarrow> delta_history \<times> error option" where
  "delta_check h =
     (if dh_valid h then (h, None)
      else if MIN_DISTANCE \<le> dh_dist h \<and> dh_dist h \<le> MAX_DISTANCE
      then (h\<lparr>dh_valid := True\<rparr>, None)
      else (h, Some Unsupported))"

definition delta_reset :: "delta_history \<Rightarrow> delta_history" where
  "delta_reset h = h\<lparr>dh_buf := replicate MAX_DISTANCE 0, dh_pos := 0\<rparr>"

text \<open>\<open>h.buf[h.pos] = orig\<close> and the cursor step with its wrap.\<close>

definition delta_push :: "delta_history \<Rightarrow> byte \<Rightarrow> delta_history" where
  "delta_push h orig =
     h\<lparr>dh_buf := (dh_buf h)[dh_pos h := orig],
       dh_pos := (if dh_pos h + 1 = dh_dist h then 0 else dh_pos h + 1)\<rparr>"

text \<open>Phase 3 of both directions: refresh the ring from the last \<open>dist\<close> original bytes.\<close>

definition delta_refresh :: "delta_history \<Rightarrow> byte list \<Rightarrow> nat \<Rightarrow> delta_history" where
  "delta_refresh h orig n =
     (let dist = dh_dist h in
      if dist \<le> n then
        let pos_final = (dh_pos h + n mod dist) mod dist in
        h\<lparr>dh_buf := fold (\<lambda>k buf. buf[(pos_final + k) mod dist := orig ! (n - dist + k)])
                      [0..<dist] (dh_buf h),
          dh_pos := pos_final\<rparr>
      else h)"

section \<open>Encoder\<close>

fun delta_enc_seed :: "delta_history \<Rightarrow> byte list \<Rightarrow> delta_history \<times> byte list" where
  "delta_enc_seed h [] = (h, [])"
| "delta_enc_seed h (orig # bs) =
     (let prev = dh_buf h ! dh_pos h;
          (h', out) = delta_enc_seed (delta_push h orig) bs
      in (h', (orig - prev) # out))"

definition delta_raw_encode ::
  "delta_history \<Rightarrow> byte list \<Rightarrow> nat \<Rightarrow> delta_history raw_result" where
  "delta_raw_encode h input outlen =
     (case delta_check h of
        (h0, Some e) \<Rightarrow> (h0, Inl e)
      | (h0, None) \<Rightarrow>
          let n = min (length input) outlen;
              dist = dh_dist h0;
              seed = min dist n;
              (h1, out1) = delta_enc_seed h0 (take seed input);
              out2 = map (\<lambda>i. input ! i - input ! (i - dist)) [dist..<n];
              h2 = delta_refresh h1 input n
          in (h2, Inr (\<lparr>rp_consumed = n, rp_written = n, rp_done = False\<rparr>, out1 @ out2)))"

definition delta_raw_finish :: "delta_history \<Rightarrow> nat \<Rightarrow> delta_history raw_result" where
  "delta_raw_finish h outlen =
     (case delta_check h of
        (h0, Some e) \<Rightarrow> (h0, Inl e)
      | (h0, None) \<Rightarrow> raw_ok h0 0 [] True)"

section \<open>Decoder\<close>

fun delta_dec_seed :: "delta_history \<Rightarrow> byte list \<Rightarrow> delta_history \<times> byte list" where
  "delta_dec_seed h [] = (h, [])"
| "delta_dec_seed h (b # bs) =
     (let prev = dh_buf h ! dh_pos h;
          orig = b + prev;
          (h', out) = delta_dec_seed (delta_push h orig) bs
      in (h', orig # out))"

definition delta_decode_in_place ::
  "delta_history \<Rightarrow> byte list \<Rightarrow> delta_history \<times> (error + byte list)" where
  "delta_decode_in_place h buf =
     (case delta_check h of
        (h0, Some e) \<Rightarrow> (h0, Inl e)
      | (h0, None) \<Rightarrow>
          let n = length buf;
              dist = dh_dist h0;
              seed = min dist n;
              (h1, out1) = delta_dec_seed h0 (take seed buf);
              buf1 = out1 @ drop seed buf;
              buf2 = fold (\<lambda>i buf. buf[i := buf ! i + buf ! (i - dist)]) [dist..<n] buf1
          in (delta_refresh h1 buf2 n, Inr buf2))"

definition delta_raw_decode ::
  "delta_history \<Rightarrow> byte list \<Rightarrow> nat \<Rightarrow> delta_history raw_result" where
  "delta_raw_decode h input outlen =
     (let n = min (length input) outlen in
      case delta_decode_in_place h (take n input) of
        (h', Inl e) \<Rightarrow> (h', Inl e)
      | (h', Inr buf) \<Rightarrow>
          (h', Inr (\<lparr>rp_consumed = n, rp_written = n, rp_done = False\<rparr>, buf)))"

section \<open>The queue specification\<close>

definition delta_inv :: "delta_history \<Rightarrow> bool" where
  "delta_inv h \<longleftrightarrow> 1 \<le> dh_dist h \<and> dh_dist h \<le> 256 \<and> length (dh_buf h) = 256 \<and> dh_pos h < dh_dist h"

text \<open>The last \<open>dist\<close> original bytes, oldest first.\<close>

definition delta_view :: "delta_history \<Rightarrow> byte list" where
  "delta_view h = map (\<lambda>k. dh_buf h ! ((dh_pos h + k) mod dh_dist h)) [0..<dh_dist h]"

definition delta_encode_step :: "byte list \<Rightarrow> byte \<Rightarrow> byte list \<times> byte" where
  "delta_encode_step v b = (tl v @ [b], b - hd v)"

definition delta_decode_step :: "byte list \<Rightarrow> byte \<Rightarrow> byte list \<times> byte" where
  "delta_decode_step v c = (tl v @ [c + hd v], c + hd v)"

lemma delta_step_Cons [simp]:
  "delta_encode_step (y # v) b = (v @ [b], b - y)"
  "delta_decode_step (y # v) c = (v @ [c + y], c + y)"
  by (simp_all add: delta_encode_step_def delta_decode_step_def)

lemma delta_view_length [simp]: "length (delta_view h) = dh_dist h"
  by (simp add: delta_view_def)

lemma delta_view_hd: "delta_inv h \<Longrightarrow> hd (delta_view h) = dh_buf h ! dh_pos h"
  by (subst hd_conv_nth) (auto simp: delta_inv_def delta_view_def)

lemma delta_push_dist [simp]: "dh_dist (delta_push h b) = dh_dist h"
  by (simp add: delta_push_def)

lemma delta_push_inv: "delta_inv h \<Longrightarrow> delta_inv (delta_push h b)"
  by (auto simp: delta_inv_def delta_push_def)

lemma delta_push_pos: "delta_inv h \<Longrightarrow> dh_pos (delta_push h b) = (dh_pos h + 1) mod dh_dist h"
  by (auto simp: delta_inv_def delta_push_def)

lemma ring_neq:
  fixes p d k :: nat
  assumes "p < d" and "k < d" and "k \<noteq> 0"
  shows "(p + k) mod d \<noteq> p"
proof (cases "p + k < d")
  case False
  then have "(p + k) mod d = p + k - d" using assms by (simp add: mod_if)
  with assms False show ?thesis by simp
qed (use assms in simp)

lemma delta_push_view:
  assumes "delta_inv h"
  shows "delta_view (delta_push h b) = tl (delta_view h) @ [b]"
proof (rule nth_equalityI)
  have d: "0 < dh_dist h" and p: "dh_pos h < dh_dist h" and len: "length (dh_buf h) = 256"
    and small: "dh_dist h \<le> 256"
    using assms by (auto simp: delta_inv_def)
  show "length (delta_view (delta_push h b)) = length (tl (delta_view h) @ [b])"
    using d by simp
  fix k
  assume "k < length (delta_view (delta_push h b))"
  then have k: "k < dh_dist h" by simp
  let ?j = "(dh_pos h + Suc k) mod dh_dist h"
  have lhs: "delta_view (delta_push h b) ! k = ((dh_buf h)[dh_pos h := b]) ! ?j"
    using k delta_push_pos [OF assms, of b]
    by (simp add: delta_view_def mod_add_left_eq) (simp add: delta_push_def)
  show "delta_view (delta_push h b) ! k = (tl (delta_view h) @ [b]) ! k"
  proof (cases "Suc k = dh_dist h")
    case True
    then have "?j = dh_pos h" using p by simp
    with lhs p len small show ?thesis by (simp add: nth_append True [symmetric])
  next
    case False
    with k have "Suc k < dh_dist h" "k < dh_dist h - 1" by simp_all
    with ring_neq [OF p this(1)] lhs show ?thesis
      by (simp add: nth_append nth_tl) (simp add: delta_view_def)
  qed
qed

lemma delta_check_ok: "delta_inv h \<Longrightarrow> delta_check h = (h\<lparr>dh_valid := True\<rparr>, None)"
  by (cases h) (auto simp: delta_check_def delta_inv_def MIN_DISTANCE_def MAX_DISTANCE_def)

lemma delta_valid_update [simp]:
  "delta_inv (h\<lparr>dh_valid := v\<rparr>) = delta_inv h" "delta_view (h\<lparr>dh_valid := v\<rparr>) = delta_view h"
  by (simp_all add: delta_inv_def delta_view_def)

lemma delta_enc_seed_spec:
  "delta_inv h \<Longrightarrow> delta_enc_seed h xs = (h', out) \<Longrightarrow>
   filter_run delta_encode_step (delta_view h) xs = (delta_view h', out)
     \<and> delta_inv h' \<and> dh_dist h' = dh_dist h"
proof (induction xs arbitrary: h out)
  case (Cons x xs)
  from Cons.prems(2) obtain out2 where "delta_enc_seed (delta_push h x) xs = (h', out2)"
    "out = (x - dh_buf h ! dh_pos h) # out2" by (auto simp: Let_def split: prod.splits)
  with Cons.IH [OF delta_push_inv [OF Cons.prems(1)] this(1)] Cons.prems(1) show ?case
    by (simp add: delta_encode_step_def delta_push_view delta_view_hd)
qed simp

lemma delta_dec_seed_spec:
  "delta_inv h \<Longrightarrow> delta_dec_seed h xs = (h', out) \<Longrightarrow>
   filter_run delta_decode_step (delta_view h) xs = (delta_view h', out)
     \<and> delta_inv h' \<and> dh_dist h' = dh_dist h"
proof (induction xs arbitrary: h out)
  case (Cons x xs)
  let ?o = "x + dh_buf h ! dh_pos h"
  from Cons.prems(2) obtain out2 where "delta_dec_seed (delta_push h ?o) xs = (h', out2)"
    "out = ?o # out2" by (auto simp: Let_def split: prod.splits)
  with Cons.IH [OF delta_push_inv [OF Cons.prems(1)] this(1)] Cons.prems(1) show ?case
    by (simp add: delta_decode_step_def delta_push_view delta_view_hd)
qed simp

text \<open>Whole runs of the queue machine.\<close>

lemma delta_encode_run:
  "v \<noteq> [] \<Longrightarrow> filter_run delta_encode_step v xs
     = (drop (length xs) (v @ xs), map2 (-) xs (v @ xs))"
proof (induction xs arbitrary: v)
  case (Cons x xs)
  then obtain y ys where "v = y # ys" by (cases v) auto
  with Cons.IH [of "ys @ [x]"] show ?case by simp
qed simp

lemma delta_decode_run:
  "v \<noteq> [] \<Longrightarrow> filter_run delta_decode_step v cs = (w, ys) \<Longrightarrow>
     w = drop (length cs) (v @ ys) \<and> ys = map2 (+) cs (v @ ys)"
proof (induction cs arbitrary: v ys)
  case (Cons c cs)
  then obtain y zs where v: "v = y # zs" by (cases v) auto
  from Cons.prems(2) v obtain ys2 where
    "filter_run delta_decode_step (zs @ [c + y]) cs = (w, ys2)" "ys = (c + y) # ys2"
    by (auto split: prod.splits)
  with Cons.IH [OF _ this(1)] v show ?case by simp
qed simp

lemma ring_fill:
  fixes p d :: nat and f :: "nat \<Rightarrow> byte"
  assumes "p < d" and "d \<le> length buf" and "m \<le> d"
  defines "r \<equiv> fold (\<lambda>k buf. buf[(p + k) mod d := f k]) [0..<m] buf"
  shows "length r = length buf" and "j < m \<Longrightarrow> r ! ((p + j) mod d) = f j"
proof -
  have "length r = length buf \<and> (\<forall>j<m. r ! ((p + j) mod d) = f j)"
    using assms(3) unfolding r_def
  proof (induction m)
    case (Suc m)
    have "(p + m) mod d \<noteq> (p + j) mod d" if "j < m" for j
    proof
      assume eq: "(p + m) mod d = (p + j) mod d"
      let ?q = "(p + j) mod d"
      have "(?q + (m - j)) mod d = (p + j + (m - j)) mod d" by (simp only: mod_add_left_eq)
      then have "(?q + (m - j)) mod d = (p + m) mod d" using that by simp
      with eq ring_neq [of ?q d "m - j"] Suc.prems that show False by simp
    qed
    moreover have "(p + m) mod d < length buf"
      using assms(1,2) mod_less_divisor [of d "p + m"] by linarith
    ultimately show ?case using Suc by (auto simp: less_Suc_eq)
  qed simp
  then show "length r = length buf" and "j < m \<Longrightarrow> r ! ((p + j) mod d) = f j" by blast+
qed

lemma delta_refresh_spec:
  assumes "delta_inv h" and "dh_dist h \<le> n" and "n \<le> length orig"
  shows "delta_view (delta_refresh h orig n) = drop (n - dh_dist h) (take n orig)
    \<and> delta_inv (delta_refresh h orig n)"
proof -
  let ?d = "dh_dist h"
  let ?p = "(dh_pos h + n mod ?d) mod ?d"
  have p: "?p < ?d" and len: "?d \<le> length (dh_buf h)"
    using assms(1) by (auto simp: delta_inv_def)
  note fill = ring_fill [OF p len order_refl, where f = "\<lambda>k. orig ! (n - ?d + k)"]
  have eq: "delta_refresh h orig n = h\<lparr>dh_buf := fold (\<lambda>k buf. buf[(?p + k) mod ?d
      := orig ! (n - ?d + k)]) [0..<?d] (dh_buf h), dh_pos := ?p\<rparr>"
    using assms(2) by (simp add: delta_refresh_def Let_def)
  have inv: "delta_inv (delta_refresh h orig n)"
    using assms(1) fill(1) p unfolding eq by (simp add: delta_inv_def)
  have "delta_view (delta_refresh h orig n) = map (\<lambda>k. orig ! (n - ?d + k)) [0..<?d]"
    unfolding eq delta_view_def using fill(2) by simp
  also have "\<dots> = drop (n - ?d) (take n orig)"
    using assms(2,3) by (intro nth_equalityI) auto
  finally show ?thesis using inv by simp
qed

lemma delta_refresh_short: "n < dh_dist h \<Longrightarrow> delta_refresh h orig n = h"
  by (simp add: delta_refresh_def)

text \<open>The three phases are a run of the queue machine.\<close>

lemma delta_encode_refines:
  assumes "delta_inv h"
  shows "\<exists>s'. delta_raw_encode h xs n =
      raw_ok s' (min (length xs) n) (snd (filter_run delta_encode_step (delta_view h) (take n xs))) False
    \<and> delta_inv s' \<and> delta_view s' = fst (filter_run delta_encode_step (delta_view h) (take n xs))"
proof -
  let ?h0 = "h\<lparr>dh_valid := True\<rparr>" and ?n = "min (length xs) n" and ?d = "dh_dist h"
  let ?v = "delta_view h" and ?seed = "min ?d ?n"
  obtain h1 out1 where seed: "delta_enc_seed ?h0 (take ?seed xs) = (h1, out1)" by fastforce
  have v: "?v \<noteq> []" using assms by (auto simp: delta_inv_def simp flip: length_0_conv)
  from delta_enc_seed_spec [OF _ seed] assms have
    run1: "filter_run delta_encode_step ?v (take ?seed xs) = (delta_view h1, out1)"
    and inv1: "delta_inv h1" and d1: "dh_dist h1 = ?d" by simp_all
  have run: "filter_run delta_encode_step ?v (take n xs)
      = (drop ?n (?v @ take n xs), map2 (-) (take n xs) (?v @ take n xs))"
    using delta_encode_run [OF v, of "take n xs"] by simp
  have out1: "out1 = map2 (-) (take ?seed xs) (?v @ take ?seed xs)"
    using delta_encode_run [OF v, of "take ?seed xs"] run1 by simp
  have view1: "delta_view h1 = drop ?seed (?v @ take ?seed xs)"
    using delta_encode_run [OF v, of "take ?seed xs"] run1 by simp
  let ?out = "out1 @ map (\<lambda>i. xs ! i - xs ! (i - ?d)) [?d..<?n]"
  have code: "delta_raw_encode h xs n =
      (delta_refresh h1 xs ?n, Inr (\<lparr>rp_consumed = ?n, rp_written = ?n, rp_done = False\<rparr>, ?out))"
    using assms seed by (simp add: delta_raw_encode_def delta_check_ok Let_def)
  have out: "?out = snd (filter_run delta_encode_step ?v (take n xs))"
    unfolding run out1 snd_conv
  proof (cases "?d \<le> ?n")
    case True
    then show "map2 (-) (take ?seed xs) (?v @ take ?seed xs)
        @ map (\<lambda>i. xs ! i - xs ! (i - ?d)) [?d..<?n] = map2 (-) (take n xs) (?v @ take n xs)"
      by (intro nth_equalityI) (auto simp: nth_append min_def)
  next
    case False
    then have "?seed = ?n" "[?d..<?n] = []" by auto
    then show "map2 (-) (take ?seed xs) (?v @ take ?seed xs)
        @ map (\<lambda>i. xs ! i - xs ! (i - ?d)) [?d..<?n] = map2 (-) (take n xs) (?v @ take n xs)"
      by (simp only: take_min_length list.map append_Nil2)
  qed
  have code': "delta_raw_encode h xs n = raw_ok (delta_refresh h1 xs ?n) ?n
      (snd (filter_run delta_encode_step ?v (take n xs))) False"
    unfolding code out by simp
  have "delta_inv (delta_refresh h1 xs ?n) \<and>
      delta_view (delta_refresh h1 xs ?n) = fst (filter_run delta_encode_step ?v (take n xs))"
  proof (cases "?d \<le> ?n")
    case True
    with delta_refresh_spec [OF inv1, of ?n xs] d1 show ?thesis
      by (simp add: run take_min_length)
  next
    case False
    then have "delta_refresh h1 xs ?n = h1" and seedn: "?seed = ?n"
      using d1 by (auto simp: delta_refresh_short)
    moreover have "delta_view h1 = fst (filter_run delta_encode_step ?v (take n xs))"
      using run1 by (simp only: seedn take_min_length fst_conv)
    ultimately show ?thesis using inv1 by simp
  qed
  with code' show ?thesis by blast
qed

lemma delta_recurrence:
  assumes ys: "ys = map2 (+) cs (v @ ys)" and len: "length ys = length cs"
    and d: "length v = d" "0 < d" "d \<le> m" "m \<le> length cs"
  shows "fold (\<lambda>i buf. buf[i := buf ! i + buf ! (i - d)]) [d..<m] (take d ys @ drop d cs)
       = take m ys @ drop m cs"
  using d(3,4)
proof (induction m rule: dec_induct)
  case (step m)
  then have m: "d \<le> m" "m < length cs" by simp_all
  have "ys ! m = map2 (+) cs (v @ ys) ! m" using ys by simp
  also have "\<dots> = cs ! m + ys ! (m - d)" using m d(1) len by (simp add: nth_append)
  finally have "ys ! m = cs ! m + ys ! (m - d)" .
  moreover have "drop m cs = cs ! m # drop (Suc m) cs" using m by (simp add: Cons_nth_drop_Suc)
  moreover have "take (Suc m) ys = take m ys @ [ys ! m]"
    using m len by (simp add: take_Suc_conv_app_nth)
  ultimately show ?case using step m d(2) len
    by (simp add: nth_append list_update_append)
qed (use d in simp)

lemma delta_decode_refines:
  assumes "delta_inv h"
  shows "\<exists>s'. delta_raw_decode h cs n =
      raw_ok s' (min (length cs) n) (snd (filter_run delta_decode_step (delta_view h) (take n cs))) False
    \<and> delta_inv s' \<and> delta_view s' = fst (filter_run delta_decode_step (delta_view h) (take n cs))"
proof -
  let ?h0 = "h\<lparr>dh_valid := True\<rparr>" and ?n = "min (length cs) n" and ?d = "dh_dist h"
  let ?v = "delta_view h" and ?seed = "min ?d ?n" and ?cs = "take n cs"
  obtain h1 out1 where seed: "delta_dec_seed ?h0 (take ?seed ?cs) = (h1, out1)" by fastforce
  obtain w ys where run: "filter_run delta_decode_step ?v ?cs = (w, ys)" by fastforce
  have d: "0 < ?d" using assms by (simp add: delta_inv_def)
  then have v: "?v \<noteq> []" by (simp flip: length_0_conv)
  from delta_decode_run [OF v run] have w: "w = drop ?n (?v @ ys)"
    and ys: "ys = map2 (+) ?cs (?v @ ys)" by simp_all
  have len: "length ys = length ?cs"
    using filter_run_length [of delta_decode_step ?v ?cs] by (simp add: run)
  from delta_dec_seed_spec [OF _ seed] assms have
    run1: "filter_run delta_decode_step ?v (take ?seed ?cs) = (delta_view h1, out1)"
    and inv1: "delta_inv h1" and d1: "dh_dist h1 = ?d" by simp_all
  have "filter_run delta_decode_step ?v (take ?seed ?cs @ drop ?seed ?cs) = (w, ys)"
    by (simp only: append_take_drop_id run)
  then have out1: "out1 = take ?seed ys"
    using run1 filter_run_length [of delta_decode_step ?v "take ?seed ?cs"]
    unfolding filter_run_append by (auto split: prod.splits)
  let ?buf2 = "fold (\<lambda>i buf. buf[i := buf ! i + buf ! (i - ?d)]) [?d..<?n] (out1 @ drop ?seed ?cs)"
  have code: "delta_raw_decode h cs n = (delta_refresh h1 ?buf2 ?n,
      Inr (\<lparr>rp_consumed = ?n, rp_written = ?n, rp_done = False\<rparr>, ?buf2))"
    using assms seed by (simp add: delta_raw_decode_def delta_decode_in_place_def delta_check_ok
        Let_def take_min_length)
  show ?thesis
  proof (cases "?d \<le> ?n")
    case True
    then have seedd: "?seed = ?d" by simp
    have "?buf2 = take ?n ys @ drop ?n ?cs"
      unfolding out1 seedd by (rule delta_recurrence [OF ys len]) (use True d in auto)
    then have buf2: "?buf2 = ys" using len by simp
    have "delta_view (delta_refresh h1 ys ?n) = w" "delta_inv (delta_refresh h1 ys ?n)"
      using delta_refresh_spec [OF inv1, of ?n ys] True d1 len w by simp_all
    then show ?thesis unfolding code buf2 run using len by simp
  next
    case False
    then have seedn: "?seed = ?n" and "[?d..<?n] = []" by auto
    then have buf2: "?buf2 = ys" using out1 len by simp
    have "?n < dh_dist h1" using False d1 by linarith
    then have "delta_refresh h1 ys ?n = h1" by (rule delta_refresh_short)
    moreover have "delta_view h1 = w" using run1 run seedn by (simp add: take_min_length)
    ultimately show ?thesis unfolding code buf2 run using len inv1 by simp
  qed
qed

text \<open>The cursor after a call is where the byte-at-a-time loop leaves it.\<close>

lemma delta_enc_seed_pos:
  "delta_inv h \<Longrightarrow> delta_enc_seed h xs = (h', out) \<Longrightarrow>
   dh_pos h' = (dh_pos h + length xs) mod dh_dist h"
proof (induction xs arbitrary: h out)
  case Nil
  then show ?case by (simp add: delta_inv_def)
next
  case (Cons x xs)
  from Cons.prems(2) obtain out2 where "delta_enc_seed (delta_push h x) xs = (h', out2)"
    by (auto simp: Let_def split: prod.splits)
  with Cons.IH [OF delta_push_inv [OF Cons.prems(1)] this] delta_push_pos [OF Cons.prems(1)]
  show ?case by (simp add: mod_add_left_eq)
qed

lemma delta_dec_seed_pos:
  "delta_inv h \<Longrightarrow> delta_dec_seed h xs = (h', out) \<Longrightarrow>
   dh_pos h' = (dh_pos h + length xs) mod dh_dist h"
proof (induction xs arbitrary: h out)
  case Nil
  then show ?case by (simp add: delta_inv_def)
next
  case (Cons x xs)
  let ?o = "x + dh_buf h ! dh_pos h"
  from Cons.prems(2) obtain out2 where "delta_dec_seed (delta_push h ?o) xs = (h', out2)"
    by (auto simp: Let_def split: prod.splits)
  with Cons.IH [OF delta_push_inv [OF Cons.prems(1)] this] delta_push_pos [OF Cons.prems(1)]
  show ?case by (simp add: mod_add_left_eq)
qed

lemma delta_refresh_pos:
  assumes "p < dh_dist h" and "dh_pos h = (p + min (dh_dist h) n) mod dh_dist h"
  shows "dh_pos (delta_refresh h orig n) = (p + n) mod dh_dist h"
proof (cases "dh_dist h \<le> n")
  case True
  with assms have "dh_pos h = p" by simp
  with True assms(1) show ?thesis by (simp add: delta_refresh_def Let_def mod_add_right_eq)
next
  case False
  with assms(2) show ?thesis by (simp add: delta_refresh_def)
qed

lemma delta_encode_pos:
  assumes "delta_inv h"
  shows "dh_pos (fst (delta_raw_encode h xs n)) = (dh_pos h + min (length xs) n) mod dh_dist h"
proof -
  let ?n = "min (length xs) n"
  obtain h1 out1 where seed: "delta_enc_seed (h\<lparr>dh_valid := True\<rparr>) (take (min (dh_dist h) ?n) xs)
      = (h1, out1)" by fastforce
  from delta_enc_seed_pos [OF _ seed] delta_enc_seed_spec [OF _ seed] assms
  have "dh_pos h1 = (dh_pos h + min (dh_dist h1) ?n) mod dh_dist h1" "dh_dist h1 = dh_dist h"
    by (simp_all add: min.commute min.left_commute)
  with delta_refresh_pos [of "dh_pos h" h1 ?n xs] assms seed show ?thesis
    by (simp add: delta_raw_encode_def delta_check_ok Let_def delta_inv_def)
qed

lemma delta_decode_pos:
  assumes "delta_inv h"
  shows "dh_pos (fst (delta_raw_decode h xs n)) = (dh_pos h + min (length xs) n) mod dh_dist h"
proof -
  let ?n = "min (length xs) n"
  let ?xs = "take ?n xs"
  obtain h1 out1 where seed: "delta_dec_seed (h\<lparr>dh_valid := True\<rparr>) (take (min (dh_dist h) ?n) ?xs)
      = (h1, out1)" by fastforce
  from delta_dec_seed_pos [OF _ seed] delta_dec_seed_spec [OF _ seed] assms
  have "dh_pos h1 = (dh_pos h + min (dh_dist h1) ?n) mod dh_dist h1" "dh_dist h1 = dh_dist h"
    by (simp_all add: min.commute min.left_commute)
  with delta_refresh_pos [of "dh_pos h" h1 ?n] assms seed show ?thesis
    by (simp add: delta_raw_decode_def delta_decode_in_place_def delta_check_ok Let_def
        delta_inv_def split_beta)
qed

section \<open>The codec\<close>

lemma delta_finish_ok:
  "delta_inv h \<Longrightarrow> delta_raw_finish h n = raw_ok (h\<lparr>dh_valid := True\<rparr>) 0 [] True"
  by (simp add: delta_raw_finish_def delta_check_ok)

lemma delta_new_inv: "1 \<le> d \<Longrightarrow> d \<le> 256 \<Longrightarrow> delta_inv (delta_history_new d)"
  by (simp add: delta_inv_def delta_history_new_def MAX_DISTANCE_def)

lemma delta_new_view: "d \<le> 256 \<Longrightarrow> delta_view (delta_history_new d) = replicate d 0"
  by (intro nth_equalityI) (simp_all add: delta_view_def delta_history_new_def MAX_DISTANCE_def)

interpretation delta: filter_pair
  delta_raw_encode delta_raw_finish delta_inv delta_view delta_encode_step
  delta_raw_decode delta_raw_finish delta_inv delta_view delta_decode_step
  "\<lambda>v w. v = w \<and> v \<noteq> []"
  "delta_history_new (max 1 (min 256 d))" "delta_history_new (max 1 (min 256 d))"
  for d :: nat
proof (unfold_locales, goal_cases)
  case (1 h xs n)
  then show ?case by (rule delta_encode_refines)
next
  case (2 h n)
  then show ?case by (simp add: delta_finish_ok)
next
  case (3 h xs n)
  then show ?case by (rule delta_decode_refines)
next
  case (4 v w x v' c)
  then show ?case by (cases v) auto
next
  case 6
  show ?case by (simp add: delta_new_view max_def)
qed (simp_all add: delta_new_inv delta_new_view)

lemma delta_codec:
  assumes "1 \<le> d" and "d \<le> 256"
  shows "compress_to_vec delta_raw_encode delta_raw_finish (delta_history_new d) xs
           = Some (Inr (map2 (-) xs (replicate d 0 @ xs)))"
    and "decompress_to_vec delta_raw_decode delta_raw_finish (delta_history_new d)
           (map2 (-) xs (replicate d 0 @ xs)) = Some (Inr xs)"
proof -
  have d: "max 1 (min 256 d) = d" using assms by simp
  have "replicate d (0 :: byte) \<noteq> []" using assms by simp
  from delta_encode_run [OF this, of xs] delta.vec_roundtrip [OF TrueI, of d xs] assms
  show "compress_to_vec delta_raw_encode delta_raw_finish (delta_history_new d) xs
           = Some (Inr (map2 (-) xs (replicate d 0 @ xs)))"
    and "decompress_to_vec delta_raw_decode delta_raw_finish (delta_history_new d)
           (map2 (-) xs (replicate d 0 @ xs)) = Some (Inr xs)"
    unfolding d by (simp_all add: delta_new_view)
qed

section \<open>Properties\<close>

text \<open>C36. For every distance from 1 to 256, one-shot delta coding returns the list of differences
  to the byte \<open>dist\<close> positions earlier (to 0 before the start of the stream), and decoding that
  list returns the input.\<close>

theorem delta_vec_roundtrip:
  assumes "1 \<le> dist" and "dist \<le> 256"
  shows "\<exists>ys. compress_to_vec delta_raw_encode delta_raw_finish (delta_history_new dist) xs
        = Some (Inr ys)
      \<and> length ys = length xs
      \<and> (\<forall>i < length xs. ys ! i = xs ! i - (if i < dist then 0 else xs ! (i - dist)))
      \<and> decompress_to_vec delta_raw_decode delta_raw_finish (delta_history_new dist) ys
        = Some (Inr xs)"
  using delta_codec [OF assms, of xs] by (simp add: nth_append)

theorem delta_vec_roundtrip_witness:
  "\<exists>ys. compress_to_vec delta_raw_encode delta_raw_finish (delta_history_new 2) [10, 20, 13, 25]
        = Some (Inr ys)
      \<and> length ys = length [10, 20, 13, 25 :: byte]
      \<and> (\<forall>i < length [10, 20, 13, 25 :: byte]. ys ! i = [10, 20, 13, 25] ! i
          - (if i < 2 then 0 else [10, 20, 13, 25] ! (i - 2)))
      \<and> decompress_to_vec delta_raw_decode delta_raw_finish (delta_history_new 2) ys
        = Some (Inr [10, 20, 13, 25])"
  by (rule delta_vec_roundtrip) simp_all

text \<open>C37. The bulk algorithm is the byte-by-byte one.  A call on \<open>n\<close> bytes produces the bytes
  that the phase 1 loop alone would produce on all of them, and leaves the same history (read
  from the cursor on) and the same cursor, in both directions.\<close>

theorem delta_bulk_is_bytewise:
  assumes "delta_inv h"
    and "delta_enc_seed h (take n xs) = (h1, out1)" and "delta_dec_seed h (take n cs) = (h2, out2)"
  shows "(\<exists>h'. delta_raw_encode h xs n = raw_ok h' (min (length xs) n) out1 False
        \<and> delta_inv h' \<and> delta_view h' = delta_view h1 \<and> dh_pos h' = dh_pos h1)
    \<and> (\<exists>h'. delta_raw_decode h cs n = raw_ok h' (min (length cs) n) out2 False
        \<and> delta_inv h' \<and> delta_view h' = delta_view h2 \<and> dh_pos h' = dh_pos h2)"
proof
  show "\<exists>h'. delta_raw_encode h xs n = raw_ok h' (min (length xs) n) out1 False
        \<and> delta_inv h' \<and> delta_view h' = delta_view h1 \<and> dh_pos h' = dh_pos h1"
    using delta_encode_refines [OF assms(1), of xs n] delta_encode_pos [OF assms(1), of xs n]
      delta_enc_seed_spec [OF assms(1,2)] delta_enc_seed_pos [OF assms(1,2)]
    by (auto simp: min.commute)
  show "\<exists>h'. delta_raw_decode h cs n = raw_ok h' (min (length cs) n) out2 False
        \<and> delta_inv h' \<and> delta_view h' = delta_view h2 \<and> dh_pos h' = dh_pos h2"
    using delta_decode_refines [OF assms(1), of cs n] delta_decode_pos [OF assms(1), of cs n]
      delta_dec_seed_spec [OF assms(1,3)] delta_dec_seed_pos [OF assms(1,3)]
    by (auto simp: min.commute)
qed

theorem delta_bulk_is_bytewise_witness:
  "\<exists>h1 out1 h2 out2. delta_enc_seed (delta_history_new 2) [1, 2, 4] = (h1, out1)
    \<and> delta_dec_seed (delta_history_new 2) [1, 2, 3] = (h2, out2)
    \<and> (\<exists>h'. delta_raw_encode (delta_history_new 2) [1, 2, 4] 3 = raw_ok h' 3 out1 False
        \<and> delta_inv h' \<and> delta_view h' = delta_view h1 \<and> dh_pos h' = dh_pos h1)
    \<and> (\<exists>h'. delta_raw_decode (delta_history_new 2) [1, 2, 3] 3 = raw_ok h' 3 out2 False
        \<and> delta_inv h' \<and> delta_view h' = delta_view h2 \<and> dh_pos h' = dh_pos h2)"
proof -
  obtain h1 out1 h2 out2 where runs:
    "delta_enc_seed (delta_history_new 2) [1, 2, 4] = (h1, out1)"
    "delta_dec_seed (delta_history_new 2) [1, 2, 3] = (h2, out2)" by (meson surj_pair)
  have "delta_inv (delta_history_new 2)" by (simp add: delta_new_inv)
  from delta_bulk_is_bytewise [OF this, of 3 "[1, 2, 4]" h1 out1 "[1, 2, 3]" h2 out2] runs
  show ?thesis by (simp add: numeral_3_eq_3)
qed

text \<open>A distance outside 1..256 is refused by every operation, before it touches a byte:
  both one-shot helpers return \<open>Unsupported\<close> on any input, the empty one included.\<close>

theorem delta_bad_distance:
  assumes "dist = 0 \<or> 256 < dist"
  shows "compress_to_vec delta_raw_encode delta_raw_finish (delta_history_new dist) xs
      = Some (Inl Unsupported)
    \<and> decompress_to_vec delta_raw_decode delta_raw_finish (delta_history_new dist) ys
      = Some (Inl Unsupported)"
proof -
  let ?h = "delta_history_new dist"
  have "delta_check ?h = (?h, Some Unsupported)"
    using assms by (auto simp: delta_check_def delta_history_new_def MIN_DISTANCE_def MAX_DISTANCE_def)
  then have "delta_raw_encode ?h zs n = (?h, Inl Unsupported)"
    and "delta_raw_decode ?h zs n = (?h, Inl Unsupported)"
    and "delta_raw_finish ?h n = (?h, Inl Unsupported)" for zs n
    by (simp_all add: delta_raw_encode_def delta_raw_decode_def delta_decode_in_place_def
        delta_raw_finish_def Let_def)
  then show ?thesis
    by (simp add: compress_to_vec_def compress_to_vec_with_def compress_encode_loop.simps
        compress_finish_loop.simps encoder_encode_def encoder_finish_def decompress_to_vec_def
        decompress_to_vec_with_def drive_decoder_def drive_decode_loop.simps decoder_decode_def)
qed

theorem delta_bad_distance_witness:
  "compress_to_vec delta_raw_encode delta_raw_finish (delta_history_new 257) []
      = Some (Inl Unsupported)
    \<and> decompress_to_vec delta_raw_decode delta_raw_finish (delta_history_new 257) [1]
      = Some (Inl Unsupported)"
  by (rule delta_bad_distance) simp

end
