(* ===== verification/Queued.thy ===== *)
theory Queued
  imports Codec
begin

text \<open>
  Encoders with an output queue (\<open>src/packbits.rs\<close>, \<open>src/rle90.rs\<close>).  Their structs share the
  fields \<open>pending\<close>, \<open>head\<close> and \<open>finished\<close>, and the same text of \<open>drain_pending\<close>, \<open>raw_encode\<close> and
  \<open>raw_finish\<close> over a \<open>feed\<close> and a \<open>finalize\<close> of their own; the codecs extend the record
  \<open>queue_state\<close> and pass those two operations in.  The locale \<open>queued_encoder\<close> asks that
  \<open>feed\<close> and \<open>finalize\<close> only append to the queue; it gives the encoder contract.
\<close>

section \<open>The shared code\<close>

record queue_state =
  q_pending :: "byte list"
  q_head :: nat
  q_finished :: bool

definition queue_drain :: "'a queue_state_scheme \<Rightarrow> nat \<Rightarrow> 'a queue_state_scheme \<times> byte list" where
  "queue_drain s outlen =
     (let avail = length (q_pending s) - q_head s;
          n = min avail outlen;
          out = take n (drop (q_head s) (q_pending s));
          s1 = s\<lparr>q_head := q_head s + n\<rparr>
      in ((if q_head s1 = length (q_pending s1) then s1\<lparr>q_pending := [], q_head := 0\<rparr> else s1),
          out))"

text \<open>\<open>if self.head < self.pending.len() && written < output.len()\<close>: drain what fits.\<close>

definition queue_drain_into ::
  "'a queue_state_scheme \<Rightarrow> nat \<Rightarrow> byte list \<Rightarrow> 'a queue_state_scheme \<times> byte list" where
  "queue_drain_into s n out =
     (if q_head s < length (q_pending s) \<and> length out < n then
        (case queue_drain s (n - length out) of (s', o1) \<Rightarrow> (s', out @ o1))
      else (s, out))"

definition queued_encode_end ::
  "'a queue_state_scheme \<Rightarrow> nat \<Rightarrow> nat \<Rightarrow> byte list \<Rightarrow> 'a queue_state_scheme raw_result" where
  "queued_encode_end s n consumed out =
     (case queue_drain_into s n out of (s', out') \<Rightarrow> raw_ok s' consumed out' False)"

text \<open>The back-pressure test at the top of the \<open>while\<close> body; the flag is its \<open>break\<close>.\<close>

definition queue_pressure ::
  "'a queue_state_scheme \<Rightarrow> nat \<Rightarrow> byte list \<Rightarrow> 'a queue_state_scheme \<times> byte list \<times> bool" where
  "queue_pressure s n out =
     (if n - length out \<le> length (q_pending s) - q_head s then
        let (s', out') =
          (if length out < n then
             (case queue_drain s (n - length out) of (s', o1) \<Rightarrow> (s', out @ o1))
           else (s, out))
        in (s', out', q_head s' < length (q_pending s'))
      else (s, out, False))"

fun queued_encode_loop ::
  "('a queue_state_scheme \<Rightarrow> byte \<Rightarrow> 'a queue_state_scheme) \<Rightarrow> 'a queue_state_scheme \<Rightarrow> byte list
   \<Rightarrow> nat \<Rightarrow> nat \<Rightarrow> byte list \<Rightarrow> 'a queue_state_scheme raw_result" where
  "queued_encode_loop feed s [] n consumed out = queued_encode_end s n consumed out"
| "queued_encode_loop feed s (b # input) n consumed out =
     (case queue_pressure s n out of
        (s1, out1, brk) \<Rightarrow>
          if brk then queued_encode_end s1 n consumed out1
          else
            (case queue_drain_into (feed s1 b) n out1 of
               (s2, out2) \<Rightarrow> queued_encode_loop feed s2 input n (Suc consumed) out2))"

definition queued_raw_encode ::
  "('a queue_state_scheme \<Rightarrow> byte \<Rightarrow> 'a queue_state_scheme) \<Rightarrow> 'a queue_state_scheme \<Rightarrow> byte list
   \<Rightarrow> nat \<Rightarrow> 'a queue_state_scheme raw_result" where
  "queued_raw_encode feed s input outlen =
     (if q_head s < length (q_pending s) then
        (case queue_drain s outlen of (s', o1) \<Rightarrow> queued_encode_loop feed s' input outlen 0 o1)
      else queued_encode_loop feed s input outlen 0 [])"

definition queued_raw_finish ::
  "('a queue_state_scheme \<Rightarrow> 'a queue_state_scheme) \<Rightarrow> 'a queue_state_scheme \<Rightarrow> nat
   \<Rightarrow> 'a queue_state_scheme raw_result" where
  "queued_raw_finish finalize s outlen =
     (if q_finished s \<and> length (q_pending s) \<le> q_head s then raw_ok s 0 [] True
      else
        let s1 = (if q_finished s then s else (finalize s)\<lparr>q_finished := True\<rparr>);
            (s2, out) = (if q_head s1 < length (q_pending s1) then queue_drain s1 outlen
                         else (s1, []))
        in raw_ok s2 0 out (length (q_pending s2) \<le> q_head s2))"

section \<open>What is owed\<close>

definition queue_frame :: "byte list \<Rightarrow> nat \<Rightarrow> 'a queue_state_scheme \<Rightarrow> 'a queue_state_scheme" where
  "queue_frame p h t = t\<lparr>q_pending := p @ q_pending t, q_head := h\<rparr>"

definition queue_blank :: "'a queue_state_scheme \<Rightarrow> 'a queue_state_scheme" where
  "queue_blank s = s\<lparr>q_pending := [], q_head := 0\<rparr>"

text \<open>Appending to the queue under a frame.\<close>

named_theorems queue_frame_simps

lemma queue_frame_fields [simp]:
  "q_finished (queue_frame p h t) = q_finished t" "q_head (queue_frame p h t) = h"
  "q_pending (queue_frame p h t) = p @ q_pending t"
  "queue_blank (queue_frame p h t) = queue_blank t"
  "q_finished (queue_blank t) = q_finished t" "q_pending (queue_blank t) = []"
  "queue_blank (queue_blank t) = queue_blank t" "queue_blank (t\<lparr>q_head := h\<rparr>) = queue_blank t"
  "queue_blank (t\<lparr>q_pending := p\<rparr>) = queue_blank t"
  by (simp_all add: queue_frame_def queue_blank_def)

lemma queue_as_frame: "s = queue_frame (q_pending s) (q_head s) (queue_blank s)"
  by (cases s) (simp add: queue_frame_def queue_blank_def)

fun queued_rest ::
  "('a queue_state_scheme \<Rightarrow> byte \<Rightarrow> 'a queue_state_scheme)
   \<Rightarrow> ('a queue_state_scheme \<Rightarrow> 'a queue_state_scheme) \<Rightarrow> 'a queue_state_scheme \<Rightarrow> byte list
   \<Rightarrow> byte list" where
  "queued_rest feed finalize t [] = q_pending (finalize t)"
| "queued_rest feed finalize t (b # xs) =
     q_pending (feed t b) @ queued_rest feed finalize (queue_blank (feed t b)) xs"

definition queue_bytes :: "'a queue_state_scheme \<Rightarrow> byte list" where
  "queue_bytes s = drop (q_head s) (q_pending s)"

definition queued_owed ::
  "('a queue_state_scheme \<Rightarrow> byte \<Rightarrow> 'a queue_state_scheme)
   \<Rightarrow> ('a queue_state_scheme \<Rightarrow> 'a queue_state_scheme) \<Rightarrow> 'a queue_state_scheme \<Rightarrow> byte list
   \<Rightarrow> byte list" where
  "queued_owed feed finalize s xs =
     queue_bytes s @ (if q_finished s then [] else queued_rest feed finalize (queue_blank s) xs)"

definition queued_ready :: "'a queue_state_scheme \<Rightarrow> bool" where
  "queued_ready s \<longleftrightarrow> q_head s \<le> length (q_pending s) \<and> \<not> q_finished s"

definition queued_closing :: "'a queue_state_scheme \<Rightarrow> bool" where
  "queued_closing s \<longleftrightarrow> q_head s \<le> length (q_pending s)"

lemma queued_ready_closing: "queued_ready s \<Longrightarrow> queued_closing s"
  by (simp add: queued_ready_def queued_closing_def)

lemma queue_drain_owed:
  assumes "queue_drain s n = (s', out)" and "queued_closing s"
  shows "queued_owed feed finalize s xs = out @ queued_owed feed finalize s' xs"
    and "length out \<le> n" and "queued_closing s'"
    and "q_finished s' = q_finished s" and "q_head s' < length (q_pending s') \<Longrightarrow> length out = n"
    and "length (q_pending s') \<le> q_head s' \<Longrightarrow> queue_bytes s' = []"
proof -
  let ?a = "length (q_pending s) - q_head s"
  have out: "out = take n (queue_bytes s)"
    using assms(1) by (auto simp: queue_drain_def queue_bytes_def Let_def min_def)
  moreover have "queue_bytes s' = drop n (queue_bytes s)"
    using assms by (auto simp: queue_drain_def queue_bytes_def queued_closing_def Let_def
        min_def add.commute split: if_splits)
  moreover have "queue_blank s' = queue_blank s"
    and fin: "q_finished s' = q_finished s"
    using assms(1) by (auto simp: queue_drain_def Let_def split: if_splits)
  ultimately show "queued_owed feed finalize s xs = out @ queued_owed feed finalize s' xs"
    by (simp add: queued_owed_def)
  show "length out \<le> n" using out by simp
  show "queued_closing s'"
    using assms by (auto simp: queue_drain_def queued_closing_def Let_def)
  show "q_finished s' = q_finished s" by (fact fin)
  show "q_head s' < length (q_pending s') \<Longrightarrow> length out = n"
    using assms by (auto simp: queue_drain_def queued_closing_def Let_def min_def
        split: if_splits)
  show "length (q_pending s') \<le> q_head s' \<Longrightarrow> queue_bytes s' = []"
    by (simp add: queue_bytes_def)
qed

lemma queue_drain_into_owed:
  assumes "queue_drain_into s n out = (s', out')" and "queued_ready s" and "length out \<le> n"
  obtains o1 where "out' = out @ o1" "length out' \<le> n" "queued_ready s'"
    "queued_owed feed finalize s xs = o1 @ queued_owed feed finalize s' xs"
proof (cases "q_head s < length (q_pending s) \<and> length out < n")
  case True
  obtain s1 o1 where d: "queue_drain s (n - length out) = (s1, o1)" by fastforce
  from queue_drain_owed [OF d queued_ready_closing [OF assms(2)]] that [of o1] True assms d
  show thesis by (auto simp: queue_drain_into_def queued_ready_def queued_closing_def)
next
  case False
  with that [of "[]"] assms show thesis by (auto simp: queue_drain_into_def)
qed

lemma queue_pressure_owed:
  assumes "queue_pressure s n out = (s', out', brk)" and "queued_ready s" and "length out \<le> n"
  obtains o1 where "out' = out @ o1" "length out' \<le> n" "queued_ready s'"
    "queued_owed feed finalize s xs = o1 @ queued_owed feed finalize s' xs"
    "brk \<Longrightarrow> length out' = n"
proof (cases "n - length out \<le> length (q_pending s) - q_head s \<and> length out < n")
  case True
  obtain s1 o1 where d: "queue_drain s (n - length out) = (s1, o1)" by fastforce
  from queue_drain_owed [OF d queued_ready_closing [OF assms(2)]] that [of o1] True assms d
  show thesis by (auto simp: queue_pressure_def queued_ready_def queued_closing_def Let_def)
next
  case False
  with that [of "[]"] assms show thesis
    by (auto simp: queue_pressure_def Let_def split: if_splits)
qed

lemma queued_encode_end_acc:
  assumes "queued_ready s" and "length out \<le> n" and "xs = [] \<or> length out = n"
  shows "encode_acc (\<lambda>s _. queued_ready s) (queued_owed feed finalize) s xs ys n c out
           (queued_encode_end s n c out)"
proof -
  obtain s' out' where d: "queue_drain_into s n out = (s', out')" by fastforce
  from queue_drain_into_owed [OF d assms(1,2), of feed finalize "xs @ ys"] obtain o1 where
    o1: "out' = out @ o1" "length out' \<le> n" "queued_ready s'"
      "queued_owed feed finalize s (xs @ ys) = o1 @ queued_owed feed finalize s' (xs @ ys)" .
  have "xs = [] \<or> length out' = n" using assms(3) o1(1,2) by auto
  with o1(2,3) have "encode_acc (\<lambda>s _. queued_ready s) (queued_owed feed finalize) s' xs ys n c
      (out @ o1) (queued_encode_end s n c out)"
    unfolding queued_encode_end_def d prod.case o1(1) by (intro encode_acc_stop) auto
  then show ?thesis by (rule encode_acc_write) (rule o1(4))
qed

section \<open>The contract\<close>

locale queued_encoder =
  fixes feed :: "'a queue_state_scheme \<Rightarrow> byte \<Rightarrow> 'a queue_state_scheme"
    and finalize :: "'a queue_state_scheme \<Rightarrow> 'a queue_state_scheme"
  assumes feed_frame: "feed (queue_frame p h t) b = queue_frame p h (feed t b)"
    and feed_finished: "q_finished (feed t b) = q_finished t"
    and finalize_frame: "finalize (queue_frame p h t) = queue_frame p h (finalize t)"
begin

abbreviation "owing \<equiv> queued_owed feed finalize"

lemma feed_owed:
  assumes "queued_ready s"
  shows "owing s (b # xs) = owing (feed s b) xs" and "queued_ready (feed s b)"
proof -
  have "feed s b = queue_frame (q_pending s) (q_head s) (feed (queue_blank s) b)"
    using feed_frame queue_as_frame by metis
  then show "owing s (b # xs) = owing (feed s b) xs" and "queued_ready (feed s b)"
    using assms feed_finished [of s b]
    by (simp_all add: queued_owed_def queue_bytes_def queued_ready_def)
qed

lemma finalize_owed:
  assumes "queued_ready s"
  shows "owing ((finalize s)\<lparr>q_finished := True\<rparr>) [] = owing s []"
    and "queued_closing ((finalize s)\<lparr>q_finished := True\<rparr>)"
proof -
  have "finalize s = queue_frame (q_pending s) (q_head s) (finalize (queue_blank s))"
    using finalize_frame queue_as_frame by metis
  then show "owing ((finalize s)\<lparr>q_finished := True\<rparr>) [] = owing s []"
    and "queued_closing ((finalize s)\<lparr>q_finished := True\<rparr>)"
    using assms by (simp_all add: queued_owed_def queue_bytes_def queued_ready_def queued_closing_def)
qed

lemma encode_loop_acc:
  "queued_ready s \<Longrightarrow> length out \<le> n \<Longrightarrow>
   encode_acc (\<lambda>s _. queued_ready s) owing s xs ys n c out (queued_encode_loop feed s xs n c out)"
proof (induction xs arbitrary: s c out)
  case Nil
  then show ?case by (simp add: queued_encode_end_acc)
next
  case (Cons b xs)
  obtain s1 out1 brk where p: "queue_pressure s n out = (s1, out1, brk)"
    by (metis prod_cases3)
  from queue_pressure_owed [OF p Cons.prems, of feed finalize "b # xs @ ys"] obtain o1 where
    o1: "out1 = out @ o1" "length out1 \<le> n" "queued_ready s1"
      "owing s (b # xs @ ys) = o1 @ owing s1 (b # xs @ ys)"
      "brk \<Longrightarrow> length out1 = n" by blast
  have rest: "encode_acc (\<lambda>s _. queued_ready s) owing s1 (b # xs) ys n c (out @ o1)
     (queued_encode_loop feed s (b # xs) n c out)"
  proof (cases brk)
    case True
    with p o1 show ?thesis by (auto intro!: queued_encode_end_acc)
  next
    case False
    obtain s2 out2 where d: "queue_drain_into (feed s1 b) n out1 = (s2, out2)"
      by fastforce
    note fed = feed_owed [OF o1(3), of b]
    from queue_drain_into_owed [OF d fed(2) o1(2), of feed finalize "xs @ ys"] obtain o2 where
      o2: "out2 = out1 @ o2" "length out2 \<le> n" "queued_ready s2"
        "owing (feed s1 b) (xs @ ys) = o2 @ owing s2 (xs @ ys)" .
    from Cons.IH [OF o2(3,2), of "Suc c"]
    have "encode_acc (\<lambda>s _. queued_ready s) owing s2 xs ys n (Suc c) ((out @ o1) @ o2)
       (queued_encode_loop feed s (b # xs) n c out)"
      using p False d o1(1) o2(1) by simp
    then show ?thesis
      by - (rule encode_acc_step [where k = 1 and ?s1.0 = s2 and ?o1.0 = o2],
          simp_all add: fed o2(4))
  qed
  then show ?case by (rule encode_acc_write) (use o1(4) in simp)
qed

lemma raw_encode_law:
  assumes "queued_ready s"
  shows "encode_law (\<lambda>s _. queued_ready s) owing s xs ys n (queued_raw_encode feed s xs n)"
proof (cases "q_head s < length (q_pending s)")
  case True
  obtain s' o1 where d: "queue_drain s n = (s', o1)" by fastforce
  note d1 = queue_drain_owed [OF d queued_ready_closing [OF assms]]
  then have "queued_ready s'" using assms by (simp add: queued_ready_def queued_closing_def)
  from encode_loop_acc [OF this d1(2), of xs ys 0]
  have "encode_acc (\<lambda>s _. queued_ready s) owing s' xs ys n 0 ([] @ o1)
      (queued_raw_encode feed s xs n)" using True d by (simp add: queued_raw_encode_def)
  then have "encode_acc (\<lambda>s _. queued_ready s) owing s xs ys n 0 []
      (queued_raw_encode feed s xs n)" by (rule encode_acc_write) (rule d1(1))
  then show ?thesis by (rule encode_acc_law)
next
  case False
  then show ?thesis
    using encode_loop_acc [OF assms, of "[]"]
    by (intro encode_acc_law) (simp add: queued_raw_encode_def)
qed

lemma raw_finish_law:
  assumes "queued_closing s"
  shows "finish_law queued_closing owing s n (queued_raw_finish finalize s n)"
proof (cases "q_finished s \<and> length (q_pending s) \<le> q_head s")
  case True
  with assms show ?thesis
    by (auto simp: queued_raw_finish_def queued_owed_def queue_bytes_def intro!: finish_lawI)
next
  case False
  define s1 where "s1 = (if q_finished s then s else (finalize s)\<lparr>q_finished := True\<rparr>)"
  have s1: "queued_closing s1" "owing s [] = owing s1 []" "q_finished s1"
    using finalize_owed [of s] assms
    by (auto simp: s1_def queued_ready_def queued_closing_def)
  show ?thesis
  proof (cases "q_head s1 < length (q_pending s1)")
    case True
    obtain s2 out where d: "queue_drain s1 n = (s2, out)" by fastforce
    note d2 = queue_drain_owed [OF d s1(1)]
    from False True d have "queued_raw_finish finalize s n
        = raw_ok s2 0 out (length (q_pending s2) \<le> q_head s2)"
      by (auto simp: queued_raw_finish_def s1_def [symmetric])
    then show ?thesis using d2 s1
      by (auto simp: queued_owed_def intro!: finish_lawI)
  next
    case none: False
    from False none have "queued_raw_finish finalize s n = raw_ok s1 0 [] True"
      by (auto simp: queued_raw_finish_def s1_def [symmetric])
    then show ?thesis using none s1
      by (auto simp: queued_owed_def queue_bytes_def intro!: finish_lawI)
  qed
qed

end

sublocale queued_encoder \<subseteq> encoder_contract "queued_raw_encode feed" "queued_raw_finish finalize"
  "\<lambda>s _. queued_ready s" queued_closing "queued_owed feed finalize"
  by unfold_locales (rule raw_encode_law, assumption, rule queued_ready_closing, assumption,
      rule raw_finish_law, assumption)

end
