(* ===== verification/Packbits.thy ===== *)
theory Packbits
  imports Queued
begin

text \<open>
  PackBits (\<open>src/packbits.rs\<close>).  The encoder keeps a literal buffer, a tracked run and the
  queue of \<open>Queued\<close>; the decoder is a state machine over
  signed control bytes.  The guards \<open>written == output.len()\<close> are written
  \<open>n \<le> length out\<close>: a call never writes past the slice, so the two agree.
\<close>

definition MAX_LITERAL :: nat where "MAX_LITERAL = 128"
definition MAX_RUN :: nat where "MAX_RUN = 128"
definition MIN_RUN :: nat where "MIN_RUN = 3"

section \<open>Encoder\<close>

record packbits_enc = queue_state +
  pb_literal :: "byte list"
  pb_run :: "(byte \<times> nat) option"

definition packbits_encoder_new :: packbits_enc where
  "packbits_encoder_new =
     \<lparr>q_pending = [], q_head = 0, q_finished = False, pb_literal = [], pb_run = None\<rparr>"

definition packbits_flush_literal :: "packbits_enc \<Rightarrow> packbits_enc" where
  "packbits_flush_literal s =
     (if pb_literal s = [] then s
      else s\<lparr>q_pending := q_pending s @ [byte_of (length (pb_literal s) - 1)] @ pb_literal s,
             pb_literal := []\<rparr>)"

definition packbits_flush_run :: "packbits_enc \<Rightarrow> packbits_enc" where
  "packbits_flush_run s =
     (case pb_run s of
        None \<Rightarrow> s
      | Some (b, count) \<Rightarrow>
          s\<lparr>pb_run := None,
            q_pending := q_pending s @ [word_of_int (- (int count - 1)), b]\<rparr>)"

definition packbits_push_literal :: "byte \<Rightarrow> packbits_enc \<Rightarrow> packbits_enc" where
  "packbits_push_literal b s =
     (let s1 = s\<lparr>pb_literal := pb_literal s @ [b]\<rparr> in
      if length (pb_literal s1) = MAX_LITERAL then packbits_flush_literal s1 else s1)"

definition packbits_feed :: "packbits_enc \<Rightarrow> byte \<Rightarrow> packbits_enc" where
  "packbits_feed s b =
     (case pb_run s of
        Some (v, count) \<Rightarrow>
          if v = b \<and> count < MAX_RUN then s\<lparr>pb_run := Some (v, count + 1)\<rparr>
          else if v = b then
            (packbits_flush_run (packbits_flush_literal s))\<lparr>pb_run := Some (b, 1)\<rparr>
          else if MIN_RUN \<le> count then
            (packbits_flush_run (packbits_flush_literal s))\<lparr>pb_run := Some (b, 1)\<rparr>
          else
            ((packbits_push_literal v ^^ count) (s\<lparr>pb_run := None\<rparr>))\<lparr>pb_run := Some (b, 1)\<rparr>
      | None \<Rightarrow> s\<lparr>pb_run := Some (b, 1)\<rparr>)"

definition packbits_finalize :: "packbits_enc \<Rightarrow> packbits_enc" where
  "packbits_finalize s =
     (case pb_run s of
        Some (b, count) \<Rightarrow>
          let s1 = s\<lparr>pb_run := None\<rparr> in
          if MIN_RUN \<le> count then
            packbits_flush_run ((packbits_flush_literal s1)\<lparr>pb_run := Some (b, count)\<rparr>)
          else packbits_flush_literal ((packbits_push_literal b ^^ count) s1)
      | None \<Rightarrow> packbits_flush_literal s)"

definition packbits_raw_encode ::
  "packbits_enc \<Rightarrow> byte list \<Rightarrow> nat \<Rightarrow> packbits_enc raw_result" where
  "packbits_raw_encode = queued_raw_encode packbits_feed"

definition packbits_enc_raw_finish :: "packbits_enc \<Rightarrow> nat \<Rightarrow> packbits_enc raw_result" where
  "packbits_enc_raw_finish = queued_raw_finish packbits_finalize"

definition packbits_enc_raw_reset :: "packbits_enc \<Rightarrow> packbits_enc" where
  "packbits_enc_raw_reset s =
     s\<lparr>pb_literal := [], pb_run := None, q_pending := [], q_head := 0, q_finished := False\<rparr>"

section \<open>Encoder contract\<close>

text \<open>The coder proper only appends to the queue and does not look at it.\<close>

lemma frame_fields [simp]:
  "pb_literal (queue_frame p h t) = pb_literal t" "pb_run (queue_frame p h t) = pb_run t"
  "(queue_frame p h t)\<lparr>pb_run := r\<rparr> = queue_frame p h (t\<lparr>pb_run := r\<rparr>)"
  by (simp_all add: queue_frame_def)

lemma frame_flush_literal [queue_frame_simps]:
  "packbits_flush_literal (queue_frame p h t) = queue_frame p h (packbits_flush_literal t)"
  by (simp add: packbits_flush_literal_def queue_frame_def)

lemma frame_flush_run [queue_frame_simps]:
  "packbits_flush_run (queue_frame p h t) = queue_frame p h (packbits_flush_run t)"
  by (simp add: packbits_flush_run_def queue_frame_def split: option.splits)

lemma frame_push_literal [queue_frame_simps]:
  "packbits_push_literal b (queue_frame p h t) = queue_frame p h (packbits_push_literal b t)"
  by (simp add: packbits_push_literal_def packbits_flush_literal_def queue_frame_def Let_def)

lemma frame_push_literals [queue_frame_simps]:
  "(packbits_push_literal b ^^ k) (queue_frame p h t)
     = queue_frame p h ((packbits_push_literal b ^^ k) t)"
  by (induction k) (simp_all add: queue_frame_simps)

lemma frame_feed [queue_frame_simps]:
  "packbits_feed (queue_frame p h t) b = queue_frame p h (packbits_feed t b)"
  by (simp add: packbits_feed_def queue_frame_simps split: option.splits)

lemma frame_finalize [queue_frame_simps]:
  "packbits_finalize (queue_frame p h t) = queue_frame p h (packbits_finalize t)"
  by (simp add: packbits_finalize_def queue_frame_simps Let_def split: option.splits)

lemma flush_literal_finished [simp]: "q_finished (packbits_flush_literal s) = q_finished s"
  by (simp add: packbits_flush_literal_def)

lemma flush_run_finished [simp]: "q_finished (packbits_flush_run s) = q_finished s"
  by (simp add: packbits_flush_run_def split: option.splits)

lemma push_literals_finished [simp]:
  "q_finished ((packbits_push_literal b ^^ k) s) = q_finished s"
  by (induction k) (simp_all add: packbits_push_literal_def Let_def)

lemma feed_finished [simp]: "q_finished (packbits_feed s b) = q_finished s"
  by (simp add: packbits_feed_def split: option.splits)

interpretation packbits_enc: queued_encoder packbits_feed packbits_finalize
  rewrites "queued_raw_encode packbits_feed = packbits_raw_encode"
    and "queued_raw_finish packbits_finalize = packbits_enc_raw_finish"
  by unfold_locales (simp_all add: queue_frame_simps packbits_raw_encode_def
      packbits_enc_raw_finish_def)

section \<open>Decoder\<close>

datatype packbits_dec =
    PbHeader
  | PbLiteral byte
  | PbNeedRunByte byte
  | PbRun byte byte

definition packbits_decoder_new :: packbits_dec where
  "packbits_decoder_new = PbHeader"

text \<open>What one control byte, read as an \<open>i8\<close>, does to the state.\<close>

definition packbits_header :: "byte \<Rightarrow> packbits_dec" where
  "packbits_header h =
     (if 0 \<le> sint h then PbLiteral (h + 1)
      else if sint h = - 128 then PbHeader
      else PbNeedRunByte (word_of_int (- sint h) + 1))"

function packbits_decode_loop ::
  "packbits_dec \<Rightarrow> byte list \<Rightarrow> nat \<Rightarrow> nat \<Rightarrow> byte list \<Rightarrow> packbits_dec raw_result" where
  "packbits_decode_loop PbHeader [] n consumed out = raw_ok PbHeader consumed out False"
| "packbits_decode_loop PbHeader (h # input) n consumed out =
     packbits_decode_loop (packbits_header h) input n (Suc consumed) out"
| "packbits_decode_loop (PbLiteral r) input n consumed out =
     (if r = 0 then packbits_decode_loop PbHeader input n consumed out
      else if input = [] \<or> n \<le> length out then raw_ok (PbLiteral r) consumed out False
      else
        let k = min (min (unat r) (length input)) (n - length out);
            r' = r - byte_of k
        in packbits_decode_loop (if r' = 0 then PbHeader else PbLiteral r')
             (drop k input) n (consumed + k) (out @ take k input))"
| "packbits_decode_loop (PbNeedRunByte count) [] n consumed out =
     raw_ok (PbNeedRunByte count) consumed out False"
| "packbits_decode_loop (PbNeedRunByte count) (b # input) n consumed out =
     packbits_decode_loop (PbRun b count) input n (Suc consumed) out"
| "packbits_decode_loop (PbRun b r) input n consumed out =
     (if r = 0 then packbits_decode_loop PbHeader input n consumed out
      else if n \<le> length out then raw_ok (PbRun b r) consumed out False
      else
        let k = min (unat r) (n - length out);
            r' = r - byte_of k
        in packbits_decode_loop (if r' = 0 then PbHeader else PbRun b r')
             input n consumed (out @ replicate k b))"
  by pat_completeness auto
termination
proof (relation "measure (\<lambda>(st, input, n, _, out).
        2 * length input + (n - length out) + (if st = PbHeader then 0 else 1))", goal_cases)
  case (4 r input n consumed out k r')
  then have "0 < k" "k \<le> length input" "\<not> n \<le> length out" by (auto simp: unat_gt_0)
  then show ?case by auto
next
  case (7 b r input n consumed out k r')
  then have "0 < k" "k \<le> n - length out" by (auto simp: unat_gt_0)
  then show ?case by auto
qed (auto simp: packbits_header_def)

definition packbits_raw_decode ::
  "packbits_dec \<Rightarrow> byte list \<Rightarrow> nat \<Rightarrow> packbits_dec raw_result" where
  "packbits_raw_decode st input outlen = packbits_decode_loop st input outlen 0 []"

definition packbits_dec_raw_finish :: "packbits_dec \<Rightarrow> nat \<Rightarrow> packbits_dec raw_result" where
  "packbits_dec_raw_finish st n =
     (let (st', out) =
        (case st of
           PbRun b r \<Rightarrow>
             let k = min (unat r) n; r' = r - byte_of k
             in ((if r' = 0 then PbHeader else PbRun b r'), replicate k b)
         | _ \<Rightarrow> (st, []))
      in case st' of
           PbHeader \<Rightarrow> raw_ok st' 0 out True
         | PbRun _ _ \<Rightarrow> raw_ok st' 0 out False
         | PbLiteral _ \<Rightarrow> (st', Inl UnexpectedEnd)
         | PbNeedRunByte _ \<Rightarrow> (st', Inl UnexpectedEnd))"

definition packbits_dec_raw_reset :: "packbits_dec \<Rightarrow> packbits_dec" where
  "packbits_dec_raw_reset st = PbHeader"

section \<open>Decoder contract\<close>

text \<open>The format, unit by unit: a control byte \<open>n\<close> as a signed number.\<close>

function packbits_units :: "byte list \<Rightarrow> outcome" where
  "packbits_units [] = ([], None)"
| "packbits_units (h # xs) =
     (let n = sint h in
      if 0 \<le> n then
        (if nat (n + 1) \<le> length xs
         then emit (take (nat (n + 1)) xs) (packbits_units (drop (nat (n + 1)) xs))
         else (xs, Some UnexpectedEnd))
      else if n = - 128 then packbits_units xs
      else (case xs of
              [] \<Rightarrow> ([], Some UnexpectedEnd)
            | b # ys \<Rightarrow> emit (replicate (nat (1 - n)) b) (packbits_units ys)))"
  by pat_completeness auto
termination by (relation "measure length") auto

declare packbits_units.simps(2) [simp del]

fun packbits_yields :: "packbits_dec \<Rightarrow> byte list \<Rightarrow> outcome" where
  "packbits_yields PbHeader xs = packbits_units xs"
| "packbits_yields (PbLiteral r) xs =
     (if unat r \<le> length xs then emit (take (unat r) xs) (packbits_units (drop (unat r) xs))
      else (xs, Some UnexpectedEnd))"
| "packbits_yields (PbNeedRunByte c) [] = ([], Some UnexpectedEnd)"
| "packbits_yields (PbNeedRunByte c) (b # xs) = emit (replicate (unat c) b) (packbits_units xs)"
| "packbits_yields (PbRun b r) xs = emit (replicate (unat r) b) (packbits_units xs)"

fun packbits_valid :: "packbits_dec \<Rightarrow> bool" where
  "packbits_valid (PbLiteral r) = (r \<noteq> 0)"
| "packbits_valid _ = True"

lemma packbits_header_literal:
  assumes "unat h < 128"
  shows "packbits_header h = PbLiteral (h + 1)" "unat (h + 1) = Suc (unat h)"
    "nat (sint h + 1) = Suc (unat h)"
  using assms by (simp_all add: packbits_header_def sint_byte unat_word_ariths nat_add_distrib
      del: of_nat_unat)

lemma packbits_header_run:
  assumes "128 < unat h"
  shows "packbits_header h = PbNeedRunByte (word_of_int (- sint h) + 1)"
    and "unat (word_of_int (- sint h) + 1 :: byte) = 257 - unat h" "nat (1 - sint h) = 257 - unat h"
proof -
  have u: "unat h < 256" by simp
  with assms have s: "- sint h = int (256 - unat h)"
    by (simp add: sint_byte of_nat_diff less_imp_le del: of_nat_unat unat_byte_less)
  then show "nat (1 - sint h) = 257 - unat h" using u by linarith
  have "word_of_int (- sint h) = byte_of (256 - unat h)" unfolding s by simp
  moreover have inc: "unat (byte_of k + 1) = Suc k" if "k < 255" for k
    using that by (simp add: unat_word_ariths)
  have "unat (byte_of (256 - unat h) + 1) = Suc (256 - unat h)" by (rule inc) (use assms in linarith)
  ultimately have "unat (word_of_int (- sint h) + 1 :: byte) = Suc (256 - unat h)"
    by (simp only:)
  then show "unat (word_of_int (- sint h) + 1 :: byte) = 257 - unat h"
    using u by linarith
  show "packbits_header h = PbNeedRunByte (word_of_int (- sint h) + 1)"
    using assms u by (simp add: packbits_header_def sint_byte del: of_nat_unat unat_byte_less)
qed

lemma packbits_header_spec:
  "packbits_units (h # xs) = packbits_yields (packbits_header h) xs"
  "packbits_valid (packbits_header h)"
proof -
  consider "unat h < 128" | "unat h = 128" | "128 < unat h" by linarith
  then have "packbits_units (h # xs) = packbits_yields (packbits_header h) xs
      \<and> packbits_valid (packbits_header h)"
  proof cases
    case 1
    note h = packbits_header_literal [OF 1]
    have "h + 1 \<noteq> 0" using h(2) by (auto simp: byte_eq_0_unat)
    moreover have "0 \<le> sint h" using 1 by (simp add: sint_byte)
    ultimately show ?thesis using h by (simp add: packbits_units.simps(2) [of h xs] Let_def)
  next
    case 2
    then have "sint h = - 128" by (simp add: sint_byte del: of_nat_unat)
    then show ?thesis
      by (simp add: packbits_header_def packbits_units.simps(2) [of h xs])
  next
    case 3
    note h = packbits_header_run [OF 3]
    moreover have "\<not> 0 \<le> sint h" "sint h \<noteq> - 128"
      using 3 unat_byte_less [of h] by (simp_all add: sint_byte del: of_nat_unat unat_byte_less)
    ultimately show ?thesis
      by (cases xs) (simp_all add: packbits_units.simps(2) [of h] Let_def)
  qed
  then show "packbits_units (h # xs) = packbits_yields (packbits_header h) xs"
    and "packbits_valid (packbits_header h)" by simp_all
qed

lemma packbits_yields_run:
  "k \<le> unat r \<Longrightarrow> packbits_yields (PbRun b r) xs
     = emit (replicate k b) (packbits_yields (PbRun b (r - byte_of k)) xs)"
  by (simp add: buf_simps replicate_add [symmetric])

lemma packbits_yields_literal_split:
  assumes "k \<le> unat r" and "k \<le> length zs"
  shows "packbits_yields (PbLiteral r) zs
     = emit (take k zs) (packbits_yields (PbLiteral (r - byte_of k)) (drop k zs))"
proof -
  have "take (unat r) zs = take k zs @ take (unat r - k) (drop k zs)"
    using take_add [of k "unat r - k" zs] assms(1) by simp
  moreover have "drop (unat r) zs = drop (unat r - k) (drop k zs)" using assms(1) by simp
  ultimately show ?thesis using assms by (auto simp: buf_simps simp del: drop_drop)
qed

lemma packbits_yields_literal:
  assumes "k \<le> unat r" and "k \<le> length xs"
  shows "packbits_yields (PbLiteral r) (xs @ ys)
     = emit (take k xs) (packbits_yields (PbLiteral (r - byte_of k)) (drop k xs @ ys))"
  using packbits_yields_literal_split [OF assms(1), of "xs @ ys"] assms(2) by simp

lemma packbits_yields_zero:
  "packbits_yields (PbRun b 0) xs = packbits_units xs"
  "packbits_yields (PbLiteral 0) xs = packbits_units xs"
  by simp_all

lemma packbits_decode_loop_acc:
  "packbits_valid st \<Longrightarrow> length out \<le> n \<Longrightarrow>
   decode_acc packbits_valid packbits_yields st input ys n c out
     (packbits_decode_loop st input n c out)"
proof (induction st input n c out rule: packbits_decode_loop.induct)
  case (2 h input n c out)
  then have "decode_acc packbits_valid packbits_yields (packbits_header h) input ys n (Suc c) out
      (packbits_decode_loop PbHeader (h # input) n c out)" by (simp add: packbits_header_spec)
  then show ?case by (rule decode_acc_read) (simp add: packbits_header_spec)
next
  case (3 r input n c out)
  show ?case
  proof (cases "input = [] \<or> n \<le> length out")
    case True
    with 3 show ?thesis by (auto intro: decode_acc_stop)
  next
    case False
    define k where "k = min (min (unat r) (length input)) (n - length out)"
    define st' where "st' = (if r - byte_of k = 0 then PbHeader else PbLiteral (r - byte_of k))"
    have r: "r \<noteq> 0" using 3 by simp
    have k: "k \<le> unat r" "k \<le> length input" "length (out @ take k input) \<le> n"
      using 3(4) by (auto simp: k_def)
    have "packbits_valid st'" by (simp add: st'_def)
    from 3(2) [OF r False k_def refl, folded st'_def, OF this k(3)]
    have "decode_acc packbits_valid packbits_yields st' (drop k input) ys n (c + k)
        (out @ take k input) (packbits_decode_loop (PbLiteral r) input n c out)"
      using r False by (simp add: k_def [symmetric] st'_def Let_def)
    moreover have "packbits_yields st' (drop k input @ ys)
        = packbits_yields (PbLiteral (r - byte_of k)) (drop k input @ ys)"
      by (simp add: st'_def packbits_yields_zero del: packbits_yields.simps(2))
    ultimately show ?thesis
      by - (rule decode_acc_step, assumption, rule k,
          simp only: packbits_yields_literal [OF k(1,2)])
  qed
next
  case (5 count b input n c out)
  then show ?case by (auto intro: decode_acc_read)
next
  case (6 b r input n c out)
  consider "r = 0" | "r \<noteq> 0" "n \<le> length out" | "r \<noteq> 0" "\<not> n \<le> length out" by blast
  then show ?case
  proof cases
    case 1
    with 6 have "decode_acc packbits_valid packbits_yields PbHeader input ys n c out
        (packbits_decode_loop (PbRun b r) input n c out)" by simp
    then show ?thesis by (rule decode_acc_silent) (simp add: 1)
  next
    case 2
    with 6 show ?thesis by (auto intro: decode_acc_stop)
  next
    case 3
    define k where "k = min (unat r) (n - length out)"
    define st' where "st' = (if r - byte_of k = 0 then PbHeader else PbRun b (r - byte_of k))"
    have k: "k \<le> unat r" "length (out @ replicate k b) \<le> n" using 6(4) by (auto simp: k_def)
    have "packbits_valid st'" by (simp add: st'_def)
    from 6(2) [OF 3 k_def refl, folded st'_def, OF this k(2)]
    have "decode_acc packbits_valid packbits_yields st' input ys n c
        (out @ replicate k b) (packbits_decode_loop (PbRun b r) input n c out)"
      using 3 by (simp add: k_def [symmetric] st'_def Let_def)
    moreover have "packbits_yields st' (input @ ys)
        = packbits_yields (PbRun b (r - byte_of k)) (input @ ys)"
      by (simp add: st'_def packbits_yields_zero del: packbits_yields.simps(5))
    ultimately show ?thesis
      by - (rule decode_acc_write, assumption, simp only: packbits_yields_run [OF k(1)])
  qed
qed (auto intro: decode_acc_stop)

interpretation packbits_dec: decoder_contract packbits_raw_decode packbits_dec_raw_finish
  packbits_valid packbits_valid packbits_yields
proof (unfold_locales, goal_cases)
  case (1 s xs ys n)
  show ?case
    unfolding packbits_raw_decode_def
    by (rule decode_acc_law) (rule packbits_decode_loop_acc, use 1 in simp_all)
next
  case (3 s n)
  show ?case
  proof (cases s)
    case PbHeader
    then show ?thesis by (auto simp: packbits_dec_raw_finish_def intro!: drain_lawI)
  next
    case (PbLiteral r)
    with 3 have "unat r \<noteq> 0" by (simp add: byte_eq_0_unat)
    then show ?thesis
      by (auto simp: PbLiteral packbits_dec_raw_finish_def intro!: drain_law_error)
  next
    case (PbNeedRunByte c)
    then show ?thesis by (auto simp: packbits_dec_raw_finish_def intro!: drain_law_error)
  next
    case (PbRun b r)
    define k where "k = min (unat r) n"
    define st' where "st' = (if r - byte_of k = 0 then PbHeader else PbRun b (r - byte_of k))"
    have k: "k \<le> unat r" "k \<le> n" by (auto simp: k_def)
    have over: "r - byte_of k \<noteq> 0 \<Longrightarrow> k = n"
      using k unfolding byte_eq_0_unat by (auto simp: buf_simps k_def)
    have st': "packbits_yields st' zs = packbits_yields (PbRun b (r - byte_of k)) zs" for zs
      by (simp add: st'_def packbits_yields_zero del: packbits_yields.simps(5))
    have "packbits_dec_raw_finish s n = raw_ok st' 0 (replicate k b) (r - byte_of k = 0)"
      by (simp add: PbRun packbits_dec_raw_finish_def k_def [symmetric] st'_def Let_def)
    moreover have "drain_law packbits_valid packbits_yields s n
        (raw_ok st' 0 (replicate k b) (r - byte_of k = 0))"
    proof (rule drain_lawI)
      show "packbits_yields s [] = emit (replicate k b) (packbits_yields st' [])"
        unfolding PbRun st' by (rule packbits_yields_run [OF k(1)])
    qed (use k over in \<open>auto simp: st'_def\<close>)
    ultimately show ?thesis by simp
  qed
qed simp

section \<open>Round trip\<close>

text \<open>\<open>packbits_codes p d\<close>: the bytes \<open>p\<close> are whole units that decode to \<open>d\<close>.\<close>

definition packbits_codes :: "byte list \<Rightarrow> byte list \<Rightarrow> bool" where
  "packbits_codes p d \<longleftrightarrow> (\<forall>rest. packbits_units (p @ rest) = emit d (packbits_units rest))"

lemma packbits_codes_nil [simp]: "packbits_codes [] []"
  by (simp add: packbits_codes_def)

lemma packbits_codes_append:
  "packbits_codes p d \<Longrightarrow> packbits_codes q e \<Longrightarrow> packbits_codes (p @ q) (d @ e)"
  by (simp add: packbits_codes_def)

lemma packbits_codes_literal:
  assumes "lit \<noteq> []" and "length lit \<le> 128"
  shows "packbits_codes (byte_of (length lit - 1) # lit) lit"
proof -
  define h where "h = byte_of (length lit - 1)"
  have "length lit - 1 < 256" using assms(2) by linarith
  then have u: "unat h = length lit - 1" unfolding h_def by (rule unat_byte_of)
  then have "unat h < 128" using assms by (cases lit) auto
  note h = packbits_header_literal [OF this]
  have "unat (h + 1) = length lit" using h(2) u assms(1) by (cases lit) simp_all
  then show ?thesis unfolding packbits_codes_def h_def [symmetric]
    by (simp add: packbits_header_spec h(1))
qed

lemma packbits_codes_run:
  assumes "2 \<le> c" and "c \<le> 128"
  shows "packbits_codes [word_of_int (- (int c - 1)), b] (replicate c b)"
proof -
  define h where "h = (word_of_int (- (int c - 1)) :: byte)"
  have "uint (word_of_int k :: byte) = k mod 256" for k by (simp add: uint_word_of_int)
  then have "uint h = (- (int c - 1)) mod 256" unfolding h_def .
  also have "\<dots> = (- (int c - 1) + 256) mod 256" by (simp only: mod_add_self2)
  also have "\<dots> = int (257 - c)" using assms by (subst mod_pos_pos_trivial) auto
  finally have u: "unat h = 257 - c" by (simp add: unat_eq_nat_uint)
  then have "128 < unat h" using assms by linarith
  note h = packbits_header_run [OF this]
  have "unat (word_of_int (- sint h) + 1 :: byte) = c" unfolding h(2) using u assms by linarith
  then show ?thesis unfolding packbits_codes_def h_def [symmetric]
    by (simp add: packbits_header_spec h(1))
qed

text \<open>Bytes taken in and not yet coded, and the step of the coder on them.\<close>

definition packbits_held :: "packbits_enc \<Rightarrow> byte list" where
  "packbits_held s =
     pb_literal s @ (case pb_run s of None \<Rightarrow> [] | Some (b, c) \<Rightarrow> replicate c b)"

definition packbits_step :: "byte list \<Rightarrow> packbits_enc \<Rightarrow> packbits_enc \<Rightarrow> bool" where
  "packbits_step d s t \<longleftrightarrow>
     (\<exists>p e. q_pending t = q_pending s @ p \<and> packbits_codes p e
        \<and> packbits_held s @ d = e @ packbits_held t)"

definition packbits_wf :: "packbits_enc \<Rightarrow> bool" where
  "packbits_wf s \<longleftrightarrow> length (pb_literal s) < 128
     \<and> (case pb_run s of None \<Rightarrow> True | Some (b, c) \<Rightarrow> 1 \<le> c \<and> c \<le> 128)"

lemma packbits_step_trans:
  assumes "packbits_step d s t" and "packbits_step e t u"
  shows "packbits_step (d @ e) s u"
proof -
  from assms obtain p d1 q e1 where
    "q_pending t = q_pending s @ p" "packbits_codes p d1" "packbits_held s @ d = d1 @ packbits_held t"
    "q_pending u = q_pending t @ q" "packbits_codes q e1" "packbits_held t @ e = e1 @ packbits_held u"
    unfolding packbits_step_def by blast
  then show ?thesis unfolding packbits_step_def
    by (intro exI [of _ "p @ q"] exI [of _ "d1 @ e1"])
      (simp add: packbits_codes_append, metis append_assoc)
qed

lemma packbits_step_quiet:
  "q_pending t = q_pending s \<Longrightarrow> packbits_held s @ d = packbits_held t \<Longrightarrow> packbits_step d s t"
  unfolding packbits_step_def by (intro exI [of _ "[]"]) simp

lemma packbits_step_flush_literal:
  "length (pb_literal s) \<le> 128 \<Longrightarrow> packbits_step [] s (packbits_flush_literal s)"
  unfolding packbits_step_def packbits_flush_literal_def packbits_held_def
  by (auto simp: packbits_codes_literal intro!: exI [of _ "[]"])
     (metis append_Cons append_Nil packbits_codes_literal One_nat_def)

lemma packbits_flush_literal_fields [simp]:
  "pb_literal (packbits_flush_literal s) = []" "pb_run (packbits_flush_literal s) = pb_run s"
  by (simp_all add: packbits_flush_literal_def)

lemma packbits_step_flush_run:
  "pb_literal s = [] \<Longrightarrow> pb_run s = Some (b, c) \<Longrightarrow> 2 \<le> c \<Longrightarrow> c \<le> 128 \<Longrightarrow>
   packbits_step [] s (packbits_flush_run s)"
  unfolding packbits_step_def packbits_flush_run_def packbits_held_def
  by (auto intro!: packbits_codes_run [simplified])

lemma packbits_flush_run_fields [simp]:
  "pb_literal (packbits_flush_run s) = pb_literal s" "pb_run (packbits_flush_run s) = None"
  by (simp_all add: packbits_flush_run_def split: option.splits)

lemma packbits_step_push_literals:
  assumes "pb_run s = None" and "length (pb_literal s) < 128"
  shows "packbits_step (replicate k b) s ((packbits_push_literal b ^^ k) s)
    \<and> pb_run ((packbits_push_literal b ^^ k) s) = None
    \<and> length (pb_literal ((packbits_push_literal b ^^ k) s)) < 128"
proof (induction k)
  case 0
  with assms show ?case by (auto intro: packbits_step_quiet)
next
  case (Suc k)
  let ?s = "(packbits_push_literal b ^^ k) s"
  let ?s1 = "?s\<lparr>pb_literal := pb_literal ?s @ [b]\<rparr>"
  have "packbits_step [b] ?s ?s1"
    using Suc by (intro packbits_step_quiet) (simp_all add: packbits_held_def)
  moreover have "packbits_step [] ?s1 (packbits_flush_literal ?s1)"
    by (rule packbits_step_flush_literal) (use Suc in simp)
  ultimately have "packbits_step [b] ?s (packbits_push_literal b ?s)"
    using packbits_step_trans [of "[b]" ?s ?s1 "[]"]
    by (simp add: packbits_push_literal_def Let_def)
  with Suc have "packbits_step (replicate k b @ [b]) s (packbits_push_literal b ?s)"
    using packbits_step_trans by blast
  moreover have "pb_run (packbits_push_literal b u) = None
      \<and> length (pb_literal (packbits_push_literal b u)) < 128"
    if "pb_run u = None \<and> length (pb_literal u) < 128" for u
    using that by (simp add: packbits_push_literal_def Let_def MAX_LITERAL_def)
  ultimately show ?case using Suc by (simp add: replicate_append_same)
qed

lemma packbits_step_flush_both:
  assumes "packbits_wf s" and "pb_run s = Some (v, c)" and "3 \<le> c"
  shows "packbits_step [] s (packbits_flush_run (packbits_flush_literal s))"
proof -
  have "packbits_step [] s (packbits_flush_literal s)"
    by (rule packbits_step_flush_literal) (use assms(1) in \<open>simp add: packbits_wf_def\<close>)
  moreover have "packbits_step [] (packbits_flush_literal s)
      (packbits_flush_run (packbits_flush_literal s))"
    by (rule packbits_step_flush_run) (use assms in \<open>auto simp: packbits_wf_def\<close>)
  ultimately show ?thesis using packbits_step_trans [of "[]" s _ "[]"] by simp
qed

lemma packbits_step_track:
  "packbits_step d s t \<Longrightarrow> pb_run t = None \<Longrightarrow> packbits_step (d @ [b]) s (t\<lparr>pb_run := Some (b, 1)\<rparr>)"
  by (erule packbits_step_trans) (auto simp: packbits_held_def intro: packbits_step_quiet)

lemma packbits_demote:
  assumes "packbits_wf s" and "pb_run s = Some (v, c)"
  defines "t \<equiv> (packbits_push_literal v ^^ c) (s\<lparr>pb_run := None\<rparr>)"
  shows "packbits_step [] s t" "pb_run t = None" "length (pb_literal t) < 128"
proof -
  let ?s = "s\<lparr>pb_run := None\<rparr>"
  have lit: "length (pb_literal ?s) < 128" using assms(1) by (simp add: packbits_wf_def)
  note push = packbits_step_push_literals [of ?s c v, OF _ lit, folded t_def]
  then show "pb_run t = None" "length (pb_literal t) < 128" by simp_all
  from push have "packbits_step (replicate c v) ?s t" by simp
  then show "packbits_step [] s t"
    using assms(2) by (simp add: packbits_step_def packbits_held_def)
qed

lemma packbits_step_feed:
  assumes "packbits_wf s"
  shows "packbits_step [b] s (packbits_feed s b) \<and> packbits_wf (packbits_feed s b)"
proof (cases "pb_run s")
  case None
  then show ?thesis using assms
    by (auto simp: packbits_feed_def packbits_held_def packbits_wf_def intro: packbits_step_quiet)
next
  case (Some r)
  obtain v c where r: "pb_run s = Some (v, c)" using Some by (cases r) auto
  consider (extend) "v = b" "c < 128" | (flush) "v = b" "\<not> c < 128" | (ends) "v \<noteq> b" "3 \<le> c"
    | (short) "v \<noteq> b" "\<not> 3 \<le> c" by blast
  then show ?thesis
  proof cases
    case extend
    then show ?thesis using assms r
      by (auto simp: packbits_feed_def packbits_held_def packbits_wf_def MAX_RUN_def
          replicate_append_same intro!: packbits_step_quiet)
  next
    case flush
    with assms r packbits_step_track [OF packbits_step_flush_both [OF assms r], of b]
    show ?thesis by (auto simp: packbits_feed_def packbits_wf_def MAX_RUN_def)
  next
    case ends
    with assms r packbits_step_track [OF packbits_step_flush_both [OF assms r], of b]
    show ?thesis by (auto simp: packbits_feed_def packbits_wf_def MIN_RUN_def)
  next
    case short
    note d = packbits_demote [OF assms r]
    from short r d packbits_step_track [OF d(1,2), of b]
    show ?thesis by (auto simp: packbits_feed_def packbits_wf_def MIN_RUN_def)
  qed
qed

lemma packbits_step_finalize:
  assumes "packbits_wf s"
  shows "packbits_step [] s (packbits_finalize s) \<and> packbits_held (packbits_finalize s) = []"
proof (cases "pb_run s")
  case None
  with packbits_step_flush_literal [of s] assms show ?thesis
    by (auto simp: packbits_finalize_def packbits_wf_def packbits_held_def)
next
  case (Some r)
  obtain v c where r: "pb_run s = Some (v, c)" using Some by (cases r) auto
  show ?thesis
  proof (cases "3 \<le> c")
    case True
    have "(packbits_flush_literal (s\<lparr>pb_run := None\<rparr>))\<lparr>pb_run := Some (v, c)\<rparr>
        = packbits_flush_literal s"
      using r by (cases s) (simp add: packbits_flush_literal_def)
    with True r packbits_step_flush_both [OF assms r] show ?thesis
      by (simp add: packbits_finalize_def MIN_RUN_def Let_def packbits_held_def)
  next
    case False
    note d = packbits_demote [OF assms r]
    have "packbits_step [] s (packbits_flush_literal ((packbits_push_literal v ^^ c) (s\<lparr>pb_run := None\<rparr>)))"
      using packbits_step_trans [OF d(1) packbits_step_flush_literal] d(3) by simp
    with False r d show ?thesis
      by (simp add: packbits_finalize_def MIN_RUN_def Let_def packbits_held_def)
  qed
qed

lemma packbits_units_rest:
  "packbits_wf t \<Longrightarrow> q_pending t = [] \<Longrightarrow>
   packbits_units (queued_rest packbits_feed packbits_finalize t xs) = (packbits_held t @ xs, None)"
proof (induction xs arbitrary: t)
  case Nil
  from packbits_step_finalize [OF Nil(1)] Nil(2) show ?case
    by (auto simp: packbits_step_def packbits_codes_def dest: spec [of _ "[]"])
next
  case (Cons b xs)
  let ?t = "queue_blank (packbits_feed t b)"
  have "packbits_wf ?t \<and> packbits_held ?t = packbits_held (packbits_feed t b)"
    using packbits_step_feed [OF Cons.prems(1), of b]
    by (simp add: packbits_wf_def packbits_held_def queue_blank_def)
  with Cons.IH [of ?t] packbits_step_feed [OF Cons.prems(1), of b] Cons.prems(2) show ?case
    by (auto simp: packbits_step_def packbits_codes_def)
qed

interpretation packbits: codec packbits_raw_encode packbits_enc_raw_finish
  "\<lambda>s _. queued_ready s" queued_closing "queued_owed packbits_feed packbits_finalize"
  packbits_raw_decode packbits_dec_raw_finish packbits_valid packbits_valid packbits_yields
  packbits_encoder_new packbits_decoder_new "\<lambda>_. True"
proof (unfold_locales, goal_cases)
  case (3 xs)
  have "packbits_units (queued_rest packbits_feed packbits_finalize packbits_encoder_new xs) = (xs, None)"
    by (simp add: packbits_units_rest packbits_wf_def packbits_held_def packbits_encoder_new_def)
  moreover have "queue_blank packbits_encoder_new = packbits_encoder_new"
    by (simp add: packbits_encoder_new_def queue_blank_def)
  ultimately show ?case
    by (simp add: packbits_decoder_new_def queued_owed_def queue_bytes_def)
      (simp add: packbits_encoder_new_def)
qed (simp_all add: packbits_encoder_new_def packbits_decoder_new_def queued_ready_def)

section \<open>Properties\<close>

text \<open>C32. One-shot PackBits round trip: compression of any bytes returns, and decompressing its
  result returns the input.\<close>

theorem packbits_vec_roundtrip:
  "\<exists>ys. compress_to_vec packbits_raw_encode packbits_enc_raw_finish packbits_encoder_new xs
        = Some (Inr ys)
     \<and> decompress_to_vec packbits_raw_decode packbits_dec_raw_finish packbits_decoder_new ys
        = Some (Inr xs)"
  using packbits.vec_roundtrip [of xs] by blast

text \<open>The PackBits decompressor implements the format on every input: it returns the
  concatenation of the units (literal copies of \<open>n + 1\<close> bytes, runs of \<open>1 - n\<close> bytes, nothing for
  \<open>n = -128\<close>), and the only error is \<open>UnexpectedEnd\<close>, for a stream that stops inside a unit.\<close>

theorem packbits_decompress_total:
  "decompress_to_vec packbits_raw_decode packbits_dec_raw_finish packbits_decoder_new ys
     = Some (outcome_result (packbits_units ys))"
  using packbits_dec.vec_decompress [of PbHeader ys] by (simp add: packbits_decoder_new_def)

end
