(* ===== verification/Rle90.thy ===== *)
theory Rle90
  imports Queued
begin

text \<open>
  RLE90 (\<open>src/rle90.rs\<close>), the marker-byte run-length code of ARC and StuffIt: its encoder over
  the output queue of \<open>Queued\<close>, its resumable decoder with the remembered literal and the
  poison flag, and the round trip.  The guards \<open>written == output.len()\<close> are written
  \<open>n \<le> length out\<close>, as in \<open>Packbits\<close>.
\<close>

definition RLE90_FLAG :: byte where "RLE90_FLAG = 0x90"
definition RLE90_MIN_RUN :: nat where "RLE90_MIN_RUN = 3"
definition RLE90_MAX_RUN :: nat where "RLE90_MAX_RUN = 255"

section \<open>Encoder\<close>

record rle90_enc = queue_state +
  r9_run :: "(byte \<times> nat) option"

definition rle90_encoder_new :: rle90_enc where
  "rle90_encoder_new = \<lparr>q_pending = [], q_head = 0, q_finished = False, r9_run = None\<rparr>"

definition rle90_literal :: "byte \<Rightarrow> byte list" where
  "rle90_literal b = (if b = RLE90_FLAG then [b, 0] else [b])"

definition rle90_emit_literal :: "byte \<Rightarrow> rle90_enc \<Rightarrow> rle90_enc" where
  "rle90_emit_literal b s = s\<lparr>q_pending := q_pending s @ rle90_literal b\<rparr>"

text \<open>The \<open>while count - emitted >= 1\<close> loop: what it pushes.\<close>

function rle90_chunks :: "nat \<Rightarrow> nat \<Rightarrow> byte list" where
  "rle90_chunks count emitted =
     (if 1 \<le> count - emitted then
        let chunk = min (count - emitted + 1) RLE90_MAX_RUN in
        RLE90_FLAG # byte_of chunk # rle90_chunks count (emitted + (chunk - 1))
      else [])"
  by pat_completeness auto
termination
  by (relation "measure (\<lambda>(count, emitted). count - emitted)") (auto simp: RLE90_MAX_RUN_def)

declare rle90_chunks.simps [simp del]

definition rle90_flush_run :: "rle90_enc \<Rightarrow> rle90_enc" where
  "rle90_flush_run s =
     (case r9_run s of
        None \<Rightarrow> s
      | Some (b, count) \<Rightarrow>
          let s1 = s\<lparr>r9_run := None\<rparr> in
          if b = RLE90_FLAG \<or> count < RLE90_MIN_RUN then (rle90_emit_literal b ^^ count) s1
          else s1\<lparr>q_pending := q_pending s1 @ [b] @ rle90_chunks count 1\<rparr>)"

definition rle90_feed :: "rle90_enc \<Rightarrow> byte \<Rightarrow> rle90_enc" where
  "rle90_feed s b =
     (case r9_run s of
        Some (v, count) \<Rightarrow>
          if v = b \<and> count < RLE90_MAX_RUN then s\<lparr>r9_run := Some (v, count + 1)\<rparr>
          else (rle90_flush_run s)\<lparr>r9_run := Some (b, 1)\<rparr>
      | None \<Rightarrow> s\<lparr>r9_run := Some (b, 1)\<rparr>)"

definition rle90_finalize :: "rle90_enc \<Rightarrow> rle90_enc" where
  "rle90_finalize s = rle90_flush_run s"

definition rle90_raw_encode :: "rle90_enc \<Rightarrow> byte list \<Rightarrow> nat \<Rightarrow> rle90_enc raw_result" where
  "rle90_raw_encode = queued_raw_encode rle90_feed"

definition rle90_enc_raw_finish :: "rle90_enc \<Rightarrow> nat \<Rightarrow> rle90_enc raw_result" where
  "rle90_enc_raw_finish = queued_raw_finish rle90_finalize"

definition rle90_enc_raw_reset :: "rle90_enc \<Rightarrow> rle90_enc" where
  "rle90_enc_raw_reset s =
     s\<lparr>r9_run := None, q_pending := [], q_head := 0, q_finished := False\<rparr>"

section \<open>Decoder\<close>

datatype rle90_state =
    R9Normal
  | R9AwaitCount
  | R9Run byte byte

record rle90_dec =
  r9_state :: rle90_state
  r9_last :: byte
  r9_have_last :: bool
  r9_poisoned :: bool

definition rle90_decoder_new :: rle90_dec where
  "rle90_decoder_new =
     \<lparr>r9_state = R9Normal, r9_last = 0, r9_have_last = False, r9_poisoned = False\<rparr>"

abbreviation rle90_live :: "rle90_state \<Rightarrow> byte \<Rightarrow> bool \<Rightarrow> rle90_dec" where
  "rle90_live st l hv \<equiv>
     \<lparr>r9_state = st, r9_last = l, r9_have_last = hv, r9_poisoned = False\<rparr>"

text \<open>The length of the leading span without a marker, \<open>src.iter().position(..)\<close> or all of it.\<close>

definition rle90_span :: "byte list \<Rightarrow> nat" where
  "rle90_span src = length (takeWhile (\<lambda>x. x \<noteq> RLE90_FLAG) src)"

function rle90_decode_loop ::
  "rle90_state \<Rightarrow> byte \<Rightarrow> bool \<Rightarrow> byte list \<Rightarrow> nat \<Rightarrow> nat \<Rightarrow> byte list \<Rightarrow> rle90_dec raw_result" where
  "rle90_decode_loop R9Normal l hv [] n consumed out =
     raw_ok (rle90_live R9Normal l hv) consumed out False"
| "rle90_decode_loop R9Normal l hv (b # input) n consumed out =
     (if b = RLE90_FLAG then rle90_decode_loop R9AwaitCount l hv input n (Suc consumed) out
      else if n \<le> length out then raw_ok (rle90_live R9Normal l hv) consumed out False
      else
        let limit = min (length (b # input)) (n - length out);
            src = take limit (b # input);
            span = rle90_span src
        in rle90_decode_loop R9Normal (src ! (span - 1)) True (drop span (b # input)) n
             (consumed + span) (out @ take span src))"
| "rle90_decode_loop R9AwaitCount l hv [] n consumed out =
     raw_ok (rle90_live R9AwaitCount l hv) consumed out False"
| "rle90_decode_loop R9AwaitCount l hv (c # input) n consumed out =
     (if c = 0 then
        (if n \<le> length out then
           raw_ok (rle90_live (R9Run RLE90_FLAG 1) RLE90_FLAG True) (Suc consumed) out False
         else rle90_decode_loop R9Normal RLE90_FLAG True input n (Suc consumed)
                (out @ [RLE90_FLAG]))
      else if \<not> hv then
        ((rle90_live R9AwaitCount l hv)\<lparr>r9_poisoned := True\<rparr>, Inl Corrupt)
      else rle90_decode_loop (R9Run l (c - 1)) l hv input n (Suc consumed) out)"
| "rle90_decode_loop (R9Run b r) l hv input n consumed out =
     (if r = 0 then rle90_decode_loop R9Normal l hv input n consumed out
      else if n \<le> length out then raw_ok (rle90_live (R9Run b r) l hv) consumed out False
      else
        let k = min (unat r) (n - length out);
            r' = r - byte_of k
        in rle90_decode_loop (if r' = 0 then R9Normal else R9Run b r') l hv
             input n consumed (out @ replicate k b))"
  by pat_completeness auto
termination
proof (relation "measure (\<lambda>(st, _, _, input, n, _, out).
        2 * length input + (n - length out) + (case st of R9Run _ _ \<Rightarrow> 1 | _ \<Rightarrow> 0))", goal_cases)
  case (3 l hv b input n consumed out limit src span)
  then have "0 < span" by (auto simp: rle90_span_def takeWhile_eq_Nil_iff min_def split: if_splits)
  then show ?case by auto
next
  case (7 b r l hv input n consumed out k r')
  then have "0 < k" "k \<le> n - length out" "\<not> n \<le> length out" by (auto simp: unat_gt_0)
  then show ?case by auto
qed auto

definition rle90_raw_decode :: "rle90_dec \<Rightarrow> byte list \<Rightarrow> nat \<Rightarrow> rle90_dec raw_result" where
  "rle90_raw_decode d input outlen =
     (if r9_poisoned d then (d, Inl Corrupt)
      else rle90_decode_loop (r9_state d) (r9_last d) (r9_have_last d) input outlen 0 [])"

definition rle90_dec_raw_finish :: "rle90_dec \<Rightarrow> nat \<Rightarrow> rle90_dec raw_result" where
  "rle90_dec_raw_finish d n =
     (if r9_poisoned d then (d, Inl Corrupt)
      else
        let (d', out) =
          (case r9_state d of
             R9Run b r \<Rightarrow>
               let k = min (unat r) n; r' = r - byte_of k
               in (d\<lparr>r9_state := (if r' = 0 then R9Normal else R9Run b r')\<rparr>, replicate k b)
           | _ \<Rightarrow> (d, []))
        in case r9_state d' of
             R9Normal \<Rightarrow> raw_ok d' 0 out True
           | R9Run _ _ \<Rightarrow> raw_ok d' 0 out False
           | R9AwaitCount \<Rightarrow> (d'\<lparr>r9_poisoned := True\<rparr>, Inl UnexpectedEnd))"

definition rle90_dec_raw_reset :: "rle90_dec \<Rightarrow> rle90_dec" where
  "rle90_dec_raw_reset d = rle90_decoder_new"

section \<open>Encoder contract\<close>

lemma rle90_emit_literals:
  "(rle90_emit_literal b ^^ k) s
     = s\<lparr>q_pending := q_pending s @ concat (replicate k (rle90_literal b))\<rparr>"
proof (induction k arbitrary: s)
  case (Suc k)
  have "(rle90_emit_literal b ^^ Suc k) s = (rle90_emit_literal b ^^ k) (rle90_emit_literal b s)"
    by (simp only: funpow_Suc_right o_apply)
  also have "\<dots> = s\<lparr>q_pending := q_pending s @ concat (replicate (Suc k) (rle90_literal b))\<rparr>"
    unfolding Suc.IH by (simp add: rle90_emit_literal_def)
  finally show ?case .
qed simp

text \<open>What flushing a run pushes.\<close>

definition rle90_run_code :: "byte \<Rightarrow> nat \<Rightarrow> byte list" where
  "rle90_run_code b count =
     (if b = RLE90_FLAG \<or> count < RLE90_MIN_RUN then concat (replicate count (rle90_literal b))
      else b # rle90_chunks count 1)"

lemma rle90_flush_run_code:
  "rle90_flush_run s =
     (case r9_run s of None \<Rightarrow> s
      | Some (b, c) \<Rightarrow> s\<lparr>r9_run := None, q_pending := q_pending s @ rle90_run_code b c\<rparr>)"
  by (simp add: rle90_flush_run_def rle90_run_code_def rle90_emit_literals split: option.split)

lemma rle90_frame [queue_frame_simps]:
  "rle90_flush_run (queue_frame p h t) = queue_frame p h (rle90_flush_run t)"
  "rle90_feed (queue_frame p h t) b = queue_frame p h (rle90_feed t b)"
  by (simp_all add: rle90_feed_def rle90_flush_run_code queue_frame_def split: option.splits)

lemma rle90_finished [simp]:
  "q_finished (rle90_flush_run t) = q_finished t" "q_finished (rle90_feed t b) = q_finished t"
  by (simp_all add: rle90_feed_def rle90_flush_run_code split: option.splits)

interpretation rle90_enc: queued_encoder rle90_feed rle90_finalize
  rewrites "queued_raw_encode rle90_feed = rle90_raw_encode"
    and "queued_raw_finish rle90_finalize = rle90_enc_raw_finish"
  by unfold_locales (simp_all add: queue_frame_simps rle90_finalize_def rle90_raw_encode_def
      rle90_enc_raw_finish_def)

section \<open>Decoder contract\<close>

text \<open>The format: literals, escaped markers, and counts that extend the last byte emitted.\<close>

fun rle90_units :: "byte option \<Rightarrow> byte list \<Rightarrow> outcome" where
  "rle90_units l [] = ([], None)"
| "rle90_units l [b] = (if b = RLE90_FLAG then ([], Some UnexpectedEnd) else ([b], None))"
| "rle90_units l (b # c # xs) =
     (if b \<noteq> RLE90_FLAG then emit [b] (rle90_units (Some b) (c # xs))
      else if c = 0 then emit [RLE90_FLAG] (rle90_units (Some RLE90_FLAG) xs)
      else case l of
        None \<Rightarrow> ([], Some Corrupt)
      | Some v \<Rightarrow> emit (replicate (unat c - 1) v) (rle90_units l xs))"

lemma rle90_units_literal:
  "b \<noteq> RLE90_FLAG \<Longrightarrow> rle90_units l (b # xs) = emit [b] (rle90_units (Some b) xs)"
  by (cases xs) simp_all

lemma rle90_units_literals:
  "ws \<noteq> [] \<Longrightarrow> \<forall>x \<in> set ws. x \<noteq> RLE90_FLAG \<Longrightarrow>
   rle90_units l (ws @ xs) = emit ws (rle90_units (Some (last ws)) xs)"
proof (induction ws arbitrary: l)
  case (Cons w ws)
  then show ?case by (cases "ws = []") (simp_all add: rle90_units_literal)
qed simp

definition rle90_memory :: "byte \<Rightarrow> bool \<Rightarrow> byte option" where
  "rle90_memory l hv = (if hv then Some l else None)"

lemma rle90_memory_simps [simp]:
  "rle90_memory l True = Some l" "rle90_memory l False = None"
  by (simp_all add: rle90_memory_def)

fun rle90_reads :: "rle90_state \<Rightarrow> byte option \<Rightarrow> byte list \<Rightarrow> outcome" where
  "rle90_reads R9Normal l xs = rle90_units l xs"
| "rle90_reads R9AwaitCount l xs = rle90_units l (RLE90_FLAG # xs)"
| "rle90_reads (R9Run b r) l xs = emit (replicate (unat r) b) (rle90_units l xs)"

definition rle90_yields :: "rle90_dec \<Rightarrow> byte list \<Rightarrow> outcome" where
  "rle90_yields d xs =
     (if r9_poisoned d then ([], Some Corrupt)
      else rle90_reads (r9_state d) (rle90_memory (r9_last d) (r9_have_last d)) xs)"

lemma rle90_yields_live [simp]:
  "rle90_yields (rle90_live st l hv) xs = rle90_reads st (rle90_memory l hv) xs"
  by (simp add: rle90_yields_def)

lemma rle90_reads_run:
  "k \<le> unat r \<Longrightarrow> rle90_reads (R9Run b r) l xs
     = emit (replicate k b) (rle90_reads (R9Run b (r - byte_of k)) l xs)"
  by (simp add: buf_simps replicate_add [symmetric])

lemma rle90_span_facts:
  fixes xs :: "byte list"
  assumes "xs \<noteq> []" and "hd xs \<noteq> RLE90_FLAG" and "0 < m"
  defines "src \<equiv> take (min (length xs) m) xs"
  shows "0 < rle90_span src" "rle90_span src \<le> length xs" "rle90_span src \<le> m"
    "take (rle90_span src) src = take (rle90_span src) xs"
    "\<forall>x \<in> set (take (rle90_span src) xs). x \<noteq> RLE90_FLAG"
    "src ! (rle90_span src - 1) = last (take (rle90_span src) xs)"
proof -
  have src: "src = take m xs" by (simp add: src_def take_min_length)
  obtain y ys where xs: "xs = y # ys" using assms(1) by (cases xs) auto
  obtain k where m: "m = Suc k" using assms(3) by (cases m) auto
  show pos: "0 < rle90_span src" using assms(2) by (simp add: src xs m rle90_span_def)
  have le: "rle90_span src \<le> length src"
    by (simp add: rle90_span_def length_takeWhile_le)
  then show "rle90_span src \<le> length xs" and m': "rle90_span src \<le> m" by (simp_all add: src)
  have "take (rle90_span src) (take m xs) = take (rle90_span src) xs"
    using m' by (simp only: take_take min_absorb1)
  then show tk: "take (rle90_span src) src = take (rle90_span src) xs" by (simp only: src)
  have "take (rle90_span src) src = takeWhile (\<lambda>x. x \<noteq> RLE90_FLAG) src"
    unfolding rle90_span_def by (rule takeWhile_eq_take [symmetric])
  then have "\<forall>x \<in> set (take (rle90_span src) src). x \<noteq> RLE90_FLAG"
    by (auto dest: set_takeWhileD)
  then show "\<forall>x \<in> set (take (rle90_span src) xs). x \<noteq> RLE90_FLAG" unfolding tk .
  have "take (rle90_span src) src \<noteq> []" using pos le by auto
  then have "last (take (rle90_span src) src) = src ! (rle90_span src - 1)"
    using le pos by (simp add: last_conv_nth min_def)
  then show "src ! (rle90_span src - 1) = last (take (rle90_span src) xs)" unfolding tk by simp
qed

abbreviation "rle90_acc \<equiv> decode_acc (\<lambda>_. True) rle90_yields"

lemma rle90_decode_loop_acc:
  "length out \<le> n \<Longrightarrow>
   rle90_acc (rle90_live st l hv) input ys n c out (rle90_decode_loop st l hv input n c out)"
proof (induction st l hv input n c out rule: rle90_decode_loop.induct)
  case (2 l hv b input n c out)
  consider "b = RLE90_FLAG" | "b \<noteq> RLE90_FLAG" "n \<le> length out"
    | "b \<noteq> RLE90_FLAG" "\<not> n \<le> length out" by blast
  then show ?case
  proof cases
    case 1
    with 2 have "rle90_acc (rle90_live R9AwaitCount l hv) input ys n (Suc c) out
        (rle90_decode_loop R9Normal l hv (b # input) n c out)" by simp
    then show ?thesis by (rule decode_acc_read) (simp add: 1)
  next
    case 2
    with \<open>length out \<le> n\<close> show ?thesis by (auto intro: decode_acc_stop)
  next
    case 3
    define xs where "xs = b # input"
    define limit where "limit = min (length xs) (n - length out)"
    define src where "src = take limit xs"
    define k where "k = rle90_span src"
    have "xs \<noteq> []" "hd xs \<noteq> RLE90_FLAG" "0 < n - length out" using 3 by (simp_all add: xs_def)
    note f = rle90_span_facts [OF this, folded limit_def, folded src_def, folded k_def]
    have "length (out @ take k src) \<le> n" using f(2,3,4) 2(3) by simp
    note IH = 2(2) [OF 3 limit_def [unfolded xs_def] src_def [unfolded xs_def] k_def this]
    have "rle90_decode_loop R9Normal l hv (b # input) n c out = rle90_decode_loop R9Normal
        (src ! (k - 1)) True (drop k (b # input)) n (c + k) (out @ take k src)"
      using 3 by (subst rle90_decode_loop.simps(2)) (simp only: if_False Let_def xs_def [symmetric]
        limit_def [symmetric] src_def [symmetric] k_def [symmetric])
    with IH have "rle90_acc (rle90_live R9Normal (src ! (k - 1)) True) (drop k xs) ys n (c + k)
        (out @ take k xs) (rle90_decode_loop R9Normal l hv xs n c out)"
      by (simp only: xs_def f(4))
    moreover have "rle90_yields (rle90_live R9Normal l hv) (xs @ ys) = emit (take k xs)
        (rle90_yields (rle90_live R9Normal (src ! (k - 1)) True) (drop k xs @ ys))"
      using rle90_units_literals [of "take k xs" "rle90_memory l hv" "drop k xs @ ys"] f
        \<open>xs \<noteq> []\<close> by (simp flip: append_assoc)
    ultimately show ?thesis unfolding xs_def [symmetric]
      by - (rule decode_acc_step, assumption, rule f)
  qed
next
  case (4 l hv a input n c out)
  consider (full) "a = 0" "n \<le> length out" | (flag) "a = 0" "\<not> n \<le> length out"
    | (corrupt) "a \<noteq> 0" "\<not> hv" | (run) "a \<noteq> 0" hv by blast
  then show ?case
  proof cases
    case full
    have "rle90_acc (rle90_live (R9Run RLE90_FLAG 1) RLE90_FLAG True) input ys n (Suc c) out
        (rle90_decode_loop R9AwaitCount l hv (a # input) n c out)"
      using full 4(3) by (auto intro: decode_acc_stop)
    then show ?thesis by (rule decode_acc_read) (simp add: full)
  next
    case flag
    with 4(1) have "rle90_acc (rle90_live R9Normal RLE90_FLAG True) input ys n (Suc c)
        (out @ [RLE90_FLAG]) (rle90_decode_loop R9AwaitCount l hv (a # input) n c out)" by simp
    then show ?thesis
      by - (rule decode_acc_step [where k = 1 and ?o1.0 = "[RLE90_FLAG]"
            and ?s1.0 = "rle90_live R9Normal RLE90_FLAG True"], simp_all add: flag)
  next
    case corrupt
    then show ?thesis by (auto intro: decode_acc_error)
  next
    case run
    then have "rle90_decode_loop R9AwaitCount l hv (a # input) n c out
        = rle90_decode_loop (R9Run l (a - 1)) l hv input n (Suc c) out"
      by (subst rle90_decode_loop.simps(4)) (simp only: if_False if_True simp_thms)
    with 4(2) [OF run(1)] run(2) 4(3)
    have "rle90_acc (rle90_live (R9Run l (a - 1)) l hv) input ys n (Suc c) out
        (rle90_decode_loop R9AwaitCount l hv (a # input) n c out)" by (simp only: simp_thms)
    moreover have "unat (a - 1) = unat a - 1"
      using unat_sub_byte_of [of 1 a] run by (simp add: byte_eq_0_unat Suc_le_eq)
    ultimately show ?thesis using run by - (rule decode_acc_read, assumption, simp)
  qed
next
  case (5 b r l hv input n c out)
  consider "r = 0" | "r \<noteq> 0" "n \<le> length out" | "r \<noteq> 0" "\<not> n \<le> length out" by blast
  then show ?case
  proof cases
    case 1
    with 5 have "rle90_acc (rle90_live R9Normal l hv) input ys n c out
        (rle90_decode_loop (R9Run b r) l hv input n c out)" by simp
    then show ?thesis by (rule decode_acc_silent) (simp add: 1)
  next
    case 2
    with 5 show ?thesis by (auto intro: decode_acc_stop)
  next
    case 3
    define k where "k = min (unat r) (n - length out)"
    define st' where "st' = (if r - byte_of k = 0 then R9Normal else R9Run b (r - byte_of k))"
    have k: "k \<le> unat r" "length (out @ replicate k b) \<le> n" using 5(3) by (auto simp: k_def)
    from 5(2) [OF 3 k_def refl, folded st'_def, OF this(2)]
    have "rle90_acc (rle90_live st' l hv) input ys n c (out @ replicate k b)
        (rle90_decode_loop (R9Run b r) l hv input n c out)"
      using 3 by (simp add: k_def [symmetric] st'_def Let_def)
    moreover have "rle90_reads st' m zs = rle90_reads (R9Run b (r - byte_of k)) m zs" for m zs
      by (simp add: st'_def)
    ultimately show ?thesis
      by - (rule decode_acc_write, assumption, simp only: rle90_yields_live rle90_reads_run [OF k(1)])
  qed
qed (auto intro: decode_acc_stop)

lemma rle90_dec_finish_law:
  "drain_law (\<lambda>_. True) rle90_yields d n (rle90_dec_raw_finish d n)"
proof (cases "r9_poisoned d")
  case True
  then show ?thesis
    by (auto simp: rle90_dec_raw_finish_def rle90_yields_def intro: drain_law_error)
next
  case live: False
  show ?thesis
  proof (cases "r9_state d")
    case R9Normal
    with live show ?thesis
      by (auto simp: rle90_dec_raw_finish_def rle90_yields_def intro!: drain_lawI)
  next
    case R9AwaitCount
    with live show ?thesis
      by (auto simp: rle90_dec_raw_finish_def rle90_yields_def intro!: drain_law_error)
  next
    case (R9Run b r)
    define k where "k = min (unat r) n"
    define d' where "d' = d\<lparr>r9_state := (if r - byte_of k = 0 then R9Normal
        else R9Run b (r - byte_of k))\<rparr>"
    have k: "k \<le> unat r" "k \<le> n" by (auto simp: k_def)
    have over: "r - byte_of k \<noteq> 0 \<Longrightarrow> k = n"
      using k unfolding byte_eq_0_unat by (auto simp: buf_simps k_def)
    have d': "rle90_yields d' zs = rle90_reads (R9Run b (r - byte_of k))
        (rle90_memory (r9_last d) (r9_have_last d)) zs" for zs
      using live by (simp add: d'_def rle90_yields_def)
    have "rle90_dec_raw_finish d n = raw_ok d' 0 (replicate k b) (r - byte_of k = 0)"
      using live by (simp add: R9Run rle90_dec_raw_finish_def k_def [symmetric] d'_def Let_def)
    moreover have "drain_law (\<lambda>_. True) rle90_yields d n
        (raw_ok d' 0 (replicate k b) (r - byte_of k = 0))"
    proof (rule drain_lawI)
      show "rle90_yields d [] = emit (replicate k b) (rle90_yields d' [])"
        unfolding d' using live by (simp only: rle90_yields_def R9Run if_False rle90_reads_run [OF k(1)])
    qed (use k over live in \<open>auto simp: d'_def rle90_yields_def\<close>)
    ultimately show ?thesis by simp
  qed
qed

interpretation rle90_dec: decoder_contract rle90_raw_decode rle90_dec_raw_finish
  "\<lambda>_. True" "\<lambda>_. True" rle90_yields
proof (unfold_locales, goal_cases)
  case (1 d xs ys n)
  show ?case
  proof (cases "r9_poisoned d")
    case True
    then show ?thesis
      by (simp add: rle90_raw_decode_def rle90_yields_def decode_law_def)
  next
    case False
    then have "rle90_live (r9_state d) (r9_last d) (r9_have_last d) = d" by simp
    with rle90_decode_loop_acc [of "[]" n "r9_state d" "r9_last d" "r9_have_last d" xs ys 0] False
    show ?thesis by (intro decode_acc_law) (simp add: rle90_raw_decode_def)
  qed
next
  case (3 d n)
  show ?case by (rule rle90_dec_finish_law)
qed simp

section \<open>Round trip\<close>

lemma rle90_units_escape:
  "rle90_units l (rle90_literal b @ xs) = emit [b] (rle90_units (Some b) xs)"
  by (simp add: rle90_literal_def rle90_units_literal)

lemma rle90_units_escapes:
  "\<exists>m. \<forall>xs. rle90_units l (concat (replicate c (rle90_literal b)) @ xs)
     = emit (replicate c b) (rle90_units m xs)"
proof (induction c arbitrary: l)
  case 0
  show ?case by (rule exI [of _ l]) simp
next
  case (Suc c)
  from Suc.IH [of "Some b"] obtain m where
    "\<forall>xs. rle90_units (Some b) (concat (replicate c (rle90_literal b)) @ xs)
       = emit (replicate c b) (rle90_units m xs)" ..
  then show ?case by (intro exI [of _ m]) (simp add: rle90_units_escape)
qed

lemma rle90_run_code_units:
  assumes "1 \<le> c" and "c \<le> 255"
  shows "\<exists>m. \<forall>xs. rle90_units l (rle90_run_code b c @ xs) = emit (replicate c b) (rle90_units m xs)"
proof (cases "b = RLE90_FLAG \<or> c < RLE90_MIN_RUN")
  case True
  then show ?thesis using rle90_units_escapes by (simp add: rle90_run_code_def)
next
  case False
  then have "3 \<le> c" by (simp add: RLE90_MIN_RUN_def)
  with assms have "min (c - 1 + 1) RLE90_MAX_RUN = c" "1 \<le> c - 1" "1 + (c - 1) = c"
    by (simp_all add: RLE90_MAX_RUN_def)
  then have chunks: "rle90_chunks c 1 = [RLE90_FLAG, byte_of c]"
    unfolding rle90_chunks.simps [of c 1] Let_def by (simp add: rle90_chunks.simps [of c c])
  have u: "unat (byte_of c) = c" using assms by simp
  then have nz: "byte_of c \<noteq> 0" using assms by (auto simp: byte_eq_0_unat simp del: unat_byte_of)
  have "b # replicate (c - 1) b = replicate c b" using assms by (cases c) auto
  with False nz u have "rle90_units l (rle90_run_code b c @ xs)
      = emit (replicate c b) (rle90_units (Some b) xs)" for xs
    by (simp add: rle90_run_code_def chunks [unfolded One_nat_def])
  then show ?thesis by blast
qed

definition rle90_held :: "rle90_enc \<Rightarrow> byte list" where
  "rle90_held s = (case r9_run s of None \<Rightarrow> [] | Some (b, c) \<Rightarrow> replicate c b)"

definition rle90_wf :: "rle90_enc \<Rightarrow> bool" where
  "rle90_wf s \<longleftrightarrow> (case r9_run s of None \<Rightarrow> True | Some (b, c) \<Rightarrow> 1 \<le> c \<and> c \<le> 255)"

lemma rle90_flush_units:
  assumes "rle90_wf s" and "q_pending s = []"
  shows "\<exists>m. \<forall>xs. rle90_units l (q_pending (rle90_flush_run s) @ xs)
      = emit (rle90_held s) (rle90_units m xs)"
proof (cases "r9_run s")
  case None
  with assms(2) show ?thesis
    by (intro exI [of _ l]) (simp add: rle90_flush_run_code rle90_held_def)
next
  case (Some r)
  with assms rle90_run_code_units [of "snd r" l "fst r"] show ?thesis
    by (auto simp: rle90_flush_run_code rle90_held_def rle90_wf_def split: prod.splits)
qed

lemma rle90_feed_units:
  assumes "rle90_wf s" and "q_pending s = []"
  shows "rle90_wf (rle90_feed s b)"
    and "\<exists>m e. (\<forall>xs. rle90_units l (q_pending (rle90_feed s b) @ xs) = emit e (rle90_units m xs))
      \<and> rle90_held s @ [b] = e @ rle90_held (rle90_feed s b)"
proof -
  let ?t = "rle90_feed s b"
  have "rle90_wf ?t \<and>
      (\<exists>m e. (\<forall>xs. rle90_units l (q_pending ?t @ xs) = emit e (rle90_units m xs))
         \<and> rle90_held s @ [b] = e @ rle90_held ?t)"
  proof (cases "\<exists>c. r9_run s = Some (b, c) \<and> c < 255")
    case True
    then obtain c where "r9_run s = Some (b, c)" "c < 255" by blast
    with assms show ?thesis
      by (auto simp: rle90_feed_def rle90_wf_def rle90_held_def RLE90_MAX_RUN_def
          replicate_append_same intro!: exI [of _ l] exI [of _ "[]"])
  next
    case False
    then have t: "?t = (rle90_flush_run s)\<lparr>r9_run := Some (b, 1)\<rparr>"
      by (auto simp: rle90_feed_def rle90_flush_run_code RLE90_MAX_RUN_def split: option.splits)
    from rle90_flush_units [OF assms, of l] obtain m where
      "\<forall>xs. rle90_units l (q_pending (rle90_flush_run s) @ xs)
        = emit (rle90_held s) (rle90_units m xs)" ..
    then show ?thesis unfolding t
      by (intro conjI exI [of _ m] exI [of _ "rle90_held s"])
        (simp_all add: rle90_wf_def rle90_held_def)
  qed
  then show "rle90_wf ?t"
    and "\<exists>m e. (\<forall>xs. rle90_units l (q_pending ?t @ xs) = emit e (rle90_units m xs))
         \<and> rle90_held s @ [b] = e @ rle90_held ?t" by blast+
qed

lemma rle90_units_rest:
  "rle90_wf t \<Longrightarrow> q_pending t = [] \<Longrightarrow>
   rle90_units l (queued_rest rle90_feed rle90_finalize t xs) = (rle90_held t @ xs, None)"
proof (induction xs arbitrary: t l)
  case Nil
  from rle90_flush_units [OF Nil, of l] show ?case
    by (auto simp: rle90_finalize_def dest: spec [of _ "[]"])
next
  case (Cons b xs)
  let ?t = "queue_blank (rle90_feed t b)"
  have "rle90_wf ?t \<and> rle90_held ?t = rle90_held (rle90_feed t b)"
    using rle90_feed_units(1) [OF Cons.prems, of b]
    by (simp add: rle90_wf_def rle90_held_def queue_blank_def)
  moreover from rle90_feed_units(2) [OF Cons.prems, of l b] obtain m e where
    "\<forall>xs. rle90_units l (q_pending (rle90_feed t b) @ xs) = emit e (rle90_units m xs)"
    "rle90_held t @ [b] = e @ rle90_held (rle90_feed t b)" by blast
  ultimately show ?case using Cons.IH [of ?t m]
    by simp
qed

interpretation rle90: codec rle90_raw_encode rle90_enc_raw_finish
  "\<lambda>s _. queued_ready s" queued_closing "queued_owed rle90_feed rle90_finalize"
  rle90_raw_decode rle90_dec_raw_finish "\<lambda>_. True" "\<lambda>_. True" rle90_yields
  rle90_encoder_new rle90_decoder_new "\<lambda>_. True"
proof (unfold_locales, goal_cases)
  case (3 xs)
  have "rle90_units None (queued_rest rle90_feed rle90_finalize rle90_encoder_new xs) = (xs, None)"
    by (simp add: rle90_units_rest rle90_wf_def rle90_held_def rle90_encoder_new_def)
  moreover have "queue_blank rle90_encoder_new = rle90_encoder_new"
    by (simp add: rle90_encoder_new_def queue_blank_def)
  ultimately show ?case
    by (simp add: rle90_decoder_new_def queued_owed_def queue_bytes_def)
      (simp add: rle90_encoder_new_def)
qed (simp_all add: rle90_encoder_new_def rle90_decoder_new_def queued_ready_def)

section \<open>Properties\<close>

text \<open>C33. One-shot RLE90 round trip: compression of any bytes, marker bytes included, returns, and
  decompressing its result returns the input.\<close>

theorem rle90_vec_roundtrip:
  "\<exists>ys. compress_to_vec rle90_raw_encode rle90_enc_raw_finish rle90_encoder_new xs = Some (Inr ys)
     \<and> decompress_to_vec rle90_raw_decode rle90_dec_raw_finish rle90_decoder_new ys
        = Some (Inr xs)"
  using rle90.vec_roundtrip [of xs] by blast

text \<open>The RLE90 decompressor implements the format on every input: a count extends the last
  byte emitted, a zero count is a literal marker, a count with nothing before it is \<open>Corrupt\<close>, and
  a stream that ends on a marker is \<open>UnexpectedEnd\<close>.\<close>

theorem rle90_decompress_total:
  "decompress_to_vec rle90_raw_decode rle90_dec_raw_finish rle90_decoder_new ys
     = Some (outcome_result (rle90_units None ys))"
  using rle90_dec.vec_decompress [of rle90_decoder_new ys]
  by (simp add: rle90_yields_def rle90_decoder_new_def)

end
