(* ===== verification/Slices.thy ===== *)
theory Slices
  imports Prelude
begin

text \<open>
  The slice methods of the standard library that the checksums use: \<open>as_chunks::<N>()\<close> and
  \<open>chunks(n)\<close>.
\<close>

text \<open>\<open>as_chunks::<N>()\<close>: the whole chunks of \<open>n\<close> elements, and the rest.\<close>

function as_chunks :: "nat \<Rightarrow> 'a list \<Rightarrow> 'a list list \<times> 'a list" where
  "as_chunks n xs =
     (if 0 < n \<and> n \<le> length xs then
        (case as_chunks n (drop n xs) of (cs, r) \<Rightarrow> (take n xs # cs, r))
      else ([], xs))"
  by pat_completeness auto
termination by (relation "measure (\<lambda>(n, xs). length xs)") auto

declare as_chunks.simps [simp del]

lemma as_chunks_concat: "concat (fst (as_chunks n xs)) @ snd (as_chunks n xs) = xs"
proof (induction n xs rule: as_chunks.induct)
  case (1 n xs)
  then show ?case
    by (subst (1 2) as_chunks.simps) (simp add: split_beta)
qed

lemma as_chunks_lengths: "c \<in> set (fst (as_chunks n xs)) \<Longrightarrow> length c = n"
proof (induction n xs rule: as_chunks.induct)
  case (1 n xs)
  from 1(2) show ?case
    using 1(1) by (subst (asm) as_chunks.simps) (auto simp: split_beta split: if_splits)
qed

lemma as_chunks_exact:
  "length xs = k * n \<Longrightarrow> 0 < n \<Longrightarrow> snd (as_chunks n xs) = [] \<and> length (fst (as_chunks n xs)) = k"
proof (induction k arbitrary: xs)
  case 0
  then show ?case by (simp add: as_chunks.simps)
next
  case (Suc k)
  then have "length (drop n xs) = k * n" "n \<le> length xs" by simp_all
  with Suc.IH [of "drop n xs"] Suc.prems show ?case
    by (subst (1 2) as_chunks.simps) (simp add: split_beta)
qed

lemma as_chunks_rest: "0 < n \<Longrightarrow> length (snd (as_chunks n xs)) < n"
proof (induction n xs rule: as_chunks.induct)
  case (1 n xs)
  then show ?case by (subst as_chunks.simps) (auto simp: split_beta)
qed

lemma as_chunks_count: "length (fst (as_chunks n xs)) * n \<le> length xs"
proof (induction n xs rule: as_chunks.induct)
  case (1 n xs)
  then show ?case by (subst as_chunks.simps) (auto simp: split_beta)
qed

text \<open>\<open>chunks(n)\<close>: the last one may be short.\<close>

function slice_chunks :: "nat \<Rightarrow> 'a list \<Rightarrow> 'a list list" where
  "slice_chunks n xs =
     (if xs = [] \<or> n = 0 then [] else take n xs # slice_chunks n (drop n xs))"
  by pat_completeness auto
termination by (relation "measure (\<lambda>(n, xs). length xs)") auto

declare slice_chunks.simps [simp del]

lemma slice_chunks_concat: "0 < n \<Longrightarrow> concat (slice_chunks n xs) = xs"
  by (induction n xs rule: slice_chunks.induct) (subst slice_chunks.simps, simp)

lemma slice_chunks_lengths: "c \<in> set (slice_chunks n xs) \<Longrightarrow> length c \<le> n"
proof (induction n xs rule: slice_chunks.induct)
  case (1 n xs)
  from 1(2) show ?case
    using 1(1) by (subst (asm) slice_chunks.simps) (auto split: if_splits)
qed

end
