(* ===== verification/Crc32.thy ===== *)
theory Crc32
  imports Slices
begin

text \<open>
  CRC-32 (\<open>src/checksum.rs\<close>): the slice-by-8 tables and step, the multiplication modulo the
  polynomial that joins independent lanes, and \<open>update\<close> with its four-lane loop, against the
  bit-at-a-time definition of RFC 1952.  Everything rests on the register shift being linear
  over XOR.
\<close>

section \<open>The code\<close>

definition CRC32_POLY :: u32 where "CRC32_POLY = 0xEDB88320"
definition LANE :: nat where "LANE = 2048"

record crc32 =
  crc_state :: u32

definition crc32_new :: crc32 where
  "crc32_new = \<lparr>crc_state = 0xFFFFFFFF\<rparr>"

definition crc32_finalize :: "crc32 \<Rightarrow> u32" where
  "crc32_finalize c = crc_state c XOR 0xFFFFFFFF"

definition crc32_reset :: "crc32 \<Rightarrow> crc32" where
  "crc32_reset c = crc32_new"

text \<open>One bit: the body of the \<open>k\<close> loop of the table and of the loop of \<open>X_POW_LANE\<close>.\<close>

definition crc32_shift :: "u32 \<Rightarrow> u32" where
  "crc32_shift c = (if c AND 1 \<noteq> 0 then CRC32_POLY XOR drop_bit 1 c else drop_bit 1 c)"

definition crc32_table0 :: "u32 list" where
  "crc32_table0 = map (\<lambda>i. (crc32_shift ^^ 8) (word_of_nat i)) [0..<256]"

primrec crc32_table :: "nat \<Rightarrow> u32 list" where
  "crc32_table 0 = crc32_table0"
| "crc32_table (Suc n) =
     map (\<lambda>prev. drop_bit 8 prev XOR crc32_table0 ! unat (prev AND 0xFF)) (crc32_table n)"

definition CRC32_TABLE8 :: "u32 list list" where
  "CRC32_TABLE8 = map crc32_table [0..<8]"

text \<open>\<open>u32::from_le_bytes\<close>\<close>

definition from_le_bytes4 :: "byte \<Rightarrow> byte \<Rightarrow> byte \<Rightarrow> byte \<Rightarrow> u32" where
  "from_le_bytes4 a b c d =
     ucast a OR push_bit 8 (ucast b) OR push_bit 16 (ucast c) OR push_bit 24 (ucast d)"

definition crc32_step8 :: "u32 \<Rightarrow> byte list \<Rightarrow> u32" where
  "crc32_step8 s c =
     (let t = CRC32_TABLE8;
          lo = from_le_bytes4 (c ! 0) (c ! 1) (c ! 2) (c ! 3) XOR s;
          hi = from_le_bytes4 (c ! 4) (c ! 5) (c ! 6) (c ! 7)
      in t ! 7 ! unat (lo AND 0xFF) XOR t ! 6 ! unat (drop_bit 8 lo AND 0xFF)
         XOR t ! 5 ! unat (drop_bit 16 lo AND 0xFF) XOR t ! 4 ! unat (drop_bit 24 lo)
         XOR t ! 3 ! unat (hi AND 0xFF) XOR t ! 2 ! unat (drop_bit 8 hi AND 0xFF)
         XOR t ! 1 ! unat (drop_bit 16 hi AND 0xFF) XOR t ! 0 ! unat (drop_bit 24 hi))"

definition X_POW_LANE :: u32 where
  "X_POW_LANE = (crc32_shift ^^ (8 * LANE)) (push_bit 31 1)"

function multmodp_loop :: "u32 \<Rightarrow> u32 \<Rightarrow> u32 \<Rightarrow> u32 \<Rightarrow> u32" where
  "multmodp_loop a b m p =
     (if m \<noteq> 0 then
        multmodp_loop a (crc32_shift b) (drop_bit 1 m) (if a AND m \<noteq> 0 then p XOR b else p)
      else p)"
  by pat_completeness auto
termination
  by (relation "measure (\<lambda>(a, b, m, p). unat m)")
    (auto simp: drop_bit_Suc unat_div unat_gt_0 intro!: div_less_dividend)

declare multmodp_loop.simps [simp del]

definition multmodp :: "u32 \<Rightarrow> u32 \<Rightarrow> u32" where
  "multmodp a b = multmodp_loop a b (push_bit 31 1) 0"

definition crc32_lanes :: "u32 \<Rightarrow> byte list \<Rightarrow> byte list \<Rightarrow> byte list \<Rightarrow> byte list
    \<Rightarrow> u32 \<times> u32 \<times> u32 \<times> u32" where
  "crc32_lanes s l0 l1 l2 l3 =
     fold (\<lambda>(a, b, c, d) (s0, s1, s2, s3).
         (crc32_step8 s0 a, crc32_step8 s1 b, crc32_step8 s2 c, crc32_step8 s3 d))
       (zip (fst (as_chunks 8 l0)) (zip (fst (as_chunks 8 l1))
         (zip (fst (as_chunks 8 l2)) (fst (as_chunks 8 l3)))))
       (s, 0, 0, 0)"

function crc32_blocks :: "u32 \<Rightarrow> byte list \<Rightarrow> u32 \<times> byte list" where
  "crc32_blocks s data =
     (if 4 * LANE \<le> length data then
        let l0 = take LANE data;
            l1 = take LANE (drop LANE data);
            l2 = take LANE (drop (2 * LANE) data);
            l3 = take LANE (drop (3 * LANE) data);
            (s0, s1, s2, s3) = crc32_lanes s l0 l1 l2 l3;
            s' = multmodp X_POW_LANE s0 XOR s1;
            s'' = multmodp X_POW_LANE s' XOR s2;
            s''' = multmodp X_POW_LANE s'' XOR s3
        in crc32_blocks s''' (drop (4 * LANE) data)
      else (s, data))"
  by pat_completeness auto
termination by (relation "measure (\<lambda>(s, data). length data)") (auto simp: LANE_def)

declare crc32_blocks.simps [simp del]

definition crc32_tail_byte :: "byte \<Rightarrow> u32 \<Rightarrow> u32" where
  "crc32_tail_byte b s =
     (let idx = unat ((s XOR ucast b) AND 0xFF) in drop_bit 8 s XOR CRC32_TABLE8 ! 0 ! idx)"

definition crc32_update :: "crc32 \<Rightarrow> byte list \<Rightarrow> crc32" where
  "crc32_update c data =
     (let (s, rest) = crc32_blocks (crc_state c) data;
          (chunks, remainder) = as_chunks 8 rest;
          s' = fold (\<lambda>c s. crc32_step8 s c) chunks s
      in \<lparr>crc_state = fold crc32_tail_byte remainder s'\<rparr>)"

section \<open>The reference\<close>

text \<open>RFC 1952: bytes enter the low end of the register, eight shifts each.\<close>

definition crc32_byte :: "byte \<Rightarrow> u32 \<Rightarrow> u32" where
  "crc32_byte b s = (crc32_shift ^^ 8) (s XOR ucast b)"

definition crc32_reference :: "byte list \<Rightarrow> u32" where
  "crc32_reference data = fold crc32_byte data 0xFFFFFFFF XOR 0xFFFFFFFF"

section \<open>Linearity of the shift\<close>

lemma crc32_shift_xor: "crc32_shift (x XOR y) = crc32_shift x XOR crc32_shift y"
proof -
  have "crc32_shift z = drop_bit 1 z XOR (if bit z 0 then CRC32_POLY else 0)" for z
    by (simp add: crc32_shift_def and_one_eq xor.commute odd_iff_mod_2_eq_one [symmetric] bit_0)
  then show ?thesis by (simp add: bit_xor_iff xor.assoc xor.left_commute)
qed

lemma crc32_shifts_xor:
  "(crc32_shift ^^ n) (x XOR y) = (crc32_shift ^^ n) x XOR (crc32_shift ^^ n) y"
  by (induction n) (simp_all add: crc32_shift_xor)

lemma crc32_shifts_0 [simp]: "(crc32_shift ^^ n) 0 = 0"
  by (induction n) (simp_all add: crc32_shift_def)

lemma crc32_shifts_add: "(crc32_shift ^^ m) ((crc32_shift ^^ n) x) = (crc32_shift ^^ (m + n)) x"
  by (simp add: funpow_add)

text \<open>A register with \<open>n\<close> low zero bits only moves down.\<close>

lemma crc32_shifts_drop:
  "(\<forall>i<n. \<not> bit x i) \<Longrightarrow> (crc32_shift ^^ n) x = drop_bit n x"
proof (induction n)
  case (Suc n)
  then have "\<not> bit (drop_bit n x) 0" by (simp add: bit_drop_bit_eq)
  with Suc show ?case
    by (simp add: crc32_shift_def and_one_eq bit_0 odd_iff_mod_2_eq_one [symmetric])
qed simp

lemma crc32_shifts_push:
  fixes x :: u32
  assumes "\<And>i. bit x i \<Longrightarrow> i + n < 32"
  shows "(crc32_shift ^^ (m + n)) (push_bit n x) = (crc32_shift ^^ m) x"
proof -
  have "drop_bit n (push_bit n x) = x"
  proof (rule bit_word_eqI)
    fix i
    assume "i < LENGTH(32)"
    show "bit (drop_bit n (push_bit n x)) i = bit x i"
      using assms [of i] by (auto simp: bit_drop_bit_eq bit_push_bit_iff add.commute)
  qed
  then show ?thesis by (simp add: funpow_add crc32_shifts_drop bit_push_bit_iff)
qed

text \<open>Eight shifts: the low byte goes through the table, the rest moves down.\<close>

lemma crc32_shift8:
  "(crc32_shift ^^ 8) x = drop_bit 8 x XOR (crc32_shift ^^ 8) (x AND 0xFF)"
proof -
  have mask: "(0xFF :: u32) = mask 8" by (simp add: mask_eq_exp_minus_1)
  have "x = (x AND NOT (mask 8)) XOR (x AND mask 8)"
    by (intro bit_word_eqI) (auto simp: bit_and_iff bit_xor_iff bit_not_iff bit_mask_iff)
  then have "(crc32_shift ^^ 8) x
      = (crc32_shift ^^ 8) (x AND NOT (mask 8)) XOR (crc32_shift ^^ 8) (x AND mask 8)"
    by (metis crc32_shifts_xor)
  also have "(crc32_shift ^^ 8) (x AND NOT (mask 8)) = drop_bit 8 (x AND NOT (mask 8))"
    by (rule crc32_shifts_drop) (simp add: bit_and_iff bit_not_iff bit_mask_iff)
  also have "\<dots> = drop_bit 8 x"
    by (intro bit_word_eqI)
      (auto simp: bit_drop_bit_eq bit_and_iff bit_not_iff bit_mask_iff dest: bit_imp_le_length)
  finally show ?thesis by (simp only: mask)
qed

section \<open>The tables\<close>

lemma crc32_table0_nth:
  "i < 256 \<Longrightarrow> crc32_table0 ! i = (crc32_shift ^^ 8) (word_of_nat i)"
  by (simp add: crc32_table0_def)

lemma crc32_low_byte: "unat ((x :: u32) AND 0xFF) < 256"
proof -
  have "(x AND 0xFF) = take_bit 8 x"
    by (simp add: take_bit_eq_mask mask_eq_exp_minus_1)
  then show ?thesis by (simp add: take_bit_eq_mod unat_mod)
qed

lemma crc32_table0_step:
  "drop_bit 8 x XOR crc32_table0 ! unat (x AND 0xFF) = (crc32_shift ^^ 8) x"
  by (simp add: crc32_table0_nth crc32_low_byte crc32_shift8 [of x])

lemma crc32_table_nth:
  "i < 256 \<Longrightarrow> length (crc32_table n) = 256 \<and> crc32_table n ! i = (crc32_shift ^^ (8 * Suc n)) (word_of_nat i)"
proof (induction n)
  case 0
  then show ?case by (simp add: crc32_table0_def)
next
  case (Suc n)
  then show ?case
    using crc32_shifts_add [of 8 "8 * Suc n" "word_of_nat i"] by (simp add: crc32_table0_step)
qed

lemma crc32_table8_nth:
  "n < 8 \<Longrightarrow> unat x < 256 \<Longrightarrow>
   CRC32_TABLE8 ! n ! unat x = (crc32_shift ^^ (8 * Suc n)) x"
  using crc32_table_nth [of "unat x" n] by (simp add: CRC32_TABLE8_def)

section \<open>The steps\<close>

lemma bit_ucast_byte [simp]: "bit (ucast (b :: byte) :: u32) i \<longleftrightarrow> i < 8 \<and> bit b i"
  using bit_imp_le_length [of b i] by (auto simp: bit_ucast_iff)

lemma crc32_tail_is_byte: "crc32_tail_byte b s = crc32_byte b s"
proof -
  have "drop_bit 8 (s XOR ucast b) = drop_bit 8 s"
    by (intro bit_word_eqI) (auto simp: bit_drop_bit_eq bit_xor_iff)
  with crc32_table0_step [of "s XOR ucast b"] show ?thesis
    by (simp add: crc32_tail_byte_def crc32_byte_def CRC32_TABLE8_def)
qed

lemma crc32_byte_lift:
  "n \<le> 24 \<Longrightarrow> (ucast (b :: byte) :: u32) = (crc32_shift ^^ n) (push_bit n (ucast b))"
  using crc32_shifts_push [of "ucast b" n 0] by simp

lemma crc32_byte_after:
  assumes "n \<le> 24"
  shows "crc32_byte b ((crc32_shift ^^ n) x) = (crc32_shift ^^ (8 + n)) (x XOR push_bit n (ucast b))"
proof -
  have "(crc32_shift ^^ n) x XOR ucast b = (crc32_shift ^^ n) (x XOR push_bit n (ucast b))"
    using crc32_byte_lift [OF assms, of b] crc32_shifts_xor by metis
  then show ?thesis by (simp only: crc32_byte_def crc32_shifts_add)
qed

lemma from_le_bytes4_xor:
  "from_le_bytes4 a b c d
     = ucast a XOR push_bit 8 (ucast b) XOR push_bit 16 (ucast c) XOR push_bit 24 (ucast d)"
  unfolding from_le_bytes4_def
  by (rule bit_word_eqI) (auto simp: bit_xor_iff bit_or_iff bit_push_bit_iff)

lemma crc32_four_bytes:
  "fold crc32_byte [a, b, c, d] s = (crc32_shift ^^ 32) (from_le_bytes4 a b c d XOR s)"
proof -
  let ?b = "push_bit 8 (ucast b) :: u32" and ?c = "push_bit 16 (ucast c) :: u32"
    and ?d = "push_bit 24 (ucast d) :: u32"
  let ?s1 = "(crc32_shift ^^ 8) (s XOR ucast a)"
  have "crc32_byte b ?s1 = (crc32_shift ^^ 16) (s XOR ucast a XOR ?b)"
    using crc32_byte_after [of 8 b] by (simp add: xor.assoc)
  moreover have "crc32_byte c ((crc32_shift ^^ 16) x) = (crc32_shift ^^ 24) (x XOR ?c)" for x
    using crc32_byte_after [of 16 c] by simp
  moreover have "crc32_byte d ((crc32_shift ^^ 24) x) = (crc32_shift ^^ 32) (x XOR ?d)" for x
    using crc32_byte_after [of 24 d] by simp
  ultimately have "fold crc32_byte [a, b, c, d] s
      = (crc32_shift ^^ 32) (s XOR ucast a XOR ?b XOR ?c XOR ?d)"
    by (simp add: crc32_byte_def xor.assoc)
  then show ?thesis
    by (simp only: from_le_bytes4_xor xor.assoc xor.commute xor.left_commute)
qed

lemma crc32_split_word:
  "(x :: u32) = (x AND 0xFF) XOR push_bit 8 (drop_bit 8 x AND 0xFF)
     XOR push_bit 16 (drop_bit 16 x AND 0xFF) XOR push_bit 24 (drop_bit 24 x)"
proof -
  have mask: "(0xFF :: u32) = mask 8" by (simp add: mask_eq_exp_minus_1)
  show ?thesis unfolding mask
    by (rule bit_word_eqI)
      (auto simp: bit_xor_iff bit_and_iff bit_mask_iff bit_push_bit_iff bit_drop_bit_eq)
qed

lemma crc32_word_tables:
  fixes m :: nat and x :: u32
  assumes "m \<le> 4"
  shows "(crc32_shift ^^ (8 * m + 32)) x =
     CRC32_TABLE8 ! (m + 3) ! unat (x AND 0xFF) XOR CRC32_TABLE8 ! (m + 2) ! unat (drop_bit 8 x AND 0xFF)
     XOR CRC32_TABLE8 ! (m + 1) ! unat (drop_bit 16 x AND 0xFF) XOR CRC32_TABLE8 ! m ! unat (drop_bit 24 x)"
proof -
  have small: "bit (y AND 0xFF) i \<Longrightarrow> i < 8" for y :: u32 and i
  proof -
    have mask: "(0xFF :: u32) = mask 8" by (simp add: mask_eq_exp_minus_1)
    show "bit (y AND 0xFF) i \<Longrightarrow> i < 8" unfolding mask by (simp add: bit_and_iff bit_mask_iff)
  qed
  have top: "bit (drop_bit 24 x) i \<Longrightarrow> i < 8" for i
    using bit_imp_le_length [of x "24 + i"] by (simp add: bit_drop_bit_eq)
  have top_byte: "unat (drop_bit 24 x) < 256"
    using unsigned_less [of x, where ?'a = nat] by (simp add: drop_bit_eq_div unat_div)
  let ?f = "\<lambda>k. crc32_shift ^^ k"
  have down: "?f (8 * m + 32) (push_bit k z) = ?f (8 * m + j) z"
    if "\<And>i. bit z i \<Longrightarrow> i < 8" "j + k = 32" "8 \<le> j" for z :: u32 and j k
  proof -
    have "?f (8 * m + j + k) (push_bit k z) = ?f (8 * m + j) z"
      by (rule crc32_shifts_push) (use that in fastforce)
    moreover have "8 * m + j + k = 8 * m + 32" using that(2) by simp
    ultimately show ?thesis by simp
  qed
  have d8: "?f (8 * m + 32) (push_bit 8 (drop_bit 8 x AND 0xFF)) = ?f (8 * m + 24) (drop_bit 8 x AND 0xFF)"
    by (rule down, erule small, simp_all)
  have d16: "?f (8 * m + 32) (push_bit 16 (drop_bit 16 x AND 0xFF)) = ?f (8 * m + 16) (drop_bit 16 x AND 0xFF)"
    by (rule down, erule small, simp_all)
  have d24: "?f (8 * m + 32) (push_bit 24 (drop_bit 24 x)) = ?f (8 * m + 8) (drop_bit 24 x)"
    by (rule down, erule top, simp_all)
  have "?f (8 * m + 32) x = ?f (8 * m + 32) (x AND 0xFF)
      XOR ?f (8 * m + 32) (push_bit 8 (drop_bit 8 x AND 0xFF))
      XOR ?f (8 * m + 32) (push_bit 16 (drop_bit 16 x AND 0xFF))
      XOR ?f (8 * m + 32) (push_bit 24 (drop_bit 24 x))"
    by (subst crc32_split_word [of x]) (simp only: crc32_shifts_xor)
  also have "\<dots> = ?f (8 * m + 32) (x AND 0xFF) XOR ?f (8 * m + 24) (drop_bit 8 x AND 0xFF)
      XOR ?f (8 * m + 16) (drop_bit 16 x AND 0xFF) XOR ?f (8 * m + 8) (drop_bit 24 x)"
    by (simp only: d8 d16 d24)
  also have "\<dots> = ?f (8 * Suc (m + 3)) (x AND 0xFF) XOR ?f (8 * Suc (m + 2)) (drop_bit 8 x AND 0xFF)
      XOR ?f (8 * Suc (m + 1)) (drop_bit 16 x AND 0xFF) XOR ?f (8 * Suc m) (drop_bit 24 x)"
    by (simp add: algebra_simps)
  finally show ?thesis
    using assms top_byte by (simp only: crc32_table8_nth crc32_low_byte)
qed

lemma crc32_step8_bytes:
  assumes "length c = 8"
  shows "crc32_step8 s c = fold crc32_byte c s"
proof -
  from assms obtain a0 a1 a2 a3 a4 a5 a6 a7 where c: "c = [a0, a1, a2, a3, a4, a5, a6, a7]"
    by (auto simp: length_Suc_conv eval_nat_numeral)
  let ?lo = "from_le_bytes4 a0 a1 a2 a3 XOR s" and ?hi = "from_le_bytes4 a4 a5 a6 a7"
  have "fold crc32_byte c s = fold crc32_byte [a4, a5, a6, a7] (fold crc32_byte [a0, a1, a2, a3] s)"
    by (simp add: c)
  also have "\<dots> = (crc32_shift ^^ 32) ?hi XOR (crc32_shift ^^ 64) ?lo"
    by (simp only: crc32_four_bytes crc32_shifts_xor crc32_shifts_add) simp
  also have "\<dots> = crc32_step8 s c"
    using crc32_word_tables [of 4 ?lo] crc32_word_tables [of 0 ?hi]
    by (simp add: crc32_step8_def c Let_def eval_nat_numeral xor.assoc xor.commute xor.left_commute)
  finally show ?thesis by simp
qed

section \<open>Multiplication modulo the polynomial\<close>

text \<open>The loop as a sum over the bits of \<open>a\<close> from bit \<open>j\<close> down.\<close>

primrec crc32_mul :: "u32 \<Rightarrow> nat \<Rightarrow> u32 \<Rightarrow> u32" where
  "crc32_mul a 0 b = (if bit a 0 then b else 0)"
| "crc32_mul a (Suc j) b = (if bit a (Suc j) then b else 0) XOR crc32_mul a j (crc32_shift b)"

text \<open>The register with bit \<open>j\<close> set: the basis of the linear maps.\<close>

definition bit_at :: "nat \<Rightarrow> u32" where
  "bit_at j = push_bit j 1"

lemma bit_bit_at [simp]: "bit (bit_at j) i \<longleftrightarrow> i = j \<and> j < 32"
  using bit_imp_le_length [of "push_bit j 1 :: u32" i]
  by (auto simp: bit_at_def bit_push_bit_iff bit_1_iff simp del: push_bit_of_1)

lemma and_bit_at: "(a :: u32) AND bit_at j \<noteq> 0 \<longleftrightarrow> j < 32 \<and> bit a j"
proof
  assume "a AND bit_at j \<noteq> 0"
  then obtain i where "bit (a AND bit_at j) i" by (auto simp: bit_eq_iff)
  then show "j < 32 \<and> bit a j" by (auto simp: bit_and_iff)
next
  assume "j < 32 \<and> bit a j"
  then have "bit (a AND bit_at j) j" by (auto simp: bit_and_iff )
  then show "a AND bit_at j \<noteq> 0" by auto
qed

lemma multmodp_loop_mul:
  "j < 32 \<Longrightarrow> multmodp_loop a b (bit_at j) p = p XOR crc32_mul a j b"
proof (induction j arbitrary: b p)
  case 0
  have "bit_at 0 \<noteq> 0" "drop_bit 1 (bit_at 0) = 0" by (simp_all add: bit_at_def)
  with and_bit_at [of a 0] show ?case
    by (subst multmodp_loop.simps) (simp add: multmodp_loop.simps [of a _ 0])
next
  case (Suc j)
  have "bit_at (Suc j) \<noteq> 0" using and_bit_at [of "- 1" "Suc j"] Suc.prems by auto
  moreover have "drop_bit 1 (bit_at (Suc j)) = bit_at j"
    using Suc.prems
    by (intro bit_word_eqI) (auto simp: bit_drop_bit_eq)
  moreover have "a AND bit_at (Suc j) \<noteq> 0 \<longleftrightarrow> bit a (Suc j)"
    using and_bit_at [of a "Suc j"] Suc.prems by simp
  ultimately show ?case
    using Suc.IH [of "crc32_shift b"] Suc.prems
    by (subst multmodp_loop.simps) (simp add: xor.assoc)
qed

lemma multmodp_mul: "multmodp a b = crc32_mul a 31 b"
  unfolding multmodp_def bit_at_def [symmetric] by (simp add: multmodp_loop_mul)

lemma crc32_mul_xor: "crc32_mul a j (x XOR y) = crc32_mul a j x XOR crc32_mul a j y"
  by (induction j arbitrary: x y)
    (simp_all add: crc32_shift_xor xor.assoc xor.commute xor.left_commute)

lemma crc32_mul_shift: "crc32_mul a j (crc32_shift x) = crc32_shift (crc32_mul a j x)"
proof (induction j arbitrary: x)
  case 0
  show ?case by (simp add: crc32_shift_def)
next
  case (Suc j)
  have "crc32_shift 0 = 0" by (simp add: crc32_shift_def)
  with Suc show ?case by (simp add: crc32_shift_xor)
qed

lemma crc32_mul_shifts:
  "crc32_mul a j ((crc32_shift ^^ n) x) = (crc32_shift ^^ n) (crc32_mul a j x)"
  by (induction n) (simp_all add: crc32_mul_shift)

text \<open>The unit: bit 31 is \<open>x^0\<close>, and shifting it gives the basis.\<close>

lemma crc32_basis: "j \<le> 31 \<Longrightarrow> (crc32_shift ^^ (31 - j)) (bit_at 31) = bit_at j"
proof -
  assume j: "j \<le> 31"
  have "(crc32_shift ^^ (31 - j)) (bit_at 31) = drop_bit (31 - j) (bit_at 31)"
    by (rule crc32_shifts_drop) auto
  also have "\<dots> = bit_at j"
    using j by (intro bit_word_eqI) (auto simp: bit_drop_bit_eq)
  finally show ?thesis .
qed

lemma crc32_mul_unit: "j \<le> 31 \<Longrightarrow> crc32_mul a j (bit_at j) = take_bit (Suc j) a"
proof (induction j)
  case 0
  show ?case by (rule bit_word_eqI) (auto simp: bit_take_bit_iff bit_0)
next
  case (Suc j)
  have "crc32_shift (bit_at (Suc j)) = drop_bit 1 (bit_at (Suc j))"
    using crc32_shifts_drop [of 1 "bit_at (Suc j)"] by simp
  also have "\<dots> = bit_at j"
    using Suc.prems by (intro bit_word_eqI) (auto simp: bit_drop_bit_eq)
  finally have "crc32_shift (bit_at (Suc j)) = bit_at j" .
  with Suc have "crc32_mul a (Suc j) (bit_at (Suc j))
      = (if bit a (Suc j) then bit_at (Suc j) else 0) XOR take_bit (Suc j) a"
    by (simp)
  also have "\<dots> = take_bit (Suc (Suc j)) a"
    using Suc.prems
    by (intro bit_word_eqI) (auto simp: bit_xor_iff bit_take_bit_iff
        less_Suc_eq)
  finally show ?case .
qed

lemma multmodp_unit: "multmodp a (bit_at 31) = a"
  using crc32_mul_unit [of 31 a] by (simp add: multmodp_mul take_bit_word_eq_self)

lemma linear_word_eqI:
  fixes f g :: "u32 \<Rightarrow> u32"
  assumes f: "\<And>x y. f (x XOR y) = f x XOR f y" and g: "\<And>x y. g (x XOR y) = g x XOR g y"
    and basis: "\<And>j. j \<le> 31 \<Longrightarrow> f (bit_at j) = g (bit_at j)"
  shows "f b = g b"
proof -
  have zero: "f 0 = g 0" using f [of 0 0] g [of 0 0] by simp
  have "n \<le> 32 \<Longrightarrow> f (take_bit n b) = g (take_bit n b)" for n
  proof (induction n)
    case 0
    then show ?case by (simp add: zero)
  next
    case (Suc n)
    have "take_bit (Suc n) b = take_bit n b XOR (if bit b n then bit_at n else 0)"
      using Suc.prems by (intro bit_word_eqI) (auto simp: bit_xor_iff bit_take_bit_iff
          less_Suc_eq)
    with Suc show ?case by (simp add: f g basis zero del: take_bit_Suc)
  qed
  from this [of 32] show ?thesis by (simp add: take_bit_word_eq_self)
qed

text \<open>Multiplying by \<open>x^n\<close> is \<open>n\<close> shifts.\<close>

lemma multmodp_shifts:
  "multmodp ((crc32_shift ^^ n) (bit_at 31)) b = (crc32_shift ^^ n) b"
proof (rule linear_word_eqI [where b = b])
  let ?p = "(crc32_shift ^^ n) (bit_at 31)"
  fix j :: nat
  assume "j \<le> 31"
  then have e: "bit_at j = (crc32_shift ^^ (31 - j)) (bit_at 31)" by (simp add: crc32_basis)
  have "multmodp ?p (bit_at j) = (crc32_shift ^^ (31 - j)) (multmodp ?p (bit_at 31))"
    unfolding e multmodp_mul by (rule crc32_mul_shifts)
  also have "\<dots> = (crc32_shift ^^ n) (bit_at j)"
    unfolding e multmodp_unit by (simp only: crc32_shifts_add add.commute)
  finally show "multmodp ?p (bit_at j) = (crc32_shift ^^ n) (bit_at j)" .
qed (simp_all add: multmodp_mul crc32_mul_xor crc32_shifts_xor)

lemma multmodp_lane: "multmodp X_POW_LANE s = (crc32_shift ^^ (8 * LANE)) s"
  unfolding X_POW_LANE_def bit_at_def [symmetric] by (rule multmodp_shifts)

section \<open>Update\<close>

lemma crc32_bytes_linear:
  "fold crc32_byte xs (x XOR y) = (crc32_shift ^^ (8 * length xs)) x XOR fold crc32_byte xs y"
proof (induction xs arbitrary: x y)
  case (Cons b xs)
  have "crc32_byte b (x XOR y) = (crc32_shift ^^ 8) x XOR crc32_byte b y"
    by (simp add: crc32_byte_def crc32_shifts_xor xor.assoc)
  with Cons.IH show ?case by (simp add: crc32_shifts_add add.commute)
qed simp

lemma crc32_chunks_bytes:
  "(\<And>c. c \<in> set cs \<Longrightarrow> length c = 8) \<Longrightarrow>
   fold (\<lambda>c s. crc32_step8 s c) cs s = fold crc32_byte (concat cs) s"
  by (induction cs arbitrary: s) (simp_all add: crc32_step8_bytes)

lemma crc32_exact_chunks:
  assumes "length xs = k * 8"
  shows "fold (\<lambda>c s. crc32_step8 s c) (fst (as_chunks 8 xs)) s = fold crc32_byte xs s"
  using crc32_chunks_bytes [of "fst (as_chunks 8 xs)" s] as_chunks_lengths [of _ 8 xs]
    as_chunks_concat [of 8 xs]
    as_chunks_exact [OF assms] by simp

lemma fold_zip4:
  assumes "length as = length bs" and "length bs = length cs" and "length cs = length ds"
  shows "fold (\<lambda>(a, b, c, d) (s0, s1, s2, s3). (f s0 a, f s1 b, f s2 c, f s3 d))
      (zip as (zip bs (zip cs ds))) (s0, s1, s2, s3)
    = (fold (\<lambda>c s. f s c) as s0, fold (\<lambda>c s. f s c) bs s1, fold (\<lambda>c s. f s c) cs s2,
       fold (\<lambda>c s. f s c) ds s3)"
  using assms
proof (induction as bs cs ds arbitrary: s0 s1 s2 s3 rule: list_induct4)
  case (Cons a as b bs c cs d ds)
  then show ?case by simp
qed simp

lemma crc32_lanes_bytes:
  assumes "length l0 = LANE" "length l1 = LANE" "length l2 = LANE" "length l3 = LANE"
  shows "crc32_lanes s l0 l1 l2 l3 = (fold crc32_byte l0 s, fold crc32_byte l1 0,
      fold crc32_byte l2 0, fold crc32_byte l3 0)"
proof -
  have k: "length l = 256 * 8" if "length l = LANE" for l :: "byte list"
    using that by (simp add: LANE_def)
  have len: "length (fst (as_chunks 8 l)) = 256" if "length l = LANE" for l :: "byte list"
    using as_chunks_exact [OF k [OF that]] by simp
  show ?thesis
    unfolding crc32_lanes_def
    by (subst fold_zip4) (simp_all only: len assms crc32_exact_chunks [OF k])
qed

lemma crc32_join:
  assumes "length ys = LANE"
  shows "multmodp X_POW_LANE s XOR fold crc32_byte ys 0 = fold crc32_byte ys s"
  using crc32_bytes_linear [of ys s 0] assms by (simp add: multmodp_lane)

lemma crc32_blocks_bytes:
  "crc32_blocks s data = (s', rest) \<Longrightarrow> fold crc32_byte rest s' = fold crc32_byte data s"
proof (induction s data rule: crc32_blocks.induct)
  case (1 s data)
  show ?case
  proof (cases "4 * LANE \<le> length data")
    case False
    with 1(2) show ?thesis by (simp add: crc32_blocks.simps)
  next
    case True
    define l0 l1 l2 l3 where "l0 = take LANE data" and "l1 = take LANE (drop LANE data)"
      and "l2 = take LANE (drop (2 * LANE) data)" and "l3 = take LANE (drop (3 * LANE) data)"
    have len: "length l0 = LANE" "length l1 = LANE" "length l2 = LANE" "length l3 = LANE"
      using True by (simp_all add: l0_def l1_def l2_def l3_def)
    define t where "t = fold crc32_byte l3 (fold crc32_byte l2 (fold crc32_byte l1 (fold crc32_byte l0 s)))"
    have "crc32_blocks s data = crc32_blocks t (drop (4 * LANE) data)"
      using True by (subst crc32_blocks.simps)
        (simp only: if_True Let_def l0_def [symmetric] l1_def [symmetric] l2_def [symmetric]
          l3_def [symmetric] crc32_lanes_bytes [OF len] prod.case crc32_join [OF len(2)]
          crc32_join [OF len(3)] crc32_join [OF len(4)] t_def)
    moreover have "data = l0 @ l1 @ l2 @ l3 @ drop (4 * LANE) data"
    proof -
      have step: "drop m data = take LANE (drop m data) @ drop (m + LANE) data" for m
        using append_take_drop_id [of LANE "drop m data", symmetric]
        by (simp add: add.commute del: append_take_drop_id)
      show ?thesis
        using step [of 0] step [of LANE] step [of "2 * LANE"] step [of "3 * LANE"]
        unfolding l0_def l1_def l2_def l3_def by (simp add: LANE_def)
    qed
    then have "fold crc32_byte data s = fold crc32_byte (drop (4 * LANE) data) t"
      unfolding t_def by (metis fold_append comp_apply)
    ultimately show ?thesis
      using 1 True by (simp add: crc32_lanes_bytes len l0_def [symmetric] l1_def [symmetric]
          l2_def [symmetric] l3_def [symmetric] crc32_join t_def [symmetric])
  qed
qed

lemma crc32_update_bytes: "crc_state (crc32_update c data) = fold crc32_byte data (crc_state c)"
proof -
  obtain s rest where b: "crc32_blocks (crc_state c) data = (s, rest)" by fastforce
  obtain cs r where ch: "as_chunks 8 rest = (cs, r)" by fastforce
  have "fold crc32_tail_byte r (fold (\<lambda>c s. crc32_step8 s c) cs s) = fold crc32_byte (concat cs @ r) s"
    using crc32_chunks_bytes [of cs s] as_chunks_lengths [of _ 8 rest] ch
    by (simp add: crc32_tail_is_byte [abs_def])
  also have "concat cs @ r = rest" using as_chunks_concat [of 8 rest] ch by simp
  finally show ?thesis using b ch crc32_blocks_bytes [OF b] by (simp add: crc32_update_def)
qed

lemma crc32_zero_bytes: "(crc32_byte 0 ^^ n) 0 = 0"
  by (induction n) (simp_all add: crc32_byte_def)

section \<open>Properties\<close>

text \<open>C30. The fast CRC-32 (four lanes of slice-by-8 joined by multiplication modulo the polynomial)
  computes the bit-at-a-time CRC of RFC 1952 on inputs of every length.\<close>

theorem crc32_is_reference:
  "crc32_finalize (crc32_update crc32_new data) = crc32_reference data"
  by (simp add: crc32_finalize_def crc32_update_bytes crc32_reference_def crc32_new_def)

text \<open>Splitting the input over calls of \<open>update\<close> does not change the checksum, from any state.\<close>

theorem crc32_update_split:
  "crc32_update (crc32_update c xs) ys = crc32_update c (xs @ ys)"
proof -
  have "crc_state (crc32_update (crc32_update c xs) ys) = crc_state (crc32_update c (xs @ ys))"
    by (simp add: crc32_update_bytes)
  then show ?thesis by simp
qed

text \<open>A multiplication by \<open>X_POW_LANE\<close> advances a register over \<open>LANE\<close> zero bytes.\<close>

theorem multmodp_advances_lane:
  "multmodp X_POW_LANE s = fold crc32_byte (replicate LANE 0) s"
  using crc32_bytes_linear [of "replicate LANE 0" s 0] multmodp_lane [of s]
  by (simp add: crc32_zero_bytes)

end
