(* ===== verification/Adler32.thy ===== *)
theory Adler32
  imports Slices
begin

text \<open>
  Adler-32 (\<open>src/checksum.rs\<close>): \<open>update\<close> with its 32 parallel lanes, whose \<open>u32\<close> sums are
  reduced once per block of 131072 bytes, against the byte-at-a-time definition of RFC 1950.
  The word arithmetic of the model wraps; the theory shows that it never does.
\<close>

section \<open>The code\<close>

definition ADLER_MOD :: nat where "ADLER_MOD = 65521"
definition ADLER_BLOCK :: nat where "ADLER_BLOCK = 32 * 4096"

record adler32 =
  ad_a :: u32
  ad_b :: u32

definition adler32_new :: adler32 where
  "adler32_new = \<lparr>ad_a = 1, ad_b = 0\<rparr>"

definition adler32_finalize :: "adler32 \<Rightarrow> u32" where
  "adler32_finalize s = push_bit 16 (ad_b s) OR ad_a s"

definition adler32_reset :: "adler32 \<Rightarrow> adler32" where
  "adler32_reset s = adler32_new"

text \<open>\<open>for c in chunks { for i in 0..32 { s[i] += c[i]; t[i] += s[i] } }\<close>\<close>

fun adler32_lanes :: "u32 list \<Rightarrow> u32 list \<Rightarrow> byte list list \<Rightarrow> u32 list \<times> u32 list" where
  "adler32_lanes s t [] = (s, t)"
| "adler32_lanes s t (c # cs) =
     (let s' = map2 (\<lambda>x b. x + ucast b) s c; t' = map2 (+) t s' in adler32_lanes s' t' cs)"

definition adler32_totals :: "u32 list \<Rightarrow> u32 list \<Rightarrow> u64 \<times> u64 \<times> u64" where
  "adler32_totals s t =
     fold (\<lambda>i (sum_s, sum_t, weighted).
         (sum_s + ucast (s ! i), sum_t + ucast (t ! i),
          weighted + word_of_nat i * ucast (s ! i)))
       [0..<32] (0, 0, 0)"

definition adler32_chunks :: "byte list list \<Rightarrow> u32 \<times> u32 \<Rightarrow> u32 \<times> u32" where
  "adler32_chunks chunks = (\<lambda>(a, b).
     if chunks = [] then (a, b)
     else
       let (s, t) = adler32_lanes (replicate 32 0) (replicate 32 0) chunks;
           n = word_of_nat (length chunks * 32) :: u64;
           (sum_s, sum_t, weighted) = adler32_totals s t;
           bb = ucast b + n * ucast a + 32 * sum_t - weighted
       in (ucast ((ucast a + sum_s) mod word_of_nat ADLER_MOD),
           ucast (bb mod word_of_nat ADLER_MOD)))"

definition adler32_tail :: "byte \<Rightarrow> u32 \<times> u32 \<Rightarrow> u32 \<times> u32" where
  "adler32_tail x = (\<lambda>(a, b). let a' = a + ucast x in (a', b + a'))"

definition adler32_block :: "byte list \<Rightarrow> u32 \<times> u32 \<Rightarrow> u32 \<times> u32" where
  "adler32_block block ab =
     (let (chunks, tail) = as_chunks 32 block;
          (a, b) = fold adler32_tail tail (adler32_chunks chunks ab)
      in (a mod word_of_nat ADLER_MOD, b mod word_of_nat ADLER_MOD))"

definition adler32_update :: "adler32 \<Rightarrow> byte list \<Rightarrow> adler32" where
  "adler32_update s data =
     (let (a, b) = fold adler32_block (slice_chunks ADLER_BLOCK data) (ad_a s, ad_b s)
      in \<lparr>ad_a = a, ad_b = b\<rparr>)"

section \<open>The reference\<close>

definition adler_step :: "byte \<Rightarrow> nat \<times> nat \<Rightarrow> nat \<times> nat" where
  "adler_step x = (\<lambda>(a, b).
     let a' = (a + unat x) mod ADLER_MOD in (a', (b + a') mod ADLER_MOD))"

definition adler32_reference :: "byte list \<Rightarrow> nat" where
  "adler32_reference data =
     (case fold adler_step data (1, 0) of (a, b) \<Rightarrow> b * 65536 + a)"

text \<open>The sums before reduction.\<close>

definition adler_raw :: "byte \<Rightarrow> nat \<times> nat \<Rightarrow> nat \<times> nat" where
  "adler_raw x = (\<lambda>(a, b). (a + unat x, b + (a + unat x)))"

definition adler_reduce :: "nat \<times> nat \<Rightarrow> nat \<times> nat" where
  "adler_reduce = (\<lambda>(a, b). (a mod ADLER_MOD, b mod ADLER_MOD))"

lemma adler_step_reduce: "adler_step x (adler_reduce p) = adler_reduce (adler_raw x p)"
proof (cases p)
  case (Pair a b)
  have a: "(a mod ADLER_MOD + unat x) mod ADLER_MOD = (a + unat x) mod ADLER_MOD"
    by (rule mod_add_left_eq)
  show ?thesis
    unfolding Pair adler_step_def adler_reduce_def adler_raw_def Let_def prod.case a mod_add_eq ..
qed

lemma adler_reference_raw:
  "fold adler_step xs (adler_reduce p) = adler_reduce (fold adler_raw xs p)"
  by (induction xs arbitrary: p) (simp_all add: adler_step_reduce)

section \<open>Lanes on natural numbers\<close>

fun nat_lanes :: "nat list \<Rightarrow> nat list \<Rightarrow> nat list list \<Rightarrow> nat list \<times> nat list" where
  "nat_lanes s t [] = (s, t)"
| "nat_lanes s t (c # cs) =
     (let s' = map2 (+) s c; t' = map2 (+) t s' in nat_lanes s' t' cs)"

lemma adler32_lanes_nat:
  "adler32_lanes (map word_of_nat s) (map word_of_nat t) cs =
     (case nat_lanes s t (map (map unat) cs) of
        (s', t') \<Rightarrow> (map word_of_nat s', map word_of_nat t'))"
proof (induction cs arbitrary: s t)
  case (Cons c cs)
  have "map2 (\<lambda>x b. x + ucast b) (map word_of_nat s) c
      = (map word_of_nat (map2 (+) s (map unat c)) :: u32 list)"
    by (rule nth_equalityI) (simp_all add: unsigned_ucast_eq)
  moreover have "map2 (+) (map word_of_nat t) (map word_of_nat u)
      = (map word_of_nat (map2 (+) t u) :: u32 list)" for u
    by (rule nth_equalityI) simp_all
  ultimately have "adler32_lanes (map word_of_nat s) (map word_of_nat t) (c # cs)
      = adler32_lanes (map word_of_nat (map2 (+) s (map unat c)))
          (map word_of_nat (map2 (+) t (map2 (+) s (map unat c)))) cs"
    by (simp only: adler32_lanes.simps Let_def)
  then show ?case by (simp only: Cons.IH nat_lanes.simps list.map Let_def)
qed simp

lemma nat_lanes_bounds:
  "nat_lanes s t cs = (s', t') \<Longrightarrow> length s = 32 \<Longrightarrow> length t = 32 \<Longrightarrow>
   (\<And>c. c \<in> set cs \<Longrightarrow> length c = 32 \<and> (\<forall>x \<in> set c. x \<le> 255)) \<Longrightarrow>
   (\<And>i. i < 32 \<Longrightarrow> s ! i \<le> 255 * p \<and> 2 * t ! i \<le> 255 * (p * (p + 1))) \<Longrightarrow>
   length s' = 32 \<and> length t' = 32 \<and>
   (\<forall>i<32. s' ! i \<le> 255 * (p + length cs)
      \<and> 2 * t' ! i \<le> 255 * ((p + length cs) * (p + length cs + 1)))"
proof (induction cs arbitrary: s t p)
  case (Cons c cs)
  let ?s = "map2 (+) s c" and ?t = "map2 (+) t (map2 (+) s c)"
  have c: "length c = 32" "\<forall>x \<in> set c. x \<le> 255" using Cons.prems(4) [of c] by simp_all
  have "?s ! i \<le> 255 * Suc p \<and> 2 * ?t ! i \<le> 255 * (Suc p * (Suc p + 1))" if "i < 32" for i
  proof -
    have "c ! i \<le> 255" using c that by simp
    with Cons.prems(5) [OF that] Cons.prems(2,3) c(1) that show ?thesis
      by (simp add: algebra_simps)
  qed
  moreover have "nat_lanes ?s ?t cs = (s', t')" "length ?s = 32" "length ?t = 32"
    using Cons.prems(1-3) c(1) by (simp_all add: Let_def)
  moreover have "\<And>c. c \<in> set cs \<Longrightarrow> length c = 32 \<and> (\<forall>x \<in> set c. x \<le> 255)"
    by (rule Cons.prems(4)) simp
  ultimately have "length s' = 32 \<and> length t' = 32 \<and>
   (\<forall>i<32. s' ! i \<le> 255 * (Suc p + length cs)
      \<and> 2 * t' ! i \<le> 255 * ((Suc p + length cs) * (Suc p + length cs + 1)))"
    by (intro Cons.IH [of ?s ?t "Suc p"]) blast+
  then show ?case by simp
qed simp

text \<open>Weights \<open>i\<close> for the entry at position \<open>i\<close>.\<close>

fun weigh :: "nat \<Rightarrow> nat list \<Rightarrow> nat" where
  "weigh k [] = 0"
| "weigh k (x # xs) = k * x + weigh (Suc k) xs"

lemma weigh_Suc: "weigh (Suc k) xs = weigh k xs + sum_list xs"
  by (induction xs arbitrary: k) simp_all

lemma weigh_add: "length xs = length ys \<Longrightarrow> weigh k (map2 (+) xs ys) = weigh k xs + weigh k ys"
  by (induction xs ys arbitrary: k rule: list_induct2) (simp_all add: algebra_simps)

lemma sum_list_add: "length xs = length ys \<Longrightarrow>
    sum_list (map2 (+) xs ys) = sum_list xs + (sum_list ys :: nat)"
  by (induction xs ys rule: list_induct2) simp_all

lemma weigh_bound: "weigh k xs \<le> (k + length xs) * sum_list xs"
proof (induction xs arbitrary: k)
  case (Cons x xs)
  have "k * x + weigh (Suc k) xs \<le> k * x + (Suc k + length xs) * sum_list xs"
    using Cons.IH [of "Suc k"] by simp
  also have "\<dots> \<le> (k + length (x # xs)) * sum_list (x # xs)" by (simp add: algebra_simps)
  finally show ?case by simp
qed simp

lemma adler_raw_run:
  "fold adler_raw xs (a, b) =
     (a + sum_list (map unat xs),
      b + length xs * a + (length xs * sum_list (map unat xs) - weigh 0 (map unat xs)))"
proof (induction xs arbitrary: a b)
  case (Cons x xs)
  have "weigh 0 (map unat xs) \<le> length xs * sum_list (map unat xs)"
    using weigh_bound [of 0 "map unat xs"] by simp
  then have "Suc (length xs) * (unat x + sum_list (map unat xs))
        - (weigh 0 (map unat xs) + sum_list (map unat xs))
      = Suc (length xs) * unat x + (length xs * sum_list (map unat xs) - weigh 0 (map unat xs))"
    by (simp add: algebra_simps)
  with Cons.IH [of "a + unat x" "b + (a + unat x)"] show ?case
    by (simp add: adler_raw_def weigh_Suc algebra_simps)
qed simp

lemma adler_raw_run_int:
  "fold adler_raw xs (a, b) = (a', b') \<Longrightarrow>
   a' = a + sum_list (map unat xs) \<and>
   int b' = int b + int (length xs) * int a + int (length xs) * int (sum_list (map unat xs))
     - int (weigh 0 (map unat xs))"
  using weigh_bound [of 0 "map unat xs"] by (auto simp: adler_raw_run of_nat_diff)

text \<open>What the lanes hold amounts to the byte-at-a-time sums.\<close>

lemma nat_lanes_run:
  assumes "nat_lanes s t (map (map unat) cs) = (s', t')" and "length s = 32" and "length t = 32"
    and "\<And>c. c \<in> set cs \<Longrightarrow> length c = 32"
    and "fold adler_raw (concat cs) (a + sum_list s, b) = (a', b')"
  shows "a' = a + sum_list s' \<and>
    int b' = int b + 32 * int (length cs) * int a
      + (32 * int (sum_list t') - int (weigh 0 s')) - (32 * int (sum_list t) - int (weigh 0 s))"
  using assms
proof (induction cs arbitrary: s t b)
  case Nil
  then show ?case by simp
next
  case (Cons c cs)
  let ?c = "map unat c"
  let ?s = "map2 (+) s ?c" and ?t = "map2 (+) t (map2 (+) s ?c)"
  have c: "length c = 32" using Cons.prems(4) by simp
  obtain a1 b1 where one: "fold adler_raw c (a + sum_list s, b) = (a1, b1)" by fastforce
  note eqs = adler_raw_run_int [OF one]
  have sums: "sum_list ?s = sum_list s + sum_list ?c" "sum_list ?t = sum_list t + sum_list ?s"
    "weigh 0 ?s = weigh 0 s + weigh 0 ?c"
    using c Cons.prems(2,3) by (simp_all add: sum_list_add weigh_add)
  have "a1 = a + sum_list ?s" using eqs sums(1) by simp
  with Cons.prems one have "fold adler_raw (concat cs) (a + sum_list ?s, b1) = (a', b')" by simp
  from Cons.IH [OF _ _ _ _ this, of ?t] Cons.prems c
  have "a' = a + sum_list s' \<and> int b' = int b1 + 32 * int (length cs) * int a
      + (32 * int (sum_list t') - int (weigh 0 s')) - (32 * int (sum_list ?t) - int (weigh 0 ?s))"
    by (simp add: Let_def)
  moreover have "int b1 = int b + 32 * int (a + sum_list s) + 32 * int (sum_list ?c)
      - int (weigh 0 ?c)" using eqs c by simp
  ultimately show ?case unfolding sums by (simp add: algebra_simps)
qed

section \<open>The words do not wrap\<close>

abbreviation of_pair :: "nat \<times> nat \<Rightarrow> u32 \<times> u32" where
  "of_pair p \<equiv> (word_of_nat (fst p), word_of_nat (snd p))"

lemma weigh_append: "weigh k (xs @ [y]) = weigh k xs + (k + length xs) * y"
  by (induction xs arbitrary: k) simp_all

lemma ucast_of_nat_u32:
  assumes "n < 2 ^ 32"
  shows "(ucast (word_of_nat n :: u32) :: u64) = word_of_nat n"
proof -
  have "unat (word_of_nat n :: u32) = n" using assms by (simp add: unat_of_nat)
  then show ?thesis by (metis of_nat_unat)
qed

lemma adler32_totals_nat:
  assumes "length s = 32" and "length t = 32"
    and "\<And>i. i < 32 \<Longrightarrow> s ! i < 2 ^ 32 \<and> t ! i < 2 ^ 32"
  shows "adler32_totals (map word_of_nat s) (map word_of_nat t)
    = (word_of_nat (sum_list s), word_of_nat (sum_list t), word_of_nat (weigh 0 s))"
proof -
  let ?f = "\<lambda>i (sum_s :: u64, sum_t :: u64, weighted :: u64).
      (sum_s + ucast (map word_of_nat s ! i :: u32), sum_t + ucast (map word_of_nat t ! i :: u32),
       weighted + word_of_nat i * ucast (map word_of_nat s ! i :: u32))"
  have "k \<le> 32 \<Longrightarrow> fold ?f [0..<k] (0, 0, 0) = (word_of_nat (sum_list (take k s)),
      word_of_nat (sum_list (take k t)), word_of_nat (weigh 0 (take k s)))" for k
  proof (induction k)
    case (Suc k)
    then have k: "k < 32" by simp
    have "take (Suc k) s = take k s @ [s ! k]" "take (Suc k) t = take k t @ [t ! k]"
      using k assms(1,2) by (simp_all add: take_Suc_conv_app_nth)
    with Suc k assms show ?case by (simp add: ucast_of_nat_u32 weigh_append)
  qed simp
  from this [of 32] assms(1,2) show ?thesis by (simp add: adler32_totals_def)
qed

lemma sum_list_bound: "(\<And>i. i < length xs \<Longrightarrow> xs ! i \<le> m) \<Longrightarrow> sum_list xs \<le> length xs * (m :: nat)"
proof (induction xs)
  case (Cons x xs)
  have "xs ! i \<le> m" if "i < length xs" for i using Cons.prems [of "Suc i"] that by simp
  with Cons.IH Cons.prems [of 0] show ?case by simp
qed simp

lemma word_mod_u64:
  assumes "n < 2 ^ 64"
  shows "ucast ((word_of_nat n :: u64) mod word_of_nat ADLER_MOD) = (word_of_nat (n mod ADLER_MOD) :: u32)"
proof -
  have "unat (word_of_nat n :: u64) = n" using assms by (simp add: unat_of_nat)
  then have "unat ((word_of_nat n :: u64) mod word_of_nat ADLER_MOD) = n mod ADLER_MOD"
    by (simp add: unat_mod ADLER_MOD_def)
  then show ?thesis by (metis of_nat_unat)
qed

lemma word_mod_u32:
  assumes "n < 2 ^ 32"
  shows "(word_of_nat n :: u32) mod word_of_nat ADLER_MOD = word_of_nat (n mod ADLER_MOD)"
proof -
  have "unat (word_of_nat n :: u32) = n" using assms by (simp add: unat_of_nat)
  then have "unat ((word_of_nat n :: u32) mod word_of_nat ADLER_MOD) = n mod ADLER_MOD"
    by (simp add: unat_mod ADLER_MOD_def)
  then show ?thesis by (metis of_nat_unat ucast_id)
qed

lemma adler32_chunks_nat:
  assumes "\<And>c. c \<in> set cs \<Longrightarrow> length c = 32" and "length cs \<le> 4096"
    and "a < ADLER_MOD" and "b < ADLER_MOD"
  shows "adler32_chunks cs (word_of_nat a, word_of_nat b)
    = of_pair (adler_reduce (fold adler_raw (concat cs) (a, b)))"
proof (cases "cs = []")
  case True
  with assms(3,4) show ?thesis by (simp add: adler32_chunks_def adler_reduce_def)
next
  case False
  let ?z = "replicate 32 0 :: nat list"
  obtain s t where st: "nat_lanes ?z ?z (map (map unat) cs) = (s, t)" by fastforce
  obtain a' b' where raw: "fold adler_raw (concat cs) (a, b) = (a', b')" by fastforce
  have lanes: "adler32_lanes (replicate 32 0) (replicate 32 0) cs = (map word_of_nat s, map word_of_nat t)"
    using adler32_lanes_nat [of ?z ?z cs] st by simp
  have bytes: "length c = 32 \<and> (\<forall>x \<in> set c. x \<le> 255)" if "c \<in> set (map (map unat) cs)" for c
  proof -
    from that obtain d where "d \<in> set cs" "c = map unat d" by auto
    moreover have "unat (x :: byte) \<le> 255" for x using unat_byte_less [of x] by linarith
    ultimately show ?thesis using assms(1) by auto
  qed
  have start: "?z ! i \<le> 255 * 0 \<and> 2 * ?z ! i \<le> 255 * (0 * (0 + 1))" if "i < 32" for i
    using that by simp
  from nat_lanes_bounds [OF st _ _ bytes start] have len: "length s = 32" "length t = 32"
    and bounds: "\<And>i. i < 32 \<Longrightarrow> s ! i \<le> 255 * length cs \<and> 2 * t ! i \<le> 255 * (length cs * (length cs + 1))"
    by simp_all
  have "length cs * (length cs + 1) \<le> 4096 * 4097" by (rule mult_mono) (use assms(2) in simp_all)
  then have small: "s ! i \<le> 1044480 \<and> t ! i \<le> 2139617280" if "i < 32" for i
    using bounds [OF that] assms(2) by linarith
  then have "s ! i < 2 ^ 32 \<and> t ! i < 2 ^ 32" if "i < 32" for i using that by fastforce
  note totals = adler32_totals_nat [OF len this]
  have raw0: "fold adler_raw (concat cs) (a + sum_list ?z, b) = (a', b')"
    using raw by (simp add: sum_list_replicate)
  have w0: "weigh 0 ?z = 0" using weigh_bound [of 0 ?z]
    by (simp add: sum_list_replicate)
  from nat_lanes_run [OF st _ _ assms(1) raw0] w0 have
    eq: "a' = a + sum_list s" "int b' = int b + 32 * int (length cs) * int a
      + (32 * int (sum_list t) - int (weigh 0 s))" by simp_all
  have "sum_list s \<le> 32 * 1044480" "sum_list t \<le> 32 * 2139617280"
    using sum_list_bound [of s 1044480] sum_list_bound [of t 2139617280] small len by simp_all
  moreover have "length cs * 32 * a \<le> 131072 * 65521"
    by (rule mult_mono) (use assms(2,3) in \<open>simp_all add: ADLER_MOD_def\<close>)
  ultimately have "a' < 18446744073709551616"
    "b + length cs * 32 * a + 32 * sum_list t < 18446744073709551616"
    using eq(1) assms(3,4) unfolding ADLER_MOD_def by linarith+
  then have big: "a' < 2 ^ 64" "b + length cs * 32 * a + 32 * sum_list t < 2 ^ 64" by simp_all
  have b': "b' + weigh 0 s = b + length cs * 32 * a + 32 * sum_list t"
  proof -
    have "int (b' + weigh 0 s) = int (b + length cs * 32 * a + 32 * sum_list t)"
      using eq(2) by (simp add: algebra_simps)
    then show ?thesis by (simp only: of_nat_eq_iff)
  qed
  have "(word_of_nat b + word_of_nat (length cs * 32) * word_of_nat a + 32 * word_of_nat (sum_list t)
      - word_of_nat (weigh 0 s) :: u64) = word_of_nat (b' + weigh 0 s) - word_of_nat (weigh 0 s)"
    unfolding b' by simp
  then have bb: "(word_of_nat b + word_of_nat (length cs * 32) * word_of_nat a
      + 32 * word_of_nat (sum_list t) - word_of_nat (weigh 0 s) :: u64) = word_of_nat b'" by simp
  have "a < 2 ^ 32" "b < 2 ^ 32" using assms(3,4) by (simp_all add: ADLER_MOD_def)
  note casts = ucast_of_nat_u32 [OF this(1)] ucast_of_nat_u32 [OF this(2)]
  have aa: "(word_of_nat a + word_of_nat (sum_list s) :: u64) = word_of_nat a'" using eq(1) by simp
  have "b' < 2 ^ 64" using b' big(2) by linarith
  with False big(1) show ?thesis
    by (simp add: adler32_chunks_def lanes totals casts Let_def bb aa word_mod_u64 raw
        adler_reduce_def del: of_nat_add of_nat_mult)
qed

lemma adler32_tail_nat:
  "fold adler32_tail xs (of_pair p) = of_pair (fold adler_raw xs p)"
proof (induction xs arbitrary: p)
  case (Cons x xs)
  have "adler32_tail x (of_pair p) = of_pair (adler_raw x p)"
    by (cases p) (simp add: adler32_tail_def adler_raw_def Let_def)
  with Cons.IH show ?case by simp
qed simp

lemma adler_reduce_less: "fst (adler_reduce p) < ADLER_MOD" "snd (adler_reduce p) < ADLER_MOD"
  by (simp_all add: adler_reduce_def ADLER_MOD_def split_beta)

lemma adler_tail_small:
  assumes "fold adler_raw xs (a, b) = (a', b')" and "length xs < 32"
    and "a < ADLER_MOD" and "b < ADLER_MOD"
  shows "a' < 2 ^ 32" and "b' < 2 ^ 32"
proof -
  let ?s = "sum_list (map unat xs)"
  have byte: "unat (x :: byte) \<le> 255" for x using unat_byte_less [of x] by linarith
  have "?s \<le> length xs * 255"
    using sum_list_bound [of "map unat xs" 255] byte by simp
  with assms(2) have s: "?s \<le> 7905" by linarith
  have eq: "a' = a + ?s" "b' = b + length xs * a + (length xs * ?s - weigh 0 (map unat xs))"
    using assms(1) by (simp_all add: adler_raw_run)
  have "length xs * ?s \<le> 31 * 7905" "length xs * a \<le> 31 * 65521"
    using assms(2,3) s by (intro mult_mono; simp add: ADLER_MOD_def)+
  then have "a' < 4294967296" "b' < 4294967296"
    using eq s assms(3,4) unfolding ADLER_MOD_def by linarith+
  then show "a' < 2 ^ 32" and "b' < 2 ^ 32" by simp_all
qed

lemma adler32_block_nat:
  assumes "length block \<le> ADLER_BLOCK" and "a < ADLER_MOD" and "b < ADLER_MOD"
  shows "adler32_block block (of_pair (a, b)) = of_pair (fold adler_step block (a, b))"
proof -
  obtain cs r where ch: "as_chunks 32 block = (cs, r)" by fastforce
  have cat: "concat cs @ r = block" using as_chunks_concat [of 32 block] ch by simp
  have r: "length r < 32" using as_chunks_rest [of 32 block] ch by simp
  have lens: "length c = 32" if "c \<in> set cs" for c using as_chunks_lengths [of c 32 block] ch that by simp
  have count: "length cs \<le> 4096"
    using as_chunks_count [of 32 block] ch assms(1) by (simp add: ADLER_BLOCK_def)
  define p where "p = adler_reduce (fold adler_raw (concat cs) (a, b))"
  obtain a' b' where tail: "fold adler_raw r p = (a', b')" by fastforce
  have "fold adler_raw r (fst p, snd p) = (a', b')" using tail by simp
  note small = adler_tail_small [OF this r, unfolded p_def, OF adler_reduce_less]
  have chunks: "adler32_chunks cs (of_pair (a, b)) = of_pair p"
    using adler32_chunks_nat [OF lens count assms(2,3)] by (simp add: p_def)
  have "adler32_block block (of_pair (a, b)) = of_pair (adler_reduce (a', b'))"
    using chunks adler32_tail_nat [of r p] tail small
    by (simp add: adler32_block_def ch word_mod_u32 adler_reduce_def)
  also have "adler_reduce (a', b') = fold adler_step r p"
    using adler_reference_raw [of r p] tail by (simp add: p_def adler_reduce_def split_beta)
  also have "p = fold adler_step (concat cs) (a, b)"
    using adler_reference_raw [of "concat cs" "(a, b)"] assms(2,3)
    by (simp add: p_def adler_reduce_def)
  finally show ?thesis using cat by (metis fold_append comp_apply)
qed

lemma adler_step_less:
  "fst p < ADLER_MOD \<Longrightarrow> snd p < ADLER_MOD \<Longrightarrow>
   fst (fold adler_step xs p) < ADLER_MOD \<and> snd (fold adler_step xs p) < ADLER_MOD"
proof (induction xs arbitrary: p)
  case (Cons x xs)
  have "fst (adler_step x p) < ADLER_MOD" "snd (adler_step x p) < ADLER_MOD"
    by (simp_all add: adler_step_def split_beta ADLER_MOD_def Let_def)
  with Cons.IH show ?case by simp
qed simp

lemma adler32_blocks_nat:
  assumes "\<And>c. c \<in> set blocks \<Longrightarrow> length c \<le> ADLER_BLOCK"
    and "fst p < ADLER_MOD" and "snd p < ADLER_MOD"
  shows "fold adler32_block blocks (of_pair p) = of_pair (fold adler_step (concat blocks) p)"
  using assms
proof (induction blocks arbitrary: p)
  case (Cons c blocks)
  have "adler32_block c (of_pair (fst p, snd p)) = of_pair (fold adler_step c (fst p, snd p))"
    by (rule adler32_block_nat) (use Cons.prems in simp_all)
  with Cons.IH [of "fold adler_step c p"] adler_step_less [of p c] Cons.prems show ?case by simp
qed simp

text \<open>The states the code reaches: both sums reduced.\<close>

definition adler32_ok :: "adler32 \<Rightarrow> bool" where
  "adler32_ok s \<longleftrightarrow> unat (ad_a s) < ADLER_MOD \<and> unat (ad_b s) < ADLER_MOD"

definition adler32_pair :: "adler32 \<Rightarrow> nat \<times> nat" where
  "adler32_pair s = (unat (ad_a s), unat (ad_b s))"

lemma adler32_new_ok [simp]: "adler32_ok adler32_new"
  by (simp add: adler32_ok_def adler32_new_def ADLER_MOD_def)

lemma adler32_update_nat:
  assumes "adler32_ok s"
  shows "adler32_ok (adler32_update s data)
    \<and> adler32_pair (adler32_update s data) = fold adler_step data (adler32_pair s)"
proof -
  let ?p = "adler32_pair s" and ?bs = "slice_chunks ADLER_BLOCK data"
  let ?q = "fold adler_step data ?p"
  have p: "fst ?p < ADLER_MOD" "snd ?p < ADLER_MOD" "of_pair ?p = (ad_a s, ad_b s)"
    using assms by (simp_all add: adler32_ok_def adler32_pair_def)
  have "concat ?bs = data" by (rule slice_chunks_concat) (simp add: ADLER_BLOCK_def)
  with adler32_blocks_nat [of ?bs ?p] slice_chunks_lengths [of _ ADLER_BLOCK data] p
  have "fold adler32_block ?bs (ad_a s, ad_b s) = of_pair ?q" by simp
  moreover have q: "fst ?q < ADLER_MOD" "snd ?q < ADLER_MOD"
    using adler_step_less [OF p(1,2)] by simp_all
  then have "unat (word_of_nat (fst ?q) :: u32) = fst ?q" "unat (word_of_nat (snd ?q) :: u32) = snd ?q"
    by (simp_all add: unat_of_nat ADLER_MOD_def)
  ultimately show ?thesis using q
    by (simp add: adler32_update_def adler32_ok_def adler32_pair_def)
qed

lemma adler32_finalize_nat:
  assumes "adler32_ok s"
  shows "unat (adler32_finalize s) = unat (ad_b s) * 65536 + unat (ad_a s)"
proof -
  have a: "unat (ad_a s) < 65536" and b: "unat (ad_b s) < 65536"
    using assms by (simp_all add: adler32_ok_def ADLER_MOD_def)
  have "ad_a s = take_bit 16 (ad_a s)"
    by (rule word_unat_eq_iff [THEN iffD2]) (use a in \<open>simp add: take_bit_eq_mod unat_mod\<close>)
  then have "push_bit 16 (ad_b s) AND ad_a s = push_bit 16 (ad_b s) AND take_bit 16 (ad_a s)" by simp
  also have "\<dots> = 0"
    by (rule bit_word_eqI) (auto simp: bit_and_iff bit_push_bit_iff bit_take_bit_iff)
  finally have "adler32_finalize s = push_bit 16 (ad_b s) + ad_a s"
    unfolding adler32_finalize_def by (rule disjunctive_add_eq_or [symmetric])
  also have "push_bit 16 (ad_b s) = word_of_nat (unat (ad_b s) * 65536)"
    by (simp add: push_bit_eq_mult)
  also have "\<dots> + ad_a s = word_of_nat (unat (ad_b s) * 65536 + unat (ad_a s))" by simp
  finally have eq: "adler32_finalize s = word_of_nat (unat (ad_b s) * 65536 + unat (ad_a s))" .
  have "unat (ad_b s) * 65536 + unat (ad_a s) < 4294967296" using a b by linarith
  then show ?thesis unfolding eq by (simp add: unat_of_nat del: of_nat_add of_nat_mult)
qed

section \<open>Properties\<close>

text \<open>C31. The blocked, 32-lane Adler-32 in \<open>u32\<close> and \<open>u64\<close> arithmetic computes the
  byte-at-a-time checksum of RFC 1950 over the natural numbers, for inputs of every length: no
  lane, no total and no tail sum wraps.\<close>

theorem adler32_is_reference:
  "unat (adler32_finalize (adler32_update adler32_new data)) = adler32_reference data"
  using adler32_update_nat [OF adler32_new_ok, of data]
    adler32_finalize_nat [of "adler32_update adler32_new data"]
  by (auto simp: adler32_reference_def adler32_pair_def adler32_new_def split: prod.splits)

text \<open>Splitting the input over calls of \<open>update\<close> does not change the state, from any state
  whose sums are reduced; and every state reached is reduced.\<close>

theorem adler32_update_split:
  assumes "adler32_ok s"
  shows "adler32_update (adler32_update s xs) ys = adler32_update s (xs @ ys)
    \<and> adler32_ok (adler32_update s xs)"
proof -
  note one = adler32_update_nat [OF assms, of xs]
  have "adler32_pair (adler32_update (adler32_update s xs) ys) = adler32_pair (adler32_update s (xs @ ys))"
    using adler32_update_nat [of "adler32_update s xs" ys] one adler32_update_nat [OF assms, of "xs @ ys"]
    by simp
  with one show ?thesis
    by (auto simp: adler32_pair_def word_unat_eq_iff intro!: adler32.equality)
qed

theorem adler32_update_split_witness:
  "adler32_update (adler32_update adler32_new [1, 2]) [3] = adler32_update adler32_new [1, 2, 3]
    \<and> adler32_ok (adler32_update adler32_new [1, 2])"
  using adler32_update_split [OF adler32_new_ok, of "[1, 2]" "[3]"] by simp

end
