(* ===== verification/MsbBits.thy ===== *)
theory MsbBits
  imports Prelude
begin

text \<open>
  Bit strings written most significant bit first, as the Huffman coders of the crate write
  them: the low \<open>n\<close> bits of a word as a list, the bits of a byte sequence, and the value of a
  bit list.
\<close>

definition msb_bits :: "nat \<Rightarrow> 'a::len word \<Rightarrow> bool list" where
  "msb_bits n w = map (bit w) (rev [0..<n])"

definition byte_bits :: "byte list \<Rightarrow> bool list" where
  "byte_bits xs = concat (map (msb_bits 8) xs)"

definition bits_value :: "bool list \<Rightarrow> nat" where
  "bits_value p = foldl (\<lambda>v b. 2 * v + of_bool b) 0 p"

lemma msb_bits_0 [simp]: "msb_bits 0 w = []"
  by (simp add: msb_bits_def)

lemma msb_bits_Suc: "msb_bits (Suc n) w = bit w n # msb_bits n w"
  by (simp add: msb_bits_def)

lemma length_msb_bits [simp]: "length (msb_bits n w) = n"
  by (simp add: msb_bits_def)

lemma msb_bits_split: "msb_bits (m + n) w = msb_bits m (drop_bit n w) @ msb_bits n w"
  by (induction m) (simp_all add: msb_bits_Suc bit_drop_bit_eq add.commute)

lemma nth_msb_bits: "i < n \<Longrightarrow> msb_bits n w ! i = bit w (n - Suc i)"
  by (simp add: msb_bits_def rev_nth)

lemma msb_bits_cong: "(\<And>i. i < n \<Longrightarrow> bit v i = bit w i) \<Longrightarrow> msb_bits n v = msb_bits n w"
  by (simp add: msb_bits_def)

lemma msb_bits_ucast: "n \<le> LENGTH('b) \<Longrightarrow> msb_bits n (ucast w :: 'b::len word) = msb_bits n w"
  by (auto simp: msb_bits_def bit_ucast_iff)

lemma msb_bits_push_or:
  assumes "m + n \<le> LENGTH('a)" and "\<And>i. n \<le> i \<Longrightarrow> \<not> bit c i"
  shows "msb_bits (m + n) (push_bit n w OR c :: 'a::len word) = msb_bits m w @ msb_bits n c"
proof -
  have "msb_bits m (drop_bit n (push_bit n w OR c)) = msb_bits m w"
    using assms by (intro msb_bits_cong) (auto simp: bit_drop_bit_eq bit_or_iff bit_push_bit_iff)
  moreover have "msb_bits n (push_bit n w OR c) = msb_bits n c"
    by (intro msb_bits_cong) (auto simp: bit_or_iff bit_push_bit_iff)
  ultimately show ?thesis by (simp add: msb_bits_split)
qed

lemma msb_bits_mask: "n \<le> LENGTH('a) \<Longrightarrow> msb_bits n (mask n :: 'a::len word) = replicate n True"
  by (rule nth_equalityI) (simp_all add: nth_msb_bits bit_mask_iff)

lemma msb_bits_inject:
  assumes "msb_bits LENGTH('a) v = msb_bits LENGTH('a) (w :: 'a::len word)"
  shows "v = w"
proof (rule bit_word_eqI)
  fix i assume i: "i < LENGTH('a)"
  then have "msb_bits LENGTH('a) v ! (LENGTH('a) - Suc i) = bit v i"
    "msb_bits LENGTH('a) w ! (LENGTH('a) - Suc i) = bit w i"
    by (simp_all add: nth_msb_bits)
  with assms show "bit v i = bit w i" by simp
qed

lemma byte_bits_simps [simp]:
  "byte_bits [] = []" "byte_bits (b # xs) = msb_bits 8 b @ byte_bits xs"
  "byte_bits (xs @ ys) = byte_bits xs @ byte_bits ys"
  by (simp_all add: byte_bits_def)

lemma length_byte_bits [simp]: "length (byte_bits xs) = 8 * length xs"
  by (induction xs) simp_all

lemma byte_bits_inject: "byte_bits xs = byte_bits ys \<Longrightarrow> xs = ys"
proof (induction xs arbitrary: ys)
  case Nil
  then have "length (byte_bits ys) = 0" by simp
  then show ?case by simp
next
  case (Cons b xs)
  from Cons.prems have "length (byte_bits ys) = 8 * Suc (length xs)" by (metis length_Cons length_byte_bits)
  then obtain c zs where ys: "ys = c # zs" by (cases ys) simp_all
  with Cons.prems have "msb_bits LENGTH(8) b = msb_bits LENGTH(8) c" "byte_bits xs = byte_bits zs"
    by simp_all
  with Cons.IH ys show ?case by (simp add: msb_bits_inject)
qed

lemma bits_value_simps [simp]:
  "bits_value [] = 0" "bits_value (p @ [b]) = 2 * bits_value p + of_bool b"
  by (simp_all add: bits_value_def)

lemma bits_value_less: "bits_value p < 2 ^ length p"
  by (induction p rule: rev_induct) (auto simp: of_bool_def)

lemma bits_value_inject:
  "length p = length q \<Longrightarrow> bits_value p = bits_value q \<Longrightarrow> p = q"
proof (induction p arbitrary: q rule: rev_induct)
  case Nil
  then show ?case by simp
next
  case (snoc b p)
  then obtain c r where q: "q = r @ [c]" by (cases q rule: rev_cases) simp_all
  with snoc.prems have "2 * bits_value p + of_bool b = 2 * bits_value r + of_bool c" by simp
  then have "b = c \<and> bits_value p = bits_value r"
    by (cases b; cases c; simp; presburger)
  with snoc.IH [of r] snoc.prems q show ?case by simp
qed

lemma bits_value_Cons: "bits_value (b # p) = of_bool b * 2 ^ length p + bits_value p"
proof (induction p rule: rev_induct)
  case Nil
  then show ?case using bits_value_simps(2) [of "[]" b] by simp
next
  case (snoc c p)
  have "bits_value (b # p @ [c]) = 2 * bits_value (b # p) + of_bool c"
    using bits_value_simps(2) [of "b # p" c] by simp
  with snoc.IH show ?case by simp
qed

lemma bits_value_msb_bits: "bits_value (msb_bits n w) = unat (take_bit n w)"
proof (induction n)
  case (Suc n)
  have "bits_value (msb_bits (Suc n) w) = of_bool (bit w n) * 2 ^ n + take_bit n (unat w)"
    using Suc by (simp add: msb_bits_Suc bits_value_Cons unsigned_take_bit_eq)
  also have "bit w n = bit (unat w) n" using bit_imp_le_length [of w n] by (auto simp: bit_unsigned_iff)
  also have "of_bool (bit (unat w) n) * 2 ^ n + take_bit n (unat w) = take_bit (Suc n) (unat w)"
    unfolding take_bit_Suc_from_most by (simp only: mult.commute)
  finally show ?case by (simp only: unsigned_take_bit_eq)
qed simp

end
