(* ===== verification/CanonCode.thy ===== *)
theory CanonCode
  imports MsbBits "HOL-Library.Sublist"
begin

text \<open>
  Complete canonical prefix codes.  A code is a list of bit strings, one per symbol.  The
  locale \<open>canonical_code\<close> states what a canonical code table promises: the codewords of length
  \<open>l\<close> are exactly the \<open>l\<close>-bit numbers from \<open>first l\<close> up to \<open>stop l\<close>, and those of length
  \<open>l + 1\<close> start at \<open>2 * stop l\<close>.  From it follow prefix-freeness, completeness, and that the
  machine that reads one bit at a time decodes every bit string in exactly one way.
\<close>

section \<open>Reading bits\<close>

definition code_symbol :: "bool list list \<Rightarrow> bool list \<Rightarrow> nat option" where
  "code_symbol codes p = map_of (zip codes [0..<length codes]) p"

text \<open>\<open>inner_node codes p\<close>: the bits \<open>p\<close> are a proper prefix of a codeword.\<close>

definition inner_node :: "bool list list \<Rightarrow> bool list \<Rightarrow> bool" where
  "inner_node codes p \<longleftrightarrow> (\<exists>c \<in> set codes. strict_prefix p c)"

fun bit_run :: "bool list list \<Rightarrow> bool list \<Rightarrow> bool list \<Rightarrow> bool list \<times> nat list" where
  "bit_run codes p [] = (p, [])"
| "bit_run codes p (b # bs) =
     (case code_symbol codes (p @ [b]) of
        None \<Rightarrow> bit_run codes (p @ [b]) bs
      | Some s \<Rightarrow> (case bit_run codes [] bs of (q, ss) \<Rightarrow> (q, s # ss)))"

definition codewords :: "bool list list \<Rightarrow> nat list \<Rightarrow> bool list" where
  "codewords codes ss = concat (map (nth codes) ss)"

lemma codewords_simps [simp]:
  "codewords codes [] = []" "codewords codes (s # ss) = codes ! s @ codewords codes ss"
  "codewords codes (ss @ ts) = codewords codes ss @ codewords codes ts"
  by (simp_all add: codewords_def)

lemma code_symbol_Some:
  assumes "distinct codes"
  shows "code_symbol codes p = Some s \<longleftrightarrow> s < length codes \<and> codes ! s = p"
proof
  assume "code_symbol codes p = Some s"
  then have "(p, s) \<in> set (zip codes [0..<length codes])"
    by (simp add: code_symbol_def map_of_SomeD)
  then show "s < length codes \<and> codes ! s = p" by (auto simp: set_zip)
next
  assume "s < length codes \<and> codes ! s = p"
  then have "(p, s) \<in> set (zip codes [0..<length codes])" by (force simp: set_zip)
  with assms show "code_symbol codes p = Some s"
    unfolding code_symbol_def by (intro map_of_is_SomeI) simp_all
qed

lemma code_symbol_None: "code_symbol codes p = None \<longleftrightarrow> p \<notin> set codes"
  using set_map [of fst "zip codes [0..<length codes]"]
  by (simp add: code_symbol_def map_of_eq_None_iff)

lemma bit_run_append:
  "bit_run codes p (as @ bs) =
    (fst (bit_run codes (fst (bit_run codes p as)) bs),
     snd (bit_run codes p as) @ snd (bit_run codes (fst (bit_run codes p as)) bs))"
  by (induction codes p as rule: bit_run.induct) (simp_all split: option.splits prod.splits)

lemma bit_run_sound:
  assumes "distinct codes"
  shows "p @ bs = codewords codes (snd (bit_run codes p bs)) @ fst (bit_run codes p bs)
    \<and> set (snd (bit_run codes p bs)) \<subseteq> {..<length codes}"
proof (induction codes p bs rule: bit_run.induct)
  case (1 codes p)
  then show ?case by simp
next
  case (2 codes p b bs)
  show ?case
  proof (cases "code_symbol codes (p @ [b])")
    case None
    with 2(1) show ?thesis by simp
  next
    case (Some s)
    then have "(p @ [b], s) \<in> set (zip codes [0..<length codes])"
      by (simp add: code_symbol_def map_of_SomeD)
    then have "s < length codes \<and> codes ! s = p @ [b]" by (auto simp: set_zip)
    with 2(2) Some show ?thesis by (cases "bit_run codes [] bs") simp
  qed
qed

section \<open>Canonical codes\<close>

locale canonical_code =
  fixes codes :: "bool list list" and first stop :: "nat \<Rightarrow> nat" and maxlen :: nat
  assumes distinct_codes: "distinct codes"
    and codes_iff: "p \<in> set codes \<longleftrightarrow>
      length p \<le> maxlen \<and> first (length p) \<le> bits_value p \<and> bits_value p < stop (length p)"
    and stop_0: "stop 0 = 0"
    and first_le: "l \<le> maxlen \<Longrightarrow> first l \<le> stop l"
    and first_Suc: "l < maxlen \<Longrightarrow> first (Suc l) = 2 * stop l"
    and stop_max: "stop maxlen = 2 ^ maxlen"
begin

lemma past_stop_inner:
  "length p \<le> maxlen \<Longrightarrow> stop (length p) \<le> bits_value p \<Longrightarrow> inner_node codes p"
proof (induction "maxlen - length p" arbitrary: p)
  case 0
  then have "length p = maxlen" by simp
  with 0(3) bits_value_less [of p] show ?case by (simp add: stop_max)
next
  case (Suc k)
  then have l: "length p < maxlen" by simp
  let ?q = "p @ [True]"
  have ext: "strict_prefix p ?q" by (simp add: strict_prefix_def)
  show ?case
  proof (cases "bits_value ?q < stop (length ?q)")
    case True
    then have "?q \<in> set codes" using l Suc.prems(2) by (simp add: codes_iff first_Suc)
    with ext show ?thesis unfolding inner_node_def by blast
  next
    case False
    have "inner_node codes ?q" using Suc.hyps l False by (intro Suc.hyps(1)) simp_all
    with ext show ?thesis unfolding inner_node_def using prefix_order.less_trans by blast
  qed
qed

lemma before_stop_outside:
  "bits_value p < stop (length p) \<Longrightarrow> r \<noteq> [] \<Longrightarrow> length (p @ r) \<le> maxlen \<Longrightarrow>
   bits_value (p @ r) < first (length (p @ r))"
proof (induction r rule: rev_induct)
  case Nil
  then show ?case by simp
next
  case (snoc b r)
  let ?q = "p @ r"
  have l: "length ?q < maxlen" using snoc.prems(3) by simp
  have "bits_value ?q < stop (length ?q)"
  proof (cases "r = []")
    case True
    with snoc.prems(1) show ?thesis by simp
  next
    case False
    with snoc.IH snoc.prems(1) l have "bits_value ?q < first (length ?q)" by simp
    with first_le [of "length ?q"] l show ?thesis by simp
  qed
  then have "bits_value (?q @ [b]) < 2 * stop (length ?q)"
    unfolding bits_value_simps by (cases b) simp_all
  with first_Suc [OF l] show ?case by simp
qed

lemma inner_iff: "inner_node codes p \<longleftrightarrow> length p \<le> maxlen \<and> stop (length p) \<le> bits_value p"
proof
  assume "inner_node codes p"
  then obtain c where c: "c \<in> set codes" "strict_prefix p c" unfolding inner_node_def by blast
  then obtain r where r: "c = p @ r" "r \<noteq> []"
    unfolding strict_prefix_def prefix_def by blast
  have "\<not> bits_value p < stop (length p)"
    using before_stop_outside [of p r] r c(1) codes_iff [of c] by auto
  with r c(1) codes_iff [of c] show "length p \<le> maxlen \<and> stop (length p) \<le> bits_value p" by auto
qed (simp add: past_stop_inner)

lemma inner_Nil: "inner_node codes []"
  by (simp add: inner_iff stop_0)

lemma code_not_inner: "c \<in> set codes \<Longrightarrow> \<not> inner_node codes c"
  by (simp add: inner_iff codes_iff)

lemma inner_length: "inner_node codes p \<Longrightarrow> length p < maxlen"
  using bits_value_less [of p] stop_max inner_iff [of p] by (cases "length p = maxlen") auto

lemma inner_child: "inner_node codes p \<Longrightarrow> inner_node codes (p @ [b]) \<or> p @ [b] \<in> set codes"
  using inner_length [of p] first_Suc [of "length p"] by (auto simp: inner_iff codes_iff)

lemma inner_prefix: "inner_node codes p \<Longrightarrow> prefix q p \<Longrightarrow> inner_node codes q"
  unfolding inner_node_def using prefix_order.le_less_trans by blast

lemma code_symbol_nth: "s < length codes \<Longrightarrow> code_symbol codes (codes ! s) = Some s"
  by (simp add: code_symbol_Some distinct_codes)

lemma inner_no_symbol: "inner_node codes p \<Longrightarrow> code_symbol codes p = None"
  using code_not_inner code_symbol_None by blast

lemma bit_run_inner: "inner_node codes p \<Longrightarrow> inner_node codes (fst (bit_run codes p bs))"
proof (induction bs arbitrary: p)
  case (Cons b bs)
  show ?case
  proof (cases "code_symbol codes (p @ [b])")
    case None
    with inner_child [OF Cons.prems, of b] have "inner_node codes (p @ [b])"
      by (simp add: code_symbol_None)
    with Cons.IH None show ?thesis by simp
  next
    case (Some s)
    with Cons.IH [OF inner_Nil] show ?thesis by (cases "bit_run codes [] bs") simp
  qed
qed simp

lemma bit_run_rest: "inner_node codes (p @ r) \<Longrightarrow> bit_run codes p r = (p @ r, [])"
proof (induction r arbitrary: p)
  case (Cons b r)
  then have "inner_node codes ((p @ [b]) @ r)" by simp
  moreover have "code_symbol codes (p @ [b]) = None"
    using inner_prefix [OF calculation prefixI [OF refl]] by (rule inner_no_symbol)
  ultimately show ?case using Cons.IH [of "p @ [b]"] by simp
qed simp

lemma bit_run_symbol:
  assumes "s < length codes"
  shows "bit_run codes [] (codes ! s @ bs)
    = (fst (bit_run codes [] bs), s # snd (bit_run codes [] bs))"
proof (cases "codes ! s" rule: rev_cases)
  case Nil
  then have "[] \<in> set codes" using assms nth_mem by metis
  with code_not_inner inner_Nil show ?thesis by blast
next
  case (snoc p b)
  have "inner_node codes p" unfolding inner_node_def
    using assms snoc nth_mem [OF assms]
    by (intro bexI [of _ "codes ! s"]) (simp_all add: strict_prefix_def)
  then have "bit_run codes [] p = (p, [])" using bit_run_rest [of "[]" p] by simp
  moreover have "code_symbol codes (p @ [b]) = Some s"
    using code_symbol_nth [OF assms] by (simp add: snoc)
  ultimately show ?thesis using bit_run_append [of codes "[]" p "b # bs"]
    by (simp add: snoc split: prod.splits)
qed

text \<open>The bit machine inverts coding, whatever proper prefix of a codeword comes last.\<close>

lemma bit_run_codewords:
  assumes "set ss \<subseteq> {..<length codes}" and "inner_node codes q"
  shows "bit_run codes [] (codewords codes ss @ q) = (q, ss)"
  using assms(1)
proof (induction ss)
  case Nil
  with bit_run_rest [of "[]" q] assms(2) show ?case by simp
qed (simp add: bit_run_symbol)

end

end
