(* ===== verification/H2Table.thy ===== *)
theory H2Table
  imports CanonCode
begin

text \<open>
  The Huffman code of HPACK (\<open>CODES\<close> in \<open>src/hpack/huffman.rs\<close>, RFC 7541 Appendix B) and the
  proof that the table is a complete canonical prefix code: one pass over the 257 entries
  checks that the codes of each length are consecutive, as the source's
  \<open>table_is_canonical_and_complete\<close> test does.
\<close>

section \<open>The pass\<close>

fun canon_pass :: "int list \<Rightarrow> (u32 \<times> nat) list \<Rightarrow> int list option" where
  "canon_pass nx [] = Some nx"
| "canon_pass nx ((c, l) # cs) =
     (if l < length nx \<and> uint c = nx ! l then canon_pass (nx[l := nx ! l + 1]) cs else None)"

lemma canon_pass_codes:
  assumes "canon_pass nx cs = Some nx'"
  shows "length nx' = length nx \<and> (\<forall>l < length nx. nx ! l \<le> nx' ! l) \<and> distinct cs
    \<and> (\<forall>c l. (c, l) \<in> set cs \<longrightarrow> l < length nx \<and> nx ! l \<le> uint c \<and> uint c < nx' ! l)
    \<and> (\<forall>l v. l < length nx \<and> nx ! l \<le> v \<and> v < nx' ! l \<longrightarrow> (\<exists>c. (c, l) \<in> set cs \<and> uint c = v))"
  using assms
proof (induction nx cs rule: canon_pass.induct)
  case (1 nx)
  then show ?case by auto
next
  case (2 nx c l cs)
  let ?nx = "nx[l := nx ! l + 1]"
  from 2(2) have l: "l < length nx" and c: "uint c = nx ! l" and p: "canon_pass ?nx cs = Some nx'"
    by (auto split: if_splits)
  from 2(1) [OF conjI [OF l c] p]
  have IH: "length nx' = length nx" "\<And>k. k < length nx \<Longrightarrow> ?nx ! k \<le> nx' ! k" "distinct cs"
    "\<And>d k. (d, k) \<in> set cs \<Longrightarrow> k < length nx \<and> ?nx ! k \<le> uint d \<and> uint d < nx' ! k"
    "\<And>k v. k < length nx \<Longrightarrow> ?nx ! k \<le> v \<Longrightarrow> v < nx' ! k \<Longrightarrow> \<exists>d. (d, k) \<in> set cs \<and> uint d = v"
    by auto
  have nth: "?nx ! k = (if k = l then nx ! l + 1 else nx ! k)" if "k < length nx" for k
    using that l by simp
  have "\<exists>d. (d, k) \<in> set ((c, l) # cs) \<and> uint d = v"
    if "k < length nx" "nx ! k \<le> v" "v < nx' ! k" for k v
  proof (cases "k = l \<and> v = nx ! l")
    case True
    with c show ?thesis by auto
  next
    case False
    with that nth have "?nx ! k \<le> v" by auto
    with IH(5) that show ?thesis by auto
  qed
  moreover have "nx ! k \<le> nx' ! k" if "k < length nx" for k
    using IH(2) [OF that] nth [OF that] by (auto split: if_splits)
  moreover have "(c, l) \<notin> set cs" using IH(4) [of c l] nth [OF l] c by auto
  moreover have "k < length nx \<and> nx ! k \<le> uint d \<and> uint d < nx' ! k"
    if "(d, k) \<in> set ((c, l) # cs)" for d k
  proof (cases "(d, k) = (c, l)")
    case True
    with c l IH(2) [OF l] nth [OF l] show ?thesis by auto
  next
    case False
    with that IH(4) [of d k] nth [of k] show ?thesis by (auto split: if_splits)
  qed
  ultimately show ?case using IH(1,3) by auto
qed

lemma canon_pass_canonical:
  assumes "canon_pass nx cs = Some nx'" and "length nx = Suc m" and "m \<le> 32"
    and "\<And>l. l \<le> m \<Longrightarrow> 0 \<le> nx ! l" and "\<And>l. l \<le> m \<Longrightarrow> nx' ! l \<le> 2 ^ l"
    and "nx' ! 0 = 0" and "\<And>l. l < m \<Longrightarrow> nx ! Suc l = 2 * nx' ! l" and "nx' ! m = 2 ^ m"
  shows "canonical_code (map (\<lambda>(c, l). msb_bits l c) cs) (\<lambda>l. nat (nx ! l)) (\<lambda>l. nat (nx' ! l)) m"
proof -
  from canon_pass_codes [OF assms(1)] assms(2) have P: "\<And>l. l \<le> m \<Longrightarrow> nx ! l \<le> nx' ! l"
    "distinct cs" "\<And>c l. (c, l) \<in> set cs \<Longrightarrow> l \<le> m \<and> nx ! l \<le> uint c \<and> uint c < nx' ! l"
    "\<And>l v. l \<le> m \<Longrightarrow> nx ! l \<le> v \<Longrightarrow> v < nx' ! l \<Longrightarrow> \<exists>c. (c, l) \<in> set cs \<and> uint c = v"
    by (auto simp: less_Suc_eq_le)
  have val: "int (bits_value (msb_bits l c)) = uint c" if "(c, l) \<in> set cs" for c l
  proof -
    have "uint c < 2 ^ l" using P(3) [OF that] assms(5) [of l] by auto
    then have "int (unat c) < int (2 ^ l)" by simp
    then have "unat c < 2 ^ l" by (simp only: of_nat_less_iff)
    then have "unat (take_bit l c) = unat c" unfolding unsigned_take_bit_eq by (rule take_bit_nat_eq_self)
    then show ?thesis by (simp add: bits_value_msb_bits)
  qed
  have inj: "inj_on (\<lambda>(c, l). msb_bits l c) (set cs)"
  proof (rule inj_onI, clarify)
    fix c l d k
    assume cd: "(c, l) \<in> set cs" "(d, k) \<in> set cs" "msb_bits l c = msb_bits k d"
    from val [OF cd(1)] val [OF cd(2)] cd(3) have "uint c = uint d" by simp
    moreover have "l = k" using arg_cong [OF cd(3), of length] by simp
    ultimately show "c = d \<and> l = k" by (simp add: word_uint_eq_iff)
  qed
  show ?thesis
  proof (unfold_locales, goal_cases)
    case 1
    with inj P(2) show ?case by (simp add: distinct_map)
  next
    case (2 p)
    show ?case
    proof
      assume "p \<in> set (map (\<lambda>(c, l). msb_bits l c) cs)"
      then obtain c l where cl: "(c, l) \<in> set cs" "p = msb_bits l c" by auto
      with P(3) [OF cl(1)] val [OF cl(1)] show "length p \<le> m \<and> nat (nx ! length p) \<le> bits_value p
        \<and> bits_value p < nat (nx' ! length p)" by auto
    next
      assume p: "length p \<le> m \<and> nat (nx ! length p) \<le> bits_value p \<and> bits_value p < nat (nx' ! length p)"
      then have "nx ! length p \<le> int (bits_value p)" "int (bits_value p) < nx' ! length p" by auto
      with P(4) [of "length p"] p obtain c
        where c: "(c, length p) \<in> set cs" "uint c = int (bits_value p)" by blast
      with val [OF c(1)] have "bits_value (msb_bits (length p) c) = bits_value p" by simp
      with bits_value_inject have "msb_bits (length p) c = p" by (metis length_msb_bits)
      with c(1) show "p \<in> set (map (\<lambda>(c, l). msb_bits l c) cs)" by force
    qed
  qed (use P(1) assms(6-8) in \<open>simp_all add: nat_mono nat_mult_distrib nat_power_eq\<close>)
qed

section \<open>The table\<close>

definition EOS :: nat where "EOS = 256"

definition CODES :: "(u32 \<times> nat) list" where
  "CODES =
    [(0x1ff8, 13), (0x7fffd8, 23), (0xfffffe2, 28), (0xfffffe3, 28),
     (0xfffffe4, 28), (0xfffffe5, 28), (0xfffffe6, 28), (0xfffffe7, 28),
     (0xfffffe8, 28), (0xffffea, 24), (0x3ffffffc, 30), (0xfffffe9, 28),
     (0xfffffea, 28), (0x3ffffffd, 30), (0xfffffeb, 28), (0xfffffec, 28),
     (0xfffffed, 28), (0xfffffee, 28), (0xfffffef, 28), (0xffffff0, 28),
     (0xffffff1, 28), (0xffffff2, 28), (0x3ffffffe, 30), (0xffffff3, 28),
     (0xffffff4, 28), (0xffffff5, 28), (0xffffff6, 28), (0xffffff7, 28),
     (0xffffff8, 28), (0xffffff9, 28), (0xffffffa, 28), (0xffffffb, 28),
     (0x14, 6), (0x3f8, 10), (0x3f9, 10), (0xffa, 12),
     (0x1ff9, 13), (0x15, 6), (0xf8, 8), (0x7fa, 11),
     (0x3fa, 10), (0x3fb, 10), (0xf9, 8), (0x7fb, 11),
     (0xfa, 8), (0x16, 6), (0x17, 6), (0x18, 6),
     (0x0, 5), (0x1, 5), (0x2, 5), (0x19, 6),
     (0x1a, 6), (0x1b, 6), (0x1c, 6), (0x1d, 6),
     (0x1e, 6), (0x1f, 6), (0x5c, 7), (0xfb, 8),
     (0x7ffc, 15), (0x20, 6), (0xffb, 12), (0x3fc, 10),
     (0x1ffa, 13), (0x21, 6), (0x5d, 7), (0x5e, 7),
     (0x5f, 7), (0x60, 7), (0x61, 7), (0x62, 7),
     (0x63, 7), (0x64, 7), (0x65, 7), (0x66, 7),
     (0x67, 7), (0x68, 7), (0x69, 7), (0x6a, 7),
     (0x6b, 7), (0x6c, 7), (0x6d, 7), (0x6e, 7),
     (0x6f, 7), (0x70, 7), (0x71, 7), (0x72, 7),
     (0xfc, 8), (0x73, 7), (0xfd, 8), (0x1ffb, 13),
     (0x7fff0, 19), (0x1ffc, 13), (0x3ffc, 14), (0x22, 6),
     (0x7ffd, 15), (0x3, 5), (0x23, 6), (0x4, 5),
     (0x24, 6), (0x5, 5), (0x25, 6), (0x26, 6),
     (0x27, 6), (0x6, 5), (0x74, 7), (0x75, 7),
     (0x28, 6), (0x29, 6), (0x2a, 6), (0x7, 5),
     (0x2b, 6), (0x76, 7), (0x2c, 6), (0x8, 5),
     (0x9, 5), (0x2d, 6), (0x77, 7), (0x78, 7),
     (0x79, 7), (0x7a, 7), (0x7b, 7), (0x7ffe, 15),
     (0x7fc, 11), (0x3ffd, 14), (0x1ffd, 13), (0xffffffc, 28),
     (0xfffe6, 20), (0x3fffd2, 22), (0xfffe7, 20), (0xfffe8, 20),
     (0x3fffd3, 22), (0x3fffd4, 22), (0x3fffd5, 22), (0x7fffd9, 23),
     (0x3fffd6, 22), (0x7fffda, 23), (0x7fffdb, 23), (0x7fffdc, 23),
     (0x7fffdd, 23), (0x7fffde, 23), (0xffffeb, 24), (0x7fffdf, 23),
     (0xffffec, 24), (0xffffed, 24), (0x3fffd7, 22), (0x7fffe0, 23),
     (0xffffee, 24), (0x7fffe1, 23), (0x7fffe2, 23), (0x7fffe3, 23),
     (0x7fffe4, 23), (0x1fffdc, 21), (0x3fffd8, 22), (0x7fffe5, 23),
     (0x3fffd9, 22), (0x7fffe6, 23), (0x7fffe7, 23), (0xffffef, 24),
     (0x3fffda, 22), (0x1fffdd, 21), (0xfffe9, 20), (0x3fffdb, 22),
     (0x3fffdc, 22), (0x7fffe8, 23), (0x7fffe9, 23), (0x1fffde, 21),
     (0x7fffea, 23), (0x3fffdd, 22), (0x3fffde, 22), (0xfffff0, 24),
     (0x1fffdf, 21), (0x3fffdf, 22), (0x7fffeb, 23), (0x7fffec, 23),
     (0x1fffe0, 21), (0x1fffe1, 21), (0x3fffe0, 22), (0x1fffe2, 21),
     (0x7fffed, 23), (0x3fffe1, 22), (0x7fffee, 23), (0x7fffef, 23),
     (0xfffea, 20), (0x3fffe2, 22), (0x3fffe3, 22), (0x3fffe4, 22),
     (0x7ffff0, 23), (0x3fffe5, 22), (0x3fffe6, 22), (0x7ffff1, 23),
     (0x3ffffe0, 26), (0x3ffffe1, 26), (0xfffeb, 20), (0x7fff1, 19),
     (0x3fffe7, 22), (0x7ffff2, 23), (0x3fffe8, 22), (0x1ffffec, 25),
     (0x3ffffe2, 26), (0x3ffffe3, 26), (0x3ffffe4, 26), (0x7ffffde, 27),
     (0x7ffffdf, 27), (0x3ffffe5, 26), (0xfffff1, 24), (0x1ffffed, 25),
     (0x7fff2, 19), (0x1fffe3, 21), (0x3ffffe6, 26), (0x7ffffe0, 27),
     (0x7ffffe1, 27), (0x3ffffe7, 26), (0x7ffffe2, 27), (0xfffff2, 24),
     (0x1fffe4, 21), (0x1fffe5, 21), (0x3ffffe8, 26), (0x3ffffe9, 26),
     (0xffffffd, 28), (0x7ffffe3, 27), (0x7ffffe4, 27), (0x7ffffe5, 27),
     (0xfffec, 20), (0xfffff3, 24), (0xfffed, 20), (0x1fffe6, 21),
     (0x3fffe9, 22), (0x1fffe7, 21), (0x1fffe8, 21), (0x7ffff3, 23),
     (0x3fffea, 22), (0x3fffeb, 22), (0x1ffffee, 25), (0x1ffffef, 25),
     (0xfffff4, 24), (0xfffff5, 24), (0x3ffffea, 26), (0x7ffff4, 23),
     (0x3ffffeb, 26), (0x7ffffe6, 27), (0x3ffffec, 26), (0x3ffffed, 26),
     (0x7ffffe7, 27), (0x7ffffe8, 27), (0x7ffffe9, 27), (0x7ffffea, 27),
     (0x7ffffeb, 27), (0xffffffe, 28), (0x7ffffec, 27), (0x7ffffed, 27),
     (0x7ffffee, 27), (0x7ffffef, 27), (0x7fffff0, 27), (0x3ffffee, 26),
     (0x3fffffff, 30)]"

definition h2_codewords :: "bool list list" where
  "h2_codewords = map (\<lambda>(code, len). msb_bits len code) CODES"

definition h2_first :: "int list" where
  "h2_first =
    [0, 0, 0, 0, 0, 0, 20, 92, 248, 508, 1016, 2042, 4090, 8184, 16380, 32764, 65534, 131068,
     262136, 524272, 1048550, 2097116, 4194258, 8388568, 16777194, 33554412, 67108832,
     134217694, 268435426, 536870910, 1073741820]"

definition h2_stop :: "int list" where
  "h2_stop =
    [0, 0, 0, 0, 0, 10, 46, 124, 254, 508, 1021, 2045, 4092, 8190, 16382, 32767, 65534, 131068,
     262136, 524275, 1048558, 2097129, 4194284, 8388597, 16777206, 33554416, 67108847,
     134217713, 268435455, 536870910, 1073741824]"

lemma length_CODES [simp]: "length CODES = 257"
  by (simp add: CODES_def)

lemma length_h2_codewords [simp]: "length h2_codewords = 257"
  by (simp add: h2_codewords_def)

lemma CODES_eos: "CODES ! EOS = (0x3fffffff, 30)"
  by (simp add: CODES_def EOS_def)

lemma CODES_pass: "canon_pass h2_first CODES = Some h2_stop"
  by (simp add: CODES_def h2_first_def h2_stop_def)

lemma h2_bounds:
  "list_all (\<lambda>l. 0 \<le> h2_first ! l \<and> h2_stop ! l \<le> 2 ^ l) [0..<31]"
  "list_all (\<lambda>l. h2_first ! Suc l = 2 * h2_stop ! l) [0..<30]"
  by (simp_all add: h2_first_def h2_stop_def upt_rec)

interpretation h2: canonical_code h2_codewords "\<lambda>l. nat (h2_first ! l)" "\<lambda>l. nat (h2_stop ! l)" 30
  unfolding h2_codewords_def
proof (rule canon_pass_canonical [OF CODES_pass], goal_cases)
  case (3 l)
  with h2_bounds(1) show ?case by (simp add: list_all_iff)
next
  case (4 l)
  with h2_bounds(1) show ?case by (simp add: list_all_iff)
next
  case (6 l)
  with h2_bounds(2) show ?case by (simp add: list_all_iff)
qed (simp_all add: h2_first_def h2_stop_def)

lemma CODES_range:
  assumes "(c, l) \<in> set CODES"
  shows "l \<le> 30 \<and> uint c < 2 ^ l"
proof -
  from canon_pass_codes [OF CODES_pass] assms have "l < length h2_first" and c: "uint c < h2_stop ! l" by blast+
  then have l: "l < 31" by (simp add: h2_first_def)
  with h2_bounds(1) have "h2_stop ! l \<le> 2 ^ l" by (simp add: list_all_iff)
  with c l show ?thesis by simp
qed

end
