(* ===== verification/H2Trie.thy ===== *)
theory H2Trie
  imports H2Table "HOL-Library.While_Combinator"
begin

text \<open>
  The byte automaton of \<open>src/hpack/huffman.rs\<close> (\<open>FastTable::build\<close>): the binary trie of the
  codewords, the padding data of each node, the transitions on a nibble and, composed of two
  of those, on a byte.  Node numbers and \<open>child.len() as u16\<close> are kept modulo \<open>2 ^ 16\<close>; a
  \<open>u8\<close> count or depth is a \<open>nat\<close> (it stays below 31).  The lemmas show that a node is a bit
  string, and that a transition is eight steps of \<open>bit_run\<close>.
\<close>

section \<open>The trie\<close>

type_synonym kids = "nat \<times> nat"
type_synonym trie = "kids list \<times> int list"

definition kid :: "bool \<Rightarrow> kids \<Rightarrow> nat" where
  "kid b c = (if b then snd c else fst c)"

definition set_kid :: "bool \<Rightarrow> nat \<Rightarrow> kids \<Rightarrow> kids" where
  "set_kid b x c = (if b then (fst c, x) else (x, snd c))"

lemma kid_simps [simp]:
  "kid b (0, 0) = 0" "kid b (set_kid b x c) = x" "kid (\<not> b) (set_kid b x c) = kid (\<not> b) c"
  by (simp_all add: kid_def set_kid_def)

text \<open>The loop over the bits of one codeword; \<open>i\<close> bits are left.\<close>

fun h2_insert_bits :: "u32 \<Rightarrow> nat \<Rightarrow> nat \<Rightarrow> trie \<Rightarrow> nat \<times> trie" where
  "h2_insert_bits code 0 node t = (node, t)"
| "h2_insert_bits code (Suc i) node (child, leaf_sym) =
     (let b = bit code i; nxt = kid b (child ! node) in
      if nxt = 0 then
        let new = length child mod 2 ^ 16;
            child1 = child @ [(0, 0)];
            leaf1 = leaf_sym @ [-1];
            child2 = child1[node := set_kid b new (child1 ! node)]
        in h2_insert_bits code i new (child2, leaf1)
      else h2_insert_bits code i nxt (child, leaf_sym))"

fun h2_insert_codes :: "nat \<Rightarrow> (u32 \<times> nat) list \<Rightarrow> trie \<Rightarrow> trie" where
  "h2_insert_codes symb [] t = t"
| "h2_insert_codes symb ((code, len) # cs) t =
     (case h2_insert_bits code len 0 t of
        (node, (child, leaf_sym)) \<Rightarrow>
          h2_insert_codes (Suc symb) cs (child, leaf_sym[node := int symb]))"

definition h2_trie :: trie where
  "h2_trie = h2_insert_codes 0 CODES ([(0, 0)], [-1])"

text \<open>\<open>trie_ok paths child\<close>: node \<open>k\<close> of the trie is the bit string \<open>paths ! k\<close>.\<close>

definition trie_ok :: "bool list list \<Rightarrow> kids list \<Rightarrow> bool" where
  "trie_ok paths child \<longleftrightarrow>
     length paths = length child \<and> distinct paths \<and> paths \<noteq> [] \<and> paths ! 0 = []
     \<and> (\<forall>p b. p @ [b] \<in> set paths \<longrightarrow> p \<in> set paths)
     \<and> (\<forall>k b. k < length child \<longrightarrow>
          (if kid b (child ! k) = 0 then paths ! k @ [b] \<notin> set paths
           else kid b (child ! k) < length child \<and> paths ! kid b (child ! k) = paths ! k @ [b]))"

lemma trie_ok_start: "trie_ok [[]] [(0, 0)]"
  by (auto simp: trie_ok_def)

lemma trie_okI:
  assumes "length paths = length child" and "distinct paths" and "paths \<noteq> []" and "paths ! 0 = []"
    and "\<And>p b. p @ [b] \<in> set paths \<Longrightarrow> p \<in> set paths"
    and "\<And>k b. k < length child \<Longrightarrow>
      if kid b (child ! k) = 0 then paths ! k @ [b] \<notin> set paths
      else kid b (child ! k) < length child \<and> paths ! kid b (child ! k) = paths ! k @ [b]"
  shows "trie_ok paths child"
  unfolding trie_ok_def using assms by blast

lemma trie_okD:
  assumes "trie_ok paths child"
  shows "length paths = length child" "distinct paths" "0 < length child" "paths ! 0 = []"
    "p @ [b] \<in> set paths \<Longrightarrow> p \<in> set paths"
    "k < length child \<Longrightarrow> kid b (child ! k) = 0 \<Longrightarrow> paths ! k @ [b] \<notin> set paths"
    "k < length child \<Longrightarrow> kid b (child ! k) \<noteq> 0 \<Longrightarrow>
       kid b (child ! k) < length child \<and> paths ! kid b (child ! k) = paths ! k @ [b]"
  using assms unfolding trie_ok_def by (auto split: if_splits)

lemma trie_ok_grow:
  assumes "trie_ok paths child" and "k < length child" and "kid b (child ! k) = 0"
  shows "trie_ok (paths @ [paths ! k @ [b]])
    ((child @ [(0, 0)])[k := set_kid b (length child) (child ! k)])" (is "trie_ok ?P ?C")
proof -
  note ok = trie_okD [OF assms(1)]
  let ?q = "paths ! k @ [b]"
  have new: "?q \<notin> set paths" using ok(6) assms(2,3) by blast
  have ext: "p @ [c] \<notin> set paths" if "p = ?q" for p c using new ok(5) [of ?q c] that by blast
  have k: "paths ! k \<in> set paths" using assms(2) ok(1) by simp
  have len: "length ?C = Suc (length child)" by simp
  have kids: "(if kid c (?C ! j) = 0 then ?P ! j @ [c] \<notin> set ?P
         else kid c (?C ! j) < length ?C \<and> ?P ! kid c (?C ! j) = ?P ! j @ [c])"
    if "j < length ?C" for j c
  proof (cases "j = length child")
    case True
    then have "?C ! j = (0, 0)" using assms(2) by (simp add: nth_append nth_list_update)
    moreover have "?P ! j = ?q" using True ok(1) by (simp add: nth_append)
    ultimately show ?thesis using ext [of ?q c] by simp
  next
    case False
    with that have j: "j < length child" by simp
    then have Pj: "?P ! j = paths ! j" using ok(1) by (simp add: nth_append)
    show ?thesis
    proof (cases "j = k \<and> c = b")
      case True
      then have "?C ! j = set_kid b (length child) (child ! k)" using assms(2) by simp
      moreover have "length child \<noteq> 0" using ok(3) by simp
      moreover have "?P ! length child = ?q" using ok(1) by (simp add: nth_append)
      ultimately show ?thesis using True Pj by simp
    next
      case other: False
      have C: "kid c (?C ! j) = kid c (child ! j)"
        using other j by (cases "j = k"; cases b; cases c)
          (simp_all add: nth_append nth_list_update kid_def set_kid_def)
      have ne: "paths ! j @ [c] \<noteq> ?q"
        using other ok(1,2) j assms(2) by (auto simp: nth_eq_iff_index_eq)
      show ?thesis
      proof (cases "kid c (child ! j) = 0")
        case True
        with ok(6) [OF j] C Pj ne show ?thesis by simp
      next
        case False
        with ok(7) [OF j, of c] C Pj ok(1) show ?thesis by (simp add: nth_append less_SucI)
      qed
    qed
  qed
  show ?thesis
  proof (rule trie_okI)
    show "p \<in> set ?P" if "p @ [c] \<in> set ?P" for p c using that ok(5) [of p c] k by auto
    show "?P ! 0 = []" using ok(1,3,4) by (simp add: nth_append)
    show "length ?P = length ?C" "distinct ?P" "?P \<noteq> []" using ok(1,2) new by simp_all
  qed (rule kids)
qed

lemma prefix_snoc_append: "prefix (q @ [b]) (q @ b # r)"
  by (simp add: prefix_def)

lemma insert_bits_ok:
  assumes "trie_ok paths child" and "length leaf = length child" and "node < length child"
    and "length child + i \<le> 2 ^ 16" and "h2_insert_bits code i node (child, leaf) = (node', child', leaf')"
  shows "\<exists>ext. trie_ok (paths @ ext) child' \<and> leaf' = leaf @ replicate (length ext) (- 1)
    \<and> length ext \<le> i \<and> node' < length child' \<and> (paths @ ext) ! node' = paths ! node @ msb_bits i code
    \<and> (\<forall>p \<in> set ext. prefix p (paths ! node @ msb_bits i code))"
  using assms
proof (induction i arbitrary: paths child leaf node)
  case 0
  then show ?case by (intro exI [of _ "[]"]) simp
next
  case (Suc i)
  let ?b = "bit code i"
  note ok = trie_okD [OF Suc.prems(1)]
  show ?case
  proof (cases "kid ?b (child ! node) = 0")
    case True
    let ?q = "paths ! node @ [?b]"
    let ?child = "(child @ [(0, 0)])[node := set_kid ?b (length child) (child ! node)]"
    have grown: "trie_ok (paths @ [?q]) ?child" by (rule trie_ok_grow [OF Suc.prems(1,3) True])
    have at: "(paths @ [?q]) ! length child = ?q" using ok(1) by (simp add: nth_append)
    have "length child mod 2 ^ 16 = length child" using Suc.prems(4) by (intro mod_less) linarith
    then have "h2_insert_bits code i (length child) (?child, leaf @ [- 1]) = (node', child', leaf')"
      using Suc.prems(3,5) True by (simp add: Let_def nth_append)
    from Suc.IH [OF grown _ _ _ this] Suc.prems(2,4) obtain ext where
      "trie_ok ((paths @ [?q]) @ ext) child'" "leaf' = (leaf @ [- 1]) @ replicate (length ext) (- 1)"
      "length ext \<le> i" "node' < length child'"
      "((paths @ [?q]) @ ext) ! node' = ?q @ msb_bits i code"
      "\<forall>p \<in> set ext. prefix p (?q @ msb_bits i code)"
      using at by auto
    then show ?thesis
      by (intro exI [of _ "?q # ext"]) (simp add: msb_bits_Suc prefix_snoc_append)
  next
    case False
    note nx = ok(7) [OF Suc.prems(3) False]
    have "h2_insert_bits code i (kid ?b (child ! node)) (child, leaf) = (node', child', leaf')"
      using Suc.prems(5) False by (simp add: Let_def)
    from Suc.IH [OF Suc.prems(1,2) _ _ this] nx Suc.prems(4) show ?thesis
      by (auto simp: msb_bits_Suc)
  qed
qed

text \<open>\<open>trie_holds cs paths child leaf\<close>: the trie holds the codewords \<open>cs\<close> and nothing else.\<close>

definition trie_holds :: "bool list list \<Rightarrow> bool list list \<Rightarrow> kids list \<Rightarrow> int list \<Rightarrow> bool" where
  "trie_holds cs paths child leaf \<longleftrightarrow>
     trie_ok paths child \<and> length leaf = length child \<and> set cs \<subseteq> set paths
     \<and> (\<forall>p \<in> set paths. p = [] \<or> (\<exists>c \<in> set cs. prefix p c))
     \<and> (\<forall>k < length child. if paths ! k \<in> set cs
          then \<exists>s < length cs. leaf ! k = int s \<and> cs ! s = paths ! k else leaf ! k = - 1)"

lemma trie_holds_insert:
  assumes "trie_holds cs paths child leaf" and "length child + len \<le> 2 ^ 16"
    and "msb_bits len code \<notin> set cs"
    and "h2_insert_bits code len 0 (child, leaf) = (node, child', leaf')"
  shows "\<exists>paths'. trie_holds (cs @ [msb_bits len code]) paths' child' (leaf'[node := int (length cs)])
    \<and> length child' \<le> length child + len"
proof -
  let ?c = "msb_bits len code"
  from assms(1) have H: "trie_ok paths child" "length leaf = length child" "set cs \<subseteq> set paths"
    "\<And>p. p \<in> set paths \<Longrightarrow> p = [] \<or> (\<exists>c \<in> set cs. prefix p c)"
    "\<And>k. k < length child \<Longrightarrow> if paths ! k \<in> set cs
          then \<exists>s < length cs. leaf ! k = int s \<and> cs ! s = paths ! k else leaf ! k = - 1"
    unfolding trie_holds_def by auto
  note ok = trie_okD [OF H(1)]
  from insert_bits_ok [OF H(1,2) ok(3) assms(2,4)] ok(4) obtain ext where
    E: "trie_ok (paths @ ext) child'" "leaf' = leaf @ replicate (length ext) (- 1)"
      "length ext \<le> len" "node < length child'" "(paths @ ext) ! node = ?c"
      "\<And>p. p \<in> set ext \<Longrightarrow> prefix p ?c" by auto
  note ok' = trie_okD [OF E(1)]
  have len: "length child' = length child + length ext" using ok(1) ok'(1) by simp
  have new: "\<exists>s < length (cs @ [?c]). (leaf'[node := int (length cs)]) ! k = int s
      \<and> (cs @ [?c]) ! s = (paths @ ext) ! k" if "(paths @ ext) ! k \<in> set (cs @ [?c])" "k < length child'" for k
  proof (cases "k = node")
    case True
    with E len H(2) that(2) show ?thesis by (intro exI [of _ "length cs"]) simp
  next
    case False
    with ok'(1,2) E(4,5) that(2) have "(paths @ ext) ! k \<noteq> ?c"
      by (metis nth_eq_iff_index_eq)
    with that have cs: "(paths @ ext) ! k \<in> set cs" by simp
    have "k < length paths"
    proof (rule ccontr)
      assume "\<not> k < length paths"
      then have "(paths @ ext) ! k \<in> set ext" using that(2) ok'(1) by (simp add: nth_append)
      with cs H(3) ok'(2) show False by auto
    qed
    with cs H(5) [of k] ok(1) False E(2) H(2) show ?thesis
      by (auto simp: nth_append less_Suc_eq)
  qed
  have old: "(leaf'[node := int (length cs)]) ! k = - 1"
    if "(paths @ ext) ! k \<notin> set (cs @ [?c])" "k < length child'" for k
  proof -
    have "k \<noteq> node" using that E(5) by auto
    with that H(5) [of k] E(2) H(2) ok(1) len show ?thesis by (auto simp: nth_append)
  qed
  have "p = [] \<or> (\<exists>c \<in> set (cs @ [?c]). prefix p c)" if "p \<in> set (paths @ ext)" for p
    using that H(4) [of p] E(6) [of p] by auto
  moreover have "?c \<in> set (paths @ ext)" using E(4,5) ok'(1) by (metis nth_mem)
  ultimately have "trie_holds (cs @ [?c]) (paths @ ext) child' (leaf'[node := int (length cs)])"
    using E(1,2) H(2,3) len new old unfolding trie_holds_def by auto
  then show ?thesis using E(3) len by auto
qed

lemma insert_codes_holds:
  assumes "trie_holds had paths child leaf" and "length child + sum_list (map snd cs) \<le> 2 ^ 16"
    and "distinct (had @ map (\<lambda>(c, l). msb_bits l c) cs)"
    and "h2_insert_codes (length had) cs (child, leaf) = (child', leaf')"
  shows "\<exists>paths'. trie_holds (had @ map (\<lambda>(c, l). msb_bits l c) cs) paths' child' leaf'
    \<and> length child' \<le> length child + sum_list (map snd cs)"
  using assms
proof (induction cs arbitrary: had paths child leaf)
  case Nil
  then show ?case by auto
next
  case (Cons x cs)
  obtain code len where x: "x = (code, len)" by fastforce
  obtain node child1 leaf1 where
    i: "h2_insert_bits code len 0 (child, leaf) = (node, child1, leaf1)" by (metis prod_cases3)
  from trie_holds_insert [OF Cons.prems(1) _ _ i] Cons.prems(2,3) x obtain paths1 where
    1: "trie_holds (had @ [msb_bits len code]) paths1 child1 (leaf1[node := int (length had)])"
      "length child1 \<le> length child + len" by auto
  from Cons.IH [OF 1(1)] Cons.prems(2-4) 1(2) x i obtain paths2 where
    "trie_holds (had @ map (\<lambda>(c, l). msb_bits l c) (x # cs)) paths2 child' leaf'"
    "length child' \<le> length child1 + sum_list (map snd cs)" by auto
  with 1(2) x show ?case by (intro exI [of _ paths2]) simp
qed

text \<open>The trie of the table: 256 bytes and EOS, at most 6,054 nodes.\<close>

lemma h2_trie_holds:
  "\<exists>paths. trie_holds h2_codewords paths (fst h2_trie) (snd h2_trie) \<and> length (fst h2_trie) \<le> 2 ^ 16"
proof -
  have "sum_list (map snd CODES) + 1 \<le> 2 ^ 16" by (simp add: CODES_def)
  moreover have "trie_holds [] [[]] [(0, 0)] [- 1]"
    by (simp add: trie_holds_def trie_ok_start)
  ultimately show ?thesis
    using insert_codes_holds [of "[]" "[[]]" "[(0, 0)]" "[- 1]" CODES "fst h2_trie" "snd h2_trie"]
      h2.distinct_codes
    by (auto simp: h2_trie_def h2_codewords_def)
qed

section \<open>Padding data\<close>

definition h2_pad_kid ::
  "bool \<Rightarrow> kids \<Rightarrow> nat \<times> bool \<Rightarrow> nat list \<times> (nat \<times> bool) list \<Rightarrow> nat list \<times> (nat \<times> bool) list" where
  "h2_pad_kid b kids meta sp =
     (let c = kid b kids in
      if c \<noteq> 0 then (c # fst sp, (snd sp)[c := (fst meta + 1, snd meta \<and> b)]) else sp)"

text \<open>One round of the \<open>while let\<close>; the head of the list is the top of the stack.\<close>

definition h2_pad_step ::
  "kids list \<Rightarrow> nat list \<times> (nat \<times> bool) list \<Rightarrow> nat list \<times> (nat \<times> bool) list" where
  "h2_pad_step child sp =
     (let node = hd (fst sp); pad = snd sp; meta = pad ! node; kids = child ! node in
      h2_pad_kid True kids meta (h2_pad_kid False kids meta (tl (fst sp), pad)))"

definition h2_pad :: "kids list \<Rightarrow> (nat \<times> bool) list" where
  "h2_pad child =
     snd (while (\<lambda>sp. fst sp \<noteq> []) (h2_pad_step child) ([0], replicate (length child) (0, True)))"

definition path_meta :: "bool list \<Rightarrow> nat \<times> bool" where
  "path_meta p = (length p, list_all id p)"

text \<open>\<open>Q\<close>: prefixes whose nodes are still to be visited besides those under the stack.\<close>

definition pad_inv ::
  "bool list list \<Rightarrow> kids list \<Rightarrow> bool list set \<Rightarrow> nat list \<times> (nat \<times> bool) list \<Rightarrow> bool" where
  "pad_inv paths child Q sp \<longleftrightarrow> length (snd sp) = length child \<and> set (fst sp) \<subseteq> {..<length child}
     \<and> (\<forall>j \<in> set (fst sp). snd sp ! j = path_meta (paths ! j))
     \<and> (\<forall>k < length child. snd sp ! k = path_meta (paths ! k)
          \<or> (\<exists>j \<in> set (fst sp). strict_prefix (paths ! j) (paths ! k)) \<or> (\<exists>q \<in> Q. prefix q (paths ! k)))"

lemma trie_ok_prefix: "trie_ok paths child \<Longrightarrow> p @ r \<in> set paths \<Longrightarrow> p \<in> set paths"
proof (induction r rule: rev_induct)
  case (snoc b r)
  with trie_okD(5) [OF snoc(2), of "p @ r" b] show ?case by simp
qed simp

lemma pad_kid_inv:
  assumes "trie_ok paths child" and "node < length child"
    and "pad_inv paths child (insert (paths ! node @ [b]) Q) sp"
  shows "pad_inv paths child Q (h2_pad_kid b (child ! node) (path_meta (paths ! node)) sp)"
proof -
  note ok = trie_okD [OF assms(1)]
  let ?c = "kid b (child ! node)"
  show ?thesis
  proof (cases "?c = 0")
    case True
    have none: "\<not> prefix (paths ! node @ [b]) (paths ! k)" if "k < length child" for k
    proof
      assume "prefix (paths ! node @ [b]) (paths ! k)"
      then obtain r where "paths ! k = (paths ! node @ [b]) @ r" by (elim prefixE)
      with that ok(1) have "(paths ! node @ [b]) @ r \<in> set paths" by (metis nth_mem)
      with trie_ok_prefix [OF assms(1)] ok(6) [OF assms(2) True] show False by blast
    qed
    with assms(3) True show ?thesis unfolding pad_inv_def h2_pad_kid_def by (auto simp: Let_def)
  next
    case False
    note c = ok(7) [OF assms(2) False]
    have meta: "(fst (path_meta (paths ! node)) + 1, snd (path_meta (paths ! node)) \<and> b)
        = path_meta (paths ! ?c)"
      using c by (auto simp: path_meta_def)
    let ?sp = "(?c # fst sp, (snd sp)[?c := path_meta (paths ! ?c)])"
    have "h2_pad_kid b (child ! node) (path_meta (paths ! node)) sp = ?sp"
      using False meta by (simp add: h2_pad_kid_def Let_def)
    moreover have "pad_inv paths child Q ?sp" unfolding pad_inv_def
    proof (intro conjI allI impI)
      fix k assume k: "k < length child"
      have "\<forall>k < length child. snd sp ! k = path_meta (paths ! k)
          \<or> (\<exists>j \<in> set (fst sp). strict_prefix (paths ! j) (paths ! k))
          \<or> prefix (paths ! node @ [b]) (paths ! k) \<or> (\<exists>q \<in> Q. prefix q (paths ! k))"
        using assms(3) by (simp add: pad_inv_def)
      from this [rule_format, OF k] consider "snd sp ! k = path_meta (paths ! k)"
        | "\<exists>j \<in> set (fst sp). strict_prefix (paths ! j) (paths ! k)"
        | "\<exists>q \<in> Q. prefix q (paths ! k)" | "prefix (paths ! node @ [b]) (paths ! k)"
        by (elim disjE)
      then show "snd ?sp ! k = path_meta (paths ! k)
        \<or> (\<exists>j \<in> set (fst ?sp). strict_prefix (paths ! j) (paths ! k)) \<or> (\<exists>q \<in> Q. prefix q (paths ! k))"
      proof cases
        case 4
        with c have "prefix (paths ! ?c) (paths ! k)" by simp
        moreover have "paths ! ?c = paths ! k \<longleftrightarrow> ?c = k"
          by (rule nth_eq_iff_index_eq [OF ok(2)]) (use ok(1) c k in simp_all)
        moreover have "length (snd sp) = length child" using assms(3) by (simp add: pad_inv_def)
        ultimately show ?thesis using c k by (cases "?c = k") (simp_all add: strict_prefix_def)
      qed (use assms(3) c k in \<open>auto simp: pad_inv_def nth_list_update\<close>)
    qed (use assms(3) c in \<open>auto simp: pad_inv_def nth_list_update\<close>)
    ultimately show ?thesis by simp
  qed
qed

lemma pad_step_inv:
  assumes "trie_ok paths child" and "pad_inv paths child {} sp" and "fst sp \<noteq> []"
  shows "pad_inv paths child {} (h2_pad_step child sp)"
proof -
  obtain node st pad where sp: "sp = (node # st, pad)" using assms(3) by (cases sp; cases "fst sp") auto
  from assms(2) have node: "node < length child" and meta: "pad ! node = path_meta (paths ! node)"
    unfolding pad_inv_def sp by auto
  have split: "strict_prefix p q \<Longrightarrow> prefix (p @ [False]) q \<or> prefix (p @ [True]) q" for p q :: "bool list"
  proof (elim strict_prefixE')
    fix z zs assume "q = p @ z # zs"
    then show "prefix (p @ [False]) q \<or> prefix (p @ [True]) q" by (cases z) simp_all
  qed
  have "pad_inv paths child {paths ! node @ [False], paths ! node @ [True]} (st, pad)"
    unfolding pad_inv_def
  proof (intro conjI allI impI)
    fix k assume "k < length child"
    with assms(2) consider "pad ! k = path_meta (paths ! k)"
      | "\<exists>j \<in> set st. strict_prefix (paths ! j) (paths ! k)"
      | "strict_prefix (paths ! node) (paths ! k)" unfolding pad_inv_def sp by auto
    then show "snd (st, pad) ! k = path_meta (paths ! k)
      \<or> (\<exists>j \<in> set (fst (st, pad)). strict_prefix (paths ! j) (paths ! k))
      \<or> (\<exists>q \<in> {paths ! node @ [False], paths ! node @ [True]}. prefix q (paths ! k))"
      using split by cases (simp, simp, blast)
  qed (use assms(2) in \<open>auto simp: pad_inv_def sp\<close>)
  from pad_kid_inv [OF assms(1) node pad_kid_inv [OF assms(1) node this]] show ?thesis
    by (simp add: h2_pad_step_def Let_def sp meta)
qed

lemma h2_pad_correct:
  assumes "trie_ok paths child" and "\<And>p. p \<in> set paths \<Longrightarrow> length p \<le> m" and "k < length child"
  shows "h2_pad child ! k = path_meta (paths ! k)"
proof -
  note ok = trie_okD [OF assms(1)]
  let ?w = "\<lambda>sp :: nat list \<times> (nat \<times> bool) list. \<Sum>j \<leftarrow> fst sp. (3 :: nat) ^ (Suc m - length (paths ! j))"
  have "pad_inv paths child {} (while (\<lambda>sp. fst sp \<noteq> []) (h2_pad_step child)
      ([0], replicate (length child) (0, True)))
    \<and> fst (while (\<lambda>sp. fst sp \<noteq> []) (h2_pad_step child) ([0], replicate (length child) (0, True))) = []"
  proof (rule while_rule [where P = "pad_inv paths child {}" and r = "measure ?w"])
    show "pad_inv paths child {} ([0], replicate (length child) (0, True))"
      using ok(3,4) by (auto simp: pad_inv_def path_meta_def strict_prefix_def)
  next
    fix sp assume sp: "pad_inv paths child {} sp" "fst sp \<noteq> []"
    show "pad_inv paths child {} (h2_pad_step child sp)" by (rule pad_step_inv [OF assms(1) sp])
    show "(h2_pad_step child sp, sp) \<in> measure ?w"
    proof -
      obtain node st pad where s: "sp = (node # st, pad)" using sp(2) by (cases sp; cases "fst sp") auto
      from sp(1) have node: "node < length child" unfolding pad_inv_def s by auto
      define w where "w j = (3 :: nat) ^ (Suc m - length (paths ! j))" for j
      have kid: "w (kid b (child ! node)) * 3 = w node" if "kid b (child ! node) \<noteq> 0" for b
      proof -
        note c = ok(7) [OF node that]
        then have "paths ! node @ [b] \<in> set paths" using ok(1) by (metis nth_mem)
        with assms(2) have "length (paths ! node) < m" by fastforce
        then have "Suc m - length (paths ! node) = Suc (Suc m - length (paths ! kid b (child ! node)))"
          using c by simp
        then show ?thesis by (simp add: w_def)
      qed
      have pos: "0 < w node" by (simp add: w_def)
      have "(\<Sum>j \<leftarrow> fst (h2_pad_step child sp). w j) < (\<Sum>j \<leftarrow> fst sp. w j)"
        using kid [of False] kid [of True] pos
        by (simp add: h2_pad_step_def h2_pad_kid_def Let_def s) linarith
      then show ?thesis by (simp add: w_def)
    qed
  qed (simp_all add: wf_measure)
  with assms(3) show ?thesis unfolding h2_pad_def pad_inv_def by auto
qed

end
