(* ===== verification/H2Huffman.thy ===== *)
theory H2Huffman
  imports H2Trie
begin

text \<open>
  HPACK's string Huffman coding (\<open>src/hpack/huffman.rs\<close>): the transition table, \<open>encode\<close>,
  \<open>encoded_len\<close> and \<open>decode\<close>.  The table-driven decoder is shown to be the bit-by-bit machine
  \<open>bit_run\<close> of the code, and decoding to be the exact inverse of encoding: a string decodes
  if and only if it is the encoding of its plaintext.
\<close>

section \<open>The transition table\<close>

record h2_nib =
  nib_next :: nat
  nib_n :: nat
  nib_eos :: bool
  nib_out :: "byte list"

record h2_trans =
  tr_next :: nat
  tr_n :: nat
  tr_eos :: bool
  tr_out :: "byte list"

record fast_table =
  ft_trans :: "h2_trans list"
  ft_pad :: "(nat \<times> bool) list"

fun h2_nib_loop :: "trie \<Rightarrow> nat \<Rightarrow> nat \<Rightarrow> nat \<Rightarrow> byte list \<Rightarrow> nat \<Rightarrow> bool \<Rightarrow> h2_nib" where
  "h2_nib_loop t half 0 node out n eos =
     \<lparr>nib_next = node mod 2 ^ 16, nib_n = n, nib_eos = eos, nib_out = out\<rparr>"
| "h2_nib_loop t half (Suc i) node out n eos =
     (let node1 = kid (bit half i) (fst t ! node) in
      if 0 \<le> snd t ! node1 then
        let symb = nat (snd t ! node1) in
        if symb = EOS then h2_nib_loop t half i 0 out n True
        else h2_nib_loop t half i 0 (out[n := byte_of symb]) (n + 1) eos
      else h2_nib_loop t half i node1 out n eos)"

definition h2_nibs :: "trie \<Rightarrow> h2_nib list" where
  "h2_nibs t = concat (map (\<lambda>state.
     map (\<lambda>half. h2_nib_loop t half 4 state (replicate 4 0) 0 False) [0..<16])
     [0..<length (fst t)])"

text \<open>\<open>out[k..k + src.len()].copy_from_slice(src)\<close>\<close>

definition copy_at :: "nat \<Rightarrow> byte list \<Rightarrow> byte list \<Rightarrow> byte list" where
  "copy_at k src out = take k out @ src @ drop (k + length src) out"

definition h2_byte_trans :: "h2_nib list \<Rightarrow> nat \<Rightarrow> nat \<Rightarrow> h2_trans" where
  "h2_byte_trans nib state byte =
     (let hi = nib ! (state * 16 + byte div 16);
          lo = nib ! (nib_next hi * 16 + byte mod 16);
          hn = nib_n hi;
          out1 = copy_at 0 (take hn (nib_out hi)) (replicate 8 0);
          ln = nib_n lo;
          out2 = copy_at hn (take ln (nib_out lo)) out1
      in \<lparr>tr_next = nib_next lo, tr_n = hn + ln, tr_eos = (nib_eos hi \<or> nib_eos lo), tr_out = out2\<rparr>)"

definition h2_transitions :: "trie \<Rightarrow> h2_trans list" where
  "h2_transitions t = (let nib = h2_nibs t in
     concat (map (\<lambda>state. map (h2_byte_trans nib state) [0..<256]) [0..<length (fst t)]))"

definition fast_table_build :: fast_table where
  "fast_table_build = (let t = h2_trie in \<lparr>ft_trans = h2_transitions t, ft_pad = h2_pad (fst t)\<rparr>)"

section \<open>Encode and decode\<close>

fun h2_decode_loop :: "h2_trans list \<Rightarrow> byte list \<Rightarrow> nat \<Rightarrow> byte list \<Rightarrow> error + nat \<times> byte list" where
  "h2_decode_loop tbl [] state out = Inr (state, out)"
| "h2_decode_loop tbl (byte # data) state out =
     (let t = tbl ! (state * 256 + unat byte) in
      if tr_eos t then Inl Corrupt
      else h2_decode_loop tbl data (tr_next t) (out @ take (tr_n t) (tr_out t)))"

definition h2_decode :: "byte list \<Rightarrow> error + byte list" where
  "h2_decode data =
     (let table = fast_table_build in
      case h2_decode_loop (ft_trans table) data 0 [] of
        Inl e \<Rightarrow> Inl e
      | Inr (state, out) \<Rightarrow>
          (case ft_pad table ! state of
             (depth, all_ones) \<Rightarrow>
               if 8 \<le> depth \<or> \<not> all_ones then Inl Corrupt else Inr out))"

fun h2_flush :: "u64 \<Rightarrow> nat \<Rightarrow> byte list \<Rightarrow> nat \<times> byte list" where
  "h2_flush acc nbits out =
     (if 8 \<le> nbits then h2_flush acc (nbits - 8) (out @ [ucast (drop_bit (nbits - 8) acc)])
      else (nbits, out))"

declare h2_flush.simps [simp del]

fun h2_encode_loop :: "byte list \<Rightarrow> u64 \<Rightarrow> nat \<Rightarrow> byte list \<Rightarrow> u64 \<times> nat \<times> byte list" where
  "h2_encode_loop [] acc nbits out = (acc, nbits, out)"
| "h2_encode_loop (b # data) acc nbits out =
     (case CODES ! unat b of
        (code, len) \<Rightarrow>
          let acc1 = push_bit len acc OR ucast code in
          (case h2_flush acc1 (nbits + len) out of
             (nbits1, out1) \<Rightarrow> h2_encode_loop data acc1 nbits1 out1))"

definition h2_encode :: "byte list \<Rightarrow> byte list" where
  "h2_encode data =
     (case h2_encode_loop data 0 0 [] of
        (acc, nbits, out) \<Rightarrow>
          if 0 < nbits then
            let pad = 8 - nbits in out @ [ucast (push_bit pad acc OR (push_bit pad 1 - 1))]
          else out)"

definition h2_encoded_len :: "byte list \<Rightarrow> nat" where
  "h2_encoded_len data = (sum_list (map (\<lambda>b. snd (CODES ! unat b)) data) + 7) div 8"

section \<open>The encoder writes the codewords\<close>

lemma CODES_at:
  assumes "s < 257" and "CODES ! s = (code, len)"
  shows "len \<le> 30" and "h2_codewords ! s = msb_bits len code" and "len \<le> i \<Longrightarrow> \<not> bit code i"
proof -
  have "(code, len) \<in> set CODES" using assms nth_mem [of s CODES] by simp
  note r = CODES_range [OF this]
  then show "len \<le> 30" ..
  show "h2_codewords ! s = msb_bits len code" using assms by (simp add: h2_codewords_def)
  from r have "take_bit len (uint code) = uint code" by (simp add: take_bit_int_eq_self)
  then have "take_bit len code = code" by (metis unsigned_take_bit_eq word_uint_eq_iff)
  then show "len \<le> i \<Longrightarrow> \<not> bit code i" by (metis bit_take_bit_iff not_le)
qed

lemma h2_flush_bits:
  "h2_flush acc nbits out = (nbits', out') \<Longrightarrow>
   byte_bits out' @ msb_bits nbits' acc = byte_bits out @ msb_bits nbits acc \<and> nbits' < 8"
proof (induction acc nbits out rule: h2_flush.induct)
  case (1 acc nbits out)
  show ?case
  proof (cases "8 \<le> nbits")
    case True
    have "msb_bits nbits acc = msb_bits 8 (drop_bit (nbits - 8) acc) @ msb_bits (nbits - 8) acc"
      using msb_bits_split [of 8 "nbits - 8" acc] True by simp
    with 1 True show ?thesis
      by (subst (asm) h2_flush.simps) (simp add: msb_bits_ucast [where 'b = 8])
  next
    case False
    with 1(2) show ?thesis by (subst (asm) h2_flush.simps) auto
  qed
qed

lemma h2_encode_loop_bits:
  "h2_encode_loop data acc nbits out = (acc', nbits', out') \<Longrightarrow> nbits < 8 \<Longrightarrow>
   byte_bits out' @ msb_bits nbits' acc'
     = byte_bits out @ msb_bits nbits acc @ codewords h2_codewords (map unat data) \<and> nbits' < 8"
proof (induction data arbitrary: acc nbits out)
  case (Cons b data)
  obtain code len where c: "CODES ! unat b = (code, len)" by fastforce
  have b: "unat b < 257" using unat_byte_less [of b] by linarith
  note cl = CODES_at [OF b c]
  let ?acc = "push_bit len acc OR ucast code"
  obtain n1 o1 where f: "h2_flush ?acc (nbits + len) out = (n1, o1)" by fastforce
  from Cons.prems(1) c f have "h2_encode_loop data ?acc n1 o1 = (acc', nbits', out')" by simp
  moreover from h2_flush_bits [OF f] have "n1 < 8" and
    "byte_bits o1 @ msb_bits n1 ?acc = byte_bits out @ msb_bits (nbits + len) ?acc" by simp_all
  moreover have "msb_bits (nbits + len) ?acc = msb_bits nbits acc @ msb_bits len code"
    using msb_bits_push_or [of nbits len "ucast code" acc] msb_bits_ucast [of len code, where 'b = 64]
      Cons.prems(2) cl by (simp add: bit_ucast_iff)
  ultimately show ?case using Cons.IH [of ?acc n1 o1] cl(2) by simp
qed simp

lemma h2_encode_bits:
  obtains k where "k < 8"
    and "byte_bits (h2_encode data) = codewords h2_codewords (map unat data) @ replicate k True"
proof -
  obtain acc nbits out where e: "h2_encode_loop data 0 0 [] = (acc, nbits, out)"
    by (metis prod_cases3)
  note l = h2_encode_loop_bits [OF e]
  show ?thesis
  proof (cases "0 < nbits")
    case True
    let ?p = "8 - nbits"
    have m: "2 ^ ?p - 1 = (mask ?p :: u64)" by (simp add: mask_eq_exp_minus_1)
    have "msb_bits (nbits + ?p) (push_bit ?p acc OR mask ?p) = msb_bits nbits acc @ msb_bits ?p (mask ?p :: u64)"
      using l by (intro msb_bits_push_or) (simp_all add: bit_mask_iff)
    then have "msb_bits 8 (push_bit ?p acc OR mask ?p) = msb_bits nbits acc @ replicate ?p True"
      using l msb_bits_mask [of ?p, where 'a = 64] by simp
    with True e l show ?thesis
      by (intro that [of ?p]) (simp_all add: h2_encode_def m msb_bits_ucast [where 'b = 8] Let_def)
  next
    case False
    with e l show ?thesis by (intro that [of 0]) (simp_all add: h2_encode_def)
  qed
qed

lemma h2_encoded_len_correct: "h2_encoded_len data = length (h2_encode data)"
proof -
  obtain k where k: "k < 8"
    "byte_bits (h2_encode data) = codewords h2_codewords (map unat data) @ replicate k True"
    by (rule h2_encode_bits)
  have "length (codewords h2_codewords (map unat data)) = sum_list (map (\<lambda>b. snd (CODES ! unat b)) data)"
  proof (induction data)
    case (Cons b data)
    have "unat b < 257" using unat_byte_less [of b] by linarith
    with Cons show ?case by (simp add: h2_codewords_def split: prod.splits)
  qed simp
  with arg_cong [OF k(2), of length]
  have "8 * length (h2_encode data) = sum_list (map (\<lambda>b. snd (CODES ! unat b)) data) + k" by simp
  moreover have "8 * n = m + k \<Longrightarrow> (m + 7) div 8 = n" for n m using k(1) by linarith
  ultimately show ?thesis unfolding h2_encoded_len_def by blast
qed

section \<open>The table is the bit machine\<close>

definition nat_bits :: "nat \<Rightarrow> nat \<Rightarrow> bool list" where
  "nat_bits i h = map (bit h) (rev [0..<i])"

lemma nat_bits_simps [simp]: "nat_bits 0 h = []" "nat_bits (Suc i) h = bit h i # nat_bits i h"
  by (simp_all add: nat_bits_def)

lemma byte_nibbles: "msb_bits 8 b = nat_bits 4 (unat b div 16) @ nat_bits 4 (unat b mod 16)"
proof -
  have "bit (unat b div 16) i = bit b (i + 4)" for i
  proof -
    have "bit (unat b div 2 ^ 4) i = bit (unat b) (i + 4)"
      by (metis add.commute bit_drop_bit_eq comp_apply drop_bit_eq_div)
    then show ?thesis using bit_imp_le_length [of b "i + 4"] by (auto simp: bit_unsigned_iff)
  qed
  moreover have "bit (unat b mod 16) i = (i < 4 \<and> bit b i)" for i
  proof -
    have "bit (unat b mod 2 ^ 4) i = (i < 4 \<and> bit (unat b) i)"
      by (metis bit_take_bit_iff take_bit_eq_mod)
    then show ?thesis using bit_imp_le_length [of b i] by (auto simp: bit_unsigned_iff)
  qed
  ultimately have "msb_bits 4 (drop_bit 4 b) = nat_bits 4 (unat b div 16)"
    "msb_bits 4 b = nat_bits 4 (unat b mod 16)"
    by (simp_all add: msb_bits_def nat_bits_def bit_drop_bit_eq add.commute)
  with msb_bits_split [of 4 4 b] show ?thesis by simp
qed

text \<open>The bytes among the decoded symbols.\<close>

definition sym_bytes :: "nat list \<Rightarrow> byte list" where
  "sym_bytes ss = map byte_of (filter (\<lambda>s. s \<noteq> EOS) ss)"

lemma sym_bytes_simps [simp]:
  "sym_bytes [] = []" "sym_bytes (s # ss) = (if s = EOS then sym_bytes ss else byte_of s # sym_bytes ss)"
  "sym_bytes (ss @ ts) = sym_bytes ss @ sym_bytes ts"
  by (simp_all add: sym_bytes_def)

text \<open>\<open>h2_at paths child node p\<close>: \<open>node\<close> is the node of the proper codeword prefix \<open>p\<close>.\<close>

definition h2_at :: "bool list list \<Rightarrow> kids list \<Rightarrow> nat \<Rightarrow> bool list \<Rightarrow> bool" where
  "h2_at paths child node p \<longleftrightarrow>
     node < length child \<and> paths ! node = p \<and> inner_node h2_codewords p"

lemma h2_at_root: "trie_holds h2_codewords paths child leaf \<Longrightarrow> h2_at paths child 0 []"
  using h2.inner_Nil unfolding h2_at_def trie_holds_def by (auto dest: trie_okD(3,4))

lemma h2_at_step:
  assumes "trie_holds h2_codewords paths child leaf" and "h2_at paths child node p"
    and "node1 = kid b (child ! node)"
  shows "(case code_symbol h2_codewords (p @ [b]) of
      None \<Rightarrow> leaf ! node1 = - 1 \<and> h2_at paths child node1 (p @ [b])
    | Some s \<Rightarrow> leaf ! node1 = int s \<and> s < 257)"
proof -
  from assms(1) have H: "trie_ok paths child" "set h2_codewords \<subseteq> set paths"
    "\<And>k. k < length child \<Longrightarrow> if paths ! k \<in> set h2_codewords
       then \<exists>s < length h2_codewords. leaf ! k = int s \<and> h2_codewords ! s = paths ! k else leaf ! k = - 1"
    unfolding trie_holds_def by auto
  note ok = trie_okD [OF H(1)]
  from assms(2) have n: "node < length child" "paths ! node = p" "inner_node h2_codewords p"
    by (simp_all add: h2_at_def)
  have child: "inner_node h2_codewords (p @ [b]) \<or> p @ [b] \<in> set h2_codewords"
    by (rule h2.inner_child [OF n(3)])
  have "p @ [b] \<in> set paths"
  proof (cases "p @ [b] \<in> set h2_codewords")
    case False
    with child obtain c where "c \<in> set h2_codewords" "strict_prefix (p @ [b]) c"
      unfolding inner_node_def by blast
    with H(2) trie_ok_prefix [OF H(1)] show ?thesis unfolding strict_prefix_def prefix_def by blast
  qed (use H(2) in blast)
  with ok(6) [OF n(1), of b] n(2) have "kid b (child ! node) \<noteq> 0" by auto
  with ok(7) [OF n(1), of b] assms(3) n(2) have k: "node1 < length child" "paths ! node1 = p @ [b]"
    by auto
  show ?thesis
  proof (cases "code_symbol h2_codewords (p @ [b])")
    case None
    then have "p @ [b] \<notin> set h2_codewords" by (simp add: code_symbol_None)
    with H(3) [OF k(1)] k child None show ?thesis by (simp add: h2_at_def)
  next
    case (Some s)
    with code_symbol_Some [OF h2.distinct_codes] have s: "s < 257" "h2_codewords ! s = p @ [b]" by auto
    then have "p @ [b] \<in> set h2_codewords" by (metis length_h2_codewords nth_mem)
    with H(3) [OF k(1)] k obtain s' where s': "s' < length h2_codewords" "leaf ! node1 = int s'"
      "h2_codewords ! s' = p @ [b]" by auto
    then have "s' = s" using s h2.distinct_codes by (metis length_h2_codewords nth_eq_iff_index_eq)
    with s' s Some show ?thesis by simp
  qed
qed

lemma h2_nib_loop_run:
  assumes "trie_holds h2_codewords paths child leaf" and "length child \<le> 2 ^ 16"
    and "h2_at paths child node p" and "n + i \<le> length out"
    and "bit_run h2_codewords p (nat_bits i half) = (q, ss)"
    and "h2_nib_loop (child, leaf) half i node out n eos = r"
  shows "h2_at paths child (nib_next r) q \<and> (nib_eos r \<longleftrightarrow> eos \<or> EOS \<in> set ss)
    \<and> nib_n r = n + length (sym_bytes ss) \<and> length (nib_out r) = length out
    \<and> take (nib_n r) (nib_out r) = take n out @ sym_bytes ss"
  using assms(3-6)
proof (induction i arbitrary: node p out n eos ss)
  case 0
  then have "node < 65536" using assms(2) by (simp add: h2_at_def)
  with 0 show ?case by auto
next
  case (Suc i)
  let ?k = "kid (bit half i) (child ! node)"
  note st = h2_at_step [OF assms(1) Suc.prems(1) refl, of "bit half i"]
  show ?case
  proof (cases "code_symbol h2_codewords (p @ [bit half i])")
    case None
    with st have k: "leaf ! ?k = - 1" "h2_at paths child ?k (p @ [bit half i])" by simp_all
    from Suc.IH [OF k(2), of n out ss eos] Suc.prems(2-4) None k(1) show ?thesis by auto
  next
    case (Some s)
    with st have k: "leaf ! ?k = int s" by simp
    obtain ts where ts: "bit_run h2_codewords [] (nat_bits i half) = (q, ts)" "ss = s # ts"
      using Suc.prems(3) Some by (auto split: prod.splits)
    note IH = Suc.IH [OF h2_at_root [OF assms(1)] _ ts(1)]
    show ?thesis
    proof (cases "s = EOS")
      case True
      with IH [of n out True] Suc.prems(2,4) ts(2) k show ?thesis by auto
    next
      case False
      with IH [of "n + 1" "out[n := byte_of s]" eos] Suc.prems(2,4) ts(2) k show ?thesis
        by (auto simp: take_Suc_conv_app_nth)
    qed
  qed
qed

lemma nth_grid:
  assumes "i < n" and "j < m"
  shows "concat (map (\<lambda>i. map (f i) [0..<m]) [0..<n]) ! (i * m + j) = f i j"
  using assms
proof (induction n)
  case (Suc n)
  have len: "length (concat (map (\<lambda>i. map (f i) [0..<m]) [0..<n])) = n * m" for n
    by (induction n) simp_all
  show ?case
  proof (cases "i < n")
    case True
    have "i * m + j < Suc i * m" using Suc.prems(2) by simp
    also have "\<dots> \<le> n * m" using True by (intro mult_le_mono1) simp
    finally show ?thesis using Suc True len [of n] by (simp add: nth_append)
  next
    case False
    with Suc.prems have "i = n" by simp
    with Suc.prems(2) len [of n] show ?thesis by (simp add: nth_append)
  qed
qed simp

lemma copy_at_take:
  assumes "k + length src \<le> length out"
  shows "take (k + length src) (copy_at k src out) = take k out @ src"
    and "length (copy_at k src out) = length out"
  using assms by (simp_all add: copy_at_def)

lemma h2_byte_trans_run:
  assumes "trie_holds h2_codewords paths child leaf" and "length child \<le> 2 ^ 16"
    and "h2_at paths child state p"
    and "bit_run h2_codewords p (msb_bits 8 (b :: byte)) = (q, ss)"
    and "h2_transitions (child, leaf) ! (state * 256 + unat b) = t"
  shows "h2_at paths child (tr_next t) q \<and> (tr_eos t \<longleftrightarrow> EOS \<in> set ss)
    \<and> take (tr_n t) (tr_out t) = sym_bytes ss"
proof -
  let ?nib = "h2_nibs (child, leaf)"
  have nib: "?nib ! (s * 16 + h) = h2_nib_loop (child, leaf) h 4 s (replicate 4 0) 0 False"
    if "s < length child" "h < 16" for s h
    using nth_grid [OF that, where f = "\<lambda>s h. h2_nib_loop (child, leaf) h 4 s (replicate 4 0) 0 False"]
    by (simp add: h2_nibs_def)
  have state: "state < length child" using assms(3) by (simp add: h2_at_def)
  have b: "unat b < 256" "unat b div 16 < 16" using unat_byte_less [of b] by linarith+
  have t: "t = h2_byte_trans ?nib state (unat b)"
    using nth_grid [OF state b(1), where f = "h2_byte_trans ?nib"] assms(5)
    by (simp add: h2_transitions_def Let_def)
  define hi where "hi = ?nib ! (state * 16 + unat b div 16)"
  obtain p1 s1 where r1: "bit_run h2_codewords p (nat_bits 4 (unat b div 16)) = (p1, s1)" by fastforce
  have "h2_nib_loop (child, leaf) (unat b div 16) 4 state (replicate 4 0) 0 False = hi"
    by (simp add: hi_def nib [OF state b(2)])
  from h2_nib_loop_run [OF assms(1-3) _ r1 this]
  have hi: "h2_at paths child (nib_next hi) p1" "nib_eos hi \<longleftrightarrow> EOS \<in> set s1"
    "nib_n hi = length (sym_bytes s1)" "length (nib_out hi) = 4"
    "take (nib_n hi) (nib_out hi) = sym_bytes s1" by auto
  define lo where "lo = ?nib ! (nib_next hi * 16 + unat b mod 16)"
  obtain p2 s2 where r2: "bit_run h2_codewords p1 (nat_bits 4 (unat b mod 16)) = (p2, s2)" by fastforce
  have "nib_next hi < length child" using hi(1) by (simp add: h2_at_def)
  from nib [OF this]
  have "h2_nib_loop (child, leaf) (unat b mod 16) 4 (nib_next hi) (replicate 4 0) 0 False = lo"
    by (simp add: lo_def)
  from h2_nib_loop_run [OF assms(1,2) hi(1) _ r2 this]
  have lo: "h2_at paths child (nib_next lo) p2" "nib_eos lo \<longleftrightarrow> EOS \<in> set s2"
    "nib_n lo = length (sym_bytes s2)" "length (nib_out lo) = 4"
    "take (nib_n lo) (nib_out lo) = sym_bytes s2" by auto
  have "length (sym_bytes s1) \<le> 4" "length (sym_bytes s2) \<le> 4"
    using hi(3-5) lo(3-5) by (metis length_take min.cobounded1)+
  then have out: "take (nib_n hi + nib_n lo) (tr_out t) = sym_bytes s1 @ sym_bytes s2"
    using copy_at_take [of 0 "sym_bytes s1" "replicate 8 0"]
      copy_at_take [of "length (sym_bytes s1)" "sym_bytes s2" "copy_at 0 (sym_bytes s1) (replicate 8 0)"]
    by (simp add: t h2_byte_trans_def Let_def hi_def [symmetric] lo_def [symmetric]
        hi(3) lo(3) hi(5) [unfolded hi(3)] lo(5) [unfolded lo(3)])
  have "q = p2 \<and> ss = s1 @ s2"
    using assms(4) bit_run_append [of h2_codewords p "nat_bits 4 (unat b div 16)" "nat_bits 4 (unat b mod 16)"]
      r1 r2 by (simp add: byte_nibbles)
  moreover have "tr_next t = nib_next lo" "tr_eos t \<longleftrightarrow> nib_eos hi \<or> nib_eos lo"
    "tr_n t = nib_n hi + nib_n lo"
    by (simp_all add: t h2_byte_trans_def Let_def hi_def lo_def)
  ultimately show ?thesis using out hi(2) lo(1,2) by auto
qed

section \<open>What decode returns\<close>

lemma h2_decode_loop_run:
  assumes "trie_holds h2_codewords paths child leaf" and "length child \<le> 2 ^ 16"
    and "h2_at paths child state p" and "bit_run h2_codewords p (byte_bits data) = (q, ss)"
  shows "if EOS \<in> set ss then h2_decode_loop (h2_transitions (child, leaf)) data state out = Inl Corrupt
    else \<exists>state'. h2_at paths child state' q
      \<and> h2_decode_loop (h2_transitions (child, leaf)) data state out = Inr (state', out @ sym_bytes ss)"
  using assms(3,4)
proof (induction data arbitrary: state p out ss)
  case (Cons b data)
  obtain p1 s1 where r1: "bit_run h2_codewords p (msb_bits 8 b) = (p1, s1)" by fastforce
  obtain s2 where r2: "bit_run h2_codewords p1 (byte_bits data) = (q, s2)" and ss: "ss = s1 @ s2"
    using Cons.prems(2) bit_run_append [of h2_codewords p "msb_bits 8 b" "byte_bits data"] r1
    by (cases "bit_run h2_codewords p1 (byte_bits data)") simp
  define t where "t = h2_transitions (child, leaf) ! (state * 256 + unat b)"
  from h2_byte_trans_run [OF assms(1,2) Cons.prems(1) r1, of t]
  have t: "h2_at paths child (tr_next t) p1" "tr_eos t \<longleftrightarrow> EOS \<in> set s1"
    "take (tr_n t) (tr_out t) = sym_bytes s1" by (simp_all add: t_def)
  from Cons.IH [OF t(1) r2, of "out @ sym_bytes s1"] t ss show ?case
    by (auto simp: t_def [symmetric] Let_def)
qed simp

text \<open>Decoding, stated on the bits of the input.\<close>

lemma h2_decode_bits:
  assumes "bit_run h2_codewords [] (byte_bits data) = (q, ss)"
  shows "h2_decode data = (if EOS \<in> set ss \<or> 8 \<le> length q \<or> \<not> list_all id q then Inl Corrupt
    else Inr (map byte_of ss))"
proof -
  obtain paths where P: "trie_holds h2_codewords paths (fst h2_trie) (snd h2_trie)"
    "length (fst h2_trie) \<le> 2 ^ 16" using h2_trie_holds by blast
  then have ok: "trie_ok paths (fst h2_trie)" by (simp add: trie_holds_def)
  have len: "length p \<le> 30" if "p \<in> set paths" for p
    using P(1) that h2.codes_iff unfolding trie_holds_def by (metis list.size(3) prefix_length_le le_trans le0)
  have pad: "h2_pad (fst h2_trie) ! k = (length p, list_all id p)" if "h2_at paths (fst h2_trie) k p" for k p
    using h2_pad_correct [OF ok len] that by (simp add: h2_at_def path_meta_def)
  have "sym_bytes ss = map byte_of ss" if "EOS \<notin> set ss"
    using that by (induction ss) auto
  with h2_decode_loop_run [OF P h2_at_root [OF P(1)] assms, of "[]"] show ?thesis
    by (auto simp: h2_decode_def fast_table_build_def Let_def pad split: if_splits)
qed

section \<open>Decoding inverts encoding\<close>

lemma padding_inner: "k < 8 \<Longrightarrow> inner_node h2_codewords (replicate k True)"
proof -
  assume k: "k < 8"
  have "(0x3fffffff :: u32) = mask 30" by (simp add: mask_eq_exp_minus_1)
  then have "h2_codewords ! EOS = replicate 30 True"
    using CODES_at(2) [of EOS, OF _ CODES_eos] msb_bits_mask [of 30, where 'a = 32]
    by (simp add: EOS_def)
  moreover have "EOS < length h2_codewords" by (simp add: EOS_def)
  ultimately have "replicate 30 True \<in> set h2_codewords" by (metis nth_mem)
  moreover have "strict_prefix (replicate k True) (replicate 30 True)"
  proof (rule strict_prefixI')
    show "replicate 30 True = replicate k True @ True # replicate (29 - k) True"
      using k replicate_add [of k "Suc (29 - k)" True] by simp
  qed
  ultimately show ?thesis unfolding inner_node_def by blast
qed

lemma symbols_of_bytes: "set (map unat xs) \<subseteq> {..<length h2_codewords} \<and> EOS \<notin> set (map unat (xs :: byte list))"
proof -
  have b: "unat b < 257" "unat b \<noteq> EOS" for b :: byte
    using unat_byte_less [of b] by (simp_all del: unat_byte_less add: EOS_def)
  have "EOS \<noteq> unat b" for b :: byte using b(2) by metis
  with b(1) show ?thesis by auto
qed

lemma h2_decode_encode: "h2_decode (h2_encode xs) = Inr xs"
proof -
  obtain k where k: "k < 8"
    "byte_bits (h2_encode xs) = codewords h2_codewords (map unat xs) @ replicate k True"
    by (rule h2_encode_bits)
  have "bit_run h2_codewords [] (byte_bits (h2_encode xs)) = (replicate k True, map unat xs)"
    unfolding k(2) using symbols_of_bytes [of xs]
    by (intro h2.bit_run_codewords padding_inner k(1)) blast
  from h2_decode_bits [OF this] symbols_of_bytes [of xs] k(1) show ?thesis
    by (simp add: list_all_iff comp_def)
qed

lemma h2_encode_decode:
  assumes "h2_decode ys = Inr xs"
  shows "ys = h2_encode xs"
proof -
  obtain q ss where r: "bit_run h2_codewords [] (byte_bits ys) = (q, ss)" by fastforce
  from h2_decode_bits [OF r] assms have *: "EOS \<notin> set ss" "length q < 8" "list_all id q"
    "xs = map byte_of ss" by (auto split: if_splits)
  from bit_run_sound [OF h2.distinct_codes, of "[]" "byte_bits ys"] r
  have ys: "byte_bits ys = codewords h2_codewords ss @ q" and ss: "set ss \<subseteq> {..<257}" by simp_all
  have "unat (byte_of s) = s" if "s \<in> set ss" for s
  proof -
    have "s < 257" "s \<noteq> 256" using that ss *(1) by (auto simp: EOS_def)
    then show ?thesis by simp
  qed
  then have xs: "map unat xs = ss" unfolding *(4) by (simp add: map_idI)
  have q: "q = replicate (length q) True" using *(3)
    by (induction q) simp_all
  obtain k where k: "k < 8"
    "byte_bits (h2_encode xs) = codewords h2_codewords ss @ replicate k True"
    using h2_encode_bits [of xs] xs by metis
  from arg_cong [OF ys, of length] arg_cong [OF k(2), of length]
  have "8 * length ys + k = 8 * length (h2_encode xs) + length q" by simp
  with k(1) *(2) have "k = length q" by presburger
  with ys k(2) q have "byte_bits ys = byte_bits (h2_encode xs)" by simp
  then show ?thesis by (rule byte_bits_inject)
qed

section \<open>Properties\<close>

text \<open>C27. The table-driven decoder accepts exactly the encoder's output: a byte string decodes
  to \<open>xs\<close> if and only if it is the encoding of \<open>xs\<close>.  So decoding inverts encoding, and
  every other string (EOS inside, padding of eight bits or more, padding with a zero bit) is
  rejected.\<close>

theorem h2_huffman_exact: "h2_decode ys = Inr xs \<longleftrightarrow> ys = h2_encode xs"
  using h2_decode_encode h2_encode_decode by metis

text \<open>C28. Every rejection is \<open>Error::Corrupt\<close>, and it happens exactly when the bit-by-bit
  reading meets EOS or stops on padding that is not up to seven one bits.\<close>

theorem h2_huffman_rejects:
  "h2_decode ys =
     (case bit_run h2_codewords [] (byte_bits ys) of
        (q, ss) \<Rightarrow> if EOS \<in> set ss \<or> 8 \<le> length q \<or> False \<in> set q then Inl Corrupt
                  else Inr (map byte_of ss))"
proof -
  obtain q ss where r: "bit_run h2_codewords [] (byte_bits ys) = (q, ss)" by fastforce
  have "list_all id q \<longleftrightarrow> False \<notin> set q" by (induction q) auto
  with h2_decode_bits [OF r] r show ?thesis by simp
qed

text \<open>\<open>encoded_len\<close>, which decides between Huffman and raw strings, is the length of the
  encoding.\<close>

theorem h2_encoded_len_exact: "h2_encoded_len xs = length (h2_encode xs)"
  by (rule h2_encoded_len_correct)

end
