(* ===== verification/H2Codec.thy ===== *)
theory H2Codec
  imports Codec H2Huffman
begin

text \<open>
  The streaming wrapper \<open>Http2Huffman\<close> of \<open>src/hpack/huffman.rs\<close>: encoder and decoder collect
  the whole input, transform it in the first \<open>raw_finish\<close> and drain the result.  The encoder
  has no EOS or framing, so the two contracts hold with the whole-string functions
  \<open>h2_encode\<close> and \<open>h2_decode\<close>.
\<close>

record h2_wrapper =
  hw_input :: "byte list"
  hw_output :: "byte list"
  hw_cursor :: nat
  hw_done :: bool

definition h2_wrapper_new :: h2_wrapper where
  "h2_wrapper_new = \<lparr>hw_input = [], hw_output = [], hw_cursor = 0, hw_done = False\<rparr>"

text \<open>\<open>drain(&self.output, &mut self.cursor, output)\<close>\<close>

definition h2_drain :: "h2_wrapper \<Rightarrow> nat \<Rightarrow> h2_wrapper raw_result" where
  "h2_drain s outlen =
     (let remaining = length (hw_output s) - hw_cursor s;
          n = min remaining outlen;
          out = take n (drop (hw_cursor s) (hw_output s));
          s1 = s\<lparr>hw_cursor := hw_cursor s + n\<rparr>
      in raw_ok s1 0 out (length (hw_output s) \<le> hw_cursor s1))"

definition h2_raw_encode :: "h2_wrapper \<Rightarrow> byte list \<Rightarrow> nat \<Rightarrow> h2_wrapper raw_result" where
  "h2_raw_encode s input outlen =
     raw_ok (s\<lparr>hw_input := hw_input s @ input\<rparr>) (length input) [] False"

definition h2_enc_raw_finish :: "h2_wrapper \<Rightarrow> nat \<Rightarrow> h2_wrapper raw_result" where
  "h2_enc_raw_finish s outlen =
     (let s1 = (if hw_done s then s
                else s\<lparr>hw_output := h2_encode (hw_input s), hw_done := True\<rparr>)
      in h2_drain s1 outlen)"

definition h2_raw_decode :: "h2_wrapper \<Rightarrow> byte list \<Rightarrow> nat \<Rightarrow> h2_wrapper raw_result" where
  "h2_raw_decode s input outlen =
     (if \<not> hw_done s then raw_ok (s\<lparr>hw_input := hw_input s @ input\<rparr>) (length input) [] False
      else h2_drain s outlen)"

definition h2_dec_raw_finish :: "h2_wrapper \<Rightarrow> nat \<Rightarrow> h2_wrapper raw_result" where
  "h2_dec_raw_finish s outlen =
     (if \<not> hw_done s then
        (case h2_decode (hw_input s) of
           Inl e \<Rightarrow> (s, Inl e)
         | Inr out \<Rightarrow> h2_drain (s\<lparr>hw_output := out, hw_done := True\<rparr>) outlen)
      else h2_drain s outlen)"

definition h2_raw_reset :: "h2_wrapper \<Rightarrow> h2_wrapper" where
  "h2_raw_reset s =
     s\<lparr>hw_input := [], hw_output := [], hw_cursor := 0, hw_done := False\<rparr>"

lemma h2_raw_reset_new: "h2_raw_reset s = h2_wrapper_new"
  by (simp add: h2_raw_reset_def h2_wrapper_new_def)

section \<open>The contracts\<close>

definition h2_ok :: "h2_wrapper \<Rightarrow> bool" where
  "h2_ok s \<longleftrightarrow> (if hw_done s then hw_cursor s \<le> length (hw_output s) else hw_cursor s = 0)"

definition h2_owed :: "h2_wrapper \<Rightarrow> byte list \<Rightarrow> byte list" where
  "h2_owed s xs = (if hw_done s then drop (hw_cursor s) (hw_output s) else h2_encode (hw_input s @ xs))"

definition h2_yields :: "h2_wrapper \<Rightarrow> byte list \<Rightarrow> outcome" where
  "h2_yields s xs =
     (if hw_done s then (drop (hw_cursor s) (hw_output s), None)
      else case h2_decode (hw_input s @ xs) of Inl e \<Rightarrow> ([], Some e) | Inr out \<Rightarrow> (out, None))"

lemma h2_drain_result:
  assumes "hw_done s" and "h2_ok s"
  obtains s' out d where "h2_drain s n = raw_ok s' 0 out d" "length out \<le> n" "\<not> d \<Longrightarrow> length out = n"
    "h2_ok s'" "hw_done s'" "d \<Longrightarrow> drop (hw_cursor s') (hw_output s') = []"
    "drop (hw_cursor s) (hw_output s) = out @ drop (hw_cursor s') (hw_output s')"
proof
  let ?k = "min (length (hw_output s) - hw_cursor s) n"
  let ?s = "s\<lparr>hw_cursor := hw_cursor s + ?k\<rparr>"
  let ?out = "take ?k (drop (hw_cursor s) (hw_output s))"
  have c: "hw_cursor s \<le> length (hw_output s)" using assms by (simp add: h2_ok_def)
  show "h2_drain s n = raw_ok ?s 0 ?out (length (hw_output s) \<le> hw_cursor ?s)"
    by (simp add: h2_drain_def Let_def)
  show "drop (hw_cursor s) (hw_output s) = ?out @ drop (hw_cursor ?s) (hw_output ?s)"
    using append_take_drop_id [of ?k "drop (hw_cursor s) (hw_output s)"]
    by (simp add: drop_drop add.commute)
qed (use assms in \<open>auto simp: h2_ok_def min_def\<close>)

interpretation h2_enc: encoder_contract h2_raw_encode h2_enc_raw_finish
  "\<lambda>s _. h2_ok s \<and> \<not> hw_done s" h2_ok h2_owed
proof (unfold_locales, goal_cases)
  case (1 s xs ys n)
  then show ?case
    by (auto simp: encode_law_def h2_raw_encode_def h2_ok_def h2_owed_def)
next
  case (3 s n)
  define s1 where "s1 = (if hw_done s then s else s\<lparr>hw_output := h2_encode (hw_input s), hw_done := True\<rparr>)"
  have s1: "hw_done s1" "h2_ok s1" "h2_owed s [] = h2_owed s1 []"
    using 3 by (auto simp: s1_def h2_ok_def h2_owed_def)
  from h2_drain_result [OF s1(1,2), of n]
  obtain s' out d where r: "h2_drain s1 n = raw_ok s' 0 out d" "length out \<le> n" "\<not> d \<Longrightarrow> length out = n"
    "h2_ok s'" "hw_done s'" "d \<Longrightarrow> drop (hw_cursor s') (hw_output s') = []"
    "drop (hw_cursor s1) (hw_output s1) = out @ drop (hw_cursor s') (hw_output s')"
    by metis
  have "h2_enc_raw_finish s n = raw_ok s' 0 out d"
    using r(1) by (simp add: h2_enc_raw_finish_def s1_def)
  with r s1 show ?case by (auto simp: h2_owed_def intro!: finish_lawI)
qed simp

lemma h2_drain_yields:
  assumes "hw_done s" and "h2_ok s"
  shows "drain_law h2_ok h2_yields s n (h2_drain s n)"
    and "decode_law h2_ok h2_yields s xs ys n (h2_drain s n)"
proof -
  from h2_drain_result [OF assms, of n]
  obtain s' out d where r: "h2_drain s n = raw_ok s' 0 out d" "length out \<le> n" "\<not> d \<Longrightarrow> length out = n"
    "h2_ok s'" "hw_done s'" "d \<Longrightarrow> drop (hw_cursor s') (hw_output s') = []"
    "drop (hw_cursor s) (hw_output s) = out @ drop (hw_cursor s') (hw_output s')"
    by metis
  then show "drain_law h2_ok h2_yields s n (h2_drain s n)"
    using assms by (auto simp: h2_yields_def intro!: drain_lawI)
  from r assms show "decode_law h2_ok h2_yields s xs ys n (h2_drain s n)"
    by (auto simp: decode_law_def h2_yields_def)
qed

interpretation h2_dec: decoder_contract h2_raw_decode h2_dec_raw_finish h2_ok h2_ok h2_yields
proof (unfold_locales, goal_cases)
  case (1 s xs ys n)
  show ?case
  proof (cases "hw_done s")
    case True
    with h2_drain_yields(2) [OF True 1] show ?thesis by (simp add: h2_raw_decode_def)
  next
    case False
    with 1 show ?thesis by (auto simp: decode_law_def h2_raw_decode_def h2_ok_def h2_yields_def)
  qed
next
  case (3 s n)
  show ?case
  proof (cases "hw_done s")
    case True
    with h2_drain_yields(1) [OF True 3] show ?thesis by (simp add: h2_dec_raw_finish_def)
  next
    case False
    show ?thesis
    proof (cases "h2_decode (hw_input s)")
      case (Inl e)
      with False show ?thesis
        by (auto simp: h2_dec_raw_finish_def h2_yields_def intro!: drain_law_error)
    next
      case (Inr out)
      let ?s = "s\<lparr>hw_output := out, hw_done := True\<rparr>"
      have "h2_ok ?s" "h2_yields s [] = h2_yields ?s []"
        using False Inr 3 by (simp_all add: h2_ok_def h2_yields_def)
      with h2_drain_yields(1) [of ?s n] False Inr show ?thesis
        by (simp add: h2_dec_raw_finish_def drain_law_def)
    qed
  qed
qed simp

interpretation h2_codec: codec h2_raw_encode h2_enc_raw_finish
  "\<lambda>s _. h2_ok s \<and> \<not> hw_done s" h2_ok h2_owed
  h2_raw_decode h2_dec_raw_finish h2_ok h2_ok h2_yields
  h2_wrapper_new h2_wrapper_new "\<lambda>_. True"
  by unfold_locales
    (simp_all add: h2_ok_def h2_wrapper_new_def h2_owed_def h2_yields_def h2_decode_encode)

section \<open>Properties\<close>

text \<open>C29. The \<open>h2-huffman\<close> codec: compressing any bytes gives their HPACK Huffman string, and
  the decompressor's result on any bytes is that of \<open>decode\<close>; so the one is undone by the other.\<close>

theorem h2_codec_vec:
  "compress_to_vec h2_raw_encode h2_enc_raw_finish h2_wrapper_new xs = Some (Inr (h2_encode xs))
   \<and> decompress_to_vec h2_raw_decode h2_dec_raw_finish h2_wrapper_new ys = Some (h2_decode ys)
   \<and> decompress_to_vec h2_raw_decode h2_dec_raw_finish h2_wrapper_new (h2_encode xs) = Some (Inr xs)"
proof (intro conjI)
  show "compress_to_vec h2_raw_encode h2_enc_raw_finish h2_wrapper_new xs = Some (Inr (h2_encode xs))"
    using h2_codec.vec_roundtrip(1) [of xs] by (simp add: h2_owed_def h2_wrapper_new_def)
  show any: "decompress_to_vec h2_raw_decode h2_dec_raw_finish h2_wrapper_new ys = Some (h2_decode ys)" for ys
    using h2_dec.vec_decompress [of h2_wrapper_new ys]
    by (simp add: h2_ok_def h2_yields_def h2_wrapper_new_def outcome_result_def split: sum.splits)
  show "decompress_to_vec h2_raw_decode h2_dec_raw_finish h2_wrapper_new (h2_encode xs) = Some (Inr xs)"
    by (simp add: any h2_decode_encode)
qed

end
