(* ===== verification/HpackInt.thy ===== *)
theory HpackInt
  imports Prelude
begin

text \<open>
  HPACK's prefixed integers (\<open>src/hpack/integer.rs\<close>, RFC 7541 section 5.1).  \<open>usize\<close> has 64
  bits; \<open>checked_shl\<close> is written out on \<open>nat\<close>.
\<close>

definition USIZE_BITS :: nat where "USIZE_BITS = 64"

definition usize_ok :: "nat \<Rightarrow> bool" where
  "usize_ok n \<longleftrightarrow> n < 2 ^ 64"

text \<open>\<open>x.checked_shl(s)\<close> is \<open>None\<close> only for a shift of the whole width; bits that leave the word
  are lost.\<close>

definition checked_shl :: "nat \<Rightarrow> nat \<Rightarrow> nat option" where
  "checked_shl x s = (if s < USIZE_BITS then Some (x * 2 ^ s mod 2 ^ 64) else None)"

fun hpack_tail :: "nat \<Rightarrow> byte list" where
  "hpack_tail v =
     (if 128 \<le> v then (byte_of (v mod 128) OR 0x80) # hpack_tail (v div 128) else [byte_of v])"

declare hpack_tail.simps [simp del]

definition encode_int :: "nat \<Rightarrow> nat \<Rightarrow> byte \<Rightarrow> byte list" where
  "encode_int value n flags =
     (let max_prefix = 2 ^ n - 1 in
      if value < max_prefix then [flags OR byte_of value]
      else (flags OR byte_of max_prefix) # hpack_tail (value - max_prefix))"

function decode_int_loop :: "byte list \<Rightarrow> nat \<Rightarrow> nat \<Rightarrow> nat \<Rightarrow> error + nat \<times> nat" where
  "decode_int_loop buf p value shift =
     (if p < length buf then
        let b = unat (buf ! p) in
        if USIZE_BITS \<le> shift then Inl Corrupt
        else
          (case checked_shl (b mod 128) shift of
             None \<Rightarrow> Inl Corrupt
           | Some add \<Rightarrow>
               (case checked_add value add of
                  None \<Rightarrow> Inl Corrupt
                | Some value' \<Rightarrow>
                    if b < 128 then Inr (value', p + 1)
                    else decode_int_loop buf (p + 1) value' (shift + 7)))
      else Inl UnexpectedEnd)"
  by pat_completeness auto
termination by (relation "measure (\<lambda>(buf, p, _, _). length buf - p)") auto

declare decode_int_loop.simps [simp del]

definition decode_int :: "byte list \<Rightarrow> nat \<Rightarrow> nat \<Rightarrow> error + nat \<times> nat" where
  "decode_int buf pos n =
     (let max_prefix = 2 ^ n - 1 in
      if pos < length buf then
        let value = unat (buf ! pos) mod 2 ^ n in
        if value < max_prefix then Inr (value, pos + 1)
        else decode_int_loop buf (pos + 1) value 0
      else Inl UnexpectedEnd)"

section \<open>Round trip\<close>

lemma unat_or_continue: "m < 128 \<Longrightarrow> unat (byte_of m OR 0x80) = m + 128"
proof -
  assume m: "m < 128"
  have "byte_of m AND 0x80 = 0"
  proof (rule bit_word_eqI)
    fix i assume "i < LENGTH(8)"
    have "bit (0x80 :: byte) i \<longleftrightarrow> i = 7"
      using \<open>i < LENGTH(8)\<close> bit_push_bit_iff [of 7 "1 :: byte" i] by (auto simp: bit_1_iff)
    moreover have "\<not> bit (byte_of m) 7"
      using m by (simp add: bit_iff_odd_drop_bit drop_bit_eq_div bit_iff_odd word_arith_nat_div)
    ultimately show "bit (byte_of m AND 0x80) i = bit (0 :: byte) i"
      by (auto simp: bit_and_iff)
  qed
  then have "byte_of m OR 0x80 = byte_of m + 0x80" by (rule disjunctive_add_eq_or [symmetric])
  then show ?thesis using m by (simp add: unat_word_ariths)
qed

lemma decode_tail:
  assumes "val + v * 2 ^ shift < 2 ^ 64" and "shift < 64"
  shows "decode_int_loop (pre @ hpack_tail v @ post) (length pre) val shift =
    Inr (val + v * 2 ^ shift, length pre + length (hpack_tail v))"
  using assms
proof (induction v arbitrary: pre val shift rule: hpack_tail.induct)
  case (1 v)
  have fits: "m * 2 ^ shift mod 2 ^ 64 = m * 2 ^ shift" "val + m * 2 ^ shift < 2 ^ 64"
    if "m \<le> v" for m
  proof -
    have "m * 2 ^ shift \<le> v * 2 ^ shift" using that by simp
    with 1(2) show "val + m * 2 ^ shift < 2 ^ 64" by linarith
    then show "m * 2 ^ shift mod 2 ^ 64 = m * 2 ^ shift" by (intro mod_less) linarith
  qed
  show ?case
  proof (cases "128 \<le> v")
    case True
    define m q where "m = v mod 128" and "q = v div 128"
    have v: "v = m + 128 * q" and m: "m < 128" "m \<le> v" by (simp_all add: m_def q_def)
    have q: "1 \<le> q" using True by (simp add: q_def div_greater_zero_iff Suc_le_eq)
    have tail: "hpack_tail v = (byte_of m OR 0x80) # hpack_tail q"
      using True by (subst hpack_tail.simps) (simp add: m_def q_def)
    have total: "val + v * 2 ^ shift = (val + m * 2 ^ shift) + q * 2 ^ (shift + 7)"
      by (simp add: v power_add algebra_simps)
    have "shift + 7 < 64"
    proof (rule ccontr)
      assume "\<not> shift + 7 < 64"
      then have "(2 :: nat) ^ 64 \<le> 2 ^ (shift + 7)" by (intro power_increasing) simp_all
      also have "\<dots> \<le> q * 2 ^ (shift + 7)" using q by simp
      finally show False using 1(2) total by linarith
    qed
    moreover have "(val + m * 2 ^ shift) + q * 2 ^ (shift + 7) < 2 ^ 64" using 1(2) total by simp
    ultimately have IH: "decode_int_loop ((pre @ [byte_of m OR 0x80]) @ hpack_tail q @ post)
        (length (pre @ [byte_of m OR 0x80])) (val + m * 2 ^ shift) (shift + 7)
      = Inr ((val + m * 2 ^ shift) + q * 2 ^ (shift + 7),
          length (pre @ [byte_of m OR 0x80]) + length (hpack_tail q))"
      using 1(1) True q_def by blast
    show ?thesis
      using fits [OF m(2)] m(1) 1(3) IH total
      by (subst decode_int_loop.simps) (simp add: tail nth_append unat_or_continue checked_shl_def
          checked_add_def USIZE_BITS_def)
  next
    case False
    then have "hpack_tail v = [byte_of v]" by (subst hpack_tail.simps) simp
    with False fits [of v] 1(3) show ?thesis
      by (subst decode_int_loop.simps) (simp add: nth_append checked_shl_def checked_add_def
          USIZE_BITS_def)
  qed
qed

lemma unat_or_flags:
  assumes "n \<le> 8" and "m < 2 ^ n" and "take_bit n flags = 0"
  shows "unat (flags OR byte_of m :: byte) mod 2 ^ n = m"
proof -
  have "(2 :: nat) ^ n \<le> 2 ^ 8" using assms(1) by (intro power_increasing) simp_all
  with assms(2) have m: "m < 256" by simp
  have "take_bit n (flags OR byte_of m) = take_bit n (byte_of m)"
    using assms(3) by (simp add: take_bit_or)
  then have "unat (take_bit n (flags OR byte_of m)) = unat (take_bit n (byte_of m))" by simp
  then have "unat (flags OR byte_of m) mod 2 ^ n = unat (byte_of m) mod 2 ^ n"
    unfolding unsigned_take_bit_eq unfolding take_bit_eq_mod .
  with assms(2) m show ?thesis by simp
qed

lemma decode_encode_int:
  assumes "1 \<le> n" and "n \<le> 8" and "usize_ok value" and "take_bit n flags = 0"
  shows "decode_int (pre @ encode_int value n flags @ post) (length pre) n
    = Inr (value, length pre + length (encode_int value n flags))"
proof (cases "value < 2 ^ n - 1")
  case True
  then have v: "value < 2 ^ n" by linarith
  from True show ?thesis
    by (simp add: encode_int_def decode_int_def nth_append unat_or_flags [OF assms(2) v assms(4)])
next
  case False
  define m :: nat where "m = 2 ^ n - 1"
  have m: "m < 2 ^ n" by (simp add: m_def)
  have le: "m \<le> value" using False by (simp add: m_def)
  then have "m + (value - m) * 2 ^ 0 < 2 ^ 64" using assms(3) by (simp add: usize_ok_def)
  from decode_tail [OF this, of "pre @ [flags OR byte_of m]" post] le show ?thesis
    unfolding encode_int_def decode_int_def m_def [symmetric]
    by (simp add: Let_def nth_append unat_or_flags [OF assms(2) m assms(4)])
qed

lemma encode_int_nonempty: "encode_int v n f \<noteq> []"
  by (simp add: encode_int_def Let_def)

text \<open>A decoded integer leaves the position inside the buffer.\<close>

lemma decode_int_loop_pos:
  "decode_int_loop buf p val shift = Inr (v, q) \<Longrightarrow> p < q \<and> q \<le> length buf"
proof (induction buf p val shift rule: decode_int_loop.induct)
  case (1 buf p val shift)
  from 1(2) show ?case
    using 1(1) by (subst (asm) decode_int_loop.simps)
      (fastforce simp: Let_def split: if_splits option.splits)
qed

lemma decode_int_pos: "decode_int buf pos n = Inr (v, q) \<Longrightarrow> pos < q \<and> q \<le> length buf"
  using decode_int_loop_pos [of buf "pos + 1"]
  by (fastforce simp: decode_int_def Let_def split: if_splits)

section \<open>Properties\<close>

text \<open>C38. Decoding an encoded integer gives back the integer and the position just after it,
  wherever it stands in a buffer, for every prefix width and every flag bits above the prefix.\<close>

theorem hpack_int_roundtrip:
  assumes "1 \<le> n" and "n \<le> 8" and "value < 2 ^ 64" and "take_bit n flags = 0"
  shows "decode_int (before @ encode_int value n flags @ after) (length before) n
    = Inr (value, length before + length (encode_int value n flags))"
  using decode_encode_int [OF assms(1,2) _ assms(4)] assms(3) by (simp add: usize_ok_def)

theorem hpack_int_roundtrip_witness:
  "decode_int ([0x82] @ encode_int 1337 5 0x20 @ [7]) 1 5 = Inr (1337, 1 + length (encode_int 1337 5 0x20))"
proof -
  have "take_bit 5 (0x20 :: byte) = 0" by simp
  from hpack_int_roundtrip [of 5 1337 "0x20" "[0x82]" "[7]", OF _ _ _ this] show ?thesis by simp
qed














text \<open>The overflow guard checks the shift count and the sum, and not the bits that the shift drops:
  this 11-byte integer, whose value is \<open>2 ^ 64 + 31\<close>, is accepted as 31.\<close>

lemma hpack_int_overflow_accepted:
  "decode_int [0x1f, 0x80, 0x80, 0x80, 0x80, 0x80, 0x80, 0x80, 0x80, 0x80, 0x02] 0 5
     = Inr (31, 11)"
  by (simp add: decode_int_def decode_int_loop.simps checked_shl_def checked_add_def
      USIZE_BITS_def)

end
