(* ===== verification/HpackTable.thy ===== *)
theory HpackTable
  imports Prelude "HOL-Library.Sublist"
begin

text \<open>
  HPACK's index space (\<open>src/hpack/table.rs\<close>, RFC 7541 sections 2.3 and 4): the static table, the
  dynamic table with its byte accounting and eviction, and the search for the best index.  The
  dynamic table is shown to be the longest list of newest entries that fits (\<open>table_fit\<close>).
  Sizes are \<open>usize\<close>, kept as \<open>nat\<close>.
\<close>

type_synonym entry = "byte list \<times> byte list"

section \<open>The tables\<close>

text \<open>A Rust byte string literal.\<close>

definition bytes_of :: "string \<Rightarrow> byte list" where
  "bytes_of s = map of_char s"

definition STATIC_TABLE :: "entry list" where
  "STATIC_TABLE = map (\<lambda>(n, v). (bytes_of n, bytes_of v))
    [('':authority'', ''''),
     ('':method'', ''GET''),
     ('':method'', ''POST''),
     ('':path'', ''/''),
     ('':path'', ''/index.html''),
     ('':scheme'', ''http''),
     ('':scheme'', ''https''),
     ('':status'', ''200''),
     ('':status'', ''204''),
     ('':status'', ''206''),
     ('':status'', ''304''),
     ('':status'', ''400''),
     ('':status'', ''404''),
     ('':status'', ''500''),
     (''accept-charset'', ''''),
     (''accept-encoding'', ''gzip, deflate''),
     (''accept-language'', ''''),
     (''accept-ranges'', ''''),
     (''accept'', ''''),
     (''access-control-allow-origin'', ''''),
     (''age'', ''''),
     (''allow'', ''''),
     (''authorization'', ''''),
     (''cache-control'', ''''),
     (''content-disposition'', ''''),
     (''content-encoding'', ''''),
     (''content-language'', ''''),
     (''content-length'', ''''),
     (''content-location'', ''''),
     (''content-range'', ''''),
     (''content-type'', ''''),
     (''cookie'', ''''),
     (''date'', ''''),
     (''etag'', ''''),
     (''expect'', ''''),
     (''expires'', ''''),
     (''from'', ''''),
     (''host'', ''''),
     (''if-match'', ''''),
     (''if-modified-since'', ''''),
     (''if-none-match'', ''''),
     (''if-range'', ''''),
     (''if-unmodified-since'', ''''),
     (''last-modified'', ''''),
     (''link'', ''''),
     (''location'', ''''),
     (''max-forwards'', ''''),
     (''proxy-authenticate'', ''''),
     (''proxy-authorization'', ''''),
     (''range'', ''''),
     (''referer'', ''''),
     (''refresh'', ''''),
     (''retry-after'', ''''),
     (''server'', ''''),
     (''set-cookie'', ''''),
     (''strict-transport-security'', ''''),
     (''transfer-encoding'', ''''),
     (''user-agent'', ''''),
     (''vary'', ''''),
     (''via'', ''''),
     (''www-authenticate'', '''')]"

definition STATIC_LEN :: nat where "STATIC_LEN = length STATIC_TABLE"

definition ENTRY_OVERHEAD :: nat where "ENTRY_OVERHEAD = 32"

record table_match =
  tm_index :: nat
  tm_value_matched :: bool

record dyn_table =
  dt_entries :: "entry list"
  dt_size :: nat
  dt_max_size :: nat

definition dyn_table_new :: "nat \<Rightarrow> dyn_table" where
  "dyn_table_new max_size = \<lparr>dt_entries = [], dt_size = 0, dt_max_size = max_size\<rparr>"

definition entry_size :: "byte list \<Rightarrow> byte list \<Rightarrow> nat" where
  "entry_size name val = length name + length val + ENTRY_OVERHEAD"

function evict_to_fit :: "nat \<Rightarrow> dyn_table \<Rightarrow> dyn_table" where
  "evict_to_fit incoming t =
     (if dt_max_size t < dt_size t + incoming then
        (if dt_entries t = [] then t
         else
           let (n, v) = last (dt_entries t) in
           evict_to_fit incoming
             (t\<lparr>dt_entries := butlast (dt_entries t), dt_size := dt_size t - entry_size n v\<rparr>))
      else t)"
  by pat_completeness auto
termination by (relation "measure (\<lambda>(_, t). length (dt_entries t))") auto

declare evict_to_fit.simps [simp del]

definition set_max_size :: "nat \<Rightarrow> dyn_table \<Rightarrow> dyn_table" where
  "set_max_size new_max t = evict_to_fit 0 (t\<lparr>dt_max_size := new_max\<rparr>)"

definition table_insert :: "byte list \<Rightarrow> byte list \<Rightarrow> dyn_table \<Rightarrow> dyn_table" where
  "table_insert name val t =
     (let need = entry_size name val; t1 = evict_to_fit need t in
      if need \<le> dt_max_size t1 then
        t1\<lparr>dt_entries := (name, val) # dt_entries t1, dt_size := dt_size t1 + need\<rparr>
      else t1)"

definition table_get :: "dyn_table \<Rightarrow> nat \<Rightarrow> entry option" where
  "table_get t index =
     (if index = 0 then None
      else if index \<le> STATIC_LEN then Some (STATIC_TABLE ! (index - 1))
      else
        let dyn_pos = index - STATIC_LEN - 1 in
        if dyn_pos < length (dt_entries t) then Some (dt_entries t ! dyn_pos) else None)"

text \<open>One of the two loops of \<open>find\<close>; the first entry has the given index.  \<open>Inl\<close> is the early
  return.\<close>

fun find_loop ::
  "entry list \<Rightarrow> nat \<Rightarrow> byte list \<Rightarrow> byte list \<Rightarrow> nat option \<Rightarrow> table_match + nat option" where
  "find_loop [] i name val name_only = Inr name_only"
| "find_loop ((n, v) # es) i name val name_only =
     (if n = name then
        if v = val then Inl \<lparr>tm_index = i, tm_value_matched = True\<rparr>
        else find_loop es (i + 1) name val (case name_only of None \<Rightarrow> Some i | Some j \<Rightarrow> Some j)
      else find_loop es (i + 1) name val name_only)"

definition table_find :: "dyn_table \<Rightarrow> byte list \<Rightarrow> byte list \<Rightarrow> table_match option" where
  "table_find t name val =
     (case find_loop STATIC_TABLE 1 name val None of
        Inl m \<Rightarrow> Some m
      | Inr name_only \<Rightarrow>
          (case find_loop (dt_entries t) (STATIC_LEN + 1) name val name_only of
             Inl m \<Rightarrow> Some m
           | Inr name_only' \<Rightarrow>
               map_option (\<lambda>i. \<lparr>tm_index = i, tm_value_matched = False\<rparr>) name_only'))"

section \<open>Accounting and eviction\<close>

definition entries_size :: "entry list \<Rightarrow> nat" where
  "entries_size es = sum_list (map (\<lambda>(n, v). entry_size n v) es)"

definition table_ok :: "dyn_table \<Rightarrow> bool" where
  "table_ok t \<longleftrightarrow> dt_size t = entries_size (dt_entries t) \<and> dt_size t \<le> dt_max_size t"

text \<open>The specification: the longest list of newest entries of total size at most \<open>m\<close>.\<close>

fun table_fit :: "nat \<Rightarrow> entry list \<Rightarrow> entry list" where
  "table_fit m [] = []"
| "table_fit m ((n, v) # es) =
     (if entry_size n v \<le> m then (n, v) # table_fit (m - entry_size n v) es else [])"

lemma entries_size_simps [simp]:
  "entries_size [] = 0" "entries_size ((n, v) # es) = entry_size n v + entries_size es"
  "entries_size (es @ fs) = entries_size es + entries_size fs"
  by (simp_all add: entries_size_def)

lemma table_fit_all: "entries_size es \<le> m \<Longrightarrow> table_fit m es = es"
  by (induction m es rule: table_fit.induct) auto

lemma table_fit_snoc: "m < entries_size (es @ [e]) \<Longrightarrow> table_fit m (es @ [e]) = table_fit m es"
proof (induction m es rule: table_fit.induct)
  case (1 m)
  then show ?case by (cases e) simp
qed (auto simp: less_diff_conv2)

lemma table_fit_size: "entries_size (table_fit m es) \<le> m"
  by (induction m es rule: table_fit.induct) auto

lemma table_fit_prefix: "prefix (table_fit m es) es"
  by (induction m es rule: table_fit.induct) auto

lemma table_fit_mono:
  "prefix es fs \<Longrightarrow> m \<le> m' \<Longrightarrow> prefix (table_fit m es) (table_fit m' fs)"
proof (induction m es arbitrary: m' fs rule: table_fit.induct)
  case (2 m n v es)
  then obtain gs where "fs = (n, v) # gs" "prefix es gs" by (cases fs) auto
  with 2 show ?case by auto
qed simp

definition evict_keep :: "nat \<Rightarrow> nat \<Rightarrow> entry list \<Rightarrow> entry list" where
  "evict_keep incoming m es = (if incoming \<le> m then table_fit (m - incoming) es else [])"

lemma evict_result:
  assumes "dt_size t = entries_size (dt_entries t)"
  shows "evict_to_fit incoming t = t\<lparr>dt_entries := evict_keep incoming (dt_max_size t) (dt_entries t),
    dt_size := entries_size (evict_keep incoming (dt_max_size t) (dt_entries t))\<rparr>"
  using assms
proof (induction incoming t rule: evict_to_fit.induct)
  case (1 incoming t)
  show ?case
  proof (cases "dt_max_size t < dt_size t + incoming")
    case False
    with 1(2) show ?thesis
      by (subst evict_to_fit.simps) (simp add: table_fit_all evict_keep_def)
  next
    case over: True
    show ?thesis
    proof (cases "dt_entries t" rule: rev_cases)
      case Nil
      with over 1(2) show ?thesis by (subst evict_to_fit.simps) (simp add: evict_keep_def)
    next
      case (snoc es e)
      obtain n v where e: "e = (n, v)" by (cases e)
      let ?t = "t\<lparr>dt_entries := es, dt_size := dt_size t - entry_size n v\<rparr>"
      have step: "evict_to_fit incoming t = evict_to_fit incoming ?t"
        using over snoc e by (subst evict_to_fit.simps) simp
      have ne: "dt_entries t \<noteq> []" and last: "(n, v) = last (dt_entries t)"
        and t: "t\<lparr>dt_entries := butlast (dt_entries t), dt_size := dt_size t - entry_size n v\<rparr> = ?t"
        using snoc e by simp_all
      have "dt_size ?t = entries_size (dt_entries ?t)" using 1(2) snoc e by simp
      from 1(1) [OF over ne refl last, unfolded t, OF this]
      have "evict_to_fit incoming ?t = ?t\<lparr>dt_entries := evict_keep incoming (dt_max_size t) es,
          dt_size := entries_size (evict_keep incoming (dt_max_size t) es)\<rparr>"
        by simp
      moreover have "evict_keep incoming (dt_max_size t) (es @ [e]) = evict_keep incoming (dt_max_size t) es"
        using over 1(2) snoc unfolding evict_keep_def by (auto intro!: table_fit_snoc)
      ultimately show ?thesis using snoc step by simp
    qed
  qed
qed

lemma table_insert_entries:
  assumes "table_ok t"
  shows "table_insert n v t = t\<lparr>dt_entries := table_fit (dt_max_size t) ((n, v) # dt_entries t),
    dt_size := entries_size (table_fit (dt_max_size t) ((n, v) # dt_entries t))\<rparr>"
  using evict_result [of t "entry_size n v"] assms
  by (simp add: table_insert_def table_ok_def Let_def add.commute evict_keep_def)

lemma set_max_size_entries:
  assumes "table_ok t"
  shows "set_max_size m t = t\<lparr>dt_max_size := m, dt_entries := table_fit m (dt_entries t),
    dt_size := entries_size (table_fit m (dt_entries t))\<rparr>"
  using evict_result [of "t\<lparr>dt_max_size := m\<rparr>" 0] assms
  by (simp add: set_max_size_def table_ok_def Let_def evict_keep_def)

lemma table_ok_new [simp]: "table_ok (dyn_table_new m)"
  by (simp add: table_ok_def dyn_table_new_def)

lemma table_ok_insert [simp]: "table_ok t \<Longrightarrow> table_ok (table_insert n v t)"
  using table_fit_size [of "dt_max_size t" "(n, v) # dt_entries t"]
  by (simp only: table_insert_entries) (simp add: table_ok_def)

lemma table_ok_set_max_size [simp]: "table_ok t \<Longrightarrow> table_ok (set_max_size m t)"
  using table_fit_size [of m "dt_entries t"]
  by (simp only: set_max_size_entries) (simp add: table_ok_def)

lemma table_insert_max [simp]: "table_ok t \<Longrightarrow> dt_max_size (table_insert n v t) = dt_max_size t"
  by (simp add: table_insert_entries)

section \<open>Search\<close>

lemma find_shift:
  "\<exists>k < length es. j = (i + 1) + k \<and> P (es ! k) \<Longrightarrow> \<exists>k < length (e # es). j = i + k \<and> P ((e # es) ! k)"
  by (metis add.assoc length_Cons Suc_less_eq nth_Cons_Suc plus_1_eq_Suc)

lemma find_loop_hit:
  "find_loop es i name val no = Inl m \<Longrightarrow>
   tm_value_matched m \<and> (\<exists>k < length es. tm_index m = i + k \<and> es ! k = (name, val))"
proof (induction es i name val no rule: find_loop.induct)
  case (2 n v es i name val no)
  show ?case
  proof (cases "n = name \<and> v = val")
    case True
    with 2(3) have "m = \<lparr>tm_index = i, tm_value_matched = True\<rparr>" by simp
    with True show ?thesis by force
  next
    case False
    then have "tm_value_matched m \<and> (\<exists>k < length es. tm_index m = (i + 1) + k \<and> es ! k = (name, val))"
      using 2 by (cases "n = name") simp_all
    with find_shift [of es "tm_index m" i "\<lambda>e. e = (name, val)" "(n, v)"] show ?thesis by blast
  qed
qed simp

lemma find_loop_name:
  "find_loop es i name val no = Inr (Some j) \<Longrightarrow>
   no = Some j \<or> (\<exists>k < length es. j = i + k \<and> fst (es ! k) = name)"
proof (induction es i name val no rule: find_loop.induct)
  case (2 n v es i name val no)
  note shift = find_shift [of es j i "\<lambda>e. fst e = name" "(n, v)"]
  show ?case
  proof (cases "n = name")
    case True
    with 2(3) have "v \<noteq> val" by (auto split: if_splits)
    with 2(1) [OF True] 2(3) True have "(case no of None \<Rightarrow> Some i | Some j \<Rightarrow> Some j) = Some j
        \<or> (\<exists>k < length es. j = (i + 1) + k \<and> fst (es ! k) = name)" by simp
    then show ?thesis
    proof
      assume "(case no of None \<Rightarrow> Some i | Some j \<Rightarrow> Some j) = Some j"
      with True show ?thesis by (cases no) force+
    qed (use shift in blast)
  next
    case False
    with 2(2) [OF False] 2(3) shift show ?thesis by auto
  qed
qed simp

text \<open>An index that \<open>find\<close> returns points at an entry with that name, and with that value when it
  says so.\<close>

lemma table_find_get:
  assumes "table_find t name val = Some m"
  shows "\<exists>v. table_get t (tm_index m) = Some (name, v) \<and> (tm_value_matched m \<longrightarrow> v = val)"
proof -
  have static: "table_get t (1 + k) = Some (STATIC_TABLE ! k)" if "k < length STATIC_TABLE" for k
    using that by (simp add: table_get_def STATIC_LEN_def)
  have dynamic: "table_get t (STATIC_LEN + 1 + k) = Some (dt_entries t ! k)" if "k < length (dt_entries t)" for k
    using that by (simp add: table_get_def)
  show ?thesis
  proof (cases "find_loop STATIC_TABLE 1 name val None")
    case (Inl m1)
    with assms have "m1 = m" by (simp add: table_find_def)
    with find_loop_hit [OF Inl] static show ?thesis by auto
  next
    case (Inr no)
    have name_static: "\<exists>v. table_get t j = Some (name, v)" if "no = Some j" for j
      using find_loop_name [of STATIC_TABLE 1 name val None j] Inr that static by (metis option.distinct(1) prod.collapse)
    show ?thesis
    proof (cases "find_loop (dt_entries t) (STATIC_LEN + 1) name val no")
      case (Inl m1)
      with assms Inr have "m1 = m" by (simp add: table_find_def)
      with find_loop_hit [OF Inl] dynamic show ?thesis by auto
    next
      case no': (Inr no')
      with assms Inr obtain j where j: "no' = Some j" "m = \<lparr>tm_index = j, tm_value_matched = False\<rparr>"
        by (auto simp: table_find_def)
      with find_loop_name [of "dt_entries t" "STATIC_LEN + 1" name val no j] no'
      consider "no = Some j" | k where "k < length (dt_entries t)" "j = STATIC_LEN + 1 + k" "fst (dt_entries t ! k) = name"
        by auto
      then show ?thesis
      proof cases
        case 1
        with name_static j show ?thesis by simp
      next
        case (2 k)
        with dynamic [OF 2(1)] j show ?thesis by (cases "dt_entries t ! k") simp
      qed
    qed
  qed
qed

text \<open>Two tables agree on an index that the first one has, when its entries are the newest of the
  second's.\<close>

lemma table_get_prefix:
  "prefix (dt_entries t) (dt_entries u) \<Longrightarrow> table_get t i = Some e \<Longrightarrow> table_get u i = Some e"
  by (auto simp: table_get_def prefix_def nth_append Let_def split: if_splits)

section \<open>Properties\<close>

text \<open>C22. The dynamic table refines RFC 7541's eviction rule: on a well-formed table an insertion
  leaves exactly the longest list of newest entries, the new one first, whose sizes fit; a size
  update does the same with the new bound; and the byte count stays exact and within the bound.\<close>

theorem table_refines_fit:
  assumes "table_ok t"
  shows "dt_entries (table_insert n v t) = table_fit (dt_max_size t) ((n, v) # dt_entries t)
    \<and> dt_entries (set_max_size m t) = table_fit m (dt_entries t)
    \<and> table_ok (table_insert n v t) \<and> table_ok (set_max_size m t)
    \<and> dt_max_size (table_insert n v t) = dt_max_size t \<and> dt_max_size (set_max_size m t) = m"
  using table_ok_insert [OF assms] table_ok_set_max_size [OF assms]
  by (simp add: table_insert_entries [OF assms] set_max_size_entries [OF assms])

theorem table_refines_fit_witness:
  "dt_entries (table_insert [1] [2] (dyn_table_new 40)) = [([1], [2])]"
  using conjunct1 [OF table_refines_fit [OF table_ok_new, of "[1]" "[2]" 40]]
  by (simp add: dyn_table_new_def entry_size_def ENTRY_OVERHEAD_def)

text \<open>C23. An index that \<open>find\<close> returns is one that \<open>get\<close> resolves, in the static or the dynamic
  part, to an entry with the wanted name, and with the wanted value when the match says so.\<close>

theorem table_find_sound:
  "(case table_find t name val of
      None \<Rightarrow> True
    | Some m \<Rightarrow> (case table_get t (tm_index m) of
        None \<Rightarrow> False
      | Some (n, v) \<Rightarrow> n = name \<and> (if tm_value_matched m then v = val else True)))"
  using table_find_get [of t name val] by (auto split: option.splits)

end
