(* ===== verification/HpackSync.thy ===== *)
theory HpackSync
  imports Hpack
begin

text \<open>
  The encoder and the decoder of HPACK together: the parsers read back what the emitters wrote,
  and the relation \<open>hpack_sync\<close> (the encoder's dynamic table is the newest part of the
  decoder's) survives every field, every header block and every size update.
\<close>

section \<open>Reading what was emitted\<close>

lemma and_bit_zero:
  "(b AND 0x80 = 0) = (\<not> bit b 7)" "(b AND 0x40 = 0) = (\<not> bit b 6)"
  "(b AND 0x20 = 0) = (\<not> bit b 5)" "(b AND 0x10 = 0) = (\<not> bit b 4)" for b :: byte
proof -
  have "(b AND push_bit k 1 = 0) = (\<not> bit b k)" for k
    by (simp only: bit_iff_and_push_bit_not_eq_0 not_not)
  from this [of 7] this [of 6] this [of 5] this [of 4]
  show "(b AND 0x80 = 0) = (\<not> bit b 7)" "(b AND 0x40 = 0) = (\<not> bit b 6)"
    "(b AND 0x20 = 0) = (\<not> bit b 5)" "(b AND 0x10 = 0) = (\<not> bit b 4)" by simp_all
qed

lemma encode_int_head:
  assumes "n \<le> 8"
  shows "\<exists>b rest. encode_int v n f = b # rest \<and> (\<forall>k \<ge> n. bit b k = bit f k)"
proof -
  have "bit (f OR byte_of m) k = bit f k" if "m < 2 ^ n" "n \<le> k" for m k
    using bit_byte_of_less [OF that] by (simp add: bit_or_iff)
  moreover have "v < 2 ^ n - 1 \<Longrightarrow> v < 2 ^ n" "(2 ^ n - 1 :: nat) < 2 ^ n" by simp_all
  ultimately show ?thesis unfolding encode_int_def Let_def
    by (cases "v < 2 ^ n - 1") (auto simp del: of_nat_diff)
qed

lemma encode_int_at:
  assumes "n \<le> 8" and "n \<le> k"
  shows "bit ((pre @ encode_int v n f @ post) ! length pre) k = bit f k"
  using encode_int_head [OF assms(1), of v f] assms(2) by auto

lemma take_drop_middle: "take (length b) (drop (length a + length c) (a @ c @ b @ d)) = b"
  by simp

lemma read_string_coded:
  assumes "block = pre @ (encode_int (length raw) 7 f @ raw) @ post" and "length block < 2 ^ 64"
    and "f = 0x80 \<and> h2_decode raw = Inr s \<or> f = 0 \<and> raw = s"
  shows "read_string block (length pre) = Inr (s, length pre + length (encode_int (length raw) 7 f @ raw))"
proof -
  let ?h = "encode_int (length raw) 7 f"
  have block: "block = pre @ ?h @ raw @ post" using assms(1) by simp
  have "take_bit 7 f = 0" using assms(3) by auto
  moreover have "usize_ok (length raw)" using assms(2) by (simp add: block usize_ok_def)
  ultimately have int: "decode_int block (length pre) 7 = Inr (length raw, length pre + length ?h)"
    unfolding block by (intro decode_encode_int) simp_all
  have fits: "length pre + (length ?h + length raw) \<le> length block" by (simp add: block)
  then have add: "checked_add (length pre + length ?h) (length raw) = Some (length pre + (length ?h + length raw))"
    using assms(2) by (simp add: checked_add_def)
  have pos: "length pre < length block" using encode_int_nonempty [of "length raw" 7 f] by (simp add: block)
  have "take (length raw) (drop (length pre + length ?h) block) = raw" by (simp add: block)
  moreover have "bit (block ! length pre) 7 = bit f 7" unfolding block by (rule encode_int_at) simp_all
  ultimately have "read_string block (length pre) = (if bit f 7
      then (case h2_decode raw of Inl err \<Rightarrow> Inl err
        | Inr data \<Rightarrow> Inr (data, length pre + (length ?h + length raw)))
      else Inr (raw, length pre + (length ?h + length raw)))"
    using pos fits by (simp add: read_string_def Let_def int add and_bit_zero)
  with assms(3) show ?thesis by auto
qed

lemma read_string_emit:
  assumes "block = pre @ emit_string e s @ post" and "length block < 2 ^ 64"
  shows "read_string block (length pre) = Inr (s, length pre + length (emit_string e s))"
proof (cases "he_use_huffman e \<and> h2_encoded_len s < length s")
  case True
  then have "emit_string e s = encode_int (length (h2_encode s)) 7 0x80 @ h2_encode s"
    by (simp add: emit_string_def Let_def)
  with read_string_coded [of block pre "h2_encode s" "0x80" post s] assms show ?thesis
    by (simp add: h2_decode_encode)
next
  case False
  then have "emit_string e s = encode_int (length s) 7 0 @ s" by (auto simp: emit_string_def)
  with read_string_coded [of block pre s 0 post s] assms show ?thesis by simp
qed

lemma read_literal_emit:
  assumes "block = pre @ emit_literal e pat n name_idx name val @ post" and "length block < 2 ^ 64"
    and "1 \<le> n" and "n \<le> 8" and "take_bit n pat = 0"
    and "\<And>i. name_idx = Some i \<Longrightarrow> i \<noteq> 0 \<and> usize_ok i \<and> (\<exists>v. table_get t i = Some (name, v))"
  shows "read_literal t block (length pre) n
    = Inr (name, val, length pre + length (emit_literal e pat n name_idx name val))"
proof (cases name_idx)
  case (Some i)
  let ?h = "encode_int i n pat"
  have block: "block = pre @ ?h @ emit_string e val @ post"
    using assms(1) Some by (simp add: emit_literal_def)
  from assms(6) [OF Some] have int: "decode_int block (length pre) n = Inr (i, length pre + length ?h)"
    unfolding block using assms(3-5) by (intro decode_encode_int) simp_all
  from read_string_emit [of block "pre @ ?h" e val post] block assms(2)
  have "read_string block (length pre + length ?h) = Inr (val, length pre + length ?h + length (emit_string e val))"
    by simp
  with int assms(6) [OF Some] Some show ?thesis by (auto simp: read_literal_def emit_literal_def)
next
  case None
  let ?h = "encode_int 0 n pat"
  have block: "block = pre @ ?h @ emit_string e name @ emit_string e val @ post"
    using assms(1) None by (simp add: emit_literal_def)
  have int: "decode_int block (length pre) n = Inr (0, length pre + length ?h)"
    unfolding block using assms(3-5) by (intro decode_encode_int) (simp_all add: usize_ok_def)
  from read_string_emit [of block "pre @ ?h" e name "emit_string e val @ post"] block assms(2)
  have 1: "read_string block (length pre + length ?h) = Inr (name, length pre + length ?h + length (emit_string e name))"
    by simp
  from read_string_emit [of block "pre @ ?h @ emit_string e name" e val post] block assms(2)
  have "read_string block (length pre + length ?h + length (emit_string e name))
      = Inr (val, length pre + length ?h + length (emit_string e name) + length (emit_string e val))"
    by (simp add: add.assoc)
  with int 1 None show ?thesis by (simp add: read_literal_def emit_literal_def)
qed

section \<open>Tables in step\<close>

lemma table_get_usize:
  assumes "table_get t i = Some en" and "table_ok t" and "dt_max_size t < 2 ^ 64"
  shows "i \<noteq> 0 \<and> usize_ok i"
proof -
  have "32 * length es \<le> entries_size es" for es
    by (induction es) (auto simp: entry_size_def ENTRY_OVERHEAD_def)
  from this [of "dt_entries t"] assms(2,3) have "32 * length (dt_entries t) < 2 ^ 64"
    by (simp add: table_ok_def)
  moreover have "i \<le> STATIC_LEN + length (dt_entries t)" "i \<noteq> 0"
    using assms(1) by (auto simp: table_get_def Let_def split: if_splits)
  moreover have "STATIC_LEN = 61" by (simp add: STATIC_LEN_def STATIC_TABLE_def)
  ultimately show ?thesis by (simp add: usize_ok_def)
qed

definition hpack_sync :: "hpack_encoder \<Rightarrow> hpack_decoder \<Rightarrow> bool" where
  "hpack_sync e d \<longleftrightarrow> table_ok (he_table e) \<and> table_ok (hd_table d)
     \<and> prefix (dt_entries (he_table e)) (dt_entries (hd_table d)) \<and> dt_max_size (he_table e) < 2 ^ 64
     \<and> (case he_pending e of
          None \<Rightarrow> dt_max_size (he_table e) \<le> dt_max_size (hd_table d)
        | Some m \<Rightarrow> m = dt_max_size (he_table e) \<and> m \<le> hd_size_limit d)"

definition field_size :: "header_field \<Rightarrow> nat" where
  "field_size f = length (hf_name f) + length (hf_value f) + 32"

definition list_size :: "header_field list \<Rightarrow> nat" where
  "list_size fs = sum_list (map field_size fs)"

lemma charge_field_fits:
  "used + field_size f \<le> m \<Longrightarrow> m < 2 ^ 64 \<Longrightarrow>
   charge_field used m (hf_name f) (hf_value f) = Inr (used + field_size f)"
  by (simp add: charge_field_def field_size_def saturating_add_def Let_def)

lemma hpack_sync_insert:
  assumes "hpack_sync e d" and "he_pending e = None"
  shows "hpack_sync (e\<lparr>he_table := table_insert n v (he_table e)\<rparr>)
    (d\<lparr>hd_table := table_insert n v (hd_table d)\<rparr>)"
proof -
  have ok: "table_ok (he_table e)" "table_ok (hd_table d)"
    "prefix (dt_entries (he_table e)) (dt_entries (hd_table d))"
    "dt_max_size (he_table e) \<le> dt_max_size (hd_table d)"
    using assms by (simp_all add: hpack_sync_def)
  have "prefix (dt_entries (table_insert n v (he_table e))) (dt_entries (table_insert n v (hd_table d)))"
    using ok table_fit_mono [of "(n, v) # dt_entries (he_table e)" "(n, v) # dt_entries (hd_table d)"]
    by (simp only: table_insert_entries) simp
  with assms ok show ?thesis by (simp add: hpack_sync_def)
qed

lemma decode_encode_field:
  assumes "hpack_sync e d" and "he_pending e = None" and "encode_field e f = (e', bs)"
    and "block = pre @ bs @ post" and "length block < 2 ^ 64"
    and "charge_field used (hd_max_list d) (hf_name f) (hf_value f) = Inr used'"
  shows "\<exists>d'. decode_field d block (length pre) used = (d', Inr (length pre + length bs, used', Some f))
    \<and> hpack_sync e' d' \<and> he_pending e' = None \<and> hd_max_list d' = hd_max_list d"
proof -
  let ?n = "hf_name f" and ?v = "hf_value f" and ?te = "he_table e" and ?td = "hd_table d"
  have get: "table_get ?td i = Some en \<and> i \<noteq> 0 \<and> usize_ok i" if "table_get ?te i = Some en" for i en
    using assms(1) table_get_prefix [OF _ that] table_get_usize [OF that] by (simp add: hpack_sync_def)
  have lit: "read_literal ?td block (length pre) n = Inr (?n, ?v, length pre + length bs)"
    and lit_bit: "\<And>k. n \<le> k \<Longrightarrow> bit (block ! length pre) k = bit pat k"
    if "bs = emit_literal e pat n idx ?n ?v" "1 \<le> n" "n \<le> 8" "take_bit n pat = 0"
      "\<And>i. idx = Some i \<Longrightarrow> \<exists>v. table_get ?te i = Some (?n, v)" for n pat idx
  proof -
    show "read_literal ?td block (length pre) n = Inr (?n, ?v, length pre + length bs)"
      unfolding that(1) by (rule read_literal_emit [OF _ assms(5) that(2-4)]) (use assms(4) that(1,5) get in blast)+
    show "bit (block ! length pre) k = bit pat k" if k: "n \<le> k" for k
      using encode_int_at [OF \<open>n \<le> 8\<close> k] \<open>bs = emit_literal e pat n idx ?n ?v\<close> assms(4)
      by (simp add: emit_literal_def split: option.splits)
  qed
  show ?thesis
  proof (cases "hf_sensitive f")
    case True
    define idx where "idx = (case map_option tm_index (table_find ?te ?n ?v) of
        Some i \<Rightarrow> if (case table_get ?te i of Some (n, _) \<Rightarrow> n = ?n | None \<Rightarrow> False) then Some i else None
      | None \<Rightarrow> None)"
    have "encode_field e f = (e, emit_literal e 0x10 4 idx ?n ?v)"
      unfolding encode_field_def Let_def idx_def if_P [OF True] ..
    with assms(3) have bs: "bs = emit_literal e 0x10 4 idx ?n ?v" "e' = e" by auto
    have "\<exists>v. table_get ?te i = Some (?n, v)" if "idx = Some i" for i
      using that by (auto simp: idx_def split: option.splits if_splits)
    note L = lit [OF bs(1) _ _ _ this] and B = lit_bit [OF bs(1) _ _ _ this]
    have f: "\<lparr>hf_name = ?n, hf_value = ?v, hf_sensitive = True\<rparr> = f" using True by simp
    have "\<not> bit (block ! length pre) 7" "\<not> bit (block ! length pre) 6"
      "\<not> bit (block ! length pre) 5" "bit (block ! length pre) 4"
      using B [of 7] B [of 6] B [of 5] B [of 4] by simp_all
    with L have "decode_field d block (length pre) used = (d, Inr (length pre + length bs, used', Some f))"
      by (simp add: decode_field_def Let_def and_bit_zero assms(6) f)
    with assms(1,2) bs(2) show ?thesis by auto
  next
    case not_sensitive: False
    then have f: "f = \<lparr>hf_name = ?n, hf_value = ?v, hf_sensitive = False\<rparr>" by (cases f) simp
    note f = f [symmetric]
    show ?thesis
    proof (cases "\<exists>m. table_find ?te ?n ?v = Some m \<and> tm_value_matched m")
      case True
      then obtain m where m: "table_find ?te ?n ?v = Some m" "tm_value_matched m" by blast
      with assms(3) not_sensitive have bs: "bs = encode_int (tm_index m) 7 0x80" "e' = e"
        by (simp_all add: encode_field_def Let_def)
      from table_find_get [OF m(1)] m(2) get have g: "table_get ?td (tm_index m) = Some (?n, ?v)"
        "tm_index m \<noteq> 0" "usize_ok (tm_index m)" by auto
      have "decode_int block (length pre) 7 = Inr (tm_index m, length pre + length bs)"
        unfolding assms(4) bs by (intro decode_encode_int g(3)) simp_all
      moreover have "bit (block ! length pre) 7" unfolding assms(4) bs
        using encode_int_at [of 7 7 pre "tm_index m" "0x80" post] by simp
      ultimately have "decode_field d block (length pre) used = (d, Inr (length pre + length bs, used', Some f))"
        using g by (simp add: decode_field_def Let_def and_bit_zero assms(6) f)
      with assms(1,2) bs(2) show ?thesis by auto
    next
      case False
      define idx where "idx = map_option tm_index (table_find ?te ?n ?v)"
      have bs: "bs = emit_literal e 0x40 6 idx ?n ?v" "e' = e\<lparr>he_table := table_insert ?n ?v ?te\<rparr>"
        using assms(3) not_sensitive False
        by (auto simp: encode_field_def Let_def idx_def split: option.splits)
      have "\<exists>v. table_get ?te i = Some (?n, v)" if "idx = Some i" for i
        using that table_find_get [of ?te ?n ?v] by (auto simp: idx_def)
      note L = lit [OF bs(1) _ _ _ this] and B = lit_bit [OF bs(1) _ _ _ this]
      have "\<not> bit (block ! length pre) 7" "bit (block ! length pre) 6"
        using B [of 7] B [of 6] by simp_all
      with L have "decode_field d block (length pre) used
          = (d\<lparr>hd_table := table_insert ?n ?v ?td\<rparr>, Inr (length pre + length bs, used', Some f))"
        by (simp add: decode_field_def Let_def and_bit_zero assms(6) f)
      with hpack_sync_insert [OF assms(1,2)] bs(2) assms(2) show ?thesis by auto
    qed
  qed
qed

section \<open>Blocks\<close>

lemma decode_encode_fields:
  assumes "hpack_sync e d" and "he_pending e = None" and "encode_fields e fs = (e', bs)"
    and "length (pre @ bs) < 2 ^ 64" and "used + list_size fs \<le> hd_max_list d" and "hd_max_list d < 2 ^ 64"
  shows "\<exists>d'. hpack_decode_loop d (pre @ bs) (length pre) used got = (d', Inr (got @ fs))
    \<and> hpack_sync e' d' \<and> he_pending e' = None \<and> hd_max_list d' = hd_max_list d"
  using assms
proof (induction fs arbitrary: e d pre used got bs)
  case Nil
  then show ?case by (subst hpack_decode_loop.simps) auto
next
  case (Cons f fs)
  obtain e1 b1 where 1: "encode_field e f = (e1, b1)" by fastforce
  obtain b2 where 2: "encode_fields e1 fs = (e', b2)" and bs: "bs = b1 @ b2"
    using Cons.prems(3) 1 by (auto split: prod.splits)
  have charge: "charge_field used (hd_max_list d) (hf_name f) (hf_value f) = Inr (used + field_size f)"
    using Cons.prems(5,6) by (intro charge_field_fits) (simp_all add: list_size_def)
  have len: "length (pre @ b1 @ b2) < 2 ^ 64" using Cons.prems(4) bs by simp
  obtain d1 where d1: "decode_field d (pre @ b1 @ b2) (length pre) used
      = (d1, Inr (length pre + length b1, used + field_size f, Some f))"
    "hpack_sync e1 d1" "he_pending e1 = None" "hd_max_list d1 = hd_max_list d"
    using decode_encode_field [OF Cons.prems(1,2) 1 refl len charge] by blast
  have "length pre < length (pre @ b1 @ b2)"
    using decode_field_pos [OF d1(1)] by simp
  then have "hpack_decode_loop d (pre @ b1 @ b2) (length pre) used got
      = hpack_decode_loop d1 (pre @ b1 @ b2) (length pre + length b1) (used + field_size f) (got @ [f])"
    using d1(1) by (subst hpack_decode_loop.simps) simp
  moreover have "length ((pre @ b1) @ b2) < 2 ^ 64" using len by simp
  moreover have "used + field_size f + list_size fs \<le> hd_max_list d1"
    using Cons.prems(5) d1(4) by (simp add: list_size_def)
  ultimately show ?case
    using Cons.IH [OF d1(2,3) 2, of "pre @ b1" "used + field_size f" "got @ [f]"] Cons.prems(6) d1(4) bs
    by simp
qed

lemma hpack_sync_resize:
  assumes "hpack_sync e d" and "he_pending e = Some m"
  shows "hpack_sync (e\<lparr>he_pending := None\<rparr>) (d\<lparr>hd_table := set_max_size m (hd_table d)\<rparr>)"
proof -
  have ok: "table_ok (he_table e)" "table_ok (hd_table d)" "m = dt_max_size (he_table e)"
    "prefix (dt_entries (he_table e)) (dt_entries (hd_table d))"
    using assms by (simp_all add: hpack_sync_def)
  then have "table_fit m (dt_entries (he_table e)) = dt_entries (he_table e)"
    by (intro table_fit_all) (simp add: table_ok_def)
  with ok table_fit_mono [of "dt_entries (he_table e)" "dt_entries (hd_table d)" m m]
  have "prefix (dt_entries (he_table e)) (dt_entries (set_max_size m (hd_table d)))"
    by (simp add: set_max_size_entries)
  moreover have "dt_max_size (set_max_size m (hd_table d)) = m" using ok(2) by (simp add: set_max_size_entries)
  ultimately show ?thesis using assms table_ok_set_max_size [OF ok(2), of m] by (simp add: hpack_sync_def)
qed

lemma decode_encode_block:
  assumes "hpack_sync e d" and "hpack_encode e fs = (e', block)" and "length block < 2 ^ 64"
    and "list_size fs \<le> hd_max_list d" and "hd_max_list d < 2 ^ 64"
  shows "\<exists>d'. hpack_decode d block = (d', Inr fs) \<and> hpack_sync e' d' \<and> hd_max_list d' = hd_max_list d"
proof (cases "he_pending e")
  case None
  with assms(2) have "encode_fields e fs = (e', block)" by (simp add: hpack_encode_def)
  from decode_encode_fields [OF assms(1) None this, of "[]" 0 "[]"] assms(3-5) show ?thesis
    by (auto simp: hpack_decode_def)
next
  case (Some m)
  let ?e = "e\<lparr>he_pending := None\<rparr>" and ?d = "d\<lparr>hd_table := set_max_size m (hd_table d)\<rparr>"
  let ?h = "encode_int m 5 0x20"
  obtain bs where bs: "encode_fields ?e fs = (e', bs)" "block = ?h @ bs"
    using assms(2) Some by (auto simp: hpack_encode_def split: prod.splits)
  have m: "m < 2 ^ 64" "m \<le> hd_size_limit d" using assms(1) Some by (simp_all add: hpack_sync_def)
  then have int: "decode_int block 0 5 = Inr (m, length ?h)"
    using decode_encode_int [of 5 m "0x20" "[]" bs] bs(2) by (simp add: usize_ok_def)
  have "bit (block ! 0) k = bit (0x20 :: byte) k" if "5 \<le> k" for k
    using encode_int_at [of 5 k "[]" m "0x20" bs] that bs(2) by simp
  from this [of 7] this [of 6] this [of 5]
  have "\<not> bit (block ! 0) 7" "\<not> bit (block ! 0) 6" "bit (block ! 0) 5" by simp_all
  with int m(2) have field: "decode_field d block 0 0 = (?d, Inr (length ?h, 0, None))"
    by (simp add: decode_field_def Let_def and_bit_zero)
  have "0 < length block" using encode_int_nonempty [of m 5 "0x20"] bs(2) by simp
  then have "hpack_decode d block = hpack_decode_loop ?d block (length ?h) 0 []"
    unfolding hpack_decode_def by (subst hpack_decode_loop.simps) (simp add: field)
  with decode_encode_fields [OF hpack_sync_resize [OF assms(1) Some] _ bs(1), of ?h 0 "[]"] assms(3-5) bs(2)
  show ?thesis by auto
qed

fun encode_blocks :: "hpack_encoder \<Rightarrow> header_field list list \<Rightarrow> hpack_encoder \<times> byte list list" where
  "encode_blocks e [] = (e, [])"
| "encode_blocks e (fs # fss) =
     (case hpack_encode e fs of (e1, b) \<Rightarrow> (case encode_blocks e1 fss of (e2, bs) \<Rightarrow> (e2, b # bs)))"

fun decode_blocks :: "hpack_decoder \<Rightarrow> byte list list \<Rightarrow> hpack_decoder \<times> (error + header_field list) list" where
  "decode_blocks d [] = (d, [])"
| "decode_blocks d (b # bs) =
     (case hpack_decode d b of (d1, r) \<Rightarrow> (case decode_blocks d1 bs of (d2, rs) \<Rightarrow> (d2, r # rs)))"

lemma decode_encode_blocks:
  assumes "hpack_sync e d" and "encode_blocks e fss = (e', blocks)"
    and "\<forall>b \<in> set blocks. length b < 2 ^ 64" and "\<forall>fs \<in> set fss. list_size fs \<le> hd_max_list d"
    and "hd_max_list d < 2 ^ 64"
  shows "\<exists>d'. decode_blocks d blocks = (d', map Inr fss) \<and> hpack_sync e' d'"
  using assms
proof (induction fss arbitrary: e d blocks)
  case (Cons fs fss)
  obtain e1 b where 1: "hpack_encode e fs = (e1, b)" by fastforce
  obtain bs where 2: "encode_blocks e1 fss = (e', bs)" and blocks: "blocks = b # bs"
    using Cons.prems(2) 1 by (auto split: prod.splits)
  obtain d1 where d1: "hpack_decode d b = (d1, Inr fs)" "hpack_sync e1 d1" "hd_max_list d1 = hd_max_list d"
    using decode_encode_block [OF Cons.prems(1) 1] Cons.prems(3-5) blocks by auto
  from Cons.IH [OF d1(2) 2] Cons.prems(3-5) d1 blocks show ?case by auto
qed auto

lemma hpack_sync_start:
  assumes "m \<le> limit" and "m < 2 ^ 64" and "e = hpack_encoder_with_max m \<or> m = DEFAULT_TABLE_SIZE \<and> e = hpack_encoder_new"
  shows "hpack_sync e (hpack_decoder_with_limits limit cap)"
  using assms by (auto simp: hpack_sync_def hpack_encoder_with_max_def hpack_encoder_new_def
      hpack_decoder_with_limits_def dyn_table_new_def table_ok_def DEFAULT_TABLE_SIZE_def)

section \<open>What the decoder keeps on any input\<close>

definition decoder_ok :: "hpack_decoder \<Rightarrow> bool" where
  "decoder_ok d \<longleftrightarrow> table_ok (hd_table d) \<and> dt_max_size (hd_table d) \<le> hd_size_limit d"

lemma decode_field_ok:
  assumes "decode_field d block pos used = (d', r)" and "decoder_ok d"
  shows "decoder_ok d' \<and> hd_size_limit d' = hd_size_limit d \<and> hd_max_list d' = hd_max_list d"
proof -
  have ok: "table_ok (hd_table d)" "dt_max_size (hd_table d) \<le> hd_size_limit d"
    using assms(2) by (simp_all add: decoder_ok_def)
  have keep: "decoder_ok (d\<lparr>hd_table := table_insert n v (hd_table d)\<rparr>)" for n v
    using ok by (simp add: decoder_ok_def)
  have "dt_max_size (set_max_size m (hd_table d)) = m" for m
    using ok(1) by (simp add: set_max_size_entries)
  then have resize: "decoder_ok (d\<lparr>hd_table := set_max_size m (hd_table d)\<rparr>)" if "\<not> hd_size_limit d < m" for m
    using ok that by (simp add: decoder_ok_def)
  consider "d' = d" | n v where "d' = d\<lparr>hd_table := table_insert n v (hd_table d)\<rparr>"
    | m where "d' = d\<lparr>hd_table := set_max_size m (hd_table d)\<rparr>" "\<not> hd_size_limit d < m"
    using assms(1) unfolding decode_field_def Let_def
    by (auto split: if_splits sum.splits option.splits prod.splits)
  then show ?thesis using keep resize assms(2) by cases auto
qed

lemma decode_field_charge:
  assumes "decode_field d block pos used = (d', Inr (np, used', f))"
  shows "case f of None \<Rightarrow> used' = used
    | Some x \<Rightarrow> used' = min (used + field_size x) (2 ^ 64 - 1) \<and> used' \<le> hd_max_list d"
proof -
  have charge: "u = min (used + (length n + length v + 32)) (2 ^ 64 - 1) \<and> u \<le> hd_max_list d"
    if "charge_field used (hd_max_list d) n v = Inr u" for n v u
    using that by (auto simp: charge_field_def saturating_add_def Let_def split: if_splits)
  consider "f = None" "used' = used"
    | n v s where "charge_field used (hd_max_list d) n v = Inr used'"
        "f = Some \<lparr>hf_name = n, hf_value = v, hf_sensitive = s\<rparr>"
    using assms unfolding decode_field_def Let_def
    by (auto split: if_splits sum.splits option.splits prod.splits)
  then show ?thesis using charge by cases (auto simp: field_size_def)
qed

lemma hpack_decode_loop_bounds:
  assumes "hpack_decode_loop d block pos used got = (d', r)" and "decoder_ok d"
  shows "decoder_ok d' \<and> hd_size_limit d' = hd_size_limit d
    \<and> (\<forall>fs. r = Inr fs \<longrightarrow> used = min (list_size got) (2 ^ 64 - 1) \<longrightarrow>
        used \<le> hd_max_list d \<longrightarrow> min (list_size fs) (2 ^ 64 - 1) \<le> hd_max_list d)"
  using assms
proof (induction d block pos used got rule: hpack_decode_loop.induct)
  case (1 d block pos used got)
  show ?case
  proof (cases "pos < length block")
    case False
    with 1(2,3) show ?thesis by (subst (asm) hpack_decode_loop.simps) auto
  next
    case True
    obtain d1 r1 where f: "decode_field d block pos used = (d1, r1)" by fastforce
    note keep = decode_field_ok [OF f 1(3)]
    show ?thesis
    proof (cases r1)
      case (Inl e)
      with 1(2) True f keep show ?thesis by (subst (asm) hpack_decode_loop.simps) auto
    next
      case (Inr x)
      obtain np u g where x: "x = (np, u, g)" by (metis prod_cases3)
      let ?got = "case g of None \<Rightarrow> got | Some x \<Rightarrow> got @ [x]"
      have f': "decode_field d block pos used = (d1, Inr (np, u, g))" using f Inr x by simp
      have "hpack_decode_loop d1 block np u ?got = (d', r)"
        using 1(2) True f' by (subst (asm) hpack_decode_loop.simps) simp
      from 1(1) [OF True f' [symmetric] refl refl refl this] keep
      have IH: "decoder_ok d'" "hd_size_limit d' = hd_size_limit d1"
        "\<And>fs. r = Inr fs \<Longrightarrow> u = min (list_size ?got) (2 ^ 64 - 1) \<Longrightarrow> u \<le> hd_max_list d1 \<Longrightarrow>
           min (list_size fs) (2 ^ 64 - 1) \<le> hd_max_list d1" by blast+
      have "u = min (list_size ?got) (2 ^ 64 - 1) \<and> u \<le> hd_max_list d"
        if "used = min (list_size got) (2 ^ 64 - 1)" "used \<le> hd_max_list d"
        using decode_field_charge [OF f'] that by (cases g) (auto simp: list_size_def)
      with IH keep show ?thesis by auto
    qed
  qed
qed

section \<open>Properties\<close>

text \<open>C12. An HPACK connection: whatever header lists an encoder is given, block after block, a
  decoder in step with it returns exactly those lists (names, values and sensitivity), and stays
  in step.  \<open>hpack_sync\<close> asks that the encoder's dynamic table is the newest part of the
  decoder's and that its bound is not above the decoder's; the lists have to fit the decoder's
  cap.\<close>

theorem hpack_connection_roundtrip:
  assumes "hpack_sync e d" and "encode_blocks e fss = (e', blocks)"
    and "\<forall>b \<in> set blocks. length b < 2 ^ 64" and "\<forall>fs \<in> set fss. list_size fs \<le> hd_max_list d"
    and "hd_max_list d < 2 ^ 64"
  shows "\<exists>d'. decode_blocks d blocks = (d', map Inr fss) \<and> hpack_sync e' d'"
  by (rule decode_encode_blocks [OF assms])

lemma sample_block:
  "hpack_encode hpack_encoder_new [\<lparr>hf_name = bytes_of '':method'', hf_value = bytes_of ''GET'', hf_sensitive = False\<rparr>]
    = (hpack_encoder_new, [0x82])"
  by (simp add: hpack_encode_def hpack_encoder_new_def encode_field_def table_find_def STATIC_TABLE_def
      bytes_of_def Let_def encode_int_def)

theorem hpack_connection_roundtrip_witness:
  "\<exists>d'. decode_blocks hpack_decoder_default [[0x82]]
     = (d', [Inr [\<lparr>hf_name = bytes_of '':method'', hf_value = bytes_of ''GET'', hf_sensitive = False\<rparr>]])"
proof -
  let ?f = "\<lparr>hf_name = bytes_of '':method'', hf_value = bytes_of ''GET'', hf_sensitive = False\<rparr>"
  have sync: "hpack_sync hpack_encoder_new hpack_decoder_default"
    unfolding hpack_decoder_default_def
    by (rule hpack_sync_start [of DEFAULT_TABLE_SIZE]) (simp_all add: DEFAULT_TABLE_SIZE_def)
  have blocks: "encode_blocks hpack_encoder_new [[?f]] = (hpack_encoder_new, [[0x82]])"
    by (simp add: sample_block)
  have cap: "hd_max_list hpack_decoder_default = 65536"
    by (simp add: hpack_decoder_default_def hpack_decoder_with_limits_def DEFAULT_MAX_HEADER_LIST_SIZE_def)
  show ?thesis
    using hpack_connection_roundtrip [OF sync blocks] cap
    by (auto simp: list_size_def field_size_def bytes_of_def)
qed

text \<open>The encoders and decoders the constructors build are in step whenever the encoder's
  table bound is within the decoder's limit: the default encoder with a decoder of at least 4096
  bytes, and an encoder with its own bound, whose first block announces it.\<close>

theorem hpack_starts_in_sync:
  assumes "m \<le> limit" and "m < 2 ^ 64"
  shows "hpack_sync (hpack_encoder_with_max m) (hpack_decoder_with_limits limit cap)
    \<and> (if DEFAULT_TABLE_SIZE \<le> limit
        then hpack_sync hpack_encoder_new (hpack_decoder_with_limits limit cap) else True)"
  using hpack_sync_start [OF assms, of "hpack_encoder_with_max m" cap]
    hpack_sync_start [of DEFAULT_TABLE_SIZE limit hpack_encoder_new cap]
  by (simp add: DEFAULT_TABLE_SIZE_def)

theorem hpack_starts_in_sync_witness:
  "hpack_sync (hpack_encoder_with_max 256) (hpack_decoder_with_limits 4096 65536)"
  using conjunct1 [OF hpack_starts_in_sync [of 256 4096 65536]] by simp

text \<open>C13. The decoder is safe on any block: its dynamic table keeps an exact byte count within its
  bound, the bound never exceeds the connection's limit, and a list it returns has a total size
  (saturating at \<open>usize::MAX\<close>) within the cap.\<close>

theorem hpack_decode_safe:
  assumes "decoder_ok d" and "hpack_decode d block = (d', r)"
  shows "decoder_ok d' \<and> hd_size_limit d' = hd_size_limit d
    \<and> (case r of Inl _ \<Rightarrow> True | Inr fs \<Rightarrow> min (list_size fs) (2 ^ 64 - 1) \<le> hd_max_list d)"
  using hpack_decode_loop_bounds [OF assms(2) [unfolded hpack_decode_def] assms(1)]
  by (auto simp: list_size_def split: sum.split)

theorem hpack_decode_safe_witness:
  "decoder_ok (fst (hpack_decode (hpack_decoder_with_limits 4096 65536) [0x3f, 0xff, 0x01, 0x40]))"
proof -
  have "decoder_ok (hpack_decoder_with_limits 4096 65536)"
    by (simp add: decoder_ok_def hpack_decoder_with_limits_def) (simp add: dyn_table_new_def)
  from hpack_decode_safe [OF this prod.collapse [symmetric]] show ?thesis by simp
qed

text \<open>Every field's encoding leaves the table alone when the field is sensitive: a field so
  marked is never indexed.\<close>

theorem hpack_sensitive_not_indexed:
  assumes "hf_sensitive f"
  shows "fst (encode_field e f) = e"
  using assms by (simp add: encode_field_def Let_def)

theorem hpack_sensitive_not_indexed_witness:
  "fst (encode_field hpack_encoder_new \<lparr>hf_name = [1], hf_value = [2], hf_sensitive = True\<rparr>) = hpack_encoder_new"
  by (rule hpack_sensitive_not_indexed) simp

end
