(* ===== verification/QpackTable.thy ===== *)
theory QpackTable
  imports HpackTable
begin

text \<open>
  QPACK's static table (\<open>src/qpack/static_table.rs\<close>) and dynamic table
  (\<open>src/qpack/dynamic_table.rs\<close>, RFC 9204 section 3.2).  Entries are kept oldest first and are
  addressed by an absolute index that never changes; the lemmas show the accounting invariant
  and that a lookup by absolute index survives every insertion that does not evict it.
\<close>

section \<open>Static table\<close>

definition QPACK_STATIC :: "entry list" where
  "QPACK_STATIC = map (\<lambda>(n, v). (bytes_of n, bytes_of v))
    [('':authority'', ''''),
     ('':path'', ''/''),
     (''age'', ''0''),
     (''content-disposition'', ''''),
     (''content-length'', ''0''),
     (''cookie'', ''''),
     (''date'', ''''),
     (''etag'', ''''),
     (''if-modified-since'', ''''),
     (''if-none-match'', ''''),
     (''last-modified'', ''''),
     (''link'', ''''),
     (''location'', ''''),
     (''referer'', ''''),
     (''set-cookie'', ''''),
     ('':method'', ''CONNECT''),
     ('':method'', ''DELETE''),
     ('':method'', ''GET''),
     ('':method'', ''HEAD''),
     ('':method'', ''OPTIONS''),
     ('':method'', ''POST''),
     ('':method'', ''PUT''),
     ('':scheme'', ''http''),
     ('':scheme'', ''https''),
     ('':status'', ''103''),
     ('':status'', ''200''),
     ('':status'', ''304''),
     ('':status'', ''404''),
     ('':status'', ''503''),
     (''accept'', ''*/*''),
     (''accept'', ''application/dns-message''),
     (''accept-encoding'', ''gzip, deflate, br''),
     (''accept-ranges'', ''bytes''),
     (''access-control-allow-headers'', ''cache-control''),
     (''access-control-allow-headers'', ''content-type''),
     (''access-control-allow-origin'', ''*''),
     (''cache-control'', ''max-age=0''),
     (''cache-control'', ''max-age=2592000''),
     (''cache-control'', ''max-age=604800''),
     (''cache-control'', ''no-cache''),
     (''cache-control'', ''no-store''),
     (''cache-control'', ''public, max-age=31536000''),
     (''content-encoding'', ''br''),
     (''content-encoding'', ''gzip''),
     (''content-type'', ''application/dns-message''),
     (''content-type'', ''application/javascript''),
     (''content-type'', ''application/json''),
     (''content-type'', ''application/x-www-form-urlencoded''),
     (''content-type'', ''image/gif''),
     (''content-type'', ''image/jpeg''),
     (''content-type'', ''image/png''),
     (''content-type'', ''text/css''),
     (''content-type'', ''text/html; charset=utf-8''),
     (''content-type'', ''text/plain''),
     (''content-type'', ''text/plain;charset=utf-8''),
     (''range'', ''bytes=0-''),
     (''strict-transport-security'', ''max-age=31536000''),
     (''strict-transport-security'', ''max-age=31536000; includesubdomains''),
     (''strict-transport-security'', ''max-age=31536000; includesubdomains; preload''),
     (''vary'', ''accept-encoding''),
     (''vary'', ''origin''),
     (''x-content-type-options'', ''nosniff''),
     (''x-xss-protection'', ''1; mode=block''),
     ('':status'', ''100''),
     ('':status'', ''204''),
     ('':status'', ''206''),
     ('':status'', ''302''),
     ('':status'', ''400''),
     ('':status'', ''403''),
     ('':status'', ''421''),
     ('':status'', ''425''),
     ('':status'', ''500''),
     (''accept-language'', ''''),
     (''access-control-allow-credentials'', ''FALSE''),
     (''access-control-allow-credentials'', ''TRUE''),
     (''access-control-allow-headers'', ''*''),
     (''access-control-allow-methods'', ''get''),
     (''access-control-allow-methods'', ''get, post, options''),
     (''access-control-allow-methods'', ''options''),
     (''access-control-expose-headers'', ''content-length''),
     (''access-control-request-headers'', ''content-type''),
     (''access-control-request-method'', ''get''),
     (''access-control-request-method'', ''post''),
     (''alt-svc'', ''clear''),
     (''authorization'', ''''),
     (''content-security-policy'', ''script-src '' @ [CHR 0x27] @ ''none'' @ [CHR 0x27] @
        ''; object-src '' @ [CHR 0x27] @ ''none'' @ [CHR 0x27] @
        ''; base-uri '' @ [CHR 0x27] @ ''none'' @ [CHR 0x27]),
     (''early-data'', ''1''),
     (''expect-ct'', ''''),
     (''forwarded'', ''''),
     (''if-range'', ''''),
     (''origin'', ''''),
     (''purpose'', ''prefetch''),
     (''server'', ''''),
     (''timing-allow-origin'', ''*''),
     (''upgrade-insecure-requests'', ''1''),
     (''user-agent'', ''''),
     (''x-forwarded-for'', ''''),
     (''x-frame-options'', ''deny''),
     (''x-frame-options'', ''sameorigin'')]"

definition static_get :: "nat \<Rightarrow> entry option" where
  "static_get index = (if index < length QPACK_STATIC then Some (QPACK_STATIC ! index) else None)"

definition static_find :: "byte list \<Rightarrow> byte list \<Rightarrow> (nat \<times> bool) option" where
  "static_find name val =
     (case find_loop QPACK_STATIC 0 name val None of
        Inl m \<Rightarrow> Some (tm_index m, True)
      | Inr name_only \<Rightarrow> map_option (\<lambda>i. (i, False)) name_only)"

section \<open>Dynamic table\<close>

record qtable =
  qt_entries :: "entry list"
  qt_size :: nat
  qt_capacity :: nat
  qt_insert_count :: nat
  qt_dropped :: nat

definition qtable_new :: qtable where
  "qtable_new = \<lparr>qt_entries = [], qt_size = 0, qt_capacity = 0, qt_insert_count = 0, qt_dropped = 0\<rparr>"

function q_evict :: "nat \<Rightarrow> qtable \<Rightarrow> qtable" where
  "q_evict incoming t =
     (if qt_capacity t < qt_size t + incoming then
        (case qt_entries t of
           [] \<Rightarrow> t
         | (n, v) # es \<Rightarrow>
             q_evict incoming
               (t\<lparr>qt_entries := es, qt_size := qt_size t - entry_size n v,
                  qt_dropped := qt_dropped t + 1\<rparr>))
      else t)"
  by pat_completeness auto
termination by (relation "measure (\<lambda>(_, t). length (qt_entries t))") auto

declare q_evict.simps [simp del]

definition q_set_capacity :: "nat \<Rightarrow> nat \<Rightarrow> qtable \<Rightarrow> qtable \<times> bool" where
  "q_set_capacity new_capacity max_size t =
     (if max_size < new_capacity then (t, False)
      else (q_evict 0 (t\<lparr>qt_capacity := new_capacity\<rparr>), True))"

definition q_can_insert :: "byte list \<Rightarrow> byte list \<Rightarrow> qtable \<Rightarrow> bool" where
  "q_can_insert name val t \<longleftrightarrow> entry_size name val \<le> qt_capacity t"

definition q_insert :: "byte list \<Rightarrow> byte list \<Rightarrow> qtable \<Rightarrow> qtable \<times> nat option" where
  "q_insert name val t =
     (let need = entry_size name val in
      if qt_capacity t < need then (t, None)
      else
        let t1 = q_evict need t; ix = qt_insert_count t1 in
        (t1\<lparr>qt_entries := qt_entries t1 @ [(name, val)], qt_size := qt_size t1 + need,
            qt_insert_count := qt_insert_count t1 + 1\<rparr>, Some ix))"

text \<open>The search runs over the entries from the newest; the entry at the head has absolute index
  \<open>dropped\<close> plus the number of older ones.\<close>

fun q_find_loop ::
  "nat \<Rightarrow> entry list \<Rightarrow> byte list \<Rightarrow> byte list \<Rightarrow> nat option \<Rightarrow> nat + nat option" where
  "q_find_loop dropped [] name val name_only = Inr name_only"
| "q_find_loop dropped ((n, v) # older) name val name_only =
     (let ix = dropped + length older in
      if n = name then
        if v = val then Inl ix
        else q_find_loop dropped older name val (if name_only = None then Some ix else name_only)
      else q_find_loop dropped older name val name_only)"

definition q_find :: "qtable \<Rightarrow> byte list \<Rightarrow> byte list \<Rightarrow> (nat \<times> bool) option" where
  "q_find t name val =
     (case q_find_loop (qt_dropped t) (rev (qt_entries t)) name val None of
        Inl ix \<Rightarrow> Some (ix, True)
      | Inr name_only \<Rightarrow> map_option (\<lambda>ix. (ix, False)) name_only)"

fun q_floor_loop :: "nat \<Rightarrow> nat \<Rightarrow> entry list \<Rightarrow> nat \<Rightarrow> nat \<Rightarrow> nat" where
  "q_floor_loop limit incoming [] sz dropped = dropped"
| "q_floor_loop limit incoming ((n, v) # es) sz dropped =
     (if limit < sz + incoming
      then q_floor_loop limit incoming es (sz - entry_size n v) (dropped + 1)
      else dropped)"

definition q_evict_floor :: "nat \<Rightarrow> qtable \<Rightarrow> nat" where
  "q_evict_floor incoming t =
     q_floor_loop (qt_capacity t) incoming (qt_entries t) (qt_size t) (qt_dropped t)"

definition q_get :: "qtable \<Rightarrow> nat \<Rightarrow> entry option" where
  "q_get t ix =
     (if ix < qt_dropped t \<or> qt_insert_count t \<le> ix then None
      else if ix - qt_dropped t < length (qt_entries t) then Some (qt_entries t ! (ix - qt_dropped t))
      else None)"

definition checked_sub :: "nat \<Rightarrow> nat \<Rightarrow> nat option" where
  "checked_sub a b = (if b \<le> a then Some (a - b) else None)"

definition q_relative_encoder :: "qtable \<Rightarrow> nat \<Rightarrow> nat option" where
  "q_relative_encoder t rel =
     (case checked_sub (qt_insert_count t) 1 of None \<Rightarrow> None | Some newest \<Rightarrow> checked_sub newest rel)"

definition q_relative_field :: "nat \<Rightarrow> nat \<Rightarrow> nat option" where
  "q_relative_field base rel =
     (case checked_sub base rel of None \<Rightarrow> None | Some x \<Rightarrow> checked_sub x 1)"

section \<open>Accounting\<close>

text \<open>The byte count is exact and within the capacity, and the counters frame the live entries.\<close>

definition qtable_ok :: "qtable \<Rightarrow> bool" where
  "qtable_ok t \<longleftrightarrow> qt_size t = entries_size (qt_entries t) \<and> qt_size t \<le> qt_capacity t
     \<and> qt_insert_count t = qt_dropped t + length (qt_entries t)"

text \<open>What eviction removes: the entries before the floor.\<close>

lemma q_floor_loop_ge: "dropped \<le> q_floor_loop limit incoming es sz dropped"
  by (induction limit incoming es sz dropped rule: q_floor_loop.induct) auto

lemma q_floor_loop_le: "q_floor_loop limit incoming es sz dropped \<le> dropped + length es"
  by (induction limit incoming es sz dropped rule: q_floor_loop.induct) auto

lemma q_floor_loop_fits:
  "sz = entries_size es \<Longrightarrow>
   (let k = q_floor_loop limit incoming es sz dropped - dropped in
     drop k es = [] \<or> entries_size (drop k es) + incoming \<le> limit)"
proof (induction limit incoming es sz dropped rule: q_floor_loop.induct)
  case (2 limit incoming n v es sz dropped)
  show ?case
  proof (cases "limit < sz + incoming")
    case True
    have "Suc dropped \<le> q_floor_loop limit incoming es (sz - entry_size n v) (dropped + 1)"
      using q_floor_loop_ge [where dropped = "Suc dropped"] by simp
    then have "q_floor_loop limit incoming es (sz - entry_size n v) (dropped + 1) - dropped
        = Suc (q_floor_loop limit incoming es (sz - entry_size n v) (dropped + 1) - (dropped + 1))" by simp
    with 2 True show ?thesis by (simp add: Let_def)
  next
    case False
    with 2(2) show ?thesis by (simp add: Let_def)
  qed
qed simp

lemma q_evict_result:
  assumes "qt_size t = entries_size (qt_entries t)"
  shows "q_evict incoming t =
    (let k = q_evict_floor incoming t - qt_dropped t in
     t\<lparr>qt_entries := drop k (qt_entries t), qt_size := entries_size (drop k (qt_entries t)),
       qt_dropped := q_evict_floor incoming t\<rparr>)"
  using assms
proof (induction incoming t rule: q_evict.induct)
  case (1 incoming t)
  show ?case
  proof (cases "qt_capacity t < qt_size t + incoming")
    case False
    with 1(2) show ?thesis
      by (subst q_evict.simps, cases "qt_entries t") (auto simp: q_evict_floor_def Let_def)
  next
    case over: True
    show ?thesis
    proof (cases "qt_entries t")
      case Nil
      with 1(2) over show ?thesis by (subst q_evict.simps) (simp add: q_evict_floor_def)
    next
      case (Cons e es)
      obtain n v where e: "e = (n, v)" by (cases e)
      let ?t = "t\<lparr>qt_entries := es, qt_size := qt_size t - entry_size n v, qt_dropped := qt_dropped t + 1\<rparr>"
      have floor: "q_evict_floor incoming ?t = q_evict_floor incoming t"
        using over Cons e by (simp add: q_evict_floor_def)
      have "Suc (qt_dropped t) \<le> q_evict_floor incoming ?t"
        using q_floor_loop_ge [where dropped = "Suc (qt_dropped t)"] by (simp add: q_evict_floor_def)
      then have k: "q_evict_floor incoming t - qt_dropped t = Suc (q_evict_floor incoming t - Suc (qt_dropped t))"
        using floor by simp
      have "qt_size ?t = entries_size (qt_entries ?t)" using 1(2) Cons e by simp
      from 1(1) [OF over Cons [unfolded e] refl this]
      have "q_evict incoming ?t = ?t\<lparr>qt_entries := drop (q_evict_floor incoming ?t - qt_dropped ?t) es,
          qt_size := entries_size (drop (q_evict_floor incoming ?t - qt_dropped ?t) es),
          qt_dropped := q_evict_floor incoming ?t\<rparr>"
        by (simp add: Let_def)
      moreover have "q_evict incoming t = q_evict incoming ?t"
        using over Cons e by (subst q_evict.simps) simp
      ultimately show ?thesis using Cons k floor by (simp add: Let_def)
    qed
  qed
qed

lemma q_evict_ok:
  assumes "qt_size t = entries_size (qt_entries t)"
    and "qt_insert_count t = qt_dropped t + length (qt_entries t)" and "incoming \<le> qt_capacity t"
  shows "qtable_ok (q_evict incoming t) \<and> qt_size (q_evict incoming t) + incoming \<le> qt_capacity t"
proof -
  let ?f = "q_evict_floor incoming t"
  have ge: "qt_dropped t \<le> ?f" and le: "?f \<le> qt_dropped t + length (qt_entries t)"
    by (simp_all add: q_evict_floor_def q_floor_loop_ge q_floor_loop_le)
  from q_floor_loop_fits [OF assms(1), of "qt_capacity t" incoming "qt_dropped t"]
  have "drop (?f - qt_dropped t) (qt_entries t) = []
      \<or> entries_size (drop (?f - qt_dropped t) (qt_entries t)) + incoming \<le> qt_capacity t"
    by (simp add: q_evict_floor_def Let_def)
  with assms ge le show ?thesis
    by (auto simp: q_evict_result Let_def qtable_ok_def)
qed

lemma qtable_ok_new [simp]: "qtable_ok qtable_new"
  by (simp add: qtable_ok_def qtable_new_def)

text \<open>A lookup by absolute index is not disturbed by eviction below it.\<close>

lemma q_evict_get:
  assumes "qtable_ok t" and "q_get t ix = Some e" and "q_evict_floor incoming t \<le> ix"
  shows "q_get (q_evict incoming t) ix = Some e"
proof -
  define f where "f = q_evict_floor incoming t"
  have d: "qt_dropped t \<le> f" by (simp add: f_def q_evict_floor_def q_floor_loop_ge)
  from assms(1) have ok: "qt_size t = entries_size (qt_entries t)"
    "qt_insert_count t = qt_dropped t + length (qt_entries t)" by (simp_all add: qtable_ok_def)
  from assms(2,3) have ix: "f \<le> ix" "ix < qt_insert_count t" "qt_entries t ! (ix - qt_dropped t) = e"
    by (auto simp: q_get_def f_def split: if_splits)
  have "q_evict incoming t = t\<lparr>qt_entries := drop (f - qt_dropped t) (qt_entries t),
      qt_size := entries_size (drop (f - qt_dropped t) (qt_entries t)), qt_dropped := f\<rparr>"
    using q_evict_result [OF ok(1), of incoming] by (simp add: f_def Let_def)
  moreover have "(f - qt_dropped t) + (ix - f) = ix - qt_dropped t" "ix - f < length (qt_entries t) - (f - qt_dropped t)"
    using d ix ok(2) by auto
  ultimately show ?thesis using ix d ok(2) by (simp add: q_get_def)
qed

lemma q_insert_result:
  assumes "qtable_ok t" and "entry_size n v \<le> qt_capacity t"
  obtains t' where "q_insert n v t = (t', Some (qt_insert_count t))" "qtable_ok t'"
    "qt_capacity t' = qt_capacity t" "qt_insert_count t' = Suc (qt_insert_count t)"
    "q_get t' (qt_insert_count t) = Some (n, v)" "qt_dropped t' = q_evict_floor (entry_size n v) t"
    "\<And>ix e. q_get t ix = Some e \<Longrightarrow> q_evict_floor (entry_size n v) t \<le> ix \<Longrightarrow> q_get t' ix = Some e"
proof
  let ?t1 = "q_evict (entry_size n v) t"
  let ?t = "?t1\<lparr>qt_entries := qt_entries ?t1 @ [(n, v)], qt_size := qt_size ?t1 + entry_size n v,
    qt_insert_count := qt_insert_count ?t1 + 1\<rparr>"
  from assms have ok: "qt_size t = entries_size (qt_entries t)"
    "qt_insert_count t = qt_dropped t + length (qt_entries t)" by (simp_all add: qtable_ok_def)
  have keep: "qt_insert_count ?t1 = qt_insert_count t" "qt_capacity ?t1 = qt_capacity t"
    "qt_dropped ?t1 = q_evict_floor (entry_size n v) t"
    using ok(1) by (simp_all add: q_evict_result Let_def)
  note e = q_evict_ok [OF ok assms(2)]
  show "q_insert n v t = (?t, Some (qt_insert_count t))"
    using assms(2) keep by (simp add: q_insert_def Let_def)
  show "qtable_ok ?t" "qt_capacity ?t = qt_capacity t" "qt_insert_count ?t = Suc (qt_insert_count t)"
    "qt_dropped ?t = q_evict_floor (entry_size n v) t"
    using e keep by (simp_all add: qtable_ok_def)
  show "q_get ?t (qt_insert_count t) = Some (n, v)"
    using e keep by (auto simp: q_get_def qtable_ok_def nth_append)
  show "q_get ?t ix = Some en" if "q_get t ix = Some en" "q_evict_floor (entry_size n v) t \<le> ix" for ix en
    using q_evict_get [OF assms(1) that] by (auto simp: q_get_def nth_append split: if_splits)
qed

section \<open>Search\<close>

lemma q_find_lift:
  "\<exists>k < length older. ix = d + k \<and> P (rev older ! k) \<Longrightarrow>
   \<exists>k < length (e # older). ix = d + k \<and> P (rev (e # older) ! k)"
  by (auto simp: nth_append intro: exI less_SucI)

lemma q_find_here: "\<exists>k < length (e # older). d + length older = d + k \<and> rev (e # older) ! k = e"
  by (intro exI [of _ "length older"]) (simp add: nth_append)

lemma q_find_loop_hit:
  "q_find_loop d es name val no = Inl ix \<Longrightarrow> \<exists>k < length es. ix = d + k \<and> rev es ! k = (name, val)"
proof (induction d es name val no rule: q_find_loop.induct)
  case (2 d n v older name val no)
  show ?case
  proof (cases "n = name \<and> v = val")
    case True
    with 2(3) q_find_here [of "(n, v)" older d] show ?thesis by (simp add: Let_def)
  next
    case False
    with 2 have "\<exists>k < length older. ix = d + k \<and> rev older ! k = (name, val)"
      by (simp add: Let_def split: if_splits)
    then show ?thesis by (rule q_find_lift [where P = "\<lambda>e. e = (name, val)"])
  qed
qed simp

lemma q_find_loop_name:
  "q_find_loop d es name val no = Inr (Some ix) \<Longrightarrow>
   no = Some ix \<or> (\<exists>k < length es. ix = d + k \<and> fst (rev es ! k) = name)"
proof (induction d es name val no rule: q_find_loop.induct)
  case (2 d n v older name val no)
  note lift = q_find_lift [of older ix d "\<lambda>e. fst e = name" "(n, v)"]
  show ?case
  proof (cases "n = name")
    case False
    with 2(2) [OF refl False] 2(3) lift show ?thesis by (auto simp: Let_def)
  next
    case True
    with 2(3) have "v \<noteq> val" by (auto simp: Let_def)
    from 2(1) [OF refl True this] 2(3) True this
    have "(if no = None then Some (d + length older) else no) = Some ix
        \<or> (\<exists>k < length older. ix = d + k \<and> fst (rev older ! k) = name)"
      by (simp add: Let_def)
    then show ?thesis
    proof
      assume *: "(if no = None then Some (d + length older) else no) = Some ix"
      show ?thesis
      proof (cases no)
        case None
        with * q_find_here [of "(n, v)" older d] True show ?thesis by (auto intro: exI)
      qed (use * in simp)
    qed (use lift in blast)
  qed
qed simp

lemma q_find_get:
  assumes "q_find t name val = Some (ix, full)" and "qtable_ok t"
  shows "\<exists>v. q_get t ix = Some (name, v) \<and> (full \<longrightarrow> v = val)"
proof -
  have get: "q_get t (qt_dropped t + k) = Some (qt_entries t ! k)" if "k < length (qt_entries t)" for k
    using that assms(2) by (simp add: q_get_def qtable_ok_def)
  obtain k where "k < length (qt_entries t)" "ix = qt_dropped t + k"
    "fst (qt_entries t ! k) = name" "full \<longrightarrow> qt_entries t ! k = (name, val)"
  proof (cases "q_find_loop (qt_dropped t) (rev (qt_entries t)) name val None")
    case (Inl j)
    with assms(1) q_find_loop_hit [OF Inl] that show ?thesis by (auto simp: q_find_def)
  next
    case (Inr no)
    with assms(1) have "no = Some ix" "\<not> full" by (auto simp: q_find_def)
    with Inr q_find_loop_name [of "qt_dropped t" "rev (qt_entries t)" name val None ix] that
    show ?thesis by auto
  qed
  with get show ?thesis by (cases "qt_entries t ! k") auto
qed

lemma static_find_get:
  assumes "static_find name val = Some (i, full)"
  shows "\<exists>v. static_get i = Some (name, v) \<and> (full \<longrightarrow> v = val)"
proof (cases "find_loop QPACK_STATIC 0 name val None")
  case (Inl m)
  with assms find_loop_hit [OF Inl] show ?thesis by (auto simp: static_find_def static_get_def)
next
  case (Inr no)
  with assms have "no = Some i" "\<not> full" by (auto simp: static_find_def)
  with find_loop_name [of QPACK_STATIC 0 name val None i] Inr show ?thesis
    by (auto simp: static_get_def) (metis prod.collapse)
qed

end
