(* ===== verification/Qpack.thy ===== *)
theory Qpack
  imports Hpack QpackTable
begin

text \<open>
  QPACK (\<open>src/qpack/mod.rs\<close>, RFC 9204): the encoder in its static and dynamic modes, the decoder
  of encoder streams and of field sections.  The prefixed integers are those of \<open>HpackInt\<close>
  (\<open>src/qpack/integer.rs\<close> repeats the code of \<open>src/hpack/integer.rs\<close>).  An operation that appends to a
  \<open>Vec\<close> returns the bytes it appends.
\<close>

definition DEFAULT_MAX_TABLE_CAPACITY :: nat where "DEFAULT_MAX_TABLE_CAPACITY = 4096"
definition DEFAULT_MAX_FIELD_SECTION_SIZE :: nat where
  "DEFAULT_MAX_FIELD_SECTION_SIZE = 64 * 1024"

section \<open>Encoder\<close>

record qpack_encoder =
  qe_use_huffman :: bool
  qe_table :: qtable
  qe_target :: nat
  qe_max_entries :: nat
  qe_announced :: bool

datatype field_rep =
    StaticIdx nat
  | DynIdx nat
  | StaticName nat "byte list" bool
  | DynName nat "byte list" bool
  | LiteralName "byte list" "byte list" bool

definition qpack_encoder_new :: qpack_encoder where
  "qpack_encoder_new =
     \<lparr>qe_use_huffman = True, qe_table = qtable_new, qe_target = 0, qe_max_entries = 0,
      qe_announced = False\<rparr>"

definition qpack_encoder_with_dynamic :: "nat \<Rightarrow> qpack_encoder" where
  "qpack_encoder_with_dynamic m =
     \<lparr>qe_use_huffman = True, qe_table = fst (q_set_capacity m m qtable_new), qe_target = m,
      qe_max_entries = m div 32, qe_announced = False\<rparr>"

definition q_set_huffman :: "bool \<Rightarrow> qpack_encoder \<Rightarrow> qpack_encoder" where
  "q_set_huffman on e = e\<lparr>qe_use_huffman := on\<rparr>"

definition q_emit_string :: "qpack_encoder \<Rightarrow> byte list \<Rightarrow> nat \<Rightarrow> byte \<Rightarrow> byte list" where
  "q_emit_string e s n pattern =
     (let h_flag = push_bit n 1 in
      if qe_use_huffman e \<and> h2_encoded_len s < length s then
        let coded = h2_encode s in encode_int (length coded) n (pattern OR h_flag) @ coded
      else encode_int (length s) n pattern @ s)"

text \<open>Static-only field lines (\<open>encode_field\<close>, \<open>encode_field_section\<close>).\<close>

definition q_encode_field :: "qpack_encoder \<Rightarrow> header_field \<Rightarrow> byte list" where
  "q_encode_field e f =
     (let literal_static = (\<lambda>idx.
            let n_bit = (if hf_sensitive f then 0b00100000 else 0) in
            encode_int idx 4 (0b01010000 OR n_bit) @ q_emit_string e (hf_value f) 7 0)
      in case static_find (hf_name f) (hf_value f) of
        Some (idx, full) \<Rightarrow>
          if full \<and> \<not> hf_sensitive f then encode_int idx 6 0b11000000 else literal_static idx
      | None \<Rightarrow>
          let n_bit = (if hf_sensitive f then 0b00010000 else 0) in
          q_emit_string e (hf_name f) 3 (0b00100000 OR n_bit) @ q_emit_string e (hf_value f) 7 0)"

definition q_encode_static_section :: "qpack_encoder \<Rightarrow> header_field list \<Rightarrow> byte list" where
  "q_encode_static_section e hdrs = [0x00, 0x00] @ concat (map (q_encode_field e) hdrs)"

text \<open>The insert instruction, and the first pass of \<open>encode\<close>.\<close>

definition q_emit_insert ::
  "qpack_encoder \<Rightarrow> byte list \<Rightarrow> byte list \<Rightarrow> nat option \<Rightarrow> nat option \<Rightarrow> byte list" where
  "q_emit_insert e name val static_name dyn_name =
     (case static_name of
        Some idx \<Rightarrow> encode_int idx 6 0b11000000 @ q_emit_string e val 7 0
      | None \<Rightarrow>
          (case dyn_name of
             Some ix \<Rightarrow>
               let rel = qt_insert_count (qe_table e) - 1 - ix in
               encode_int rel 6 0b10000000 @ q_emit_string e val 7 0
           | None \<Rightarrow> q_emit_string e name 5 0b01000000 @ q_emit_string e val 7 0))"

record q_pass =
  qp_stream :: "byte list"
  qp_reps :: "field_rep list"
  qp_required :: nat
  qp_referenced :: "nat list"

definition full_match :: "(nat \<times> bool) option \<Rightarrow> nat option" where
  "full_match m = (case m of Some (i, True) \<Rightarrow> Some i | _ \<Rightarrow> None)"

definition q_reference :: "nat \<Rightarrow> field_rep \<Rightarrow> q_pass \<Rightarrow> q_pass" where
  "q_reference ix rep p =
     p\<lparr>qp_reps := qp_reps p @ [rep], qp_required := max (qp_required p) (ix + 1),
       qp_referenced := qp_referenced p @ [ix]\<rparr>"

definition q_may_insert :: "qpack_encoder \<Rightarrow> q_pass \<Rightarrow> header_field \<Rightarrow> bool" where
  "q_may_insert e p f \<longleftrightarrow>
     \<not> hf_sensitive f \<and> 0 < qe_target e \<and>
     (let sz = entry_size (hf_name f) (hf_value f) in
      sz \<le> qe_target e \<and>
      (let floor = q_evict_floor sz (qe_table e) in list_all (\<lambda>a. floor \<le> a) (qp_referenced p)))"

text \<open>One field of the first pass; \<open>None\<close> is the panic of \<open>expect\<close>.\<close>

definition q_choose :: "qpack_encoder \<Rightarrow> q_pass \<Rightarrow> header_field \<Rightarrow> (qpack_encoder \<times> q_pass) option" where
  "q_choose e p f =
     (let name = hf_name f; val = hf_value f;
          static_match = static_find name val;
          dyn_match = (if hf_sensitive f then None else q_find (qe_table e) name val)
      in case (if hf_sensitive f then None else full_match static_match) of
        Some idx \<Rightarrow> Some (e, p\<lparr>qp_reps := qp_reps p @ [StaticIdx idx]\<rparr>)
      | None \<Rightarrow>
          (case full_match dyn_match of
             Some ix \<Rightarrow> Some (e, q_reference ix (DynIdx ix) p)
           | None \<Rightarrow>
               if q_may_insert e p f then
                 let announce = (if qe_announced e then [] else encode_int (qe_target e) 5 0b00100000);
                     e1 = e\<lparr>qe_announced := True\<rparr>;
                     inst = q_emit_insert e1 name val (map_option fst static_match)
                              (map_option fst dyn_match);
                     p1 = p\<lparr>qp_stream := qp_stream p @ announce @ inst\<rparr>
                 in (case q_insert name val (qe_table e1) of
                       (t, Some ix) \<Rightarrow> Some (e1\<lparr>qe_table := t\<rparr>, q_reference ix (DynIdx ix) p1)
                     | (t, None) \<Rightarrow> None)
               else
                 (case static_match of
                    Some (idx, _) \<Rightarrow>
                      Some (e, p\<lparr>qp_reps := qp_reps p @ [StaticName idx val (hf_sensitive f)]\<rparr>)
                  | None \<Rightarrow>
                      (case dyn_match of
                         Some (ix, _) \<Rightarrow> Some (e, q_reference ix (DynName ix val False) p)
                       | None \<Rightarrow>
                           Some (e, p\<lparr>qp_reps := qp_reps p @ [LiteralName name val (hf_sensitive f)]\<rparr>)))))"

fun q_choose_all ::
  "qpack_encoder \<Rightarrow> q_pass \<Rightarrow> header_field list \<Rightarrow> (qpack_encoder \<times> q_pass) option" where
  "q_choose_all e p [] = Some (e, p)"
| "q_choose_all e p (f # fs) =
     (case q_choose e p f of None \<Rightarrow> None | Some (e1, p1) \<Rightarrow> q_choose_all e1 p1 fs)"

text \<open>The second pass.\<close>

definition q_emit_prefix :: "qpack_encoder \<Rightarrow> nat \<Rightarrow> nat \<Rightarrow> byte list" where
  "q_emit_prefix e required base =
     (if required = 0 then [0x00]
      else let enc = required mod (2 * qe_max_entries e) + 1 in encode_int enc 8 0) @
     (if required \<le> base then encode_int (base - required) 7 0
      else encode_int (required - base - 1) 7 0b10000000)"

definition q_emit_rep :: "qpack_encoder \<Rightarrow> nat \<Rightarrow> field_rep \<Rightarrow> byte list" where
  "q_emit_rep e base rep =
     (case rep of
        StaticIdx idx \<Rightarrow> encode_int idx 6 0b11000000
      | DynIdx ix \<Rightarrow> let rel = base - 1 - ix in encode_int rel 6 0b10000000
      | StaticName idx val sensitive \<Rightarrow>
          let n_bit = (if sensitive then 0b00100000 else 0) in
          encode_int idx 4 (0b01010000 OR n_bit) @ q_emit_string e val 7 0
      | DynName ix val sensitive \<Rightarrow>
          let rel = base - 1 - ix; n_bit = (if sensitive then 0b00100000 else 0) in
          encode_int rel 4 (0b01000000 OR n_bit) @ q_emit_string e val 7 0
      | LiteralName name val sensitive \<Rightarrow>
          let n_bit = (if sensitive then 0b00010000 else 0) in
          q_emit_string e name 3 (0b00100000 OR n_bit) @ q_emit_string e val 7 0)"

definition q_emit_field_section :: "qpack_encoder \<Rightarrow> nat \<Rightarrow> field_rep list \<Rightarrow> byte list" where
  "q_emit_field_section e required reps =
     (let base = required in q_emit_prefix e required base @ concat (map (q_emit_rep e base) reps))"

record qpack_encoded =
  encoder_stream :: "byte list"
  field_section :: "byte list"

definition qpack_encode :: "qpack_encoder \<Rightarrow> header_field list \<Rightarrow> (qpack_encoder \<times> qpack_encoded) option" where
  "qpack_encode e hdrs =
     (case q_choose_all e \<lparr>qp_stream = [], qp_reps = [], qp_required = 0, qp_referenced = []\<rparr> hdrs of
        None \<Rightarrow> None
      | Some (e1, p) \<Rightarrow>
          Some (e1, \<lparr>encoder_stream = qp_stream p,
                     field_section = q_emit_field_section e1 (qp_required p) (qp_reps p)\<rparr>))"

section \<open>Decoder\<close>

record qpack_decoder =
  qd_table :: qtable
  qd_max_capacity :: nat
  qd_max_section :: nat

definition qpack_decoder_with_limits :: "nat \<Rightarrow> nat \<Rightarrow> qpack_decoder" where
  "qpack_decoder_with_limits max_table_capacity max_field_section_size =
     \<lparr>qd_table = qtable_new, qd_max_capacity = max_table_capacity,
      qd_max_section = max_field_section_size\<rparr>"

definition qpack_decoder_default :: qpack_decoder where
  "qpack_decoder_default =
     qpack_decoder_with_limits DEFAULT_MAX_TABLE_CAPACITY DEFAULT_MAX_FIELD_SECTION_SIZE"

definition set_max_field_section_size :: "nat \<Rightarrow> qpack_decoder \<Rightarrow> qpack_decoder" where
  "set_max_field_section_size m d = d\<lparr>qd_max_section := m\<rparr>"

definition q_read_string :: "byte list \<Rightarrow> nat \<Rightarrow> nat \<Rightarrow> error + byte list \<times> nat" where
  "q_read_string block pos n =
     (if pos < length block then
        let huff = block ! pos AND push_bit n 1 \<noteq> 0 in
        (case decode_int block pos n of
           Inl err \<Rightarrow> Inl err
         | Inr (len, p) \<Rightarrow>
             (case checked_add p len of
                None \<Rightarrow> Inl Corrupt
              | Some stop \<Rightarrow>
                  if length block < stop then Inl UnexpectedEnd
                  else
                    let raw = take len (drop p block) in
                    if huff then
                      (case h2_decode raw of Inl err \<Rightarrow> Inl err | Inr data \<Rightarrow> Inr (data, stop))
                    else Inr (raw, stop)))
      else Inl UnexpectedEnd)"

definition q_get_relative :: "qtable \<Rightarrow> nat \<Rightarrow> error + entry" where
  "q_get_relative t rel =
     (case q_relative_encoder t rel of
        None \<Rightarrow> Inl Corrupt
      | Some ix \<Rightarrow> (case q_get t ix of None \<Rightarrow> Inl Corrupt | Some e \<Rightarrow> Inr e))"

definition q_resolve_insert_name :: "qpack_decoder \<Rightarrow> nat \<Rightarrow> bool \<Rightarrow> error + byte list" where
  "q_resolve_insert_name d idx t_static =
     (if t_static then (case static_get idx of None \<Rightarrow> Inl Corrupt | Some (n, _) \<Rightarrow> Inr n)
      else (case q_get_relative (qd_table d) idx of Inl err \<Rightarrow> Inl err | Inr (n, _) \<Rightarrow> Inr n))"

definition q_do_insert :: "byte list \<Rightarrow> byte list \<Rightarrow> qpack_decoder \<Rightarrow> qpack_decoder \<times> error option" where
  "q_do_insert name val d =
     (if \<not> q_can_insert name val (qd_table d) then (d, Some Corrupt)
      else (case q_insert name val (qd_table d) of
              (t, None) \<Rightarrow> (d\<lparr>qd_table := t\<rparr>, Some Corrupt)
            | (t, Some _) \<Rightarrow> (d\<lparr>qd_table := t\<rparr>, None)))"

text \<open>One instruction of the encoder stream: the decoder, and the error or the next position.\<close>

definition q_insert_then ::
  "byte list \<Rightarrow> byte list \<Rightarrow> nat \<Rightarrow> qpack_decoder \<Rightarrow> qpack_decoder \<times> (error + nat)" where
  "q_insert_then name val np d =
     (case q_do_insert name val d of
        (d', Some err) \<Rightarrow> (d', Inl err)
      | (d', None) \<Rightarrow> (d', Inr np))"

definition q_instruction :: "qpack_decoder \<Rightarrow> byte list \<Rightarrow> nat \<Rightarrow> qpack_decoder \<times> (error + nat)" where
  "q_instruction d data pos =
     (let b = data ! pos in
      if b AND 0b10000000 \<noteq> 0 then
        let t_static = b AND 0b01000000 \<noteq> 0 in
        (case decode_int data pos 6 of
           Inl err \<Rightarrow> (d, Inl err)
         | Inr (name_idx, np) \<Rightarrow>
             (case q_read_string data np 7 of
                Inl err \<Rightarrow> (d, Inl err)
              | Inr (val, np1) \<Rightarrow>
                  (case q_resolve_insert_name d name_idx t_static of
                     Inl err \<Rightarrow> (d, Inl err)
                   | Inr name \<Rightarrow> q_insert_then name val np1 d)))
      else if b AND 0b01000000 \<noteq> 0 then
        (case q_read_string data pos 5 of
           Inl err \<Rightarrow> (d, Inl err)
         | Inr (name, np) \<Rightarrow>
             (case q_read_string data np 7 of
                Inl err \<Rightarrow> (d, Inl err)
              | Inr (val, np1) \<Rightarrow> q_insert_then name val np1 d))
      else if b AND 0b00100000 \<noteq> 0 then
        (case decode_int data pos 5 of
           Inl err \<Rightarrow> (d, Inl err)
         | Inr (cap, np) \<Rightarrow>
             (case q_set_capacity cap (qd_max_capacity d) (qd_table d) of
                (t, ok) \<Rightarrow> (d\<lparr>qd_table := t\<rparr>, if ok then Inr np else Inl Corrupt)))
      else
        (case decode_int data pos 5 of
           Inl err \<Rightarrow> (d, Inl err)
         | Inr (rel, np) \<Rightarrow>
             (case q_get_relative (qd_table d) rel of
                Inl err \<Rightarrow> (d, Inl err)
              | Inr (n, v) \<Rightarrow> q_insert_then n v np d)))"

lemma q_read_string_pos:
  assumes "q_read_string block pos n = Inr (s, q)"
  shows "pos < q"
proof -
  from assms obtain len p where "decode_int block pos n = Inr (len, p)" "p \<le> q"
    by (auto simp: q_read_string_def checked_add_def Let_def split: if_splits sum.splits)
  with decode_int_pos [OF this(1)] show ?thesis by simp
qed

lemma q_insert_then_pos: "q_insert_then n v p d = (d', Inr q) \<Longrightarrow> q = p"
  by (simp add: q_insert_then_def split: prod.splits option.splits)

lemma q_instruction_pos:
  assumes "q_instruction d data pos = (d', Inr q)"
  shows "pos < q"
proof -
  let ?b = "data ! pos"
  consider (name_ref) "?b AND 0b10000000 \<noteq> 0"
    | (literal) "?b AND 0b10000000 = 0" "?b AND 0b01000000 \<noteq> 0"
    | (index) "?b AND 0b10000000 = 0" "?b AND 0b01000000 = 0" by blast
  then show ?thesis
  proof cases
    case name_ref
    with assms obtain i p s where "decode_int data pos 6 = Inr (i, p)" "q_read_string data p 7 = Inr (s, q)"
      by (auto simp: q_instruction_def Let_def split: sum.splits dest!: q_insert_then_pos)
    with decode_int_pos q_read_string_pos show ?thesis by (metis order.strict_trans)
  next
    case literal
    with assms obtain n p s where "q_read_string data pos 5 = Inr (n, p)" "q_read_string data p 7 = Inr (s, q)"
      by (auto simp: q_instruction_def Let_def split: sum.splits dest!: q_insert_then_pos)
    with q_read_string_pos show ?thesis by (metis order.strict_trans)
  next
    case index
    with assms obtain i where "decode_int data pos 5 = Inr (i, q)"
      by (auto simp: q_instruction_def Let_def split: sum.splits prod.splits if_splits dest!: q_insert_then_pos)
    then show ?thesis by (rule decode_int_pos [THEN conjunct1])
  qed
qed

function q_feed_loop :: "qpack_decoder \<Rightarrow> byte list \<Rightarrow> nat \<Rightarrow> qpack_decoder \<times> error option" where
  "q_feed_loop d data pos =
     (if pos < length data then
        (case q_instruction d data pos of
           (d', Inl err) \<Rightarrow> (d', Some err)
         | (d', Inr np) \<Rightarrow> q_feed_loop d' data np)
      else (d, None))"
  by pat_completeness auto
termination
  by (relation "measure (\<lambda>(_, data, pos). length data - pos)") (auto dest!: q_instruction_pos [OF sym])

declare q_feed_loop.simps [simp del]

definition feed_encoder_stream :: "qpack_decoder \<Rightarrow> byte list \<Rightarrow> qpack_decoder \<times> error option" where
  "feed_encoder_stream d data = q_feed_loop d data 0"

text \<open>Field sections.\<close>

definition decode_required_insert_count :: "qpack_decoder \<Rightarrow> byte list \<Rightarrow> error + nat \<times> nat" where
  "decode_required_insert_count d block =
     (case decode_int block 0 8 of
        Inl err \<Rightarrow> Inl err
      | Inr (enc, pos) \<Rightarrow>
          if enc = 0 then Inr (0, pos)
          else
            let max_entries = qd_max_capacity d div 32; full_range = 2 * max_entries in
            if full_range = 0 \<or> full_range < enc then Inl Corrupt
            else
              let total_inserts = qt_insert_count (qd_table d);
                  max_value = total_inserts + max_entries;
                  max_wrapped = (max_value div full_range) * full_range;
                  req = max_wrapped + enc - 1
              in if max_value < req \<and> req \<le> full_range then Inl Corrupt
                 else
                   let req1 = (if max_value < req then req - full_range else req) in
                   if req1 = 0 then Inl Corrupt else Inr (req1, pos))"

definition decode_base :: "byte list \<Rightarrow> nat \<Rightarrow> nat \<Rightarrow> error + nat \<times> nat" where
  "decode_base block pos required =
     (if pos < length block then
        let sign = block ! pos AND 0x80 \<noteq> 0 in
        (case decode_int block pos 7 of
           Inl err \<Rightarrow> Inl err
         | Inr (delta, np) \<Rightarrow>
             (case (if sign
                    then (case checked_sub required delta of None \<Rightarrow> None | Some x \<Rightarrow> checked_sub x 1)
                    else checked_add required delta) of
                None \<Rightarrow> Inl Corrupt
              | Some base \<Rightarrow> Inr (base, np)))
      else Inl UnexpectedEnd)"

definition lookup_dynamic_abs :: "qpack_decoder \<Rightarrow> nat \<Rightarrow> nat \<Rightarrow> error + entry" where
  "lookup_dynamic_abs d ix required =
     (if required \<le> ix then Inl Corrupt
      else case q_get (qd_table d) ix of None \<Rightarrow> Inl Corrupt | Some e \<Rightarrow> Inr e)"

definition lookup_indexed :: "qpack_decoder \<Rightarrow> nat \<Rightarrow> bool \<Rightarrow> nat \<Rightarrow> nat \<Rightarrow> error + entry" where
  "lookup_indexed d idx t_static base required =
     (if t_static then (case static_get idx of None \<Rightarrow> Inl Corrupt | Some e \<Rightarrow> Inr e)
      else case q_relative_field base idx of
        None \<Rightarrow> Inl Corrupt
      | Some ix \<Rightarrow> lookup_dynamic_abs d ix required)"

definition lookup_name_ref :: "qpack_decoder \<Rightarrow> nat \<Rightarrow> bool \<Rightarrow> nat \<Rightarrow> nat \<Rightarrow> error + byte list" where
  "lookup_name_ref d idx t_static base required =
     (if t_static then (case static_get idx of None \<Rightarrow> Inl Corrupt | Some (n, _) \<Rightarrow> Inr n)
      else case q_relative_field base idx of
        None \<Rightarrow> Inl Corrupt
      | Some ix \<Rightarrow>
          (case lookup_dynamic_abs d ix required of Inl err \<Rightarrow> Inl err | Inr (n, _) \<Rightarrow> Inr n))"

definition lookup_post_base :: "qpack_decoder \<Rightarrow> nat \<Rightarrow> nat \<Rightarrow> nat \<Rightarrow> error + entry" where
  "lookup_post_base d idx base required =
     (case checked_add base idx of
        None \<Rightarrow> Inl Corrupt
      | Some ix \<Rightarrow> lookup_dynamic_abs d ix required)"

text \<open>\<open>charge_field\<close> and the push that follows it.\<close>

definition q_push ::
  "nat \<Rightarrow> nat \<Rightarrow> nat \<Rightarrow> byte list \<Rightarrow> byte list \<Rightarrow> bool \<Rightarrow> error + nat \<times> nat \<times> header_field" where
  "q_push np used max_size n v sensitive =
     (case charge_field used max_size n v of
        Inl err \<Rightarrow> Inl err
      | Inr used' \<Rightarrow> Inr (np, used', \<lparr>hf_name = n, hf_value = v, hf_sensitive = sensitive\<rparr>))"

text \<open>One field line: the next position, the budget used and the field.\<close>

definition q_field_line ::
  "qpack_decoder \<Rightarrow> byte list \<Rightarrow> nat \<Rightarrow> nat \<Rightarrow> nat \<Rightarrow> nat \<Rightarrow> error + nat \<times> nat \<times> header_field" where
  "q_field_line d block base required pos used =
     (let b = block ! pos; m = qd_max_section d in
      if b AND 0b10000000 \<noteq> 0 then
        let t_static = b AND 0b01000000 \<noteq> 0 in
        (case decode_int block pos 6 of
           Inl err \<Rightarrow> Inl err
         | Inr (idx, np) \<Rightarrow>
             (case lookup_indexed d idx t_static base required of
                Inl err \<Rightarrow> Inl err
              | Inr (n, v) \<Rightarrow> q_push np used m n v False))
      else if b AND 0b01000000 \<noteq> 0 then
        let sensitive = b AND 0b00100000 \<noteq> 0; t_static = b AND 0b00010000 \<noteq> 0 in
        (case decode_int block pos 4 of
           Inl err \<Rightarrow> Inl err
         | Inr (idx, np) \<Rightarrow>
             (case lookup_name_ref d idx t_static base required of
                Inl err \<Rightarrow> Inl err
              | Inr name \<Rightarrow>
                  (case q_read_string block np 7 of
                     Inl err \<Rightarrow> Inl err
                   | Inr (val, np1) \<Rightarrow> q_push np1 used m name val sensitive)))
      else if b AND 0b00100000 \<noteq> 0 then
        let sensitive = b AND 0b00010000 \<noteq> 0 in
        (case q_read_string block pos 3 of
           Inl err \<Rightarrow> Inl err
         | Inr (name, np) \<Rightarrow>
             (case q_read_string block np 7 of
                Inl err \<Rightarrow> Inl err
              | Inr (val, np1) \<Rightarrow> q_push np1 used m name val sensitive))
      else if b AND 0b00010000 \<noteq> 0 then
        (case decode_int block pos 4 of
           Inl err \<Rightarrow> Inl err
         | Inr (idx, np) \<Rightarrow>
             (case lookup_post_base d idx base required of
                Inl err \<Rightarrow> Inl err
              | Inr (n, v) \<Rightarrow> q_push np used m n v False))
      else
        let sensitive = b AND 0b00001000 \<noteq> 0 in
        (case decode_int block pos 3 of
           Inl err \<Rightarrow> Inl err
         | Inr (idx, np) \<Rightarrow>
             (case lookup_post_base d idx base required of
                Inl err \<Rightarrow> Inl err
              | Inr (n, _) \<Rightarrow>
                  (case q_read_string block np 7 of
                     Inl err \<Rightarrow> Inl err
                   | Inr (val, np1) \<Rightarrow> q_push np1 used m n val sensitive))))"

lemma q_push_eq:
  "q_push np used m n v s = Inr (q, used', f) \<longleftrightarrow>
   q = np \<and> charge_field used m n v = Inr used' \<and> f = \<lparr>hf_name = n, hf_value = v, hf_sensitive = s\<rparr>"
  by (auto simp: q_push_def split: sum.splits)

lemma q_field_line_pos:
  assumes "q_field_line d block base required pos used = Inr (q, r)"
  shows "pos < q"
proof -
  let ?b = "block ! pos"
  obtain u f where r: "r = (u, f)" by (cases r)
  consider (indexed) "?b AND 0b10000000 \<noteq> 0" | (name_ref) "?b AND 0b10000000 = 0" "?b AND 0b01000000 \<noteq> 0"
    | (literal) "?b AND 0b10000000 = 0" "?b AND 0b01000000 = 0" "?b AND 0b00100000 \<noteq> 0"
    | (post) "?b AND 0b10000000 = 0" "?b AND 0b01000000 = 0" "?b AND 0b00100000 = 0" "?b AND 0b00010000 \<noteq> 0"
    | (post_name) "?b AND 0b10000000 = 0" "?b AND 0b01000000 = 0" "?b AND 0b00100000 = 0" "?b AND 0b00010000 = 0"
    by blast
  then show ?thesis
  proof cases
    case indexed
    with assms obtain i where "decode_int block pos 6 = Inr (i, q)"
      by (auto simp: q_field_line_def Let_def r q_push_eq split: sum.splits)
    then show ?thesis by (rule decode_int_pos [THEN conjunct1])
  next
    case name_ref
    with assms obtain i p v where "decode_int block pos 4 = Inr (i, p)" "q_read_string block p 7 = Inr (v, q)"
      by (auto simp: q_field_line_def Let_def r q_push_eq split: sum.splits)
    with decode_int_pos q_read_string_pos show ?thesis by (metis order.strict_trans)
  next
    case literal
    with assms obtain n p v where "q_read_string block pos 3 = Inr (n, p)" "q_read_string block p 7 = Inr (v, q)"
      by (auto simp: q_field_line_def Let_def r q_push_eq split: sum.splits)
    with q_read_string_pos show ?thesis by (metis order.strict_trans)
  next
    case post
    with assms obtain i where "decode_int block pos 4 = Inr (i, q)"
      by (auto simp: q_field_line_def Let_def r q_push_eq split: sum.splits)
    then show ?thesis by (rule decode_int_pos [THEN conjunct1])
  next
    case post_name
    with assms obtain i p v where "decode_int block pos 3 = Inr (i, p)" "q_read_string block p 7 = Inr (v, q)"
      by (auto simp: q_field_line_def Let_def r q_push_eq split: sum.splits)
    with decode_int_pos q_read_string_pos show ?thesis by (metis order.strict_trans)
  qed
qed

function q_section_loop ::
  "qpack_decoder \<Rightarrow> byte list \<Rightarrow> nat \<Rightarrow> nat \<Rightarrow> nat \<Rightarrow> nat \<Rightarrow> header_field list
   \<Rightarrow> error + header_field list" where
  "q_section_loop d block base required pos used hdrs =
     (if pos < length block then
        (case q_field_line d block base required pos used of
           Inl err \<Rightarrow> Inl err
         | Inr (np, used', f) \<Rightarrow> q_section_loop d block base required np used' (hdrs @ [f]))
      else Inr hdrs)"
  by pat_completeness auto
termination
  by (relation "measure (\<lambda>(_, block, _, _, pos, _, _). length block - pos)")
    (auto dest: q_field_line_pos intro: diff_less_mono2)

declare q_section_loop.simps [simp del]

definition decode_field_section :: "qpack_decoder \<Rightarrow> byte list \<Rightarrow> error + header_field list" where
  "decode_field_section d block =
     (case decode_required_insert_count d block of
        Inl err \<Rightarrow> Inl err
      | Inr (required, pos) \<Rightarrow>
          (case decode_base block pos required of
             Inl err \<Rightarrow> Inl err
           | Inr (base, pos1) \<Rightarrow>
               if qt_insert_count (qd_table d) < required then Inl Corrupt
               else q_section_loop d block base required pos1 0 []))"

end
