(* ===== verification/QpackSync.thy ===== *)
theory QpackSync
  imports Qpack HpackSync
begin

text \<open>
  The two ends of a QPACK connection.  The relation \<open>q_sync\<close> says that the encoder's mirror is
  the decoder's dynamic table (or that neither has been used yet).  The lemmas follow the two
  passes of the encoder: the encoder stream rebuilds the mirror, the entries a field section
  refers to stay alive until it is decoded, the Required Insert Count survives its modular
  encoding, and each field line reads back as the field it stands for.
\<close>

section \<open>Strings and integers\<close>

lemma take_bit_or_zero:
  "take_bit n a = 0 \<Longrightarrow> take_bit n b = 0 \<Longrightarrow> take_bit n (a OR b :: byte) = 0"
  by (simp add: take_bit_or)

lemma take_bit_Suc_zero: "take_bit (Suc n) a = 0 \<Longrightarrow> take_bit n (a :: byte) = 0 \<and> \<not> bit a n"
  by (metis bit_0_eq bit_take_bit_iff bot_apply bot_bool_def lessI less_Suc_eq_le min.absorb1 nat_less_le
      order_refl take_bit_of_0 take_bit_take_bit)

lemma q_emit_string_form:
  obtains raw f where "q_emit_string e s n pat = encode_int (length raw) n f @ raw"
    and "f = pat OR push_bit n 1 \<and> h2_decode raw = Inr s \<or> f = pat \<and> raw = s"
proof (cases "qe_use_huffman e \<and> h2_encoded_len s < length s")
  case True
  then show ?thesis
    by (intro that [of "h2_encode s" "pat OR push_bit n 1"])
      (simp_all add: q_emit_string_def Let_def h2_decode_encode)
next
  case False
  then show ?thesis by (intro that [of s pat]) (auto simp: q_emit_string_def Let_def)
qed

lemma q_read_string_emit:
  assumes "block = pre @ q_emit_string e s n pat @ post" and "length block < 2 ^ 64"
    and "1 \<le> n" and "n \<le> 7" and "take_bit (Suc n) pat = 0"
  shows "q_read_string block (length pre) n = Inr (s, length pre + length (q_emit_string e s n pat))"
proof -
  obtain raw f where form: "q_emit_string e s n pat = encode_int (length raw) n f @ raw"
    and f: "f = pat OR push_bit n 1 \<and> h2_decode raw = Inr s \<or> f = pat \<and> raw = s"
    by (rule q_emit_string_form)
  let ?h = "encode_int (length raw) n f"
  have block: "block = pre @ ?h @ raw @ post" using assms(1) form by simp
  note pat = take_bit_Suc_zero [OF assms(5)]
  have "take_bit n (push_bit n 1 :: byte) = 0"
    by (simp only: take_bit_push_bit diff_self_eq_0 take_bit_0 push_bit_of_0)
  with f pat have low: "take_bit n f = 0" using take_bit_or_zero by blast
  have huff: "if bit f n then h2_decode raw = Inr s else raw = s"
  proof -
    have "bit (push_bit n 1 :: byte) n" using assms(4) by (simp only: bit_push_bit_iff) simp
    then have "bit (pat OR push_bit n 1) n" by (simp only: bit_or_iff simp_thms)
    with f pat show ?thesis by metis
  qed
  have "usize_ok (length raw)" using assms(2) by (simp add: block usize_ok_def)
  then have int: "decode_int block (length pre) n = Inr (length raw, length pre + length ?h)"
    unfolding block using assms(3,4) low by (intro decode_encode_int) simp_all
  have fits: "length pre + (length ?h + length raw) \<le> length block" by (simp add: block)
  then have add: "checked_add (length pre + length ?h) (length raw) = Some (length pre + (length ?h + length raw))"
    using assms(2) by (simp add: checked_add_def)
  have pos: "length pre < length block" using encode_int_nonempty [of "length raw" n f] by (simp add: block)
  have "take (length raw) (drop (length pre + length ?h) block) = raw" by (simp add: block)
  moreover have "bit (block ! length pre) n = bit f n"
    unfolding block using assms(4) by (intro encode_int_at) simp_all
  moreover have "(b AND push_bit n 1 \<noteq> 0) = bit b n" for b :: byte
    by (simp only: bit_iff_and_push_bit_not_eq_0)
  ultimately have "q_read_string block (length pre) n = (if bit f n
      then (case h2_decode raw of Inl err \<Rightarrow> Inl err
        | Inr data \<Rightarrow> Inr (data, length pre + (length ?h + length raw)))
      else Inr (raw, length pre + (length ?h + length raw)))"
    using pos fits by (simp only: q_read_string_def Let_def int add if_True sum.case prod.case option.case)
      simp
  with huff form show ?thesis by (simp split: if_splits)
qed

lemma q_emit_string_at:
  assumes "n \<le> 7" and "n < k"
  shows "bit ((pre @ q_emit_string e s n pat @ post) ! length pre) k = bit pat k"
proof -
  obtain raw f where form: "q_emit_string e s n pat = encode_int (length raw) n f @ raw"
    and f: "f = pat OR push_bit n 1 \<and> h2_decode raw = Inr s \<or> f = pat \<and> raw = s"
    by (rule q_emit_string_form)
  have "\<not> bit (push_bit n 1 :: byte) k" using assms(2) by (simp only: bit_push_bit_iff bit_1_iff) simp
  with f have "bit f k = bit pat k" by (auto simp only: bit_or_iff)
  then show ?thesis using encode_int_at [of n k pre "length raw" f "raw @ post"] assms form by simp
qed

text \<open>The Required Insert Count survives its modular encoding while it is within half the range of
  the insert count.\<close>

lemma required_insert_count_roundtrip:
  fixes m total req :: nat
  assumes "0 < req" and "req \<le> total" and "total < req + m"
  defines "full \<equiv> 2 * m"
  defines "r \<equiv> ((total + m) div full) * full + (req mod full + 1) - 1"
  shows "\<not> (total + m < r \<and> r \<le> full)" and "(if total + m < r then r - full else r) = req"
proof -
  let ?v = "total + m"
  have full: "0 < full" using assms(2,3) by (simp add: full_def)
  have bounds: "req \<le> ?v" "?v < req + full" using assms(2,3) by (simp_all add: full_def)
  then have "req div full \<le> ?v div full" by (simp add: div_le_mono)
  moreover have "?v div full \<le> (req + full) div full" using bounds by (intro div_le_mono) simp
  moreover have "(req + full) div full = req div full + 1" using full by (intro div_add_self2) simp
  ultimately consider "?v div full = req div full" | "?v div full = req div full + 1" by linarith
  then have "r = req \<or> r = req + full"
    by cases (simp_all add: r_def algebra_simps)
  moreover have "r = req \<Longrightarrow> r \<le> ?v" "r = req + full \<Longrightarrow> ?v < r" using bounds by simp_all
  ultimately show "\<not> (?v < r \<and> r \<le> full)" "(if ?v < r then r - full else r) = req"
    using assms(1) by auto
qed

section \<open>Encoder stream\<close>

definition q_sync :: "qpack_encoder \<Rightarrow> qpack_decoder \<Rightarrow> bool" where
  "q_sync e d \<longleftrightarrow> qtable_ok (qe_table e) \<and> qt_capacity (qe_table e) = qe_target e
     \<and> qe_max_entries e = qe_target e div 32 \<and> qe_target e < 2 ^ 64
     \<and> (qe_target e = 0 \<or> qd_max_capacity d = qe_target e)
     \<and> (if qe_announced e then qd_table d = qe_table e
        else qd_table d = qtable_new \<and> qe_table e = qtable_new\<lparr>qt_capacity := qe_target e\<rparr>)"

lemma q_get_small:
  assumes "qtable_ok t" and "qt_capacity t < 2 ^ 64" and "q_get t ix = Some en"
  shows "qt_dropped t \<le> ix \<and> ix < qt_insert_count t \<and> qt_insert_count t \<le> qt_dropped t + qt_capacity t div 32"
proof -
  have "32 * length es \<le> entries_size es" for es
    by (induction es) (auto simp: entry_size_def ENTRY_OVERHEAD_def)
  from this [of "qt_entries t"] assms(1) have "32 * length (qt_entries t) \<le> qt_capacity t"
    by (simp add: qtable_ok_def)
  then have "length (qt_entries t) \<le> qt_capacity t div 32" by linarith
  with assms(1,3) show ?thesis by (auto simp: q_get_def qtable_ok_def split: if_splits)
qed

lemma q_sync_get:
  assumes "q_sync e d" and "q_get (qe_table e) ix = Some en"
  shows "qe_announced e \<and> qd_table d = qe_table e \<and> qd_max_capacity d = qe_target e"
proof -
  have ann: "qe_announced e"
  proof (rule ccontr)
    assume "\<not> qe_announced e"
    with assms show False by (simp add: q_sync_def q_get_def qtable_new_def split: if_splits)
  qed
  have "qe_target e \<noteq> 0"
  proof
    assume "qe_target e = 0"
    with assms(1) q_get_small [of "qe_table e" ix en] assms(2) show False by (auto simp: q_sync_def)
  qed
  with ann assms(1) show ?thesis by (simp add: q_sync_def)
qed

lemma q_do_insert_table:
  assumes "q_insert n v (qd_table d) = (t, Some ix)"
  shows "q_insert_then n v np d = (d\<lparr>qd_table := t\<rparr>, Inr np)"
proof -
  have "entry_size n v \<le> qt_capacity (qd_table d)"
    using assms by (auto simp: q_insert_def Let_def split: if_splits)
  with assms show ?thesis by (simp add: q_insert_then_def q_do_insert_def q_can_insert_def)
qed

text \<open>The insert instruction performs the encoder's insertion on an equal table.\<close>

lemma q_instruction_insert:
  assumes "qd_table d = qe_table e" and "qtable_ok (qe_table e)" and "qt_capacity (qe_table e) < 2 ^ 64"
    and "block = pre @ q_emit_insert e n v sn dn @ post" and "length block < 2 ^ 64"
    and "\<And>i. sn = Some i \<Longrightarrow> \<exists>x. static_get i = Some (n, x)"
    and "\<And>ix. dn = Some ix \<Longrightarrow> \<exists>x. q_get (qe_table e) ix = Some (n, x)"
    and "q_insert n v (qe_table e) = (t, Some k)"
  shows "q_instruction d block (length pre)
    = (d\<lparr>qd_table := t\<rparr>, Inr (length pre + length (q_emit_insert e n v sn dn)))"
proof -
  have ins: "q_insert_then n v np d = (d\<lparr>qd_table := t\<rparr>, Inr np)" for np
    using assms(1,8) by (intro q_do_insert_table) simp
  have by_ref: ?thesis
    if "q_emit_insert e n v sn dn = encode_int i 6 f @ q_emit_string e v 7 0" "usize_ok i"
      "take_bit 6 f = 0" "bit f 7" "q_resolve_insert_name d i (bit f 6) = Inr n" for i f
  proof -
    let ?h = "encode_int i 6 f"
    have block: "block = pre @ ?h @ q_emit_string e v 7 0 @ post" using assms(4) that(1) by simp
    have int: "decode_int block (length pre) 6 = Inr (i, length pre + length ?h)"
      unfolding block using that(2,3) by (intro decode_encode_int) simp_all
    have "q_read_string block (length (pre @ ?h)) 7 = Inr (v, length (pre @ ?h) + length (q_emit_string e v 7 0))"
      using block assms(5) by (intro q_read_string_emit [of _ _ _ _ _ _ post]) simp_all
    then have str: "q_read_string block (length pre + length ?h) 7
        = Inr (v, length pre + length (q_emit_insert e n v sn dn))"
      by (simp add: that(1))
    have "bit (block ! length pre) j = bit f j" if "6 \<le> j" for j
      unfolding block using that by (intro encode_int_at) simp_all
    from this [of 7] this [of 6] that(4)
    have "bit (block ! length pre) 7" "bit (block ! length pre) 6 = bit f 6" by simp_all
    then show ?thesis
      by (simp add: q_instruction_def Let_def and_bit_zero int str that(5) ins)
  qed
  show ?thesis
  proof (cases sn)
    case (Some i)
    from assms(6) [OF Some] obtain x where x: "static_get i = Some (n, x)" by blast
    then have "i < length QPACK_STATIC" by (simp add: static_get_def split: if_splits)
    then have "i < 99" by (simp add: QPACK_STATIC_def)
    with Some x show ?thesis
      by (intro by_ref [of i "0b11000000"]) (simp_all add: q_emit_insert_def usize_ok_def q_resolve_insert_name_def)
  next
    case sn: None
    show ?thesis
    proof (cases dn)
      case (Some ix)
      from assms(7) [OF Some] obtain x where x: "q_get (qe_table e) ix = Some (n, x)" by blast
      from q_get_small [OF assms(2,3) x] assms(3)
      have ix: "ix < qt_insert_count (qe_table e)" "usize_ok (qt_insert_count (qe_table e) - 1 - ix)"
        by (auto simp: usize_ok_def)
      have "q_relative_encoder (qe_table e) (qt_insert_count (qe_table e) - 1 - ix) = Some ix"
        using ix(1) by (auto simp: q_relative_encoder_def checked_sub_def)
      with sn Some x ix assms(1) show ?thesis
        by (intro by_ref [of "qt_insert_count (qe_table e) - 1 - ix" "0b10000000"])
          (simp_all add: q_emit_insert_def Let_def q_resolve_insert_name_def q_get_relative_def)
    next
      case None
      have emit: "q_emit_insert e n v sn dn = q_emit_string e n 5 0b01000000 @ q_emit_string e v 7 0"
        by (simp add: q_emit_insert_def sn None)
      let ?h = "q_emit_string e n 5 0b01000000"
      have block: "block = pre @ ?h @ q_emit_string e v 7 0 @ post" using assms(4) emit by simp
      have 1: "q_read_string block (length pre) 5 = Inr (n, length pre + length ?h)"
        using block assms(5) by (intro q_read_string_emit [of _ _ _ _ _ _ "q_emit_string e v 7 0 @ post"]) simp_all
      have "q_read_string block (length (pre @ ?h)) 7 = Inr (v, length (pre @ ?h) + length (q_emit_string e v 7 0))"
        using block assms(5) by (intro q_read_string_emit [of _ _ _ _ _ _ post]) simp_all
      then have 2: "q_read_string block (length pre + length ?h) 7
          = Inr (v, length pre + length (q_emit_insert e n v sn dn))" by (simp add: emit)
      have "bit (block ! length pre) j = bit (0b01000000 :: byte) j" if "5 < j" for j
        unfolding block using that by (intro q_emit_string_at) simp_all
      from this [of 7] this [of 6]
      have "\<not> bit (block ! length pre) 7" "bit (block ! length pre) 6" by simp_all
      then show ?thesis by (simp add: q_instruction_def Let_def and_bit_zero 1 2 ins)
    qed
  qed
qed

lemma q_instruction_capacity:
  assumes "qd_table d = qtable_new" and "qd_max_capacity d = m" and "m < 2 ^ 64"
    and "block = pre @ encode_int m 5 0b00100000 @ post"
  shows "q_instruction d block (length pre)
    = (d\<lparr>qd_table := qtable_new\<lparr>qt_capacity := m\<rparr>\<rparr>, Inr (length pre + length (encode_int m 5 0b00100000)))"
proof -
  have int: "decode_int block (length pre) 5 = Inr (m, length pre + length (encode_int m 5 0b00100000))"
    unfolding assms(4) using assms(3) by (intro decode_encode_int) (simp_all add: usize_ok_def)
  have "bit (block ! length pre) j = bit (0b00100000 :: byte) j" if "5 \<le> j" for j
    unfolding assms(4) using that by (intro encode_int_at) simp_all
  from this [of 7] this [of 6] this [of 5]
  have "\<not> bit (block ! length pre) 7" "\<not> bit (block ! length pre) 6" "bit (block ! length pre) 5" by simp_all
  moreover have "q_set_capacity m m qtable_new = (qtable_new\<lparr>qt_capacity := m\<rparr>, True)"
    by (simp add: q_set_capacity_def q_evict.simps qtable_new_def)
  ultimately show ?thesis by (simp add: q_instruction_def Let_def and_bit_zero int assms(1,2))
qed

section \<open>The first pass\<close>

text \<open>\<open>q_rep_ok t required f rep\<close>: against table \<open>t\<close> the representation stands for the field.\<close>

fun q_rep_ok :: "qtable \<Rightarrow> nat \<Rightarrow> header_field \<Rightarrow> field_rep \<Rightarrow> bool" where
  "q_rep_ok t r f (StaticIdx i) \<longleftrightarrow>
     \<not> hf_sensitive f \<and> static_get i = Some (hf_name f, hf_value f)"
| "q_rep_ok t r f (DynIdx ix) \<longleftrightarrow>
     \<not> hf_sensitive f \<and> ix < r \<and> q_get t ix = Some (hf_name f, hf_value f)"
| "q_rep_ok t r f (StaticName i v s) \<longleftrightarrow>
     s = hf_sensitive f \<and> v = hf_value f \<and> (\<exists>x. static_get i = Some (hf_name f, x))"
| "q_rep_ok t r f (DynName ix v s) \<longleftrightarrow>
     s = hf_sensitive f \<and> v = hf_value f \<and> ix < r \<and> (\<exists>x. q_get t ix = Some (hf_name f, x))"
| "q_rep_ok t r f (LiteralName n v s) \<longleftrightarrow> s = hf_sensitive f \<and> v = hf_value f \<and> n = hf_name f"

fun q_rep_refs :: "field_rep \<Rightarrow> nat set" where
  "q_rep_refs (DynIdx ix) = {ix}"
| "q_rep_refs (DynName ix v s) = {ix}"
| "q_rep_refs _ = {}"

lemma q_rep_ok_mono:
  assumes "q_rep_ok t r f rep" and "r \<le> r'"
    and "\<And>ix en. ix \<in> q_rep_refs rep \<Longrightarrow> q_get t ix = Some en \<Longrightarrow> q_get t' ix = Some en"
  shows "q_rep_ok t' r' f rep"
  using assms by (cases rep) auto

text \<open>The invariant of the pass: what has been written to the encoder stream, in whatever it is
  embedded, takes the decoder to a state in step with the encoder, and every representation
  chosen so far is right for the mirror table and refers only to entries recorded as referenced.\<close>

definition q_pass_ok ::
  "qpack_decoder \<Rightarrow> qpack_encoder \<Rightarrow> q_pass \<Rightarrow> header_field list \<Rightarrow> qpack_decoder \<Rightarrow> bool" where
  "q_pass_ok d0 e p fs d \<longleftrightarrow> q_sync e d \<and> qd_max_section d = qd_max_section d0
     \<and> (\<forall>post. length (qp_stream p @ post) < 2 ^ 64 \<longrightarrow>
          q_feed_loop d0 (qp_stream p @ post) 0 = q_feed_loop d (qp_stream p @ post) (length (qp_stream p)))
     \<and> list_all2 (q_rep_ok (qe_table e) (qp_required p)) fs (qp_reps p)
     \<and> (\<forall>rep \<in> set (qp_reps p). q_rep_refs rep \<subseteq> set (qp_referenced p))
     \<and> (\<forall>ix \<in> set (qp_referenced p). q_get (qe_table e) ix \<noteq> None)
     \<and> (qp_required p = 0 \<or> qp_required p - 1 \<in> set (qp_referenced p))"

lemma q_pass_ok_keep:
  assumes "q_pass_ok d0 e p fs d" and "q_rep_ok (qe_table e) (qp_required p) f rep" and "q_rep_refs rep = {}"
  shows "q_pass_ok d0 e (p\<lparr>qp_reps := qp_reps p @ [rep]\<rparr>) (fs @ [f]) d"
  using assms unfolding q_pass_ok_def by (auto intro!: list_all2_appendI)

lemma q_pass_ok_reference:
  assumes "q_pass_ok d0 e p fs d" and "q_rep_ok (qe_table e) (Suc ix) f rep" and "q_rep_refs rep \<subseteq> {ix}"
    and "q_get (qe_table e) ix \<noteq> None"
  shows "q_pass_ok d0 e (q_reference ix rep p) (fs @ [f]) d"
proof -
  let ?r = "max (qp_required p) (ix + 1)"
  have "q_rep_ok (qe_table e) ?r f rep" using assms(2) by (rule q_rep_ok_mono) simp_all
  moreover have "list_all2 (q_rep_ok (qe_table e) ?r) fs (qp_reps p)"
    using assms(1) unfolding q_pass_ok_def by (auto elim!: list_all2_mono intro: q_rep_ok_mono)
  ultimately show ?thesis using assms(1,3,4) unfolding q_pass_ok_def q_reference_def
    by (auto intro!: list_all2_appendI simp: max_def)
qed

lemma q_feed_step:
  assumes "q_instruction d data pos = (d', Inr np)"
  shows "q_feed_loop d data pos = (if pos < length data then q_feed_loop d' data np else (d, None))"
  using assms by (subst q_feed_loop.simps) simp

lemma q_pass_ok_stream:
  assumes "q_pass_ok d0 e p fs d" and "q_sync e' d'"
    and "\<And>ix en. ix \<in> set (qp_referenced p) \<Longrightarrow> q_get (qe_table e) ix = Some en \<Longrightarrow>
      q_get (qe_table e') ix = Some en"
    and "qd_max_section d' = qd_max_section d"
    and "\<And>post. length (qp_stream p @ ins @ post) < 2 ^ 64 \<Longrightarrow>
      q_instruction d (qp_stream p @ ins @ post) (length (qp_stream p))
        = (d', Inr (length (qp_stream p) + length ins))"
    and "ins \<noteq> []"
  shows "q_pass_ok d0 e' (p\<lparr>qp_stream := qp_stream p @ ins\<rparr>) fs d'"
proof -
  have "q_feed_loop d0 ((qp_stream p @ ins) @ post) 0
      = q_feed_loop d' ((qp_stream p @ ins) @ post) (length (qp_stream p @ ins))"
    if "length ((qp_stream p @ ins) @ post) < 2 ^ 64" for post
  proof -
    have len: "length (qp_stream p @ ins @ post) < 2 ^ 64" using that by simp
    with assms(1) have "q_feed_loop d0 (qp_stream p @ ins @ post) 0
        = q_feed_loop d (qp_stream p @ ins @ post) (length (qp_stream p))"
      unfolding q_pass_ok_def by blast
    also have "\<dots> = q_feed_loop d' (qp_stream p @ ins @ post) (length (qp_stream p) + length ins)"
      using q_feed_step [OF assms(5) [OF len]] assms(6) by simp
    finally show ?thesis by simp
  qed
  moreover have "list_all2 (q_rep_ok (qe_table e') (qp_required p)) fs (qp_reps p)"
  proof (rule list_all2I)
    show "\<forall>x \<in> set (zip fs (qp_reps p)). case x of (f, rep) \<Rightarrow> q_rep_ok (qe_table e') (qp_required p) f rep"
    proof safe
      fix f rep assume in_zip: "(f, rep) \<in> set (zip fs (qp_reps p))"
      with assms(1) have "q_rep_ok (qe_table e) (qp_required p) f rep" "q_rep_refs rep \<subseteq> set (qp_referenced p)"
        unfolding q_pass_ok_def list_all2_iff by (auto dest: set_zip_rightD)
      with assms(3) show "q_rep_ok (qe_table e') (qp_required p) f rep" by (blast intro: q_rep_ok_mono)
    qed
    show "length fs = length (qp_reps p)" using assms(1) unfolding q_pass_ok_def list_all2_iff by blast
  qed
  moreover have "q_get (qe_table e') ix \<noteq> None" if "ix \<in> set (qp_referenced p)" for ix
    using assms(1) assms(3) [OF that] that unfolding q_pass_ok_def by (metis option.exhaust)
  ultimately show ?thesis using assms(1,2,4) unfolding q_pass_ok_def by simp
qed

text \<open>The announcement of the capacity, before the first insertion.\<close>

lemma q_pass_ok_announce:
  assumes "q_pass_ok d0 e p fs d" and "0 < qe_target e"
  defines "announce \<equiv> if qe_announced e then [] else encode_int (qe_target e) 5 0b00100000"
  shows "\<exists>d'. q_pass_ok d0 (e\<lparr>qe_announced := True\<rparr>) (p\<lparr>qp_stream := qp_stream p @ announce\<rparr>) fs d'"
proof (cases "qe_announced e")
  case True
  then have e: "e\<lparr>qe_announced := True\<rparr> = e" by (cases e) simp
  have "q_pass_ok d0 e (p\<lparr>qp_stream := qp_stream p @ announce\<rparr>) fs d"
    using True assms(1) by (simp add: announce_def)
  then show ?thesis unfolding e by (rule exI)
next
  case False
  have sync: "q_sync e d" using assms(1) by (simp add: q_pass_ok_def)
  let ?t = "qtable_new\<lparr>qt_capacity := qe_target e\<rparr>"
  have d: "qd_table d = qtable_new" "qd_max_capacity d = qe_target e" "qe_target e < 2 ^ 64" "qe_table e = ?t"
    using sync False assms(2) by (simp_all add: q_sync_def)
  have "q_pass_ok d0 (e\<lparr>qe_announced := True\<rparr>)
    (p\<lparr>qp_stream := qp_stream p @ encode_int (qe_target e) 5 0b00100000\<rparr>) fs (d\<lparr>qd_table := ?t\<rparr>)"
  proof (rule q_pass_ok_stream [OF assms(1)])
    show "q_sync (e\<lparr>qe_announced := True\<rparr>) (d\<lparr>qd_table := ?t\<rparr>)"
      using sync False unfolding q_sync_def by (auto simp: d(4))
    show "encode_int (qe_target e) 5 0b00100000 \<noteq> []" by (rule encode_int_nonempty)
  qed (simp_all add: q_instruction_capacity [OF d(1-3) refl])
  with False show ?thesis by (auto simp: announce_def)
qed

lemma q_emit_insert_nonempty: "q_emit_insert e n v sn dn \<noteq> []"
proof -
  have "q_emit_string e s k pat \<noteq> []" for s k pat
    using encode_int_nonempty by (simp add: q_emit_string_def Let_def)
  then show ?thesis by (auto simp: q_emit_insert_def Let_def split: option.split)
qed

lemma q_pass_ok_insert:
  assumes "q_pass_ok d0 e p fs d" and "qe_announced e" and "q_may_insert e p f"
    and "\<And>i. sn = Some i \<Longrightarrow> \<exists>x. static_get i = Some (hf_name f, x)"
    and "\<And>ix. dn = Some ix \<Longrightarrow> \<exists>x. q_get (qe_table e) ix = Some (hf_name f, x)"
  defines "ins \<equiv> q_emit_insert e (hf_name f) (hf_value f) sn dn"
  shows "\<exists>t ix d'. q_insert (hf_name f) (hf_value f) (qe_table e) = (t, Some ix)
    \<and> q_pass_ok d0 (e\<lparr>qe_table := t\<rparr>)
        (q_reference ix (DynIdx ix) (p\<lparr>qp_stream := qp_stream p @ ins\<rparr>)) (fs @ [f]) d'"
proof -
  have sync: "q_sync e d" using assms(1) by (simp add: q_pass_ok_def)
  let ?t = "qe_table e" and ?n = "hf_name f" and ?v = "hf_value f"
  from assms(3) have may: "\<not> hf_sensitive f" "0 < qe_target e" "entry_size ?n ?v \<le> qe_target e"
    "\<And>a. a \<in> set (qp_referenced p) \<Longrightarrow> q_evict_floor (entry_size ?n ?v) ?t \<le> a"
    by (auto simp: q_may_insert_def Let_def list_all_iff)
  have d: "qd_table d = ?t" "qtable_ok ?t" "qt_capacity ?t = qe_target e" "qe_target e < 2 ^ 64"
    using sync assms(2) by (simp_all add: q_sync_def)
  from may(3) d(3) have "entry_size ?n ?v \<le> qt_capacity ?t" by simp
  from q_insert_result [OF d(2) this] obtain t where t: "q_insert ?n ?v ?t = (t, Some (qt_insert_count ?t))"
    "qtable_ok t" "qt_capacity t = qt_capacity ?t" "q_get t (qt_insert_count ?t) = Some (?n, ?v)"
    "\<And>ix en. q_get ?t ix = Some en \<Longrightarrow> q_evict_floor (entry_size ?n ?v) ?t \<le> ix \<Longrightarrow> q_get t ix = Some en"
    by metis
  let ?e = "e\<lparr>qe_table := t\<rparr>" and ?d = "d\<lparr>qd_table := t\<rparr>"
  have "q_pass_ok d0 ?e (p\<lparr>qp_stream := qp_stream p @ ins\<rparr>) fs ?d"
  proof (rule q_pass_ok_stream [OF assms(1)])
    show "q_sync ?e ?d" using sync assms(2) t(2,3) by (simp add: q_sync_def)
    show "q_get (qe_table ?e) ix = Some en" if "ix \<in> set (qp_referenced p)" "q_get ?t ix = Some en" for ix en
      using t(5) [OF that(2) may(4) [OF that(1)]] by simp
    show "q_instruction d (qp_stream p @ ins @ post) (length (qp_stream p))
        = (?d, Inr (length (qp_stream p) + length ins))"
      if "length (qp_stream p @ ins @ post) < 2 ^ 64" for post
      unfolding ins_def
      by (rule q_instruction_insert [OF d(1,2) _ refl _ assms(4,5) t(1)])
        (use d(3,4) that in \<open>simp_all add: ins_def\<close>)
    show "ins \<noteq> []" by (simp add: ins_def q_emit_insert_nonempty)
  qed simp
  from q_pass_ok_reference [OF this, of "qt_insert_count ?t" f "DynIdx (qt_insert_count ?t)"] t(1,4) may(1)
  show ?thesis by auto
qed

end
