(* ===== verification/QpackConn.thy ===== *)
theory QpackConn
  imports QpackSync
begin

text \<open>
  One use of a QPACK connection from end to end: the first pass never fails, the field section
  reads back against the table the encoder stream built, and both ends stay in step.
\<close>

section \<open>The first pass never fails\<close>

lemma full_match_Some: "full_match m = Some i \<longleftrightarrow> m = Some (i, True)"
  by (auto simp: full_match_def split: option.splits bool.splits)

lemma q_choose_ok:
  assumes "q_pass_ok d0 e p fs d"
  shows "\<exists>e' p' d'. q_choose e p f = Some (e', p') \<and> q_pass_ok d0 e' p' (fs @ [f]) d'"
proof -
  let ?n = "hf_name f" and ?v = "hf_value f"
  define sm where "sm = static_find ?n ?v"
  define dm where "dm = (if hf_sensitive f then None else q_find (qe_table e) ?n ?v)"
  have ok: "qtable_ok (qe_table e)" using assms by (simp add: q_pass_ok_def q_sync_def)
  have sm: "\<exists>x. static_get i = Some (?n, x) \<and> (full \<longrightarrow> x = ?v)" if "sm = Some (i, full)" for i full
    using that static_find_get by (simp add: sm_def)
  have dm: "\<not> hf_sensitive f \<and> (\<exists>x. q_get (qe_table e) ix = Some (?n, x) \<and> (full \<longrightarrow> x = ?v))"
    if "dm = Some (ix, full)" for ix full
    using that q_find_get [OF _ ok] by (simp add: dm_def split: if_splits)
  note choose = q_choose_def [of e p f, unfolded Let_def, folded sm_def dm_def]
  consider (static) i where "\<not> hf_sensitive f" "full_match sm = Some i"
    | (other) "(if hf_sensitive f then None else full_match sm) = None"
    by (cases "hf_sensitive f"; cases "full_match sm") auto
  then show ?thesis
  proof cases
    case static
    then have "q_rep_ok (qe_table e) (qp_required p) f (StaticIdx i)" using sm by (auto simp: full_match_Some)
    from q_pass_ok_keep [OF assms this] static show ?thesis by (auto simp: choose)
  next
    case other
    note choose = choose [unfolded other option.case]
    show ?thesis
    proof (cases "full_match dm")
      case (Some ix)
      with dm have "q_rep_ok (qe_table e) (Suc ix) f (DynIdx ix)" "q_get (qe_table e) ix \<noteq> None"
        by (auto simp: full_match_Some)
      from q_pass_ok_reference [OF assms this(1) _ this(2)] Some show ?thesis by (auto simp: choose)
    next
      case no_dyn: None
      show ?thesis
      proof (cases "q_may_insert e p f")
        case True
        let ?e = "e\<lparr>qe_announced := True\<rparr>"
        let ?a = "if qe_announced e then [] else encode_int (qe_target e) 5 0b00100000"
        let ?p = "p\<lparr>qp_stream := qp_stream p @ ?a\<rparr>"
        from True have "0 < qe_target e" by (simp add: q_may_insert_def)
        from q_pass_ok_announce [OF assms this] obtain d1 where d1: "q_pass_ok d0 ?e ?p fs d1" by blast
        have "q_may_insert ?e ?p f" using True by (simp add: q_may_insert_def Let_def)
        have "\<exists>x. static_get i = Some (?n, x)" if "map_option fst sm = Some i" for i using sm that by auto
        moreover have "\<exists>x. q_get (qe_table ?e) ix = Some (?n, x)" if "map_option fst dm = Some ix" for ix
          using dm that by auto
        ultimately have "\<exists>t ix d2. q_insert ?n ?v (qe_table ?e) = (t, Some ix)
          \<and> q_pass_ok d0 (?e\<lparr>qe_table := t\<rparr>) (q_reference ix (DynIdx ix)
            (?p\<lparr>qp_stream := qp_stream ?p @ q_emit_insert ?e ?n ?v (map_option fst sm) (map_option fst dm)\<rparr>))
            (fs @ [f]) d2"
          by (intro q_pass_ok_insert [OF d1 _ \<open>q_may_insert ?e ?p f\<close>]) simp_all
        then obtain t ix d2 where "q_insert ?n ?v (qe_table e) = (t, Some ix)"
          "q_pass_ok d0 (?e\<lparr>qe_table := t\<rparr>) (q_reference ix (DynIdx ix)
            (?p\<lparr>qp_stream := qp_stream ?p @ q_emit_insert ?e ?n ?v (map_option fst sm) (map_option fst dm)\<rparr>))
            (fs @ [f]) d2" by auto
        with True no_dyn show ?thesis by (auto simp: choose)
      next
        case no_insert: False
        show ?thesis
        proof (cases sm)
          case (Some m)
          obtain i full where m: "m = (i, full)" by (cases m)
          with sm Some have "q_rep_ok (qe_table e) (qp_required p) f (StaticName i ?v (hf_sensitive f))" by auto
          from q_pass_ok_keep [OF assms this] no_dyn no_insert Some m show ?thesis by (auto simp: choose)
        next
          case no_static: None
          show ?thesis
          proof (cases dm)
            case (Some m)
            obtain ix full where m: "m = (ix, full)" by (cases m)
            with dm Some have "q_rep_ok (qe_table e) (Suc ix) f (DynName ix ?v False)" "q_get (qe_table e) ix \<noteq> None"
              by auto
            from q_pass_ok_reference [OF assms this(1) _ this(2)] no_dyn no_insert no_static Some m
            show ?thesis by (auto simp: choose)
          next
            case None
            have "q_rep_ok (qe_table e) (qp_required p) f (LiteralName ?n ?v (hf_sensitive f))" by simp
            from q_pass_ok_keep [OF assms this] no_dyn no_insert no_static None show ?thesis by (auto simp: choose)
          qed
        qed
      qed
    qed
  qed
qed

lemma q_choose_all_ok:
  assumes "q_pass_ok d0 e p fs d"
  shows "\<exists>e' p' d'. q_choose_all e p gs = Some (e', p') \<and> q_pass_ok d0 e' p' (fs @ gs) d'"
  using assms
proof (induction gs arbitrary: e p fs d)
  case (Cons g gs)
  from q_choose_ok [OF Cons.prems, of g] obtain e1 p1 d1 where 1: "q_choose e p g = Some (e1, p1)"
    "q_pass_ok d0 e1 p1 (fs @ [g]) d1" by blast
  from Cons.IH [OF 1(2)] 1(1) show ?case by auto
qed auto

lemma q_pass_ok_start:
  assumes "q_sync e d"
  shows "q_pass_ok d e \<lparr>qp_stream = [], qp_reps = [], qp_required = 0, qp_referenced = []\<rparr> [] d"
  using assms by (simp add: q_pass_ok_def)

section \<open>The field section\<close>

lemma q_emit_rep_nonempty: "q_emit_rep e base rep \<noteq> []"
  using encode_int_nonempty by (cases rep) (simp_all add: q_emit_rep_def Let_def q_emit_string_def)

lemma static_get_usize: "static_get i = Some en \<Longrightarrow> usize_ok i"
  by (simp add: static_get_def QPACK_STATIC_def usize_ok_def split: if_splits)

lemma q_sync_reference:
  assumes "q_sync e d" and "q_get (qe_table e) ix = Some en" and "ix < base"
    and "base \<le> qt_insert_count (qe_table e)"
  shows "usize_ok (base - 1 - ix)" and "q_relative_field base (base - 1 - ix) = Some ix"
    and "lookup_dynamic_abs d ix base = Inr en"
proof -
  have t: "qtable_ok (qe_table e)" "qt_capacity (qe_table e) < 2 ^ 64" using assms(1) by (simp_all add: q_sync_def)
  from q_get_small [OF t assms(2)] assms(3,4) t(2) show "usize_ok (base - 1 - ix)"
    by (auto simp: usize_ok_def)
  show "q_relative_field base (base - 1 - ix) = Some ix"
    using assms(3) by (auto simp: q_relative_field_def checked_sub_def)
  show "lookup_dynamic_abs d ix base = Inr en"
    using q_sync_get [OF assms(1,2)] assms(2,3) by (simp add: lookup_dynamic_abs_def)
qed

lemma q_read_value:
  assumes "block = pre @ h @ q_emit_string e v 7 0 @ post" and "length block < 2 ^ 64"
  shows "q_read_string block (length pre + length h) 7
    = Inr (v, length pre + (length h + length (q_emit_string e v 7 0)))"
proof -
  have "block = (pre @ h) @ q_emit_string e v 7 0 @ post" using assms(1) by simp
  from q_read_string_emit [OF this assms(2)] show ?thesis by (simp add: add.assoc)
qed

lemma q_field_line_emit:
  assumes "q_rep_refs rep = {} \<or> q_sync e d" and "q_rep_ok (qe_table e) base f rep"
    and "base \<le> qt_insert_count (qe_table e)"
    and "block = pre @ q_emit_rep e base rep @ post" and "length block < 2 ^ 64"
    and "charge_field used (qd_max_section d) (hf_name f) (hf_value f) = Inr used'"
  shows "q_field_line d block base base (length pre) used
    = Inr (length pre + length (q_emit_rep e base rep), used', f)"
proof (cases rep)
  case (StaticIdx i)
  with assms(2) have i: "static_get i = Some (hf_name f, hf_value f)" "\<not> hf_sensitive f" by simp_all
  have emit: "q_emit_rep e base rep = encode_int i 6 0b11000000" by (simp add: StaticIdx q_emit_rep_def)
  have int: "decode_int block (length pre) 6 = Inr (i, length pre + length (encode_int i 6 0b11000000))"
    unfolding assms(4) emit using static_get_usize [OF i(1)] by (intro decode_encode_int) simp_all
  have at: "bit (block ! length pre) k = bit (0b11000000 :: byte) k" if "6 \<le> k" for k
    unfolding assms(4) emit using that by (intro encode_int_at) simp_all
  have f: "\<lparr>hf_name = hf_name f, hf_value = hf_value f, hf_sensitive = False\<rparr> = f" using i(2) by simp
  show ?thesis using at [of 7] at [of 6] i(1)
    by (simp add: q_field_line_def Let_def and_bit_zero int emit lookup_indexed_def q_push_def assms(6) f)
next
  case (DynIdx ix)
  with assms(2) have i: "q_get (qe_table e) ix = Some (hf_name f, hf_value f)" "ix < base" "\<not> hf_sensitive f"
    by simp_all
  have sync: "q_sync e d" using assms(1) DynIdx by simp
  note r = q_sync_reference [OF sync i(1,2) assms(3)]
  let ?h = "encode_int (base - 1 - ix) 6 0b10000000"
  have emit: "q_emit_rep e base rep = ?h" by (simp add: DynIdx q_emit_rep_def)
  have int: "decode_int block (length pre) 6 = Inr (base - 1 - ix, length pre + length ?h)"
    unfolding assms(4) emit using r(1) by (intro decode_encode_int) simp_all
  have at: "bit (block ! length pre) k = bit (0b10000000 :: byte) k" if "6 \<le> k" for k
    unfolding assms(4) emit using that by (intro encode_int_at) simp_all
  have f: "\<lparr>hf_name = hf_name f, hf_value = hf_value f, hf_sensitive = False\<rparr> = f" using i(3) by simp
  have "lookup_indexed d (base - 1 - ix) False base base = Inr (hf_name f, hf_value f)"
    using r(2,3) by (simp add: lookup_indexed_def)
  then show ?thesis using at [of 7] at [of 6]
    by (simp add: q_field_line_def Let_def and_bit_zero int emit q_push_def assms(6) f)
next
  case (StaticName i v s)
  with assms(2) obtain x where i: "static_get i = Some (hf_name f, x)" "v = hf_value f" "s = hf_sensitive f"
    by auto
  let ?pat = "0b01010000 OR (if s then 0b00100000 else 0) :: byte"
  let ?h = "encode_int i 4 ?pat"
  have emit: "q_emit_rep e base rep = ?h @ q_emit_string e v 7 0"
    by (simp add: StaticName q_emit_rep_def Let_def)
  have block: "block = pre @ ?h @ q_emit_string e v 7 0 @ post" using assms(4) emit by simp
  have int: "decode_int block (length pre) 4 = Inr (i, length pre + length ?h)"
    unfolding block using static_get_usize [OF i(1)] by (intro decode_encode_int) simp_all
  have at: "bit (block ! length pre) k = bit ?pat k" if "4 \<le> k" for k
    unfolding block using that by (intro encode_int_at) simp_all
  have "\<not> bit (block ! length pre) 7" "bit (block ! length pre) 6" "bit (block ! length pre) 5 = s"
    "bit (block ! length pre) 4"
    using at [of 7] at [of 6] at [of 5] at [of 4] by (simp_all split: if_splits)
  with i q_read_value [OF block assms(5)] show ?thesis
    by (simp add: q_field_line_def Let_def and_bit_zero int emit lookup_name_ref_def q_push_def assms(6))
next
  case (DynName ix v s)
  with assms(2) obtain x where i: "q_get (qe_table e) ix = Some (hf_name f, x)" "ix < base"
    "v = hf_value f" "s = hf_sensitive f" by auto
  have sync: "q_sync e d" using assms(1) DynName by simp
  note r = q_sync_reference [OF sync i(1,2) assms(3)]
  let ?pat = "0b01000000 OR (if s then 0b00100000 else 0) :: byte"
  let ?h = "encode_int (base - 1 - ix) 4 ?pat"
  have emit: "q_emit_rep e base rep = ?h @ q_emit_string e v 7 0"
    by (simp add: DynName q_emit_rep_def Let_def)
  have block: "block = pre @ ?h @ q_emit_string e v 7 0 @ post" using assms(4) emit by simp
  have int: "decode_int block (length pre) 4 = Inr (base - 1 - ix, length pre + length ?h)"
    unfolding block using r(1) by (intro decode_encode_int) simp_all
  have at: "bit (block ! length pre) k = bit ?pat k" if "4 \<le> k" for k
    unfolding block using that by (intro encode_int_at) simp_all
  have "\<not> bit (block ! length pre) 7" "bit (block ! length pre) 6" "bit (block ! length pre) 5 = s"
    "\<not> bit (block ! length pre) 4"
    using at [of 7] at [of 6] at [of 5] at [of 4] by (simp_all split: if_splits)
  moreover have "lookup_name_ref d (base - 1 - ix) False base base = Inr (hf_name f)"
    using r(2,3) by (simp add: lookup_name_ref_def)
  ultimately show ?thesis using i(3,4) q_read_value [OF block assms(5)]
    by (simp add: q_field_line_def Let_def and_bit_zero int emit q_push_def assms(6))
next
  case (LiteralName n v s)
  with assms(2) have i: "n = hf_name f" "v = hf_value f" "s = hf_sensitive f" by auto
  let ?pat = "0b00100000 OR (if s then 0b00010000 else 0) :: byte"
  let ?h = "q_emit_string e n 3 ?pat"
  have emit: "q_emit_rep e base rep = ?h @ q_emit_string e v 7 0"
    by (simp add: LiteralName q_emit_rep_def Let_def)
  have block: "block = pre @ ?h @ q_emit_string e v 7 0 @ post" using assms(4) emit by simp
  have name: "q_read_string block (length pre) 3 = Inr (n, length pre + length ?h)"
    by (rule q_read_string_emit [OF block assms(5)]) simp_all
  have at: "bit (block ! length pre) k = bit ?pat k" if "3 < k" for k
    unfolding block using that by (intro q_emit_string_at) simp_all
  have "\<not> bit (block ! length pre) 7" "\<not> bit (block ! length pre) 6" "bit (block ! length pre) 5"
    "bit (block ! length pre) 4 = s"
    using at [of 7] at [of 6] at [of 5] at [of 4] by (simp_all split: if_splits)
  with i q_read_value [OF block assms(5)] show ?thesis
    by (simp add: q_field_line_def Let_def and_bit_zero name emit q_push_def assms(6))
qed

lemma q_section_loop_emit:
  assumes "(\<forall>rep \<in> set reps. q_rep_refs rep = {}) \<or> q_sync e d" and "list_all2 (q_rep_ok (qe_table e) base) fs reps"
    and "base \<le> qt_insert_count (qe_table e)"
    and "length (pre @ concat (map (q_emit_rep e base) reps)) < 2 ^ 64"
    and "used + list_size fs \<le> qd_max_section d" and "qd_max_section d < 2 ^ 64"
  shows "q_section_loop d (pre @ concat (map (q_emit_rep e base) reps)) base base (length pre) used got
    = Inr (got @ fs)"
  using assms
proof (induction fs arbitrary: reps pre used got)
  case Nil
  then show ?case by (subst q_section_loop.simps) simp
next
  case (Cons f fs)
  from Cons.prems(2) obtain rep reps' where reps: "reps = rep # reps'" "q_rep_ok (qe_table e) base f rep"
    "list_all2 (q_rep_ok (qe_table e) base) fs reps'" by (auto simp: list_all2_Cons1)
  let ?b = "q_emit_rep e base rep" and ?post = "concat (map (q_emit_rep e base) reps')"
  have charge: "charge_field used (qd_max_section d) (hf_name f) (hf_value f) = Inr (used + field_size f)"
    using Cons.prems(5,6) by (intro charge_field_fits) (simp_all add: list_size_def)
  have len: "length (pre @ ?b @ ?post) < 2 ^ 64" using Cons.prems(4) reps(1) by simp
  have refs: "q_rep_refs rep = {} \<or> q_sync e d" "(\<forall>rep \<in> set reps'. q_rep_refs rep = {}) \<or> q_sync e d"
    using Cons.prems(1) reps(1) by auto
  note line = q_field_line_emit [OF refs(1) reps(2) Cons.prems(3) refl len charge]
  have "length pre < length (pre @ ?b @ ?post)" using q_emit_rep_nonempty by simp
  then have "q_section_loop d (pre @ ?b @ ?post) base base (length pre) used got
      = q_section_loop d (pre @ ?b @ ?post) base base (length pre + length ?b) (used + field_size f) (got @ [f])"
    by (subst q_section_loop.simps) (simp add: line)
  moreover have "used + field_size f + list_size fs \<le> qd_max_section d"
    using Cons.prems(5) by (simp add: list_size_def)
  moreover have "length ((pre @ ?b) @ ?post) < 2 ^ 64" using len by simp
  ultimately show ?case
    using Cons.IH [OF refs(2) reps(3) Cons.prems(3), of "pre @ ?b" "used + field_size f" "got @ [f]"]
      Cons.prems(6) reps(1) by simp
qed

text \<open>The prefix: the Required Insert Count, and a base equal to it.\<close>

lemma decode_base_emit:
  assumes "block = pre @ encode_int 0 7 0 @ post" and "required < 2 ^ 64"
  shows "decode_base block (length pre) required = Inr (required, length pre + 1)"
proof -
  have e: "encode_int 0 7 0 = [0]" by (simp add: encode_int_def)
  have "decode_int block (length pre) 7 = Inr (0, length pre + length (encode_int 0 7 0))"
    unfolding assms(1) by (intro decode_encode_int) (simp_all add: usize_ok_def)
  moreover have "block ! length pre = 0" "length pre < length block" by (simp_all add: assms(1) e nth_append)
  ultimately show ?thesis using assms(2) by (simp add: decode_base_def checked_add_def e)
qed

lemma required_insert_count_emit:
  assumes "q_sync e d" and "0 < required" and "q_get (qe_table e) (required - 1) = Some en"
    and "block = encode_int (required mod (2 * qe_max_entries e) + 1) 8 0 @ post"
  shows "decode_required_insert_count d block
    = Inr (required, length (encode_int (required mod (2 * qe_max_entries e) + 1) 8 0))"
proof -
  let ?m = "qe_target e div 32" and ?total = "qt_insert_count (qe_table e)"
  have s: "qtable_ok (qe_table e)" "qt_capacity (qe_table e) = qe_target e" "qe_target e < 2 ^ 64"
    "qe_max_entries e = ?m" using assms(1) by (simp_all add: q_sync_def)
  from q_sync_get [OF assms(1,3)] have d: "qd_table d = qe_table e" "qd_max_capacity d = qe_target e" by simp_all
  from q_get_small [OF s(1) _ assms(3)] s(2,3) assms(2)
  have b: "required \<le> ?total" "?total < required + ?m" by auto
  have "?m < 2 ^ 59" using s(3) by (simp add: div_less_iff_less_mult)
  moreover have m: "0 < ?m" using b by simp
  moreover have "required mod (2 * ?m) < 2 * ?m" using m by (intro mod_less_divisor) simp
  moreover have "(2 :: nat) * 2 ^ 59 + 1 < 2 ^ 64" by simp
  ultimately have enc: "required mod (2 * ?m) < 2 * ?m" "required mod (2 * ?m) + 1 < 2 ^ 64" by linarith+
  let ?enc = "encode_int (required mod (2 * ?m) + 1) 8 0"
  have int: "decode_int block 0 8 = Inr (required mod (2 * ?m) + 1, length ?enc)"
    using decode_encode_int [of 8 "required mod (2 * ?m) + 1" 0 "[]" post] enc assms(4) s(4)
    by (simp add: usize_ok_def)
  have ne: "required mod (2 * ?m) + 1 \<noteq> 0" "\<not> (2 * ?m = 0 \<or> 2 * ?m < required mod (2 * ?m) + 1)"
    using enc m by linarith+
  note r = required_insert_count_roundtrip [OF assms(2) b]
  show ?thesis unfolding decode_required_insert_count_def int s(4) sum.case prod.case if_not_P [OF ne(1)]
      Let_def d if_not_P [OF ne(2)] r(2) if_not_P [OF r(1)]
    using assms(2) by simp
qed

lemma q_prefix_emit:
  assumes "q_sync e d" and "required = 0 \<or> q_get (qe_table e) (required - 1) \<noteq> None"
    and "block = q_emit_prefix e required required @ post" and "required < 2 ^ 64"
  obtains pos where "decode_required_insert_count d block = Inr (required, pos)"
    "decode_base block pos required = Inr (required, length (q_emit_prefix e required required))"
proof (cases "required = 0")
  case True
  have e: "encode_int 0 8 0 = [0]" "encode_int 0 7 0 = [0]" by (simp_all add: encode_int_def)
  have "decode_int block 0 8 = Inr (0, 1)"
    using decode_encode_int [of 8 0 0 "[]" "0 # post"] e assms(3) True by (simp add: q_emit_prefix_def usize_ok_def)
  then have "decode_required_insert_count d block = Inr (required, length [0x00 :: byte])"
    using True by (simp add: decode_required_insert_count_def)
  moreover have "decode_base block (length [0x00 :: byte]) required = Inr (required, length [0x00 :: byte] + 1)"
    using assms(3,4) True by (intro decode_base_emit [of _ _ post]) (simp_all add: q_emit_prefix_def)
  ultimately show ?thesis using that True by (simp add: q_emit_prefix_def e)
next
  case False
  let ?enc = "encode_int (required mod (2 * qe_max_entries e) + 1) 8 0"
  have e: "encode_int 0 7 0 = [0]" by (simp add: encode_int_def)
  have block: "block = ?enc @ encode_int 0 7 0 @ post" using assms(3) False by (simp add: q_emit_prefix_def Let_def)
  from False assms(2) obtain en where "q_get (qe_table e) (required - 1) = Some en" by auto
  from required_insert_count_emit [OF assms(1) _ this block] False
  have "decode_required_insert_count d block = Inr (required, length ?enc)" by simp
  moreover have "decode_base block (length ?enc) required = Inr (required, length ?enc + 1)"
    by (rule decode_base_emit [OF block assms(4)])
  ultimately show ?thesis using that False by (simp add: q_emit_prefix_def Let_def e)
qed

lemma q_section_emit:
  assumes "q_pass_ok d0 e p fs d" and "length (q_emit_field_section e (qp_required p) (qp_reps p)) < 2 ^ 64"
    and "qt_insert_count (qe_table e) < 2 ^ 64"
    and "list_size fs \<le> qd_max_section d" and "qd_max_section d < 2 ^ 64"
  shows "decode_field_section d (q_emit_field_section e (qp_required p) (qp_reps p)) = Inr fs"
proof -
  let ?r = "qp_required p"
  let ?pre = "q_emit_prefix e ?r ?r" and ?body = "concat (map (q_emit_rep e ?r) (qp_reps p))"
  have block: "q_emit_field_section e ?r (qp_reps p) = ?pre @ ?body"
    by (simp add: q_emit_field_section_def Let_def)
  have sync: "q_sync e d" and reps: "list_all2 (q_rep_ok (qe_table e) ?r) fs (qp_reps p)"
    and get: "?r = 0 \<or> q_get (qe_table e) (?r - 1) \<noteq> None"
    using assms(1) by (auto simp: q_pass_ok_def)
  have r: "?r \<le> qt_insert_count (qe_table e) \<and> ?r \<le> qt_insert_count (qd_table d)"
  proof (cases "?r = 0")
    case False
    with get obtain en where en: "q_get (qe_table e) (?r - 1) = Some en" by auto
    then have "?r \<le> qt_insert_count (qe_table e)" by (auto simp: q_get_def split: if_splits)
    with q_sync_get [OF sync en] show ?thesis by simp
  qed simp
  obtain pos where pos: "decode_required_insert_count d (?pre @ ?body) = Inr (?r, pos)"
    "decode_base (?pre @ ?body) pos ?r = Inr (?r, length ?pre)"
    by (rule q_prefix_emit [OF sync get refl, of ?body]) (use r assms(3) in auto)
  have len: "length (?pre @ ?body) < 2 ^ 64" using assms(2) by (simp only: block)
  have "q_section_loop d (?pre @ ?body) ?r ?r (length ?pre) 0 [] = Inr ([] @ fs)"
    by (rule q_section_loop_emit [OF disjI2 [OF sync] reps conjunct1 [OF r] len]) (use assms(4,5) in simp_all)
  with pos r show ?thesis by (simp add: block decode_field_section_def)
qed

text \<open>The static-only encoder of \<open>encode_field_section\<close>.\<close>

lemma q_encode_field_rep:
  "\<exists>rep. q_encode_field e f = q_emit_rep e base rep \<and> q_rep_refs rep = {} \<and> q_rep_ok t r f rep"
proof (cases "static_find (hf_name f) (hf_value f)")
  case None
  then show ?thesis
    by (intro exI [of _ "LiteralName (hf_name f) (hf_value f) (hf_sensitive f)"])
      (simp add: q_encode_field_def q_emit_rep_def Let_def)
next
  case (Some m)
  then obtain i full where m: "static_find (hf_name f) (hf_value f) = Some (i, full)" by (cases m) simp
  from static_find_get [OF m] obtain x where x: "static_get i = Some (hf_name f, x)" "full \<longrightarrow> x = hf_value f"
    by blast
  show ?thesis
  proof (cases "full \<and> \<not> hf_sensitive f")
    case True
    with m x show ?thesis
      by (intro exI [of _ "StaticIdx i"]) (simp add: q_encode_field_def q_emit_rep_def)
  next
    case False
    with m x show ?thesis
      by (intro exI [of _ "StaticName i (hf_value f) (hf_sensitive f)"])
        (auto simp: q_encode_field_def q_emit_rep_def Let_def)
  qed
qed

lemma q_encode_fields_reps:
  "\<exists>reps. map (q_encode_field e) fs = map (q_emit_rep e base) reps \<and> (\<forall>rep \<in> set reps. q_rep_refs rep = {})
    \<and> list_all2 (q_rep_ok t r) fs reps"
proof (induction fs)
  case (Cons f fs)
  then obtain reps where "map (q_encode_field e) fs = map (q_emit_rep e base) reps"
    "\<forall>rep \<in> set reps. q_rep_refs rep = {}" "list_all2 (q_rep_ok t r) fs reps" by blast
  moreover obtain rep where "q_encode_field e f = q_emit_rep e base rep" "q_rep_refs rep = {}" "q_rep_ok t r f rep"
    using q_encode_field_rep by blast
  ultimately show ?case by (intro exI [of _ "rep # reps"]) simp
qed simp

section \<open>Connections\<close>

text \<open>Field sections encoded in a row, and their delivery: each encoder stream before its section.\<close>

fun qpack_encode_all ::
  "qpack_encoder \<Rightarrow> header_field list list \<Rightarrow> (qpack_encoder \<times> qpack_encoded list) option" where
  "qpack_encode_all e [] = Some (e, [])"
| "qpack_encode_all e (fs # fss) =
     (case qpack_encode e fs of None \<Rightarrow> None
      | Some (e1, x) \<Rightarrow>
          (case qpack_encode_all e1 fss of None \<Rightarrow> None | Some (e2, xs) \<Rightarrow> Some (e2, x # xs)))"

fun qpack_deliver :: "qpack_decoder \<Rightarrow> qpack_encoded list \<Rightarrow> qpack_decoder \<times> (error + header_field list) list" where
  "qpack_deliver d [] = (d, [])"
| "qpack_deliver d (x # xs) =
     (case feed_encoder_stream d (encoder_stream x) of
        (d1, Some err) \<Rightarrow> (d1, [Inl err])
      | (d1, None) \<Rightarrow>
          (case qpack_deliver d1 xs of (d2, rs) \<Rightarrow> (d2, decode_field_section d1 (field_section x) # rs)))"

lemma qpack_encode_step:
  assumes "q_sync e d"
  shows "\<exists>e' x. qpack_encode e fs = Some (e', x) \<and>
    (length (encoder_stream x) < 2 ^ 64 \<longrightarrow> (\<exists>d'. feed_encoder_stream d (encoder_stream x) = (d', None)
      \<and> q_sync e' d' \<and> qd_max_section d' = qd_max_section d
      \<and> (length (field_section x) < 2 ^ 64 \<longrightarrow> qt_insert_count (qe_table e') < 2 ^ 64 \<longrightarrow>
          list_size fs \<le> qd_max_section d \<longrightarrow> qd_max_section d < 2 ^ 64 \<longrightarrow>
          decode_field_section d' (field_section x) = Inr fs)))"
proof -
  from q_choose_all_ok [OF q_pass_ok_start [OF assms], of fs] obtain e' p d' where
    c: "q_choose_all e \<lparr>qp_stream = [], qp_reps = [], qp_required = 0, qp_referenced = []\<rparr> fs = Some (e', p)"
    and ok: "q_pass_ok d e' p fs d'" by auto
  let ?x = "\<lparr>encoder_stream = qp_stream p, field_section = q_emit_field_section e' (qp_required p) (qp_reps p)\<rparr>"
  have "feed_encoder_stream d (qp_stream p) = (d', None)" if "length (qp_stream p) < 2 ^ 64"
  proof -
    have "\<forall>post. length (qp_stream p @ post) < 2 ^ 64 \<longrightarrow>
      q_feed_loop d (qp_stream p @ post) 0 = q_feed_loop d' (qp_stream p @ post) (length (qp_stream p))"
      using ok unfolding q_pass_ok_def by blast
    from spec [OF this, of "[]"] that
    have "feed_encoder_stream d (qp_stream p) = q_feed_loop d' (qp_stream p) (length (qp_stream p))"
      by (simp add: feed_encoder_stream_def)
    also have "\<dots> = (d', None)" by (subst q_feed_loop.simps) simp
    finally show ?thesis .
  qed
  moreover have "q_sync e' d'" "qd_max_section d' = qd_max_section d" using ok by (simp_all add: q_pass_ok_def)
  moreover have "qpack_encode e fs = Some (e', ?x)" by (simp add: qpack_encode_def c)
  ultimately show ?thesis using q_section_emit [OF ok] by auto
qed

lemma qpack_insert_count_mono:
  assumes "q_pass_ok d0 e p fs d" and "q_choose e p f = Some (e', p')"
  shows "qt_insert_count (qe_table e) \<le> qt_insert_count (qe_table e')"
proof -
  have ok: "qtable_ok (qe_table e)" using assms(1) by (simp add: q_pass_ok_def q_sync_def)
  have "qt_insert_count (qe_table e) \<le> qt_insert_count t"
    if "q_insert n v (qe_table e) = (t, Some ix)" for n v t ix
  proof -
    have "entry_size n v \<le> qt_capacity (qe_table e)"
      using that by (auto simp: q_insert_def Let_def split: if_splits)
    from q_insert_result [OF ok this] that show ?thesis by (metis Pair_inject Suc_n_not_le_n nat_le_linear)
  qed
  with assms(2) show ?thesis
    by (auto simp: q_choose_def Let_def split: if_splits option.splits prod.splits)
qed

lemma q_choose_all_mono:
  assumes "q_pass_ok d0 e p fs d" and "q_choose_all e p gs = Some (e', p')"
  shows "qt_insert_count (qe_table e) \<le> qt_insert_count (qe_table e')"
  using assms
proof (induction gs arbitrary: e p fs d)
  case (Cons g gs)
  from q_choose_ok [OF Cons.prems(1), of g] obtain e1 p1 d1 where 1: "q_choose e p g = Some (e1, p1)"
    "q_pass_ok d0 e1 p1 (fs @ [g]) d1" by blast
  with Cons.prems(2) have "q_choose_all e1 p1 gs = Some (e', p')" by simp
  from Cons.IH [OF 1(2) this] qpack_insert_count_mono [OF Cons.prems(1) 1(1)] show ?case by simp
qed simp

lemma qpack_encode_all_mono:
  assumes "q_sync e d" and "qpack_encode_all e fss = Some (e', xs)" and "\<forall>x \<in> set xs. length (encoder_stream x) < 2 ^ 64"
  shows "qt_insert_count (qe_table e) \<le> qt_insert_count (qe_table e')"
  using assms
proof (induction fss arbitrary: e d xs)
  case (Cons fs fss)
  from qpack_encode_step [OF Cons.prems(1), of fs] obtain e1 x where 1: "qpack_encode e fs = Some (e1, x)"
    "length (encoder_stream x) < 2 ^ 64 \<Longrightarrow> \<exists>d'. q_sync e1 d'" by blast
  from 1(1) Cons.prems(2) obtain ys where 2: "qpack_encode_all e1 fss = Some (e', ys)" "xs = x # ys"
    by (auto split: option.splits prod.splits)
  from 1(2) 2(2) Cons.prems(3) obtain d1 where d1: "q_sync e1 d1" by auto
  have "qt_insert_count (qe_table e) \<le> qt_insert_count (qe_table e1)"
    using 1(1) q_choose_all_mono [OF q_pass_ok_start [OF Cons.prems(1)]]
    by (auto simp: qpack_encode_def split: option.splits prod.splits)
  with Cons.IH [OF d1 2(1)] 2(2) Cons.prems(3) show ?case by auto
qed simp

lemma qpack_deliver_all:
  assumes "q_sync e d" and "qpack_encode_all e fss = Some (e', xs)"
    and "\<forall>x \<in> set xs. length (encoder_stream x) < 2 ^ 64 \<and> length (field_section x) < 2 ^ 64"
    and "qt_insert_count (qe_table e') < 2 ^ 64"
    and "\<forall>fs \<in> set fss. list_size fs \<le> qd_max_section d" and "qd_max_section d < 2 ^ 64"
  shows "\<exists>d'. qpack_deliver d xs = (d', map Inr fss) \<and> q_sync e' d'"
  using assms
proof (induction fss arbitrary: e d xs)
  case (Cons fs fss)
  from qpack_encode_step [OF Cons.prems(1), of fs] obtain e1 x where x: "qpack_encode e fs = Some (e1, x)"
    and step: "length (encoder_stream x) < 2 ^ 64 \<longrightarrow> (\<exists>d'. feed_encoder_stream d (encoder_stream x) = (d', None)
      \<and> q_sync e1 d' \<and> qd_max_section d' = qd_max_section d
      \<and> (length (field_section x) < 2 ^ 64 \<longrightarrow> qt_insert_count (qe_table e1) < 2 ^ 64 \<longrightarrow>
          list_size fs \<le> qd_max_section d \<longrightarrow> qd_max_section d < 2 ^ 64 \<longrightarrow>
          decode_field_section d' (field_section x) = Inr fs))" by blast
  from x Cons.prems(2) obtain ys where ys: "qpack_encode_all e1 fss = Some (e', ys)" "xs = x # ys"
    by (auto split: option.splits prod.splits)
  from step ys(2) Cons.prems(3,5,6) obtain d1 where d1: "feed_encoder_stream d (encoder_stream x) = (d1, None)"
    "q_sync e1 d1" "qd_max_section d1 = qd_max_section d"
    "qt_insert_count (qe_table e1) < 2 ^ 64 \<Longrightarrow> decode_field_section d1 (field_section x) = Inr fs" by auto
  from qpack_encode_all_mono [OF d1(2) ys(1)] ys(2) Cons.prems(3,4)
  have "qt_insert_count (qe_table e1) < 2 ^ 64" by auto
  with d1(4) have "decode_field_section d1 (field_section x) = Inr fs" by blast
  moreover from Cons.IH [OF d1(2) ys(1)] ys(2) Cons.prems(3-6) d1(3)
  obtain d2 where "qpack_deliver d1 ys = (d2, map Inr fss)" "q_sync e' d2" by auto
  ultimately show ?case using d1(1) ys(2) by simp
qed simp

section \<open>Any input\<close>

definition qdecoder_ok :: "qpack_decoder \<Rightarrow> bool" where
  "qdecoder_ok d \<longleftrightarrow> qtable_ok (qd_table d) \<and> qt_capacity (qd_table d) \<le> qd_max_capacity d"

lemma q_set_capacity_ok:
  assumes "qtable_ok t" and "qt_capacity t \<le> m"
  shows "qtable_ok (fst (q_set_capacity c m t)) \<and> qt_capacity (fst (q_set_capacity c m t)) \<le> m"
proof (cases "m < c")
  case False
  let ?t = "t\<lparr>qt_capacity := c\<rparr>"
  have ok: "qt_size ?t = entries_size (qt_entries ?t)" "qt_insert_count ?t = qt_dropped ?t + length (qt_entries ?t)"
    using assms(1) by (simp_all add: qtable_ok_def)
  from q_evict_ok [OF ok, of 0] q_evict_result [OF ok(1), of 0] False show ?thesis
    by (simp add: q_set_capacity_def Let_def)
qed (use assms in \<open>simp add: q_set_capacity_def\<close>)

lemma q_insert_then_ok:
  assumes "q_insert_then n v np d = (d', r)" and "qdecoder_ok d"
  shows "qdecoder_ok d' \<and> qd_max_capacity d' = qd_max_capacity d \<and> qd_max_section d' = qd_max_section d"
proof (cases "q_can_insert n v (qd_table d)")
  case True
  then have "entry_size n v \<le> qt_capacity (qd_table d)" by (simp add: q_can_insert_def)
  moreover have "qtable_ok (qd_table d)" using assms(2) by (simp add: qdecoder_ok_def)
  ultimately obtain t where "q_insert n v (qd_table d) = (t, Some (qt_insert_count (qd_table d)))" "qtable_ok t"
    "qt_capacity t = qt_capacity (qd_table d)" using q_insert_result by metis
  with assms True show ?thesis by (auto simp: q_insert_then_def q_do_insert_def qdecoder_ok_def)
qed (use assms in \<open>auto simp: q_insert_then_def q_do_insert_def\<close>)

lemma q_instruction_ok:
  assumes "q_instruction d data pos = (d', r)" and "qdecoder_ok d"
  shows "qdecoder_ok d' \<and> qd_max_capacity d' = qd_max_capacity d \<and> qd_max_section d' = qd_max_section d"
proof -
  have cap: "qdecoder_ok (d\<lparr>qd_table := t\<rparr>)" if "q_set_capacity c (qd_max_capacity d) (qd_table d) = (t, ok)" for c t ok
    using q_set_capacity_ok [of "qd_table d" "qd_max_capacity d" c] that assms(2) by (simp add: qdecoder_ok_def)
  let ?b = "data ! pos"
  have "d' = d \<or> (\<exists>n v np. q_insert_then n v np d = (d', r))
    \<or> (\<exists>c t ok. q_set_capacity c (qd_max_capacity d) (qd_table d) = (t, ok) \<and> d' = d\<lparr>qd_table := t\<rparr>)"
  proof -
    consider (name_ref) "?b AND 0b10000000 \<noteq> 0"
      | (literal) "?b AND 0b10000000 = 0" "?b AND 0b01000000 \<noteq> 0"
      | (capacity) "?b AND 0b10000000 = 0" "?b AND 0b01000000 = 0" "?b AND 0b00100000 \<noteq> 0"
      | (duplicate) "?b AND 0b10000000 = 0" "?b AND 0b01000000 = 0" "?b AND 0b00100000 = 0" by blast
    then show ?thesis
    proof cases
      case name_ref
      with assms(1) show ?thesis by (simp add: q_instruction_def Let_def split: sum.splits prod.splits) blast+
    next
      case literal
      with assms(1) show ?thesis by (simp add: q_instruction_def Let_def split: sum.splits prod.splits) blast+
    next
      case capacity
      with assms(1) show ?thesis by (simp add: q_instruction_def Let_def split: sum.splits prod.splits) blast+
    next
      case duplicate
      with assms(1) show ?thesis by (simp add: q_instruction_def Let_def split: sum.splits prod.splits) blast+
    qed
  qed
  then show ?thesis using assms(2) q_insert_then_ok cap by auto
qed

lemma q_feed_loop_ok:
  assumes "q_feed_loop d data pos = (d', r)" and "qdecoder_ok d"
  shows "qdecoder_ok d' \<and> qd_max_capacity d' = qd_max_capacity d \<and> qd_max_section d' = qd_max_section d"
  using assms
proof (induction d data pos rule: q_feed_loop.induct)
  case (1 d data pos)
  show ?case
  proof (cases "pos < length data")
    case True
    obtain d1 s where i: "q_instruction d data pos = (d1, s)" by fastforce
    note keep = q_instruction_ok [OF i 1(3)]
    show ?thesis
    proof (cases s)
      case (Inl err)
      with 1(2) True i keep show ?thesis by (subst (asm) q_feed_loop.simps) simp
    next
      case (Inr np)
      with 1(2) True i have "q_feed_loop d1 data np = (d', r)" by (subst (asm) q_feed_loop.simps) simp
      from 1(1) [OF True i [symmetric] Inr this] keep show ?thesis by simp
    qed
  qed (use 1(2,3) in \<open>subst (asm) q_feed_loop.simps, simp\<close>)
qed

lemma q_field_line_charge:
  assumes "q_field_line d block base required pos used = Inr (np, used', f)"
  shows "used' = min (used + field_size f) (2 ^ 64 - 1) \<and> used' \<le> qd_max_section d"
proof -
  have charge: "used' = min (used + field_size f) (2 ^ 64 - 1) \<and> used' \<le> qd_max_section d"
    if "q_push q used (qd_max_section d) n v s = Inr (np, used', f)" for q n v s
    using that by (auto simp: q_push_eq charge_field_def saturating_add_def field_size_def Let_def split: if_splits)
  let ?b = "block ! pos"
  consider (indexed) "?b AND 0b10000000 \<noteq> 0" | (name_ref) "?b AND 0b10000000 = 0" "?b AND 0b01000000 \<noteq> 0"
    | (literal) "?b AND 0b10000000 = 0" "?b AND 0b01000000 = 0" "?b AND 0b00100000 \<noteq> 0"
    | (post) "?b AND 0b10000000 = 0" "?b AND 0b01000000 = 0" "?b AND 0b00100000 = 0" "?b AND 0b00010000 \<noteq> 0"
    | (post_name) "?b AND 0b10000000 = 0" "?b AND 0b01000000 = 0" "?b AND 0b00100000 = 0" "?b AND 0b00010000 = 0"
    by blast
  then show ?thesis
    by cases (use assms charge in \<open>simp_all add: q_field_line_def Let_def split: sum.splits prod.splits\<close>)
qed

lemma q_section_loop_cap:
  assumes "q_section_loop d block base required pos used got = Inr fs"
    and "used = min (list_size got) (2 ^ 64 - 1)" and "used \<le> qd_max_section d"
  shows "min (list_size fs) (2 ^ 64 - 1) \<le> qd_max_section d"
  using assms
proof (induction d block base required pos used got rule: q_section_loop.induct)
  case (1 d block base required pos used got)
  show ?case
  proof (cases "pos < length block")
    case True
    with 1(2) obtain np used' f where l: "q_field_line d block base required pos used = Inr (np, used', f)"
      "q_section_loop d block base required np used' (got @ [f]) = Inr fs"
      by (subst (asm) q_section_loop.simps) (auto split: sum.splits)
    note c = q_field_line_charge [OF l(1)]
    then have "used' = min (list_size (got @ [f])) (2 ^ 64 - 1)" using 1(3) by (simp add: list_size_def)
    with 1(1) [OF True l(1) refl refl l(2)] c show ?thesis by simp
  qed (use 1(2-4) in \<open>subst (asm) q_section_loop.simps, simp\<close>)
qed

section \<open>Properties\<close>

text \<open>C14. Two ends of a QPACK connection in step: whatever sequence of header lists the encoder is
  given, each encoder stream followed by its field section decodes to the list it was made from,
  although entries are inserted and evicted on the way, and the ends finish in step.  The lists
  must be within the decoder's cap, and lengths and the insert count within 64 bits.\<close>

theorem qpack_connection_roundtrip:
  assumes "q_sync e d" and "qpack_encode_all e fss = Some (e', xs)"
    and "\<forall>x \<in> set xs. length (encoder_stream x) < 2 ^ 64 \<and> length (field_section x) < 2 ^ 64"
    and "qt_insert_count (qe_table e') < 2 ^ 64"
    and "\<forall>fs \<in> set fss. list_size fs \<le> qd_max_section d" and "qd_max_section d < 2 ^ 64"
  shows "\<exists>d'. qpack_deliver d xs = (d', map Inr fss) \<and> q_sync e' d'"
  by (rule qpack_deliver_all [OF assms])

theorem qpack_connection_roundtrip_witness:
  "\<exists>d'. qpack_deliver (qpack_decoder_with_limits 40 1000)
      [\<lparr>encoder_stream = [0x3f, 0x09, 0x41, 0x01, 0x01, 0x02], field_section = [0x02, 0x00, 0x80]\<rparr>]
    = (d', [Inr [\<lparr>hf_name = [1], hf_value = [2], hf_sensitive = False\<rparr>]])"
proof -
  let ?e = "q_set_huffman False (qpack_encoder_with_dynamic 40)"
  let ?fs = "[\<lparr>hf_name = [1], hf_value = [2], hf_sensitive = False\<rparr>]"
  let ?x = "\<lparr>encoder_stream = [0x3f, 0x09, 0x41, 0x01, 0x01, 0x02], field_section = [0x02, 0x00, 0x80]\<rparr>"
  have sync: "q_sync ?e (qpack_decoder_with_limits 40 1000)"
    by (simp add: q_sync_def q_set_huffman_def qpack_encoder_with_dynamic_def q_set_capacity_def
        q_evict.simps qtable_new_def qpack_decoder_with_limits_def qtable_ok_def)
  let ?t = "\<lparr>qt_entries = [([1], [2])], qt_size = 34, qt_capacity = 40, qt_insert_count = 1, qt_dropped = 0\<rparr>"
  have enc: "qpack_encode_all ?e [?fs] = Some (?e\<lparr>qe_announced := True, qe_table := ?t\<rparr>, [?x])"
    by code_simp
  from qpack_connection_roundtrip [OF sync enc] show ?thesis
    by (auto simp: list_size_def field_size_def qpack_decoder_with_limits_def)
qed

text \<open>C20. The QPACK encoder does not panic: the insertion it has announced always succeeds, so an
  encoder in step with a decoder encodes every header list.\<close>

theorem qpack_encode_total:
  assumes "q_sync e d"
  shows "\<exists>e' x. qpack_encode e fs = Some (e', x)"
  using qpack_encode_step [OF assms] by blast

theorem qpack_encode_total_witness:
  "\<exists>e' x. qpack_encode (qpack_encoder_with_dynamic 64)
     [\<lparr>hf_name = [1], hf_value = [2], hf_sensitive = False\<rparr>] = Some (e', x)"
proof -
  have "q_sync (qpack_encoder_with_dynamic 64) (qpack_decoder_with_limits 64 1000)"
    by (simp add: q_sync_def qpack_encoder_with_dynamic_def q_set_capacity_def
        q_evict.simps qtable_new_def qpack_decoder_with_limits_def qtable_ok_def)
  then show ?thesis by (rule qpack_encode_total)
qed

text \<open>C15. The QPACK decoder is safe on any encoder stream: its table keeps an exact byte count and
  frames its live entries, its capacity never exceeds the limit, and the limits do not change; and
  any field section that decodes has a total size (saturating at \<open>usize::MAX\<close>) within the cap.\<close>

theorem qpack_decode_safe:
  assumes "qdecoder_ok d" and "feed_encoder_stream d stream = (d', r)"
  shows "qdecoder_ok d' \<and> qd_max_capacity d' = qd_max_capacity d
    \<and> (case decode_field_section d' block of
         Inl _ \<Rightarrow> True | Inr fs \<Rightarrow> min (list_size fs) (2 ^ 64 - 1) \<le> qd_max_section d)"
proof -
  have keep: "qdecoder_ok d'" "qd_max_capacity d' = qd_max_capacity d" "qd_max_section d' = qd_max_section d"
    using q_feed_loop_ok [OF assms(2) [unfolded feed_encoder_stream_def] assms(1)] by simp_all
  have "min (list_size fs) (2 ^ 64 - 1) \<le> qd_max_section d'" if "decode_field_section d' block = Inr fs" for fs
    using that q_section_loop_cap [where got = "[]" and used = 0]
    by (auto simp: decode_field_section_def list_size_def split: sum.splits if_splits)
  with keep show ?thesis by (simp split: sum.split)
qed

theorem qpack_decode_safe_witness:
  "qdecoder_ok (fst (feed_encoder_stream (qpack_decoder_with_limits 64 1000) [0x3f, 0x21, 0x41]))"
proof -
  have "qdecoder_ok (qpack_decoder_with_limits 64 1000)"
    by (simp add: qdecoder_ok_def qpack_decoder_with_limits_def) (simp add: qtable_new_def)
  from qpack_decode_safe [OF this prod.collapse [symmetric]] show ?thesis by blast
qed

text \<open>The QPACK ends the constructors build are in step when the decoder's limit is the
  encoder's capacity, and the static-only encoder is in step with any decoder.\<close>

theorem qpack_starts_in_sync:
  assumes "m < 2 ^ 64"
  shows "q_sync (qpack_encoder_with_dynamic m) (qpack_decoder_with_limits m cap)
    \<and> q_sync qpack_encoder_new (qpack_decoder_with_limits limit cap)"
proof
  have "q_evict 0 (qtable_new\<lparr>qt_capacity := m\<rparr>) = qtable_new\<lparr>qt_capacity := m\<rparr>"
    by (simp add: q_evict.simps qtable_new_def)
  moreover have "qtable_ok (qtable_new\<lparr>qt_capacity := m\<rparr>)" by (simp add: qtable_ok_def qtable_new_def)
  ultimately show "q_sync (qpack_encoder_with_dynamic m) (qpack_decoder_with_limits m cap)"
    using assms by (simp add: q_sync_def qpack_encoder_with_dynamic_def q_set_capacity_def qpack_decoder_with_limits_def)
  show "q_sync qpack_encoder_new (qpack_decoder_with_limits limit cap)"
    by (simp add: q_sync_def qpack_encoder_new_def qpack_decoder_with_limits_def) (simp add: qtable_new_def)
qed

theorem qpack_starts_in_sync_witness:
  "q_sync (qpack_encoder_with_dynamic 4096) (qpack_decoder_with_limits 4096 65536)"
  by (rule conjunct1 [OF qpack_starts_in_sync]) simp

text \<open>C21. A field section of the static-only encoder decodes at any decoder, whatever its dynamic
  table holds, to the fields it was made from, sensitive marks included.\<close>

theorem qpack_static_roundtrip:
  assumes "length (q_encode_static_section e fs) < 2 ^ 64"
    and "list_size fs \<le> qd_max_section d" and "qd_max_section d < 2 ^ 64"
  shows "decode_field_section d (q_encode_static_section e fs) = Inr fs"
proof -
  obtain reps where reps: "map (q_encode_field e) fs = map (q_emit_rep e 0) reps"
    "\<forall>rep \<in> set reps. q_rep_refs rep = {}" "list_all2 (q_rep_ok (qe_table e) 0) fs reps"
    using q_encode_fields_reps by blast
  let ?body = "concat (map (q_emit_rep e 0) reps)"
  have block: "q_encode_static_section e fs = [0, 0] @ ?body" by (simp add: q_encode_static_section_def reps(1))
  have len: "length ([0, 0] @ ?body) < 2 ^ 64" using assms(1) by (simp only: block)
  have e: "encode_int 0 8 0 = [0]" by (simp add: encode_int_def)
  have "decode_int ([0, 0] @ ?body) 0 8 = Inr (0, 1)"
    using decode_encode_int [of 8 0 0 "[]" "0 # ?body"] e by (simp add: usize_ok_def)
  then have "decode_required_insert_count d ([0, 0] @ ?body) = Inr (0, 1)"
    by (simp add: decode_required_insert_count_def)
  moreover have "decode_base ([0, 0] @ ?body) 1 0 = Inr (0, Suc (Suc 0))"
    using decode_base_emit [of "[0, 0] @ ?body" "[0]" ?body 0] by (simp add: encode_int_def)
  moreover have "q_section_loop d ([0, 0] @ ?body) 0 0 (length [0 :: byte, 0]) 0 [] = Inr ([] @ fs)"
    by (rule q_section_loop_emit [OF disjI1 [OF reps(2)] reps(3) le0 len]) (use assms(2,3) in simp_all)
  ultimately show ?thesis by (simp add: block decode_field_section_def)
qed

theorem qpack_static_roundtrip_witness:
  "decode_field_section (qpack_decoder_with_limits 0 100) [0, 0, 0x37, 0x00, 1, 2, 3, 4, 5, 6, 7, 0x01, 9]
    = Inr [\<lparr>hf_name = [1, 2, 3, 4, 5, 6, 7], hf_value = [9], hf_sensitive = True\<rparr>]"
proof -
  let ?e = "q_set_huffman False qpack_encoder_new"
  let ?f = "\<lparr>hf_name = [1, 2, 3, 4, 5, 6, 7], hf_value = [9], hf_sensitive = True\<rparr>"
  have enc: "q_encode_static_section ?e [?f] = [0, 0, 0x37, 0x00, 1, 2, 3, 4, 5, 6, 7, 0x01, 9]"
    by code_simp
  from qpack_static_roundtrip [of ?e "[?f]" "qpack_decoder_with_limits 0 100"] show ?thesis
    by (simp only: enc) (simp add: list_size_def field_size_def qpack_decoder_with_limits_def)
qed

end
