(* ===== verification/LeBytes.thy ===== *)
theory LeBytes
  imports Prelude
begin

text \<open>
  Little-endian words: \<open>from_le_bytes\<close>, \<open>to_le_bytes\<close> and \<open>trailing_zeros\<close> of the standard
  library, with the bit lemma that makes a word comparison a comparison of its bytes.
\<close>

definition le_word :: "byte list \<Rightarrow> 'a :: len word" where
  "le_word bs = horner_sum unsigned (2 ^ 8) bs"

definition le_bytes :: "nat \<Rightarrow> 'a :: len word \<Rightarrow> byte list" where
  "le_bytes n w = map (\<lambda>i. ucast (drop_bit (8 * i) w)) [0..<n]"

definition trailing_zeros :: "'a :: len word \<Rightarrow> nat" where
  "trailing_zeros w = length (takeWhile (\<lambda>i. \<not> bit w i) [0..<LENGTH('a)])"

lemma length_le_bytes [simp]: "length (le_bytes n w) = n"
  by (simp add: le_bytes_def)

lemma le_word_Cons: "le_word (b # bs) = (ucast b OR push_bit 8 (le_word bs) :: 'a :: len word)"
proof -
  have "le_word (b # bs) = (ucast b + push_bit 8 (le_word bs) :: 'a word)"
    by (simp add: le_word_def push_bit_eq_mult mult.commute)
  also have "\<dots> = ucast b OR push_bit 8 (le_word bs)"
  proof (rule disjunctive_add)
    fix n
    show "\<not> bit (ucast b :: 'a word) n \<or> \<not> bit (push_bit 8 (le_word bs :: 'a word)) n"
      by (auto simp: bit_simps dest: bit_imp_le_length)
  qed
  finally show ?thesis .
qed

lemma le_word_Nil [simp]: "le_word [] = 0"
  by (simp add: le_word_def)

lemma bit_le_word:
  "bit (le_word bs :: 'a :: len word) k \<longleftrightarrow> k < LENGTH('a) \<and> k div 8 < length bs \<and> bit (bs ! (k div 8)) (k mod 8)"
proof (induction bs arbitrary: k)
  case (Cons b bs)
  show ?case
  proof (cases "k < 8")
    case True
    then show ?thesis by (simp add: le_word_Cons bit_simps)
  next
    case False
    then obtain j where j: "k = j + 8" by (metis add.commute le_add_diff_inverse not_less)
    have div: "(j + 8) div 8 = Suc (j div 8)" by simp
    have "\<not> bit b k" using False by (auto dest: bit_imp_le_length)
    then show ?thesis by (auto simp add: le_word_Cons bit_simps Cons.IH j div)
  qed
qed simp

lemma le_word_bytes:
  assumes "LENGTH('a) = 8 * n"
  shows "le_word (le_bytes n (w :: 'a :: len word)) = w"
proof (rule bit_word_eqI)
  fix k assume "k < LENGTH('a)"
  with assms have "k div 8 < n" by simp
  then show "bit (le_word (le_bytes n w) :: 'a word) k = bit w k"
    using \<open>k < LENGTH('a)\<close> by (simp add: bit_le_word) (simp add: le_bytes_def bit_simps)
qed

lemma trailing_zeros_bit:
  assumes "(w :: 'a :: len word) \<noteq> 0"
  shows "trailing_zeros w < LENGTH('a) \<and> bit w (trailing_zeros w) \<and> (\<forall>i < trailing_zeros w. \<not> bit w i)"
proof -
  let ?P = "\<lambda>i. \<not> bit w i" and ?xs = "[0..<LENGTH('a)]"
  obtain k where k: "bit w k" using assms by (metis bit_eqI bit_0_eq bot_apply bot_bool_def)
  then have "k < LENGTH('a)" by (rule bit_imp_le_length)
  with k have "\<not> (\<forall>x \<in> set ?xs. ?P x)" by auto
  then have len: "trailing_zeros w < LENGTH('a)"
    unfolding trailing_zeros_def using length_takeWhile_le [of ?P ?xs] takeWhile_eq_all_conv [of ?P ?xs]
    by (metis diff_zero le_neq_implies_less length_upt takeWhile_eq_take take_all_iff order_refl)
  then have "\<not> ?P (?xs ! trailing_zeros w)"
    unfolding trailing_zeros_def using nth_length_takeWhile [of ?P ?xs] by simp
  moreover have "?P i" if "i < trailing_zeros w" for i
  proof -
    have "takeWhile ?P ?xs ! i \<in> set (takeWhile ?P ?xs)" using that by (intro nth_mem) (simp add: trailing_zeros_def)
    then have "?P (takeWhile ?P ?xs ! i)" by (auto dest: set_takeWhileD)
    with that len show ?thesis by (simp add: takeWhile_nth trailing_zeros_def)
  qed
  ultimately show ?thesis using len by simp
qed

text \<open>The first byte in which two words differ.\<close>

lemma le_word_differ:
  assumes "length xs = n" and "length ys = n" and "LENGTH('a) = 8 * n"
    and "le_word xs XOR le_word ys \<noteq> (0 :: 'a :: len word)"
  defines "k \<equiv> trailing_zeros (le_word xs XOR le_word ys :: 'a word) div 8"
  shows "k < n \<and> xs ! k \<noteq> ys ! k \<and> (\<forall>i < k. xs ! i = ys ! i)"
proof -
  let ?z = "trailing_zeros (le_word xs XOR le_word ys :: 'a word)"
  from trailing_zeros_bit [OF assms(4)]
  have z: "?z < 8 * n" "bit (le_word xs XOR le_word ys :: 'a word) ?z"
    "\<And>i. i < ?z \<Longrightarrow> \<not> bit (le_word xs XOR le_word ys :: 'a word) i" using assms(3) by auto
  have differ: "bit (le_word xs XOR le_word ys :: 'a word) j \<longleftrightarrow> (bit (xs ! (j div 8)) (j mod 8) \<noteq> bit (ys ! (j div 8)) (j mod 8))"
    if "j < 8 * n" for j
  proof -
    have "j div 8 < n" using that by simp
    with that assms(1-3) show ?thesis by (simp add: bit_xor_iff bit_le_word)
  qed
  have "k < n" using z(1) by (simp add: k_def)
  moreover have "xs ! k \<noteq> ys ! k" using z(1,2) differ by (auto simp: k_def)
  moreover have "xs ! i = ys ! i" if "i < k" for i
  proof (rule bit_word_eqI)
    fix m assume m: "m < LENGTH(8)"
    have "8 * i + m < ?z" using that m unfolding k_def by simp
    then show "bit (xs ! i) m = bit (ys ! i) m"
      using z(1) z(3) [of "8 * i + m"] differ [of "8 * i + m"] m by simp
  qed
  ultimately show ?thesis by blast
qed

lemma le_word_same:
  assumes "length xs = n" and "length ys = n" and "LENGTH('a) = 8 * n"
    and "le_word xs XOR le_word ys = (0 :: 'a :: len word)"
  shows "xs = ys"
proof (rule nth_equalityI)
  fix i assume "i < length xs"
  show "xs ! i = ys ! i"
  proof (rule bit_word_eqI)
    fix m assume "m < LENGTH(8)"
    moreover have "bit (le_word xs :: 'a word) (8 * i + m) = bit (le_word ys :: 'a word) (8 * i + m)"
      using assms(4) by (metis xor_self_eq xor.right_neutral xor.assoc xor.left_neutral)
    ultimately show "bit (xs ! i) m = bit (ys ! i) m"
      using assms(1-3) \<open>i < length xs\<close> by (simp add: bit_le_word)
  qed
qed (use assms in simp)

end
