(* ===== verification/LzWindow.thy ===== *)
theory LzWindow
  imports Prelude
begin

text \<open>
  LZ77 back-references: what it means for a stretch of data to match an earlier one, the
  byte-by-byte copy a back-reference stands for, and the bulk copies decoders use instead of it.
\<close>

definition lz_match :: "'a list \<Rightarrow> nat \<Rightarrow> nat \<Rightarrow> nat \<Rightarrow> bool" where
  "lz_match data b a n \<longleftrightarrow> b \<le> a \<and> a + n \<le> length data \<and> (\<forall>k < n. data ! (b + k) = data ! (a + k))"

lemma lz_match_prefix: "lz_match data b a n \<Longrightarrow> m \<le> n \<Longrightarrow> lz_match data b a m"
  by (auto simp: lz_match_def)

lemma lz_match_back:
  assumes "lz_match data b a n" and "0 < b" and "data ! (b - 1) = data ! (a - 1)"
  shows "lz_match data (b - 1) (a - 1) (Suc n)"
proof -
  have "data ! (b - 1 + k) = data ! (a - 1 + k)" if "k < Suc n" for k
    using assms that by (cases k) (auto simp: lz_match_def)
  with assms show ?thesis by (auto simp: lz_match_def)
qed

lemma lz_match_append:
  assumes "lz_match data b a n" and "lz_match data (b + n) (a + n) m"
  shows "lz_match data b a (n + m)"
proof -
  have "data ! (b + k) = data ! (a + k)" if "k < n + m" for k
  proof (cases "k < n")
    case False
    then obtain j where "k = n + j" by (metis le_add_diff_inverse not_less)
    with assms(2) that show ?thesis by (auto simp: lz_match_def add.assoc)
  qed (use assms(1) in \<open>auto simp: lz_match_def\<close>)
  with assms show ?thesis by (simp add: lz_match_def)
qed

section \<open>Copies\<close>

fun copy_bytes :: "'a list \<Rightarrow> nat \<Rightarrow> nat \<Rightarrow> 'a list" where
  "copy_bytes out off 0 = out"
| "copy_bytes out off (Suc n) = copy_bytes (out @ [out ! (length out - off)]) off n"

lemma copy_bytes_add: "copy_bytes out off (m + n) = copy_bytes (copy_bytes out off m) off n"
  by (induction m arbitrary: out) simp_all

lemma length_copy_bytes [simp]: "length (copy_bytes out off n) = length out + n"
  by (induction n arbitrary: out) simp_all

lemma copy_bytes_match:
  assumes "lz_match data (p - off) p n" and "0 < off" and "off \<le> p"
  shows "copy_bytes (take p data) off n = take (p + n) data"
  using assms
proof (induction n arbitrary: p)
  case (Suc n)
  from Suc.prems(1) have p: "p + Suc n \<le> length data" "\<And>k. k < Suc n \<Longrightarrow> data ! (p - off + k) = data ! (p + k)"
    by (auto simp: lz_match_def)
  have "take p data ! (length (take p data) - off) = data ! p"
    using p(1) p(2) [of 0] Suc.prems(2,3) by simp
  then have "take p data @ [take p data ! (length (take p data) - off)] = take (Suc p) data"
    using p(1) by (simp add: take_Suc_conv_app_nth)
  moreover have "lz_match data (Suc p - off) (Suc p) n"
    using p(1) p(2) [of "Suc k" for k] Suc.prems(3) by (auto simp: lz_match_def Suc_diff_le)
  ultimately show ?case using Suc.IH [of "Suc p"] Suc.prems(2,3) by simp
qed simp

text \<open>A copy no longer than its distance moves one block.\<close>

lemma copy_bytes_block:
  "n \<le> off \<Longrightarrow> off \<le> length out \<Longrightarrow> copy_bytes out off n = out @ take n (drop (length out - off) out)"
proof (induction n)
  case (Suc n)
  have "copy_bytes out off (Suc n) = copy_bytes (copy_bytes out off n) off 1"
    using copy_bytes_add [of out off n 1] by simp
  also have "\<dots> = copy_bytes out off n @ [out ! (length out - off + n)]"
    using Suc by (simp add: nth_append)
  finally show ?case
    using Suc by (simp add: take_Suc_conv_app_nth)
qed simp

lemma copy_bytes_splat:
  "out \<noteq> [] \<Longrightarrow> copy_bytes out 1 n = out @ replicate n (last out)"
proof (induction n arbitrary: out)
  case (Suc n)
  from Suc.IH [of "out @ [last out]"] Suc.prems show ?case
    by (simp add: last_conv_nth)
qed simp

function copy_chunks :: "'a list \<Rightarrow> nat \<Rightarrow> nat \<Rightarrow> 'a list" where
  "copy_chunks out off remaining =
     (if 0 < remaining \<and> 0 < off then
        let chunk = min remaining off; s = length out - off in
        copy_chunks (out @ take chunk (drop s out)) off (remaining - chunk)
      else out)"
  by pat_completeness auto
termination by (relation "measure (\<lambda>(_, _, r). r)") auto

declare copy_chunks.simps [simp del]

lemma copy_chunks_bytes:
  "0 < off \<Longrightarrow> off \<le> length out \<Longrightarrow> copy_chunks out off n = copy_bytes out off n"
proof (induction out off n rule: copy_chunks.induct)
  case (1 out off n)
  show ?case
  proof (cases "0 < n")
    case True
    let ?c = "min n off"
    have block: "copy_bytes out off ?c = out @ take ?c (drop (length out - off) out)"
      using 1(3) by (intro copy_bytes_block) simp_all
    have "copy_chunks out off n = copy_chunks (copy_bytes out off ?c) off (n - ?c)"
      using True 1(2) by (subst copy_chunks.simps) (simp add: Let_def block)
    also have "\<dots> = copy_bytes (copy_bytes out off ?c) off (n - ?c)"
      unfolding block by (rule 1(1)) (use True 1(2,3) in auto)
    also have "\<dots> = copy_bytes out off n"
      using copy_bytes_add [of out off ?c "n - ?c"] by simp
    finally show ?thesis .
  qed (simp add: copy_chunks.simps)
qed

end
