(* ===== verification/Lz4Block.thy ===== *)
theory Lz4Block
  imports LeBytes LzWindow
begin

text \<open>
  The LZ4 block codec of \<open>src/lz4/block.rs\<close>: the match counter, the sequence emitter, the fast
  greedy parse, the hash-chain parse with lazy matching, the price-based optimal parse, and the
  block decoder.  An encoder returns the bytes it appends to the cleared \<open>out\<close>.  Positions
  stored in the hash tables are the \<open>u32\<close> words the code stores.
\<close>

definition MIN_MATCH :: nat where "MIN_MATCH = 4"
definition MAX_DISTANCE :: nat where "MAX_DISTANCE = 65535"
definition LAST_LITERALS :: nat where "LAST_LITERALS = 5"
definition MFLIMIT :: nat where "MFLIMIT = 12"
definition HASH_LOG :: nat where "HASH_LOG = 12"
definition HASH_TABLE_SIZE :: nat where "HASH_TABLE_SIZE = 2 ^ HASH_LOG"
definition HC_HASH_LOG :: nat where "HC_HASH_LOG = 15"
definition HC_HASH_TABLE_SIZE :: nat where "HC_HASH_TABLE_SIZE = 2 ^ HC_HASH_LOG"
definition HASH_EMPTY :: u32 where "HASH_EMPTY = 0xFFFFFFFF"
definition HC_LEVEL_THRESHOLD :: nat where "HC_LEVEL_THRESHOLD = 3"
definition OPT_LEVEL_THRESHOLD :: nat where "OPT_LEVEL_THRESHOLD = 10"

section \<open>Matching and hashing\<close>

definition read_u64 :: "byte list \<Rightarrow> nat \<Rightarrow> u64" where
  "read_u64 input at = le_word (take 8 (drop at input))"

function match_forward_bytes :: "byte list \<Rightarrow> nat \<Rightarrow> nat \<Rightarrow> nat \<Rightarrow> nat \<Rightarrow> nat" where
  "match_forward_bytes input a b a_limit len =
     (if a + len < a_limit \<and> input ! (a + len) = input ! (b + len)
      then match_forward_bytes input a b a_limit (len + 1)
      else len)"
  by pat_completeness auto
termination by (relation "measure (\<lambda>(_, a, _, a_limit, len). a_limit - (a + len))") auto

function match_forward_words :: "byte list \<Rightarrow> nat \<Rightarrow> nat \<Rightarrow> nat \<Rightarrow> nat \<Rightarrow> nat" where
  "match_forward_words input a b a_limit len =
     (if a + len + 8 \<le> a_limit then
        let x = read_u64 input (a + len) XOR read_u64 input (b + len) in
        if x \<noteq> 0 then len + trailing_zeros x div 8
        else match_forward_words input a b a_limit (len + 8)
      else match_forward_bytes input a b a_limit len)"
  by pat_completeness auto
termination by (relation "measure (\<lambda>(_, a, _, a_limit, len). a_limit - (a + len))") auto

declare match_forward_bytes.simps [simp del] match_forward_words.simps [simp del]

definition match_forward :: "byte list \<Rightarrow> nat \<Rightarrow> nat \<Rightarrow> nat \<Rightarrow> nat" where
  "match_forward input a b a_limit = match_forward_words input a b a_limit 0"

definition quad :: "byte list \<Rightarrow> nat \<Rightarrow> byte list" where
  "quad input p = [input ! p, input ! (p + 1), input ! (p + 2), input ! (p + 3)]"

definition hash4 :: "byte list \<Rightarrow> nat" where
  "hash4 bytes = unat (drop_bit (32 - HASH_LOG) ((le_word bytes :: u32) * 2654435761))"

definition hc_hash4 :: "byte list \<Rightarrow> nat" where
  "hc_hash4 bytes = unat (drop_bit (32 - HC_HASH_LOG) ((le_word bytes :: u32) * 2654435761))"

definition compress_bound :: "nat \<Rightarrow> nat" where
  "compress_bound input_len = input_len + input_len div 255 + 16"

section \<open>Sequences\<close>

text \<open>The \<open>while rem >= 255\<close> loops.\<close>

fun emit_run :: "nat \<Rightarrow> byte list" where
  "emit_run rest = (if 255 \<le> rest then 255 # emit_run (rest - 255) else [byte_of rest])"

declare emit_run.simps [simp del]

definition emit_sequence :: "byte list \<Rightarrow> nat \<Rightarrow> u16 \<Rightarrow> nat \<Rightarrow> byte list" where
  "emit_sequence literals literal_len offset match_excess =
     (let lit_high = (if 15 \<le> literal_len then 15 else byte_of literal_len);
          match_low = (if 15 \<le> match_excess then 15 else byte_of match_excess);
          token = push_bit 4 lit_high OR match_low
      in [token]
         @ (if 15 \<le> literal_len then emit_run (literal_len - 15) else [])
         @ literals
         @ [ucast (offset AND 0xFF), ucast (drop_bit 8 offset)]
         @ (if 15 \<le> match_excess then emit_run (match_excess - 15) else []))"

definition emit_last_literals :: "byte list \<Rightarrow> byte list" where
  "emit_last_literals literals =
     (let literal_len = length literals;
          lit_high = (if 15 \<le> literal_len then 15 else byte_of literal_len)
      in [push_bit 4 lit_high]
         @ (if 15 \<le> literal_len then emit_run (literal_len - 15) else [])
         @ literals)"

section \<open>The fast parse\<close>

text \<open>The probe loop: \<open>None\<close> when it passes \<open>match_limit\<close>.  The measure covers a zero step, which the
  code never takes.  \<open>search_match_nb\<close> is a \<open>u32\<close> in the code.  The step is a 64th of it, so it
  would have to walk about \<open>2 ^ 57\<close> bytes without a match before it wrapped; here it is unbounded.\<close>

function lz4_probe ::
  "byte list \<Rightarrow> nat \<Rightarrow> u32 list \<Rightarrow> nat \<Rightarrow> nat \<Rightarrow> nat \<Rightarrow> u32 list \<times> (nat \<times> nat) option" where
  "lz4_probe input match_limit table ip step search_match_nb =
     (if match_limit < ip then (table, None)
      else
        let h = hash4 (quad input ip); candidate = table ! h;
            table1 = table[h := word_of_nat ip]; cand = unat candidate
        in if candidate \<noteq> HASH_EMPTY \<and> ip - cand \<le> MAX_DISTANCE \<and> input ! cand = input ! ip
              \<and> input ! (cand + 1) = input ! (ip + 1) \<and> input ! (cand + 2) = input ! (ip + 2)
              \<and> input ! (cand + 3) = input ! (ip + 3)
           then (table1, Some (ip, cand))
           else lz4_probe input match_limit table1 (ip + step) (search_match_nb div 64)
                  (search_match_nb + 1))"
  by pat_completeness auto
termination
  by (relation "measures [\<lambda>(_, match_limit, _, ip, _, _). Suc match_limit - ip,
      \<lambda>(_, _, _, _, step, nb). if 0 < step then 0 else Suc (64 - nb)]") auto

declare lz4_probe.simps [simp del]

function extend_back :: "byte list \<Rightarrow> nat \<Rightarrow> nat \<Rightarrow> nat \<Rightarrow> nat \<times> nat" where
  "extend_back input anchor ip match_pos =
     (if anchor < ip \<and> 0 < match_pos \<and> input ! (ip - 1) = input ! (match_pos - 1)
      then extend_back input anchor (ip - 1) (match_pos - 1)
      else (ip, match_pos))"
  by pat_completeness auto
termination by (relation "measure (\<lambda>(_, _, ip, _). ip)") auto

declare extend_back.simps [simp del]

lemma extend_back_ge: "anchor \<le> ip \<Longrightarrow> anchor \<le> fst (extend_back input anchor ip mp)"
  by (induction input anchor ip mp rule: extend_back.induct) (subst extend_back.simps, auto)

lemma lz4_probe_ge:
  "lz4_probe input match_limit table ip step nb = (t, Some (p, m)) \<Longrightarrow> ip \<le> p"
proof (induction input match_limit table ip step nb rule: lz4_probe.induct)
  case (1 input match_limit table ip step nb)
  from 1(2) show ?case
    by (subst (asm) lz4_probe.simps) (auto simp: Let_def split: if_splits dest!: 1(1) [OF _ refl refl refl refl])
qed

lemma fast_progress:
  "lz4_probe input limit table anchor step nb = (t, Some (p, m)) \<Longrightarrow>
   extend_back input anchor p m = (ip, mp) \<Longrightarrow> anchor \<le> ip"
  using extend_back_ge [of anchor p input m] lz4_probe_ge by (metis fst_conv)

lemma extend_back_sym:
  "(ip, mp) = extend_back input anchor p m \<Longrightarrow> extend_back input anchor p m = (ip, mp)"
  by simp

text \<open>The outer loop; \<open>next_ip\<close> and \<open>anchor\<close> are equal whenever it is entered, so one parameter
  stands for both.\<close>

definition fast_seed :: "byte list \<Rightarrow> nat \<Rightarrow> u32 list \<Rightarrow> u32 list" where
  "fast_seed input ip table =
     (if 2 \<le> ip then
        let seed = ip - 2 in
        if seed + MIN_MATCH \<le> length input then table[hash4 (quad input seed) := word_of_nat seed]
        else table
      else table)"

function encode_fast_loop :: "byte list \<Rightarrow> u32 list \<Rightarrow> nat \<Rightarrow> byte list" where
  "encode_fast_loop input table anchor =
     (if anchor \<le> length input - MFLIMIT then
        (case lz4_probe input (length input - MFLIMIT) table anchor 1 64 of
           (table1, None) \<Rightarrow> emit_last_literals (drop anchor input)
         | (table1, Some (ip0, match_pos0)) \<Rightarrow>
             let (ip, match_pos) = extend_back input anchor ip0 match_pos0;
                 forward_limit = length input - LAST_LITERALS;
                 match_len = MIN_MATCH
                   + match_forward input (ip + MIN_MATCH) (match_pos + MIN_MATCH) forward_limit;
                 literal_len = ip - anchor;
                 ip' = ip + match_len
             in emit_sequence (take literal_len (drop anchor input)) literal_len
                  (word_of_nat (ip - match_pos)) (match_len - MIN_MATCH)
                @ encode_fast_loop input (fast_seed input ip' table1) ip')
      else emit_last_literals (drop anchor input))"
  by pat_completeness auto
termination
  by (relation "measure (\<lambda>(input, _, anchor). Suc (length input) - anchor)")
    (auto simp: MIN_MATCH_def dest!: extend_back_sym fast_progress [OF sym])

declare encode_fast_loop.simps [simp del]

definition encode_block :: "byte list \<Rightarrow> byte list" where
  "encode_block input =
     (if input = [] then []
      else if length input < MFLIMIT + 1 then emit_last_literals input
      else encode_fast_loop input (replicate HASH_TABLE_SIZE HASH_EMPTY) 0)"

section \<open>Decoder\<close>

text \<open>The extension bytes of a length.\<close>

function read_run :: "byte list \<Rightarrow> nat \<Rightarrow> nat \<Rightarrow> error + nat \<times> nat" where
  "read_run input ip len =
     (if length input \<le> ip then Inl UnexpectedEnd
      else
        let b = input ! ip in
        (case checked_add len (unat b) of
           None \<Rightarrow> Inl Corrupt
         | Some len' \<Rightarrow>
             if b \<noteq> 255 then Inr (len', ip + 1) else read_run input (ip + 1) len'))"
  by pat_completeness auto
termination by (relation "measure (\<lambda>(input, ip, _). length input - ip)") auto

declare read_run.simps [simp del]

definition copy_match :: "byte list \<Rightarrow> nat \<Rightarrow> nat \<Rightarrow> byte list" where
  "copy_match out offset match_len =
     (let start = length out - offset in
      if match_len \<le> offset then out @ take match_len (drop start out)
      else if offset = 1 then out @ replicate match_len (out ! start)
      else copy_chunks out offset match_len)"

text \<open>One round of the loop: the error, or the output and the next position if the block goes on.\<close>

definition decode_match ::
  "byte list \<Rightarrow> nat \<Rightarrow> byte \<Rightarrow> nat \<Rightarrow> byte list \<Rightarrow> error + byte list \<times> nat option" where
  "decode_match input raw_max token ip out =
     (if length input < ip + 2 then Inl UnexpectedEnd
      else
        let offset = unat (input ! ip) OR push_bit 8 (unat (input ! (ip + 1))) in
        if offset = 0 then Inl InvalidDistance
        else if length out < offset then Inl InvalidDistance
        else
          let excess = unat (token AND 0x0F) in
          (case (if excess = 15 then read_run input (ip + 2) excess else Inr (excess, ip + 2)) of
             Inl err \<Rightarrow> Inl err
           | Inr (match_excess, ip') \<Rightarrow>
               let match_len = MIN_MATCH + match_excess in
               if raw_max < length out + match_len then Inl Corrupt
               else Inr (copy_match out offset match_len, Some ip')))"

definition decode_sequence ::
  "byte list \<Rightarrow> nat \<Rightarrow> nat \<Rightarrow> byte list \<Rightarrow> error + byte list \<times> nat option" where
  "decode_sequence input raw_max ip out =
     (if length input \<le> ip then Inl UnexpectedEnd
      else
        let token = input ! ip; lit = unat (drop_bit 4 token) in
        (case (if lit = 15 then read_run input (ip + 1) lit else Inr (lit, ip + 1)) of
           Inl err \<Rightarrow> Inl err
         | Inr (lit_len, ip1) \<Rightarrow>
             if 0 < lit_len \<and> length input < ip1 + lit_len then Inl UnexpectedEnd
             else if 0 < lit_len \<and> raw_max < length out + lit_len then Inl Corrupt
             else
               let out' = out @ take lit_len (drop ip1 input); ip2 = ip1 + lit_len in
               if ip2 = length input then Inr (out', None)
               else decode_match input raw_max token ip2 out'))"

lemma read_run_pos: "read_run input ip len = Inr (n, q) \<Longrightarrow> ip < q"
  by (induction input ip len rule: read_run.induct)
    (subst (asm) (2) read_run.simps, fastforce simp: Let_def split: if_splits option.splits)

lemma decode_match_pos: "decode_match input raw_max token ip out = Inr (out', Some q) \<Longrightarrow> ip < q"
  by (auto simp: decode_match_def Let_def split: if_splits sum.splits dest: read_run_pos)

lemma decode_sequence_pos:
  assumes "decode_sequence input raw_max ip out = Inr (out', Some q)"
  shows "ip < q"
proof -
  from assms show ?thesis
    by (auto simp: decode_sequence_def Let_def split: if_splits sum.splits
        dest!: read_run_pos decode_match_pos)
qed

function decode_block_loop :: "byte list \<Rightarrow> nat \<Rightarrow> nat \<Rightarrow> byte list \<Rightarrow> error + byte list" where
  "decode_block_loop input raw_max ip out =
     (case decode_sequence input raw_max ip out of
        Inl err \<Rightarrow> Inl err
      | Inr (out', None) \<Rightarrow> Inr out'
      | Inr (out', Some ip') \<Rightarrow> decode_block_loop input raw_max ip' out')"
  by pat_completeness auto
termination
proof (relation "measure (\<lambda>(input, _, ip, _). length input - ip)", goal_cases)
  case (2 input raw_max ip out r out' q ip')
  then have "decode_sequence input raw_max ip out = Inr (out', Some ip')" by simp
  moreover from this have "ip < length input"
    by (auto simp: decode_sequence_def split: if_splits)
  ultimately show ?case using decode_sequence_pos by fastforce
qed simp

declare decode_block_loop.simps [simp del]

definition decode_block :: "byte list \<Rightarrow> nat \<Rightarrow> error + byte list" where
  "decode_block input raw_max =
     (if input = [] then Inr [] else decode_block_loop input raw_max 0 [])"

end
