(* ===== verification/Lz4Codes.thy ===== *)
theory Lz4Codes
  imports Lz4Block
begin

text \<open>
  What an LZ4 block means.  \<open>lz4_codes data p bytes\<close> says that \<open>bytes\<close> is a chain of sequences that
  describes \<open>data\<close> from position \<open>p\<close> on: each a run of its literals and a true match behind them.
  The decoder recovers the data from any such chain, so a parse is correct when it emits one.
\<close>

inductive lz4_codes :: "byte list \<Rightarrow> nat \<Rightarrow> byte list \<Rightarrow> bool" for data where
  last: "p \<le> length data \<Longrightarrow> lz4_codes data p (emit_last_literals (drop p data))"
| seq: "p \<le> s \<Longrightarrow> m < s \<Longrightarrow> s - m \<le> MAX_DISTANCE \<Longrightarrow> MIN_MATCH \<le> len \<Longrightarrow> lz_match data m s len \<Longrightarrow>
    lz4_codes data (s + len) rest \<Longrightarrow>
    lz4_codes data p
      (emit_sequence (take (s - p) (drop p data)) (s - p) (word_of_nat (s - m)) (len - MIN_MATCH) @ rest)"

section \<open>Lengths\<close>

lemma emit_run_nonempty: "emit_run n \<noteq> []"
  by (subst emit_run.simps) simp

lemma read_run_emit:
  assumes "len + n < 2 ^ 64"
  shows "read_run (pre @ emit_run n @ post) (length pre) len = Inr (len + n, length pre + length (emit_run n))"
  using assms
proof (induction n arbitrary: pre len rule: emit_run.induct)
  case (1 n)
  show ?case
  proof (cases "255 \<le> n")
    case True
    have run: "emit_run n = 255 # emit_run (n - 255)" using True by (subst emit_run.simps) simp
    have "read_run ((pre @ [255]) @ emit_run (n - 255) @ post) (length (pre @ [255])) (len + 255)
        = Inr (len + 255 + (n - 255), length (pre @ [255]) + length (emit_run (n - 255)))"
      using 1(2) True by (intro 1(1)) simp_all
    moreover have "checked_add len 255 = Some (len + 255)" using 1(2) True by (simp add: checked_add_def)
    ultimately show ?thesis using True
      by (subst read_run.simps) (simp add: run Let_def nth_append)
  next
    case False
    then have run: "emit_run n = [byte_of n]" by (subst emit_run.simps) simp
    have "unat (byte_of n) = n" using False by simp
    moreover have "byte_of n \<noteq> 255"
    proof
      assume "byte_of n = 255"
      then have "unat (byte_of n) = 255" by simp
      with \<open>unat (byte_of n) = n\<close> False show False by simp
    qed
    ultimately show ?thesis using 1(2)
      by (subst read_run.simps) (simp add: run Let_def nth_append checked_add_def)
  qed
qed

text \<open>A length nibble with its extension bytes, as \<open>read_run\<close> and its caller see it.\<close>

definition nibble :: "nat \<Rightarrow> byte" where
  "nibble n = (if 15 \<le> n then 15 else byte_of n)"

definition extension :: "nat \<Rightarrow> byte list" where
  "extension n = (if 15 \<le> n then emit_run (n - 15) else [])"

lemma nibble_bits: "bit (nibble n) k \<Longrightarrow> k < 4"
  using bit_byte_of_less [of n 4 k] bit_byte_of_less [of 15 4 k]
  by (cases "k < 4") (auto simp: nibble_def not_less split: if_splits)

lemma token_fields:
  "drop_bit 4 (push_bit 4 (nibble a) OR nibble b) = nibble a"
  "(push_bit 4 (nibble a) OR nibble b) AND 0x0F = nibble b"
proof -
  show "drop_bit 4 (push_bit 4 (nibble a) OR nibble b) = nibble a"
    by (rule bit_word_eqI) (auto simp: bit_simps dest: nibble_bits)
  have m: "(0x0F :: byte) = mask 4" by (simp add: mask_eq_exp_minus_1)
  show "(push_bit 4 (nibble a) OR nibble b) AND 0x0F = nibble b" unfolding m
    by (rule bit_word_eqI) (auto simp only: bit_and_iff bit_or_iff bit_push_bit_iff bit_mask_iff possible_bit_word
        dest: nibble_bits)
qed

lemma unat_nibble: "unat (nibble n) = min 15 n"
  by (simp add: nibble_def min_def)

lemma read_extension:
  assumes "block = pre @ extension n @ post" and "p = length pre" and "n < 2 ^ 64"
  shows "(if unat (nibble n) = 15 then read_run block p (unat (nibble n)) else Inr (unat (nibble n), p))
    = Inr (n, p + length (extension n))"
  using assms read_run_emit [of 15 "n - 15" pre post] by (auto simp: unat_nibble extension_def)

lemma emit_sequence_parts:
  "emit_sequence literals (length literals) offset excess
   = [push_bit 4 (nibble (length literals)) OR nibble excess] @ extension (length literals) @ literals
     @ [ucast (offset AND 0xFF), ucast (drop_bit 8 offset)] @ extension excess"
  by (simp add: emit_sequence_def nibble_def extension_def Let_def)

lemma emit_last_parts:
  "emit_last_literals literals
   = [push_bit 4 (nibble (length literals)) OR nibble 0] @ extension (length literals) @ literals"
  by (simp add: emit_last_literals_def nibble_def extension_def Let_def)

lemma offset_bytes:
  assumes "off < 65536"
  shows "unat (ucast (word_of_nat off AND 0xFF :: u16) :: byte)
      OR push_bit 8 (unat (ucast (drop_bit 8 (word_of_nat off :: u16)) :: byte)) = off"
proof -
  have 1: "unat (ucast (word_of_nat off AND 0xFF :: u16) :: byte) = off mod 256"
  proof -
    have "(ucast (word_of_nat off AND 0xFF :: u16) :: byte) = byte_of off"
    proof (rule bit_word_eqI)
      fix k assume k: "k < LENGTH(8)"
      have "bit (0xFF :: u16) k" using k bit_mask_iff [of 8 k, where ?'a = u16] by (simp add: mask_numeral)
      with k show "bit (ucast (word_of_nat off AND 0xFF :: u16) :: byte) k = bit (byte_of off) k"
        by (simp add: bit_simps)
    qed
    then show ?thesis by (simp add: unat_of_nat)
  qed
  have 2: "unat (ucast (drop_bit 8 (word_of_nat off :: u16)) :: byte) = off div 256"
  proof -
    have "unat (word_of_nat off :: u16) = off" using assms by (simp add: unat_of_nat)
    then have "unat (drop_bit 8 (word_of_nat off :: u16)) = off div 2 ^ 8"
      by (simp only: unat_drop_bit_eq) (simp only: drop_bit_eq_div)
    with assms show ?thesis by (simp add: unsigned_ucast_eq take_bit_nat_eq_self)
  qed
  have "off mod 256 OR push_bit 8 (off div 256) = off mod 256 + push_bit 8 (off div 256)"
    by (rule disjunctive_add [symmetric]) (auto simp: bit_simps take_bit_eq_mod [of 8, simplified, symmetric])
  then show ?thesis by (simp add: 1 2 push_bit_eq_mult)
qed

section \<open>Decoding a chain\<close>

lemma copy_match_bytes:
  "0 < off \<Longrightarrow> off \<le> length out \<Longrightarrow> copy_match out off n = copy_bytes out off n"
  using copy_bytes_block [of n off out] copy_bytes_splat [of out n] copy_chunks_bytes [of off out n]
  by (cases "out = []") (auto simp: copy_match_def Let_def last_conv_nth)

text \<open>What a round does with its token and literals.\<close>

lemma decode_sequence_literals:
  assumes "block = pre @ [push_bit 4 (nibble (length lits)) OR nibble exc] @ extension (length lits) @ lits @ post"
    and "length out + length lits \<le> raw_max" and "raw_max < 2 ^ 64"
  shows "decode_sequence block raw_max (length pre) out =
    (if post = [] then Inr (out @ lits, None)
     else decode_match block raw_max (push_bit 4 (nibble (length lits)) OR nibble exc)
       (length pre + (1 + length (extension (length lits)) + length lits)) (out @ lits))"
proof -
  let ?t = "push_bit 4 (nibble (length lits)) OR nibble exc"
  have at: "block ! length pre = ?t" "length pre < length block" by (simp_all add: assms(1) nth_append)
  have block: "block = (pre @ [?t]) @ extension (length lits) @ lits @ post" by (simp add: assms(1))
  have len: "length lits < 2 ^ 64" using assms(2,3) by linarith
  have run: "(if unat (nibble (length lits)) = 15
       then read_run block (length pre + 1) (unat (nibble (length lits)))
       else Inr (unat (nibble (length lits)), length pre + 1))
     = Inr (length lits, length pre + 1 + length (extension (length lits)))"
    by (rule read_extension [OF block _ len]) simp
  have take: "take (length lits) (drop (length pre + 1 + length (extension (length lits))) block) = lits"
    by (simp add: block)
  have more: "(length pre + 1 + length (extension (length lits)) + length lits = length block) = (post = [])"
    by (simp add: block)
  have fits: "\<not> (0 < length lits \<and> length block < length pre + 1 + length (extension (length lits)) + length lits)"
    "\<not> (0 < length lits \<and> raw_max < length out + length lits)" "\<not> length block \<le> length pre"
    using assms(2) by (simp_all add: block)
  show ?thesis
    unfolding decode_sequence_def Let_def at(1) token_fields run sum.case prod.case take more
      if_not_P [OF fits(1)] if_not_P [OF fits(2)] if_not_P [OF fits(3)]
    by (simp add: add.assoc)
qed

lemma decode_match_emit:
  assumes "block = pre @ [ucast (word_of_nat off AND 0xFF :: u16), ucast (drop_bit 8 (word_of_nat off :: u16))]
      @ extension exc @ post"
    and "0 < off" and "off < 65536" and "off \<le> length out"
    and "length out + (MIN_MATCH + exc) \<le> raw_max" and "raw_max < 2 ^ 64"
  shows "decode_match block raw_max (push_bit 4 (nibble l) OR nibble exc) (length pre) out
    = Inr (copy_bytes out off (MIN_MATCH + exc), Some (length pre + (2 + length (extension exc))))"
proof -
  let ?o = "[ucast (word_of_nat off AND 0xFF :: u16), ucast (drop_bit 8 (word_of_nat off :: u16))]"
  have block: "block = (pre @ ?o) @ extension exc @ post" by (simp add: assms(1))
  have fits: "\<not> length block < length pre + 2" by (simp add: block)
  have off: "unat (block ! length pre) OR push_bit 8 (unat (block ! (length pre + 1))) = off"
    using offset_bytes [OF assms(3)] by (simp add: assms(1) nth_append)
  have len: "exc < 2 ^ 64" using assms(5,6) by linarith
  have run: "(if unat (nibble exc) = 15 then read_run block (length pre + 2) (unat (nibble exc))
       else Inr (unat (nibble exc), length pre + 2)) = Inr (exc, length pre + 2 + length (extension exc))"
    by (rule read_extension [OF block _ len]) simp
  show ?thesis
    unfolding decode_match_def Let_def token_fields off if_not_P [OF fits] run
    using assms(2,4,5) by (simp add: copy_match_bytes)
qed

lemma lz4_codes_decode:
  assumes "lz4_codes data p bytes" and "length data \<le> raw_max" and "raw_max < 2 ^ 64"
  shows "decode_block_loop (pre @ bytes) raw_max (length pre) (take p data) = Inr data"
  using assms
proof (induction arbitrary: pre rule: lz4_codes.induct)
  case (last p)
  have "decode_sequence (pre @ emit_last_literals (drop p data)) raw_max (length pre) (take p data)
      = Inr (take p data @ drop p data, None)"
    using decode_sequence_literals [of "pre @ emit_last_literals (drop p data)" pre "drop p data" 0 "[]"] last
    by (simp add: emit_last_parts)
  then show ?case by (subst decode_block_loop.simps) simp
next
  case (seq p s m len rest)
  let ?lits = "take (s - p) (drop p data)" and ?exc = "len - MIN_MATCH" and ?off = "s - m"
  let ?e = "emit_sequence ?lits (s - p) (word_of_nat ?off) ?exc"
  let ?o = "[ucast (word_of_nat ?off AND 0xFF :: u16), ucast (drop_bit 8 (word_of_nat ?off :: u16))] :: byte list"
  let ?hd = "[push_bit 4 (nibble (length ?lits)) OR nibble ?exc] @ extension (length ?lits) @ ?lits"
  have s: "s + len \<le> length data" using seq.hyps(5) by (simp add: lz_match_def)
  then have "s - p \<le> length data - p" "p + (s - p) = s" using seq.hyps(1) by simp_all
  then have lits: "length ?lits = s - p" "take p data @ ?lits = take s data"
    using take_add [of p "s - p" data] by simp_all
  have e: "?e = ?hd @ ?o @ extension ?exc"
    using emit_sequence_parts [of ?lits "word_of_nat ?off" ?exc] by (simp only: lits(1) append_assoc)
  have block: "pre @ ?e @ rest = pre @ [push_bit 4 (nibble (length ?lits)) OR nibble ?exc]
      @ extension (length ?lits) @ ?lits @ (?o @ extension ?exc @ rest)" by (simp only: e append_assoc)
  have "decode_sequence (pre @ ?e @ rest) raw_max (length pre) (take p data) =
    decode_match (pre @ ?e @ rest) raw_max (push_bit 4 (nibble (length ?lits)) OR nibble ?exc)
      (length pre + (1 + length (extension (length ?lits)) + length ?lits)) (take p data @ ?lits)"
    using decode_sequence_literals [OF block, of "take p data" raw_max] seq.prems seq.hyps(1) s lits(1)
    by simp
  also have "length pre + (1 + length (extension (length ?lits)) + length ?lits) = length (pre @ ?hd)" by simp
  also have "decode_match (pre @ ?e @ rest) raw_max (push_bit 4 (nibble (length ?lits)) OR nibble ?exc)
      (length (pre @ ?hd)) (take p data @ ?lits)
    = Inr (copy_bytes (take p data @ ?lits) ?off (MIN_MATCH + ?exc),
        Some (length (pre @ ?hd) + (2 + length (extension ?exc))))"
  proof (rule decode_match_emit)
    show "pre @ ?e @ rest = (pre @ ?hd) @ ?o @ extension ?exc @ rest" by (simp only: e append_assoc)
  qed (use seq.hyps seq.prems s lits in \<open>auto simp: MAX_DISTANCE_def\<close>)
  also have "copy_bytes (take p data @ ?lits) ?off (MIN_MATCH + ?exc) = take (s + len) data"
  proof -
    have "lz_match data (s - ?off) s len" using seq.hyps(2,5) by simp
    then show ?thesis using seq.hyps(2,4) copy_bytes_match [of data s ?off len] by (simp add: lits(2))
  qed
  also have "length (pre @ ?hd) + (2 + length (extension ?exc)) = length (pre @ ?e)" by (simp add: e)
  finally have "decode_sequence (pre @ ?e @ rest) raw_max (length pre) (take p data)
      = Inr (take (s + len) data, Some (length (pre @ ?e)))" .
  moreover have "decode_block_loop ((pre @ ?e) @ rest) raw_max (length (pre @ ?e)) (take (s + len) data) = Inr data"
    using seq.IH seq.prems by blast
  ultimately show ?case by (subst decode_block_loop.simps) simp
qed

lemma lz4_codes_nonempty: "lz4_codes data p bytes \<Longrightarrow> bytes \<noteq> []"
  by (induction rule: lz4_codes.induct) (simp_all add: emit_last_parts emit_sequence_def Let_def)

lemma lz4_codes_decode_block:
  assumes "lz4_codes data 0 bytes" and "length data \<le> raw_max" and "raw_max < 2 ^ 64"
  shows "decode_block bytes raw_max = Inr data"
  using lz4_codes_decode [OF assms, of "[]"] lz4_codes_nonempty [OF assms(1)] by (simp add: decode_block_def)

section \<open>Size\<close>

lemma length_emit_run: "length (emit_run n) = n div 255 + 1"
proof (induction n rule: emit_run.induct)
  case (1 n)
  show ?case
  proof (cases "255 \<le> n")
    case True
    with 1 have "length (emit_run n) = (n - 255) div 255 + 2" by (subst emit_run.simps) simp
    with True show ?thesis using le_div_geq [of 255 n] by simp
  qed (subst emit_run.simps, simp)
qed

lemma length_extension: "length (extension n) \<le> n div 255 + (if 15 \<le> n then 1 else 0)"
  by (simp add: extension_def length_emit_run div_le_mono)

lemma div_add_le: "a div m + b div m \<le> (a + b) div (m :: nat)"
  by (metis div_mult_self3 less_imp_le_nat div_add1_eq le_add1 nat_neq_iff not_less_zero div_by_0 le0 add_0)

lemma lz4_codes_length:
  "lz4_codes data p bytes \<Longrightarrow> length bytes \<le> (length data - p) + (length data - p) div 255 + 2"
proof (induction rule: lz4_codes.induct)
  case (last p)
  then show ?case using length_extension [of "length data - p"] by (simp add: emit_last_parts split: if_splits)
next
  case (seq p s m len rest)
  let ?L = "s - p" and ?r = "length data - (s + len)"
  let ?lits = "take ?L (drop p data)"
  have s: "s + len \<le> length data" using seq.hyps(5) by (simp add: lz_match_def)
  then have L: "length ?lits = ?L" using seq.hyps(1) by simp
  have len: "4 \<le> len" using seq.hyps(4) by (simp add: MIN_MATCH_def)
  have e: "emit_sequence ?lits ?L (word_of_nat (s - m)) (len - MIN_MATCH)
      = [push_bit 4 (nibble ?L) OR nibble (len - MIN_MATCH)] @ extension ?L @ ?lits
        @ [ucast (word_of_nat (s - m) AND 0xFF :: u16), ucast (drop_bit 8 (word_of_nat (s - m) :: u16))]
        @ extension (len - MIN_MATCH)"
    using emit_sequence_parts [of ?lits "word_of_nat (s - m)" "len - MIN_MATCH"] by (simp only: L)
  have "length (extension ?L) \<le> ?L div 255 + 1" using length_extension [of ?L] by (simp split: if_splits)
  moreover have "length (extension (len - MIN_MATCH)) + 4 \<le> len"
  proof (cases "15 \<le> len - 4")
    case True
    have "(len - 4) div 255 \<le> (len - 4) div 2" by (rule div_le_mono2) simp_all
    with True length_extension [of "len - 4"] show ?thesis by (simp add: MIN_MATCH_def)
  next
    case False
    with len show ?thesis by (simp add: MIN_MATCH_def extension_def)
  qed
  ultimately have "length (emit_sequence ?lits ?L (word_of_nat (s - m)) (len - MIN_MATCH)) \<le> ?L + len + ?L div 255"
    unfolding e using L by simp
  moreover have "?L div 255 + ?r div 255 \<le> (length data - p) div 255"
  proof -
    have "?L + ?r \<le> length data - p" using s seq.hyps(1) by simp
    then have "(?L + ?r) div 255 \<le> (length data - p) div 255" by (rule div_le_mono)
    with div_add_le [of ?L 255 ?r] show ?thesis by (rule le_trans)
  qed
  moreover have "?L + len + ?r = length data - p" using s seq.hyps(1) by simp
  ultimately show ?case using seq.IH by simp
qed

section \<open>Bounds of the decoder\<close>

lemma copy_match_length:
  assumes "0 < offset" and "offset \<le> length out"
  shows "length (copy_match out offset len) = length out + len"
  using copy_match_bytes [OF assms, of len] length_copy_bytes by simp

lemma read_run_error: "read_run input ip len = Inl e \<Longrightarrow> e = UnexpectedEnd \<or> e = Corrupt"
  by (induction input ip len rule: read_run.induct)
    (subst (asm) (2) read_run.simps, auto simp: Let_def split: if_splits option.splits)

lemma decode_match_length: "decode_match input raw_max token ip out = Inr (out', q) \<Longrightarrow> length out' \<le> raw_max"
  by (auto simp: decode_match_def Let_def copy_match_length split: if_splits sum.splits)

lemma decode_match_error:
  "decode_match input raw_max token ip out = Inl e \<Longrightarrow> e = UnexpectedEnd \<or> e = Corrupt \<or> e = InvalidDistance"
  by (auto simp: decode_match_def Let_def split: if_splits sum.splits dest!: read_run_error)

lemma decode_sequence_length:
  "decode_sequence input raw_max ip out = Inr (out', q) \<Longrightarrow> length out \<le> raw_max \<Longrightarrow> length out' \<le> raw_max"
  by (auto simp: decode_sequence_def Let_def split: if_splits sum.splits dest: decode_match_length)

lemma decode_sequence_error:
  "decode_sequence input raw_max ip out = Inl e \<Longrightarrow> e = UnexpectedEnd \<or> e = Corrupt \<or> e = InvalidDistance"
  by (auto simp: decode_sequence_def Let_def split: if_splits sum.splits dest!: read_run_error decode_match_error)

lemma decode_block_loop_bounded:
  "length out \<le> raw_max \<Longrightarrow>
   (case decode_block_loop input raw_max ip out of
     Inr out' \<Rightarrow> length out' \<le> raw_max
   | Inl e \<Rightarrow> e \<in> {UnexpectedEnd, Corrupt, InvalidDistance})"
proof (induction input raw_max ip out rule: decode_block_loop.induct)
  case (1 input raw_max ip out)
  show ?case
  proof (cases "decode_sequence input raw_max ip out")
    case (Inr r)
    obtain out' q where out: "r = (out', q)" by (cases r)
    from decode_sequence_length [OF Inr [unfolded out] 1(2)] show ?thesis
      using 1(1) [OF Inr out [symmetric]] Inr out
      by (cases q) (simp_all add: decode_block_loop.simps [of input raw_max ip out])
  qed (auto dest: decode_sequence_error simp: decode_block_loop.simps [of input raw_max ip out])
qed

text \<open>C18. Whatever the block, the output stays within the caller's bound; the errors are the
  three documented ones.\<close>

theorem lz4_block_bounded:
  "case decode_block input raw_max of
     Inr out \<Rightarrow> length out \<le> raw_max
   | Inl e \<Rightarrow> e \<in> {UnexpectedEnd, Corrupt, InvalidDistance}"
  using decode_block_loop_bounded [where out = "[]" and raw_max = raw_max and input = input and ip = 0] by (simp add: decode_block_def)

end
