(* ===== verification/Lz4Fast.thy ===== *)
theory Lz4Fast
  imports Lz4Codes
begin

text \<open>
  The match counter is the byte-wise one, and the fast parse of LZ4 emits a chain of true
  matches: every table entry lies before the position probed, and a hit is verified.
\<close>

section \<open>The match counter\<close>

lemma match_forward_bytes_spec:
  assumes "lz_match input b a len" and "a + len \<le> limit" and "limit \<le> length input"
  shows "lz_match input b a (match_forward_bytes input a b limit len)
    \<and> a + match_forward_bytes input a b limit len \<le> limit
    \<and> len \<le> match_forward_bytes input a b limit len"
  using assms
proof (induction input a b limit len rule: match_forward_bytes.induct)
  case (1 input a b limit len)
  show ?case
  proof (cases "a + len < limit \<and> input ! (a + len) = input ! (b + len)")
    case True
    then have "lz_match input b a (len + 1)"
      using 1(2,4) by (auto simp: lz_match_def less_Suc_eq)
    with 1(1) [OF True] 1(4) True show ?thesis
      by (subst (1 2 3) match_forward_bytes.simps) auto
  next
    case False
    then have "match_forward_bytes input a b limit len = len" by (subst match_forward_bytes.simps) (simp only: if_False)
    with 1(2,3) show ?thesis by simp
  qed
qed

lemma match_forward_bytes_skip:
  assumes "\<And>i. i < k \<Longrightarrow> input ! (a + len + i) = input ! (b + len + i)" and "a + len + k \<le> limit"
  shows "match_forward_bytes input a b limit len = match_forward_bytes input a b limit (len + k)"
  using assms
proof (induction k)
  case (Suc k)
  from Suc.prems(1) [of k] Suc.prems(2)
  have "match_forward_bytes input a b limit (len + k) = match_forward_bytes input a b limit (len + Suc k)"
    by (subst match_forward_bytes.simps) (simp add: add.assoc)
  with Suc show ?case by simp
qed simp

lemma match_forward_words_bytes:
  assumes "b \<le> a" and "limit \<le> length input"
  shows "match_forward_words input a b limit len = match_forward_bytes input a b limit len"
  using assms
proof (induction input a b limit len rule: match_forward_words.induct)
  case (1 input a b limit len)
  show ?case
  proof (cases "a + len + 8 \<le> limit")
    case True
    let ?xs = "take 8 (drop (a + len) input)" and ?ys = "take 8 (drop (b + len) input)"
    have len: "length ?xs = 8" "length ?ys = 8" using True 1(2,3) by simp_all
    have nth: "?xs ! i = input ! (a + len + i)" "?ys ! i = input ! (b + len + i)" if "i < 8" for i
      using that True 1(2,3) by simp_all
    let ?x = "read_u64 input (a + len) XOR read_u64 input (b + len)"
    show ?thesis
    proof (cases "?x = 0")
      case False
      define k where "k = trailing_zeros ?x div 8"
      have "le_word ?xs XOR le_word ?ys \<noteq> (0 :: u64)" using False by (simp add: read_u64_def)
      from le_word_differ [OF len _ this]
      have "LENGTH(64) = 8 * 8 \<Longrightarrow> k < 8 \<and> ?xs ! k \<noteq> ?ys ! k \<and> (\<forall>i < k. ?xs ! i = ?ys ! i)"
        unfolding k_def read_u64_def .
      moreover have "LENGTH(64) = 8 * 8" by simp
      ultimately have k: "k < 8" "?xs ! k \<noteq> ?ys ! k" "\<And>i. i < k \<Longrightarrow> ?xs ! i = ?ys ! i" by blast+
      have "match_forward_bytes input a b limit len = match_forward_bytes input a b limit (len + k)"
        using k nth True by (intro match_forward_bytes_skip) auto
      also have "\<dots> = len + k"
        using k(1,2) nth by (subst match_forward_bytes.simps) (simp add: add.assoc)
      finally show ?thesis using True False
        by (subst match_forward_words.simps) (simp add: Let_def k_def)
    next
      case zero: True
      then have "?xs = ?ys" using le_word_same [OF len, where ?'a = 64] by (simp add: read_u64_def)
      then have "match_forward_bytes input a b limit len = match_forward_bytes input a b limit (len + 8)"
        using nth True by (intro match_forward_bytes_skip) metis+
      with 1(1) [OF True refl] 1(2,3) True zero show ?thesis
        by (subst match_forward_words.simps) (simp add: Let_def)
    qed
  qed (subst match_forward_words.simps, simp)
qed

lemma match_forward_spec:
  assumes "b \<le> a" and "a \<le> limit" and "limit \<le> length input"
  shows "lz_match input b a (match_forward input a b limit) \<and> a + match_forward input a b limit \<le> limit"
  using match_forward_bytes_spec [of input b a 0 limit] assms
  by (simp add: match_forward_def match_forward_words_bytes lz_match_def)

text \<open>It stops only at the limit or at a difference.\<close>

lemma match_forward_bytes_stops:
  "a + match_forward_bytes input a b limit len < limit \<Longrightarrow>
   input ! (a + match_forward_bytes input a b limit len) \<noteq> input ! (b + match_forward_bytes input a b limit len)"
proof (induction input a b limit len rule: match_forward_bytes.induct)
  case (1 input a b limit len)
  then show ?case by (subst (1 2) match_forward_bytes.simps) (auto simp: match_forward_bytes.simps [of input a b limit len])
qed

lemma match_forward_stops:
  assumes "a + match_forward input a b limit < limit" and "b \<le> a" and "limit \<le> length input"
  shows "input ! (a + match_forward input a b limit) \<noteq> input ! (b + match_forward input a b limit)"
  using match_forward_bytes_stops [of a input b limit 0] assms
  by (simp add: match_forward_def match_forward_words_bytes)

lemma extend_back_match:
  assumes "lz_match input m p n" and "m < p" and "extend_back input anchor p m = (p', m')" and "anchor \<le> p"
  shows "m' < p' \<and> p' - m' = p - m \<and> anchor \<le> p' \<and> p' \<le> p \<and> lz_match input m' p' (n + (p - p'))"
  using assms
proof (induction input anchor p m arbitrary: n rule: extend_back.induct)
  case (1 input anchor p m)
  show ?case
  proof (cases "anchor < p \<and> 0 < m \<and> input ! (p - 1) = input ! (m - 1)")
    case True
    then have "lz_match input (m - 1) (p - 1) (Suc n)" using 1(2) by (intro lz_match_back) auto
    moreover have "extend_back input anchor (p - 1) (m - 1) = (p', m')"
      using 1(4) True by (subst (asm) extend_back.simps) simp
    ultimately have *: "m' < p' \<and> p' - m' = p - 1 - (m - 1) \<and> anchor \<le> p' \<and> p' \<le> p - 1
        \<and> lz_match input m' p' (Suc n + (p - 1 - p'))"
      using 1(3) True by (intro 1(1)) auto
    with True have "Suc n + (p - 1 - p') = n + (p - p')" by linarith
    with * have "lz_match input m' p' (n + (p - p'))" by metis
    with * True show ?thesis by auto
  next
    case False
    with 1(4) have "(p', m') = (p, m)" by (subst (asm) extend_back.simps) auto
    with 1 show ?thesis by simp
  qed
qed

section \<open>The fast parse\<close>

definition table_before :: "u32 list \<Rightarrow> nat \<Rightarrow> bool" where
  "table_before table ip \<longleftrightarrow> length table = HASH_TABLE_SIZE \<and> (\<forall>x \<in> set table. x = HASH_EMPTY \<or> unat x < ip)"

lemma hash4_bound: "hash4 bytes < HASH_TABLE_SIZE"
proof -
  let ?w = "(le_word bytes :: u32) * 2654435761"
  have "unat ?w < 2 ^ 32" using unsigned_less [of ?w, where ?'a = nat] by simp
  then have "unat ?w div 2 ^ 20 < 2 ^ 12" by (simp add: div_less_iff_less_mult)
  moreover have "hash4 bytes = unat ?w div 2 ^ 20"
    unfolding hash4_def HASH_LOG_def by (simp only: unat_drop_bit_eq) (simp only: drop_bit_eq_div, simp)
  ultimately show ?thesis by (simp add: HASH_TABLE_SIZE_def HASH_LOG_def)
qed

lemma unat_u32_le: "unat (word_of_nat n :: u32) \<le> n"
  by (simp add: unat_of_nat)

lemma table_before_update:
  "table_before table ip \<Longrightarrow> p < ip' \<Longrightarrow> ip \<le> ip' \<Longrightarrow> table_before (table[h := word_of_nat p]) ip'"
  using unat_u32_le [of p] by (fastforce simp: table_before_def dest: set_update_subset_insert [THEN subsetD])

lemma table_before_mono: "table_before table ip \<Longrightarrow> ip \<le> ip' \<Longrightarrow> table_before table ip'"
  by (auto simp: table_before_def)

lemma lz4_probe_hit:
  assumes "lz4_probe input limit table ip step nb = (t, Some (p, m))"
    and "table_before table ip" and "0 < step" and "64 \<le> nb" and "limit + 4 \<le> length input"
  shows "table_before t (p + 1) \<and> p \<le> limit \<and> m < p \<and> p - m \<le> MAX_DISTANCE \<and> lz_match input m p 4"
  using assms
proof (induction input limit table ip step nb rule: lz4_probe.induct)
  case (1 input limit table ip step nb)
  let ?h = "hash4 (quad input ip)"
  let ?t = "table[?h := word_of_nat ip]" and ?cand = "unat (table ! ?h)"
  let ?hit = "table ! ?h \<noteq> HASH_EMPTY \<and> ip - ?cand \<le> MAX_DISTANCE \<and> input ! ?cand = input ! ip
    \<and> input ! (?cand + 1) = input ! (ip + 1) \<and> input ! (?cand + 2) = input ! (ip + 2)
    \<and> input ! (?cand + 3) = input ! (ip + 3)"
  have ip: "\<not> limit < ip" using 1(2) by (subst (asm) lz4_probe.simps) auto
  have before: "table_before ?t (ip + 1)" using 1(3) by (rule table_before_update) simp_all
  show ?case
  proof (cases ?hit)
    case True
    with 1(2) ip have r: "t = ?t" "p = ip" "m = ?cand" by (subst (asm) lz4_probe.simps, simp add: Let_def)+
    have "table ! ?h \<in> set table" using 1(3) hash4_bound by (auto simp: table_before_def)
    with 1(3) True have "?cand < ip" by (auto simp: table_before_def)
    moreover have "input ! (?cand + k) = input ! (ip + k)" if "k < 4" for k
    proof -
      from that consider "k = 0" | "k = 1" | "k = 2" | "k = 3" by linarith
      then show ?thesis using True by cases simp_all
    qed
    ultimately show ?thesis using r before True ip 1(6) by (simp add: lz_match_def)
  next
    case False
    have "lz4_probe input limit ?t (ip + step) (nb div 64) (nb + 1) = (t, Some (p, m))"
      using 1(2) ip False by (subst (asm) lz4_probe.simps) (simp only: Let_def if_False)
    moreover have "table_before ?t (ip + step)" by (rule table_before_mono [OF before]) (use 1(4) in simp)
    moreover have "0 < nb div 64" using 1(5) by simp
    ultimately show ?thesis using 1(1) [OF ip refl refl refl refl] False 1(5,6) by simp
  qed
qed

lemma fast_seed_before: "table_before table ip \<Longrightarrow> table_before (fast_seed input ip table) ip"
  using table_before_update [of table ip "ip - 2" ip] by (simp add: fast_seed_def Let_def del: of_nat_diff)

lemma encode_fast_loop_codes:
  assumes "table_before table anchor" and "anchor \<le> length input" and "MFLIMIT < length input"
  shows "lz4_codes input anchor (encode_fast_loop input table anchor)"
  using assms
proof (induction input table anchor rule: encode_fast_loop.induct)
  case (1 input table anchor)
  show ?case
  proof (cases "anchor \<le> length input - MFLIMIT")
    case True
    obtain t r where probe: "lz4_probe input (length input - MFLIMIT) table anchor 1 64 = (t, r)" by fastforce
    show ?thesis
    proof (cases r)
      case None
      with probe True 1(3) show ?thesis
        by (subst encode_fast_loop.simps) (simp add: lz4_codes.last)
    next
      case (Some hit)
      then obtain p m where r: "r = Some (p, m)" by (cases hit) simp
      obtain ip mp where bk: "extend_back input anchor p m = (ip, mp)" by fastforce
      have "length input - MFLIMIT + 4 \<le> length input" using 1(4) by (simp add: MFLIMIT_def)
      with probe r 1(2) have hit: "table_before t (p + 1)" "p \<le> length input - MFLIMIT" "m < p"
        "p - m \<le> MAX_DISTANCE" "lz_match input m p 4"
        using lz4_probe_hit [of input _ table anchor 1 64 t p m] by simp_all
      have "anchor \<le> p" using lz4_probe_ge probe r by blast
      with extend_back_match [OF hit(5,3) bk] have b: "mp < ip" "ip - mp = p - m" "anchor \<le> ip" "ip \<le> p"
        "lz_match input mp ip (4 + (p - ip))" by blast+
      let ?limit = "length input - LAST_LITERALS"
      let ?f = "match_forward input (ip + MIN_MATCH) (mp + MIN_MATCH) ?limit"
      have lim: "ip + MIN_MATCH \<le> ?limit" "?limit \<le> length input"
        using b(4) hit(2) 1(4) by (simp_all add: MIN_MATCH_def MFLIMIT_def LAST_LITERALS_def)
      have f: "lz_match input (mp + MIN_MATCH) (ip + MIN_MATCH) ?f" "ip + MIN_MATCH + ?f \<le> ?limit"
        using match_forward_spec [OF _ lim] b(1) by simp_all
      have "lz_match input mp ip MIN_MATCH" using b(5) by (rule lz_match_prefix) (simp add: MIN_MATCH_def)
      from lz_match_append [OF this f(1)] have match: "lz_match input mp ip (MIN_MATCH + ?f)" .
      define ip' where "ip' = ip + (MIN_MATCH + ?f)"
      have "p + 1 \<le> ip'"
      proof -
        have "p < ip'"
        proof (rule ccontr)
          assume "\<not> p < ip'"
          then have stop: "MIN_MATCH + ?f < p - ip + 4" "ip' < ?limit"
            using hit(2) 1(4) by (auto simp: ip'_def MFLIMIT_def LAST_LITERALS_def)
          then have "input ! (mp + (MIN_MATCH + ?f)) = input ! ip'"
            using b(5) by (auto simp: lz_match_def ip'_def)
          moreover have "input ! (ip + MIN_MATCH + ?f) \<noteq> input ! (mp + MIN_MATCH + ?f)"
            using stop(2) b(1) lim(2) by (intro match_forward_stops) (simp_all add: ip'_def)
          ultimately show False by (simp add: ip'_def add.assoc)
        qed
        then show ?thesis by simp
      qed
      then have "table_before (fast_seed input ip' t) ip'"
        using hit(1) by (intro fast_seed_before) (rule table_before_mono)
      moreover have "ip' \<le> length input" using f(2) lim(2) by (simp add: ip'_def)
      ultimately have "lz4_codes input ip' (encode_fast_loop input (fast_seed input ip' t) ip')"
        using 1(1) [OF True probe [symmetric] r refl bk [symmetric] refl refl refl refl ip'_def] 1(4) by simp
      then have "lz4_codes input anchor (emit_sequence (take (ip - anchor) (drop anchor input)) (ip - anchor)
          (word_of_nat (ip - mp)) (MIN_MATCH + ?f - MIN_MATCH) @ encode_fast_loop input (fast_seed input ip' t) ip')"
        using b(1-3) hit(4) match by (intro lz4_codes.seq) (simp_all add: ip'_def)
      then show ?thesis using True probe r bk
        by (subst encode_fast_loop.simps) (simp add: Let_def ip'_def)
    qed
  next
    case False
    with 1(3) show ?thesis by (subst encode_fast_loop.simps) (simp add: lz4_codes.last)
  qed
qed

lemma encode_block_codes:
  assumes "input \<noteq> []"
  shows "lz4_codes input 0 (encode_block input)"
proof (cases "length input < MFLIMIT + 1")
  case True
  with lz4_codes.last [of 0 input] assms show ?thesis by (simp add: encode_block_def)
next
  case False
  have "table_before (replicate HASH_TABLE_SIZE HASH_EMPTY) 0" by (simp add: table_before_def)
  with encode_fast_loop_codes [of _ 0 input] False assms show ?thesis by (simp add: encode_block_def)
qed

section \<open>Properties\<close>

text \<open>C19. The word-at-a-time match extension computes what the byte loop computes: the number of
  equal bytes, never past the limit, and past the last one the limit or a difference.\<close>

theorem match_forward_is_bytewise:
  assumes "b \<le> a" and "a \<le> limit" and "limit \<le> length input"
  shows "match_forward input a b limit = match_forward_bytes input a b limit 0
    \<and> a + match_forward input a b limit \<le> limit
    \<and> (\<forall>i < match_forward input a b limit. input ! (a + i) = input ! (b + i))
    \<and> (a + match_forward input a b limit < limit
       \<longrightarrow> input ! (a + match_forward input a b limit) \<noteq> input ! (b + match_forward input a b limit))"
  using match_forward_bytes_spec [of input b a 0 limit] match_forward_spec [OF assms] assms
    match_forward_stops [OF _ assms(1,3)]
  by (auto simp: match_forward_def match_forward_words_bytes lz_match_def)

lemma match_forward_is_bytewise_witness:
  "match_forward [1, 2, 3, 1, 2, 3, 1, 9 :: byte] 3 0 8 = match_forward_bytes [1, 2, 3, 1, 2, 3, 1, 9] 3 0 8 0"
  using match_forward_is_bytewise [of 0 3 8 "[1, 2, 3, 1, 2, 3, 1, 9]"] by simp

end
