(* ===== verification/Lz4Hc.thy ===== *)
theory Lz4Hc
  imports Lz4Fast
begin

text \<open>
  The hash-chain match finder of \<open>src/lz4/block.rs\<close> and the parse with one-step lazy matching.
  The tables hold what the code's \<open>head\<close>, \<open>chain\<close> and \<open>inserted_through\<close> hold; the limits are
  functions of the combined buffer.  A match the finder returns is a true one whatever the
  tables contain.
\<close>

record hc_tables =
  hc_head :: "u32 list"
  hc_chain :: "u32 list"
  hc_inserted :: nat

definition match_limit :: "byte list \<Rightarrow> nat" where
  "match_limit input = length input - MFLIMIT"
definition hash_limit :: "byte list \<Rightarrow> nat" where
  "hash_limit input = length input - MIN_MATCH - LAST_LITERALS"
definition forward_limit :: "byte list \<Rightarrow> nat" where
  "forward_limit input = length input - LAST_LITERALS"

definition nb_attempts_for_level :: "nat \<Rightarrow> nat" where
  "nb_attempts_for_level level =
     (if level \<le> 3 then 8 else if level = 4 then 16 else if level = 5 then 32
      else if level = 6 then 64 else if level = 7 then 128 else if level = 8 then 256
      else if level = 9 then 512 else if level = 10 then 1024 else if level = 11 then 2048
      else 4096)"

section \<open>The match finder\<close>

definition hc_tables_new :: "nat \<Rightarrow> hc_tables" where
  "hc_tables_new n =
     \<lparr>hc_head = replicate HC_HASH_TABLE_SIZE HASH_EMPTY, hc_chain = replicate n HASH_EMPTY,
      hc_inserted = 0\<rparr>"

definition hc_insert :: "byte list \<Rightarrow> nat \<Rightarrow> hc_tables \<Rightarrow> hc_tables" where
  "hc_insert input p t =
     (let h = hc_hash4 (quad input p) in
      t\<lparr>hc_chain := (hc_chain t)[p := hc_head t ! h], hc_head := (hc_head t)[h := word_of_nat p]\<rparr>)"

function insert_up_to :: "byte list \<Rightarrow> nat \<Rightarrow> hc_tables \<Rightarrow> hc_tables" where
  "insert_up_to input up_to t =
     (if hc_inserted t < up_to \<and> hc_inserted t \<le> hash_limit input then
        insert_up_to input up_to
          ((hc_insert input (hc_inserted t) t)\<lparr>hc_inserted := hc_inserted t + 1\<rparr>)
      else t)"
  by pat_completeness auto
termination by (relation "measure (\<lambda>(_, up_to, t). up_to - hc_inserted t)") auto

declare insert_up_to.simps [simp del]

text \<open>The chain walk: the best length and position.\<close>

fun hc_walk ::
  "byte list \<Rightarrow> nat \<Rightarrow> u32 list \<Rightarrow> nat \<Rightarrow> u32 \<Rightarrow> nat \<Rightarrow> nat \<Rightarrow> nat \<Rightarrow> nat \<times> nat" where
  "hc_walk input pos chain min_pos cand 0 best_len best_pos = (best_len, best_pos)"
| "hc_walk input pos chain min_pos cand (Suc attempts) best_len best_pos =
     (if cand = HASH_EMPTY then (best_len, best_pos)
      else
        let c = unat cand in
        if pos \<le> c then hc_walk input pos chain min_pos (chain ! c) attempts best_len best_pos
        else if c < min_pos then (best_len, best_pos)
        else if pos + best_len < forward_limit input
            \<and> input ! (c + best_len) = input ! (pos + best_len) \<and> input ! c = input ! pos then
          let l = match_forward input pos c (forward_limit input) in
          if best_len < l then
            (if forward_limit input \<le> pos + l then (l, c)
             else hc_walk input pos chain min_pos (chain ! c) attempts l c)
          else hc_walk input pos chain min_pos (chain ! c) attempts best_len best_pos
        else hc_walk input pos chain min_pos (chain ! c) attempts best_len best_pos)"

declare hc_walk.simps [simp del]

definition hc_longest_match :: "byte list \<Rightarrow> nat \<Rightarrow> hc_tables \<Rightarrow> nat \<Rightarrow> (nat \<times> nat) option" where
  "hc_longest_match input pos t nb_attempts =
     (let h = hc_hash4 (quad input pos);
          (best_len, best_pos) = hc_walk input pos (hc_chain t) (pos - MAX_DISTANCE) (hc_head t ! h)
            nb_attempts (MIN_MATCH - 1) 0
      in if best_len < MIN_MATCH then None else Some (best_pos, best_len))"

function hc_resolve_loop :: "byte list \<Rightarrow> nat \<Rightarrow> nat \<times> nat \<times> nat \<Rightarrow> nat \<times> nat \<times> nat" where
  "hc_resolve_loop input anchor (spos, mpos, mlen) =
     (if anchor < spos \<and> 0 < mpos \<and> input ! (spos - 1) = input ! (mpos - 1)
      then hc_resolve_loop input anchor (spos - 1, mpos - 1, mlen + 1)
      else (spos, mpos, mlen))"
  by pat_completeness auto
termination by (relation "measure (\<lambda>(_, _, spos, _). spos)") auto

declare hc_resolve_loop.simps [simp del]

definition hc_resolve :: "byte list \<Rightarrow> nat \<Rightarrow> nat \<times> nat \<Rightarrow> nat \<Rightarrow> nat \<times> nat \<times> nat" where
  "hc_resolve input pos found anchor = (case found of (mpos, mlen) \<Rightarrow> hc_resolve_loop input anchor (pos, mpos, mlen))"

text \<open>A usable match: \<open>len\<close> bytes at \<open>s\<close> repeat those at \<open>m\<close>, within the window and the limit.\<close>

definition usable_match :: "byte list \<Rightarrow> nat \<Rightarrow> nat \<Rightarrow> nat \<Rightarrow> bool" where
  "usable_match input s m len \<longleftrightarrow> m < s \<and> s - m \<le> MAX_DISTANCE \<and> MIN_MATCH \<le> len
     \<and> lz_match input m s len \<and> s + len \<le> forward_limit input"

lemma hc_walk_match:
  assumes "hc_walk input pos chain (pos - MAX_DISTANCE) cand attempts best_len best_pos = (l, p)"
    and "pos \<le> forward_limit input" and "best_len < MIN_MATCH \<or> usable_match input pos best_pos best_len"
  shows "l < MIN_MATCH \<or> usable_match input pos p l"
  using assms
proof (induction input pos chain "pos - MAX_DISTANCE" cand attempts best_len best_pos rule: hc_walk.induct)
  case (1 input pos chain cand best_len best_pos)
  then show ?case by (simp add: hc_walk.simps)
next
  case (2 input pos chain cand attempts best_len best_pos)
  let ?c = "unat cand" and ?l = "match_forward input pos (unat cand) (forward_limit input)"
  have lim: "forward_limit input \<le> length input" by (simp add: forward_limit_def)
  have new: "?l < MIN_MATCH \<or> usable_match input pos ?c ?l" if "\<not> pos \<le> ?c" "\<not> ?c < pos - MAX_DISTANCE"
    using match_forward_spec [of ?c pos "forward_limit input" input] that 2(6) lim
    by (auto simp: usable_match_def)
  from 2(5) show ?case
    by (subst (asm) hc_walk.simps)
      (use 2(1-4,6,7) new in \<open>auto simp: Let_def split: if_splits\<close>)
qed

lemma hc_longest_match_usable:
  assumes "hc_longest_match input pos t nb = Some (p, l)" and "pos \<le> forward_limit input"
  shows "usable_match input pos p l"
  using assms hc_walk_match [OF _ assms(2), of "hc_chain t" _ nb "MIN_MATCH - 1" 0 l p]
  by (auto simp: hc_longest_match_def Let_def MIN_MATCH_def split: if_splits prod.splits)

lemma hc_resolve_loop_usable:
  assumes "hc_resolve_loop input anchor (s, m, l) = (s', m', l')" and "usable_match input s m l"
  shows "usable_match input s' m' l' \<and> (anchor \<le> s \<longrightarrow> anchor \<le> s')"
  using assms
proof (induction input anchor "(s, m, l)" arbitrary: s m l rule: hc_resolve_loop.induct)
  case (1 input anchor s m l)
  show ?case
  proof (cases "anchor < s \<and> 0 < m \<and> input ! (s - 1) = input ! (m - 1)")
    case True
    then have "usable_match input (s - 1) (m - 1) (l + 1)"
      using 1(3) lz_match_back [of input m s l] by (auto simp: usable_match_def)
    moreover have "hc_resolve_loop input anchor (s - 1, m - 1, l + 1) = (s', m', l')"
      using 1(2) True by (subst (asm) hc_resolve_loop.simps) simp
    ultimately have "usable_match input s' m' l' \<and> (anchor \<le> s - 1 \<longrightarrow> anchor \<le> s')"
      using 1(1) [OF True] by blast
    with True show ?thesis by linarith
  next
    case False
    with 1(2) have "(s', m', l') = (s, m, l)" by (subst (asm) hc_resolve_loop.simps) (simp only: if_False)
    with 1(3) show ?thesis by simp
  qed
qed

lemma hc_found_usable:
  assumes "hc_longest_match input pos t nb = Some f" and "pos \<le> match_limit input"
    and "hc_resolve input pos f anchor = (s, m, l)"
  shows "usable_match input s m l \<and> (anchor \<le> pos \<longrightarrow> anchor \<le> s)"
proof -
  obtain p k where f: "f = (p, k)" by (cases f)
  have "pos \<le> forward_limit input"
    using assms(2) by (simp add: match_limit_def forward_limit_def MFLIMIT_def LAST_LITERALS_def)
  with assms(1) f have "usable_match input pos p k" using hc_longest_match_usable by blast
  with hc_resolve_loop_usable [OF _ this] assms(3) f show ?thesis by (simp add: hc_resolve_def)
qed

section \<open>The parse\<close>

function hc_lazy ::
  "byte list \<Rightarrow> nat \<Rightarrow> nat \<Rightarrow> hc_tables \<Rightarrow> nat \<times> nat \<times> nat \<Rightarrow> hc_tables \<times> nat \<times> nat \<times> nat" where
  "hc_lazy input nb_attempts anchor t (cur_start, cur_mpos, cur_len) =
     (let next = cur_start + 1 in
      if match_limit input < next \<or> hash_limit input < next then (t, cur_start, cur_mpos, cur_len)
      else
        let t1 = insert_up_to input (next + 1) t in
        (case hc_longest_match input next t1 nb_attempts of
           None \<Rightarrow> (t1, cur_start, cur_mpos, cur_len)
         | Some f \<Rightarrow>
             (case hc_resolve input next f anchor of
                (ns, nmp, nl) \<Rightarrow>
                  if cur_len < nl then hc_lazy input nb_attempts anchor t1 (ns, nmp, nl)
                  else (t1, cur_start, cur_mpos, cur_len))))"
  by pat_completeness auto

termination
proof (relation "measure (\<lambda>(input, _, _, _, _, _, cur_len). length input - cur_len)", goal_cases)
  case (2 input nb anchor t cs cm cl n t1 f ns r nmp nl)
  then have r: "hc_longest_match input n t1 nb = Some f" "n \<le> match_limit input"
    "hc_resolve input n f anchor = (ns, nmp, nl)" by auto
  from hc_found_usable [OF r] have "nl \<le> length input"
    by (auto simp: usable_match_def lz_match_def)
  with 2(6,7) r(3) show ?case by auto
qed simp

declare hc_lazy.simps [simp del]

lemma hc_lazy_usable:
  assumes "hc_lazy input nb anchor t (s, m, l) = (t', s', m', l')"
    and "usable_match input s m l" and "anchor \<le> s"
  shows "usable_match input s' m' l' \<and> anchor \<le> s'"
  using assms
proof (induction input nb anchor t "(s, m, l)" arbitrary: s m l rule: hc_lazy.induct)
  case (1 input nb anchor t s m l)
  define n where "n = s + 1"
  define t1 where "t1 = insert_up_to input (n + 1) t"
  note unfold = hc_lazy.simps [of input nb anchor t s m l, unfolded Let_def, folded n_def, folded t1_def]
  show ?case
  proof (cases "match_limit input < n \<or> hash_limit input < n")
    case True
    with 1(2-4) show ?thesis by (simp add: unfold)
  next
    case lim: False
    show ?thesis
    proof (cases "hc_longest_match input n t1 nb")
      case None
      with 1(2-4) lim show ?thesis by (simp add: unfold)
    next
      case (Some f)
      obtain ns nm nl where r: "hc_resolve input n f anchor = (ns, nm, nl)" by (metis prod_cases3)
      show ?thesis
      proof (cases "l < nl")
        case False
        with 1(2-4) lim Some r show ?thesis by (simp add: unfold)
      next
        case True
        have "usable_match input ns nm nl \<and> (anchor \<le> n \<longrightarrow> anchor \<le> ns)"
          using hc_found_usable [OF Some _ r] lim by simp
        moreover have "anchor \<le> n" using 1(4) by (simp add: n_def)
        moreover have "hc_lazy input nb anchor t1 (ns, nm, nl) = (t', s', m', l')"
          using 1(2) lim Some r True by (simp add: unfold)
        ultimately show ?thesis
          using 1(1) [OF n_def lim t1_def Some r [symmetric] refl True] by simp
      qed
    qed
  qed
qed

text \<open>The match of a round: found at \<open>ip\<close>, extended backward, improved by the lazy walk.\<close>

definition hc_pick ::
  "byte list \<Rightarrow> nat \<Rightarrow> nat \<Rightarrow> nat \<Rightarrow> hc_tables \<Rightarrow> hc_tables \<times> (nat \<times> nat \<times> nat) option" where
  "hc_pick input nb_attempts anchor ip t =
     (case hc_longest_match input ip t nb_attempts of
        None \<Rightarrow> (t, None)
      | Some f \<Rightarrow>
          (case hc_lazy input nb_attempts anchor t (hc_resolve input ip f anchor) of
             (t1, cur) \<Rightarrow> (t1, Some cur)))"

lemma hc_pick_usable:
  assumes "hc_pick input nb anchor ip t = (t', Some (s, m, l))" and "ip \<le> match_limit input" and "anchor \<le> ip"
  shows "usable_match input s m l \<and> anchor \<le> s"
proof -
  from assms(1) obtain f where f: "hc_longest_match input ip t nb = Some f"
    "hc_lazy input nb anchor t (hc_resolve input ip f anchor) = (t', s, m, l)"
    by (auto simp: hc_pick_def split: option.splits prod.splits)
  obtain rs rm rl where r: "hc_resolve input ip f anchor = (rs, rm, rl)" by (metis prod_cases3)
  from hc_found_usable [OF f(1) assms(2) r] assms(3) hc_lazy_usable [OF f(2) [unfolded r]] show ?thesis by blast
qed

function hc_loop :: "byte list \<Rightarrow> nat \<Rightarrow> hc_tables \<Rightarrow> nat \<Rightarrow> nat \<Rightarrow> byte list" where
  "hc_loop input nb_attempts t anchor ip =
     (if ip \<le> match_limit input \<and> ip \<le> hash_limit input then
        (case hc_pick input nb_attempts anchor ip (insert_up_to input (ip + 1) t) of
           (t1, None) \<Rightarrow> hc_loop input nb_attempts t1 anchor (ip + 1)
         | (t1, Some (cur_start, cur_mpos, cur_len)) \<Rightarrow>
             let literal_len = cur_start - anchor;
                 match_end = cur_start + cur_len
             in emit_sequence (take literal_len (drop anchor input)) literal_len
                  (word_of_nat (cur_start - cur_mpos)) (cur_len - MIN_MATCH)
                @ hc_loop input nb_attempts (insert_up_to input match_end t1) match_end match_end)
      else emit_last_literals (drop anchor input))"
  by pat_completeness auto
termination
proof (relation "measures [\<lambda>(_, _, _, anchor, ip). if anchor \<le> ip then 0 else 1,
    \<lambda>(input, _, _, anchor, _). Suc (length input) - anchor,
    \<lambda>(input, _, _, _, ip). Suc (length input) - ip]", goal_cases)
  case (2 input nb t anchor ip t1 r)
  then show ?case by (auto simp: match_limit_def)
next
  case (3 input nb t anchor ip t1 r cur s z m l k e)
  then have pick: "hc_pick input nb anchor ip (insert_up_to input (ip + 1) t) = (t1, Some (s, m, l))" by simp
  show ?case
  proof (cases "anchor \<le> ip")
    case True
    from hc_pick_usable [OF pick _ this] 3(1) have "MIN_MATCH \<le> l" "anchor \<le> s"
      by (auto simp: usable_match_def)
    with True 3 show ?thesis by (auto simp: MIN_MATCH_def match_limit_def)
  qed (use 3 in simp)
qed simp

declare hc_loop.simps [simp del]

definition encode_block_hc_dict :: "byte list \<Rightarrow> byte list \<Rightarrow> nat \<Rightarrow> byte list" where
  "encode_block_hc_dict dict input level =
     (if input = [] then []
      else if length input < MFLIMIT + 1 then emit_last_literals input
      else
        let dict_len = length dict; buf = dict @ input;
            t = insert_up_to buf dict_len (hc_tables_new (length buf))
        in hc_loop buf (nb_attempts_for_level level) t dict_len dict_len)"

lemma hc_loop_codes:
  assumes "anchor \<le> ip" and "anchor \<le> length input"
  shows "lz4_codes input anchor (hc_loop input nb t anchor ip)"
  using assms
proof (induction input nb t anchor ip rule: hc_loop.induct)
  case (1 input nb t anchor ip)
  show ?case
  proof (cases "ip \<le> match_limit input \<and> ip \<le> hash_limit input")
    case True
    obtain t1 r where pick: "hc_pick input nb anchor ip (insert_up_to input (ip + 1) t) = (t1, r)" by fastforce
    show ?thesis
    proof (cases r)
      case None
      have "lz4_codes input anchor (hc_loop input nb t1 anchor (ip + 1))"
        using 1(1) [OF True pick [symmetric] None] 1(3,4) by simp
      with True pick None show ?thesis by (subst hc_loop.simps) simp
    next
      case (Some cur)
      then obtain s m l where r: "r = Some (s, m, l)" by (cases cur) auto
      with hc_pick_usable [OF pick [unfolded r]] True 1(3)
      have u: "usable_match input s m l" "anchor \<le> s" by blast+
      then have end_le: "s + l \<le> length input" by (simp add: usable_match_def lz_match_def)
      then have "lz4_codes input (s + l) (hc_loop input nb (insert_up_to input (s + l) t1) (s + l) (s + l))"
        using 1(2) [OF True pick [symmetric] r refl refl refl refl] by simp
      then have "lz4_codes input anchor (emit_sequence (take (s - anchor) (drop anchor input)) (s - anchor)
          (word_of_nat (s - m)) (l - MIN_MATCH) @ hc_loop input nb (insert_up_to input (s + l) t1) (s + l) (s + l))"
        using u by (intro lz4_codes.seq) (simp_all add: usable_match_def)
      with True pick r show ?thesis by (subst hc_loop.simps) (simp add: Let_def)
    qed
  next
    case False
    with 1(4) show ?thesis by (subst hc_loop.simps) (auto intro: lz4_codes.last)
  qed
qed

lemma encode_block_hc_codes:
  assumes "input \<noteq> []"
  shows "lz4_codes (dict @ input) (length dict) (encode_block_hc_dict dict input level)"
proof (cases "length input < MFLIMIT + 1")
  case True
  with lz4_codes.last [of "length dict" "dict @ input"] assms show ?thesis
    by (simp add: encode_block_hc_dict_def)
next
  case False
  with assms show ?thesis by (simp add: encode_block_hc_dict_def Let_def hc_loop_codes)
qed

end
