(* ===== verification/Lz4Opt.thy ===== *)
theory Lz4Opt
  imports Lz4Hc
begin

text \<open>
  The price-based optimal parse of \<open>src/lz4/block.rs\<close> and the entry points that choose a parse by
  level.  The dynamic program keeps \<open>usize::MAX\<close> as the price of an unreached position and as the
  match position of a literal step, as the code does.  The backtracking loop is a
  \<open>partial_function\<close>: that it ends is part of what is proved.
\<close>

definition USIZE_MAX :: nat where "USIZE_MAX = 2 ^ 64 - 1"
definition ML_MASK_PLUS_MIN :: nat where "ML_MASK_PLUS_MIN = 15 + MIN_MATCH"
definition OPT_SUFFICIENT_LEN :: nat where "OPT_SUFFICIENT_LEN = 64"

definition literals_price :: "nat \<Rightarrow> nat" where
  "literals_price litlen = litlen + (if 15 \<le> litlen then 1 + (litlen - 15) div 255 else 0)"

definition marginal_literal_price :: "nat \<Rightarrow> nat" where
  "marginal_literal_price r = 1 + (literals_price (r + 1) - literals_price r - 1)"

definition sequence_overhead :: "nat \<Rightarrow> nat" where
  "sequence_overhead mlen =
     1 + 2 + (if ML_MASK_PLUS_MIN \<le> mlen then 1 + (mlen - ML_MASK_PLUS_MIN) div 255 else 0)"

record opt_step =
  os_litlen :: nat
  os_match_pos :: nat
  os_match_len :: nat

record opt_state =
  op_price :: "nat list"
  op_run :: "nat list"
  op_step :: "opt_step list"

definition opt_new :: "nat \<Rightarrow> nat \<Rightarrow> opt_state" where
  "opt_new n dict_len =
     \<lparr>op_price = (replicate (n + 1) USIZE_MAX)[dict_len := 0],
      op_run = replicate (n + 1) 0,
      op_step = replicate (n + 1) \<lparr>os_litlen = 0, os_match_pos = USIZE_MAX, os_match_len = 0\<rparr>\<rparr>"

text \<open>\<open>if cost < price[j] { price[j] = ..; run[j] = ..; step[j] = .. }\<close>\<close>

definition opt_relax :: "nat \<Rightarrow> nat \<Rightarrow> nat \<Rightarrow> opt_step \<Rightarrow> opt_state \<Rightarrow> opt_state" where
  "opt_relax j cost r st s =
     (if cost < op_price s ! j
      then s\<lparr>op_price := (op_price s)[j := cost], op_run := (op_run s)[j := r],
             op_step := (op_step s)[j := st]\<rparr>
      else s)"

definition opt_literal :: "nat \<Rightarrow> nat \<Rightarrow> nat \<Rightarrow> opt_state \<Rightarrow> opt_state" where
  "opt_literal i cur_price cur_run s =
     opt_relax (i + 1) (cur_price + marginal_literal_price cur_run) (cur_run + 1)
       \<lparr>os_litlen = cur_run + 1, os_match_pos = USIZE_MAX, os_match_len = 0\<rparr> s"

definition opt_match :: "nat \<Rightarrow> nat \<Rightarrow> nat \<Rightarrow> nat \<Rightarrow> nat \<Rightarrow> opt_state \<Rightarrow> opt_state" where
  "opt_match i cur_price cur_run best_pos mlen s =
     opt_relax (i + mlen) (cur_price + sequence_overhead mlen) 0
       \<lparr>os_litlen = cur_run, os_match_pos = best_pos, os_match_len = mlen\<rparr> s"

fun opt_matches :: "nat \<Rightarrow> nat \<Rightarrow> nat \<Rightarrow> nat \<Rightarrow> nat \<Rightarrow> nat list \<Rightarrow> opt_state \<Rightarrow> opt_state" where
  "opt_matches n i cur_price cur_run best_pos [] s = s"
| "opt_matches n i cur_price cur_run best_pos (mlen # mlens) s =
     (if n < i + mlen then s
      else opt_matches n i cur_price cur_run best_pos mlens
             (opt_match i cur_price cur_run best_pos mlen s))"

text \<open>One position: the tables, the prices and the position that follows.\<close>

definition opt_round ::
  "byte list \<Rightarrow> nat \<Rightarrow> hc_tables \<Rightarrow> opt_state \<Rightarrow> nat \<Rightarrow> hc_tables \<times> opt_state \<times> nat" where
  "opt_round input nb_attempts t s i =
     (if op_price s ! i = USIZE_MAX then (t, s, i + 1)
      else
        let cur_price = op_price s ! i; cur_run = op_run s ! i;
            s1 = opt_literal i cur_price cur_run s
        in if match_limit input < i \<or> hash_limit input < i then (t, s1, i + 1)
           else
             let t1 = insert_up_to input (i + 1) t in
             (case hc_longest_match input i t1 nb_attempts of
                None \<Rightarrow> (t1, s1, i + 1)
              | Some (best_pos, best_len) \<Rightarrow>
                  if OPT_SUFFICIENT_LEN \<le> best_len then
                    let stop = i + best_len in
                    (insert_up_to input stop t1, opt_match i cur_price cur_run best_pos best_len s1, stop)
                  else
                    (t1, opt_matches (length input) i cur_price cur_run best_pos
                       [MIN_MATCH..<Suc best_len] s1, i + 1)))"

lemma opt_round_advances: "opt_round input nb t s i = (t', s', j) \<Longrightarrow> i < j"
  by (auto simp: opt_round_def Let_def OPT_SUFFICIENT_LEN_def split: if_splits option.splits)

function opt_loop :: "byte list \<Rightarrow> nat \<Rightarrow> hc_tables \<Rightarrow> opt_state \<Rightarrow> nat \<Rightarrow> opt_state" where
  "opt_loop input nb_attempts t s i =
     (if i < length input then
        (case opt_round input nb_attempts t s i of (t1, s1, j) \<Rightarrow> opt_loop input nb_attempts t1 s1 j)
      else s)"
  by pat_completeness auto
termination
  by (relation "measure (\<lambda>(input, _, _, _, i). length input - i)")
    (auto split: prod.split dest: opt_round_advances)

declare opt_loop.simps [simp del]

partial_function (option) opt_backtrack ::
  "opt_step list \<Rightarrow> nat \<Rightarrow> nat \<Rightarrow> opt_step list \<Rightarrow> opt_step list option" where
  "opt_backtrack steps dict_len pos path =
     (if dict_len < pos then
        let s = steps ! pos in
        if os_match_pos s = USIZE_MAX then opt_backtrack steps dict_len (pos - 1) path
        else opt_backtrack steps dict_len (pos - os_match_len s) (s # path)
      else Some path)"

fun opt_replay :: "byte list \<Rightarrow> nat \<Rightarrow> opt_step list \<Rightarrow> byte list" where
  "opt_replay input anchor [] = emit_last_literals (drop anchor input)"
| "opt_replay input anchor (s # path) =
     (let match_start = anchor + os_litlen s in
      emit_sequence (take (os_litlen s) (drop anchor input)) (os_litlen s)
        (word_of_nat (match_start - os_match_pos s)) (os_match_len s - MIN_MATCH)
      @ opt_replay input (match_start + os_match_len s) path)"

definition encode_block_optimal_dict :: "byte list \<Rightarrow> byte list \<Rightarrow> nat \<Rightarrow> byte list option" where
  "encode_block_optimal_dict dict input level =
     (if input = [] then Some []
      else if length input < MFLIMIT + 1 then Some (emit_last_literals input)
      else
        let dict_len = length dict; buf = dict @ input; n = length buf;
            t = insert_up_to buf dict_len (hc_tables_new n);
            s = opt_loop buf (nb_attempts_for_level level) t (opt_new n dict_len) dict_len
        in map_option (opt_replay buf dict_len) (opt_backtrack (op_step s) dict_len n []))"

definition encode_block_level_dict :: "byte list \<Rightarrow> byte list \<Rightarrow> nat \<Rightarrow> byte list option" where
  "encode_block_level_dict dict input level =
     (if dict = [] then
        if level < HC_LEVEL_THRESHOLD then Some (encode_block input)
        else if level < OPT_LEVEL_THRESHOLD then Some (encode_block_hc_dict [] input level)
        else encode_block_optimal_dict [] input level
      else if level < OPT_LEVEL_THRESHOLD then Some (encode_block_hc_dict dict input level)
      else encode_block_optimal_dict dict input level)"

definition encode_block_level :: "byte list \<Rightarrow> nat \<Rightarrow> byte list option" where
  "encode_block_level input level = encode_block_level_dict [] input level"

section \<open>What the entries mean\<close>

text \<open>\<open>opt_edge\<close>: how position \<open>j\<close> is reached, from a position whose entry is final.\<close>

definition opt_edge :: "byte list \<Rightarrow> nat \<Rightarrow> nat \<Rightarrow> opt_state \<Rightarrow> nat \<Rightarrow> bool" where
  "opt_edge input d i s j \<longleftrightarrow>
     (if os_match_pos (op_step s ! j) = USIZE_MAX
      then d < j \<and> j - 1 < i \<and> op_price s ! (j - 1) \<noteq> USIZE_MAX \<and> op_run s ! j = op_run s ! (j - 1) + 1
      else (let st = op_step s ! j; k = j - os_match_len st in
        d \<le> k \<and> k < i \<and> os_match_len st \<le> j \<and> op_price s ! k \<noteq> USIZE_MAX \<and> op_run s ! j = 0
        \<and> os_litlen st = op_run s ! k \<and> usable_match input k (os_match_pos st) (os_match_len st)))"

definition opt_ok :: "byte list \<Rightarrow> nat \<Rightarrow> nat \<Rightarrow> opt_state \<Rightarrow> bool" where
  "opt_ok input d i s \<longleftrightarrow>
     length (op_price s) = Suc (length input) \<and> length (op_run s) = Suc (length input)
     \<and> length (op_step s) = Suc (length input)
     \<and> op_price s ! d \<noteq> USIZE_MAX \<and> op_run s ! d = 0
     \<and> (\<forall>j \<le> length input. op_price s ! j \<noteq> USIZE_MAX \<longrightarrow> op_price s ! j \<le> 2 * j)
     \<and> (\<forall>j. d < j \<and> j \<le> length input \<and> op_price s ! j \<noteq> USIZE_MAX \<longrightarrow> opt_edge input d i s j)"

lemma marginal_literal_price_le: "marginal_literal_price r \<le> 2"
proof -
  have "(r + 1 - 15) div 255 \<le> (r - 15 + 255) div 255" by (intro div_le_mono) simp
  then have "(r + 1 - 15) div 255 \<le> (r - 15) div 255 + 1" by simp
  then show ?thesis by (auto simp: marginal_literal_price_def literals_price_def)
qed

lemma sequence_overhead_le: "MIN_MATCH \<le> m \<Longrightarrow> sequence_overhead m \<le> 2 * m"
  using div_le_dividend [of "m - ML_MASK_PLUS_MIN" 255]
  by (auto simp: sequence_overhead_def MIN_MATCH_def ML_MASK_PLUS_MIN_def)

text \<open>A relaxation of a position behind \<open>i\<close> by a true edge from \<open>i\<close> keeps the invariant.\<close>

lemma opt_relax_ok:
  assumes "opt_ok input d (Suc i) s" and "i < j" and "d \<le> i" and "j \<le> length input"
    and "cost \<le> 2 * j" and "length input < 2 ^ 63"
    and "cost < op_price s ! j \<Longrightarrow>
      opt_edge input d (Suc i) (s\<lparr>op_price := (op_price s)[j := cost], op_run := (op_run s)[j := r],
        op_step := (op_step s)[j := st]\<rparr>) j"
  shows "opt_ok input d (Suc i) (opt_relax j cost r st s)
    \<and> op_price (opt_relax j cost r st s) ! j \<noteq> USIZE_MAX
    \<and> op_price (opt_relax j cost r st s) ! i = op_price s ! i \<and> op_run (opt_relax j cost r st s) ! i = op_run s ! i
    \<and> (op_price s ! (Suc i) \<noteq> USIZE_MAX \<longrightarrow> op_price (opt_relax j cost r st s) ! (Suc i) \<noteq> USIZE_MAX)"
proof (cases "cost < op_price s ! j")
  case False
  have "cost < USIZE_MAX" using assms(4-6) by (simp add: USIZE_MAX_def)
  with False assms(1) show ?thesis by (auto simp: opt_relax_def)
next
  case True
  let ?s = "s\<lparr>op_price := (op_price s)[j := cost], op_run := (op_run s)[j := r], op_step := (op_step s)[j := st]\<rparr>"
  have len: "length (op_price s) = Suc (length input)" "length (op_run s) = Suc (length input)"
    "length (op_step s) = Suc (length input)" using assms(1) by (simp_all add: opt_ok_def)
  have cost: "cost < USIZE_MAX" using assms(4-6) by (simp add: USIZE_MAX_def)
  have edge: "opt_edge input d (Suc i) ?s k" if "opt_edge input d (Suc i) s k" "k \<noteq> j" for k
  proof (cases "os_match_pos (op_step s ! k) = USIZE_MAX")
    case True
    with that assms(2) len assms(4) show ?thesis by (auto simp: opt_edge_def nth_list_update)
  next
    case False
    with that assms(2) len assms(4) show ?thesis by (auto simp: opt_edge_def nth_list_update Let_def)
  qed
  have "opt_ok input d (Suc i) ?s"
    unfolding opt_ok_def
  proof (intro conjI allI impI)
    fix k assume k: "d < k \<and> k \<le> length input \<and> op_price ?s ! k \<noteq> USIZE_MAX"
    show "opt_edge input d (Suc i) ?s k"
    proof (cases "k = j")
      case True
      with assms(7) \<open>cost < op_price s ! j\<close> show ?thesis by simp
    next
      case False
      with k have "op_price s ! k \<noteq> USIZE_MAX" by (simp add: nth_list_update)
      with k assms(1) have "opt_edge input d (Suc i) s k" by (simp add: opt_ok_def)
      from edge [OF this False] show ?thesis .
    qed
  next
    fix k assume "k \<le> length input" "op_price ?s ! k \<noteq> USIZE_MAX"
    then show "op_price ?s ! k \<le> 2 * k"
      using assms(1,5) len by (cases "k = j") (auto simp: opt_ok_def nth_list_update)
  qed (use assms(1-3) len in \<open>auto simp: opt_ok_def nth_list_update\<close>)
  then show ?thesis using True cost len assms(2,4) by (auto simp: opt_relax_def nth_list_update)
qed

lemma opt_edge_mono: "opt_edge input d i s j \<Longrightarrow> i \<le> i' \<Longrightarrow> opt_edge input d i' s j"
  by (auto simp: opt_edge_def Let_def split: if_splits)

lemma opt_ok_mono: "opt_ok input d i s \<Longrightarrow> i \<le> i' \<Longrightarrow> opt_ok input d i' s"
  using opt_edge_mono by (fastforce simp: opt_ok_def)

text \<open>The state while position \<open>i\<close> is processed.\<close>

definition opt_at :: "byte list \<Rightarrow> nat \<Rightarrow> nat \<Rightarrow> nat \<Rightarrow> nat \<Rightarrow> opt_state \<Rightarrow> bool" where
  "opt_at input d i cp cr s \<longleftrightarrow> opt_ok input d (Suc i) s \<and> d \<le> i \<and> i < length input \<and> length input < 2 ^ 63
     \<and> op_price s ! i = cp \<and> op_run s ! i = cr \<and> cp \<noteq> USIZE_MAX"

lemma opt_literal_at:
  assumes "opt_at input d i cp cr s"
  shows "opt_at input d i cp cr (opt_literal i cp cr s) \<and> op_price (opt_literal i cp cr s) ! Suc i \<noteq> USIZE_MAX"
proof -
  have ok: "opt_ok input d (Suc i) s" "d \<le> i" "i < length input" "length input < 2 ^ 63"
    "op_price s ! i = cp" "op_run s ! i = cr" "cp \<noteq> USIZE_MAX" using assms by (simp_all add: opt_at_def)
  then have "cp \<le> 2 * i" by (auto simp: opt_ok_def)
  then have cost: "cp + marginal_literal_price cr \<le> 2 * (i + 1)"
    using marginal_literal_price_le [of cr] by simp
  have len: "length (op_price s) = Suc (length input)" "length (op_run s) = Suc (length input)"
    "length (op_step s) = Suc (length input)" using ok(1) by (simp_all add: opt_ok_def)
  show ?thesis
    using opt_relax_ok [OF ok(1) _ ok(2) _ cost ok(4), where r = "cr + 1"
        and st = "\<lparr>os_litlen = cr + 1, os_match_pos = USIZE_MAX, os_match_len = 0\<rparr>"] ok len
    by (simp add: opt_literal_def opt_at_def opt_edge_def nth_list_update)
qed

lemma opt_match_at:
  assumes "opt_at input d i cp cr s" and "usable_match input i bp mlen"
  shows "opt_at input d i cp cr (opt_match i cp cr bp mlen s)
    \<and> op_price (opt_match i cp cr bp mlen s) ! (i + mlen) \<noteq> USIZE_MAX
    \<and> (op_price s ! Suc i \<noteq> USIZE_MAX \<longrightarrow> op_price (opt_match i cp cr bp mlen s) ! Suc i \<noteq> USIZE_MAX)"
proof -
  have ok: "opt_ok input d (Suc i) s" "d \<le> i" "i < length input" "length input < 2 ^ 63"
    "op_price s ! i = cp" "op_run s ! i = cr" "cp \<noteq> USIZE_MAX" using assms by (simp_all add: opt_at_def)
  then have "cp \<le> 2 * i" by (auto simp: opt_ok_def)
  have m: "MIN_MATCH \<le> mlen" "i + mlen \<le> length input" "bp < i"
    using assms(2) by (simp_all add: usable_match_def lz_match_def)
  then have cost: "cp + sequence_overhead mlen \<le> 2 * (i + mlen)" and pos: "i < i + mlen" and bp: "bp \<noteq> USIZE_MAX"
    using sequence_overhead_le [of mlen] \<open>cp \<le> 2 * i\<close> ok(3,4) by (auto simp: MIN_MATCH_def USIZE_MAX_def)
  have len: "length (op_price s) = Suc (length input)" "length (op_run s) = Suc (length input)"
    "length (op_step s) = Suc (length input)" using ok(1) by (simp_all add: opt_ok_def)
  show ?thesis
    using opt_relax_ok [OF ok(1) pos ok(2) m(2) cost ok(4), where r = 0
        and st = "\<lparr>os_litlen = cr, os_match_pos = bp, os_match_len = mlen\<rparr>"] ok len bp assms(2) m pos
    by (simp add: opt_match_def opt_at_def opt_edge_def nth_list_update)
qed

lemma opt_matches_at:
  assumes "opt_at input d i cp cr s" and "op_price s ! Suc i \<noteq> USIZE_MAX"
    and "\<And>m. m \<in> set mlens \<Longrightarrow> usable_match input i bp m"
  shows "opt_at input d i cp cr (opt_matches (length input) i cp cr bp mlens s)
    \<and> op_price (opt_matches (length input) i cp cr bp mlens s) ! Suc i \<noteq> USIZE_MAX"
  using assms
proof (induction mlens arbitrary: s)
  case (Cons m mlens)
  from opt_match_at [OF Cons.prems(1) Cons.prems(3) [of m]] Cons.prems(2)
  have "opt_at input d i cp cr (opt_match i cp cr bp m s)"
    "op_price (opt_match i cp cr bp m s) ! Suc i \<noteq> USIZE_MAX" by simp_all
  from Cons.IH [OF this] Cons.prems show ?case by simp
qed simp

lemma usable_match_prefix: "usable_match input s m l \<Longrightarrow> MIN_MATCH \<le> k \<Longrightarrow> k \<le> l \<Longrightarrow> usable_match input s m k"
  by (auto simp: usable_match_def intro: lz_match_prefix)

lemma opt_round_ok:
  assumes "opt_ok input d i s" and "d \<le> i" and "i < length input" and "length input < 2 ^ 63"
    and "op_price s ! i \<noteq> USIZE_MAX" and "opt_round input nb t s i = (t', s', j)"
  shows "opt_ok input d j s' \<and> j \<le> length input \<and> op_price s' ! j \<noteq> USIZE_MAX"
proof -
  let ?cp = "op_price s ! i" and ?cr = "op_run s ! i"
  define s1 where "s1 = opt_literal i ?cp ?cr s"
  define t1 where "t1 = insert_up_to input (i + 1) t"
  note unfold = opt_round_def [of input nb t s i, unfolded Let_def, folded s1_def t1_def]
  have at: "opt_at input d i ?cp ?cr s" using assms opt_ok_mono by (auto simp: opt_at_def)
  from opt_literal_at [OF this] have s1: "opt_at input d i ?cp ?cr s1" "op_price s1 ! Suc i \<noteq> USIZE_MAX"
    by (simp_all add: s1_def)
  then have ok1: "opt_ok input d (Suc i) s1" by (simp add: opt_at_def)
  show ?thesis
  proof (cases "match_limit input < i \<or> hash_limit input < i")
    case True
    with assms(3,5,6) s1 ok1 show ?thesis by (auto simp: unfold)
  next
    case lim: False
    show ?thesis
    proof (cases "hc_longest_match input i t1 nb")
      case None
      with assms(3,5,6) s1 ok1 lim show ?thesis by (auto simp: unfold)
    next
      case (Some f)
      obtain bp bl where f: "f = (bp, bl)" by (cases f)
      have "i \<le> forward_limit input"
        using lim by (auto simp: match_limit_def forward_limit_def MFLIMIT_def LAST_LITERALS_def)
      with Some f have u: "usable_match input i bp bl" using hc_longest_match_usable by blast
      then have stop: "i + bl \<le> length input" "MIN_MATCH \<le> bl" by (simp_all add: usable_match_def lz_match_def)
      show ?thesis
      proof (cases "OPT_SUFFICIENT_LEN \<le> bl")
        case True
        with assms(5,6) lim Some f have r: "s' = opt_match i ?cp ?cr bp bl s1" "j = i + bl"
          by (simp_all add: unfold)
        from opt_match_at [OF s1(1) u] r have "opt_ok input d (Suc i) s'" "op_price s' ! j \<noteq> USIZE_MAX"
          by (simp_all add: opt_at_def)
        with stop r(2) opt_ok_mono [of input d "Suc i" s' j] show ?thesis by (simp add: MIN_MATCH_def)
      next
        case False
        with assms(5,6) lim Some f
        have r: "s' = opt_matches (length input) i ?cp ?cr bp [MIN_MATCH..<Suc bl] s1" "j = Suc i"
          by (simp_all add: unfold)
        have "usable_match input i bp m" if "m \<in> set [MIN_MATCH..<Suc bl]" for m
          using that u by (auto intro: usable_match_prefix)
        from opt_matches_at [OF s1 this, of "[MIN_MATCH..<Suc bl]"] r assms(3) show ?thesis
          by (simp add: opt_at_def del: upt_Suc)
      qed
    qed
  qed
qed

lemma opt_loop_ok:
  assumes "opt_ok input d i s" and "d \<le> i" and "i \<le> length input" and "length input < 2 ^ 63"
    and "op_price s ! i \<noteq> USIZE_MAX"
  shows "opt_ok input d (length input) (opt_loop input nb t s i)
    \<and> op_price (opt_loop input nb t s i) ! length input \<noteq> USIZE_MAX"
  using assms
proof (induction input nb t s i rule: opt_loop.induct)
  case (1 input nb t s i)
  show ?case
  proof (cases "i < length input")
    case True
    obtain t1 s1 j where r: "opt_round input nb t s i = (t1, s1, j)" by (metis prod_cases3)
    from opt_round_ok [OF 1(2,3) True 1(5,6) r] opt_round_advances [OF r] 1(3)
    have "opt_ok input d j s1" "d \<le> j" "j \<le> length input" "op_price s1 ! j \<noteq> USIZE_MAX" by simp_all
    with 1(1) [OF True r [symmetric] refl] 1(5) True r show ?thesis by (subst (1 2) opt_loop.simps) simp
  next
    case False
    with 1(4) have "i = length input" by simp
    with 1(2,6) show ?thesis by (subst (1 2) opt_loop.simps) simp
  qed
qed

section \<open>The path\<close>

lemma opt_path:
  assumes "opt_ok input d i s" and "d \<le> j" and "j \<le> length input" and "op_price s ! j \<noteq> USIZE_MAX"
  shows "\<exists>path. d \<le> j - op_run s ! j \<and> op_run s ! j \<le> j
    \<and> (\<forall>acc. opt_backtrack (op_step s) d j acc = Some (path @ acc))
    \<and> (\<forall>acc. lz4_codes input (j - op_run s ! j) (opt_replay input (j - op_run s ! j) acc) \<longrightarrow>
          lz4_codes input d (opt_replay input d (path @ acc)))"
  using assms(2-4)
proof (induction j rule: less_induct)
  case (less j)
  show ?case
  proof (cases "j = d")
    case True
    then show ?thesis using assms(1) by (intro exI [of _ "[]"]) (simp add: opt_ok_def opt_backtrack.simps)
  next
    case False
    with less.prems assms(1) have edge: "opt_edge input d i s j" and "d < j" by (simp_all add: opt_ok_def)
    let ?st = "op_step s ! j"
    show ?thesis
    proof (cases "os_match_pos ?st = USIZE_MAX")
      case True
      with edge have e: "op_price s ! (j - 1) \<noteq> USIZE_MAX" "op_run s ! j = op_run s ! (j - 1) + 1"
        by (simp_all add: opt_edge_def)
      have "opt_backtrack (op_step s) d j acc = opt_backtrack (op_step s) d (j - 1) acc" for acc
        using True \<open>d < j\<close> by (subst opt_backtrack.simps) simp
      moreover have "j - op_run s ! j = (j - 1) - op_run s ! (j - 1)" using e(2) by simp
      moreover have "j - 1 < j" "d \<le> j - 1" "j - 1 \<le> length input" using \<open>d < j\<close> less.prems by auto
      ultimately show ?thesis using less.IH [of "j - 1"] e(1)
        by (metis Suc_eq_plus1 Suc_leI Suc_pred' add_gr_0 e(2) le_imp_less_Suc less_nat_zero_code not_gr_zero)
    next
      case False
      define k where "k = j - os_match_len ?st"
      from edge False have e: "d \<le> k" "os_match_len ?st \<le> j" "op_price s ! k \<noteq> USIZE_MAX" "op_run s ! j = 0"
        "os_litlen ?st = op_run s ! k" "usable_match input k (os_match_pos ?st) (os_match_len ?st)"
        by (simp_all add: opt_edge_def Let_def k_def)
      then have j: "k + os_match_len ?st = j" "k < j" "k \<le> length input"
        using less.prems(2) by (auto simp: k_def usable_match_def MIN_MATCH_def)
      from less.IH [OF j(2) e(1) j(3) e(3)] obtain path where p: "d \<le> k - op_run s ! k" "op_run s ! k \<le> k"
        "\<And>acc. opt_backtrack (op_step s) d k acc = Some (path @ acc)"
        "\<And>acc. lz4_codes input (k - op_run s ! k) (opt_replay input (k - op_run s ! k) acc) \<Longrightarrow>
          lz4_codes input d (opt_replay input d (path @ acc))" by blast
      have "opt_backtrack (op_step s) d j acc = Some ((path @ [?st]) @ acc)" for acc
        using False \<open>d < j\<close> p(3) [of "?st # acc"] by (subst opt_backtrack.simps) (simp add: k_def)
      moreover have "lz4_codes input d (opt_replay input d ((path @ [?st]) @ acc))"
        if "lz4_codes input j (opt_replay input j acc)" for acc
      proof -
        let ?a = "k - op_run s ! k"
        have "lz4_codes input ?a (emit_sequence (take (k - ?a) (drop ?a input)) (k - ?a)
            (word_of_nat (k - os_match_pos ?st)) (os_match_len ?st - MIN_MATCH) @ opt_replay input j acc)"
          using e(6) that j(1) by (intro lz4_codes.seq) (simp_all add: usable_match_def)
        moreover have "k - ?a = op_run s ! k" "?a + op_run s ! k = k" using p(2) by simp_all
        ultimately have "lz4_codes input ?a (opt_replay input ?a (?st # acc))"
          using j(1) by (simp add: Let_def e(5))
        from p(4) [OF this] show ?thesis by simp
      qed
      ultimately show ?thesis using e(4) \<open>d < j\<close> by (intro exI [of _ "path @ [?st]"]) simp
    qed
  qed
qed

lemma opt_new_ok:
  assumes "d \<le> length input"
  shows "opt_ok input d d (opt_new (length input) d)" and "op_price (opt_new (length input) d) ! d \<noteq> USIZE_MAX"
  using assms by (auto simp: opt_ok_def opt_new_def USIZE_MAX_def nth_list_update simp del: replicate_Suc)

lemma encode_block_optimal_codes:
  assumes "input \<noteq> []" and "length (dict @ input) < 2 ^ 63"
  shows "\<exists>out. encode_block_optimal_dict dict input level = Some out \<and> lz4_codes (dict @ input) (length dict) out"
proof (cases "length input < MFLIMIT + 1")
  case True
  with lz4_codes.last [of "length dict" "dict @ input"] assms show ?thesis
    by (simp add: encode_block_optimal_dict_def)
next
  case False
  let ?buf = "dict @ input" and ?d = "length dict"
  let ?s = "opt_loop ?buf (nb_attempts_for_level level) (insert_up_to ?buf ?d (hc_tables_new (length ?buf)))
    (opt_new (length ?buf) ?d) ?d"
  have d: "?d \<le> length ?buf" by simp
  from opt_loop_ok [OF opt_new_ok(1) [OF d] order_refl d assms(2) opt_new_ok(2) [OF d]]
  have "opt_ok ?buf ?d (length ?buf) ?s" "op_price ?s ! length ?buf \<noteq> USIZE_MAX" by blast+
  from opt_path [OF this(1) d order_refl this(2)] obtain path where
    p: "\<forall>acc. opt_backtrack (op_step ?s) ?d (length ?buf) acc = Some (path @ acc)"
    "\<forall>acc. lz4_codes ?buf (length ?buf - op_run ?s ! length ?buf) (opt_replay ?buf (length ?buf - op_run ?s ! length ?buf) acc)
      \<longrightarrow> lz4_codes ?buf ?d (opt_replay ?buf ?d (path @ acc))" by blast
  have "lz4_codes ?buf a (opt_replay ?buf a [])" if "a \<le> length ?buf" for a
    using lz4_codes.last [OF that] by (simp only: opt_replay.simps)
  then have "lz4_codes ?buf ?d (opt_replay ?buf ?d path)"
    using spec [OF p(2), of "[]"] by (metis append_Nil2 diff_le_self)
  moreover have "opt_backtrack (op_step ?s) ?d (length ?buf) [] = Some path" using spec [OF p(1), of "[]"] by simp
  ultimately show ?thesis using False assms(1) by (simp add: encode_block_optimal_dict_def Let_def)
qed

lemma encode_block_level_dict_codes:
  assumes "input \<noteq> []" and "length (dict @ input) < 2 ^ 63"
  shows "\<exists>out. encode_block_level_dict dict input level = Some out \<and> lz4_codes (dict @ input) (length dict) out"
  using encode_block_codes [OF assms(1)] encode_block_hc_codes [OF assms(1), of dict level]
    encode_block_optimal_codes [OF assms, of level]
  by (cases dict) (simp_all add: encode_block_level_dict_def)

section \<open>Properties\<close>

text \<open>C1. Every level of the block encoder returns, within its size bound, a block that the decoder
  turns back into the input, whatever the input is.\<close>

theorem lz4_block_roundtrip:
  assumes "length input \<le> raw_max" and "raw_max < 2 ^ 63"
  shows "\<exists>out. encode_block_level input level = Some out \<and> decode_block out raw_max = Inr input
    \<and> length out \<le> compress_bound (length input)"
proof (cases "input = []")
  case True
  then show ?thesis by (simp add: encode_block_level_def encode_block_level_dict_def
        encode_block_def encode_block_hc_dict_def encode_block_optimal_dict_def decode_block_def)
next
  case False
  have "length ([] @ input) < 2 ^ 63" using assms by simp
  from encode_block_level_dict_codes [OF False this, of level] obtain out where
    "encode_block_level input level = Some out" "lz4_codes input 0 out"
    by (auto simp: encode_block_level_def)
  with lz4_codes_decode_block [of input out raw_max] lz4_codes_length [of input 0 out] assms
  show ?thesis by (auto simp: compress_bound_def)
qed

lemma lz4_block_roundtrip_witness:
  "\<exists>out. encode_block_level (replicate 40 7) 12 = Some out \<and> decode_block out 100 = Inr (replicate 40 7)
    \<and> length out \<le> compress_bound 40"
  using lz4_block_roundtrip [of "replicate 40 7" 100 12] by simp

end
