(* ===== verification/Lz4Stream.thy ===== *)
theory Lz4Stream
  imports Lz4Opt Codec Slices
begin

text \<open>
  The streaming LZ4 codec of \<open>src/lz4/mod.rs\<close>: blocks of up to 64 KiB of input, each compressed by
  \<open>encode_block_level\<close> and framed by its length, and a zero length at the end.  The two phase
  machines are modelled with their staging buffers; the contracts say what each state still owes
  or yields, so that the one-shot and chunked round trips follow from \<open>Codec\<close>.
\<close>

definition BLOCK_SIZE :: nat where "BLOCK_SIZE = 64 * 1024"

lemma BLOCK_SIZE_pos [simp]: "0 < BLOCK_SIZE"
  by (simp add: BLOCK_SIZE_def)

text \<open>The block encoder always returns (\<open>lz4_block_bytes\<close> below); the empty list is never taken.\<close>

definition lz4_encode_raw :: "nat \<Rightarrow> byte list \<Rightarrow> byte list" where
  "lz4_encode_raw level raw = (case encode_block_level raw level of Some out \<Rightarrow> out | None \<Rightarrow> [])"

lemma lz4_block_bytes:
  assumes "raw \<noteq> []" and "length raw < 2 ^ 63"
  shows "encode_block_level raw level = Some (lz4_encode_raw level raw)"
    and "lz4_codes raw 0 (lz4_encode_raw level raw)"
  using encode_block_level_dict_codes [of raw "[]" level] assms
  by (auto simp: lz4_encode_raw_def encode_block_level_def)

lemma lz4_encode_raw_length:
  assumes "raw \<noteq> []" and "length raw \<le> BLOCK_SIZE"
  shows "0 < length (lz4_encode_raw level raw) \<and> length (lz4_encode_raw level raw) \<le> compress_bound BLOCK_SIZE"
proof -
  have "length raw < 2 ^ 63" using assms(2) by (simp add: BLOCK_SIZE_def)
  note codes = lz4_block_bytes(2) [OF assms(1) this, of level]
  have "length raw div 255 \<le> BLOCK_SIZE div 255" using assms(2) by (rule div_le_mono)
  with lz4_codes_length [OF codes] assms(2) lz4_codes_nonempty [OF codes] show ?thesis
    by (simp add: compress_bound_def)
qed

lemma lz4_decode_raw:
  assumes "raw \<noteq> []" and "length raw \<le> BLOCK_SIZE"
  shows "decode_block (lz4_encode_raw level raw) (2 * BLOCK_SIZE) = Inr raw"
  using lz4_codes_decode_block lz4_block_bytes(2) [OF assms(1)] assms(2)
  by (simp add: BLOCK_SIZE_def)

section \<open>Encoder\<close>

datatype lz4_enc_phase = EncBuffering | EncFlushing | EncTerminating | EncDone

record lz4_encoder =
  le_raw :: "byte list"
  le_compressed :: "byte list"
  le_compressed_idx :: nat
  le_terminator_idx :: nat
  le_phase :: lz4_enc_phase
  le_level :: nat

definition lz4_encoder_new :: "nat \<Rightarrow> lz4_encoder" where
  "lz4_encoder_new level =
     \<lparr>le_raw = [], le_compressed = [], le_compressed_idx = 0, le_terminator_idx = 0,
      le_phase = EncBuffering, le_level = level\<rparr>"

definition lz4_build_block :: "lz4_encoder \<Rightarrow> lz4_encoder" where
  "lz4_build_block s =
     (if le_raw s = [] then s
      else
        let tmp = lz4_encode_raw (le_level s) (le_raw s); len = word_of_nat (length tmp) :: u32 in
        s\<lparr>le_compressed := le_bytes 4 len @ tmp, le_raw := [], le_compressed_idx := 0,
          le_phase := EncFlushing\<rparr>)"

text \<open>The drains return the state and the bytes they write into the space given.\<close>

definition lz4_drain_compressed :: "lz4_encoder \<Rightarrow> nat \<Rightarrow> lz4_encoder \<times> byte list" where
  "lz4_drain_compressed s space =
     (let avail = length (le_compressed s) - le_compressed_idx s;
          n = min avail space;
          out = take n (drop (le_compressed_idx s) (le_compressed s));
          idx = le_compressed_idx s + n
      in if idx = length (le_compressed s)
         then (s\<lparr>le_compressed := [], le_compressed_idx := 0, le_phase := EncBuffering\<rparr>, out)
         else (s\<lparr>le_compressed_idx := idx\<rparr>, out))"

definition lz4_drain_terminator :: "lz4_encoder \<Rightarrow> nat \<Rightarrow> lz4_encoder \<times> byte list" where
  "lz4_drain_terminator s space =
     (let n = min (4 - le_terminator_idx s) space; idx = le_terminator_idx s + n
      in (s\<lparr>le_terminator_idx := idx, le_phase := if idx = 4 then EncDone else le_phase s\<rparr>,
          replicate n 0))"

lemma lz4_build_block_raw: "le_raw (lz4_build_block s) = []"
  by (simp add: lz4_build_block_def Let_def)

lemma lz4_drain_if_raw:
  "(if le_phase s = EncFlushing then lz4_drain_compressed s k else (s, [])) = (s', w) \<Longrightarrow> le_raw s' = le_raw s"
  by (auto simp: lz4_drain_compressed_def Let_def split: if_splits)

function lz4_encode_loop ::
  "lz4_encoder \<Rightarrow> byte list \<Rightarrow> nat \<Rightarrow> nat \<Rightarrow> byte list \<Rightarrow> lz4_encoder raw_result" where
  "lz4_encode_loop s input n consumed out =
     (case (if le_phase s = EncFlushing then lz4_drain_compressed s (n - length out) else (s, [])) of
        (s1, w) \<Rightarrow>
          if le_phase s1 \<noteq> EncBuffering then raw_ok s1 consumed (out @ w) False
          else if input = [] then raw_ok s1 consumed (out @ w) False
          else
            let room = BLOCK_SIZE - length (le_raw s1);
                n_take = min (length input) room;
                s2 = s1\<lparr>le_raw := le_raw s1 @ take n_take input\<rparr>
            in if length (le_raw s2) = BLOCK_SIZE
               then lz4_encode_loop (lz4_build_block s2) (drop n_take input) n (consumed + n_take) (out @ w)
               else raw_ok s2 (consumed + n_take) (out @ w) False)"
  by pat_completeness auto
termination
  by (relation "measures [\<lambda>(s, input, _). length input, \<lambda>(s, _). length (le_raw s)]")
    (auto simp: lz4_build_block_raw dest!: lz4_drain_if_raw [OF sym])

declare lz4_encode_loop.simps [simp del]

definition lz4_raw_encode :: "lz4_encoder \<Rightarrow> byte list \<Rightarrow> nat \<Rightarrow> lz4_encoder raw_result" where
  "lz4_raw_encode s input outlen = lz4_encode_loop s input outlen 0 []"

function lz4_finish_loop :: "lz4_encoder \<Rightarrow> nat \<Rightarrow> byte list \<Rightarrow> lz4_encoder raw_result" where
  "lz4_finish_loop s n out =
     (case le_phase s of
        EncBuffering \<Rightarrow>
          if le_raw s \<noteq> [] then lz4_finish_loop (lz4_build_block s) n out
          else lz4_finish_loop (s\<lparr>le_phase := EncTerminating\<rparr>) n out
      | EncFlushing \<Rightarrow>
          (case lz4_drain_compressed s (n - length out) of
             (s1, w) \<Rightarrow>
               if le_phase s1 = EncFlushing then raw_ok s1 0 (out @ w) False
               else lz4_finish_loop s1 n (out @ w))
      | EncTerminating \<Rightarrow>
          (case lz4_drain_terminator s (n - length out) of
             (s1, w) \<Rightarrow>
               if le_phase s1 = EncTerminating then raw_ok s1 0 (out @ w) False
               else lz4_finish_loop s1 n (out @ w))
      | EncDone \<Rightarrow> raw_ok s 0 out True)"
  by pat_completeness auto
termination
  by (relation "measure (\<lambda>(s, _). (if le_raw s = [] then 0 else 4) + (case le_phase s of
      EncFlushing \<Rightarrow> 3 | EncBuffering \<Rightarrow> 2 | EncTerminating \<Rightarrow> 1 | EncDone \<Rightarrow> 0))")
    (auto simp: lz4_build_block_def lz4_drain_compressed_def lz4_drain_terminator_def Let_def
      split: if_splits)

declare lz4_finish_loop.simps [simp del]

definition lz4_enc_raw_finish :: "lz4_encoder \<Rightarrow> nat \<Rightarrow> lz4_encoder raw_result" where
  "lz4_enc_raw_finish s outlen = lz4_finish_loop s outlen []"

definition lz4_enc_raw_reset :: "lz4_encoder \<Rightarrow> lz4_encoder" where
  "lz4_enc_raw_reset s =
     s\<lparr>le_raw := [], le_compressed := [], le_compressed_idx := 0, le_terminator_idx := 0,
      le_phase := EncBuffering\<rparr>"

text \<open>What an encoder state owes: its staged bytes, the frames of the input it holds and will get,
  and what is missing of the terminator.\<close>

definition lz4_frame :: "nat \<Rightarrow> byte list \<Rightarrow> byte list" where
  "lz4_frame level raw =
     (let tmp = lz4_encode_raw level raw in le_bytes 4 (word_of_nat (length tmp) :: u32) @ tmp)"

definition lz4_frames :: "nat \<Rightarrow> byte list \<Rightarrow> byte list" where
  "lz4_frames level xs = concat (map (lz4_frame level) (slice_chunks BLOCK_SIZE xs))"

definition lz4_ending :: "lz4_encoder \<Rightarrow> byte list \<Rightarrow> byte list" where
  "lz4_ending s xs = lz4_frames (le_level s) (le_raw s @ xs) @ replicate (4 - le_terminator_idx s) 0"

definition lz4_owed :: "lz4_encoder \<Rightarrow> byte list \<Rightarrow> byte list" where
  "lz4_owed s xs =
     (case le_phase s of
        EncBuffering \<Rightarrow> lz4_ending s xs
      | EncFlushing \<Rightarrow> drop (le_compressed_idx s) (le_compressed s) @ lz4_ending s xs
      | EncTerminating \<Rightarrow> replicate (4 - le_terminator_idx s) 0
      | EncDone \<Rightarrow> [])"

definition lz4_enc_ok :: "lz4_encoder \<Rightarrow> bool" where
  "lz4_enc_ok s \<longleftrightarrow> le_terminator_idx s \<le> 4 \<and> length (le_raw s) < BLOCK_SIZE
     \<and> (le_phase s = EncFlushing \<longrightarrow> le_compressed_idx s \<le> length (le_compressed s))"

definition lz4_ready :: "lz4_encoder \<Rightarrow> byte list \<Rightarrow> bool" where
  "lz4_ready s xs \<longleftrightarrow> lz4_enc_ok s \<and> (le_phase s = EncBuffering \<or> le_phase s = EncFlushing)"

lemma lz4_owed_buffering: "le_phase s = EncBuffering \<Longrightarrow> lz4_owed s xs = lz4_ending s xs"
  by (simp add: lz4_owed_def)

lemma lz4_frames_block: "length raw = BLOCK_SIZE \<Longrightarrow> lz4_frames level (raw @ xs) = lz4_frame level raw @ lz4_frames level xs"
  unfolding lz4_frames_def by (subst slice_chunks.simps) (auto simp: BLOCK_SIZE_def)

lemma lz4_frames_last: "raw \<noteq> [] \<Longrightarrow> length raw \<le> BLOCK_SIZE \<Longrightarrow> lz4_frames level raw = lz4_frame level raw"
  by (simp add: lz4_frames_def slice_chunks.simps [of BLOCK_SIZE raw] slice_chunks.simps [of _ "[]"] less_not_refl2 [OF BLOCK_SIZE_pos])

lemma lz4_frames_Nil [simp]: "lz4_frames level [] = []"
  by (simp add: lz4_frames_def slice_chunks.simps)

lemma lz4_build_block_owed:
  assumes "le_raw s \<noteq> []" and "le_terminator_idx s \<le> 4"
    and "length (le_raw s) = BLOCK_SIZE \<or> xs = [] \<and> length (le_raw s) \<le> BLOCK_SIZE"
  shows "lz4_enc_ok (lz4_build_block s) \<and> le_phase (lz4_build_block s) = EncFlushing
    \<and> lz4_owed (lz4_build_block s) xs = lz4_ending s xs"
proof -
  have "lz4_frames (le_level s) (le_raw s @ xs) = lz4_frame (le_level s) (le_raw s) @ lz4_frames (le_level s) xs"
    using assms(1,3) lz4_frames_block lz4_frames_last by auto
  with assms show ?thesis
    by (simp add: lz4_build_block_def Let_def lz4_enc_ok_def lz4_owed_def lz4_ending_def lz4_frame_def)
qed

lemma lz4_drain_compressed_owed:
  assumes "lz4_drain_compressed s k = (s', w)" and "lz4_enc_ok s" and "le_phase s = EncFlushing"
  shows "length w \<le> k \<and> (le_phase s' = EncFlushing \<longrightarrow> length w = k) \<and> lz4_enc_ok s'
    \<and> (le_phase s' = EncFlushing \<or> le_phase s' = EncBuffering) \<and> lz4_owed s xs = w @ lz4_owed s' xs"
proof -
  let ?rest = "drop (le_compressed_idx s) (le_compressed s)"
  have idx: "le_compressed_idx s \<le> length (le_compressed s)" using assms(2,3) by (simp add: lz4_enc_ok_def)
  show ?thesis
  proof (cases "length ?rest \<le> k")
    case True
    with assms(1) idx have r: "w = ?rest" "s' = s\<lparr>le_compressed := [], le_compressed_idx := 0, le_phase := EncBuffering\<rparr>"
      by (simp_all add: lz4_drain_compressed_def Let_def)
    from True assms(2,3) show ?thesis unfolding r
      by (simp add: lz4_enc_ok_def lz4_owed_def lz4_ending_def)
  next
    case False
    then have m: "min (length (le_compressed s) - le_compressed_idx s) k = k"
      "le_compressed_idx s + k \<noteq> length (le_compressed s)" by simp_all
    have "(s', w) = (s\<lparr>le_compressed_idx := le_compressed_idx s + k\<rparr>, take k ?rest)"
      unfolding assms(1) [symmetric] using m by (simp add: lz4_drain_compressed_def Let_def del: drop_eq_Nil)
    then have r: "w = take k ?rest" "s' = s\<lparr>le_compressed_idx := le_compressed_idx s + k\<rparr>" by simp_all
    have "?rest = take k ?rest @ drop (le_compressed_idx s + k) (le_compressed s)"
      by (metis append_take_drop_id drop_drop add.commute)
    with False assms(2,3) show ?thesis unfolding r
      by (auto simp: lz4_enc_ok_def lz4_owed_def lz4_ending_def)
  qed
qed

lemma lz4_encode_loop_acc:
  assumes "length out \<le> n" and "lz4_ready s (input @ ys)"
  shows "encode_acc lz4_ready lz4_owed s input ys n c out (lz4_encode_loop s input n c out)"
  using assms
proof (induction s input n c out rule: lz4_encode_loop.induct)
  case (1 s input n c out)
  define r where "r = (if le_phase s = EncFlushing then lz4_drain_compressed s (n - length out) else (s, []))"
  obtain s1 w where r1: "r = (s1, w)" by (cases r)
  have s1: "length (out @ w) \<le> n" "le_phase s1 = EncFlushing \<Longrightarrow> length (out @ w) = n" "lz4_ready s1 zs"
    "lz4_owed s zs = w @ lz4_owed s1 zs" for zs
  proof -
    have "length (out @ w) \<le> n \<and> (le_phase s1 = EncFlushing \<longrightarrow> length (out @ w) = n) \<and> lz4_ready s1 zs
      \<and> lz4_owed s zs = w @ lz4_owed s1 zs"
    proof (cases "le_phase s = EncFlushing")
      case True
      with r1 have "lz4_drain_compressed s (n - length out) = (s1, w)" by (simp add: r_def)
      from lz4_drain_compressed_owed [OF this _ True, of zs] 1(2,3) show ?thesis by (auto simp: lz4_ready_def)
    next
      case False
      with r1 1(2,3) show ?thesis by (auto simp: r_def lz4_ready_def)
    qed
    then show "length (out @ w) \<le> n" "le_phase s1 = EncFlushing \<Longrightarrow> length (out @ w) = n" "lz4_ready s1 zs"
      "lz4_owed s zs = w @ lz4_owed s1 zs" by blast+
  qed
  note unfold = lz4_encode_loop.simps [of s input n c out, folded r_def, unfolded r1 prod.case Let_def]
  show ?case
  proof (cases "le_phase s1 = EncBuffering \<and> input \<noteq> []")
    case False
    then have stop: "lz4_encode_loop s input n c out = raw_ok s1 c (out @ w) False"
      by (auto simp: unfold)
    have "input = [] \<or> length (out @ w) = n"
      using False s1(2) s1(3) [of "[]"] by (auto simp: lz4_ready_def)
    then have "encode_acc lz4_ready lz4_owed s1 input ys n c (out @ w) (raw_ok s1 c (out @ w) False)"
      using s1(1,3) by (intro encode_acc_stop) auto
    then show ?thesis unfolding stop by (rule encode_acc_write) (rule s1(4))
  next
    case True
    define k where "k = min (length input) (BLOCK_SIZE - length (le_raw s1))"
    define s2 where "s2 = s1\<lparr>le_raw := le_raw s1 @ take k input\<rparr>"
    note unfold = unfold [folded k_def, folded s2_def]
    have ok: "lz4_enc_ok s1" "le_phase s1 = EncBuffering" using s1(3) True by (simp_all add: lz4_ready_def)
    have k: "k \<le> length input" "length (le_raw s2) \<le> BLOCK_SIZE"
      using ok(1) by (auto simp: k_def s2_def lz4_enc_ok_def)
    have split: "lz4_owed s1 (input @ ys) = lz4_ending s2 (drop k input @ ys)"
    proof -
      have e: "take k input @ drop k input @ ys = input @ ys"
        by (simp add: append_assoc [symmetric] del: append_assoc)
      show ?thesis by (simp add: lz4_owed_buffering [OF ok(2)] lz4_ending_def s2_def e)
    qed
    show ?thesis
    proof (cases "length (le_raw s2) = BLOCK_SIZE")
      case full: True
      have "le_raw s2 \<noteq> []" using full by (auto simp: BLOCK_SIZE_def)
      moreover have "le_terminator_idx s2 \<le> 4" using ok(1) by (simp add: s2_def lz4_enc_ok_def)
      ultimately have b: "lz4_enc_ok (lz4_build_block s2)" "le_phase (lz4_build_block s2) = EncFlushing"
        "lz4_owed (lz4_build_block s2) zs = lz4_ending s2 zs" for zs
        using lz4_build_block_owed [of s2 zs] full by blast+
      have "encode_acc lz4_ready lz4_owed (lz4_build_block s2) (drop k input) ys n (c + k) (out @ w)
          (lz4_encode_loop (lz4_build_block s2) (drop k input) n (c + k) (out @ w))"
        by (rule 1(1) [OF r1 [symmetric, unfolded r_def] _ _ refl k_def s2_def full s1(1)])
          (use True b in \<open>simp_all add: lz4_ready_def\<close>)
      from encode_acc_step [OF this k(1)] s1(4) split b(3) full True show ?thesis by (simp add: unfold)
    next
      case False
      then have stop: "lz4_encode_loop s input n c out = raw_ok s2 (c + k) (out @ w) False"
        using True by (simp add: unfold)
      have "k = length input" using False ok(1) by (auto simp: k_def s2_def lz4_enc_ok_def)
      moreover have "lz4_ready s2 ys" using False k(2) ok by (auto simp: lz4_ready_def lz4_enc_ok_def s2_def)
      ultimately have "encode_acc lz4_ready lz4_owed s2 (drop k input) ys n (c + k) (out @ w)
          (raw_ok s2 (c + k) (out @ w) False)"
        using s1(1) by (intro encode_acc_stop) auto
      moreover have "lz4_owed s (input @ ys) = w @ lz4_owed s2 (drop k input @ ys)"
        using ok(2) lz4_owed_buffering [of s2 "drop k input @ ys"] s1(4) [of "input @ ys"] split
        by (simp add: s2_def)
      ultimately show ?thesis unfolding stop by (rule encode_acc_step [OF _ k(1)])
    qed
  qed
qed

lemma lz4_finish_loop_law:
  assumes "length out \<le> n" and "lz4_enc_ok s"
  shows "\<exists>s' w d. lz4_finish_loop s n out = raw_ok s' 0 (out @ w) d \<and> length (out @ w) \<le> n
    \<and> (\<not> d \<longrightarrow> length (out @ w) = n) \<and> lz4_enc_ok s' \<and> lz4_owed s [] = w @ lz4_owed s' []
    \<and> (d \<longrightarrow> lz4_owed s' [] = [])"
  using assms
proof (induction s n out rule: lz4_finish_loop.induct)
  case (1 s n out)
  note unfold = lz4_finish_loop.simps [of s n out]
  show ?case
  proof (cases "le_phase s")
    case EncBuffering
    show ?thesis
    proof (cases "le_raw s = []")
      case True
      let ?s = "s\<lparr>le_phase := EncTerminating\<rparr>"
      have "lz4_enc_ok ?s" "lz4_owed s [] = lz4_owed ?s []"
        using 1(6) True EncBuffering by (simp_all add: lz4_enc_ok_def lz4_owed_def lz4_ending_def)
      with 1(2) [OF EncBuffering _ 1(5)] True EncBuffering show ?thesis by (simp add: unfold)
    next
      case False
      have "lz4_enc_ok (lz4_build_block s)" "lz4_owed (lz4_build_block s) [] = lz4_owed s []"
        using lz4_build_block_owed [OF False, of "[]"] 1(6) lz4_owed_buffering [OF EncBuffering]
        by (auto simp: lz4_enc_ok_def)
      with 1(1) [OF EncBuffering False 1(5)] False EncBuffering show ?thesis by (simp add: unfold)
    qed
  next
    case EncFlushing
    obtain s1 w where r: "lz4_drain_compressed s (n - length out) = (s1, w)" by fastforce
    note d = lz4_drain_compressed_owed [OF r 1(6) EncFlushing, of "[]"]
    show ?thesis
    proof (cases "le_phase s1 = EncFlushing")
      case True
      with d 1(5) r EncFlushing show ?thesis
        by (intro exI [of _ s1] exI [of _ w] exI [of _ False]) (simp add: unfold)
    next
      case False
      have "length (out @ w) \<le> n" using d 1(5) by auto
      from 1(3) [OF EncFlushing r [symmetric] False this] d [THEN conjunct2, THEN conjunct2, THEN conjunct1] obtain s' w' d' where
        "lz4_finish_loop s1 n (out @ w) = raw_ok s' 0 ((out @ w) @ w') d'" "length ((out @ w) @ w') \<le> n"
        "\<not> d' \<longrightarrow> length ((out @ w) @ w') = n" "lz4_enc_ok s'" "lz4_owed s1 [] = w' @ lz4_owed s' []"
        "d' \<longrightarrow> lz4_owed s' [] = []" by blast
      with d r EncFlushing False show ?thesis
        by (intro exI [of _ s'] exI [of _ "w @ w'"] exI [of _ d']) (simp add: unfold)
    qed
  next
    case EncTerminating
    obtain s1 w where r: "lz4_drain_terminator s (n - length out) = (s1, w)" by fastforce
    have t: "le_terminator_idx s \<le> 4" using 1(6) by (simp add: lz4_enc_ok_def)
    have d: "length w \<le> n - length out" "le_phase s1 = EncTerminating \<Longrightarrow> length w = n - length out"
      "lz4_enc_ok s1" "lz4_owed s [] = w @ lz4_owed s1 []"
      using r t 1(6) EncTerminating
      by (auto simp: lz4_drain_terminator_def Let_def lz4_owed_def lz4_enc_ok_def replicate_add [symmetric]
          split: if_splits)
    show ?thesis
    proof (cases "le_phase s1 = EncTerminating")
      case True
      with d 1(5) r EncTerminating show ?thesis
        by (intro exI [of _ s1] exI [of _ w] exI [of _ False]) (simp add: unfold)
    next
      case False
      have "length (out @ w) \<le> n" using d 1(5) by auto
      from 1(4) [OF EncTerminating r [symmetric] False this d(3)] obtain s' w' d' where
        "lz4_finish_loop s1 n (out @ w) = raw_ok s' 0 ((out @ w) @ w') d'" "length ((out @ w) @ w') \<le> n"
        "\<not> d' \<longrightarrow> length ((out @ w) @ w') = n" "lz4_enc_ok s'" "lz4_owed s1 [] = w' @ lz4_owed s' []"
        "d' \<longrightarrow> lz4_owed s' [] = []" by blast
      with d r EncTerminating False show ?thesis
        by (intro exI [of _ s'] exI [of _ "w @ w'"] exI [of _ d']) (simp add: unfold)
    qed
  next
    case EncDone
    with 1(5,6) show ?thesis
      by (intro exI [of _ s] exI [of _ "[]"] exI [of _ True]) (simp add: unfold lz4_owed_def)
  qed
qed

interpretation lz4_enc: encoder_contract lz4_raw_encode lz4_enc_raw_finish lz4_ready lz4_enc_ok lz4_owed
proof (unfold_locales, goal_cases)
  case (1 s xs ys n)
  then show ?case
    unfolding lz4_raw_encode_def by (intro encode_acc_law lz4_encode_loop_acc) simp_all
next
  case (2 s)
  then show ?case by (simp add: lz4_ready_def)
next
  case (3 s n)
  from lz4_finish_loop_law [OF _ 3, of "[]" n] show ?case
    unfolding lz4_enc_raw_finish_def by (auto intro!: finish_lawI)
qed

section \<open>Decoder\<close>

datatype lz4_dec_phase = DecLength | DecBlockData | DecDraining | DecDone

record lz4_decoder =
  ld_length_buf :: "byte list"
  ld_length_idx :: nat
  ld_expected_len :: nat
  ld_compressed :: "byte list"
  ld_decoded :: "byte list"
  ld_decoded_idx :: nat
  ld_phase :: lz4_dec_phase
  ld_poisoned :: bool

definition lz4_decoder_new :: lz4_decoder where
  "lz4_decoder_new =
     \<lparr>ld_length_buf = replicate 4 0, ld_length_idx = 0, ld_expected_len = 0, ld_compressed = [],
      ld_decoded = [], ld_decoded_idx = 0, ld_phase = DecLength, ld_poisoned = False\<rparr>"

definition lz4_drain_decoded :: "lz4_decoder \<Rightarrow> nat \<Rightarrow> lz4_decoder \<times> byte list" where
  "lz4_drain_decoded s space =
     (let avail = length (ld_decoded s) - ld_decoded_idx s;
          n = min avail space;
          out = take n (drop (ld_decoded_idx s) (ld_decoded s));
          idx = ld_decoded_idx s + n
      in if idx = length (ld_decoded s)
         then (s\<lparr>ld_decoded := [], ld_decoded_idx := 0, ld_phase := DecLength, ld_length_idx := 0\<rparr>, out)
         else (s\<lparr>ld_decoded_idx := idx\<rparr>, out))"

text \<open>The bytes of the length prefix that are read at once: \<open>length_buf[idx..idx + k]\<close>.\<close>

definition lz4_read_length :: "lz4_decoder \<Rightarrow> byte list \<Rightarrow> nat \<Rightarrow> lz4_decoder" where
  "lz4_read_length s input k =
     s\<lparr>ld_length_buf := take (ld_length_idx s) (ld_length_buf s) @ take k input
          @ drop (ld_length_idx s + k) (ld_length_buf s),
       ld_length_idx := ld_length_idx s + k\<rparr>"

definition lz4_max_block :: nat where
  "lz4_max_block = (compress_bound BLOCK_SIZE + 4) * 2"

lemma lz4_read_length_idx [simp]: "ld_length_idx (lz4_read_length s input k) = ld_length_idx s + k"
  by (simp add: lz4_read_length_def)

function lz4_decode_loop ::
  "lz4_decoder \<Rightarrow> byte list \<Rightarrow> nat \<Rightarrow> nat \<Rightarrow> byte list \<Rightarrow> lz4_decoder raw_result" where
  "lz4_decode_loop s input n consumed out =
     (case ld_phase s of
        DecLength \<Rightarrow>
          (let k = min (4 - ld_length_idx s) (length input);
               s1 = lz4_read_length s input k;
               len = unat (le_word (ld_length_buf s1) :: u32);
               s2 = s1\<lparr>ld_expected_len := len\<rparr>
           in if ld_length_idx s1 < 4 then raw_ok s1 (consumed + k) out False
              else if len = 0 then raw_ok (s2\<lparr>ld_phase := DecDone\<rparr>) (consumed + k) out False
              else if len > lz4_max_block then (s2\<lparr>ld_poisoned := True\<rparr>, Inl Corrupt)
              else lz4_decode_loop (s2\<lparr>ld_compressed := [], ld_phase := DecBlockData\<rparr>)
                     (drop k input) n (consumed + k) out)
      | DecBlockData \<Rightarrow>
          (let need = ld_expected_len s - length (ld_compressed s);
               k = min need (length input);
               s1 = s\<lparr>ld_compressed := ld_compressed s @ take k input\<rparr>
           in if length (ld_compressed s1) < ld_expected_len s then raw_ok s1 (consumed + k) out False
              else case decode_block (ld_compressed s1) (2 * BLOCK_SIZE) of
                     Inl e \<Rightarrow> (s1\<lparr>ld_poisoned := True\<rparr>, Inl e)
                   | Inr raw \<Rightarrow>
                       lz4_decode_loop
                         (s1\<lparr>ld_decoded := raw, ld_decoded_idx := 0, ld_phase := DecDraining\<rparr>)
                         (drop k input) n (consumed + k) out)
      | DecDraining \<Rightarrow>
          (case lz4_drain_decoded s (n - length out) of
             (s1, w) \<Rightarrow>
               if ld_phase s1 = DecDraining then raw_ok s1 consumed (out @ w) False
               else lz4_decode_loop s1 input n consumed (out @ w))
      | DecDone \<Rightarrow> raw_ok s consumed out True)"
  by pat_completeness auto
termination
  by (relation "measures [\<lambda>(s, input, _). length input, \<lambda>(s, _). case ld_phase s of
      DecLength \<Rightarrow> if ld_length_idx s < 4 then 0 else 3 | DecBlockData \<Rightarrow> 2 | DecDraining \<Rightarrow> 1
    | DecDone \<Rightarrow> 0]")
    (auto simp: lz4_drain_decoded_def Let_def split: if_splits)

declare lz4_decode_loop.simps [simp del]

definition lz4_raw_decode :: "lz4_decoder \<Rightarrow> byte list \<Rightarrow> nat \<Rightarrow> lz4_decoder raw_result" where
  "lz4_raw_decode s input outlen =
     (if ld_poisoned s then (s, Inl Corrupt) else lz4_decode_loop s input outlen 0 [])"

definition lz4_dec_raw_finish :: "lz4_decoder \<Rightarrow> nat \<Rightarrow> lz4_decoder raw_result" where
  "lz4_dec_raw_finish s outlen =
     (if ld_poisoned s then (s, Inl Corrupt)
      else case (if ld_phase s = DecDraining then lz4_drain_decoded s outlen else (s, [])) of
        (s1, w) \<Rightarrow>
          if ld_phase s1 = DecDraining then raw_ok s1 0 w False
          else if ld_phase s1 = DecDone then raw_ok s1 0 w True
          else if ld_phase s1 = DecLength \<and> ld_length_idx s1 = 0 then raw_ok s1 0 w True
          else (s1, Inl UnexpectedEnd))"

definition lz4_dec_raw_reset :: "lz4_decoder \<Rightarrow> lz4_decoder" where
  "lz4_dec_raw_reset s =
     s\<lparr>ld_length_buf := replicate 4 0, ld_length_idx := 0, ld_expected_len := 0, ld_compressed := [],
       ld_decoded := [], ld_decoded_idx := 0, ld_phase := DecLength, ld_poisoned := False\<rparr>"

text \<open>
  The stream as a whole: blocks framed by their lengths up to a zero length, after which nothing
  is read, or up to the end of the input at a block boundary.
\<close>

function lz4_stream :: "byte list \<Rightarrow> outcome" and lz4_block_stream :: "nat \<Rightarrow> byte list \<Rightarrow> outcome" where
  "lz4_stream xs =
     (if xs = [] then ([], None)
      else if length xs < 4 then ([], Some UnexpectedEnd)
      else
        let len = unat (le_word (take 4 xs) :: u32)
        in if len = 0 then ([], None)
           else if len > lz4_max_block then ([], Some Corrupt)
           else lz4_block_stream len (drop 4 xs))"
| "lz4_block_stream len xs =
     (if length xs < len then ([], Some UnexpectedEnd)
      else case decode_block (take len xs) (2 * BLOCK_SIZE) of
             Inl e \<Rightarrow> ([], Some e)
           | Inr raw \<Rightarrow> emit raw (lz4_stream (drop len xs)))"
  by pat_completeness auto
termination
  by (relation "measure (\<lambda>x. case x of Inl xs \<Rightarrow> 2 * length xs | Inr (len, xs) \<Rightarrow> 2 * length xs + 1)") auto

declare lz4_stream.simps [simp del] lz4_block_stream.simps [simp del]

definition lz4_yields :: "lz4_decoder \<Rightarrow> byte list \<Rightarrow> outcome" where
  "lz4_yields s xs =
     (if ld_poisoned s then ([], Some Corrupt)
      else case ld_phase s of
        DecLength \<Rightarrow> lz4_stream (take (ld_length_idx s) (ld_length_buf s) @ xs)
      | DecBlockData \<Rightarrow> lz4_block_stream (ld_expected_len s) (ld_compressed s @ xs)
      | DecDraining \<Rightarrow> emit (drop (ld_decoded_idx s) (ld_decoded s)) (lz4_stream xs)
      | DecDone \<Rightarrow> ([], None))"

definition lz4_dec_ok :: "lz4_decoder \<Rightarrow> bool" where
  "lz4_dec_ok s \<longleftrightarrow> ld_poisoned s \<or>
     length (ld_length_buf s) = 4
     \<and> (ld_phase s = DecLength \<longrightarrow> ld_length_idx s < 4)
     \<and> (ld_phase s = DecBlockData \<longrightarrow> length (ld_compressed s) < ld_expected_len s)
     \<and> (ld_phase s = DecDraining \<longrightarrow> ld_decoded_idx s \<le> length (ld_decoded s))"

lemma lz4_stream_prefix:
  assumes "length p = 4"
  shows "lz4_stream (p @ xs) =
    (let len = unat (le_word p :: u32)
     in if len = 0 then ([], None) else if len > lz4_max_block then ([], Some Corrupt)
        else lz4_block_stream len xs)"
  using assms by (subst lz4_stream.simps) (auto simp: Let_def)

lemma lz4_drain_decoded_yields:
  assumes "lz4_drain_decoded s k = (s', w)" and "lz4_dec_ok s" and "\<not> ld_poisoned s" and "ld_phase s = DecDraining"
  shows "length w \<le> k" and "ld_phase s' = DecDraining \<Longrightarrow> length w = k" and "lz4_dec_ok s'"
    and "ld_phase s' \<noteq> DecDraining \<Longrightarrow> ld_phase s' = DecLength \<and> ld_length_idx s' = 0"
    and "\<not> ld_poisoned s'" and "lz4_yields s xs = emit w (lz4_yields s' xs)"
proof -
  let ?rest = "drop (ld_decoded_idx s) (ld_decoded s)"
  have idx: "ld_decoded_idx s \<le> length (ld_decoded s)" "length (ld_length_buf s) = 4"
    using assms(2-4) by (simp_all add: lz4_dec_ok_def)
  have "length w \<le> k \<and> (ld_phase s' = DecDraining \<longrightarrow> length w = k) \<and> lz4_dec_ok s'
    \<and> (ld_phase s' \<noteq> DecDraining \<longrightarrow> ld_phase s' = DecLength \<and> ld_length_idx s' = 0)
    \<and> \<not> ld_poisoned s' \<and> lz4_yields s xs = emit w (lz4_yields s' xs)"
  proof (cases "length ?rest \<le> k")
    case True
    with assms(1) idx have r: "w = ?rest"
      "s' = s\<lparr>ld_decoded := [], ld_decoded_idx := 0, ld_phase := DecLength, ld_length_idx := 0\<rparr>"
      by (simp_all add: lz4_drain_decoded_def Let_def)
    from True assms(2-4) idx(2) show ?thesis unfolding r by (simp add: lz4_dec_ok_def lz4_yields_def)
  next
    case False
    then have m: "min (length (ld_decoded s) - ld_decoded_idx s) k = k"
      "ld_decoded_idx s + k \<noteq> length (ld_decoded s)" by simp_all
    have "(s', w) = (s\<lparr>ld_decoded_idx := ld_decoded_idx s + k\<rparr>, take k ?rest)"
      unfolding assms(1) [symmetric] using m by (simp add: lz4_drain_decoded_def Let_def del: drop_eq_Nil)
    then have r: "w = take k ?rest" "s' = s\<lparr>ld_decoded_idx := ld_decoded_idx s + k\<rparr>" by simp_all
    have "?rest = take k ?rest @ drop (ld_decoded_idx s + k) (ld_decoded s)"
      by (metis append_take_drop_id drop_drop add.commute)
    with False assms(2-4) idx(2) show ?thesis unfolding r by (simp add: lz4_dec_ok_def lz4_yields_def)
  qed
  then show "length w \<le> k" "ld_phase s' = DecDraining \<Longrightarrow> length w = k" "lz4_dec_ok s'"
    "ld_phase s' \<noteq> DecDraining \<Longrightarrow> ld_phase s' = DecLength \<and> ld_length_idx s' = 0"
    "\<not> ld_poisoned s'" "lz4_yields s xs = emit w (lz4_yields s' xs)" by blast+
qed

lemma lz4_decode_loop_acc:
  assumes "length out \<le> n" and "lz4_dec_ok s" and "\<not> ld_poisoned s"
  shows "decode_acc lz4_dec_ok lz4_yields s input ys n c out (lz4_decode_loop s input n c out)"
  using assms
proof (induction s input n c out rule: lz4_decode_loop.induct)
  case (1 s input n c out)
  note unfold = lz4_decode_loop.simps [of s input n c out, unfolded Let_def]
  have buf: "length (ld_length_buf s) = 4" using 1(5,6) by (simp add: lz4_dec_ok_def)
  show ?case
  proof (cases "ld_phase s")
    case DecLength
    define k where "k = min (4 - ld_length_idx s) (length input)"
    define s1 where "s1 = lz4_read_length s input k"
    define len where "len = unat (le_word (ld_length_buf s1) :: u32)"
    define s2 where "s2 = s1\<lparr>ld_expected_len := len\<rparr>"
    note unfold = unfold [folded k_def, folded s1_def, folded len_def, folded s2_def]
    have idx: "ld_length_idx s < 4" using 1(5,6) DecLength by (simp add: lz4_dec_ok_def)
    have k: "k \<le> length input" "ld_length_idx s + k \<le> 4" using idx by (auto simp: k_def)
    have s1: "length (ld_length_buf s1) = 4" "ld_length_idx s1 = ld_length_idx s + k" "ld_phase s1 = DecLength"
      "\<not> ld_poisoned s1"
      using buf k idx DecLength 1(6) by (simp_all add: s1_def lz4_read_length_def)
    have pre: "take (ld_length_idx s1) (ld_length_buf s1) = take (ld_length_idx s) (ld_length_buf s) @ take k input"
      using buf k idx by (simp add: s1_def lz4_read_length_def)
    have all: "take (ld_length_idx s) (ld_length_buf s) @ input @ ys
        = take (ld_length_idx s1) (ld_length_buf s1) @ drop k input @ ys"
      using append_take_drop_id [of k input] by (metis pre append_assoc)
    have y1: "lz4_yields s (input @ ys) = emit [] (lz4_yields s1 (drop k input @ ys))"
      using DecLength s1(3,4) 1(6) by (simp add: lz4_yields_def all)
    show ?thesis
    proof (cases "ld_length_idx s1 < 4")
      case True
      have "k = length input" using True idx s1(2) by (auto simp: k_def min_def split: if_splits)
      with True s1 have "decode_acc lz4_dec_ok lz4_yields s1 (drop k input) ys n (c + k) (out @ [])
          (raw_ok s1 (c + k) (out @ []) False)"
        using 1(4) by (intro decode_acc_stop) (auto simp: lz4_dec_ok_def)
      from decode_acc_step [OF this k(1) y1] show ?thesis using True DecLength by (simp add: unfold)
    next
      case full: False
      then have idx4: "ld_length_idx s1 = 4" using k s1(2) by simp
      have ck: "0 < c + k" using idx4 idx s1(2) by simp
      have y2: "lz4_yields s (input @ ys) =
          (if len = 0 then ([], None) else if len > lz4_max_block then ([], Some Corrupt)
           else lz4_block_stream len (drop k input @ ys))"
        using y1 lz4_stream_prefix [OF s1(1), of "drop k input @ ys"] s1(1,3,4) idx4
        by (simp add: lz4_yields_def len_def Let_def)
      consider "len = 0" | "len \<noteq> 0" "len > lz4_max_block" | "len \<noteq> 0" "\<not> len > lz4_max_block" by blast
      then show ?thesis
      proof cases
        case 1
        let ?s = "s2\<lparr>ld_phase := DecDone\<rparr>"
        have "decode_acc lz4_dec_ok lz4_yields ?s (drop k input) ys n (c + k) (out @ [])
            (raw_ok ?s (c + k) (out @ []) False)"
          using \<open>length out \<le> n\<close> s1 ck by (intro decode_acc_stop) (auto simp: lz4_dec_ok_def s2_def)
        moreover have "lz4_yields s (input @ ys) = emit [] (lz4_yields ?s (drop k input @ ys))"
          unfolding y2 using 1 s1(4) by (simp add: lz4_yields_def s2_def)
        ultimately have "decode_acc lz4_dec_ok lz4_yields s input ys n c out (raw_ok ?s (c + k) (out @ []) False)"
          by (rule decode_acc_step [OF _ k(1)])
        with 1 full DecLength show ?thesis by (simp add: unfold)
      next
        case 2
        with y2 full DecLength show ?thesis by (simp add: unfold decode_acc_error)
      next
        case 3
        let ?s = "s2\<lparr>ld_compressed := [], ld_phase := DecBlockData\<rparr>"
        have "lz4_dec_ok ?s" "\<not> ld_poisoned ?s" using s1 3(1) by (simp_all add: lz4_dec_ok_def s2_def)
        from 1(1) [OF DecLength k_def s1_def len_def s2_def full 3 1(4) this]
        have "decode_acc lz4_dec_ok lz4_yields ?s (drop k input) ys n (c + k) (out @ [])
            (lz4_decode_loop ?s (drop k input) n (c + k) out)" by simp
        moreover have "lz4_yields s (input @ ys) = emit [] (lz4_yields ?s (drop k input @ ys))"
          unfolding y2 using 3 s1(4) by (simp add: lz4_yields_def s2_def)
        ultimately have "decode_acc lz4_dec_ok lz4_yields s input ys n c out
            (lz4_decode_loop ?s (drop k input) n (c + k) out)"
          by (rule decode_acc_step [OF _ k(1)])
        with 3 full DecLength show ?thesis by (simp add: unfold)
      qed
    qed
  next
    case DecBlockData
    define k where "k = min (ld_expected_len s - length (ld_compressed s)) (length input)"
    define s1 where "s1 = s\<lparr>ld_compressed := ld_compressed s @ take k input\<rparr>"
    note unfold = unfold [folded k_def, folded s1_def]
    have len: "length (ld_compressed s) < ld_expected_len s" using 1(5,6) DecBlockData by (simp add: lz4_dec_ok_def)
    have k: "k \<le> length input" by (simp add: k_def)
    have all: "ld_compressed s @ input @ ys = ld_compressed s1 @ drop k input @ ys"
      by (simp add: s1_def)
    have y1: "lz4_yields s (input @ ys) = lz4_block_stream (ld_expected_len s) (ld_compressed s1 @ drop k input @ ys)"
      using DecBlockData 1(6) by (simp add: lz4_yields_def all)
    show ?thesis
    proof (cases "length (ld_compressed s1) < ld_expected_len s")
      case True
      have "k = length input" using True by (auto simp: k_def s1_def min_def split: if_splits)
      with True buf 1(4,6) DecBlockData have "decode_acc lz4_dec_ok lz4_yields s1 (drop k input) ys n (c + k) (out @ [])
          (raw_ok s1 (c + k) (out @ []) False)"
        by (intro decode_acc_stop) (auto simp: lz4_dec_ok_def s1_def)
      moreover have "lz4_yields s (input @ ys) = emit [] (lz4_yields s1 (drop k input @ ys))"
        unfolding y1 using DecBlockData 1(6) by (simp add: lz4_yields_def s1_def)
      ultimately have "decode_acc lz4_dec_ok lz4_yields s input ys n c out (raw_ok s1 (c + k) (out @ []) False)"
        by (rule decode_acc_step [OF _ k])
      with True DecBlockData show ?thesis by (simp add: unfold)
    next
      case full: False
      then have exact: "length (ld_compressed s1) = ld_expected_len s"
        using len by (auto simp: k_def s1_def min_def split: if_splits)
      show ?thesis
      proof (cases "decode_block (ld_compressed s1) (2 * BLOCK_SIZE)")
        case (Inl e)
        have "snd (lz4_yields s (input @ ys)) = Some e"
          unfolding y1 using Inl exact by (subst lz4_block_stream.simps) simp
        with Inl full DecBlockData show ?thesis by (simp add: unfold decode_acc_error)
      next
        case (Inr raw)
        let ?s = "s1\<lparr>ld_decoded := raw, ld_decoded_idx := 0, ld_phase := DecDraining\<rparr>"
        have y2: "lz4_yields s (input @ ys) = emit raw (lz4_stream (drop k input @ ys))"
          unfolding y1 using Inr exact by (subst lz4_block_stream.simps) simp
        have "lz4_dec_ok ?s" "\<not> ld_poisoned ?s" using buf 1(6) by (simp_all add: lz4_dec_ok_def s1_def)
        from 1(2) [OF DecBlockData refl k_def s1_def full Inr 1(4) this]
        have "decode_acc lz4_dec_ok lz4_yields ?s (drop k input) ys n (c + k) (out @ [])
            (lz4_decode_loop ?s (drop k input) n (c + k) out)" by simp
        moreover have "lz4_yields s (input @ ys) = emit [] (lz4_yields ?s (drop k input @ ys))"
          unfolding y2 using 1(6) by (simp add: lz4_yields_def s1_def)
        ultimately have "decode_acc lz4_dec_ok lz4_yields s input ys n c out
            (lz4_decode_loop ?s (drop k input) n (c + k) out)"
          by (rule decode_acc_step [OF _ k])
        with Inr full DecBlockData show ?thesis by (simp add: unfold)
      qed
    qed
  next
    case DecDraining
    obtain s1 w where r: "lz4_drain_decoded s (n - length out) = (s1, w)" by fastforce
    note d = lz4_drain_decoded_yields [OF r 1(5,6) DecDraining]
    have w: "length (out @ w) \<le> n" using d(1) 1(4) by simp
    have "decode_acc lz4_dec_ok lz4_yields s1 input ys n c (out @ w) (lz4_decode_loop s input n c out)"
    proof (cases "ld_phase s1 = DecDraining")
      case True
      with d(2) 1(4) have "length (out @ w) = n" by simp
      with d(3) have "decode_acc lz4_dec_ok lz4_yields s1 input ys n c (out @ w) (raw_ok s1 c (out @ w) False)"
        by (intro decode_acc_stop) auto
      with True r DecDraining show ?thesis by (simp add: unfold)
    next
      case False
      from 1(3) [OF DecDraining r [symmetric] False w d(3,5)] False r DecDraining show ?thesis
        by (simp add: unfold)
    qed
    then show ?thesis by (rule decode_acc_write) (rule d(6))
  next
    case DecDone
    with 1(4-6) show ?thesis
      by (simp add: unfold) (intro decode_acc_done, auto simp: lz4_yields_def)
  qed
qed

interpretation lz4_dec: decoder_contract lz4_raw_decode lz4_dec_raw_finish lz4_dec_ok lz4_dec_ok lz4_yields
proof (unfold_locales, goal_cases)
  case (1 s xs ys n)
  show ?case
  proof (cases "ld_poisoned s")
    case True
    then show ?thesis by (simp add: lz4_raw_decode_def decode_law_def lz4_yields_def)
  next
    case False
    with 1 show ?thesis
      by (auto simp: lz4_raw_decode_def intro!: decode_acc_law lz4_decode_loop_acc)
  qed
next
  case (2 s)
  then show ?case .
next
  case (3 s n)
  show ?case
  proof (cases "ld_poisoned s")
    case True
    then show ?thesis by (simp add: lz4_dec_raw_finish_def drain_law_error lz4_yields_def)
  next
    case ok: False
    define r where "r = (if ld_phase s = DecDraining then lz4_drain_decoded s n else (s, []))"
    obtain s1 w where r1: "r = (s1, w)" by (cases r)
    have d: "length w \<le> n" "ld_phase s1 = DecDraining \<Longrightarrow> length w = n" "lz4_dec_ok s1" "\<not> ld_poisoned s1"
      "lz4_yields s [] = emit w (lz4_yields s1 [])"
    proof -
      have "length w \<le> n \<and> (ld_phase s1 = DecDraining \<longrightarrow> length w = n) \<and> lz4_dec_ok s1 \<and> \<not> ld_poisoned s1
        \<and> lz4_yields s [] = emit w (lz4_yields s1 [])"
      proof (cases "ld_phase s = DecDraining")
        case True
        with r1 have "lz4_drain_decoded s n = (s1, w)" by (simp add: r_def)
        from lz4_drain_decoded_yields [OF this 3 ok True] show ?thesis by blast
      next
        case False
        with r1 3 ok show ?thesis by (auto simp: r_def)
      qed
      then show "length w \<le> n" "ld_phase s1 = DecDraining \<Longrightarrow> length w = n" "lz4_dec_ok s1" "\<not> ld_poisoned s1"
        "lz4_yields s [] = emit w (lz4_yields s1 [])" by blast+
    qed
    show ?thesis
    proof (cases "ld_phase s1 = DecDraining \<or> ld_phase s1 = DecDone \<or> ld_phase s1 = DecLength \<and> ld_length_idx s1 = 0")
      case True
      have "lz4_yields s1 [] = ([], None)" if "ld_phase s1 \<noteq> DecDraining"
        using True that d(4) by (auto simp: lz4_yields_def lz4_stream.simps)
      with True d ok r1 show ?thesis
        by (auto simp: lz4_dec_raw_finish_def r_def [symmetric] intro!: drain_lawI)
    next
      case False
      then have "ld_phase s1 = DecLength \<and> ld_length_idx s1 \<noteq> 0 \<or> ld_phase s1 = DecBlockData"
        by (cases "ld_phase s1") auto
      then have "snd (lz4_yields s1 []) = Some UnexpectedEnd"
        using d(3,4) by (auto simp: lz4_yields_def lz4_dec_ok_def lz4_stream.simps lz4_block_stream.simps)
      with False d(5) ok r1 show ?thesis
        by (auto simp: lz4_dec_raw_finish_def r_def [symmetric] intro!: drain_law_error)
    qed
  qed
qed

section \<open>Round trip\<close>

lemma lz4_max_block_value: "lz4_max_block < 2 ^ 32"
  by (simp add: lz4_max_block_def compress_bound_def BLOCK_SIZE_def)

lemma lz4_stream_frame:
  assumes "raw \<noteq> []" and "length raw \<le> BLOCK_SIZE"
  shows "lz4_stream (lz4_frame level raw @ xs) = emit raw (lz4_stream xs)"
proof -
  let ?tmp = "lz4_encode_raw level raw"
  let ?len = "word_of_nat (length ?tmp) :: u32"
  note bounds = lz4_encode_raw_length [OF assms, of level]
  then have max: "length ?tmp \<le> lz4_max_block" by (auto simp: lz4_max_block_def)
  then have "length ?tmp < 2 ^ 32" using lz4_max_block_value by (rule le_less_trans)
  then have len: "unat ?len = length ?tmp" by (simp add: unsigned_of_nat take_bit_nat_eq_self)
  have "lz4_stream (lz4_frame level raw @ xs) = lz4_block_stream (length ?tmp) (?tmp @ xs)"
    using lz4_stream_prefix [of "le_bytes 4 ?len" "?tmp @ xs"] bounds max
    by (simp add: lz4_frame_def Let_def le_word_bytes len)
  also have "\<dots> = emit raw (lz4_stream xs)"
    using lz4_decode_raw [OF assms, of level] by (simp add: lz4_block_stream.simps)
  finally show ?thesis .
qed

lemma lz4_stream_frames: "lz4_stream (lz4_frames level xs @ ys) = emit xs (lz4_stream ys)"
proof (induction "length xs" arbitrary: xs rule: less_induct)
  case less
  show ?case
  proof (cases "length xs \<le> BLOCK_SIZE")
    case True
    then show ?thesis
      by (cases "xs = []") (simp_all add: lz4_frames_last lz4_stream_frame)
  next
    case False
    let ?raw = "take BLOCK_SIZE xs"
    have raw: "length ?raw = BLOCK_SIZE" "?raw \<noteq> []" using False BLOCK_SIZE_pos by (auto simp: not_le)
    have "lz4_frames level xs = lz4_frame level ?raw @ lz4_frames level (drop BLOCK_SIZE xs)"
      using lz4_frames_block [OF raw(1), of level "drop BLOCK_SIZE xs"] by simp
    then have "lz4_stream (lz4_frames level xs @ ys)
        = emit ?raw (lz4_stream (lz4_frames level (drop BLOCK_SIZE xs) @ ys))"
      using raw by (simp add: lz4_stream_frame)
    also have "\<dots> = emit ?raw (emit (drop BLOCK_SIZE xs) (lz4_stream ys))"
    proof -
      have "length (drop BLOCK_SIZE xs) < length xs" using False BLOCK_SIZE_pos by (simp add: not_le) (metis BLOCK_SIZE_pos diff_less gr_implies_not_zero neq0_conv)
      from less [OF this] show ?thesis by simp
    qed
    finally show ?thesis by simp
  qed
qed

lemma le_word_zero: "le_word (replicate 4 0) = (0 :: u32)"
  by (simp add: le_word_def numeral_eq_Suc)

lemma lz4_stream_terminator: "lz4_stream (replicate 4 0 @ xs) = ([], None)"
  using lz4_stream_prefix [of "replicate 4 0" xs] by (simp add: le_word_zero)

interpretation lz4: codec lz4_raw_encode lz4_enc_raw_finish lz4_ready lz4_enc_ok lz4_owed
  lz4_raw_decode lz4_dec_raw_finish lz4_dec_ok lz4_dec_ok lz4_yields
  "lz4_encoder_new level" lz4_decoder_new "\<lambda>_. True" for level
proof (unfold_locales, goal_cases)
  case (1 xs)
  show ?case by (simp add: lz4_ready_def lz4_enc_ok_def lz4_encoder_new_def)
next
  case 2
  show ?case by (simp add: lz4_dec_ok_def lz4_decoder_new_def)
next
  case (3 xs)
  show ?case
    using lz4_stream_frames [of level xs "replicate 4 0"] lz4_stream_terminator [of "[]"]
    by (simp add: lz4_yields_def lz4_owed_def lz4_ending_def lz4_encoder_new_def lz4_decoder_new_def)
qed

section \<open>Properties\<close>

lemma lz4_enc_reset_new: "lz4_enc_raw_reset s = lz4_encoder_new (le_level s)"
  by (simp add: lz4_enc_raw_reset_def lz4_encoder_new_def)

lemma lz4_dec_reset_new: "lz4_dec_raw_reset s = lz4_decoder_new"
  by (simp add: lz4_dec_raw_reset_def lz4_decoder_new_def)

text \<open>C16. At every level \<open>compress_to_vec\<close> returns the framed blocks of the input and the zero
  terminator, and \<open>decompress_to_vec\<close> gives the input back, also on codecs that were reset in the
  middle of another stream.\<close>

theorem lz4_vec_roundtrip:
  "compress_to_vec lz4_raw_encode lz4_enc_raw_finish (lz4_encoder_new level) xs
     = Some (Inr (lz4_frames level xs @ replicate 4 0))
   \<and> decompress_to_vec lz4_raw_decode lz4_dec_raw_finish lz4_decoder_new (lz4_frames level xs @ replicate 4 0)
     = Some (Inr xs)
   \<and> (\<exists>coded. compress_to_vec lz4_raw_encode lz4_enc_raw_finish (lz4_enc_raw_reset e) xs = Some (Inr coded)
        \<and> decompress_to_vec lz4_raw_decode lz4_dec_raw_finish (lz4_dec_raw_reset d) coded = Some (Inr xs))"
  using lz4.vec_roundtrip [where xs = xs] lz4.vec_roundtrip [where xs = xs and level = "le_level e"]
  by (simp add: lz4_enc_reset_new lz4_dec_reset_new lz4_owed_def lz4_ending_def lz4_encoder_new_def)

text \<open>C17. Whatever bytes it is given, in whatever portions, the LZ4 decoder behaves as the one-shot
  reading of the stream: \<open>decompress_to_vec\<close> returns, with the blocks up to the terminator or the
  first error.\<close>

theorem lz4_decompress_refines:
  "decompress_to_vec lz4_raw_decode lz4_dec_raw_finish lz4_decoder_new input
     = Some (outcome_result (lz4_stream input))"
  using lz4_dec.vec_decompress [of lz4_decoder_new input] lz4.valid_new
  by (simp add: lz4_yields_def lz4_decoder_new_def)

end
