(* ===== verification/LsbBits.thy ===== *)
theory LsbBits
  imports Prelude
begin

text \<open>
  Bit strings written least significant bit first, as deflate packs them into bytes: the low
  \<open>n\<close> bits of a word as a list, the bits of a byte sequence, and the value of a bit list.
\<close>

definition lsb_bits :: "nat \<Rightarrow> 'a::len word \<Rightarrow> bool list" where
  "lsb_bits n w = map (bit w) [0..<n]"

definition stream_bits :: "byte list \<Rightarrow> bool list" where
  "stream_bits xs = concat (map (lsb_bits 8) xs)"

definition lsb_value :: "bool list \<Rightarrow> nat" where
  "lsb_value bs = horner_sum of_bool 2 bs"

lemma length_lsb_bits [simp]: "length (lsb_bits n w) = n"
  by (simp add: lsb_bits_def)

lemma lsb_bits_0 [simp]: "lsb_bits 0 w = []"
  by (simp add: lsb_bits_def)

lemma nth_lsb_bits: "i < n \<Longrightarrow> lsb_bits n w ! i = bit w i"
  by (simp add: lsb_bits_def)

lemma lsb_bits_cong: "(\<And>i. i < n \<Longrightarrow> bit v i = bit w i) \<Longrightarrow> lsb_bits n v = lsb_bits n w"
  by (simp add: lsb_bits_def)

lemma lsb_bits_eqD: "lsb_bits n v = lsb_bits n w \<Longrightarrow> i < n \<Longrightarrow> bit v i = bit w i"
  using nth_lsb_bits by metis

lemma lsb_bits_add: "lsb_bits (m + n) w = lsb_bits m w @ lsb_bits n (drop_bit m w)"
  by (rule nth_equalityI) (auto simp: nth_append nth_lsb_bits bit_drop_bit_eq)

lemma lsb_bits_Suc: "lsb_bits (Suc n) w = lsb_bits n w @ [bit w n]"
  by (simp add: lsb_bits_def)

lemma take_lsb_bits: "k \<le> n \<Longrightarrow> take k (lsb_bits n w) = lsb_bits k w"
  using lsb_bits_add [of k "n - k" w] by simp

lemma drop_lsb_bits: "k \<le> n \<Longrightarrow> drop k (lsb_bits n w) = lsb_bits (n - k) (drop_bit k w)"
  using lsb_bits_add [of k "n - k" w] by simp

lemma lsb_bits_mask: "n \<le> m \<Longrightarrow> lsb_bits n (w AND mask m) = lsb_bits n (w :: 'a::len word)"
  by (intro lsb_bits_cong) (auto simp: bit_simps dest: bit_imp_le_length)

lemma lsb_bits_ucast:
  "n \<le> LENGTH('b) \<Longrightarrow> lsb_bits n (ucast w :: 'b::len word) = lsb_bits n w"
  by (rule lsb_bits_cong) (simp add: bit_ucast_iff)

lemma lsb_bits_push_or:
  assumes "\<And>i. k \<le> i \<Longrightarrow> \<not> bit v i" and "k + n \<le> LENGTH('a)"
  shows "lsb_bits (k + n) (v OR push_bit k w :: 'a::len word) = lsb_bits k v @ lsb_bits n w"
proof -
  have "lsb_bits k (v OR push_bit k w) = lsb_bits k v"
    by (rule lsb_bits_cong) (simp add: bit_simps)
  moreover have "lsb_bits n (drop_bit k (v OR push_bit k w)) = lsb_bits n w"
    using assms by (intro lsb_bits_cong) (auto simp: bit_simps)
  ultimately show ?thesis by (simp add: lsb_bits_add)
qed

lemma stream_bits_simps [simp]:
  "stream_bits [] = []" "stream_bits (b # xs) = lsb_bits 8 b @ stream_bits xs"
  "stream_bits (xs @ ys) = stream_bits xs @ stream_bits ys"
  by (simp_all add: stream_bits_def)

lemma length_stream_bits [simp]: "length (stream_bits xs) = 8 * length xs"
  by (induction xs) simp_all

lemma lsb_bits_inject:
  assumes "lsb_bits LENGTH('a) v = lsb_bits LENGTH('a) (w :: 'a::len word)"
  shows "v = w"
  by (rule bit_word_eqI) (rule lsb_bits_eqD [OF assms])

lemma stream_bits_inject: "stream_bits xs = stream_bits ys \<Longrightarrow> xs = ys"
proof (induction xs arbitrary: ys)
  case Nil
  then have "length (stream_bits ys) = 0" by simp
  then show ?case by simp
next
  case (Cons b xs)
  then have "length (stream_bits ys) = 8 * length (b # xs)" by (metis length_stream_bits)
  then obtain c zs where ys: "ys = c # zs" by (cases ys) auto
  with Cons.prems have "lsb_bits 8 b = lsb_bits 8 c" "stream_bits xs = stream_bits zs" by simp_all
  with Cons.IH lsb_bits_inject [of b c] show ?case by (simp add: ys)
qed

section \<open>Values\<close>

lemma lsb_value_simps [simp]:
  "lsb_value [] = 0" "lsb_value (b # bs) = of_bool b + 2 * lsb_value bs"
  by (simp_all add: lsb_value_def)

lemma lsb_value_append: "lsb_value (as @ bs) = lsb_value as + 2 ^ length as * lsb_value bs"
  by (induction as) (simp_all add: algebra_simps)

lemma lsb_value_less: "lsb_value bs < 2 ^ length bs"
  by (induction bs) auto

lemma lsb_value_False [simp]: "lsb_value (replicate n False) = 0"
  by (induction n) simp_all

lemma lsb_value_bits: "lsb_value (lsb_bits n w) = unat (take_bit n w)"
proof (induction n)
  case 0
  then show ?case by simp
next
  case (Suc n)
  have "unat (take_bit (Suc n) w) = take_bit (Suc n) (unat w)" by (simp add: unsigned_take_bit_eq)
  also have "\<dots> = take_bit n (unat w) + 2 ^ n * of_bool (bit (unat w) n)"
    by (simp add: take_bit_Suc_from_most)
  also have "bit (unat w) n = bit w n" by (simp add: bit_unsigned_iff)
  finally show ?case using Suc by (simp add: lsb_bits_Suc lsb_value_append unsigned_take_bit_eq)
qed

lemma lsb_value_word: "w AND mask n = w \<Longrightarrow> lsb_value (lsb_bits n w) = unat w"
  by (simp add: lsb_value_bits take_bit_eq_mask)

lemma lsb_value_le: "length bs \<le> n \<Longrightarrow> lsb_value bs < 2 ^ n"
  using lsb_value_less [of bs] by (meson less_le_trans one_le_numeral power_increasing)

text \<open>A word of \<open>n\<close> bits is the one with that value.\<close>

lemma lsb_bits_of_nat:
  assumes "n \<le> LENGTH('a)"
  shows "lsb_value (lsb_bits n (word_of_nat k :: 'a::len word)) = k mod 2 ^ n"
  using assms by (simp add: lsb_value_bits unsigned_take_bit_eq unsigned_of_nat take_bit_take_bit min_def)
    (simp add: take_bit_eq_mod)

lemma lsb_value_inject: "lsb_value as = lsb_value bs \<Longrightarrow> length as = length bs \<Longrightarrow> as = bs"
proof (induction as arbitrary: bs)
  case (Cons a as)
  then obtain b bs' where bs: "bs = b # bs'" by (cases bs) auto
  have "of_bool a = (of_bool b :: nat)"
    using arg_cong [OF Cons.prems(1), of "\<lambda>n. n mod 2"] by (simp add: bs)
  then have "a = b" by (cases a; cases b) simp_all
  with Cons show ?case by (simp add: bs)
qed simp

end
