(* ===== verification/EmbedBits.thy ===== *)
theory EmbedBits
  imports LsbBits
begin

text \<open>
  The bit reader of the embedded inflate (\<open>Inflate\<close> of \<open>src/embed/inflate.rs\<close>): the input left,
  the output sink, up to 32 buffered bits, and the flag that the input has run out, from which on
  it reads as zeros.  A reader without that flag stands for the bit string \<open>in_bits\<close>.
\<close>

record 'o inflate =
  in_input :: "byte list"
  in_sink :: 'o
  in_bit_buf :: u32
  in_bit_cnt :: nat
  in_exhausted :: bool

text \<open>A step returns the reader even when it fails: the caller still looks at \<open>exhausted\<close>.\<close>

type_synonym ('o, 'a) inf_result = "'o inflate \<times> (error + 'a)"

text \<open>\<open>?\<close> and the rest of the body.\<close>

definition andthen :: "'s \<times> (error + 'a) \<Rightarrow> ('s \<Rightarrow> 'a \<Rightarrow> 's \<times> (error + 'b)) \<Rightarrow> 's \<times> (error + 'b)" where
  "andthen r f = (case r of (s, Inl e) \<Rightarrow> (s, Inl e) | (s, Inr x) \<Rightarrow> f s x)"

lemma andthen_simps [simp]:
  "andthen (s, Inl e) f = (s, Inl e)" "andthen (s, Inr x) f = f s x"
  by (simp_all add: andthen_def)

lemma andthen_cong [fundef_cong]:
  "r = r' \<Longrightarrow> (\<And>s x. r' = (s, Inr x) \<Longrightarrow> f s x = g s x) \<Longrightarrow> andthen r f = andthen r' g"
  by (auto simp: andthen_def split: prod.split sum.split)

lemma andthen_Inr:
  "andthen r f = (t, Inr y) \<longleftrightarrow> (\<exists>s x. r = (s, Inr x) \<and> f s x = (t, Inr y))"
  by (auto simp: andthen_def split: prod.split sum.split)

lemma andthen_fst:
  assumes "P (fst r)" and "\<And>s x. r = (s, Inr x) \<Longrightarrow> P s \<Longrightarrow> P (fst (f s x))"
  shows "P (fst (andthen r f))"
  using assms by (cases r; cases "snd r") auto

section \<open>Reading bits\<close>

function inf_fill :: "nat \<Rightarrow> 'o inflate \<Rightarrow> 'o inflate" where
  "inf_fill need s =
     (if in_bit_cnt s < need then
        inf_fill need
          ((case in_input s of
              b # rest \<Rightarrow>
                if \<not> in_exhausted s then
                  s\<lparr>in_bit_buf := in_bit_buf s OR push_bit (in_bit_cnt s) (ucast b), in_input := rest\<rparr>
                else s\<lparr>in_exhausted := True\<rparr>
            | [] \<Rightarrow> s\<lparr>in_exhausted := True\<rparr>)
           \<lparr>in_bit_cnt := in_bit_cnt s + 8\<rparr>)
      else s)"
  by pat_completeness auto
termination by (relation "measure (\<lambda>(need, s). need - in_bit_cnt s)") auto

declare inf_fill.simps [simp del]

definition inf_bits :: "nat \<Rightarrow> 'o inflate \<Rightarrow> 'o inflate \<times> u16" where
  "inf_bits need s =
     (let s1 = inf_fill need s; v = in_bit_buf s1 AND mask need
      in (s1\<lparr>in_bit_buf := drop_bit need (in_bit_buf s1), in_bit_cnt := in_bit_cnt s1 - need\<rparr>, ucast v))"

definition inf_word :: "'o inflate \<Rightarrow> 'o inflate \<times> u32" where
  "inf_word s =
     (case inf_bits 16 s of (s1, low) \<Rightarrow>
        case inf_bits 16 s1 of (s2, high) \<Rightarrow> (s2, push_bit 16 (ucast high) OR ucast low))"

definition inf_align :: "'o inflate \<Rightarrow> 'o inflate" where
  "inf_align s = fst (inf_bits (in_bit_cnt s mod 8) s)"

definition inf_ready :: "'o inflate \<Rightarrow> error + unit" where
  "inf_ready s = (if in_exhausted s then Inl UnexpectedEnd else Inr ())"

section \<open>What is left to read\<close>

text \<open>\<open>inf_left\<close> bounds the loops: every read that leaves the reader unexhausted lowers it.\<close>

definition inf_left :: "'o inflate \<Rightarrow> nat" where
  "inf_left s = (if in_exhausted s then 0 else 8 * length (in_input s) + in_bit_cnt s)"

lemma inf_fill_cnt: "need \<le> in_bit_cnt (inf_fill need s)"
  by (induction need s rule: inf_fill.induct) (subst inf_fill.simps, simp)

lemma inf_fill_sink [simp]: "in_sink (inf_fill need s) = in_sink s"
  by (induction need s rule: inf_fill.induct) (subst inf_fill.simps, simp split: list.split)

lemma inf_fill_exhausted: "in_exhausted s \<Longrightarrow> in_exhausted (inf_fill need s)"
  by (induction need s rule: inf_fill.induct) (subst inf_fill.simps, simp split: list.split)

lemma inf_fill_left: "\<not> in_exhausted (inf_fill need s) \<Longrightarrow> inf_left (inf_fill need s) = inf_left s"
proof (induction need s rule: inf_fill.induct)
  case (1 need s)
  show ?case
  proof (cases "in_bit_cnt s < need \<and> (in_input s = [] \<or> in_exhausted s)")
    case True
    have "in_exhausted (inf_fill need s)"
      using True by (subst inf_fill.simps) (auto intro!: inf_fill_exhausted split: list.split)
    with 1(2) show ?thesis by simp
  next
    case False
    with 1 show ?thesis
      by (subst inf_fill.simps, subst (asm) (4) inf_fill.simps) (auto simp: inf_left_def split: list.splits if_splits)
  qed
qed

lemma inf_bits_sink [simp]: "inf_bits need s = (s', v) \<Longrightarrow> in_sink s' = in_sink s"
  by (auto simp: inf_bits_def Let_def)

lemma inf_bits_exhausted: "inf_bits need s = (s', v) \<Longrightarrow> in_exhausted s \<Longrightarrow> in_exhausted s'"
  using inf_fill_exhausted [of s need] by (auto simp: inf_bits_def Let_def)

lemma inf_bits_left:
  "inf_bits need s = (s', v) \<Longrightarrow> \<not> in_exhausted s' \<Longrightarrow> inf_left s = inf_left s' + need"
  using inf_fill_left [of need s] inf_fill_cnt [of need s]
  by (auto simp: inf_bits_def Let_def inf_left_def split: if_splits)

section \<open>The bit string of a reader\<close>

definition in_bits :: "'o inflate \<Rightarrow> bool list" where
  "in_bits s = lsb_bits (in_bit_cnt s) (in_bit_buf s) @ stream_bits (in_input s)"

definition in_ok :: "'o inflate \<Rightarrow> bool" where
  "in_ok s \<longleftrightarrow> in_bit_cnt s \<le> 32 \<and> (\<forall>i \<ge> in_bit_cnt s. \<not> bit (in_bit_buf s) i) \<and> \<not> in_exhausted s"

lemma in_okI [intro]:
  "in_bit_cnt s \<le> 32 \<Longrightarrow> (\<And>i. in_bit_cnt s \<le> i \<Longrightarrow> \<not> bit (in_bit_buf s) i) \<Longrightarrow> \<not> in_exhausted s \<Longrightarrow> in_ok s"
  by (simp add: in_ok_def)

lemma inf_fill_ok:
  assumes "in_ok s" and "need \<le> length (in_bits s)" and "need \<le> 25"
  shows "in_ok (inf_fill need s) \<and> in_bits (inf_fill need s) = in_bits s
    \<and> in_bit_cnt (inf_fill need s) \<le> max (in_bit_cnt s) (need + 7)"
  using assms
proof (induction need s rule: inf_fill.induct)
  case (1 need s)
  show ?case
  proof (cases "in_bit_cnt s < need")
    case True
    then obtain b rest where input: "in_input s = b # rest"
      using 1(3) by (cases "in_input s") (simp_all add: in_bits_def)
    let ?s = "s\<lparr>in_bit_buf := in_bit_buf s OR push_bit (in_bit_cnt s) (ucast b), in_input := rest,
      in_bit_cnt := in_bit_cnt s + 8\<rparr>"
    have cnt: "in_bit_cnt s + 8 \<le> 32" using True 1(4) by simp
    have clear: "\<not> bit (in_bit_buf s) i" if "in_bit_cnt s \<le> i" for i using 1(2) that by (simp add: in_ok_def)
    have ok: "in_ok ?s"
      using 1(2) cnt by (auto simp: in_ok_def bit_simps dest!: bit_imp_le_length [where w = b])
    have "lsb_bits 8 (ucast b :: u32) = lsb_bits 8 b" by (rule lsb_bits_ucast) simp
    then have bits: "in_bits ?s = in_bits s"
      using lsb_bits_push_or [of "in_bit_cnt s" "in_bit_buf s" 8 "ucast b"] clear cnt
      by (simp add: in_bits_def input)
    have step: "inf_fill need s = inf_fill need ?s"
      using True 1(2) by (subst inf_fill.simps) (simp add: input in_ok_def)
    have "in_ok (inf_fill need ?s) \<and> in_bits (inf_fill need ?s) = in_bits ?s
      \<and> in_bit_cnt (inf_fill need ?s) \<le> max (in_bit_cnt ?s) (need + 7)"
      using 1(1) [OF True] ok bits 1(2,3,4) by (simp add: input in_ok_def)
    with step bits True show ?thesis by auto
  next
    case False
    with 1(2) show ?thesis by (subst (1 2 3) inf_fill.simps) simp
  qed
qed

lemma inf_bits_ok:
  assumes "in_ok s" and "in_bits s = p @ rest" and "length p = need" and "need \<le> 16"
  shows "\<exists>s'. inf_bits need s = (s', word_of_nat (lsb_value p)) \<and> in_ok s' \<and> in_bits s' = rest
    \<and> in_sink s' = in_sink s \<and> in_bit_cnt s' \<le> max (in_bit_cnt s) 7 \<and> (in_bit_cnt s < 8 \<longrightarrow> in_bit_cnt s' < 8)"
proof -
  let ?s = "inf_fill need s"
  let ?s' = "?s\<lparr>in_bit_buf := drop_bit need (in_bit_buf ?s), in_bit_cnt := in_bit_cnt ?s - need\<rparr>"
  have f: "in_ok ?s" "in_bits ?s = p @ rest" "in_bit_cnt ?s \<le> max (in_bit_cnt s) (need + 7)"
    using inf_fill_ok [OF assms(1), of need] assms(2-4) by simp_all
  note cnt = inf_fill_cnt [of need s]
  have split: "lsb_bits (in_bit_cnt ?s) (in_bit_buf ?s)
      = lsb_bits need (in_bit_buf ?s) @ lsb_bits (in_bit_cnt ?s - need) (drop_bit need (in_bit_buf ?s))"
    using lsb_bits_add [of need "in_bit_cnt ?s - need" "in_bit_buf ?s"] cnt by simp
  with f(2) have p: "lsb_bits need (in_bit_buf ?s) = p" and rest: "in_bits ?s' = rest"
    using assms(3) by (simp_all add: in_bits_def append_eq_append_conv)
  have "(ucast (in_bit_buf ?s AND mask need) :: u16) = word_of_nat (lsb_value p)"
    unfolding p [symmetric]
    by (simp add: lsb_value_bits take_bit_eq_mask)
  then have "inf_bits need s = (?s', word_of_nat (lsb_value p))" by (simp add: inf_bits_def Let_def)
  moreover have "in_ok ?s'" using f(1) by (auto simp: in_ok_def bit_drop_bit_eq)
  moreover have "in_bit_cnt ?s' \<le> max (in_bit_cnt s) 7" using f(3) by auto
  moreover have "in_bit_cnt s < 8 \<longrightarrow> in_bit_cnt ?s' < 8" using f(3) assms(4) cnt by auto
  ultimately show ?thesis using rest by auto
qed

lemma unat_read: "length p \<le> 16 \<Longrightarrow> unat (word_of_nat (lsb_value p) :: u16) = lsb_value p"
  using lsb_value_le [of p 16] by (simp add: unsigned_of_nat take_bit_nat_eq_self)

end
