(* ===== verification/EmbedHuffman.thy ===== *)
theory EmbedHuffman
  imports EmbedBits
begin

text \<open>
  The canonical Huffman codes of the embedded inflate (\<open>Huffman\<close> of \<open>src/embed/inflate.rs\<close>): built
  from the code length of each symbol into the count of codes of each length and the symbols in
  code order, and decoded one bit at a time.  The lemmas show that a code that is not
  over-subscribed decodes the canonical codeword (RFC 1951, 3.2.2) of every symbol to the symbol.
\<close>

definition MAX_BITS :: nat where "MAX_BITS = 15"
definition MAX_LEN_SYMS :: nat where "MAX_LEN_SYMS = 288"
definition MAX_DIST_SYMS :: nat where "MAX_DIST_SYMS = 32"
definition MAX_SYMS :: nat where "MAX_SYMS = MAX_LEN_SYMS + MAX_DIST_SYMS"

record huffman =
  hf_count :: "nat list"
  hf_symbol :: "nat list"
  hf_left :: int

definition huffman_new :: "nat list \<Rightarrow> nat list \<Rightarrow> huffman" where
  "huffman_new count symbol = \<lparr>hf_count = count, hf_symbol = symbol, hf_left = 1\<rparr>"

text \<open>The loops of \<open>build\<close>: counting, the running sums, and placing the symbols.\<close>

fun huff_count :: "nat list \<Rightarrow> nat list \<Rightarrow> nat list" where
  "huff_count [] count = count"
| "huff_count (len # lengths) count =
     huff_count lengths (count[len mod 16 := count ! (len mod 16) + 1])"

function huff_sums :: "nat list \<Rightarrow> nat \<Rightarrow> int \<Rightarrow> nat list \<Rightarrow> int \<times> nat list" where
  "huff_sums count len left offsets =
     (if len \<le> MAX_BITS then
        huff_sums count (len + 1) (2 * left - int (count ! len))
          (if len < MAX_BITS then offsets[len + 1 := offsets ! len + count ! len] else offsets)
      else (left, offsets))"
  by pat_completeness auto
termination by (relation "measure (\<lambda>(_, len, _). Suc MAX_BITS - len)") auto

declare huff_sums.simps [simp del]

fun huff_place :: "nat \<Rightarrow> nat list \<Rightarrow> nat list \<Rightarrow> nat list \<Rightarrow> nat list" where
  "huff_place sm [] offsets symbol = symbol"
| "huff_place sm (len # lengths) offsets symbol =
     (if len \<noteq> 0 then
        let offset = offsets ! (len mod 16) in
        huff_place (sm + 1) lengths (offsets[len mod 16 := offset + 1])
          (if offset < length symbol then symbol[offset := sm] else symbol)
      else huff_place (sm + 1) lengths offsets symbol)"

definition huff_build :: "nat list \<Rightarrow> huffman \<Rightarrow> huffman" where
  "huff_build lengths h =
     (let count = huff_count lengths (replicate (MAX_BITS + 1) 0);
          (left, offsets) = huff_sums count 1 1 (replicate (MAX_BITS + 1) 0)
      in h\<lparr>hf_count := count, hf_symbol := huff_place 0 lengths offsets (hf_symbol h), hf_left := left\<rparr>)"

definition huff_is_valid :: "huffman \<Rightarrow> nat \<Rightarrow> bool" where
  "huff_is_valid h symbols \<longleftrightarrow>
     hf_left h = 0 \<or> 0 < hf_left h \<and> symbols = hf_count h ! 0 + hf_count h ! 1"

text \<open>Decoding a symbol: \<open>bits\<close>, \<open>first\<close> and \<open>index\<close> are \<open>i32\<close>, far from its bounds.\<close>

fun inf_decode_loop ::
  "nat list \<Rightarrow> nat list \<Rightarrow> int \<Rightarrow> int \<Rightarrow> int \<Rightarrow> 'o inflate \<Rightarrow> ('o, nat) inf_result" where
  "inf_decode_loop symbol [] bits first index s = (s, Inl InvalidHuffmanTree)"
| "inf_decode_loop symbol (count # counts) bits first index s =
     (case inf_bits 1 s of
        (s1, b) \<Rightarrow>
          let bits' = bits + int (unat b) in
          if bits' - int count < first then
            (case inf_ready s1 of
               Inl e \<Rightarrow> (s1, Inl e)
             | Inr _ \<Rightarrow>
                 let i = index + bits' - first in
                 if 0 \<le> i \<and> nat i < length symbol then (s1, Inr (symbol ! nat i))
                 else (s1, Inl InvalidHuffmanTree))
          else inf_decode_loop symbol counts (2 * bits') (2 * (first + int count)) (index + int count) s1)"

definition inf_decode :: "huffman \<Rightarrow> 'o inflate \<Rightarrow> ('o, nat) inf_result" where
  "inf_decode h s = inf_decode_loop (hf_symbol h) (tl (hf_count h)) 0 0 0 s"

section \<open>What build computes\<close>

lemma huff_count_nth:
  "length count = 16 \<Longrightarrow> list_all (\<lambda>l. l \<le> MAX_BITS) lengths \<Longrightarrow> i < 16 \<Longrightarrow>
   huff_count lengths count ! i = count ! i + count_list lengths i"
  by (induction lengths count rule: huff_count.induct) (auto simp: MAX_BITS_def nth_list_update)

lemma length_huff_count [simp]: "length (huff_count lengths count) = length count"
  by (induction lengths count rule: huff_count.induct) simp_all

text \<open>The number of codes of length \<open>l\<close>, the first code of that length and its index.\<close>

definition len_count :: "nat list \<Rightarrow> nat \<Rightarrow> nat" where
  "len_count lengths l = (if l = 0 then 0 else count_list lengths l)"

fun huff_first :: "nat list \<Rightarrow> nat \<Rightarrow> nat" where
  "huff_first lengths 0 = 0"
| "huff_first lengths (Suc l) = 2 * (huff_first lengths l + len_count lengths l)"

fun huff_offset :: "nat list \<Rightarrow> nat \<Rightarrow> nat" where
  "huff_offset lengths 0 = 0"
| "huff_offset lengths (Suc l) = huff_offset lengths l + len_count lengths l"

definition huff_left :: "nat list \<Rightarrow> nat \<Rightarrow> int" where
  "huff_left lengths l = 2 ^ l - int (huff_first lengths l + len_count lengths l)"

lemma huff_left_Suc: "huff_left lengths (Suc l) = 2 * huff_left lengths l - int (len_count lengths (Suc l))"
  by (simp add: huff_left_def)

lemma huff_left_0: "huff_left lengths 0 = 1"
  by (simp add: huff_left_def len_count_def)

lemma huff_left_mono: "0 \<le> huff_left lengths l \<Longrightarrow> k \<le> l \<Longrightarrow> 0 \<le> huff_left lengths k"
proof (induction l)
  case 0
  then show ?case by simp
next
  case (Suc l)
  from Suc.prems(1) have "0 \<le> huff_left lengths l" by (simp add: huff_left_Suc)
  with Suc show ?case by (cases "k = Suc l") simp_all
qed

lemma huff_sums_spec:
  assumes "1 \<le> len" and "len \<le> 16" and "length offsets = 16"
    and "\<And>l. 1 \<le> l \<Longrightarrow> l < 16 \<Longrightarrow> count ! l = len_count lengths l"
    and "left = huff_left lengths (len - 1)"
    and "\<And>l. 1 \<le> l \<Longrightarrow> l \<le> len \<Longrightarrow> l < 16 \<Longrightarrow> offsets ! l = huff_offset lengths l"
  shows "fst (huff_sums count len left offsets) = huff_left lengths 15
    \<and> length (snd (huff_sums count len left offsets)) = 16
    \<and> (\<forall>l. 1 \<le> l \<longrightarrow> l < 16 \<longrightarrow> snd (huff_sums count len left offsets) ! l = huff_offset lengths l)"
  using assms
proof (induction "16 - len" arbitrary: len left offsets)
  case 0
  then show ?case by (subst (1 2 3) huff_sums.simps) (simp add: MAX_BITS_def)
next
  case (Suc k)
  define offsets' where "offsets' = (if len < MAX_BITS then offsets[len + 1 := offsets ! len + count ! len] else offsets)"
  define left' where "left' = 2 * left - int (count ! len)"
  have len: "len < 16" using Suc.hyps(2) by simp
  have step: "huff_sums count len left offsets = huff_sums count (len + 1) left' offsets'"
    using len by (subst huff_sums.simps) (simp add: MAX_BITS_def offsets'_def left'_def)
  have "left' = huff_left lengths len"
  proof -
    from Suc.prems(1) obtain j where j: "len = Suc j" by (cases len) simp_all
    with Suc.prems(1,4,5) len show ?thesis by (simp add: left'_def huff_left_Suc)
  qed
  moreover have "offsets' ! l = huff_offset lengths l" if "1 \<le> l" "l \<le> len + 1" "l < 16" for l
  proof (cases "l = len + 1")
    case True
    with Suc.prems(1,3,4,6) that len show ?thesis by (simp add: offsets'_def MAX_BITS_def)
  next
    case False
    with Suc.prems(3,6) that show ?thesis by (simp add: offsets'_def)
  qed
  moreover have "length offsets' = 16" using Suc.prems(3) by (simp add: offsets'_def)
  ultimately show ?case unfolding step
    using Suc.hyps(1) [of "len + 1" offsets' left'] Suc.hyps(2) Suc.prems(1,4) len by simp
qed

text \<open>The rank of a symbol among those with its length.\<close>

definition len_rank :: "nat list \<Rightarrow> nat \<Rightarrow> nat" where
  "len_rank lengths s = count_list (take s lengths) (lengths ! s)"

lemma len_rank_less: "s < length lengths \<Longrightarrow> len_rank lengths s < count_list lengths (lengths ! s)"
proof -
  assume s: "s < length lengths"
  then have "lengths = take s lengths @ lengths ! s # drop (Suc s) lengths" by (rule id_take_nth_drop)
  then have "count_list lengths (lengths ! s)
      = count_list (take s lengths) (lengths ! s) + (1 + count_list (drop (Suc s) lengths) (lengths ! s))"
    by (metis count_list_append count_list.simps(2) add.commute)
  then show ?thesis by (simp add: len_rank_def)
qed

lemma huff_offset_mono: "l \<le> m \<Longrightarrow> huff_offset lengths l \<le> huff_offset lengths m"
  by (induction m) (auto simp: le_Suc_eq)

lemma huff_offset_next: "l < m \<Longrightarrow> huff_offset lengths l + len_count lengths l \<le> huff_offset lengths m"
  using huff_offset_mono [of "Suc l" m lengths] by simp

lemma length_huff_place [simp]: "length (huff_place sm lengths offsets symbol) = length symbol"
  by (induction sm lengths offsets symbol rule: huff_place.induct) (simp_all add: Let_def)

text \<open>Positions no later symbol is placed at keep their entry; \<open>k\<close> symbols have been placed.\<close>

lemma huff_place_spec:
  assumes "length offsets = 16"
    and "list_all (\<lambda>l. l \<le> MAX_BITS) lengths" and "k \<le> length lengths"
    and "\<And>l. 1 \<le> l \<Longrightarrow> l < 16 \<Longrightarrow> offsets ! l = huff_offset lengths l + count_list (take k lengths) l"
    and "\<And>s. s < k \<Longrightarrow> lengths ! s \<noteq> 0 \<Longrightarrow> huff_offset lengths (lengths ! s) + len_rank lengths s < length symbol
      \<Longrightarrow> symbol ! (huff_offset lengths (lengths ! s) + len_rank lengths s) = s"
    and "s < length lengths" and "lengths ! s \<noteq> 0"
    and "huff_offset lengths (lengths ! s) + len_rank lengths s < length symbol"
  shows "huff_place k (drop k lengths) offsets symbol
    ! (huff_offset lengths (lengths ! s) + len_rank lengths s) = s"
  using assms
proof (induction "length lengths - k" arbitrary: k offsets symbol)
  case 0
  then show ?case by simp
next
  case (Suc j)
  from Suc.hyps(2) have k: "k < length lengths" by simp
  let ?l = "lengths ! k"
  have l16: "?l < 16" using Suc.prems(2) k by (auto simp: list_all_length MAX_BITS_def)
  have drop: "drop k lengths = ?l # drop (Suc k) lengths" using k by (simp add: Cons_nth_drop_Suc)
  have take: "take (Suc k) lengths = take k lengths @ [?l]" using k by (rule take_Suc_conv_app_nth)
  show ?case
  proof (cases "?l = 0")
    case True
    have "huff_place (Suc k) (drop (Suc k) lengths) offsets symbol
      ! (huff_offset lengths (lengths ! s) + len_rank lengths s) = s"
    proof (rule Suc.hyps(1))
      show "offsets ! l = huff_offset lengths l + count_list (take (Suc k) lengths) l" if "1 \<le> l" "l < 16" for l
        using Suc.prems(4) that True by (simp add: take)
      show "symbol ! (huff_offset lengths (lengths ! t) + len_rank lengths t) = t"
        if "t < Suc k" "lengths ! t \<noteq> 0" "huff_offset lengths (lengths ! t) + len_rank lengths t < length symbol" for t
        using Suc.prems(5) that True less_Suc_eq by metis
    qed (use Suc k in simp_all)
    with True show ?thesis by (simp add: drop)
  next
    case False
    define off where "off = offsets ! ?l"
    define offsets' where "offsets' = offsets[?l := off + 1]"
    define symbol' where "symbol' = (if off < length symbol then symbol[off := k] else symbol)"
    have off: "off = huff_offset lengths ?l + len_rank lengths k"
      using Suc.prems(4) [of ?l] False l16 by (simp add: off_def len_rank_def)
    have "huff_place (Suc k) (drop (Suc k) lengths) offsets' symbol'
      ! (huff_offset lengths (lengths ! s) + len_rank lengths s) = s"
    proof (rule Suc.hyps(1))
      show "offsets' ! l = huff_offset lengths l + count_list (take (Suc k) lengths) l" if "1 \<le> l" "l < 16" for l
        using Suc.prems(1,4) that l16 by (cases "l = ?l") (auto simp: take offsets'_def off_def)
      show "symbol' ! (huff_offset lengths (lengths ! t) + len_rank lengths t) = t"
        if t: "t < Suc k" "lengths ! t \<noteq> 0" "huff_offset lengths (lengths ! t) + len_rank lengths t < length symbol'" for t
      proof (cases "t = k")
        case True
        with t(3) show ?thesis by (simp add: symbol'_def off split: if_splits)
      next
        case tk: False
        have "huff_offset lengths (lengths ! t) + len_rank lengths t \<noteq> off"
        proof (cases "lengths ! t = ?l")
          case True
          have "len_rank lengths t < len_rank lengths k"
          proof -
            have "t < length (take k lengths)" using t(1) tk k by simp
            from len_rank_less [OF this] have "len_rank (take k lengths) t < len_rank lengths k"
              using t(1) tk True by (simp add: len_rank_def)
            then show ?thesis using t(1) tk by (simp add: len_rank_def)
          qed
          with True show ?thesis by (simp add: off)
        next
          case False
          have tl: "t < length lengths" using t(1) k by simp
          have a: "len_rank lengths t < len_count lengths (lengths ! t)" "len_rank lengths k < len_count lengths ?l"
            using len_rank_less [OF tl] len_rank_less [OF k] t(2) \<open>?l \<noteq> 0\<close> by (simp_all add: len_count_def)
          from False consider "lengths ! t < ?l" | "?l < lengths ! t" by linarith
          then show ?thesis
          proof cases
            case 1
            from huff_offset_next [OF this, of lengths] a show ?thesis by (simp add: off)
          next
            case 2
            from huff_offset_next [OF this, of lengths] a show ?thesis by (simp add: off)
          qed
        qed
        with Suc.prems(5) [of t] t tk show ?thesis by (simp add: symbol'_def split: if_splits)
      qed
    qed (use Suc k in \<open>simp_all add: offsets'_def symbol'_def\<close>)
    with False l16 show ?thesis by (auto simp: drop Let_def off_def offsets'_def symbol'_def split: if_splits)
  qed
qed

text \<open>The built code, for a table of symbols that is large enough.\<close>

definition built :: "nat list \<Rightarrow> huffman \<Rightarrow> bool" where
  "built lengths h \<longleftrightarrow> length (hf_count h) = 16
     \<and> (\<forall>l. 1 \<le> l \<longrightarrow> l < 16 \<longrightarrow> hf_count h ! l = len_count lengths l)
     \<and> hf_count h ! 0 = count_list lengths 0
     \<and> hf_left h = huff_left lengths 15
     \<and> (\<forall>s < length lengths. lengths ! s \<noteq> 0 \<longrightarrow>
          huff_offset lengths (lengths ! s) + len_rank lengths s < length (hf_symbol h)
          \<and> hf_symbol h ! (huff_offset lengths (lengths ! s) + len_rank lengths s) = s)"

lemma huff_offset_total: "huff_offset lengths l \<le> length lengths"
proof -
  have "huff_offset lengths l = length (filter (\<lambda>x. 0 < x \<and> x < l) lengths)"
  proof (induction l)
    case (Suc l)
    have "length (filter (\<lambda>x. 0 < x \<and> x < Suc l) xs)
        = length (filter (\<lambda>x. 0 < x \<and> x < l) xs) + len_count xs l" for xs :: "nat list"
      by (induction xs) (auto simp: len_count_def less_Suc_eq)
    with Suc show ?case by simp
  qed simp
  then show ?thesis by simp
qed

lemma huff_index_less:
  assumes "s < length lengths" and "lengths ! s \<noteq> 0"
  shows "huff_offset lengths (lengths ! s) + len_rank lengths s < length lengths"
proof -
  have "len_rank lengths s < len_count lengths (lengths ! s)"
    using len_rank_less [OF assms(1)] assms(2) by (simp add: len_count_def)
  moreover have "huff_offset lengths (lengths ! s) + len_count lengths (lengths ! s) \<le> length lengths"
    using huff_offset_total [of lengths "Suc (lengths ! s)"] by simp
  ultimately show ?thesis by simp
qed

lemma huff_build_built:
  assumes "list_all (\<lambda>l. l \<le> MAX_BITS) lengths" and "length lengths \<le> length (hf_symbol h)"
  shows "built lengths (huff_build lengths h) \<and> length (hf_symbol (huff_build lengths h)) = length (hf_symbol h)"
proof -
  define count where "count = huff_count lengths (replicate 16 0)"
  have len: "length count = 16" by (simp add: count_def)
  have count: "count ! i = count_list lengths i" if "i < 16" for i
    using huff_count_nth [of "replicate 16 0" lengths i] assms(1) that by (simp add: count_def)
  have sums: "fst (huff_sums count 1 1 (replicate 16 0)) = huff_left lengths 15
    \<and> length (snd (huff_sums count 1 1 (replicate 16 0))) = 16
    \<and> (\<forall>l. 1 \<le> l \<longrightarrow> l < 16 \<longrightarrow> snd (huff_sums count 1 1 (replicate 16 0)) ! l = huff_offset lengths l)"
    using count by (intro huff_sums_spec) (auto simp: len_count_def huff_left_0 dest!: le_antisym)
  obtain left offsets where r: "huff_sums count 1 1 (replicate 16 0) = (left, offsets)" by fastforce
  have b: "huff_build lengths h =
      h\<lparr>hf_count := count, hf_symbol := huff_place 0 lengths offsets (hf_symbol h), hf_left := left\<rparr>"
    using r by (simp add: huff_build_def MAX_BITS_def count_def)
  have "huff_place 0 lengths offsets (hf_symbol h) ! (huff_offset lengths (lengths ! s) + len_rank lengths s) = s"
    if "s < length lengths" "lengths ! s \<noteq> 0" for s
    using huff_place_spec [of offsets lengths 0 "hf_symbol h" s] sums r assms huff_index_less [OF that] that
    by simp
  then show ?thesis
    using sums r assms huff_index_less [of _ lengths] count len
    by (auto simp: b built_def len_count_def intro: less_le_trans)
qed

section \<open>Decoding\<close>

text \<open>The codeword of a symbol, the most significant bit first.\<close>

definition code_value :: "nat list \<Rightarrow> nat \<Rightarrow> nat" where
  "code_value lengths s = huff_first lengths (lengths ! s) + len_rank lengths s"

definition code_bits :: "nat \<Rightarrow> nat \<Rightarrow> bool list" where
  "code_bits l v = map (\<lambda>i. odd (v div 2 ^ (l - Suc i))) [0..<l]"

definition huff_code :: "nat list \<Rightarrow> nat \<Rightarrow> bool list" where
  "huff_code lengths s = code_bits (lengths ! s) (code_value lengths s)"

lemma length_code_bits [simp]: "length (code_bits l v) = l"
  by (simp add: code_bits_def)

lemma drop_code_bits:
  "j < l \<Longrightarrow> drop j (code_bits l v) = odd (v div 2 ^ (l - Suc j)) # drop (Suc j) (code_bits l v)"
  by (simp add: code_bits_def drop_map upt_conv_Cons [of j l])

text \<open>A prefix of a codeword lies past the codes of its length.\<close>

lemma code_prefix_past:
  assumes "j < l"
  shows "huff_first lengths j + len_count lengths j \<le> (huff_first lengths l + r) div 2 ^ (l - j)"
proof -
  have "(huff_first lengths j + len_count lengths j) * 2 ^ (l - j) \<le> huff_first lengths l"
    using assms
  proof (induction l)
    case (Suc l)
    show ?case
    proof (cases "j = l")
      case False
      with Suc have "(huff_first lengths j + len_count lengths j) * 2 ^ (l - j) \<le> huff_first lengths l" by simp
      with Suc.prems False show ?thesis by (simp add: Suc_diff_le)
    qed simp
  qed simp
  then show ?thesis by (simp add: less_eq_div_iff_mult_less_eq)
qed

lemma code_value_less:
  assumes "s < length lengths" and "lengths ! s \<noteq> 0" and "lengths ! s \<le> 15" and "0 \<le> huff_left lengths 15"
  shows "code_value lengths s < 2 ^ (lengths ! s)"
proof -
  have "0 \<le> huff_left lengths (lengths ! s)" using huff_left_mono [OF assms(4,3)] .
  then have "huff_first lengths (lengths ! s) + len_count lengths (lengths ! s) \<le> 2 ^ (lengths ! s)"
    by (simp add: huff_left_def flip: of_nat_power_le_of_nat_cancel_iff) (metis of_nat_le_iff of_nat_power of_nat_add of_nat_numeral)
  with len_rank_less [OF assms(1)] assms(2) show ?thesis by (simp add: code_value_def len_count_def)
qed

lemma inf_bit_ok:
  assumes "in_ok s" and "in_bits s = b # rest"
  shows "\<exists>s'. inf_bits 1 s = (s', of_bool b) \<and> in_ok s' \<and> in_bits s' = rest \<and> in_sink s' = in_sink s
    \<and> in_bit_cnt s' \<le> max (in_bit_cnt s) 7 \<and> (in_bit_cnt s < 8 \<longrightarrow> in_bit_cnt s' < 8)"
  using inf_bits_ok [OF assms(1), of "[b]" rest 1] assms(2) by (cases b) simp_all

text \<open>\<open>reads s s'\<close>: what a step keeps besides the bits it takes.\<close>

definition in_kept :: "'o inflate \<Rightarrow> 'o inflate \<Rightarrow> bool" where
  "in_kept s s' \<longleftrightarrow> in_ok s' \<and> in_sink s' = in_sink s \<and> in_bit_cnt s' \<le> max (in_bit_cnt s) 7
     \<and> (in_bit_cnt s < 8 \<longrightarrow> in_bit_cnt s' < 8)"

lemma in_kept_trans: "in_kept s s1 \<Longrightarrow> in_kept s1 s2 \<Longrightarrow> in_kept s s2"
  by (auto simp: in_kept_def)

lemma inf_decode_loop_code:
  assumes "built lengths h" and "sm < length lengths" and "lengths ! sm = l" and "j < l" and "l \<le> 15"
    and "in_ok s" and "in_bits s = drop j (huff_code lengths sm) @ rest"
  shows "\<exists>s'. inf_decode_loop (hf_symbol h) (drop (Suc j) (hf_count h))
      (2 * int (code_value lengths sm div 2 ^ (l - j))) (int (huff_first lengths (Suc j)))
      (int (huff_offset lengths (Suc j))) s = (s', Inr sm)
    \<and> in_bits s' = rest \<and> in_kept s s'"
  using assms(4-)
proof (induction "l - j" arbitrary: j s)
  case 0
  then show ?case by simp
next
  case (Suc k)
  let ?v = "code_value lengths sm"
  define b where "b = odd (?v div 2 ^ (l - Suc j))"
  have len: "length (hf_count h) = 16" using assms(1) by (simp add: built_def)
  have cnt: "hf_count h ! Suc j = len_count lengths (Suc j)"
    using assms(1) Suc.prems(1,2) by (simp add: built_def)
  have drop: "drop (Suc j) (hf_count h) = len_count lengths (Suc j) # drop (Suc (Suc j)) (hf_count h)"
    using Cons_nth_drop_Suc [of "Suc j" "hf_count h"] len Suc.prems(1,2) cnt by simp
  have bits: "in_bits s = b # drop (Suc j) (huff_code lengths sm) @ rest"
    using Suc.prems(1,4) drop_code_bits [OF Suc.prems(1)] assms(3) by (simp add: huff_code_def b_def)
  obtain s1 where s1: "inf_bits 1 s = (s1, of_bool b)" "in_bits s1 = drop (Suc j) (huff_code lengths sm) @ rest"
    "in_kept s s1"
    using inf_bit_ok [OF Suc.prems(3) bits] by (auto simp: in_kept_def)
  have val: "2 * (?v div 2 ^ (l - j)) + of_bool b = ?v div 2 ^ (l - Suc j)"
  proof -
    have "l - j = Suc (l - Suc j)" using Suc.prems(1) by simp
    then have "?v div 2 ^ (l - j) = ?v div 2 ^ (l - Suc j) div 2" by (simp add: div_mult2_eq [symmetric] mult.commute)
    then show ?thesis by (simp add: b_def)
  qed
  have "unat (of_bool b :: u16) = of_bool b" by (cases b) simp_all
  then have b': "2 * int (?v div 2 ^ (l - j)) + int (unat (of_bool b :: u16)) = int (?v div 2 ^ (l - Suc j))"
    using arg_cong [OF val, of int] by simp
  show ?case
  proof (cases "Suc j = l")
    case True
    have rank: "len_rank lengths sm < len_count lengths l"
      using len_rank_less [OF assms(2)] assms(3) Suc.prems(1) by (simp add: len_count_def)
    have v: "?v div 2 ^ (l - Suc j) = huff_first lengths (Suc j) + len_rank lengths sm"
      using True assms(3) by (simp add: code_value_def)
    have at: "huff_offset lengths l + len_rank lengths sm < length (hf_symbol h)"
      "hf_symbol h ! (huff_offset lengths l + len_rank lengths sm) = sm"
      using assms(1,2,3) Suc.prems(1) by (auto simp: built_def)
    have "inf_decode_loop (hf_symbol h) (drop (Suc j) (hf_count h))
      (2 * int (?v div 2 ^ (l - j))) (int (huff_first lengths (Suc j))) (int (huff_offset lengths (Suc j))) s = (s1, Inr sm)"
      unfolding drop inf_decode_loop.simps s1(1) prod.case Let_def b' v
      using rank at s1(3) True
      by (simp add: inf_ready_def in_kept_def in_ok_def nat_add_distrib)
    moreover have "in_bits s1 = rest" using s1(2) True assms(3) by (simp add: huff_code_def)
    ultimately show ?thesis using s1(3) by blast
  next
    case False
    then have j: "Suc j < l" using Suc.prems(1) by simp
    have past: "huff_first lengths (Suc j) + len_count lengths (Suc j) \<le> ?v div 2 ^ (l - Suc j)"
      using code_prefix_past [OF j, of lengths "len_rank lengths sm"] assms(3) by (simp add: code_value_def)
    then have notyet: "\<not> int (?v div 2 ^ (l - Suc j)) - int (len_count lengths (Suc j)) < int (huff_first lengths (Suc j))"
      by linarith
    have "in_ok s1" using s1(3) by (simp add: in_kept_def)
    moreover have "k = l - Suc j" using Suc.hyps(2) by simp
    ultimately obtain s' where s':
      "inf_decode_loop (hf_symbol h) (drop (Suc (Suc j)) (hf_count h))
        (2 * int (?v div 2 ^ (l - Suc j))) (int (huff_first lengths (Suc (Suc j))))
        (int (huff_offset lengths (Suc (Suc j)))) s1 = (s', Inr sm)"
      "in_bits s' = rest" "in_kept s1 s'"
      using Suc.hyps(1) [OF _ j Suc.prems(2) _ s1(2)] by blast
    have "inf_decode_loop (hf_symbol h) (drop (Suc j) (hf_count h))
      (2 * int (?v div 2 ^ (l - j))) (int (huff_first lengths (Suc j))) (int (huff_offset lengths (Suc j))) s = (s', Inr sm)"
      unfolding drop inf_decode_loop.simps s1(1) prod.case Let_def b' if_not_P [OF notyet]
      using s'(1) by (simp add: algebra_simps)
    with s'(2) in_kept_trans [OF s1(3) s'(3)] show ?thesis by blast
  qed
qed

lemma inf_decode_code:
  assumes "built lengths h" and "0 \<le> huff_left lengths 15"
    and "sm < length lengths" and "lengths ! sm \<noteq> 0" and "lengths ! sm \<le> 15"
    and "in_ok s" and "in_bits s = huff_code lengths sm @ rest"
  shows "\<exists>s'. inf_decode h s = (s', Inr sm) \<and> in_bits s' = rest \<and> in_kept s s'"
  using inf_decode_loop_code [OF assms(1,3) refl _ assms(5,6), of 0 rest] assms(4,7)
    code_value_less [OF assms(3-5,2)]
  by (simp add: inf_decode_def drop_Suc len_count_def)

end
