(* ===== verification/EmbedInflate.thy ===== *)
theory EmbedInflate
  imports EmbedHuffman
begin

text \<open>
  The steps of the embedded inflate (\<open>src/embed/inflate.rs\<close>), over any output that implements
  the trait \<open>Out\<close>: stored blocks, the head and the code lengths of a dynamic block, the literal
  and length symbols and the distances.
\<close>

text \<open>The trait \<open>Out\<close>.\<close>

record 'o out_ops =
  out_put :: "'o \<Rightarrow> byte \<Rightarrow> 'o \<times> (error + unit)"
  out_check_dist :: "'o \<Rightarrow> nat \<Rightarrow> error + unit"

text \<open>A method of the output, called through the reader.\<close>

definition on_sink :: "('o \<Rightarrow> 'o \<times> (error + 'a)) \<Rightarrow> 'o inflate \<Rightarrow> ('o, 'a) inf_result" where
  "on_sink f s = (case f (in_sink s) of (o', r) \<Rightarrow> (s\<lparr>in_sink := o'\<rparr>, r))"

definition ORDER :: "nat list" where
  "ORDER = [16, 17, 18, 0, 8, 7, 9, 6, 10, 5, 11, 4, 12, 3, 13, 2, 14, 1, 15]"

datatype inf_symbol = SymLiteral | SymEnd | SymMatch nat

definition fixed_lengths :: "nat list" where
  "fixed_lengths = replicate 144 8 @ replicate 112 9 @ replicate 24 7 @ replicate 8 8 @ replicate 32 5"

text \<open>The two codes of a block; \<open>Tables\<close> holds their storage.\<close>

record tables =
  tb_len :: huffman
  tb_dist :: huffman

definition tables_new :: tables where
  "tables_new =
     \<lparr>tb_len = huffman_new (replicate (MAX_BITS + 1) 0) (replicate MAX_LEN_SYMS 0),
      tb_dist = huffman_new (replicate (MAX_BITS + 1) 0) (replicate (MAX_SYMS - MAX_LEN_SYMS) 0)\<rparr>"

definition build_codes :: "nat list \<Rightarrow> nat \<Rightarrow> tables \<Rightarrow> tables \<times> (error + unit)" where
  "build_codes lengths len_syms t =
     (if length lengths < len_syms then (t, Inl Corrupt)
      else
        let len_lengths = take len_syms lengths; dist_lengths = drop len_syms lengths;
            t1 = t\<lparr>tb_len := huff_build len_lengths (tb_len t), tb_dist := huff_build dist_lengths (tb_dist t)\<rparr>
        in if \<not> huff_is_valid (tb_len t1) (length len_lengths)
              \<or> \<not> huff_is_valid (tb_dist t1) (length dist_lengths)
           then (t1, Inl InvalidHuffmanTree) else (t1, Inr ()))"

definition stored_len :: "'o inflate \<Rightarrow> ('o, u16) inf_result" where
  "stored_len s =
     (case inf_bits 16 (inf_align s) of
        (s1, len) \<Rightarrow>
          (case inf_bits 16 s1 of
             (s2, nlen) \<Rightarrow> (s2, if nlen \<noteq> NOT len then Inl Corrupt else Inr len)))"

definition stored_byte :: "('o, 'z) out_ops_scheme \<Rightarrow> 'o inflate \<Rightarrow> ('o, unit) inf_result" where
  "stored_byte ops s =
     (case inf_bits 8 s of
        (s1, v) \<Rightarrow> andthen (s1, inf_ready s1) (\<lambda>s2 _. on_sink (\<lambda>o1. out_put ops o1 (ucast v)) s2))"

definition dynamic_head :: "'o inflate \<Rightarrow> ('o, nat \<times> nat \<times> nat) inf_result" where
  "dynamic_head s =
     (case inf_bits 5 s of (s1, v1) \<Rightarrow>
      case inf_bits 5 s1 of (s2, v2) \<Rightarrow>
      case inf_bits 4 s2 of (s3, v3) \<Rightarrow>
        let len_syms = unat v1 + 257; dist_syms = unat v2 + 1; code_syms = unat v3 + 4
        in if 286 < len_syms \<or> 30 < dist_syms then (s3, Inl Corrupt)
           else (s3, Inr (len_syms, dist_syms, code_syms)))"

definition code_lengths :: "huffman \<Rightarrow> nat list \<Rightarrow> nat \<Rightarrow> 'o inflate \<Rightarrow> ('o, nat list \<times> nat) inf_result" where
  "code_lengths code lengths index s =
     andthen (inf_decode code s) (\<lambda>s1 sm.
       andthen
         (if sm \<le> 15 then (s1, Inr (sm, 1))
          else if sm = 16 then
            (if index = 0 \<or> length lengths < index then (s1, Inl InvalidHuffmanTree)
             else case inf_bits 2 s1 of (s2, v) \<Rightarrow> (s2, Inr (lengths ! (index - 1), 3 + unat v)))
          else if sm = 17 then (case inf_bits 3 s1 of (s2, v) \<Rightarrow> (s2, Inr (0, 3 + unat v)))
          else (case inf_bits 7 s1 of (s2, v) \<Rightarrow> (s2, Inr (0, 11 + unat v))))
         (\<lambda>s2 (len, repeat).
            let stop = index + repeat in
            if length lengths < stop then (s2, Inl InvalidHuffmanTree)
            else (s2, Inr (take index lengths @ replicate repeat len @ drop stop lengths, stop))))"

definition inf_length :: "('o, 'z) out_ops_scheme \<Rightarrow> huffman \<Rightarrow> 'o inflate \<Rightarrow> ('o, inf_symbol) inf_result" where
  "inf_length ops code s =
     andthen (inf_decode code s) (\<lambda>s1 sm.
       if sm < 256 then
         andthen (on_sink (\<lambda>o1. out_put ops o1 (byte_of sm)) s1) (\<lambda>s2 _. (s2, Inr SymLiteral))
       else if sm = 256 then (s1, Inr SymEnd)
       else
         let m = sm - 257 in
         if m \<le> 3 then (s1, Inr (SymMatch (m + 3)))
         else if m \<le> 27 then
           let extra = (m - 4) div 4 in
           (case inf_bits extra s1 of
              (s2, v) \<Rightarrow> (s2, Inr (SymMatch ((4 + m mod 4) * 2 ^ extra + 3 + unat v))))
         else if m = 28 then (s1, Inr (SymMatch 258))
         else (s1, Inl InvalidHuffmanTree))"

definition inf_distance :: "('o, 'z) out_ops_scheme \<Rightarrow> huffman \<Rightarrow> 'o inflate \<Rightarrow> ('o, nat) inf_result" where
  "inf_distance ops code s =
     andthen (inf_decode code s) (\<lambda>s1 sm.
       andthen
         (if sm \<le> 1 then (s1, Inr (sm + 1))
          else if sm \<le> 29 then
            let extra = (sm - 2) div 2 in
            (case inf_bits extra s1 of
               (s2, v) \<Rightarrow> (s2, Inr ((2 + sm mod 2) * 2 ^ extra + 1 + unat v)))
          else (s1, Inl InvalidHuffmanTree))
         (\<lambda>s2 dist.
            andthen (s2, inf_ready s2) (\<lambda>s3 _.
              andthen (s3, out_check_dist ops (in_sink s3) dist) (\<lambda>s4 _. (s4, Inr dist)))))"

section \<open>Progress\<close>

lemma on_sink_simps [simp]:
  "in_input (fst (on_sink f s)) = in_input s" "in_bit_cnt (fst (on_sink f s)) = in_bit_cnt s"
  "in_bit_buf (fst (on_sink f s)) = in_bit_buf s" "in_exhausted (fst (on_sink f s)) = in_exhausted s"
  by (simp_all add: on_sink_def split: prod.split)

lemma on_sink_left: "on_sink f s = (s', r) \<Longrightarrow> inf_left s' = inf_left s \<and> in_exhausted s' = in_exhausted s"
  using on_sink_simps [of f s] by (simp add: inf_left_def)

lemma inf_bits_left_le: "inf_bits need s = (s', v) \<Longrightarrow> inf_left s' \<le> inf_left s"
  using inf_bits_left [of need s s' v] by (cases "in_exhausted s'") (simp_all add: inf_left_def)

lemma inf_decode_loop_left:
  "inf_decode_loop symbol counts bits first index s = (s', Inr sm) \<Longrightarrow>
   inf_left s' < inf_left s \<and> \<not> in_exhausted s'"
proof (induction symbol counts bits first index s rule: inf_decode_loop.induct)
  case (2 symbol count counts bits first index s)
  obtain s1 b where b: "inf_bits 1 s = (s1, b)" by fastforce
  show ?case
  proof (cases "bits + int (unat b) - int count < first")
    case True
    with 2(2) b have "s' = s1" "\<not> in_exhausted s1"
      by (auto simp: Let_def inf_ready_def split: if_splits)
    with inf_bits_left [OF b] show ?thesis by simp
  next
    case False
    with 2(2) b have "inf_left s' < inf_left s1 \<and> \<not> in_exhausted s'"
      using 2(1) [OF b [symmetric] refl False] by (simp add: Let_def)
    with inf_bits_left_le [OF b] show ?thesis by auto
  qed
qed simp

lemma inf_decode_left: "inf_decode h s = (s', Inr sm) \<Longrightarrow> inf_left s' < inf_left s \<and> \<not> in_exhausted s'"
  unfolding inf_decode_def by (rule inf_decode_loop_left)

lemma inf_length_left: "inf_length ops code s = (s', Inr x) \<Longrightarrow> inf_left s' < inf_left s"
  by (auto simp: inf_length_def andthen_Inr Let_def split: if_splits prod.splits
      dest!: inf_decode_left on_sink_left inf_bits_left_le)

lemma inf_length_end: "inf_length ops code s = (s', Inr SymEnd) \<Longrightarrow> \<not> in_exhausted s'"
  by (auto simp: inf_length_def andthen_Inr Let_def split: if_splits prod.splits dest!: inf_decode_left)

lemma inf_distance_left: "inf_distance ops code s = (s', Inr x) \<Longrightarrow> inf_left s' < inf_left s"
  by (auto simp: inf_distance_def andthen_Inr Let_def split: if_splits prod.splits
      dest!: inf_decode_left inf_bits_left_le)

lemma code_lengths_left: "code_lengths code lengths index s = (s', Inr x) \<Longrightarrow> inf_left s' < inf_left s"
  by (auto simp: code_lengths_def andthen_Inr Let_def split: if_splits prod.splits
      dest!: inf_decode_left inf_bits_left_le)

end
