(* ===== verification/DeflateTokens.thy ===== *)
theory DeflateTokens
  imports EmbedHuffman LzWindow
begin

text \<open>
  The tokens of a compressed deflate block and their bits (RFC 1951, 3.2.5): the symbol and the
  extra bits of a length and of a distance, as the encoder of \<open>src/embed/encoder.rs\<close> computes
  them, and the tables of the decoder as their inverse.
\<close>

datatype token = TLit byte | TCopy nat nat

fun expand :: "byte list \<Rightarrow> token list \<Rightarrow> byte list" where
  "expand xs [] = xs"
| "expand xs (TLit b # ts) = expand (xs @ [b]) ts"
| "expand xs (TCopy len dist # ts) = expand (copy_bytes xs dist len) ts"

lemma length_expand: "length xs \<le> length (expand xs ts)"
proof (induction xs ts rule: expand.induct)
  case (2 xs b ts)
  then show ?case by simp
next
  case (3 xs len dist ts)
  then show ?case by simp
qed simp

lemma expand_append: "expand xs (ts @ us) = expand (expand xs ts) us"
  by (induction xs ts rule: expand.induct) simp_all

section \<open>Logarithms\<close>

text \<open>\<open>31 - value.leading_zeros()\<close>: the position of the highest bit.\<close>

fun log2 :: "nat \<Rightarrow> nat" where
  "log2 n = (if n < 2 then 0 else Suc (log2 (n div 2)))"

declare log2.simps [simp del]

lemma log2_bounds: "0 < n \<Longrightarrow> 2 ^ log2 n \<le> n \<and> n < 2 ^ Suc (log2 n)"
proof (induction n rule: log2.induct)
  case (1 n)
  show ?case
  proof (cases "n < 2")
    case True
    with 1(2) show ?thesis by (simp add: log2.simps [of n])
  next
    case False
    then have "2 ^ log2 (n div 2) \<le> n div 2 \<and> n div 2 < 2 ^ Suc (log2 (n div 2))" using 1(1) by simp
    with False show ?thesis by (subst (1 2) log2.simps) auto
  qed
qed

lemma log2_mono: "2 ^ k \<le> n \<Longrightarrow> k \<le> log2 n"
proof -
  assume k: "2 ^ k \<le> n"
  then have "0 < n" by (metis gr0I le_zero_eq power_not_zero zero_neq_numeral)
  with log2_bounds have "n < 2 ^ Suc (log2 n)" by blast
  with k have "(2::nat) ^ k < 2 ^ Suc (log2 n)" by linarith
  then have "k < Suc (log2 n)" by (rule power_less_imp_less_exp [rotated]) simp
  then show ?thesis by simp
qed

lemma log2_less: "n < 2 ^ Suc k \<Longrightarrow> log2 n \<le> k"
proof (cases "n = 0")
  case False
  assume "n < 2 ^ Suc k"
  with log2_bounds [of n] False have "(2::nat) ^ log2 n < 2 ^ Suc k" by linarith
  then have "log2 n < Suc k" by (rule power_less_imp_less_exp [rotated]) simp
  then show ?thesis by simp
qed (simp add: log2.simps)

lemma log2_quotient:
  assumes "0 < n" and "e + j = log2 n"
  shows "2 ^ j \<le> n div 2 ^ e \<and> n div 2 ^ e < 2 ^ Suc j"
proof -
  have "2 ^ j * 2 ^ e \<le> n" "n < 2 ^ Suc j * 2 ^ e"
    using log2_bounds [OF assms(1)] unfolding assms(2) [symmetric] power_Suc power_add
    by (simp_all add: ac_simps)
  then show ?thesis by (simp add: less_eq_div_iff_mult_less_eq div_less_iff_less_mult)
qed

section \<open>Symbols and extra bits\<close>

text \<open>Symbol less 257, count and value of the extra bits.\<close>

definition len_code :: "nat \<Rightarrow> nat \<times> nat \<times> nat" where
  "len_code len =
     (let l = len - 3;
          (sm, extra) = (if l \<le> 7 then (l, 0)
            else if l = 255 then (28, 0)
            else let extra = log2 l - 2 in (4 * extra + 4 + (l div 2 ^ extra) mod 4, extra))
      in (sm, extra, l mod 2 ^ extra))"

definition dist_code :: "nat \<Rightarrow> nat \<times> nat \<times> nat" where
  "dist_code dist =
     (let d = dist - 1;
          (sm, extra) = (if d \<le> 3 then (d, 0)
            else let extra = log2 d - 1 in (2 * extra + 2 + (d div 2 ^ extra) mod 2, extra))
      in (sm, extra, d mod 2 ^ extra))"

lemma len_code_spec:
  assumes "len_code len = (sm, extra, v)" and "3 \<le> len" and "len \<le> 258"
  shows "(sm \<le> 3 \<and> extra = 0 \<and> len = sm + 3)
    \<or> (sm = 28 \<and> extra = 0 \<and> len = 258)
    \<or> (4 \<le> sm \<and> sm \<le> 27 \<and> extra = (sm - 4) div 4 \<and> extra \<le> 5 \<and> len = (4 + sm mod 4) * 2 ^ extra + 3 + v \<and> v < 2 ^ extra)"
proof -
  let ?l = "len - 3"
  consider "?l \<le> 7" | "?l = 255" | "8 \<le> ?l" "?l < 255" using assms(3) by linarith
  then show ?thesis
  proof cases
    case 1
    with assms(1) have sm: "sm = ?l" "extra = 0" "v = 0" by (auto simp: len_code_def Let_def)
    show ?thesis
    proof (cases "?l \<le> 3")
      case True
      with sm assms(2) show ?thesis by simp
    next
      case False
      have "sm mod 4 = sm - 4" "(sm - 4) div 4 = 0" "4 \<le> sm" "sm \<le> 27"
        using False 1 sm(1) le_mod_geq [of 4 sm] mod_less [of "sm - 4" 4] div_less [of "sm - 4" 4] by linarith+
      moreover have "len = (4 + (sm - 4)) * 2 ^ 0 + 3 + 0" using sm(1) False assms(2) by simp
      ultimately show ?thesis using sm(2,3) by simp
    qed
  next
    case 3
    let ?k = "log2 ?l" and ?q = "?l div 2 ^ (log2 ?l - 2)"
    have k: "3 \<le> ?k" "?k \<le> 7" using 3 log2_mono [of 3 ?l] log2_less [of ?l 7] by simp_all
    have q: "4 \<le> ?q" "?q < 8" using log2_quotient [of ?l "?k - 2" 2] k 3 by simp_all
    have e: "extra = ?k - 2" "sm = 4 * extra + 4 + ?q mod 4" "v = ?l mod 2 ^ extra"
      using assms(1) 3 by (auto simp: len_code_def Let_def)
    have m: "?q mod 4 = ?q - 4" using q le_mod_geq [of 4 ?q] mod_less [of "?q - 4" 4] by linarith
    have l: "?l = ?q * 2 ^ extra + v" unfolding e(1,3) by (simp only: div_mult_mod_eq)
    define r where "r = ?q - 4"
    have r4: "r < 4" unfolding r_def using q by linarith
    have sm: "sm = 4 * extra + 4 + r" unfolding r_def using e(2) m by linarith
    have "sm = 4 * (extra + 1) + r" unfolding sm by simp
    then have "sm mod 4 = r" using r4 by (simp only: mod_mult_self4 mod_less)
    moreover have "(sm - 4) div 4 = extra" "4 \<le> sm" using sm r4 by simp_all
    moreover have "sm \<le> 27" using sm r4 e(1) k by linarith
    moreover have "v < 2 ^ extra" by (simp add: e(3))
    moreover have "extra \<le> 5" using e(1) k by linarith
    moreover have "4 + r = ?q" unfolding r_def using q by linarith
    with l have "?l = (4 + r) * 2 ^ extra + v" by (simp only:)
    then have "len = (4 + r) * 2 ^ extra + 3 + v" using assms(2) by linarith
    ultimately show ?thesis by simp
  qed (use assms in \<open>auto simp: len_code_def Let_def\<close>)
qed

lemma dist_code_spec:
  assumes "dist_code dist = (sm, extra, v)" and "1 \<le> dist" and "dist \<le> 32768"
  shows "(sm \<le> 1 \<and> extra = 0 \<and> dist = sm + 1)
    \<or> (2 \<le> sm \<and> sm \<le> 29 \<and> extra = (sm - 2) div 2 \<and> extra \<le> 13 \<and> dist = (2 + sm mod 2) * 2 ^ extra + 1 + v \<and> v < 2 ^ extra)"
proof -
  let ?d = "dist - 1"
  show ?thesis
  proof (cases "?d \<le> 3")
    case True
    then consider "?d = 0" | "?d = 1" | "?d = 2" | "?d = 3" by linarith
    then show ?thesis using assms by cases (auto simp: dist_code_def Let_def)
  next
    case False
    let ?k = "log2 ?d" and ?q = "?d div 2 ^ (log2 ?d - 1)"
    have k: "2 \<le> ?k" "?k \<le> 14" using False assms(3) log2_mono [of 2 ?d] log2_less [of ?d 14] by simp_all
    have q: "2 \<le> ?q" "?q < 4" using log2_quotient [of ?d "?k - 1" 1] k False by simp_all
    have e: "extra = ?k - 1" "sm = 2 * extra + 2 + ?q mod 2" "v = ?d mod 2 ^ extra"
      using assms(1) False by (auto simp: dist_code_def Let_def)
    have m: "?q mod 2 = ?q - 2" using q le_mod_geq [of 2 ?q] mod_less [of "?q - 2" 2] by linarith
    have l: "?d = ?q * 2 ^ extra + v" unfolding e(1,3) by (simp only: div_mult_mod_eq)
    define r where "r = ?q - 2"
    have r4: "r < 2" unfolding r_def using q by linarith
    have sm: "sm = 2 * extra + 2 + r" unfolding r_def using e(2) m by linarith
    have "sm = 2 * (extra + 1) + r" unfolding sm by simp
    then have "sm mod 2 = r" using r4 by (simp only: mod_mult_self4 mod_less)
    moreover have "(sm - 2) div 2 = extra" "2 \<le> sm" using sm r4 by simp_all
    moreover have "sm \<le> 29" using sm r4 e(1) k by linarith
    moreover have "v < 2 ^ extra" by (simp add: e(3))
    moreover have "extra \<le> 13" using e(1) k by linarith
    moreover have "2 + r = ?q" unfolding r_def using q by linarith
    with l have "?d = (2 + r) * 2 ^ extra + v" by (simp only:)
    then have "dist = (2 + r) * 2 ^ extra + 1 + v" using assms(2) by linarith
    ultimately show ?thesis by simp
  qed
qed

section \<open>Bits\<close>

definition nat_bits :: "nat \<Rightarrow> nat \<Rightarrow> bool list" where
  "nat_bits n v = map (\<lambda>i. odd (v div 2 ^ i)) [0..<n]"

lemma length_nat_bits [simp]: "length (nat_bits n v) = n"
  by (simp add: nat_bits_def)

lemma nat_bits_0 [simp]: "nat_bits 0 v = []"
  by (simp add: nat_bits_def)

lemma lsb_value_nat_bits: "lsb_value (nat_bits n v) = v mod 2 ^ n"
proof (induction n)
  case (Suc n)
  have "v mod 2 ^ Suc n = v mod 2 ^ n + 2 ^ n * (v div 2 ^ n mod 2)"
    by (simp add: mod_mult2_eq mult.commute [of 2])
  with Suc show ?case by (simp add: nat_bits_def lsb_value_append odd_iff_mod_2_eq_one)
qed simp

lemma lsb_bits_nat: "n \<le> LENGTH('a) \<Longrightarrow> lsb_bits n (word_of_nat v :: 'a::len word) = nat_bits n v"
  by (rule nth_equalityI) (simp_all add: nat_bits_def nth_lsb_bits bit_of_nat_iff bit_iff_odd [of v])

definition coded :: "nat list \<Rightarrow> nat \<Rightarrow> bool" where
  "coded lengths sm \<longleftrightarrow> sm < length lengths \<and> lengths ! sm \<noteq> 0 \<and> lengths ! sm \<le> 15"

fun token_bits :: "nat list \<Rightarrow> nat list \<Rightarrow> token \<Rightarrow> bool list" where
  "token_bits ll dl (TLit b) = huff_code ll (unat b)"
| "token_bits ll dl (TCopy len dist) =
     (case len_code len of (ls, le, lv) \<Rightarrow>
      case dist_code dist of (ds, de, dv) \<Rightarrow>
        huff_code ll (257 + ls) @ nat_bits le lv @ huff_code dl ds @ nat_bits de dv)"

text \<open>The tokens have codes, and their copies lie within the history \<open>xs\<close> and what is produced.\<close>

fun tokens_ok :: "nat list \<Rightarrow> nat list \<Rightarrow> byte list \<Rightarrow> token list \<Rightarrow> bool" where
  "tokens_ok ll dl xs [] \<longleftrightarrow> True"
| "tokens_ok ll dl xs (TLit b # ts) \<longleftrightarrow> coded ll (unat b) \<and> tokens_ok ll dl (xs @ [b]) ts"
| "tokens_ok ll dl xs (TCopy len dist # ts) \<longleftrightarrow>
     coded ll (257 + fst (len_code len)) \<and> coded dl (fst (dist_code dist))
     \<and> 3 \<le> len \<and> len \<le> 258 \<and> 1 \<le> dist \<and> dist \<le> 32768 \<and> dist \<le> length xs
     \<and> tokens_ok ll dl (copy_bytes xs dist len) ts"

end
