(* ===== verification/EmbedOut.thy ===== *)
theory EmbedOut
  imports EmbedInflate DeflateTokens
begin

text \<open>
  The bit writer of the embedded encoder (\<open>Out\<close> of \<open>src/embed/encoder.rs\<close>): the bytes written to
  the caller's slice and up to 31 buffered bits.  The writer stands for the bit string
  \<open>ew_bits\<close>, which every successful write extends; the fixed Huffman symbols it writes are the
  canonical codewords of the fixed code lengths.
\<close>

record ewriter =
  ew_room :: nat
  ew_out :: "byte list"
  ew_bit_buf :: u32
  ew_bit_cnt :: nat

function ew_flush :: "ewriter \<Rightarrow> ewriter" where
  "ew_flush w =
     (if 8 \<le> ew_bit_cnt w \<and> length (ew_out w) < ew_room w then
        ew_flush (w\<lparr>ew_out := ew_out w @ [ucast (ew_bit_buf w)], ew_bit_buf := drop_bit 8 (ew_bit_buf w),
                    ew_bit_cnt := ew_bit_cnt w - 8\<rparr>)
      else w)"
  by pat_completeness auto
termination by (relation "measure ew_bit_cnt") auto

declare ew_flush.simps [simp del]

definition ew_ready :: "nat \<Rightarrow> ewriter \<Rightarrow> ewriter \<times> bool" where
  "ew_ready count w =
     (let w1 = ew_flush w; room = min (ew_room w1 - length (ew_out w1)) 4
      in (w1, ew_bit_cnt w1 + count < 32 + 8 * room))"

definition ew_put :: "u32 \<Rightarrow> nat \<Rightarrow> ewriter \<Rightarrow> ewriter \<times> (error + unit)" where
  "ew_put v count w =
     (let w1 = ew_flush w in
      if 32 \<le> ew_bit_cnt w1 + count then (w1, Inl OutputTooSmall)
      else (w1\<lparr>ew_bit_buf := ew_bit_buf w1 OR push_bit (ew_bit_cnt w1) v, ew_bit_cnt := ew_bit_cnt w1 + count\<rparr>,
            Inr ()))"

definition reverse_bits :: "u32 \<Rightarrow> u32" where
  "reverse_bits w = horner_sum of_bool 2 (rev (map (bit w) [0..<32]))"

definition ew_symbol :: "nat \<Rightarrow> ewriter \<Rightarrow> ewriter \<times> (error + unit)" where
  "ew_symbol sm w =
     (case (if sm \<le> 143 then (0x30 + sm, 8)
            else if sm \<le> 255 then (sm - 144 + 0x190, 9)
            else if 256 \<le> sm \<and> sm \<le> 279 then (sm - 256, 7)
            else (sm - 280 + 0xc0, 8)) of
        (code, len) \<Rightarrow> ew_put (drop_bit (32 - len) (reverse_bits (word_of_nat code))) len w)"

definition ew_copy :: "nat \<Rightarrow> nat \<Rightarrow> ewriter \<Rightarrow> ewriter \<times> (error + unit)" where
  "ew_copy len dist w =
     (case len_code len of (ls, le, lv) \<Rightarrow>
      case dist_code dist of (ds, de, dv) \<Rightarrow>
        andthen (ew_symbol (257 + ls) w) (\<lambda>w1 _.
        andthen (ew_put (word_of_nat lv) le w1) (\<lambda>w2 _.
        andthen (ew_put (drop_bit 27 (reverse_bits (word_of_nat ds))) 5 w2) (\<lambda>w3 _.
        ew_put (word_of_nat dv) de w3))))"

section \<open>The bits written\<close>

definition ew_bits :: "ewriter \<Rightarrow> bool list" where
  "ew_bits w = stream_bits (ew_out w) @ lsb_bits (ew_bit_cnt w) (ew_bit_buf w)"

definition ew_ok :: "ewriter \<Rightarrow> bool" where
  "ew_ok w \<longleftrightarrow> ew_bit_cnt w < 32 \<and> (\<forall>i \<ge> ew_bit_cnt w. \<not> bit (ew_bit_buf w) i) \<and> length (ew_out w) \<le> ew_room w"

lemma ew_flush_spec:
  assumes "ew_ok w"
  shows "ew_ok (ew_flush w) \<and> ew_bits (ew_flush w) = ew_bits w \<and> ew_room (ew_flush w) = ew_room w
    \<and> (ew_bit_cnt (ew_flush w) < 8 \<or> length (ew_out (ew_flush w)) = ew_room w)
    \<and> (\<exists>ys. ew_out (ew_flush w) = ew_out w @ ys)"
  using assms
proof (induction w rule: ew_flush.induct)
  case (1 w)
  show ?case
  proof (cases "8 \<le> ew_bit_cnt w \<and> length (ew_out w) < ew_room w")
    case True
    let ?w = "w\<lparr>ew_out := ew_out w @ [ucast (ew_bit_buf w)], ew_bit_buf := drop_bit 8 (ew_bit_buf w),
      ew_bit_cnt := ew_bit_cnt w - 8\<rparr>"
    have ok: "ew_ok ?w" using 1(2) True by (auto simp: ew_ok_def bit_drop_bit_eq)
    have "lsb_bits (ew_bit_cnt w) (ew_bit_buf w) = lsb_bits 8 (ew_bit_buf w) @ lsb_bits (ew_bit_cnt w - 8) (drop_bit 8 (ew_bit_buf w))"
      using lsb_bits_add [of 8 "ew_bit_cnt w - 8" "ew_bit_buf w"] True by simp
    moreover have "lsb_bits 8 (ucast (ew_bit_buf w) :: byte) = lsb_bits 8 (ew_bit_buf w)" by (rule lsb_bits_ucast) simp
    ultimately have bits: "ew_bits ?w = ew_bits w" by (simp add: ew_bits_def)
    have step: "ew_flush w = ew_flush ?w" using True by (subst ew_flush.simps) simp
    from 1(1) [OF True ok] obtain ys where
      "ew_ok (ew_flush ?w)" "ew_bits (ew_flush ?w) = ew_bits ?w" "ew_room (ew_flush ?w) = ew_room ?w"
      "ew_bit_cnt (ew_flush ?w) < 8 \<or> length (ew_out (ew_flush ?w)) = ew_room ?w" "ew_out (ew_flush ?w) = ew_out ?w @ ys"
      by blast
    with bits show ?thesis unfolding step by simp
  next
    case False
    then have "ew_flush w = w" by (subst ew_flush.simps) auto
    with False 1(2) show ?thesis by (auto simp: ew_ok_def)
  qed
qed

text \<open>A write succeeds unless the slice is full and the buffer too; then it has no effect.\<close>

definition ew_full :: "nat \<Rightarrow> ewriter \<Rightarrow> bool" where
  "ew_full count w \<longleftrightarrow> 8 * ew_room w + 32 \<le> length (ew_bits w) + count"

lemma ew_put_spec:
  assumes "ew_ok w" and "count \<le> 16" and "\<And>i. count \<le> i \<Longrightarrow> \<not> bit v i"
  shows "if ew_full count w then \<exists>w'. ew_put v count w = (w', Inl OutputTooSmall)
    else \<exists>w'. ew_put v count w = (w', Inr ()) \<and> ew_ok w' \<and> ew_bits w' = ew_bits w @ lsb_bits count v \<and> ew_room w' = ew_room w"
proof -
  let ?w = "ew_flush w"
  have f: "ew_ok ?w" "ew_bits ?w = ew_bits w" "ew_room ?w = ew_room w"
    "ew_bit_cnt ?w < 8 \<or> length (ew_out ?w) = ew_room w"
    using ew_flush_spec [OF assms(1)] by blast+
  have len: "length (ew_bits w) = 8 * length (ew_out ?w) + ew_bit_cnt ?w"
    unfolding f(2) [symmetric] by (simp add: ew_bits_def)
  have out: "length (ew_out ?w) \<le> ew_room w" using f(1,3) by (simp add: ew_ok_def)
  have iff: "ew_full count w \<longleftrightarrow> 32 \<le> ew_bit_cnt ?w + count"
    using len out f(4) assms(2) by (auto simp: ew_full_def)
  show ?thesis
  proof (cases "ew_full count w")
    case True
    with iff show ?thesis by (simp add: ew_put_def Let_def)
  next
    case False
    with iff have c: "ew_bit_cnt ?w + count < 32" by simp
    let ?w' = "?w\<lparr>ew_bit_buf := ew_bit_buf ?w OR push_bit (ew_bit_cnt ?w) v, ew_bit_cnt := ew_bit_cnt ?w + count\<rparr>"
    have clear: "\<not> bit (ew_bit_buf ?w) i" if "ew_bit_cnt ?w \<le> i" for i using f(1) that by (simp add: ew_ok_def)
    have "ew_ok ?w'" using f(1) c assms(3) by (auto simp: ew_ok_def bit_or_iff bit_push_bit_iff)
    moreover have "ew_bits ?w' = ew_bits w @ lsb_bits count v"
      unfolding f(2) [symmetric] using lsb_bits_push_or [of "ew_bit_cnt ?w" "ew_bit_buf ?w" count v] clear c
      by (simp add: ew_bits_def)
    moreover have "ew_put v count w = (?w', Inr ())" using c by (simp add: ew_put_def Let_def)
    ultimately show ?thesis using False f(3) by auto
  qed
qed

text \<open>\<open>ready\<close>: the writes of so many bits cannot fail.\<close>

lemma ew_ready_spec:
  assumes "ew_ok w" and "ew_ready count w = (w', r)" and "count \<le> 31"
  shows "ew_ok w'" and "ew_bits w' = ew_bits w" and "ew_room w' = ew_room w"
    and "r \<Longrightarrow> length (ew_bits w) + count < 8 * ew_room w + 32"
    and "\<not> r \<Longrightarrow> length (ew_out w') = ew_room w"
    and "\<exists>ys. ew_out w' = ew_out w @ ys"
proof -
  have f: "ew_ok w'" "ew_bits w' = ew_bits w" "ew_room w' = ew_room w"
    "ew_bit_cnt w' < 8 \<or> length (ew_out w') = ew_room w" "\<exists>ys. ew_out w' = ew_out w @ ys"
    using ew_flush_spec [OF assms(1)] assms(2) by (auto simp: ew_ready_def Let_def)
  have r: "r \<longleftrightarrow> ew_bit_cnt w' + count < 32 + 8 * min (ew_room w - length (ew_out w')) 4"
    using assms(2) f(3) by (auto simp: ew_ready_def Let_def)
  have len: "length (ew_bits w) = 8 * length (ew_out w') + ew_bit_cnt w'"
    unfolding f(2) [symmetric] by (simp add: ew_bits_def)
  have out: "length (ew_out w') \<le> ew_room w" using f(1,3) by (simp add: ew_ok_def)
  show "ew_ok w'" "ew_bits w' = ew_bits w" "ew_room w' = ew_room w" "\<exists>ys. ew_out w' = ew_out w @ ys"
    using f by blast+
  show "r \<Longrightarrow> length (ew_bits w) + count < 8 * ew_room w + 32" using r len out by (auto simp: min_def split: if_splits)
  show "\<not> r \<Longrightarrow> length (ew_out w') = ew_room w" using r f(4) out assms(3) by (auto simp: min_def split: if_splits)
qed

end
