(* ===== verification/EmbedChecksum.thy ===== *)
theory EmbedChecksum
  imports Crc32 Adler32
begin

text \<open>
  The small checksums of the embedded build (\<open>src/embed/checksum.rs\<close>): CRC-32 a nibble at a time
  from a 16-entry table, with the register stored complemented, and Adler-32 in chunks of 5552
  bytes with \<open>a\<close> stored one less than it is.  Both compute the reference checksums.
\<close>

section \<open>CRC-32\<close>

definition embed_crc_table :: "u32 list" where
  "embed_crc_table = map (\<lambda>i. (crc32_shift ^^ 4) (word_of_nat i)) [0..<16]"

definition embed_crc_nibble :: "u32 \<Rightarrow> u32" where
  "embed_crc_nibble c = embed_crc_table ! unat (c AND 0xF) XOR drop_bit 4 c"

definition embed_crc_byte :: "byte \<Rightarrow> u32 \<Rightarrow> u32" where
  "embed_crc_byte b c = embed_crc_nibble (embed_crc_nibble (c XOR ucast b))"

definition embed_crc_update :: "u32 \<Rightarrow> byte list \<Rightarrow> u32" where
  "embed_crc_update st data = NOT (fold embed_crc_byte data (NOT st))"

lemma crc32_shift_low:
  "(crc32_shift ^^ n) x = drop_bit n x XOR (crc32_shift ^^ n) (x AND mask n)"
proof -
  have "x = (x AND NOT (mask n)) XOR (x AND mask n)"
    by (intro bit_word_eqI) (auto simp: bit_and_iff bit_xor_iff bit_not_iff bit_mask_iff)
  then have "(crc32_shift ^^ n) x
      = (crc32_shift ^^ n) (x AND NOT (mask n)) XOR (crc32_shift ^^ n) (x AND mask n)"
    by (metis crc32_shifts_xor)
  also have "(crc32_shift ^^ n) (x AND NOT (mask n)) = drop_bit n (x AND NOT (mask n))"
    by (rule crc32_shifts_drop) (auto simp: bit_and_iff bit_not_iff bit_mask_iff dest: bit_imp_le_length)
  also have "\<dots> = drop_bit n x"
    by (intro bit_word_eqI)
      (auto simp: bit_drop_bit_eq bit_and_iff bit_not_iff bit_mask_iff dest: bit_imp_le_length)
  finally show ?thesis .
qed

lemma embed_crc_nibble_shifts: "embed_crc_nibble c = (crc32_shift ^^ 4) c"
proof -
  have mask: "c AND 0xF = c AND mask 4" by (simp add: mask_eq_exp_minus_1)
  have "unat (c AND mask 4) < 16"
    by (simp add: take_bit_eq_mask [symmetric] take_bit_eq_mod unat_mod)
  then have "embed_crc_table ! unat (c AND mask 4) = (crc32_shift ^^ 4) (c AND mask 4)"
    by (simp add: embed_crc_table_def)
  then show ?thesis
    using crc32_shift_low [of 4 c] by (simp only: embed_crc_nibble_def mask xor.commute)
qed

lemma embed_crc_byte_is_byte: "embed_crc_byte b c = crc32_byte b c"
proof -
  have "(crc32_shift ^^ 4) ((crc32_shift ^^ 4) y) = (crc32_shift ^^ 8) y" for y
    using crc32_shifts_add [of 4 4 y] by simp
  then show ?thesis by (simp only: embed_crc_byte_def embed_crc_nibble_shifts crc32_byte_def)
qed

lemma embed_crc_update_fold: "NOT (embed_crc_update st data) = fold crc32_byte data (NOT st)"
proof -
  have "embed_crc_byte = crc32_byte" by (intro ext embed_crc_byte_is_byte)
  then show ?thesis by (simp add: embed_crc_update_def)
qed

lemma embed_crc_append: "embed_crc_update (embed_crc_update st xs) ys = embed_crc_update st (xs @ ys)"
  using embed_crc_update_fold [of st xs] by (simp add: embed_crc_update_def)

lemma xor_ones: "x XOR (0xFFFFFFFF :: u32) = NOT x"
proof -
  have "(0xFFFFFFFF :: u32) = mask 32" by (simp add: mask_eq_exp_minus_1)
  moreover have "x XOR (mask 32 :: u32) = NOT x"
    by (rule bit_word_eqI) (auto simp: bit_xor_iff bit_not_iff bit_mask_iff)
  ultimately show ?thesis by (simp only:)
qed

lemma embed_crc_reference: "embed_crc_update 0 data = crc32_reference data"
proof -
  have "embed_crc_byte = crc32_byte" by (intro ext embed_crc_byte_is_byte)
  moreover have "NOT (0 :: u32) = 0xFFFFFFFF" by simp
  ultimately show ?thesis by (simp only: embed_crc_update_def crc32_reference_def xor_ones)
qed

section \<open>Adler-32\<close>

text \<open>The record keeps \<open>a\<close> less one; \<open>value\<close> adds it back.\<close>

definition embed_adler_new :: adler32 where
  "embed_adler_new = \<lparr>ad_a = 0, ad_b = 0\<rparr>"

definition embed_adler_value :: "adler32 \<Rightarrow> u32" where
  "embed_adler_value s = push_bit 16 (ad_b s) OR (ad_a s + 1)"

definition embed_adler_chunk :: "byte list \<Rightarrow> u32 \<times> u32 \<Rightarrow> u32 \<times> u32" where
  "embed_adler_chunk chunk ab =
     (case fold adler32_tail chunk ab of (a, b) \<Rightarrow> (a mod 65521, b mod 65521))"

definition embed_adler_update :: "adler32 \<Rightarrow> byte list \<Rightarrow> adler32" where
  "embed_adler_update s data =
     (case fold embed_adler_chunk (slice_chunks 5552 data) (ad_a s + 1, ad_b s) of
        (a, b) \<Rightarrow> \<lparr>ad_a = a - 1, ad_b = b\<rparr>)"

lemma adler_raw_bounds:
  "fold adler_raw xs (a, b) = (a', b') \<Longrightarrow>
   a' \<le> a + 255 * length xs \<and> 2 * b' \<le> 2 * b + 2 * length xs * a + 255 * (length xs * (length xs + 1))"
proof (induction xs arbitrary: a b)
  case (Cons x xs)
  let ?n = "length xs" and ?x = "unat x"
  have x: "?x \<le> 255" using unat_byte_less [of x] by linarith
  from Cons.prems have "fold adler_raw xs (adler_raw x (a, b)) = (a', b')" by simp
  then have "fold adler_raw xs (a + ?x, b + (a + ?x)) = (a', b')" by (simp only: adler_raw_def prod.case)
  from Cons.IH [OF this] have IH: "a' \<le> a + ?x + 255 * ?n"
    "2 * b' \<le> 2 * (b + (a + ?x)) + 2 * ?n * (a + ?x) + 255 * (?n * (?n + 1))" by simp_all
  have "2 * (?n + 1) * ?x \<le> 2 * (?n + 1) * 255" using x by (intro mult_le_mono2)
  with IH x show ?case by (simp add: algebra_simps)
qed simp

lemma embed_adler_chunk_nat:
  assumes "length chunk \<le> 5552" and "a < ADLER_MOD" and "b < ADLER_MOD"
  shows "embed_adler_chunk chunk (of_pair (a, b)) = of_pair (fold adler_step chunk (a, b))"
proof -
  obtain a' b' where raw: "fold adler_raw chunk (a, b) = (a', b')" by fastforce
  let ?n = "length chunk"
  have ab: "a \<le> 65520" "b \<le> 65520" using assms(2,3) by (simp_all add: ADLER_MOD_def)
  have n: "2 * ?n * a \<le> 2 * 5552 * 65520" "?n * (?n + 1) \<le> 5552 * 5553"
    using assms(1) ab by (intro mult_le_mono; simp)+
  have "255 * (?n * (?n + 1)) \<le> 255 * (5552 * 5553)" using n(2) by (rule mult_le_mono2)
  with adler_raw_bounds [OF raw] n(1) ab assms(1) have "a' \<le> 65520 + 255 * 5552"
    "2 * b' \<le> 2 * 65520 + 2 * 5552 * 65520 + 255 * (5552 * 5553)" by linarith+
  then have "a' < 2 ^ 32" "b' < 2 ^ 32" by simp_all
  then have "embed_adler_chunk chunk (of_pair (a, b)) = of_pair (adler_reduce (a', b'))"
    using adler32_tail_nat [of chunk "(a, b)"] raw word_mod_u32 [of a'] word_mod_u32 [of b']
    by (simp add: embed_adler_chunk_def adler_reduce_def ADLER_MOD_def)
  also have "adler_reduce (a', b') = fold adler_step chunk (a, b)"
    using adler_reference_raw [of chunk "(a, b)"] raw assms(2,3) by (simp add: adler_reduce_def)
  finally show ?thesis .
qed

lemma embed_adler_chunks_nat:
  assumes "\<And>c. c \<in> set chunks \<Longrightarrow> length c \<le> 5552" and "fst p < ADLER_MOD" and "snd p < ADLER_MOD"
  shows "fold embed_adler_chunk chunks (of_pair p) = of_pair (fold adler_step (concat chunks) p)"
  using assms
proof (induction chunks arbitrary: p)
  case (Cons c chunks)
  have "embed_adler_chunk c (of_pair (fst p, snd p)) = of_pair (fold adler_step c (fst p, snd p))"
    by (rule embed_adler_chunk_nat) (use Cons.prems in simp_all)
  with Cons.IH [of "fold adler_step c p"] adler_step_less [of p c] Cons.prems show ?case by simp
qed simp

text \<open>The state after any updates: the sums of the reference, \<open>a\<close> less one.\<close>

definition embed_adler_of :: "byte list \<Rightarrow> adler32" where
  "embed_adler_of data = (case of_pair (fold adler_step data (1, 0)) of (a, b) \<Rightarrow> \<lparr>ad_a = a - 1, ad_b = b\<rparr>)"

lemma embed_adler_update_of: "embed_adler_update (embed_adler_of xs) ys = embed_adler_of (xs @ ys)"
proof -
  let ?p = "fold adler_step xs (1, 0)"
  have p: "fst ?p < ADLER_MOD" "snd ?p < ADLER_MOD"
    using adler_step_less [of "(1, 0)" xs] by (simp_all add: ADLER_MOD_def)
  have "fold embed_adler_chunk (slice_chunks 5552 ys) (of_pair ?p) = of_pair (fold adler_step ys ?p)"
    using embed_adler_chunks_nat [OF _ p, of "slice_chunks 5552 ys"] slice_chunks_lengths [of _ 5552 ys]
    by (simp add: slice_chunks_concat)
  then show ?thesis
    by (simp add: embed_adler_update_def embed_adler_of_def split_beta)
qed

lemma embed_adler_new_of: "embed_adler_new = embed_adler_of []"
  by (simp add: embed_adler_new_def embed_adler_of_def)

lemma embed_adler_value_of: "unat (embed_adler_value (embed_adler_of data)) = adler32_reference data"
proof -
  let ?p = "fold adler_step data (1, 0)"
  have p: "fst ?p < ADLER_MOD" "snd ?p < ADLER_MOD"
    using adler_step_less [of "(1, 0)" data] by (simp_all add: ADLER_MOD_def)
  then have u: "unat (word_of_nat (fst ?p) :: u32) = fst ?p" "unat (word_of_nat (snd ?p) :: u32) = snd ?p"
    by (simp_all add: unat_of_nat ADLER_MOD_def)
  let ?s = "\<lparr>ad_a = word_of_nat (fst ?p), ad_b = word_of_nat (snd ?p)\<rparr>"
  have "adler32_ok ?s" using p u by (simp add: adler32_ok_def)
  from adler32_finalize_nat [OF this] u show ?thesis
    by (simp add: embed_adler_value_def embed_adler_of_def adler32_finalize_def adler32_reference_def split_beta)
qed

section \<open>Properties\<close>

text \<open>C11. The embedded checksums compute the reference CRC-32 and Adler-32, however the data is cut
  into updates.\<close>

theorem embed_checksums_are_reference:
  "embed_crc_update (embed_crc_update 0 xs) ys = crc32_reference (xs @ ys)
   \<and> unat (embed_adler_value (embed_adler_update (embed_adler_update embed_adler_new xs) ys))
     = adler32_reference (xs @ ys)"
  by (simp only: embed_crc_append embed_crc_reference [of "xs @ ys"] embed_adler_new_of embed_adler_update_of
      embed_adler_value_of append_Nil simp_thms)

end
