(* ===== verification/EmbedFormat.thy ===== *)
theory EmbedFormat
  imports EmbedChecksum LeBytes LsbBits
begin

text \<open>
  The containers around a deflate stream (\<open>src/embed/format.rs\<close>): the trait \<open>Format\<close> as a record
  of its constants and methods, and its three implementations.  The locale \<open>container\<close> says what a
  container's trailer is: a function of the data, however it was cut into updates.
\<close>

record 'f format_ops =
  fm_header :: "byte list"
  fm_trailer :: nat
  fm_gzip :: bool
  fm_init :: 'f
  fm_update :: "'f \<Rightarrow> byte list \<Rightarrow> 'f"
  fm_words :: "'f \<Rightarrow> u32 \<Rightarrow> u32 list"

definition swap_bytes :: "u32 \<Rightarrow> u32" where
  "swap_bytes w = le_word (rev (le_bytes 4 w))"

definition raw_format :: "unit format_ops" where
  "raw_format =
     \<lparr>fm_header = [], fm_trailer = 0, fm_gzip = False, fm_init = (),
      fm_update = (\<lambda>f data. f), fm_words = (\<lambda>f n. [0, 0])\<rparr>"

definition zlib_format :: "adler32 format_ops" where
  "zlib_format =
     \<lparr>fm_header = [0x78, 0x01], fm_trailer = 1, fm_gzip = False, fm_init = embed_adler_new,
      fm_update = embed_adler_update, fm_words = (\<lambda>f n. [swap_bytes (embed_adler_value f), 0])\<rparr>"

definition gzip_format :: "u32 format_ops" where
  "gzip_format =
     \<lparr>fm_header = [0x1f, 0x8b, 8, 0, 0, 0, 0, 0, 0, 0xff], fm_trailer = 2, fm_gzip = True, fm_init = 0,
      fm_update = embed_crc_update, fm_words = (\<lambda>f n. [f, n])\<rparr>"

text \<open>\<open>fed f data\<close>: the container has been fed \<open>data\<close>.\<close>

locale container =
  fixes fmt :: "'f format_ops" and fed :: "byte list \<Rightarrow> 'f"
  assumes fed_init: "fed [] = fm_init fmt"
    and fed_update: "fm_update fmt (fed xs) ys = fed (xs @ ys)"
    and trailer_words: "length (fm_words fmt f n) = 2"
    and check_size: "fm_words fmt f n ! 0 = fm_words fmt f n' ! 0"
    and trailer_le: "fm_trailer fmt \<le> 2"
begin

lemma fed_fresh: "fm_update fmt (fm_init fmt) xs = fed xs"
  using fed_update [of "[]" xs] by (simp add: fed_init)

text \<open>The trailer the encoder writes after \<open>data\<close>: two halves of each word.\<close>

definition trailer_bits :: "byte list \<Rightarrow> bool list" where
  "trailer_bits data =
     concat (map (lsb_bits 32) (take (fm_trailer fmt) (fm_words fmt (fed data) (word_of_nat (length data)))))"

end

interpretation raw_ct: container raw_format "\<lambda>_. ()"
  by unfold_locales (simp_all add: raw_format_def)

interpretation zlib_ct: container zlib_format embed_adler_of
  by unfold_locales (simp_all add: zlib_format_def embed_adler_new_of embed_adler_update_of)

interpretation gzip_ct: container gzip_format "embed_crc_update 0"
  by unfold_locales (simp_all add: gzip_format_def embed_crc_append, simp add: embed_crc_update_def)

end
