(* ===== verification/EmbedOneshot.thy ===== *)
theory EmbedOneshot
  imports EmbedInflate EmbedFormat LzWindow
begin

text \<open>
  The one-shot embedded decoder (\<open>src/embed/oneshot.rs\<close>): the steps of \<open>EmbedInflate\<close> run back to
  back over a whole stream, into a slice or a counter, in any of the three containers.  The loops
  that only the zeros past the end of the input bring to an end are \<open>partial_function\<close>s.
\<close>

text \<open>The trait \<open>Output\<close>.\<close>

record 'o output_ops = "'o out_ops" +
  op_verify :: bool
  op_written :: "'o \<Rightarrow> nat"
  op_data :: "'o \<Rightarrow> nat \<Rightarrow> byte list"
  op_copy :: "'o \<Rightarrow> nat \<Rightarrow> nat \<Rightarrow> 'o \<times> (error + unit)"

section \<open>The outputs\<close>

record buffer =
  bf_buf :: "byte list"
  bf_pos :: nat

definition buffer_put :: "buffer \<Rightarrow> byte \<Rightarrow> buffer \<times> (error + unit)" where
  "buffer_put o1 b =
     (if bf_pos o1 < length (bf_buf o1)
      then (o1\<lparr>bf_buf := (bf_buf o1)[bf_pos o1 := b], bf_pos := bf_pos o1 + 1\<rparr>, Inr ())
      else (o1, Inl OutputTooSmall))"

definition buffer_copy :: "buffer \<Rightarrow> nat \<Rightarrow> nat \<Rightarrow> buffer \<times> (error + unit)" where
  "buffer_copy o1 dist len =
     (if bf_pos o1 < dist then (o1, Inl InvalidDistance)
      else
        let start = bf_pos o1 - dist; stop = bf_pos o1 + len in
        if length (bf_buf o1) < stop then (o1, Inl OutputTooSmall)
        else
          (o1\<lparr>bf_buf := fold (\<lambda>i buf. buf[start + i := buf ! (start + i - dist)]) [dist..<stop - start] (bf_buf o1),
              bf_pos := stop\<rparr>, Inr ()))"

definition buffer_data :: "buffer \<Rightarrow> nat \<Rightarrow> byte list" where
  "buffer_data o1 start =
     (if start \<le> bf_pos o1 \<and> bf_pos o1 \<le> length (bf_buf o1)
      then take (bf_pos o1 - start) (drop start (bf_buf o1)) else [])"

definition buffer_ops :: "buffer output_ops" where
  "buffer_ops =
     \<lparr>out_put = buffer_put, out_check_dist = (\<lambda>o1 dist. Inr ()), op_verify = True,
      op_written = bf_pos, op_data = buffer_data, op_copy = buffer_copy\<rparr>"

record counter =
  ct_count :: nat
  ct_max :: nat

definition counter_copy :: "counter \<Rightarrow> nat \<Rightarrow> nat \<Rightarrow> counter \<times> (error + unit)" where
  "counter_copy o1 dist len =
     (if ct_count o1 < dist then (o1, Inl InvalidDistance)
      else if ct_max o1 - ct_count o1 < len then (o1, Inl OutputLimitExceeded)
      else (o1\<lparr>ct_count := ct_count o1 + len\<rparr>, Inr ()))"

definition counter_ops :: "counter output_ops" where
  "counter_ops =
     \<lparr>out_put = (\<lambda>o1 b. counter_copy o1 0 1), out_check_dist = (\<lambda>o1 dist. Inr ()), op_verify = False,
      op_written = ct_count, op_data = (\<lambda>o1 start. []), op_copy = counter_copy\<rparr>"

section \<open>Blocks\<close>

fun stored_bytes :: "'o output_ops \<Rightarrow> nat \<Rightarrow> 'o inflate \<Rightarrow> ('o, unit) inf_result" where
  "stored_bytes ops 0 s = (s, Inr ())"
| "stored_bytes ops (Suc n) s = andthen (stored_byte ops s) (\<lambda>s1 _. stored_bytes ops n s1)"

function compressed_loop :: "'o output_ops \<Rightarrow> huffman \<Rightarrow> huffman \<Rightarrow> 'o inflate \<Rightarrow> ('o, unit) inf_result" where
  "compressed_loop ops len_code dist_code s =
     andthen (inf_length ops len_code s) (\<lambda>s1 sm.
       case sm of
         SymLiteral \<Rightarrow> compressed_loop ops len_code dist_code s1
       | SymEnd \<Rightarrow> (s1, Inr ())
       | SymMatch len \<Rightarrow>
           andthen (inf_distance ops dist_code s1) (\<lambda>s2 dist.
             andthen (on_sink (\<lambda>o1. op_copy ops o1 dist len) s2) (\<lambda>s3 _.
               compressed_loop ops len_code dist_code s3)))"
  by pat_completeness auto
termination
  by (relation "measure (\<lambda>(_, _, _, s). inf_left s)")
    (auto dest!: inf_length_left inf_distance_left on_sink_left)

declare compressed_loop.simps [simp del]

definition compressed :: "'o output_ops \<Rightarrow> nat list \<Rightarrow> nat \<Rightarrow> 'o inflate \<Rightarrow> ('o, unit) inf_result" where
  "compressed ops lengths len_syms s =
     (case build_codes lengths len_syms tables_new of
        (t, Inl e) \<Rightarrow> (s, Inl e)
      | (t, Inr _) \<Rightarrow> compressed_loop ops (tb_len t) (tb_dist t) s)"

fun read_order :: "nat list \<Rightarrow> nat list \<Rightarrow> 'o inflate \<Rightarrow> 'o inflate \<times> nat list" where
  "read_order [] lengths s = (s, lengths)"
| "read_order (sm # order) lengths s =
     (case inf_bits 3 s of (s1, v) \<Rightarrow> read_order order (lengths[sm mod 32 := unat v]) s1)"

function code_lengths_loop :: "huffman \<Rightarrow> nat list \<Rightarrow> nat \<Rightarrow> 'o inflate \<Rightarrow> ('o, nat list) inf_result" where
  "code_lengths_loop code lengths index s =
     (if index < length lengths then
        andthen (code_lengths code lengths index s) (\<lambda>s1 li.
          code_lengths_loop code (fst li) (snd li) s1)
      else (s, Inr lengths))"
  by pat_completeness auto
termination
  by (relation "measure (\<lambda>(_, _, _, s). inf_left s)") (auto dest: code_lengths_left)

declare code_lengths_loop.simps [simp del]

definition dynamic :: "'o output_ops \<Rightarrow> 'o inflate \<Rightarrow> ('o, unit) inf_result" where
  "dynamic ops s =
     andthen (dynamic_head s) (\<lambda>s1 (len_syms, dist_syms, code_syms).
       case read_order (take code_syms ORDER) (replicate MAX_SYMS 0) s1 of
         (s2, lengths) \<Rightarrow>
           let code = huff_build (take 19 lengths) (huffman_new (replicate (MAX_BITS + 1) 0) (replicate 19 0)) in
           if hf_left code \<noteq> 0 then (s2, Inl InvalidHuffmanTree)
           else if length lengths < len_syms + dist_syms then (s2, Inl Corrupt)
           else
             andthen (code_lengths_loop code (take (len_syms + dist_syms) lengths) 0 s2) (\<lambda>s3 ls.
               if 256 < length ls \<and> ls ! 256 = 0 then (s3, Inl InvalidHuffmanTree)
               else compressed ops ls len_syms s3))"

definition inf_block :: "'o output_ops \<Rightarrow> nat \<Rightarrow> 'o inflate \<Rightarrow> ('o, unit) inf_result" where
  "inf_block ops kind s =
     (if kind = 0 then andthen (stored_len s) (\<lambda>s1 len. stored_bytes ops (unat len) s1)
      else if kind = 1 then compressed ops fixed_lengths MAX_LEN_SYMS s
      else if kind = 2 then dynamic ops s
      else (s, Inl InvalidBlockType))"

partial_function (option) inf_blocks :: "'o output_ops \<Rightarrow> 'o inflate \<Rightarrow> ('o, unit) inf_result option" where
  "inf_blocks ops s =
     (case inf_bits 1 s of (s1, fin) \<Rightarrow>
      case inf_bits 2 s1 of (s2, kind) \<Rightarrow>
      case inf_block ops (unat kind) s2 of (s3, r) \<Rightarrow>
      case r of
        Inl e \<Rightarrow> Some (s3, Inl e)
      | Inr _ \<Rightarrow> if fin \<noteq> 0 then Some (inf_align s3, Inr ()) else inf_blocks ops s3)"

section \<open>Containers\<close>

definition FHCRC :: u16 where "FHCRC = push_bit 1 1"
definition FEXTRA :: u16 where "FEXTRA = push_bit 2 1"
definition FNAME :: u16 where "FNAME = push_bit 3 1"
definition FCOMMENT :: u16 where "FCOMMENT = push_bit 4 1"
definition GZ_RESERVED :: u16 where "GZ_RESERVED = 0xe0"
definition FDICT :: u16 where "FDICT = push_bit 5 1"

fun inf_skip :: "nat \<Rightarrow> 'o inflate \<Rightarrow> 'o inflate" where
  "inf_skip 0 s = s"
| "inf_skip (Suc n) s = inf_skip n (fst (inf_bits 8 s))"

partial_function (option) inf_skip_text :: "'o inflate \<Rightarrow> 'o inflate option" where
  "inf_skip_text s =
     (case inf_bits 8 s of (s1, v) \<Rightarrow> if v \<noteq> 0 then inf_skip_text s1 else Some s1)"

definition inf_verify :: "'f format_ops \<Rightarrow> 'o output_ops \<Rightarrow> 'o inflate \<Rightarrow> nat \<Rightarrow> u32 \<Rightarrow> error + unit" where
  "inf_verify fmt ops s start check =
     (if op_verify ops then
        let f = fm_update fmt (fm_init fmt) (op_data ops (in_sink s) start) in
        if check \<noteq> fm_words fmt f 0 ! 0 then Inl ChecksumMismatch else Inr ()
      else Inr ())"

text \<open>The header of a gzip member, up to its blocks.\<close>

definition gzip_fields :: "u16 \<Rightarrow> 'o inflate \<Rightarrow> 'o inflate option" where
  "gzip_fields flags s =
     (let s1 = inf_skip 6 s;
          s2 = (if flags AND FEXTRA \<noteq> 0 then (case inf_bits 16 s1 of (s', len) \<Rightarrow> inf_skip (unat len) s') else s1)
      in Option.bind (if flags AND FNAME \<noteq> 0 then inf_skip_text s2 else Some s2) (\<lambda>s3.
         Option.bind (if flags AND FCOMMENT \<noteq> 0 then inf_skip_text s3 else Some s3) (\<lambda>s4.
         Some (if flags AND FHCRC \<noteq> 0 then inf_skip 2 s4 else s4))))"

definition gzip_header :: "'o inflate \<Rightarrow> ('o, unit) inf_result option" where
  "gzip_header s =
     (case inf_bits 16 s of (s1, magic) \<Rightarrow>
      if magic \<noteq> 0x8b1f then Some (s1, Inl BadHeader)
      else
        case inf_bits 8 s1 of (s2, cm) \<Rightarrow>
        if cm \<noteq> 8 then Some (s2, Inl Unsupported)
        else
          case inf_bits 8 s2 of (s3, flags) \<Rightarrow>
          if flags AND GZ_RESERVED \<noteq> 0 then Some (s3, Inl Unsupported)
          else map_option (\<lambda>s4. (s4, Inr ())) (gzip_fields flags s3))"

definition gzip_trailer :: "'f format_ops \<Rightarrow> 'o output_ops \<Rightarrow> nat \<Rightarrow> 'o inflate \<Rightarrow> ('o, unit) inf_result" where
  "gzip_trailer fmt ops start s =
     (case inf_word s of (s1, check) \<Rightarrow>
      case inf_word s1 of (s2, isize) \<Rightarrow>
      andthen (s2, inf_verify fmt ops s2 start check) (\<lambda>s3 _.
        if isize \<noteq> word_of_nat (op_written ops (in_sink s3) - start) then (s3, Inl TrailerMismatch)
        else (s3, Inr ())))"

definition inf_member :: "'f format_ops \<Rightarrow> 'o output_ops \<Rightarrow> 'o inflate \<Rightarrow> ('o, unit) inf_result option" where
  "inf_member fmt ops s =
     Option.bind (gzip_header s) (\<lambda>(s1, r1).
       case r1 of
         Inl e \<Rightarrow> Some (s1, Inl e)
       | Inr _ \<Rightarrow>
           map_option (\<lambda>r2. andthen r2 (\<lambda>s2 _. gzip_trailer fmt ops (op_written ops (in_sink s)) s2))
             (inf_blocks ops s1))"

partial_function (option) inf_members ::
  "'f format_ops \<Rightarrow> 'o output_ops \<Rightarrow> 'o inflate \<Rightarrow> ('o, unit) inf_result option" where
  "inf_members fmt ops s =
     Option.bind (inf_member fmt ops s) (\<lambda>(s1, r1).
       case r1 of
         Inl e \<Rightarrow> Some (s1, Inl e)
       | Inr _ \<Rightarrow>
           if in_input s1 \<noteq> [] \<and> hd (in_input s1) = 0x1f then inf_members fmt ops s1
           else Some (s1, Inr ()))"

definition zlib_container :: "'f format_ops \<Rightarrow> 'o output_ops \<Rightarrow> 'o inflate \<Rightarrow> ('o, unit) inf_result option" where
  "zlib_container fmt ops s =
     (case inf_bits 8 s of (s1, cmf) \<Rightarrow>
      case inf_bits 8 s1 of (s2, flg) \<Rightarrow>
      if cmf AND 0x0f \<noteq> 8 then Some (s2, Inl Unsupported)
      else if (cmf * 256 + flg) mod 31 \<noteq> 0 then Some (s2, Inl BadHeader)
      else if flg AND FDICT \<noteq> 0 then Some (s2, Inl Unsupported)
      else
        map_option (\<lambda>r. andthen r (\<lambda>s3 _.
          case inf_word s3 of (s4, check) \<Rightarrow> (s4, inf_verify fmt ops s4 0 check)))
          (inf_blocks ops s2))"

definition inf_container :: "'f format_ops \<Rightarrow> 'o output_ops \<Rightarrow> 'o inflate \<Rightarrow> ('o, unit) inf_result option" where
  "inf_container fmt ops s =
     (if fm_gzip fmt then inf_members fmt ops s
      else if fm_trailer fmt = 0 then inf_blocks ops s
      else zlib_container fmt ops s)"

definition oneshot_decode ::
  "'f format_ops \<Rightarrow> 'o output_ops \<Rightarrow> byte list \<Rightarrow> 'o \<Rightarrow> ('o \<times> (error + nat)) option" where
  "oneshot_decode fmt ops input out =
     map_option (\<lambda>(s, r).
         (in_sink s,
          if in_exhausted s then Inl UnexpectedEnd
          else case r of Inl e \<Rightarrow> Inl e | Inr _ \<Rightarrow> Inr (op_written ops (in_sink s))))
       (inf_container fmt ops
          \<lparr>in_input = input, in_sink = out, in_bit_buf = 0, in_bit_cnt = 0, in_exhausted = False\<rparr>)"

text \<open>The public functions of the three modules: the slice and what was written to it.\<close>

definition embed_decompress :: "'f format_ops \<Rightarrow> byte list \<Rightarrow> byte list \<Rightarrow> (byte list \<times> (error + nat)) option" where
  "embed_decompress fmt input output =
     map_option (\<lambda>(o1, r). (bf_buf o1, r))
       (oneshot_decode fmt buffer_ops input \<lparr>bf_buf = output, bf_pos = 0\<rparr>)"

definition embed_decompressed_len :: "'f format_ops \<Rightarrow> byte list \<Rightarrow> nat \<Rightarrow> (error + nat) option" where
  "embed_decompressed_len fmt input max_len =
     map_option snd (oneshot_decode fmt counter_ops input \<lparr>ct_count = 0, ct_max = max_len\<rparr>)"

end
