(* ===== verification/EmbedDecode.thy ===== *)
theory EmbedDecode
  imports EmbedOneshot DeflateTokens
begin

text \<open>
  What the one-shot decoder does on a well-formed stream.  The locale \<open>output_sink\<close> is the
  contract of an output: it holds the bytes produced so far, up to its room.  Inside it, the
  steps are shown to read the tokens of a compressed block under any pair of Huffman codes.
\<close>

section \<open>Outputs\<close>

locale output_sink =
  fixes ops :: "'o output_ops" and holds :: "'o \<Rightarrow> byte list \<Rightarrow> bool"
    and room :: "'o \<Rightarrow> nat" and full :: error
  assumes put_fits: "holds o1 h \<Longrightarrow> length h < room o1 \<Longrightarrow>
      \<exists>o2. out_put ops o1 b = (o2, Inr ()) \<and> holds o2 (h @ [b]) \<and> room o2 = room o1"
    and put_full: "holds o1 h \<Longrightarrow> \<not> length h < room o1 \<Longrightarrow> out_put ops o1 b = (o1, Inl full)"
    and check_dist: "out_check_dist ops o1 d = Inr ()"
    and copy_fits: "holds o1 h \<Longrightarrow> 0 < d \<Longrightarrow> d \<le> length h \<Longrightarrow> length h + n \<le> room o1 \<Longrightarrow>
      \<exists>o2. op_copy ops o1 d n = (o2, Inr ()) \<and> holds o2 (copy_bytes h d n) \<and> room o2 = room o1"
    and copy_far: "holds o1 h \<Longrightarrow> length h < d \<Longrightarrow> op_copy ops o1 d n = (o1, Inl InvalidDistance)"
    and copy_full: "holds o1 h \<Longrightarrow> d \<le> length h \<Longrightarrow> room o1 < length h + n \<Longrightarrow>
      op_copy ops o1 d n = (o1, Inl full)"
    and written: "holds o1 h \<Longrightarrow> op_written ops o1 = length h"
    and data: "holds o1 h \<Longrightarrow> op_verify ops \<Longrightarrow> start \<le> length h \<Longrightarrow> op_data ops o1 start = drop start h"
    and within: "holds o1 h \<Longrightarrow> length h \<le> room o1"

definition buffer_holds :: "buffer \<Rightarrow> byte list \<Rightarrow> bool" where
  "buffer_holds o1 h \<longleftrightarrow> bf_pos o1 = length h \<and> length h \<le> length (bf_buf o1) \<and> take (length h) (bf_buf o1) = h"

definition counter_holds :: "counter \<Rightarrow> byte list \<Rightarrow> bool" where
  "counter_holds o1 h \<longleftrightarrow> ct_count o1 = length h \<and> length h \<le> ct_max o1"

lemma copy_bytes_last:
  "copy_bytes h d (Suc n) = copy_bytes h d n @ [copy_bytes h d n ! (length (copy_bytes h d n) - d)]"
  using copy_bytes_add [of h d n 1] by simp

text \<open>The byte-wise copy inside the slice is the byte-wise copy of the history.\<close>

lemma buffer_copy_loop:
  assumes "0 < d" and "d \<le> length h" and "length h + n \<le> length buf" and "take (length h) buf = h"
  shows "length (fold (\<lambda>i buf. buf[length h - d + i := buf ! (length h - d + i - d)]) [d..<d + n] buf) = length buf
    \<and> take (length h + n) (fold (\<lambda>i buf. buf[length h - d + i := buf ! (length h - d + i - d)]) [d..<d + n] buf)
      = copy_bytes h d n"
  using assms(3)
proof (induction n)
  case 0
  with assms show ?case by simp
next
  case (Suc n)
  let ?f = "\<lambda>i buf. buf[length h - d + i := buf ! (length h - d + i - d)]"
  let ?b = "fold ?f [d..<d + n] buf"
  from Suc have len: "length ?b = length buf" and take: "take (length h + n) ?b = copy_bytes h d n" by simp_all
  have at: "length h - d + (d + n) = length h + n" "length h - d + (d + n) - d = length h + n - d"
    using assms(2) by simp_all
  have step: "fold ?f [d..<d + Suc n] buf = ?b[length h + n := ?b ! (length h + n - d)]"
    using at by simp
  have src: "?b ! (length h + n - d) = copy_bytes h d n ! (length h + n - d)"
  proof -
    have "length h + n - d < length h + n" using assms(1,2) by simp
    then show ?thesis unfolding take [symmetric] by simp
  qed
  have last: "length h + n < length ?b" using len Suc.prems by simp
  have "take (length h + Suc n) (?b[length h + n := ?b ! (length h + n - d)])
      = take (length h + n) ?b @ [?b ! (length h + n - d)]"
    using last by (simp add: take_Suc_conv_app_nth)
  also have "\<dots> = copy_bytes h d n @ [copy_bytes h d n ! (length (copy_bytes h d n) - d)]"
    using src take by simp
  also have "\<dots> = copy_bytes h d (Suc n)" by (rule copy_bytes_last [symmetric])
  finally show ?case using len step by simp
qed

interpretation buffer_sink: output_sink buffer_ops buffer_holds "\<lambda>o1. length (bf_buf o1)" OutputTooSmall
proof (unfold_locales, goal_cases)
  case (1 o1 h b)
  from 1 have pos: "bf_pos o1 = length h" "take (length h) (bf_buf o1) = h" by (simp_all add: buffer_holds_def)
  have "take (Suc (length h)) ((bf_buf o1)[length h := b]) = take (length h) (bf_buf o1) @ [b]"
    using 1(2) by (simp add: take_Suc_conv_app_nth)
  then have "take (length (h @ [b])) ((bf_buf o1)[length h := b]) = h @ [b]" using pos(2) by simp
  then have "buffer_holds (o1\<lparr>bf_buf := (bf_buf o1)[length h := b], bf_pos := length h + 1\<rparr>) (h @ [b])"
    using 1(2) by (simp only: buffer_holds_def) simp
  moreover have "buffer_put o1 b = (o1\<lparr>bf_buf := (bf_buf o1)[length h := b], bf_pos := length h + 1\<rparr>, Inr ())"
    using 1(2) by (simp add: buffer_put_def pos(1))
  ultimately show ?case by (auto simp: buffer_ops_def)
next
  case (2 o1 h b)
  then have "bf_pos o1 = length h" by (simp only: buffer_holds_def)
  with 2(2) show ?case by (simp add: buffer_ops_def buffer_put_def)
next
  case (3 o1 d)
  then show ?case by (simp add: buffer_ops_def)
next
  case (4 o1 h d n)
  let ?b = "fold (\<lambda>i buf. buf[length h - d + i := buf ! (length h - d + i - d)]) [d..<d + n] (bf_buf o1)"
  from 4 have pos: "bf_pos o1 = length h" "take (length h) (bf_buf o1) = h" by (simp_all add: buffer_holds_def)
  have "length h + n - (length h - d) = d + n" using 4(3) by simp
  then have "buffer_copy o1 d n = (o1\<lparr>bf_buf := ?b, bf_pos := length h + n\<rparr>, Inr ())"
    using 4(3,4) by (simp only: buffer_copy_def pos Let_def if_not_P not_less if_False)
  moreover from buffer_copy_loop [OF 4(2-4) pos(2)]
  have "length ?b = length (bf_buf o1)" "take (length h + n) ?b = copy_bytes h d n" by simp_all
  ultimately show ?case using 4(4)
    by (intro exI [of _ "o1\<lparr>bf_buf := ?b, bf_pos := length h + n\<rparr>"]) (simp add: buffer_ops_def buffer_holds_def)
next
  case (5 o1 h d n)
  then have "bf_pos o1 = length h" by (simp only: buffer_holds_def)
  with 5(2-) show ?case by (simp add: buffer_ops_def buffer_copy_def Let_def)
next
  case (6 o1 h d n)
  then have "bf_pos o1 = length h" by (simp only: buffer_holds_def)
  with 6(2-) show ?case by (simp add: buffer_ops_def buffer_copy_def Let_def)
next
  case (7 o1 h)
  then show ?case by (simp add: buffer_ops_def buffer_holds_def)
next
  case (8 o1 h start)
  have "take (length h - start) (drop start (bf_buf o1)) = drop start (take (length h) (bf_buf o1))"
    by (simp add: drop_take)
  moreover from 8 have "bf_pos o1 = length h" "length h \<le> length (bf_buf o1)" "take (length h) (bf_buf o1) = h"
    by (simp_all only: buffer_holds_def)
  ultimately show ?case using 8(3) by (simp add: buffer_ops_def buffer_data_def)
next
  case (9 o1 h)
  then show ?case by (simp add: buffer_holds_def)
qed

interpretation counter_sink: output_sink counter_ops counter_holds ct_max OutputLimitExceeded
  by unfold_locales (auto simp: counter_ops_def counter_copy_def counter_holds_def)

section \<open>Reading tokens\<close>

text \<open>\<open>at_bits s p\<close>: an unexhausted reader whose unread bits are \<open>p\<close>.\<close>

definition at_bits :: "'o inflate \<Rightarrow> bool list \<Rightarrow> bool" where
  "at_bits s p \<longleftrightarrow> in_ok s \<and> in_bit_cnt s < 8 \<and> in_bits s = p"

lemma at_bits_read:
  assumes "at_bits s (p @ rest)" and "length p = n" and "n \<le> 16"
  obtains s' where "inf_bits n s = (s', word_of_nat (lsb_value p))" "at_bits s' rest" "in_sink s' = in_sink s"
    "unat (word_of_nat (lsb_value p) :: u16) = lsb_value p"
  using inf_bits_ok [of s p rest n] assms unat_read [of p] by (auto simp: at_bits_def)

lemma at_bits_decode:
  assumes "built lengths h" and "0 \<le> huff_left lengths 15" and "coded lengths sm"
    and "at_bits s (huff_code lengths sm @ rest)"
  obtains s' where "inf_decode h s = (s', Inr sm)" "at_bits s' rest" "in_sink s' = in_sink s"
  using inf_decode_code [OF assms(1,2), of sm s rest] assms(3,4)
  by (auto simp: at_bits_def coded_def in_kept_def)

lemma at_bits_sink [simp]: "at_bits (s\<lparr>in_sink := o1\<rparr>) p \<longleftrightarrow> at_bits s p"
  by (simp add: at_bits_def in_ok_def in_bits_def)

context output_sink
begin

lemma inf_length_literal:
  assumes "built ll h" and "0 \<le> huff_left ll 15" and "coded ll (unat b)"
    and "at_bits s (huff_code ll (unat b) @ rest)" and "holds (in_sink s) xs" and "length xs < room (in_sink s)"
  obtains s' where "inf_length ops h s = (s', Inr SymLiteral)" "at_bits s' rest" "holds (in_sink s') (xs @ [b])"
    "room (in_sink s') = room (in_sink s)"
proof -
  obtain s1 where s1: "inf_decode h s = (s1, Inr (unat b))" "at_bits s1 rest" "in_sink s1 = in_sink s"
    by (rule at_bits_decode [OF assms(1-4)])
  obtain o2 where o2: "out_put ops (in_sink s) b = (o2, Inr ())" "holds o2 (xs @ [b])" "room o2 = room (in_sink s)"
    using put_fits [OF assms(5,6)] by blast
  have "inf_length ops h s = (s1\<lparr>in_sink := o2\<rparr>, Inr SymLiteral)"
    using s1 o2(1) unat_byte_less [of b] by (simp add: inf_length_def on_sink_def)
  with that s1(2) o2 show ?thesis by fastforce
qed

lemma inf_length_match:
  assumes "built ll h" and "0 \<le> huff_left ll 15" and "len_code len = (ls, le, lv)" and "coded ll (257 + ls)"
    and "3 \<le> len" and "len \<le> 258" and "at_bits s (huff_code ll (257 + ls) @ nat_bits le lv @ rest)"
  obtains s' where "inf_length ops h s = (s', Inr (SymMatch len))" "at_bits s' rest" "in_sink s' = in_sink s"
proof -
  obtain s1 where s1: "inf_decode h s = (s1, Inr (257 + ls))" "at_bits s1 (nat_bits le lv @ rest)" "in_sink s1 = in_sink s"
    by (rule at_bits_decode [OF assms(1,2,4,7)])
  note lc = len_code_spec [OF assms(3,5,6)]
  show ?thesis
  proof (cases "ls \<le> 3 \<or> ls = 28")
    case True
    with lc have "le = 0" "ls \<le> 3 \<and> len = ls + 3 \<or> ls = 28 \<and> len = 258" by auto
    moreover from this s1(1) have "inf_length ops h s = (s1, Inr (SymMatch len))"
      by (auto simp: inf_length_def Let_def)
    ultimately show ?thesis using that s1(2,3) by simp
  next
    case False
    with lc have e: "4 \<le> ls" "ls \<le> 27" "le = (ls - 4) div 4" "le \<le> 16" "len = (4 + ls mod 4) * 2 ^ le + 3 + lv" "lv < 2 ^ le"
      by auto
    obtain s2 where s2: "inf_bits le s1 = (s2, word_of_nat (lsb_value (nat_bits le lv)))" "at_bits s2 rest" "in_sink s2 = in_sink s1"
      "unat (word_of_nat (lsb_value (nat_bits le lv)) :: u16) = lsb_value (nat_bits le lv)"
      using at_bits_read [OF s1(2), of le] e(4) by auto
    have "inf_length ops h s = (s2, Inr (SymMatch len))"
      using s1(1) s2(1,4) e False by (simp add: inf_length_def Let_def lsb_value_nat_bits)
    with that s1(3) s2(2,3) show ?thesis by simp
  qed
qed

lemma inf_distance_match:
  assumes "built dl h" and "0 \<le> huff_left dl 15" and "dist_code dist = (ds, de, dv)" and "coded dl ds"
    and "1 \<le> dist" and "dist \<le> 32768" and "at_bits s (huff_code dl ds @ nat_bits de dv @ rest)"
  obtains s' where "inf_distance ops h s = (s', Inr dist)" "at_bits s' rest" "in_sink s' = in_sink s"
proof -
  obtain s1 where s1: "inf_decode h s = (s1, Inr ds)" "at_bits s1 (nat_bits de dv @ rest)" "in_sink s1 = in_sink s"
    by (rule at_bits_decode [OF assms(1,2,4,7)])
  note dc = dist_code_spec [OF assms(3,5,6)]
  have ready: "inf_ready s' = Inr ()" if "at_bits s' p" for s' :: "'o inflate" and p
    using that by (simp add: inf_ready_def at_bits_def in_ok_def)
  show ?thesis
  proof (cases "ds \<le> 1")
    case True
    with dc have "de = 0" "dist = ds + 1" by auto
    moreover from this s1(1,2) True ready [of s1] have "inf_distance ops h s = (s1, Inr dist)"
      by (simp add: inf_distance_def check_dist)
    ultimately show ?thesis using that s1(2,3) by simp
  next
    case False
    with dc have e: "2 \<le> ds" "ds \<le> 29" "de = (ds - 2) div 2" "de \<le> 16" "dist = (2 + ds mod 2) * 2 ^ de + 1 + dv" "dv < 2 ^ de"
      by auto
    obtain s2 where s2: "inf_bits de s1 = (s2, word_of_nat (lsb_value (nat_bits de dv)))" "at_bits s2 rest" "in_sink s2 = in_sink s1"
      "unat (word_of_nat (lsb_value (nat_bits de dv)) :: u16) = lsb_value (nat_bits de dv)"
      using at_bits_read [OF s1(2), of de] e(4) by auto
    have "inf_distance ops h s = (s2, Inr dist)"
      using s1(1) s2(1,4) e False ready [OF s2(2)] by (simp add: inf_distance_def Let_def lsb_value_nat_bits check_dist)
    with that s1(3) s2(2,3) show ?thesis by simp
  qed
qed

lemma compressed_loop_tokens:
  assumes "built ll lh" and "0 \<le> huff_left ll 15" and "built dl dh" and "0 \<le> huff_left dl 15"
    and "tokens_ok ll dl xs toks" and "coded ll 256"
    and "at_bits s (concat (map (token_bits ll dl) toks) @ huff_code ll 256 @ rest)"
    and "holds (in_sink s) xs" and "length (expand xs toks) \<le> room (in_sink s)"
  shows "\<exists>s'. compressed_loop ops lh dh s = (s', Inr ()) \<and> at_bits s' rest
    \<and> holds (in_sink s') (expand xs toks) \<and> room (in_sink s') = room (in_sink s)"
  using assms(5,7-9)
proof (induction toks arbitrary: xs s)
  case Nil
  obtain s1 where "inf_decode lh s = (s1, Inr 256)" "at_bits s1 rest" "in_sink s1 = in_sink s"
    using at_bits_decode [OF assms(1,2,6)] Nil.prems(2) by auto
  with Nil.prems(3) show ?case
    by (subst compressed_loop.simps) (simp add: inf_length_def)
next
  case (Cons t toks)
  show ?case
  proof (cases t)
    case (TLit b)
    have room: "length xs < room (in_sink s)"
      using Cons.prems(4) length_expand [of "xs @ [b]" toks] by (simp add: TLit)
    obtain s1 where s1: "inf_length ops lh s = (s1, Inr SymLiteral)"
      "at_bits s1 (concat (map (token_bits ll dl) toks) @ huff_code ll 256 @ rest)"
      "holds (in_sink s1) (xs @ [b])" "room (in_sink s1) = room (in_sink s)"
      using inf_length_literal [OF assms(1,2) _ _ Cons.prems(3) room] Cons.prems(1,2) by (auto simp: TLit)
    from Cons.IH [OF _ s1(2,3)] Cons.prems(1,4) s1(1,4) show ?thesis
      by (subst compressed_loop.simps) (simp add: TLit)
  next
    case (TCopy len dist)
    obtain ls le lv where lc: "len_code len = (ls, le, lv)" by (cases "len_code len")
    obtain ds de dv where dc: "dist_code dist = (ds, de, dv)" by (cases "dist_code dist")
    have ok: "coded ll (257 + ls)" "coded dl ds" "3 \<le> len" "len \<le> 258" "1 \<le> dist" "dist \<le> 32768" "dist \<le> length xs"
      "tokens_ok ll dl (copy_bytes xs dist len) toks"
      using Cons.prems(1) by (simp_all add: TCopy lc dc)
    have room: "length xs + len \<le> room (in_sink s)"
      using Cons.prems(4) length_expand [of "copy_bytes xs dist len" toks] by (simp add: TCopy)
    obtain s1 where s1: "inf_length ops lh s = (s1, Inr (SymMatch len))"
      "at_bits s1 (huff_code dl ds @ nat_bits de dv @ concat (map (token_bits ll dl) toks) @ huff_code ll 256 @ rest)"
      "in_sink s1 = in_sink s"
      using inf_length_match [OF assms(1,2) lc ok(1,3,4)] Cons.prems(2) by (auto simp: TCopy lc dc)
    obtain s2 where s2: "inf_distance ops dh s1 = (s2, Inr dist)"
      "at_bits s2 (concat (map (token_bits ll dl) toks) @ huff_code ll 256 @ rest)" "in_sink s2 = in_sink s1"
      using inf_distance_match [OF assms(3,4) dc ok(2,5,6) s1(2)] by blast
    have "holds (in_sink s2) xs" "length xs + len \<le> room (in_sink s2)" using s1 s2 Cons.prems(3) room by simp_all
    from copy_fits [OF this(1) _ ok(7) this(2)] ok(5) obtain o2 where
      o2: "op_copy ops (in_sink s2) dist len = (o2, Inr ())" "holds o2 (copy_bytes xs dist len)" "room o2 = room (in_sink s2)"
      by auto
    let ?s3 = "s2\<lparr>in_sink := o2\<rparr>"
    have "at_bits ?s3 (concat (map (token_bits ll dl) toks) @ huff_code ll 256 @ rest)" "holds (in_sink ?s3) (copy_bytes xs dist len)"
      using s2(2) o2(2) by simp_all
    from Cons.IH [OF ok(8) this] Cons.prems(4) s1(1,3) s2(1,3) o2 show ?thesis
      by (subst compressed_loop.simps) (simp add: TCopy on_sink_def)
  qed
qed

end

end
