(* ===== verification/EmbedFixed.thy ===== *)
theory EmbedFixed
  imports EmbedOut EmbedDecode
begin

text \<open>
  The fixed codes: the codewords the encoder writes are the canonical ones of the fixed code
  lengths that the decoder builds its tables from.
\<close>

definition fixed_ll :: "nat list" where "fixed_ll = take MAX_LEN_SYMS fixed_lengths"
definition fixed_dl :: "nat list" where "fixed_dl = drop MAX_LEN_SYMS fixed_lengths"

lemma fixed_ll_eq: "fixed_ll = replicate 144 8 @ replicate 112 9 @ replicate 24 7 @ replicate 8 8"
  by (simp add: fixed_ll_def fixed_lengths_def MAX_LEN_SYMS_def)

lemma fixed_dl_eq: "fixed_dl = replicate 32 5"
  by (simp add: fixed_dl_def fixed_lengths_def MAX_LEN_SYMS_def)

lemma count_list_replicate: "count_list (replicate n x) y = (if x = y then n else 0)"
  by (induction n) auto

lemma fixed_ll_count:
  "len_count fixed_ll l = (if l = 7 then 24 else if l = 8 then 152 else if l = 9 then 112 else 0)"
  by (simp add: len_count_def fixed_ll_eq count_list_append count_list_replicate)

lemma fixed_dl_count: "len_count fixed_dl l = (if l = 5 then 32 else 0)"
  by (simp add: len_count_def fixed_dl_eq count_list_replicate)

lemma fixed_complete: "huff_left fixed_ll 15 = 0" "huff_left fixed_dl 15 = 0"
proof -
  have ll: "huff_first fixed_ll (Suc l) = 2 * (huff_first fixed_ll l + (if l = 7 then 24 else if l = 8 then 152 else if l = 9 then 112 else 0))"
    and dl: "huff_first fixed_dl (Suc l) = 2 * (huff_first fixed_dl l + (if l = 5 then 32 else 0))" for l
    by (simp_all add: fixed_ll_count fixed_dl_count)
  have n: "huff_first f 15 = huff_first f (Suc (Suc (Suc (Suc (Suc (Suc (Suc (Suc (Suc (Suc (Suc (Suc (Suc (Suc (Suc 0)))))))))))))))" for f
    by (simp add: numeral_eq_Suc del: huff_first.simps)
  show "huff_left fixed_ll 15 = 0" "huff_left fixed_dl 15 = 0"
    by (simp_all add: huff_left_def n ll dl fixed_ll_count fixed_dl_count del: huff_first.simps(2))
qed

lemma fixed_ll_nth:
  "sm < 288 \<Longrightarrow> fixed_ll ! sm = (if sm < 144 then 8 else if sm < 256 then 9 else if sm < 280 then 7 else 8)"
proof -
  assume "sm < 288"
  then consider "sm < 144" | "144 \<le> sm" "sm < 256" | "256 \<le> sm" "sm < 280" | "280 \<le> sm" "sm < 288" by linarith
  then show ?thesis
  proof cases
    case 3
    then have "\<not> sm - 144 < 112" "sm - 256 < 24" by linarith+
    with 3 show ?thesis by (simp add: fixed_ll_eq nth_append)
  next
    case 4
    then have "\<not> sm - 144 < 112" "\<not> sm - 256 < 24" "sm - 280 < 8" by linarith+
    with 4 show ?thesis by (simp add: fixed_ll_eq nth_append)
  qed (simp_all add: fixed_ll_eq nth_append)
qed

lemma fixed_ll_length [simp]: "length fixed_ll = 288"
  by (simp add: fixed_ll_eq)

lemma fixed_ll_coded: "sm < 288 \<Longrightarrow> coded fixed_ll sm"
  by (simp add: coded_def fixed_ll_nth)

lemma fixed_dl_coded: "sm < 32 \<Longrightarrow> coded fixed_dl sm"
  by (simp add: coded_def fixed_dl_eq)

lemma fixed_first: "huff_first fixed_ll 7 = 0" "huff_first fixed_ll 8 = 48" "huff_first fixed_ll 9 = 400"
  "huff_first fixed_dl 5 = 0"
  by (simp_all add: fixed_ll_count fixed_dl_count numeral_eq_Suc)

lemma fixed_rank:
  assumes "sm < 288"
  shows "len_rank fixed_ll sm = (if sm < 144 then sm else if sm < 256 then sm - 144 else if sm < 280 then sm - 256
    else sm - 280 + 144)"
proof -
  have "len_rank fixed_ll sm = count_list (take sm fixed_ll) (fixed_ll ! sm)" by (simp add: len_rank_def)
  also have "take sm fixed_ll = replicate (min sm 144) 8 @ replicate (min (sm - 144) 112) 9
      @ replicate (min (sm - 256) 24) 7 @ replicate (min (sm - 280) 8) 8"
    by (simp add: fixed_ll_eq)
  finally have eq: "len_rank fixed_ll sm = count_list (replicate (min sm 144) 8 @ replicate (min (sm - 144) 112) 9
      @ replicate (min (sm - 256) 24) 7 @ replicate (min (sm - 280) 8) 8) (fixed_ll ! sm)" .
  consider "sm < 144" | "144 \<le> sm" "sm < 256" | "256 \<le> sm" "sm < 280" | "280 \<le> sm" "sm < 288"
    using assms by linarith
  then show ?thesis
    by cases (simp_all add: eq count_list_append count_list_replicate fixed_ll_nth)
qed

lemma fixed_code_value:
  assumes "sm < 288"
  shows "code_value fixed_ll sm = (if sm < 144 then 0x30 + sm else if sm < 256 then sm - 144 + 0x190
    else if sm < 280 then sm - 256 else sm - 280 + 0xc0)"
proof -
  consider "sm < 144" | "144 \<le> sm" "sm < 256" | "256 \<le> sm" "sm < 280" | "280 \<le> sm" by linarith
  then show ?thesis
    using assms by cases (simp_all add: code_value_def fixed_rank fixed_ll_nth fixed_first)
qed

lemma fixed_dist_code:
  assumes "sm < 32"
  shows "huff_code fixed_dl sm = code_bits 5 sm"
proof -
  have "len_rank fixed_dl sm = sm"
    using assms by (simp add: len_rank_def fixed_dl_eq take_replicate count_list_replicate)
  moreover have "fixed_dl ! sm = 5" using assms by (simp add: fixed_dl_eq)
  ultimately show ?thesis by (simp add: huff_code_def code_value_def fixed_first)
qed

section \<open>Writing codewords\<close>

lemma bit_reverse_bits: "bit (reverse_bits w) i \<longleftrightarrow> i < 32 \<and> bit w (31 - i)"
proof -
  have "bit (horner_sum of_bool 2 (rev (map (bit w) [0..<32])) :: u32) i
      \<longleftrightarrow> i < 32 \<and> rev (map (bit w) [0..<32]) ! i"
    using bit_horner_sum_bit_iff [of "rev (map (bit w) [0..<32])" i, where ?'a = "32 word"]
    by (auto simp: possible_bit_word)
  then show ?thesis by (auto simp: reverse_bits_def rev_nth)
qed

lemma reversed_code:
  assumes "code < 2 ^ len" and "len \<le> 16"
  shows "lsb_bits len (drop_bit (32 - len) (reverse_bits (word_of_nat code))) = code_bits len code"
    and "len \<le> i \<Longrightarrow> \<not> bit (drop_bit (32 - len) (reverse_bits (word_of_nat code))) i"
proof -
  show "lsb_bits len (drop_bit (32 - len) (reverse_bits (word_of_nat code))) = code_bits len code"
  proof (rule nth_equalityI)
    fix i assume "i < length (lsb_bits len (drop_bit (32 - len) (reverse_bits (word_of_nat code))))"
    then have i: "i < len" by simp
    then have "31 - (32 - len + i) = len - Suc i" "32 - len + i < 32" "len - Suc i < 32" using assms(2) by simp_all
    then have "bit (drop_bit (32 - len) (reverse_bits (word_of_nat code))) i = bit code (len - Suc i)"
      using i assms(2) by (simp add: bit_drop_bit_eq bit_reverse_bits bit_of_nat_iff)
    with i show "lsb_bits len (drop_bit (32 - len) (reverse_bits (word_of_nat code))) ! i = code_bits len code ! i"
      by (simp add: nth_lsb_bits code_bits_def bit_iff_odd)
  qed simp
  show "\<not> bit (drop_bit (32 - len) (reverse_bits (word_of_nat code))) i" if "len \<le> i"
    using that assms(2) by (auto simp: bit_drop_bit_eq bit_reverse_bits)
qed

text \<open>\<open>writes w p r\<close>: the writer takes the bits \<open>p\<close>, or fails for lack of room.\<close>

definition writes :: "ewriter \<Rightarrow> bool list \<Rightarrow> ewriter \<times> (error + unit) \<Rightarrow> bool" where
  "writes w p r \<longleftrightarrow>
     (\<exists>w'. r = (w', Inr ()) \<and> ew_ok w' \<and> ew_bits w' = ew_bits w @ p \<and> ew_room w' = ew_room w)
     \<or> (\<exists>w'. r = (w', Inl OutputTooSmall)) \<and> 8 * ew_room w + 32 \<le> length (ew_bits w @ p)"

lemma writes_put:
  "ew_ok w \<Longrightarrow> count \<le> 16 \<Longrightarrow> (\<And>i. count \<le> i \<Longrightarrow> \<not> bit v i) \<Longrightarrow> writes w (lsb_bits count v) (ew_put v count w)"
  using ew_put_spec [of w count v] by (auto simp: writes_def ew_full_def split: if_splits)

lemma writes_andthen:
  assumes "writes w p r" and "\<And>w'. ew_ok w' \<Longrightarrow> writes w' q (f w' ())"
  shows "writes w (p @ q) (andthen r f)"
  using assms(1) unfolding writes_def
proof (elim disjE exE conjE, goal_cases)
  case (1 w')
  with assms(2) [OF 1(2)] show ?case by (auto simp: writes_def)
next
  case (2 w')
  then show ?case by auto
qed

lemma writes_nat:
  assumes "ew_ok w" and "v < 2 ^ n" and "n \<le> 16"
  shows "writes w (nat_bits n v) (ew_put (word_of_nat v) n w)"
proof -
  have "\<not> bit (word_of_nat v :: u32) i" if "n \<le> i" for i
  proof -
    have "v < 2 ^ i" using assms(2) that by (meson less_le_trans one_le_numeral power_increasing)
    then have "\<not> bit v i" by (simp add: bit_iff_odd)
    then show ?thesis by (simp add: bit_of_nat_iff)
  qed
  with writes_put [OF assms(1,3), of "word_of_nat v"] assms(3) show ?thesis by (simp add: lsb_bits_nat)
qed

lemma writes_code:
  assumes "ew_ok w" and "code < 2 ^ len" and "len \<le> 16"
  shows "writes w (code_bits len code) (ew_put (drop_bit (32 - len) (reverse_bits (word_of_nat code))) len w)"
  using writes_put [OF assms(1,3)] reversed_code [OF assms(2,3)] by metis

lemma writes_symbol:
  assumes "ew_ok w" and "sm < 288"
  shows "writes w (huff_code fixed_ll sm) (ew_symbol sm w)"
proof -
  consider "sm \<le> 143" | "144 \<le> sm" "sm \<le> 255" | "256 \<le> sm" "sm \<le> 279" | "280 \<le> sm" by linarith
  then show ?thesis
  proof cases
    case 1
    then show ?thesis using writes_code [OF assms(1), of "48 + sm" 8] assms(2)
      by (simp add: ew_symbol_def huff_code_def fixed_code_value fixed_ll_nth)
  next
    case 2
    then show ?thesis using writes_code [OF assms(1), of "sm - 144 + 400" 9] assms(2)
      by (simp add: ew_symbol_def huff_code_def fixed_code_value fixed_ll_nth)
  next
    case 3
    then show ?thesis using writes_code [OF assms(1), of "sm - 256" 7] assms(2)
      by (simp add: ew_symbol_def huff_code_def fixed_code_value fixed_ll_nth)
  next
    case 4
    then show ?thesis using writes_code [OF assms(1), of "sm - 280 + 192" 8] assms(2)
      by (simp add: ew_symbol_def huff_code_def fixed_code_value fixed_ll_nth)
  qed
qed

lemma writes_copy:
  assumes "ew_ok w" and "3 \<le> len" and "len \<le> 258" and "1 \<le> dist" and "dist \<le> 32768"
  shows "writes w (token_bits fixed_ll fixed_dl (TCopy len dist)) (ew_copy len dist w)"
proof -
  obtain ls le lv where lc: "len_code len = (ls, le, lv)" by (cases "len_code len")
  obtain ds de dv where dc: "dist_code dist = (ds, de, dv)" by (cases "dist_code dist")
  have l: "ls \<le> 28" "le \<le> 16" "lv < 2 ^ le"
  proof -
    show "ls \<le> 28" "le \<le> 16" using len_code_spec [OF lc assms(2,3)] by auto
    show "lv < 2 ^ le" using lc by (auto simp: len_code_def Let_def split: if_splits)
  qed
  have d: "ds \<le> 29" "de \<le> 16" "dv < 2 ^ de"
  proof -
    show "ds \<le> 29" "de \<le> 16" using dist_code_spec [OF dc assms(4,5)] by auto
    show "dv < 2 ^ de" using dc by (auto simp: dist_code_def Let_def split: if_splits)
  qed
  have "ds < 2 ^ 5" using d(1) by simp
  have code5: "writes w' (huff_code fixed_dl ds) (ew_put (drop_bit 27 (reverse_bits (word_of_nat ds))) 5 w')"
    if "ew_ok w'" for w'
    using writes_code [OF that \<open>ds < 2 ^ 5\<close>] d(1) by (simp add: fixed_dist_code)
  show ?thesis
    unfolding ew_copy_def lc dc prod.case token_bits.simps
    using assms(1) l d
    by (intro writes_andthen writes_symbol writes_nat code5) auto
qed

lemma token_bits_length: "3 \<le> len \<Longrightarrow> len \<le> 258 \<Longrightarrow> 1 \<le> dist \<Longrightarrow> dist \<le> 32768 \<Longrightarrow>
  length (token_bits fixed_ll fixed_dl (TCopy len dist)) \<le> 31"
proof -
  assume a: "3 \<le> len" "len \<le> 258" "1 \<le> dist" "dist \<le> 32768"
  obtain ls le lv where lc: "len_code len = (ls, le, lv)" by (cases "len_code len")
  obtain ds de dv where dc: "dist_code dist = (ds, de, dv)" by (cases "dist_code dist")
  from len_code_spec [OF lc a(1,2)] dist_code_spec [OF dc a(3,4)]
  have "ls \<le> 28" "le \<le> 5" "de \<le> 13" "ds < 32" by auto
  then show ?thesis by (simp add: lc dc huff_code_def fixed_ll_nth fixed_dl_eq)
qed

lemma literal_bits_length: "length (token_bits fixed_ll fixed_dl (TLit b)) \<le> 31"
proof -
  have "unat b < 288" using unat_byte_less [of b] by linarith
  then show ?thesis by (simp add: huff_code_def fixed_ll_nth)
qed

section \<open>Reading a fixed block\<close>

lemma fixed_tables:
  obtains t where "build_codes fixed_lengths MAX_LEN_SYMS tables_new = (t, Inr ())"
    "built fixed_ll (tb_len t)" "built fixed_dl (tb_dist t)"
proof -
  let ?h = "huff_build fixed_ll (tb_len tables_new)" and ?d = "huff_build fixed_dl (tb_dist tables_new)"
  have small: "list_all (\<lambda>l. l \<le> MAX_BITS) fixed_ll" "list_all (\<lambda>l. l \<le> MAX_BITS) fixed_dl"
    by (simp_all add: fixed_ll_eq fixed_dl_eq MAX_BITS_def list_all_iff)
  have size: "length fixed_ll \<le> length (hf_symbol (tb_len tables_new))" "length fixed_dl \<le> length (hf_symbol (tb_dist tables_new))"
    by (simp_all add: tables_new_def huffman_new_def MAX_LEN_SYMS_def MAX_SYMS_def MAX_DIST_SYMS_def fixed_dl_eq)
  have b: "built fixed_ll ?h" "built fixed_dl ?d"
    using huff_build_built [OF small(1) size(1)] huff_build_built [OF small(2) size(2)] by simp_all
  then have "hf_left ?h = 0" "hf_left ?d = 0" by (simp_all add: built_def fixed_complete)
  moreover have "\<not> length fixed_lengths < MAX_LEN_SYMS" by (simp add: fixed_lengths_def MAX_LEN_SYMS_def)
  ultimately have "build_codes fixed_lengths MAX_LEN_SYMS tables_new
      = (tables_new\<lparr>tb_len := ?h, tb_dist := ?d\<rparr>, Inr ())"
    by (simp add: build_codes_def Let_def huff_is_valid_def fixed_ll_def fixed_dl_def)
  with that b show ?thesis by fastforce
qed

definition fixed_bits :: "token list \<Rightarrow> bool list" where
  "fixed_bits toks = concat (map (token_bits fixed_ll fixed_dl) toks) @ huff_code fixed_ll 256"

context output_sink
begin

lemma fixed_block:
  assumes "at_bits s (fixed_bits toks @ rest)" and "tokens_ok fixed_ll fixed_dl xs toks"
    and "holds (in_sink s) xs" and "length (expand xs toks) \<le> room (in_sink s)"
  shows "\<exists>s'. inf_block ops 1 s = (s', Inr ()) \<and> at_bits s' rest
    \<and> holds (in_sink s') (expand xs toks) \<and> room (in_sink s') = room (in_sink s)"
proof -
  obtain t where t: "build_codes fixed_lengths MAX_LEN_SYMS tables_new = (t, Inr ())"
    "built fixed_ll (tb_len t)" "built fixed_dl (tb_dist t)" by (rule fixed_tables)
  have "inf_block ops 1 s = compressed_loop ops (tb_len t) (tb_dist t) s"
    by (simp add: inf_block_def compressed_def t(1))
  with compressed_loop_tokens [OF t(2) _ t(3) _ assms(2) _ _ assms(3,4), of rest] assms(1) show ?thesis
    by (simp add: fixed_complete fixed_ll_coded fixed_bits_def)
qed

end

end
