(* ===== verification/EmbedEncoder.thy ===== *)
theory EmbedEncoder
  imports EmbedFixed
begin

text \<open>
  The encoder of \<open>src/embed/encoder.rs\<close>: the single-probe match finder, the token loop and the
  one-shot \<open>compress\<close>.  \<open>greedy\<close> is the parse the token loop makes; it does not depend on the
  writer, so the stream does not depend on how the output is cut.
\<close>

definition MIN_MATCH :: nat where "MIN_MATCH = 3"
definition MAX_MATCH :: nat where "MAX_MATCH = 258"
definition MAX_DIST :: nat where "MAX_DIST = 32768"
definition TOO_FAR :: nat where "TOO_FAR = 4096"
definition END_OF_BLOCK :: nat where "END_OF_BLOCK = 256"
definition TOKEN_BITS :: nat where "TOKEN_BITS = 8 + 5 + 5 + 13"

definition embed_find :: "u16 list \<Rightarrow> nat \<Rightarrow> byte list \<Rightarrow> nat \<Rightarrow> u16 list \<times> nat \<times> nat" where
  "embed_find table m data pos =
     (let ahead = drop pos data in
      if length ahead < 3 then (table, 0, 0)
      else
        let hash = drop_bit 16 (le_word (take 3 ahead @ [0]) * 0x9e3779b1 :: u32);
            slot = unat hash AND m in
        if length table \<le> slot then (table, 0, 0)
        else
          let dist = unat ((word_of_nat pos :: u16) - table ! slot);
              table1 = table[slot := word_of_nat pos] in
          if pos < dist then (table1, 0, 0)
          else
            let behind = drop (pos - dist) data in
            if dist = 0 \<or> MAX_DIST < dist then (table1, 0, 0)
            else
              let len = length (takeWhile (\<lambda>(a, b). a = b) (take MAX_MATCH (zip behind ahead))) in
              if len = MIN_MATCH \<and> TOO_FAR < dist then (table1, 0, 0)
              else (table1, len, dist))"

function ew_tokens ::
  "bool \<Rightarrow> u16 list \<Rightarrow> nat \<Rightarrow> byte list \<Rightarrow> nat \<Rightarrow> ewriter \<Rightarrow> u16 list \<times> ewriter \<times> (error + nat)" where
  "ew_tokens chk table m data pos w =
     (if pos < length data then
        case (if chk then ew_ready TOKEN_BITS w else (w, True)) of (w1, room) \<Rightarrow>
        if \<not> room then (table, w1, Inr pos)
        else
          case embed_find table m data pos of (table1, len, dist) \<Rightarrow>
          if len < MIN_MATCH then
            (case ew_symbol (unat (data ! pos)) w1 of
               (w2, Inl e) \<Rightarrow> (table1, w2, Inl e)
             | (w2, Inr _) \<Rightarrow> ew_tokens chk table1 m data (pos + 1) w2)
          else
            (case ew_copy len dist w1 of
               (w2, Inl e) \<Rightarrow> (table1, w2, Inl e)
             | (w2, Inr _) \<Rightarrow> ew_tokens chk table1 m data (pos + len) w2)
      else (table, w, Inr pos))"
  by pat_completeness auto
termination
  by (relation "measure (\<lambda>(_, _, _, data, pos, _). length data - pos)") (auto simp: MIN_MATCH_def)

declare ew_tokens.simps [simp del]

fun ew_header :: "byte list \<Rightarrow> ewriter \<Rightarrow> ewriter \<times> (error + unit)" where
  "ew_header [] w = (w, Inr ())"
| "ew_header (b # bs) w = andthen (ew_put (ucast b) 8 w) (\<lambda>w1 _. ew_header bs w1)"

fun ew_trailer :: "u32 list \<Rightarrow> ewriter \<Rightarrow> ewriter \<times> (error + unit)" where
  "ew_trailer [] w = (w, Inr ())"
| "ew_trailer (c # cs) w =
     andthen (ew_put (c AND 0xffff) 16 w) (\<lambda>w1 _.
     andthen (ew_put (drop_bit 16 c) 16 w1) (\<lambda>w2 _. ew_trailer cs w2))"

text \<open>\<open>bit_cnt.wrapping_neg() & 7\<close>: the bits up to a byte boundary.\<close>

definition ew_pad :: "ewriter \<Rightarrow> ewriter \<times> (error + unit)" where
  "ew_pad w = ew_put 0 (unat (- word_of_nat (ew_bit_cnt w) AND (7 :: u32))) w"

definition table_mask :: "u16 list \<Rightarrow> nat" where
  "table_mask table = (if length table = 0 then 0 else push_bit (min (log2 (length table)) 16) 1 - 1)"

definition ew_data :: "u16 list \<Rightarrow> byte list \<Rightarrow> ewriter \<Rightarrow> u16 list \<times> ewriter \<times> (error + unit)" where
  "ew_data table data w =
     (if data = [] then (table, w, Inr ())
      else
        case ew_put 2 3 w of
          (w1, Inl e) \<Rightarrow> (table, w1, Inl e)
        | (w1, Inr _) \<Rightarrow>
            (case ew_tokens False table (table_mask table) data 0 w1 of
               (table1, w2, Inl e) \<Rightarrow> (table1, w2, Inl e)
             | (table1, w2, Inr _) \<Rightarrow> (table1, ew_symbol END_OF_BLOCK w2)))"

definition ew_close :: "u32 list \<Rightarrow> ewriter \<Rightarrow> ewriter \<times> (error + unit)" where
  "ew_close words w =
     andthen (ew_put 3 3 w) (\<lambda>w1 _.
     andthen (ew_symbol END_OF_BLOCK w1) (\<lambda>w2 _.
     andthen (ew_pad w2) (\<lambda>w3 _. ew_trailer words w3)))"

text \<open>The function: the table, the slice and the result.\<close>

definition embed_compress ::
  "'f format_ops \<Rightarrow> byte list \<Rightarrow> u16 list \<Rightarrow> byte list \<Rightarrow> u16 list \<times> byte list \<times> (error + nat)" where
  "embed_compress fmt data table dst =
     (case ew_header (fm_header fmt) \<lparr>ew_room = length dst, ew_out = [], ew_bit_buf = 0, ew_bit_cnt = 0\<rparr> of
        (w, Inl e) \<Rightarrow> (table, ew_out w @ drop (length (ew_out w)) dst, Inl e)
      | (w, Inr _) \<Rightarrow>
          (case ew_data table data w of
             (table1, w1, Inl e) \<Rightarrow> (table1, ew_out w1 @ drop (length (ew_out w1)) dst, Inl e)
           | (table1, w1, Inr _) \<Rightarrow>
               let f = fm_update fmt (fm_init fmt) data;
                   words = take (fm_trailer fmt) (fm_words fmt f (word_of_nat (length data))) in
               (case ew_close words w1 of
                  (w2, Inl e) \<Rightarrow> (table1, ew_out w2 @ drop (length (ew_out w2)) dst, Inl e)
                | (w2, Inr _) \<Rightarrow>
                    let w3 = ew_flush w2 in
                    (table1, ew_out w3 @ drop (length (ew_out w3)) dst,
                     if ew_bit_cnt w3 \<noteq> 0 then Inl OutputTooSmall else Inr (length (ew_out w3))))))"

section \<open>Matches\<close>

lemma takeWhile_zip_eq:
  assumes "n = length (takeWhile (\<lambda>(a, b). a = b) (take k (zip xs ys)))"
  shows "n \<le> k" "n \<le> length xs" "n \<le> length ys" "\<And>i. i < n \<Longrightarrow> xs ! i = ys ! i"
proof -
  let ?t = "takeWhile (\<lambda>(a, b). a = b) (take k (zip xs ys))"
  have le: "length ?t \<le> length (take k (zip xs ys))" by (rule length_takeWhile_le)
  then show "n \<le> k" "n \<le> length xs" "n \<le> length ys" using assms by simp_all
  fix i assume i: "i < n"
  then have "?t ! i \<in> set ?t" using assms by simp
  then have "case_prod (=) (?t ! i)" by (rule set_takeWhileD [THEN conjunct2])
  moreover have "?t ! i = (xs ! i, ys ! i)"
    using i assms le by (simp add: takeWhile_nth)
  ultimately show "xs ! i = ys ! i" by simp
qed

lemma embed_find_match:
  assumes "embed_find table m data pos = (table1, len, dist)" and "pos < length data" and "3 \<le> len"
  shows "len \<le> 258" "1 \<le> dist" "dist \<le> 32768" "dist \<le> pos" "pos + len \<le> length data"
    and "copy_bytes (take pos data) dist len = take (pos + len) data"
proof -
  have len: "len = length (takeWhile (\<lambda>(a, b). a = b) (take 258 (zip (drop (pos - dist) data) (drop pos data))))"
    and d: "1 \<le> dist" "dist \<le> 32768" "dist \<le> pos"
    using assms(1,3) by (auto simp: embed_find_def Let_def MAX_MATCH_def MAX_DIST_def split: if_splits)
  from d show "1 \<le> dist" "dist \<le> 32768" "dist \<le> pos" .
  note z = takeWhile_zip_eq [OF len]
  show "len \<le> 258" "pos + len \<le> length data" using z(1,3) assms(2) by simp_all
  have "lz_match data (pos - dist) pos len"
    using z d assms(2) by (auto simp: lz_match_def)
  then show "copy_bytes (take pos data) dist len = take (pos + len) data"
    by (rule copy_bytes_match) (use d in simp_all)
qed

section \<open>The parse\<close>

function greedy :: "u16 list \<Rightarrow> nat \<Rightarrow> byte list \<Rightarrow> nat \<Rightarrow> u16 list \<times> token list" where
  "greedy table m data pos =
     (if pos < length data then
        case embed_find table m data pos of (table1, len, dist) \<Rightarrow>
        if len < MIN_MATCH then map_prod id ((#) (TLit (data ! pos))) (greedy table1 m data (pos + 1))
        else map_prod id ((#) (TCopy len dist)) (greedy table1 m data (pos + len))
      else (table, []))"
  by pat_completeness auto
termination
  by (relation "measure (\<lambda>(_, _, data, pos). length data - pos)") (auto simp: MIN_MATCH_def)

declare greedy.simps [simp del]

lemma fixed_tokens_lit: "tokens_ok fixed_ll fixed_dl xs (TLit b # ts) \<longleftrightarrow> tokens_ok fixed_ll fixed_dl (xs @ [b]) ts"
proof -
  have "unat b < 288" using unat_byte_less [of b] by linarith
  then show ?thesis by (simp add: fixed_ll_coded)
qed

lemma fixed_tokens_copy:
  assumes "3 \<le> len" and "len \<le> 258" and "1 \<le> dist" and "dist \<le> 32768" and "dist \<le> length xs"
  shows "tokens_ok fixed_ll fixed_dl xs (TCopy len dist # ts)
    \<longleftrightarrow> tokens_ok fixed_ll fixed_dl (copy_bytes xs dist len) ts"
proof -
  obtain ls le lv where lc: "len_code len = (ls, le, lv)" by (cases "len_code len")
  obtain ds de dv where dc: "dist_code dist = (ds, de, dv)" by (cases "dist_code dist")
  have "ls \<le> 28" using len_code_spec [OF lc assms(1,2)] by auto
  moreover have "ds \<le> 29" using dist_code_spec [OF dc assms(3,4)] by auto
  ultimately show ?thesis using assms by (simp add: lc dc fixed_ll_coded fixed_dl_coded)
qed

lemma greedy_expands:
  assumes "pos \<le> length data" and "greedy table m data pos = (table1, toks)"
  shows "tokens_ok fixed_ll fixed_dl (take pos data) toks \<and> expand (take pos data) toks = data"
  using assms
proof (induction table m data pos arbitrary: table1 toks rule: greedy.induct)
  case (1 table m data pos)
  show ?case
  proof (cases "pos < length data")
    case False
    with 1 show ?thesis by (simp add: greedy.simps [of table])
  next
    case True
    obtain t2 len dist where f: "embed_find table m data pos = (t2, len, dist)" by (cases "embed_find table m data pos")
    show ?thesis
    proof (cases "len < MIN_MATCH")
      case lit: True
      obtain t3 ts where g: "greedy t2 m data (pos + 1) = (t3, ts)" by fastforce
      with 1 True f lit have toks: "toks = TLit (data ! pos) # ts" by (simp add: greedy.simps [of table])
      from 1(1) [OF True f [symmetric] _ lit _ g] True
      have "tokens_ok fixed_ll fixed_dl (take (pos + 1) data) ts \<and> expand (take (pos + 1) data) ts = data" by simp
      with True show ?thesis unfolding toks fixed_tokens_lit by (simp add: take_Suc_conv_app_nth)
    next
      case copy: False
      then have "3 \<le> len" by (simp add: MIN_MATCH_def)
      note f' = embed_find_match [OF f True this]
      obtain t3 ts where g: "greedy t2 m data (pos + len) = (t3, ts)" by fastforce
      with 1 True f copy have toks: "toks = TCopy len dist # ts" by (simp add: greedy.simps [of table])
      from 1(2) [OF True f [symmetric] _ copy _ g] f'(5)
      have "tokens_ok fixed_ll fixed_dl (take (pos + len) data) ts \<and> expand (take (pos + len) data) ts = data" by simp
      with f' \<open>3 \<le> len\<close> True show ?thesis unfolding toks
        by (subst fixed_tokens_copy) simp_all
    qed
  qed
qed

end
