(* ===== verification/EmbedStream.thy ===== *)
theory EmbedStream
  imports EmbedEncoder
begin

text \<open>
  The bits the encoder writes: the token loop writes the tokens of the greedy parse, and the
  one-shot \<open>compress\<close> writes the container's header, the block, a final empty block, the padding
  and the trailer, or reports that they do not fit.
\<close>

abbreviation tok_bits :: "token list \<Rightarrow> bool list" where
  "tok_bits toks \<equiv> concat (map (token_bits fixed_ll fixed_dl) toks)"

lemma writes_prefix:
  "writes w p r \<Longrightarrow> (\<exists>w'. r = (w', Inr ()) \<and> ew_ok w' \<and> ew_bits w' = ew_bits w @ p \<and> ew_room w' = ew_room w)
    \<or> (\<exists>w'. r = (w', Inl OutputTooSmall) \<and> 8 * ew_room w + 32 \<le> length (ew_bits w @ p @ q))"
  by (auto simp: writes_def)

lemma writes_lit: "ew_ok w \<Longrightarrow> writes w (token_bits fixed_ll fixed_dl (TLit b)) (ew_symbol (unat b) w)"
proof -
  assume "ew_ok w"
  moreover have "unat b < 288" using unat_byte_less [of b] by linarith
  ultimately show ?thesis by (simp add: writes_symbol)
qed

definition tokens_law ::
  "bool \<Rightarrow> nat \<Rightarrow> byte list \<Rightarrow> nat \<Rightarrow> ewriter \<Rightarrow> u16 list \<Rightarrow> token list \<Rightarrow> u16 list \<times> ewriter \<times> (error + nat) \<Rightarrow> bool" where
  "tokens_law chk m data pos w tg toks r \<longleftrightarrow>
     (\<exists>t' w' pos' ts us. r = (t', w', Inr pos') \<and> pos \<le> pos' \<and> pos' \<le> length data \<and> ew_ok w' \<and> ew_room w' = ew_room w
        \<and> toks = ts @ us \<and> greedy t' m data pos' = (tg, us) \<and> ew_bits w' = ew_bits w @ tok_bits ts
        \<and> (pos' < length data \<longrightarrow> chk \<and> length (ew_out w') = ew_room w))
     \<or> (\<exists>t' w'. r = (t', w', Inl OutputTooSmall) \<and> \<not> chk \<and> 8 * ew_room w + 32 \<le> length (ew_bits w @ tok_bits toks))"

lemma tokens_law_step:
  assumes "tokens_law chk m data pos1 w1 tg toks r" and "ew_room w1 = ew_room w" and "pos \<le> pos1"
    and "ew_bits w1 = ew_bits w @ token_bits fixed_ll fixed_dl t"
  shows "tokens_law chk m data pos w tg (t # toks) r"
  using assms(1) unfolding tokens_law_def
proof (elim disjE exE conjE, goal_cases)
  case (1 t' w' pos' ts us)
  with assms(2-4) show ?case
    by (intro disjI1 exI [of _ t'] exI [of _ w'] exI [of _ pos'] exI [of _ "t # ts"] exI [of _ us]) simp
next
  case (2 t' w')
  with assms(2-4) show ?case by auto
qed

lemma ew_tokens_law:
  assumes "ew_ok w" and "pos \<le> length data" and "greedy table m data pos = (tg, toks)"
  shows "tokens_law chk m data pos w tg toks (ew_tokens chk table m data pos w)"
  using assms
proof (induction chk table m data pos w arbitrary: toks rule: ew_tokens.induct)
  case (1 chk table m data pos w)
  show ?case
  proof (cases "pos < length data")
    case False
    then have "ew_tokens chk table m data pos w = (table, w, Inr pos)" "greedy table m data pos = (table, [])"
      by (subst ew_tokens.simps greedy.simps, simp)+
    with 1(3-5) False show ?thesis by (simp add: tokens_law_def)
  next
    case True
    obtain w1 room where w1: "(if chk then ew_ready TOKEN_BITS w else (w, True)) = (w1, room)" by fastforce
    have ready: "ew_ok w1" "ew_bits w1 = ew_bits w" "ew_room w1 = ew_room w"
      "chk \<Longrightarrow> room \<Longrightarrow> length (ew_bits w) + 31 < 8 * ew_room w + 32" "\<not> room \<Longrightarrow> chk \<and> length (ew_out w1) = ew_room w"
      using ew_ready_spec [OF 1(3), of TOKEN_BITS w1 room] w1 1(3) by (auto simp: TOKEN_BITS_def split: if_splits)
    show ?thesis
    proof (cases room)
      case False
      with True w1 have "ew_tokens chk table m data pos w = (table, w1, Inr pos)" by (subst ew_tokens.simps) simp
      moreover have "tokens_law chk m data pos w tg toks (table, w1, Inr pos)"
        unfolding tokens_law_def using ready False 1(4,5) True
        by (intro disjI1 exI [of _ table] exI [of _ w1] exI [of _ pos] exI [of _ "[]"] exI [of _ toks]) simp
      ultimately show ?thesis by simp
    next
      case room: True
      obtain t2 len dist where f: "embed_find table m data pos = (t2, len, dist)" by (cases "embed_find table m data pos")
      have fits: "\<not> chk" if "8 * ew_room w + 32 \<le> length (ew_bits w @ p)" "length p \<le> 31" for p
        using ready(4) room that by force
      show ?thesis
      proof (cases "len < MIN_MATCH")
        case lit: True
        obtain t3 ts where g: "greedy t2 m data (pos + 1) = (t3, ts)" by fastforce
        with 1(5) True f lit have toks: "toks = TLit (data ! pos) # ts" and tg: "t3 = tg"
          by (simp_all add: greedy.simps [of table])
        from writes_prefix [OF writes_lit [OF ready(1), of "data ! pos"], of "tok_bits ts"] show ?thesis
        proof (elim disjE exE conjE, goal_cases)
          case (1 w2)
          then have step: "ew_tokens chk table m data pos w = ew_tokens chk t2 m data (pos + 1) w2"
            using True w1 room f lit by (subst ew_tokens.simps) simp
          have "tokens_law chk m data (pos + 1) w2 tg ts (ew_tokens chk t2 m data (pos + 1) w2)"
            by (rule "1.IH"(1) [OF True w1 [symmetric] _ f [symmetric] refl lit 1(1) [symmetric] refl 1(2)])
              (use room True g tg in simp_all)
          then show ?case unfolding step toks
            by (rule tokens_law_step) (use 1 ready in simp_all)
        next
          case (2 w2)
          then have "ew_tokens chk table m data pos w = (t2, w2, Inl OutputTooSmall)"
            using True w1 room f lit by (subst ew_tokens.simps) simp
          moreover have "\<not> chk" using fits [of "token_bits fixed_ll fixed_dl (TLit (data ! pos))"] literal_bits_length
            writes_lit [OF ready(1), of "data ! pos"] 2(1) ready by (auto simp: writes_def simp del: token_bits.simps)
          ultimately show ?case using 2(2) ready toks by (simp add: tokens_law_def)
        qed
      next
        case copy: False
        then have len: "3 \<le> len" by (simp add: MIN_MATCH_def)
        note f' = embed_find_match [OF f True len]
        obtain t3 ts where g: "greedy t2 m data (pos + len) = (t3, ts)" by fastforce
        with 1(5) True f copy have toks: "toks = TCopy len dist # ts" and tg: "t3 = tg"
          by (simp_all add: greedy.simps [of table])
        note wc = writes_copy [OF ready(1) len f'(1-3)]
        from writes_prefix [OF wc, of "tok_bits ts"] show ?thesis
        proof (elim disjE exE conjE, goal_cases)
          case (1 w2)
          then have step: "ew_tokens chk table m data pos w = ew_tokens chk t2 m data (pos + len) w2"
            using True w1 room f copy by (subst ew_tokens.simps) simp
          have "tokens_law chk m data (pos + len) w2 tg ts (ew_tokens chk t2 m data (pos + len) w2)"
            by (rule "1.IH"(2) [OF True w1 [symmetric] _ f [symmetric] refl copy 1(1) [symmetric] refl 1(2)])
              (use room f'(5) g tg in simp_all)
          then show ?case unfolding step toks
            by (rule tokens_law_step) (use 1 ready in simp_all)
        next
          case (2 w2)
          then have "ew_tokens chk table m data pos w = (t2, w2, Inl OutputTooSmall)"
            using True w1 room f copy by (subst ew_tokens.simps) simp
          moreover have "\<not> chk" using fits [of "token_bits fixed_ll fixed_dl (TCopy len dist)"] token_bits_length [OF len f'(1-3)]
            wc 2(1) ready by (auto simp: writes_def simp del: token_bits.simps)
          ultimately show ?case using 2(2) ready toks by (simp add: tokens_law_def)
        qed
      qed
    qed
  qed
qed

section \<open>One shot\<close>

lemma writes_then:
  assumes "writes w p r" and "\<And>w'. ew_ok w' \<Longrightarrow> ew_bits w' = ew_bits w @ p \<Longrightarrow> writes w' q (f w' ())"
  shows "writes w (p @ q) (andthen r f)"
  using assms(1) unfolding writes_def
proof (elim disjE exE conjE, goal_cases)
  case (1 w')
  with assms(2) [OF 1(2)] show ?case by (auto simp: writes_def)
next
  case (2 w')
  then show ?case by auto
qed

lemma writes_done: "ew_ok w \<Longrightarrow> writes w [] (w, Inr ())"
  by (simp add: writes_def)

lemma writes_header: "ew_ok w \<Longrightarrow> writes w (stream_bits bs) (ew_header bs w)"
proof (induction bs arbitrary: w)
  case Nil
  then show ?case by (simp add: writes_done)
next
  case (Cons b bs)
  have "lsb_bits 8 (ucast b :: u32) = lsb_bits 8 b" by (rule lsb_bits_ucast) simp
  moreover have "writes w (lsb_bits 8 (ucast b :: u32)) (ew_put (ucast b) 8 w)"
    by (rule writes_put [OF Cons.prems]) (auto simp: bit_ucast_iff dest: bit_imp_le_length)
  ultimately show ?case using Cons.IH by (auto intro: writes_andthen)
qed

lemma writes_trailer: "ew_ok w \<Longrightarrow> writes w (concat (map (lsb_bits 32) cs)) (ew_trailer cs w)"
proof (induction cs arbitrary: w)
  case Nil
  then show ?case by (simp add: writes_done)
next
  case (Cons c cs)
  have m: "(0xffff :: u32) = mask 16" by (simp add: mask_eq_exp_minus_1)
  have low: "writes w (lsb_bits 16 c) (ew_put (c AND 0xffff) 16 w)" if "ew_ok w" for w
    using writes_put [OF that, of 16 "c AND mask 16"] lsb_bits_mask [of 16 16 c]
    unfolding m by (auto simp: bit_and_iff bit_mask_iff)
  have high: "writes w (lsb_bits 16 (drop_bit 16 c)) (ew_put (drop_bit 16 c) 16 w)" if "ew_ok w" for w
    by (rule writes_put [OF that]) (auto simp: bit_drop_bit_eq dest: bit_imp_le_length)
  have "lsb_bits 32 c = lsb_bits 16 c @ lsb_bits 16 (drop_bit 16 c)" using lsb_bits_add [of 16 16 c] by simp
  then show ?case using Cons low high by (auto intro!: writes_andthen)
qed

definition pad_bits :: "nat \<Rightarrow> bool list" where
  "pad_bits n = replicate ((8 - n mod 8) mod 8) False"

lemma length_pad: "(n + length (pad_bits n)) mod 8 = 0"
proof -
  have "(n + (8 - n mod 8) mod 8) mod 8 = (n mod 8 + (8 - n mod 8)) mod 8" by (simp only: mod_simps)
  also have "n mod 8 + (8 - n mod 8) = 8" using mod_less_divisor [of 8 n] by linarith
  finally show ?thesis by (simp add: pad_bits_def)
qed

lemma writes_pad: "ew_ok w \<Longrightarrow> writes w (pad_bits (length (ew_bits w))) (ew_pad w)"
proof -
  assume ok: "ew_ok w"
  let ?n = "unat (- word_of_nat (ew_bit_cnt w) AND (7 :: u32))"
  have m: "(7 :: u32) = mask 3" by (simp add: mask_eq_exp_minus_1)
  have "?n = unat (- word_of_nat (ew_bit_cnt w) :: u32) mod 8"
    unfolding m by (simp only: take_bit_eq_mask [symmetric] unsigned_take_bit_eq) (simp add: take_bit_eq_mod)
  also have "\<dots> = (8 - ew_bit_cnt w mod 8) mod 8"
  proof -
    have "ew_bit_cnt w < 2 ^ 32" using ok by (simp add: ew_ok_def)
    then have u: "unat (word_of_nat (ew_bit_cnt w) :: u32) = ew_bit_cnt w" by (simp add: unat_of_nat)
    show ?thesis
    proof (cases "ew_bit_cnt w = 0")
      case False
      have "(- word_of_nat (ew_bit_cnt w) :: u32) = word_of_nat (2 ^ 32 - ew_bit_cnt w)"
        using ok by (simp add: of_nat_diff ew_ok_def)
      with False ok have "unat (- word_of_nat (ew_bit_cnt w) :: u32) = 2 ^ 32 - ew_bit_cnt w"
        by (simp add: unat_of_nat)
      moreover have c: "ew_bit_cnt w < 32" using ok by (simp add: ew_ok_def)
      then have "2 ^ 32 - ew_bit_cnt w = 32 - ew_bit_cnt w + 536870908 * 8" by simp
      then have "(2 ^ 32 - ew_bit_cnt w) mod 8 = (32 - ew_bit_cnt w) mod 8" by (simp only: mod_mult_self1)
      moreover have "(32 - ew_bit_cnt w) mod 8 = (8 - ew_bit_cnt w mod 8) mod 8"
      proof -
        define q r where "q = ew_bit_cnt w div 8" and "r = ew_bit_cnt w mod 8"
        have qr: "ew_bit_cnt w = 8 * q + r" "r < 8" unfolding q_def r_def by simp_all
        with c have "q \<le> 3" by linarith
        with qr have "32 - ew_bit_cnt w = (8 - r) + (3 - q) * 8" by simp
        then have "(32 - ew_bit_cnt w) mod 8 = (8 - r) mod 8" by (simp only: mod_mult_self1)
        then show ?thesis by (simp only: r_def)
      qed
      ultimately show ?thesis by (simp only:)
    qed simp
  qed
  also have "\<dots> = (8 - length (ew_bits w) mod 8) mod 8" by (simp add: ew_bits_def)
  finally have n: "?n = (8 - length (ew_bits w) mod 8) mod 8" .
  have "lsb_bits ?n (0 :: u32) = replicate ?n False" by (rule nth_equalityI) (simp_all add: nth_lsb_bits)
  moreover have "writes w (lsb_bits ?n (0 :: u32)) (ew_put 0 ?n w)"
    by (rule writes_put [OF ok]) (simp_all add: n)
  ultimately show ?thesis by (simp add: ew_pad_def pad_bits_def n)
qed

text \<open>The bits of a whole one-shot stream, without its trailer's padding; and with it.\<close>

definition data_bits :: "u16 list \<Rightarrow> byte list \<Rightarrow> bool list" where
  "data_bits table data =
     (if data = [] then [] else [False, True, False] @ fixed_bits (snd (greedy table (table_mask table) data 0)))"

definition close_bits :: "bool list" where
  "close_bits = [True, True, False] @ huff_code fixed_ll 256"

definition with_pad :: "bool list \<Rightarrow> bool list" where
  "with_pad p = p @ pad_bits (length p)"

lemma length_with_pad: "8 dvd length (with_pad p)"
  by (simp add: with_pad_def length_pad dvd_eq_mod_eq_0)

lemma writes_const:
  assumes "ew_ok w" and "n \<le> 16" and "v < 2 ^ n" and "lsb_bits n (word_of_nat v :: u32) = p"
  shows "writes w p (ew_put (word_of_nat v) n w)"
  using writes_nat [OF assms(1,3,2)] lsb_bits_nat [of n v, where ?'a = 32] assms(2,4) by simp

lemma head_bits: "lsb_bits 3 (2 :: u32) = [False, True, False]" "lsb_bits 3 (3 :: u32) = [True, True, False]"
  by (simp_all add: lsb_bits_def upt_rec)

lemma writes_head:
  "ew_ok w \<Longrightarrow> writes w [False, True, False] (ew_put 2 3 w)"
  "ew_ok w \<Longrightarrow> writes w [True, True, False] (ew_put 3 3 w)"
  using writes_const [of w 3 2] writes_const [of w 3 3] by (simp_all add: head_bits)

lemma writes_eob: "ew_ok w \<Longrightarrow> writes w (huff_code fixed_ll 256) (ew_symbol END_OF_BLOCK w)"
  using writes_symbol [of w 256] by (simp add: END_OF_BLOCK_def)

lemma writes_close:
  assumes "ew_ok w"
  shows "writes w (close_bits @ pad_bits (length (ew_bits w @ close_bits)) @ concat (map (lsb_bits 32) words)) (ew_close words w)"
proof -
  have "writes w ([True, True, False] @ huff_code fixed_ll 256 @ pad_bits (length (ew_bits w @ close_bits))
      @ concat (map (lsb_bits 32) words)) (ew_close words w)"
    unfolding ew_close_def
  proof (rule writes_then [OF writes_head(2) [OF assms]], goal_cases)
    case (1 w1)
    show ?case
    proof (rule writes_then [OF writes_eob [OF 1(1)]], goal_cases)
      case (1 w2)
      have "length (ew_bits w2) = length (ew_bits w @ close_bits)"
        using 1(2) \<open>ew_bits w1 = _\<close> by (simp add: close_bits_def)
      then show ?case using writes_pad [OF 1(1)]
        by (intro writes_then [OF _ writes_trailer]) simp_all
    qed
  qed
  then show ?thesis by (simp add: close_bits_def)
qed

lemma ew_data_spec:
  assumes "ew_ok w" and "ew_data table data w = (t', w', r)"
  shows "r = Inr () \<and> ew_ok w' \<and> ew_room w' = ew_room w \<and> ew_bits w' = ew_bits w @ data_bits table data
    \<or> r = Inl OutputTooSmall \<and> 8 * ew_room w + 32 \<le> length (ew_bits w @ data_bits table data)"
proof (cases "data = []")
  case True
  with assms show ?thesis by (auto simp: ew_data_def data_bits_def)
next
  case False
  obtain tg toks where g: "greedy table (table_mask table) data 0 = (tg, toks)" by fastforce
  have db: "data_bits table data = [False, True, False] @ tok_bits toks @ huff_code fixed_ll 256"
    using False g by (simp add: data_bits_def fixed_bits_def)
  from writes_prefix [OF writes_head(1) [OF assms(1)], of "tok_bits toks @ huff_code fixed_ll 256"] show ?thesis
  proof (elim disjE exE conjE, goal_cases)
    case (1 w1)
    obtain t1 w2 r2 where tk: "ew_tokens False table (table_mask table) data 0 w1 = (t1, w2, r2)"
      by (cases "ew_tokens False table (table_mask table) data 0 w1") 
    from ew_tokens_law [OF 1(2) _ g, of False] have "tokens_law False (table_mask table) data 0 w1 tg toks (t1, w2, r2)"
      unfolding tk by simp
    then consider
        pos' where "r2 = Inr pos'" "ew_ok w2" "ew_room w2 = ew_room w1" "ew_bits w2 = ew_bits w1 @ tok_bits toks"
      | "r2 = Inl OutputTooSmall" "8 * ew_room w1 + 32 \<le> length (ew_bits w1 @ tok_bits toks)"
      unfolding tokens_law_def by (auto simp: greedy.simps [of t1])
    then show ?case
    proof cases
      case (1 pos')
      with assms(2) False tk \<open>ew_put 2 3 w = _\<close> have "ew_symbol END_OF_BLOCK w2 = (w', r)"
        by (simp add: ew_data_def)
      with writes_eob [OF 1(2)] 1 \<open>ew_room w1 = _\<close> \<open>ew_bits w1 = _\<close> show ?thesis by (auto simp: writes_def db)
    next
      case 2
      with assms(2) False tk \<open>ew_put 2 3 w = _\<close> have "r = Inl OutputTooSmall" by (simp add: ew_data_def)
      with 2 \<open>ew_room w1 = _\<close> \<open>ew_bits w1 = _\<close> show ?thesis by (auto simp: db)
    qed
  next
    case (2 w1)
    with assms(2) False have "r = Inl OutputTooSmall" by (simp add: ew_data_def)
    with 2 show ?case by (simp add: db)
  qed
qed

text \<open>The stream of \<open>data\<close>: its bits are a whole number of bytes.\<close>

definition trailer_words :: "'f format_ops \<Rightarrow> byte list \<Rightarrow> u32 list" where
  "trailer_words fmt data =
     take (fm_trailer fmt) (fm_words fmt (fm_update fmt (fm_init fmt) data) (word_of_nat (length data)))"

definition stream_with :: "'f format_ops \<Rightarrow> bool list \<Rightarrow> byte list \<Rightarrow> bool list" where
  "stream_with fmt body data =
     with_pad (stream_bits (fm_header fmt) @ body @ close_bits)
     @ concat (map (lsb_bits 32) (trailer_words fmt data))"

definition stream_of :: "'f format_ops \<Rightarrow> u16 list \<Rightarrow> byte list \<Rightarrow> bool list" where
  "stream_of fmt table data = stream_with fmt (data_bits table data) data"

definition stream_len :: "'f format_ops \<Rightarrow> u16 list \<Rightarrow> byte list \<Rightarrow> nat" where
  "stream_len fmt table data = length (stream_of fmt table data) div 8"

lemma length_words: "length (concat (map (lsb_bits 32) (ws :: u32 list))) = 8 * (4 * length ws)"
  by (induction ws) simp_all

lemma stream_len_bits: "length (stream_of fmt table data) = 8 * stream_len fmt table data"
proof -
  have "8 dvd length (stream_of fmt table data)"
    unfolding stream_of_def stream_with_def length_append length_words by (intro dvd_add length_with_pad dvd_triv_left)
  then show ?thesis by (simp add: stream_len_def)
qed

lemma ew_flush_final:
  assumes "ew_ok w" and "length (ew_bits w) = 8 * n"
  shows "if n \<le> ew_room w then ew_bit_cnt (ew_flush w) = 0 \<and> stream_bits (ew_out (ew_flush w)) = ew_bits w
    else ew_bit_cnt (ew_flush w) \<noteq> 0"
proof -
  note f = ew_flush_spec [OF assms(1)]
  let ?w = "ew_flush w"
  have len: "8 * n = 8 * length (ew_out ?w) + ew_bit_cnt ?w"
    using f assms(2) by (metis ew_bits_def length_append length_lsb_bits length_stream_bits)
  have le: "length (ew_out ?w) \<le> ew_room w" using f by (simp add: ew_ok_def)
  have "ew_bit_cnt ?w < 8 \<or> length (ew_out ?w) = ew_room w" using f by blast
  show ?thesis
  proof (cases "n \<le> ew_room w")
    case True
    have "ew_bit_cnt ?w = 0"
      using \<open>ew_bit_cnt ?w < 8 \<or> _\<close>
    proof
      assume c: "ew_bit_cnt ?w < 8"
      with len have "n \<le> length (ew_out ?w)" by linarith
      with len show ?thesis by linarith
    qed (use len True in linarith)
    moreover from this f have "stream_bits (ew_out ?w) = ew_bits w" by (simp add: ew_bits_def)
    ultimately show ?thesis using True by simp
  next
    case False
    with len le show ?thesis by simp
  qed
qed

lemma embed_compress_spec:
  assumes "embed_compress fmt data table dst = (t', dst', r)"
  shows "if stream_len fmt table data \<le> length dst
    then r = Inr (stream_len fmt table data) \<and> length dst' = length dst
      \<and> stream_bits (take (stream_len fmt table data) dst') = stream_of fmt table data
    else r = Inl OutputTooSmall"
proof -
  let ?n = "stream_len fmt table data" and ?h = "stream_bits (fm_header fmt)" and ?d = "data_bits table data"
  define w0 where "w0 = \<lparr>ew_room = length dst, ew_out = [], ew_bit_buf = 0, ew_bit_cnt = 0\<rparr>"
  have w0: "ew_ok w0" "ew_bits w0 = []" "ew_room w0 = length dst" by (simp_all add: w0_def ew_ok_def ew_bits_def)
  obtain w1 r1 where h: "ew_header (fm_header fmt) w0 = (w1, r1)" by fastforce
  obtain t2 w2 r2 where d: "ew_data table data w1 = (t2, w2, r2)" by (cases "ew_data table data w1")
  obtain w3 r3 where c: "ew_close (trailer_words fmt data) w2 = (w3, r3)" by fastforce
  have all: "stream_of fmt table data
      = ?h @ ?d @ close_bits @ pad_bits (length (?h @ ?d @ close_bits)) @ concat (map (lsb_bits 32) (trailer_words fmt data))"
    by (simp add: stream_of_def stream_with_def with_pad_def)
  have small: "\<not> ?n \<le> length dst" if "8 * length dst + 32 \<le> length p" "stream_of fmt table data = p @ q" for p q
    using that stream_len_bits [of fmt table data] by simp
  note def = embed_compress_def [of fmt data table dst, folded w0_def trailer_words_def, unfolded h]
  from writes_header [OF w0(1), of "fm_header fmt"] h consider
      "r1 = Inr ()" "ew_ok w1" "ew_bits w1 = ?h" "ew_room w1 = length dst"
    | "r1 = Inl OutputTooSmall" "8 * length dst + 32 \<le> length ?h"
    using w0 by (auto simp: writes_def)
  then show ?thesis
  proof cases
    case 2
    with assms small [of ?h] all show ?thesis by (auto simp: def)
  next
    case 1
    from ew_data_spec [OF 1(2) d] show ?thesis
    proof (elim disjE conjE, goal_cases)
      case two: 2
      with assms small [of "?h @ ?d"] all 1 d show ?thesis by (auto simp: def)
    next
      case data: 1
      have wc: "writes w2 (close_bits @ pad_bits (length (?h @ ?d @ close_bits)) @ concat (map (lsb_bits 32) (trailer_words fmt data))) (w3, r3)"
        using writes_close [OF data(2), of "trailer_words fmt data"] c data(4) 1(3) by simp
      then consider "r3 = Inr ()" "ew_ok w3" "ew_bits w3 = stream_of fmt table data" "ew_room w3 = length dst"
        | "r3 = Inl OutputTooSmall" "8 * length dst + 32 \<le> length (stream_of fmt table data)"
        using data 1 by (auto simp: writes_def all)
      then show ?thesis
      proof cases
        case 2
        with assms small [of "stream_of fmt table data"] 1 d data c show ?thesis
          by (auto simp: def Let_def trailer_words_def [symmetric])
      next
        case three: 1
        from ew_flush_final [OF three(2), of ?n] three stream_len_bits [of fmt table data]
        have fin: "if ?n \<le> length dst then ew_bit_cnt (ew_flush w3) = 0 \<and> stream_bits (ew_out (ew_flush w3)) = stream_of fmt table data
          else ew_bit_cnt (ew_flush w3) \<noteq> 0" by simp
        have res: "dst' = ew_out (ew_flush w3) @ drop (length (ew_out (ew_flush w3))) dst"
          "r = (if ew_bit_cnt (ew_flush w3) \<noteq> 0 then Inl OutputTooSmall else Inr (length (ew_out (ew_flush w3))))"
          using assms 1 d data c three
          by (auto simp: def Let_def trailer_words_def [symmetric])
        show ?thesis
        proof (cases "?n \<le> length dst")
          case True
          with fin have s: "ew_bit_cnt (ew_flush w3) = 0" "stream_bits (ew_out (ew_flush w3)) = stream_of fmt table data" by auto
          then have "8 * length (ew_out (ew_flush w3)) = 8 * ?n" using stream_len_bits by (metis length_stream_bits)
          then have "length (ew_out (ew_flush w3)) = ?n" by simp
          with True s res show ?thesis by simp
        qed (use fin res in auto)
      qed
    qed
  qed
qed

section \<open>The size of a stream\<close>

text \<open>A token takes at most nine bits for each byte it stands for: a match of three bytes is at most
  \<open>TOO_FAR\<close> away.\<close>

lemma embed_find_near:
  "embed_find table m data pos = (table1, 3, dist) \<Longrightarrow> dist \<le> 4096"
  by (auto simp: embed_find_def Let_def MIN_MATCH_def TOO_FAR_def split: if_splits)

lemma token_cost:
  assumes "3 \<le> len" and "len \<le> 258" and "1 \<le> dist" and "dist \<le> 32768" and "len = 3 \<Longrightarrow> dist \<le> 4096"
  shows "length (token_bits fixed_ll fixed_dl (TCopy len dist)) \<le> 9 * len"
proof -
  consider "len = 3" | "len = 4" | "5 \<le> len" using assms(1) by linarith
  then show ?thesis
  proof cases
    case 3
    then show ?thesis using token_bits_length [OF assms(1-4)] by linarith
  next
    case short: 1
    obtain ds de dv where dc: "dist_code dist = (ds, de, dv)" by (cases "dist_code dist")
    have "de \<le> 10"
    proof (rule ccontr)
      assume "\<not> de \<le> 10"
      then have "(2::nat) ^ 11 \<le> 2 ^ de" by (intro power_increasing) simp_all
      moreover from \<open>\<not> de \<le> 10\<close> dist_code_spec [OF dc assms(3,4)]
      have d: "dist = (2 + ds mod 2) * 2 ^ de + 1 + dv" by auto
      have "2 * 2 ^ de \<le> (2 + ds mod 2) * 2 ^ de" by (rule mult_le_mono1) simp
      ultimately show False using assms(5) [OF short] d by simp
    qed
    moreover have "ds < 32" using dist_code_spec [OF dc assms(3,4)] by auto
    ultimately show ?thesis using short by (simp add: dc len_code_def huff_code_def fixed_ll_nth fixed_dl_eq)
  next
    case four: 2
    obtain ds de dv where dc: "dist_code dist = (ds, de, dv)" by (cases "dist_code dist")
    have "de \<le> 13" "ds < 32" using dist_code_spec [OF dc assms(3,4)] by auto
    then show ?thesis using four by (simp add: dc len_code_def Let_def huff_code_def fixed_ll_nth fixed_dl_eq)
  qed
qed

lemma greedy_cost:
  assumes "pos \<le> length data" and "greedy table m data pos = (table1, toks)"
  shows "length (tok_bits toks) \<le> 9 * (length data - pos)"
  using assms
proof (induction table m data pos arbitrary: table1 toks rule: greedy.induct)
  case (1 table m data pos)
  show ?case
  proof (cases "pos < length data")
    case False
    with 1 show ?thesis by (simp add: greedy.simps [of table])
  next
    case True
    obtain t2 len dist where f: "embed_find table m data pos = (t2, len, dist)" by (cases "embed_find table m data pos")
    show ?thesis
    proof (cases "len < MIN_MATCH")
      case lit: True
      obtain t3 ts where g: "greedy t2 m data (pos + 1) = (t3, ts)" by fastforce
      with 1(4) True f lit have toks: "toks = TLit (data ! pos) # ts" by (simp add: greedy.simps [of table])
      have "length (tok_bits ts) \<le> 9 * (length data - (pos + 1))"
        by (rule 1(1) [OF True f [symmetric] refl lit _ g]) (use True in simp)
      moreover have "length (token_bits fixed_ll fixed_dl (TLit (data ! pos))) \<le> 9"
      proof -
        have "unat (data ! pos) < 288" using unat_byte_less [of "data ! pos"] by linarith
        then show ?thesis by (simp add: huff_code_def fixed_ll_nth)
      qed
      ultimately show ?thesis using True by (simp add: toks)
    next
      case copy: False
      then have len: "3 \<le> len" by (simp add: MIN_MATCH_def)
      note f' = embed_find_match [OF f True len]
      obtain t3 ts where g: "greedy t2 m data (pos + len) = (t3, ts)" by fastforce
      with 1(4) True f copy have toks: "toks = TCopy len dist # ts" by (simp add: greedy.simps [of table])
      have "length (tok_bits ts) \<le> 9 * (length data - (pos + len))"
        by (rule 1(2) [OF True f [symmetric] refl copy _ g]) (use f'(5) in simp)
      moreover have "length (token_bits fixed_ll fixed_dl (TCopy len dist)) \<le> 9 * len"
        using token_cost [OF len f'(1-3)] embed_find_near f by blast
      ultimately show ?thesis using f'(5) by (simp add: toks del: token_bits.simps)
    qed
  qed
qed

lemma stream_len_le:
  "stream_len fmt table data
   \<le> length (fm_header fmt) + length data + (length data + 27) div 8 + 4 * fm_trailer fmt"
proof -
  obtain tg toks where g: "greedy table (table_mask table) data 0 = (tg, toks)" by fastforce
  have eob: "length (huff_code fixed_ll 256) = 7" by (simp add: huff_code_def fixed_ll_nth)
  have d: "length (data_bits table data) \<le> 9 * length data + 10"
    using greedy_cost [OF _ g] g by (simp add: data_bits_def fixed_bits_def eob)
  have pad: "length (pad_bits n) \<le> 7" for n by (simp add: pad_bits_def)
  have "length (trailer_words fmt data) \<le> fm_trailer fmt" by (simp add: trailer_words_def)
  then have "length (stream_of fmt table data)
      \<le> 8 * length (fm_header fmt) + (9 * length data + 10) + 10 + 7 + 32 * fm_trailer fmt"
    using d pad [of "8 * length (fm_header fmt) + (length (data_bits table data) + 10)"]
    by (simp add: stream_of_def stream_with_def with_pad_def length_words close_bits_def eob)
  also have "\<dots> = 8 * (length (fm_header fmt) + length data + 4 * fm_trailer fmt) + (length data + 27)" by simp
  finally have "8 * stream_len fmt table data div 8
      \<le> (8 * (length (fm_header fmt) + length data + 4 * fm_trailer fmt) + (length data + 27)) div 8"
    unfolding stream_len_bits by (rule div_le_mono)
  then show ?thesis by (simp only: div_mult_self4 div_mult_self1_is_m zero_less_numeral)
qed

end
