(* ===== verification/EmbedRoundtrip.thy ===== *)
theory EmbedRoundtrip
  imports EmbedStream
begin

text \<open>
  What the one-shot encoder writes, the one-shot decoder reads back, in each of the three
  containers: into a slice that has room for it, or as a length.
\<close>

lemma at_bits_empty: "at_bits s [] \<Longrightarrow> in_input s = [] \<and> \<not> in_exhausted s"
  by (auto simp: at_bits_def in_ok_def in_bits_def dest: arg_cong [of _ _ length])

lemma inf_word_bits:
  assumes "at_bits s (lsb_bits 32 c @ rest)"
  obtains s' where "inf_word s = (s', c)" "at_bits s' rest" "in_sink s' = in_sink s"
proof -
  have split: "lsb_bits 32 c = lsb_bits 16 c @ lsb_bits 16 (drop_bit 16 c)" using lsb_bits_add [of 16 16 c] by simp
  let ?l = "word_of_nat (lsb_value (lsb_bits 16 c)) :: u16" and ?h = "word_of_nat (lsb_value (lsb_bits 16 (drop_bit 16 c))) :: u16"
  from assms have "at_bits s (lsb_bits 16 c @ lsb_bits 16 (drop_bit 16 c) @ rest)" by (simp add: split)
  then obtain s1 where s1: "inf_bits 16 s = (s1, ?l)" "at_bits s1 (lsb_bits 16 (drop_bit 16 c) @ rest)" "in_sink s1 = in_sink s"
    by (rule at_bits_read) (simp, linarith, blast)
  obtain s2 where s2: "inf_bits 16 s1 = (s2, ?h)" "at_bits s2 rest" "in_sink s2 = in_sink s1"
    by (rule at_bits_read [OF s1(2)]) (simp, linarith, blast)
  have l: "ucast ?l = take_bit 16 c" and h: "ucast ?h = drop_bit 16 c"
  proof -
    show "ucast ?l = take_bit 16 c"
      by (rule bit_word_eqI) (auto simp: lsb_value_bits bit_simps dest: bit_imp_le_length)
    show "ucast ?h = drop_bit 16 c"
      by (rule bit_word_eqI) (auto simp: lsb_value_bits bit_simps dest: bit_imp_le_length)
  qed
  have "push_bit 16 (ucast ?h) OR ucast ?l = c"
    unfolding l h by (rule bit_word_eqI) (auto simp: bit_simps)
  with that s1 s2 show ?thesis by (simp add: inf_word_def)
qed

lemma inf_bits_byte:
  assumes "at_bits s (lsb_bits 8 (b :: byte) @ rest)"
  obtains s' where "inf_bits 8 s = (s', ucast b)" "at_bits s' rest" "in_sink s' = in_sink s"
proof -
  obtain s' where "inf_bits 8 s = (s', word_of_nat (lsb_value (lsb_bits 8 b)))" "at_bits s' rest" "in_sink s' = in_sink s"
    by (rule at_bits_read [OF assms]) (simp, linarith, blast)
  moreover have "(word_of_nat (lsb_value (lsb_bits 8 b)) :: u16) = ucast b"
    using bit_imp_le_length [of b] by (intro bit_word_eqI) (auto simp: lsb_value_bits bit_simps)
  ultimately show ?thesis using that by simp
qed

lemma inf_align_bits:
  assumes "at_bits s (pad @ stream_bits rest)" and "length pad < 8"
  shows "at_bits (inf_align s) (stream_bits rest) \<and> in_sink (inf_align s) = in_sink s"
proof -
  have "in_bit_cnt s + 8 * length (in_input s) = length pad + 8 * length rest"
    using assms(1) by (auto simp: at_bits_def in_bits_def dest: arg_cong [of _ _ length])
  then have "(in_bit_cnt s + 8 * length (in_input s)) mod 8 = (length pad + 8 * length rest) mod 8" by simp
  with assms have n: "in_bit_cnt s mod 8 = length pad" by (simp add: at_bits_def)
  obtain s' where "inf_bits (length pad) s = (s', word_of_nat (lsb_value pad))" "at_bits s' (stream_bits rest)" "in_sink s' = in_sink s"
    by (rule at_bits_read [OF assms(1)]) (simp, use assms(2) in linarith, blast)
  then show ?thesis by (simp add: inf_align_def n)
qed

context output_sink
begin

lemma block_head:
  assumes "at_bits s ([f, k0, k1] @ rest)"
  obtains s1 s2 where "inf_bits 1 s = (s1, of_bool f)" "inf_bits 2 s1 = (s2, of_bool k0 + 2 * of_bool k1)"
    "at_bits s2 rest" "in_sink s2 = in_sink s"
proof -
  from assms have "at_bits s ([f] @ [k0, k1] @ rest)" by simp
  then obtain s1 where s1: "inf_bits 1 s = (s1, word_of_nat (lsb_value [f]))" "at_bits s1 ([k0, k1] @ rest)" "in_sink s1 = in_sink s"
    by (rule at_bits_read [where n = 1]) simp_all
  obtain s2 where s2: "inf_bits 2 s1 = (s2, word_of_nat (lsb_value [k0, k1]))" "at_bits s2 rest" "in_sink s2 = in_sink s1"
    by (rule at_bits_read [OF s1(2), where n = 2]) simp_all
  show ?thesis by (rule that [of s1 s2]) (use s1 s2 in simp_all)
qed

lemma inf_blocks_close:
  assumes "at_bits s (close_bits @ pad @ stream_bits rest)" and "length pad < 8"
    and "holds (in_sink s) xs"
  shows "\<exists>s'. inf_blocks ops s = Some (s', Inr ()) \<and> at_bits s' (stream_bits rest) \<and> holds (in_sink s') xs
    \<and> room (in_sink s') = room (in_sink s)"
proof -
  from assms(1) have "at_bits s ([True, True, False] @ fixed_bits [] @ pad @ stream_bits rest)"
    by (simp add: close_bits_def fixed_bits_def)
  then obtain s1 s2 where s: "inf_bits 1 s = (s1, of_bool True)" "inf_bits 2 s1 = (s2, of_bool True + 2 * of_bool False)"
    "at_bits s2 (fixed_bits [] @ pad @ stream_bits rest)" "in_sink s2 = in_sink s" by (rule block_head)
  obtain s3 where "inf_block ops 1 s2 = (s3, Inr ())" "at_bits s3 (pad @ stream_bits rest)" "holds (in_sink s3) xs"
    "room (in_sink s3) = room (in_sink s)"
    using fixed_block [OF s(3), of xs] assms(3) within [OF assms(3)] s(4) by auto
  with inf_align_bits [of s3 pad rest] assms(2) s show ?thesis
    by (subst inf_blocks.simps) simp
qed

lemma inf_blocks_data:
  assumes "at_bits s (data_bits table data @ close_bits @ pad @ stream_bits rest)" and "length pad < 8"
    and "holds (in_sink s) []" and "length data \<le> room (in_sink s)"
  shows "\<exists>s'. inf_blocks ops s = Some (s', Inr ()) \<and> at_bits s' (stream_bits rest) \<and> holds (in_sink s') data
    \<and> room (in_sink s') = room (in_sink s)"
proof (cases "data = []")
  case True
  with assms inf_blocks_close [of s pad rest "[]"] show ?thesis by (simp add: data_bits_def)
next
  case False
  obtain tg toks where g: "greedy table (table_mask table) data 0 = (tg, toks)" by fastforce
  from greedy_expands [OF _ g] have toks: "tokens_ok fixed_ll fixed_dl [] toks" "expand [] toks = data" by simp_all
  from assms(1) False g have "at_bits s ([False, True, False] @ fixed_bits toks @ close_bits @ pad @ stream_bits rest)"
    by (simp add: data_bits_def)
  then obtain s1 s2 where s: "inf_bits 1 s = (s1, of_bool False)" "inf_bits 2 s1 = (s2, of_bool True + 2 * of_bool False)"
    "at_bits s2 (fixed_bits toks @ close_bits @ pad @ stream_bits rest)" "in_sink s2 = in_sink s" by (rule block_head)
  obtain s3 where s3: "inf_block ops 1 s2 = (s3, Inr ())" "at_bits s3 (close_bits @ pad @ stream_bits rest)"
    "holds (in_sink s3) data" "room (in_sink s3) = room (in_sink s)"
    using fixed_block [OF s(3), of "[]"] toks assms(3,4) s(4) by auto
  with inf_blocks_close [OF s3(2) assms(2) s3(3)] s show ?thesis
    by (subst inf_blocks.simps) simp
qed

text \<open>\<open>body\<close> is blocks, all but the last, that hold \<open>data\<close>.\<close>

definition body_of :: "bool list \<Rightarrow> byte list \<Rightarrow> bool" where
  "body_of body data \<longleftrightarrow>
     (\<forall>s n words. at_bits s (body @ close_bits @ pad_bits n @ concat (map (lsb_bits 32) (words :: u32 list))) \<longrightarrow>
        holds (in_sink s) [] \<longrightarrow> length data \<le> room (in_sink s) \<longrightarrow>
        (\<exists>s'. inf_blocks ops s = Some (s', Inr ()) \<and> at_bits s' (concat (map (lsb_bits 32) words)) \<and> holds (in_sink s') data
          \<and> room (in_sink s') = room (in_sink s)))"

text \<open>The whole stream, in each container.\<close>

definition reads_back :: "'f format_ops \<Rightarrow> bool list \<Rightarrow> byte list \<Rightarrow> byte list \<Rightarrow> 'o \<Rightarrow> bool" where
  "reads_back fmt body data input o1 \<longleftrightarrow>
     (stream_bits input = stream_with fmt body data \<longrightarrow> holds o1 [] \<longrightarrow> length data \<le> room o1 \<longrightarrow>
      (\<exists>o2. oneshot_decode fmt ops input o1 = Some (o2, Inr (length data)) \<and> holds o2 data \<and> room o2 = room o1))"

lemma reads_backI:
  assumes "\<And>s. at_bits s (stream_with fmt body data) \<Longrightarrow> holds (in_sink s) [] \<Longrightarrow> length data \<le> room (in_sink s) \<Longrightarrow>
    \<exists>s'. inf_container fmt ops s = Some (s', Inr ()) \<and> \<not> in_exhausted s' \<and> holds (in_sink s') data
      \<and> room (in_sink s') = room (in_sink s)"
  shows "reads_back fmt body data input o1"
  unfolding reads_back_def
proof (intro impI)
  assume a: "stream_bits input = stream_with fmt body data" "holds o1 []" "length data \<le> room o1"
  let ?s = "\<lparr>in_input = input, in_sink = o1, in_bit_buf = 0, in_bit_cnt = 0, in_exhausted = False\<rparr> :: 'o inflate"
  have "at_bits ?s (stream_with fmt body data)" using a(1) by (simp add: at_bits_def in_ok_def in_bits_def)
  from assms [OF this] a(2,3) obtain s' where "inf_container fmt ops ?s = Some (s', Inr ())" "\<not> in_exhausted s'"
    "holds (in_sink s') data" "room (in_sink s') = room o1" by auto
  then show "\<exists>o2. oneshot_decode fmt ops input o1 = Some (o2, Inr (length data)) \<and> holds o2 data \<and> room o2 = room o1"
    by (simp add: oneshot_decode_def written)
qed

lemma words_bytes: "\<exists>rest. concat (map (lsb_bits 32) (words :: u32 list)) = stream_bits rest"
proof -
  have w: "lsb_bits 32 c = stream_bits (le_bytes 4 c)" for c :: u32
  proof -
    have "stream_bits (le_bytes 4 c) = lsb_bits (8 + (8 + (8 + 8))) c"
      unfolding lsb_bits_add
      by (simp add: le_bytes_def upt_rec lsb_bits_ucast drop_bit_drop_bit)
    then show ?thesis by simp
  qed
  have "concat (map (lsb_bits 32) words) = stream_bits (concat (map (le_bytes 4) words))" for words :: "u32 list"
    by (induction words) (simp_all add: w)
  then show ?thesis by blast
qed

lemma body_ofI:
  assumes "\<And>s pad rest. at_bits s (body @ close_bits @ pad @ stream_bits rest) \<Longrightarrow> length pad < 8 \<Longrightarrow>
      holds (in_sink s) [] \<Longrightarrow> length data \<le> room (in_sink s) \<Longrightarrow>
      \<exists>s'. inf_blocks ops s = Some (s', Inr ()) \<and> at_bits s' (stream_bits rest) \<and> holds (in_sink s') data
        \<and> room (in_sink s') = room (in_sink s)"
  shows "body_of body data"
  unfolding body_of_def
proof (intro allI impI)
  fix s :: "'o inflate" and n :: nat and words :: "u32 list"
  assume a: "at_bits s (body @ close_bits @ pad_bits n @ concat (map (lsb_bits 32) words))"
    "holds (in_sink s) []" "length data \<le> room (in_sink s)"
  obtain rest where rest: "concat (map (lsb_bits 32) words) = stream_bits rest" using words_bytes by blast
  have "length (pad_bits n) < 8" by (simp add: pad_bits_def)
  from assms [OF a(1) [unfolded rest] this a(2,3)] show
    "\<exists>s'. inf_blocks ops s = Some (s', Inr ()) \<and> at_bits s' (concat (map (lsb_bits 32) words)) \<and> holds (in_sink s') data
      \<and> room (in_sink s') = room (in_sink s)" unfolding rest .
qed

lemma body_ofD:
  assumes "body_of body data"
    and "at_bits s (body @ close_bits @ pad_bits n @ concat (map (lsb_bits 32) (words :: u32 list)))"
    and "holds (in_sink s) []" and "length data \<le> room (in_sink s)"
  shows "\<exists>s'. inf_blocks ops s = Some (s', Inr ()) \<and> at_bits s' (concat (map (lsb_bits 32) words)) \<and> holds (in_sink s') data
    \<and> room (in_sink s') = room (in_sink s)"
  using assms unfolding body_of_def by blast

lemma data_bits_body: "body_of (data_bits table data) data"
  by (rule body_ofI) (rule inf_blocks_data)

lemma verify_ok:
  assumes "holds (in_sink s) data" and "c = fm_words fmt (fm_update fmt (fm_init fmt) data) 0 ! 0"
  shows "inf_verify fmt ops s 0 c = Inr ()"
  using data [OF assms(1), of 0] assms(2) by (simp add: inf_verify_def)

lemma raw_reads_back:
  assumes "body_of body data"
  shows "reads_back raw_format body data input o1"
proof (rule reads_backI)
  fix s assume a: "at_bits s (stream_with raw_format body data)" "holds (in_sink s) []" "length data \<le> room (in_sink s)"
  have "stream_with raw_format body data
      = body @ close_bits @ pad_bits (length (body @ close_bits)) @ concat (map (lsb_bits 32) ([] :: u32 list))"
    by (simp add: stream_with_def with_pad_def trailer_words_def raw_format_def)
  from body_ofD [OF assms a(1) [unfolded this] a(2,3)] at_bits_empty show
    "\<exists>s'. inf_container raw_format ops s = Some (s', Inr ()) \<and> \<not> in_exhausted s' \<and> holds (in_sink s') data
      \<and> room (in_sink s') = room (in_sink s)"
    by (fastforce simp: inf_container_def raw_format_def)
qed

lemma zlib_reads_back:
  assumes "body_of body data"
  shows "reads_back zlib_format body data input o1"
proof (rule reads_backI)
  fix s assume a: "at_bits s (stream_with zlib_format body data)" "holds (in_sink s) []" "length data \<le> room (in_sink s)"
  let ?f = "fm_update zlib_format (fm_init zlib_format) data"
  let ?c = "swap_bytes (embed_adler_value ?f)"
  define p where "p = stream_bits [0x78, 0x01 :: byte] @ body @ close_bits"
  have "stream_with zlib_format body data
      = lsb_bits 8 (0x78 :: byte) @ lsb_bits 8 (0x01 :: byte) @ body @ close_bits @ pad_bits (length p)
        @ concat (map (lsb_bits 32) [?c])"
    unfolding p_def by (simp add: stream_with_def with_pad_def trailer_words_def zlib_format_def)
  note b = a(1) [unfolded this]
  obtain s1 where s1: "inf_bits 8 s = (s1, ucast (0x78 :: byte))"
    "at_bits s1 (lsb_bits 8 (0x01 :: byte) @ body @ close_bits @ pad_bits (length p) @ concat (map (lsb_bits 32) [?c]))"
    "in_sink s1 = in_sink s" by (rule inf_bits_byte [OF b])
  obtain s2 where s2: "inf_bits 8 s1 = (s2, ucast (0x01 :: byte))"
    "at_bits s2 (body @ close_bits @ pad_bits (length p) @ concat (map (lsb_bits 32) [?c]))"
    "in_sink s2 = in_sink s1" by (rule inf_bits_byte [OF s1(2)])
  from body_ofD [OF assms s2(2)] a(2,3) s1(3) s2(3) obtain s3 where
    s3: "inf_blocks ops s2 = Some (s3, Inr ())" "at_bits s3 (lsb_bits 32 ?c @ [])" "holds (in_sink s3) data"
      "room (in_sink s3) = room (in_sink s)" by auto
  obtain s4 where s4: "inf_word s3 = (s4, ?c)" "at_bits s4 []" "in_sink s4 = in_sink s3" by (rule inf_word_bits [OF s3(2)])
  have "inf_verify zlib_format ops s4 0 ?c = Inr ()"
    by (rule verify_ok [of _ data]) (use s3 s4 in \<open>simp_all add: zlib_format_def\<close>)
  with s1 s2 s3 s4 at_bits_empty [OF s4(2)] show
    "\<exists>s'. inf_container zlib_format ops s = Some (s', Inr ()) \<and> \<not> in_exhausted s' \<and> holds (in_sink s') data
      \<and> room (in_sink s') = room (in_sink s)"
    by (simp add: inf_container_def zlib_container_def FDICT_def zlib_format_def)
qed

lemma gzip_reads_back:
  assumes "body_of body data"
  shows "reads_back gzip_format body data input o1"
proof (rule reads_backI)
  fix s assume a: "at_bits s (stream_with gzip_format body data)" "holds (in_sink s) []" "length data \<le> room (in_sink s)"
  let ?f = "fm_update gzip_format (fm_init gzip_format) data" and ?n = "word_of_nat (length data) :: u32"
  define p where "p = stream_bits [0x1f, 0x8b, 8, 0, 0, 0, 0, 0, 0, 0xff :: byte] @ body @ close_bits"
  let ?rest = "body @ close_bits @ pad_bits (length p) @ concat (map (lsb_bits 32) [?f, ?n])"
  have "stream_with gzip_format body data
      = (lsb_bits 8 (0x1f :: byte) @ lsb_bits 8 (0x8b :: byte)) @ lsb_bits 8 (8 :: byte) @ lsb_bits 8 (0 :: byte)
        @ stream_bits [0, 0, 0, 0, 0, 0xff] @ ?rest"
    unfolding p_def by (simp add: stream_with_def with_pad_def trailer_words_def gzip_format_def)
  note b = a(1) [unfolded this]
  obtain s1 where s1: "inf_bits 16 s = (s1, word_of_nat (lsb_value (lsb_bits 8 (0x1f :: byte) @ lsb_bits 8 (0x8b :: byte))))"
    "at_bits s1 (lsb_bits 8 (8 :: byte) @ lsb_bits 8 (0 :: byte) @ stream_bits [0, 0, 0, 0, 0, 0xff] @ ?rest)"
    "in_sink s1 = in_sink s" by (rule at_bits_read [OF b, where n = 16]) simp_all
  have magic: "(word_of_nat (lsb_value (lsb_bits 8 (0x1f :: byte) @ lsb_bits 8 (0x8b :: byte))) :: u16) = 0x8b1f"
    by (simp add: lsb_bits_def upt_rec)
  obtain s2 where s2: "inf_bits 8 s1 = (s2, ucast (8 :: byte))"
    "at_bits s2 (lsb_bits 8 (0 :: byte) @ stream_bits [0, 0, 0, 0, 0, 0xff] @ ?rest)"
    "in_sink s2 = in_sink s1" by (rule inf_bits_byte [OF s1(2)])
  obtain s3 where s3: "inf_bits 8 s2 = (s3, ucast (0 :: byte))"
    "at_bits s3 (stream_bits [0, 0, 0, 0, 0, 0xff] @ ?rest)" "in_sink s3 = in_sink s2" by (rule inf_bits_byte [OF s2(2)])
  have skip: "at_bits (inf_skip (length bs) s) q \<and> in_sink (inf_skip (length bs) s) = in_sink s"
    if "at_bits s (stream_bits bs @ q)" for bs q and s :: "'o inflate"
    using that
  proof (induction bs arbitrary: s)
    case (Cons x bs)
    then have "at_bits s (lsb_bits 8 x @ stream_bits bs @ q)" by simp
    then obtain s' where "inf_bits 8 s = (s', ucast x)" "at_bits s' (stream_bits bs @ q)" "in_sink s' = in_sink s"
      by (rule inf_bits_byte)
    with Cons.IH [of s'] show ?case by simp
  qed simp
  define s4 where "s4 = inf_skip 6 s3"
  have six: "length [0, 0, 0, 0, 0, 0xff :: byte] = 6" by simp
  have s4: "at_bits s4 ?rest" "in_sink s4 = in_sink s3"
    using skip [OF s3(2)] unfolding six s4_def by simp_all
  have head: "gzip_header s = Some (s4, Inr ())"
    using s1(1) s2(1) s3(1)
    by (simp add: gzip_header_def gzip_fields_def magic GZ_RESERVED_def FEXTRA_def FNAME_def FCOMMENT_def FHCRC_def s4_def)
  from body_ofD [OF assms s4(1)] a(2,3) s1(3) s2(3) s3(3) s4(2) obtain s5 where
    s5: "inf_blocks ops s4 = Some (s5, Inr ())" "at_bits s5 (lsb_bits 32 ?f @ lsb_bits 32 ?n @ [])"
      "holds (in_sink s5) data" "room (in_sink s5) = room (in_sink s)" by auto
  obtain s6 where s6: "inf_word s5 = (s6, ?f)" "at_bits s6 (lsb_bits 32 ?n @ [])" "in_sink s6 = in_sink s5"
    by (rule inf_word_bits [OF s5(2)])
  obtain s7 where s7: "inf_word s6 = (s7, ?n)" "at_bits s7 []" "in_sink s7 = in_sink s6"
    by (rule inf_word_bits [OF s6(2)])
  have sink: "holds (in_sink s7) data" using s5 s6 s7 by simp
  have ok: "inf_verify gzip_format ops s7 0 ?f = Inr ()"
    by (rule verify_ok [OF sink]) (simp add: gzip_format_def)
  have "inf_member gzip_format ops s = Some (s7, Inr ())"
    using head s5(1) s6(1) s7(1) ok written [OF a(2)] written [OF sink]
    by (simp add: inf_member_def gzip_trailer_def)
  then have "inf_members gzip_format ops s = Some (s7, Inr ())"
    using at_bits_empty [OF s7(2)] by (subst inf_members.simps) simp
  with s5 s6 s7 at_bits_empty [OF s7(2)] show
    "\<exists>s'. inf_container gzip_format ops s = Some (s', Inr ()) \<and> \<not> in_exhausted s' \<and> holds (in_sink s') data
      \<and> room (in_sink s') = room (in_sink s)"
    by (simp add: inf_container_def gzip_format_def)
qed

end

section \<open>Properties\<close>

lemma buffer_reads_back:
  assumes "buffer_sink.reads_back fmt body data input \<lparr>bf_buf = out, bf_pos = 0\<rparr>"
    and "stream_bits input = stream_with fmt body data" and "length data \<le> length out"
  shows "\<exists>out'. embed_decompress fmt input out = Some (out', Inr (length data)) \<and> take (length data) out' = data
    \<and> length out' = length out"
proof -
  have "buffer_holds \<lparr>bf_buf = out, bf_pos = 0\<rparr> []" by (simp add: buffer_holds_def)
  with assms obtain o2 where
    "oneshot_decode fmt buffer_ops input \<lparr>bf_buf = out, bf_pos = 0\<rparr> = Some (o2, Inr (length data))"
    "buffer_holds o2 data" "length (bf_buf o2) = length out"
    unfolding buffer_sink.reads_back_def by auto
  then show ?thesis by (auto simp: embed_decompress_def buffer_holds_def)
qed

lemma counter_reads_back:
  assumes "counter_sink.reads_back fmt body data input \<lparr>ct_count = 0, ct_max = m\<rparr>"
    and "stream_bits input = stream_with fmt body data" and "length data \<le> m"
  shows "embed_decompressed_len fmt input m = Some (Inr (length data))"
proof -
  have "counter_holds \<lparr>ct_count = 0, ct_max = m\<rparr> []" by (simp add: counter_holds_def)
  with assms show ?thesis
    unfolding counter_sink.reads_back_def embed_decompressed_len_def by auto
qed

lemma compress_inr:
  assumes "embed_compress fmt data table dst = (t', dst', Inr n)"
  shows "stream_bits (take n dst') = stream_with fmt (data_bits table data) data"
  using embed_compress_spec [OF assms] by (auto simp: stream_of_def split: if_splits)

text \<open>C2. One-shot compression then decompression gives the data back, in each of the three
  containers: when \<open>compress\<close> returns a length, \<open>decompress\<close> of that many bytes into any slice
  with room for the data succeeds, whatever the table held before.\<close>

theorem embed_compress_decompress:
  assumes "length data \<le> length out"
  shows "(embed_compress raw_format data table dst = (t1, d1, Inr n1) \<longrightarrow>
      (\<exists>out'. embed_decompress raw_format (take n1 d1) out = Some (out', Inr (length data)) \<and> take (length data) out' = data))
    \<and> (embed_compress zlib_format data table dst = (t2, d2, Inr n2) \<longrightarrow>
      (\<exists>out'. embed_decompress zlib_format (take n2 d2) out = Some (out', Inr (length data)) \<and> take (length data) out' = data))
    \<and> (embed_compress gzip_format data table dst = (t3, d3, Inr n3) \<longrightarrow>
      (\<exists>out'. embed_decompress gzip_format (take n3 d3) out = Some (out', Inr (length data)) \<and> take (length data) out' = data))"
  using buffer_reads_back [OF buffer_sink.raw_reads_back [OF buffer_sink.data_bits_body] compress_inr assms]
    buffer_reads_back [OF buffer_sink.zlib_reads_back [OF buffer_sink.data_bits_body] compress_inr assms]
    buffer_reads_back [OF buffer_sink.gzip_reads_back [OF buffer_sink.data_bits_body] compress_inr assms] by blast

lemma embed_compress_decompress_witness:
  "\<exists>t d n out'. embed_compress gzip_format [7, 7, 7, 7, 7] (replicate 4 0) (replicate 40 0) = (t, d, Inr n)
    \<and> embed_decompress gzip_format (take n d) (replicate 6 0) = Some (out', Inr 5) \<and> take 5 out' = [7, 7, 7, 7, 7]"
proof -
  have "stream_len gzip_format (replicate 4 0) [7, 7, 7, 7, 7] \<le> 40"
    using stream_len_le [of gzip_format "replicate 4 0" "[7, 7, 7, 7, 7]"] by (simp add: gzip_format_def)
  then obtain t d n where c: "embed_compress gzip_format [7, 7, 7, 7, 7] (replicate 4 0) (replicate 40 0) = (t, d, Inr n)"
    using embed_compress_spec [of gzip_format "[7, 7, 7, 7, 7]" "replicate 4 0" "replicate 40 0"]
    by (cases "embed_compress gzip_format [7, 7, 7, 7, 7] (replicate 4 0) (replicate 40 0)") auto
  have len: "length [7, 7, 7, 7, 7 :: byte] \<le> length (replicate 6 (0 :: byte))" "length [7, 7, 7, 7, 7 :: byte] = 5" by simp_all
  from embed_compress_decompress [OF len(1)] c obtain out' where
    "embed_decompress gzip_format (take n d) (replicate 6 0) = Some (out', Inr 5)" "take 5 out' = [7, 7, 7, 7, 7]"
    unfolding len(2) by blast
  with c show ?thesis by blast
qed

text \<open>C9. \<open>compress\<close> succeeds exactly when its stream fits in the slice: the container's header, the
  greedy parse in the fixed codes, a final empty block, the padding and the trailer; and then
  it is that stream it has written.\<close>

theorem embed_compress_exact:
  "embed_compress fmt data table dst = (t', dst', r) \<Longrightarrow>
   r = (if stream_len fmt table data \<le> length dst then Inr (stream_len fmt table data) else Inl OutputTooSmall)
   \<and> (\<forall>n. r = Inr n \<longrightarrow> stream_bits (take n dst') = stream_of fmt table data)"
  using embed_compress_spec by (fastforce split: if_splits)

text \<open>\<open>decompressed_len\<close> of a stream that \<open>compress\<close> wrote is the length of the data, when the limit
  allows it.\<close>

theorem embed_compressed_len:
  "length data \<le> m \<Longrightarrow> embed_compress gzip_format data table dst = (t', dst', Inr n) \<Longrightarrow>
   embed_decompressed_len gzip_format (take n dst') m = Some (Inr (length data))"
  using counter_reads_back [OF counter_sink.gzip_reads_back [OF counter_sink.data_bits_body] compress_inr] by blast

lemma embed_compress_exact_witness:
  "\<exists>t d r. embed_compress zlib_format [1, 2] [] (replicate 3 0) = (t, d, r) \<and> r = Inl OutputTooSmall"
proof -
  obtain t d r where c: "embed_compress zlib_format [1, 2] [] (replicate 3 0) = (t, d, r)"
    by (cases "embed_compress zlib_format [1, 2] [] (replicate 3 0)")
  have "6 \<le> stream_len zlib_format [] [1, 2]"
    using stream_len_bits [of zlib_format "[]" "[1, 2]"]
    by (simp add: stream_of_def stream_with_def with_pad_def trailer_words_def zlib_format_def)
  with embed_compress_exact [OF c] have "r = Inl OutputTooSmall" by simp
  with c show ?thesis by blast
qed

lemma embed_compressed_len_witness:
  "\<exists>t d n. embed_compress gzip_format [7, 7, 7] [] (replicate 40 0) = (t, d, Inr n)
    \<and> embed_decompressed_len gzip_format (take n d) 3 = Some (Inr 3)"
proof -
  have "stream_len gzip_format [] [7, 7, 7] \<le> 40"
    using stream_len_le [of gzip_format "[]" "[7, 7, 7]"] by (simp add: gzip_format_def)
  then obtain t d n where c: "embed_compress gzip_format [7, 7, 7] [] (replicate 40 0) = (t, d, Inr n)"
    using embed_compress_spec [of gzip_format "[7, 7, 7]" "[]" "replicate 40 0"]
    by (cases "embed_compress gzip_format [7, 7, 7] [] (replicate 40 0)") auto
  from embed_compressed_len [OF _ c, of 3] c show ?thesis by simp
qed

text \<open>C10. A slice longer than the data by a byte in eight and the container's overhead always has room
  for the stream.\<close>

theorem embed_compress_bound:
  "length (fm_header fmt) + length data + (length data + 27) div 8 + 4 * fm_trailer fmt \<le> length dst \<Longrightarrow>
   \<exists>t' dst' n. embed_compress fmt data table dst = (t', dst', Inr n) \<and> n \<le> length dst"
  using stream_len_le [of fmt table data] embed_compress_spec [of fmt data table dst]
  by (cases "embed_compress fmt data table dst") auto

lemma embed_compress_bound_witness:
  "\<exists>t' dst' n. embed_compress raw_format [1, 2, 3] [] (replicate 6 0) = (t', dst', Inr n) \<and> n \<le> 6"
  using embed_compress_bound [of raw_format "[1, 2, 3]" "replicate 6 0" "[]"] by (simp add: raw_format_def)

end
