(* ===== verification/EmbedTotal.thy ===== *)
theory EmbedTotal
  imports EmbedRoundtrip "HOL-Library.Sublist"
begin

text \<open>
  The one-shot decoder returns on every input.  Its unbounded loops end because a reader past
  the end of its input reads only zeros: a stored block with such a head is refused, no codeword
  is accepted, and a text field has ended.  \<open>in_inv\<close> is the invariant this rests on and
  \<open>inf_left\<close> the measure.
\<close>

definition in_inv :: "'o inflate \<Rightarrow> bool" where
  "in_inv s \<longleftrightarrow> (\<forall>i \<ge> in_bit_cnt s. \<not> bit (in_bit_buf s) i) \<and> (in_exhausted s \<longrightarrow> in_bit_buf s = 0 \<and> in_input s = [])"

text \<open>While a read fills the buffer, the zeros past the end are above the last bit that counts.\<close>

definition fill_inv :: "nat \<Rightarrow> 'o inflate \<Rightarrow> bool" where
  "fill_inv need s \<longleftrightarrow> (\<forall>i \<ge> in_bit_cnt s. \<not> bit (in_bit_buf s) i)
     \<and> (in_exhausted s \<longrightarrow> in_input s = [] \<and> (\<forall>i \<ge> need - 1. \<not> bit (in_bit_buf s) i))"

lemma inf_fill_inv: "fill_inv need s \<Longrightarrow> fill_inv need (inf_fill need s)"
proof (induction need s rule: inf_fill.induct)
  case (1 need s)
  show ?case
  proof (cases "in_bit_cnt s < need")
    case False
    then have "inf_fill need s = s" by (subst inf_fill.simps) simp
    with 1(2) show ?thesis by simp
  next
    case True
    show ?thesis
    proof (cases "in_input s")
      case Nil
      with True have "inf_fill need s = inf_fill need (s\<lparr>in_exhausted := True, in_bit_cnt := in_bit_cnt s + 8\<rparr>)"
        by (subst inf_fill.simps) simp
      moreover have "fill_inv need (s\<lparr>in_exhausted := True, in_bit_cnt := in_bit_cnt s + 8\<rparr>)"
        using 1(2) True Nil by (auto simp: fill_inv_def)
      ultimately show ?thesis using 1(1) [OF True] Nil by simp
    next
      case (Cons b bs)
      with 1(2) have e: "\<not> in_exhausted s" by (auto simp: fill_inv_def)
      let ?s = "s\<lparr>in_bit_buf := in_bit_buf s OR push_bit (in_bit_cnt s) (ucast b), in_input := bs,
        in_bit_cnt := in_bit_cnt s + 8\<rparr>"
      have "inf_fill need s = inf_fill need ?s" using True Cons e by (subst inf_fill.simps) simp
      moreover have "fill_inv need ?s"
        using 1(2) e bit_imp_le_length [of b]
        by (auto simp: fill_inv_def bit_or_iff bit_push_bit_iff bit_ucast_iff)
      ultimately show ?thesis using 1(1) [OF True] Cons e by simp
    qed
  qed
qed

lemma in_inv_fill: "in_inv s \<Longrightarrow> fill_inv need s"
  by (auto simp: in_inv_def fill_inv_def)

lemma inf_bits_inv:
  assumes "inf_bits need s = (s', v)" and "in_inv s"
  shows "in_inv s'" and "in_exhausted s' \<Longrightarrow> 0 < need \<Longrightarrow> need \<le> 16 \<Longrightarrow> \<not> bit v (need - 1)"
    and "in_exhausted s \<Longrightarrow> v = 0"
proof -
  let ?f = "inf_fill need s"
  have f: "fill_inv need ?f" using inf_fill_inv in_inv_fill assms(2) by blast
  have s': "s' = ?f\<lparr>in_bit_buf := drop_bit need (in_bit_buf ?f), in_bit_cnt := in_bit_cnt ?f - need\<rparr>"
    and v: "v = ucast (in_bit_buf ?f AND mask need)"
    using assms(1) by (simp_all add: inf_bits_def Let_def)
  have "drop_bit need (in_bit_buf ?f) = 0" if "in_exhausted ?f"
    using f that by (intro bit_word_eqI) (simp add: fill_inv_def bit_drop_bit_eq)
  then show "in_inv s'"
    using f inf_fill_cnt [of need s] by (auto simp: in_inv_def fill_inv_def s' bit_drop_bit_eq)
  show "\<not> bit v (need - 1)" if "in_exhausted s'" "0 < need" "need \<le> 16"
    using f that by (auto simp: fill_inv_def s' v bit_ucast_iff bit_and_iff)
  show "v = 0" if "in_exhausted s"
  proof -
    have "in_bit_buf (inf_fill n t) = 0" if "in_exhausted t" "in_bit_buf t = 0" "in_input t = []" for n and t :: "'a inflate"
      using that
    proof (induction n t rule: inf_fill.induct)
      case (1 n t)
      then show ?case by (subst inf_fill.simps) simp
    qed
    with that assms(2) show ?thesis by (simp add: v in_inv_def)
  qed
qed

section \<open>What every step keeps\<close>

text \<open>
  \<open>keeps s s'\<close>: the invariant holds on, a reader past the end of its input stays there, what is
  left of the input is a suffix of what was, and a reader that buffers less than a byte goes on so.
\<close>

definition keeps :: "'o inflate \<Rightarrow> 'o inflate \<Rightarrow> bool" where
  "keeps s s' \<longleftrightarrow> (in_inv s \<longrightarrow> in_inv s') \<and> (in_exhausted s \<longrightarrow> in_exhausted s')
     \<and> (\<not> in_exhausted s' \<longrightarrow> inf_left s' \<le> inf_left s) \<and> suffix (in_input s') (in_input s)
     \<and> (in_bit_cnt s < 8 \<longrightarrow> in_bit_cnt s' < 8)"

lemma inf_fill_small: "in_bit_cnt s < need + 8 \<Longrightarrow> in_bit_cnt (inf_fill need s) < need + 8"
proof (induction need s rule: inf_fill.induct)
  case (1 need s)
  then show ?case
    by (subst inf_fill.simps) (auto split: list.split)
qed

lemma inf_bits_small: "inf_bits n s = (s', v) \<Longrightarrow> in_bit_cnt s < 8 \<Longrightarrow> in_bit_cnt s' < 8"
  using inf_fill_small [of s n] inf_fill_cnt [of n s] by (auto simp: inf_bits_def Let_def)

lemma inf_fill_suffix: "suffix (in_input (inf_fill need s)) (in_input s)"
proof (induction need s rule: inf_fill.induct)
  case (1 need s)
  show ?case
  proof (cases "in_bit_cnt s < need")
    case True
    with 1 show ?thesis
      by (subst inf_fill.simps) (auto simp: suffix_Cons split: list.split)
  next
    case False
    then show ?thesis by (subst inf_fill.simps) simp
  qed
qed

lemma inf_bits_suffix: "inf_bits n s = (s', v) \<Longrightarrow> suffix (in_input s') (in_input s)"
  using inf_fill_suffix [of n s] by (auto simp: inf_bits_def Let_def)

lemma keeps_refl [simp]: "keeps s s"
  by (simp add: keeps_def)

lemma keeps_trans [trans]: "keeps s t \<Longrightarrow> keeps t u \<Longrightarrow> keeps s u"
  by (auto simp: keeps_def intro: suffix_order.trans)

lemma keeps_bits: "inf_bits n s = (s', v) \<Longrightarrow> keeps s s'"
  using inf_bits_inv(1) [of n s s' v] inf_bits_exhausted [of n s s' v] inf_bits_left_le [of n s s' v]
    inf_bits_suffix [of n s s' v] inf_bits_small [of n s s' v]
  by (auto simp: keeps_def)

lemma keeps_bits' [simp]: "keeps s (fst (inf_bits n s))"
  by (rule keeps_bits [of n s _ "snd (inf_bits n s)"]) simp

lemma keeps_sink [simp]: "keeps s (fst (on_sink f s))"
  by (simp add: keeps_def in_inv_def inf_left_def)

lemma keeps_andthen: "keeps s (fst r) \<Longrightarrow> (\<And>t x. r = (t, Inr x) \<Longrightarrow> keeps t (fst (f t x))) \<Longrightarrow> keeps s (fst (andthen r f))"
  by (cases r; cases "snd r") (auto intro: keeps_trans)

lemma keeps_case_bits: "(\<And>t v. inf_bits n s = (t, v) \<Longrightarrow> keeps t (fst (f t v))) \<Longrightarrow> keeps s (fst (case inf_bits n s of (t, v) \<Rightarrow> f t v))"
  by (cases "inf_bits n s") (auto intro: keeps_trans keeps_bits)

lemma keeps_decode_loop: "keeps s (fst (inf_decode_loop symbol counts bits first index s))"
proof (induction symbol counts bits first index s rule: inf_decode_loop.induct)
  case (2 symbol count counts bits first index s)
  obtain s1 b where b: "inf_bits 1 s = (s1, b)" by fastforce
  with 2 [OF b [symmetric] refl] keeps_bits [OF b] show ?case
    by (auto simp: Let_def inf_ready_def split: if_splits intro: keeps_trans)
qed simp

lemma keeps_decode [simp]: "keeps s (fst (inf_decode h s))"
  by (simp add: inf_decode_def keeps_decode_loop)

lemma keeps_length [simp]: "keeps s (fst (inf_length ops h s))"
  unfolding inf_length_def by (auto intro!: keeps_andthen keeps_case_bits simp: Let_def)

lemma keeps_distance [simp]: "keeps s (fst (inf_distance ops h s))"
  unfolding inf_distance_def by (auto intro!: keeps_andthen keeps_case_bits simp: Let_def)

lemma keeps_stored_len [simp]: "keeps s (fst (stored_len s))"
proof -
  have "keeps s (inf_align s)" by (simp add: inf_align_def)
  moreover have "keeps (inf_align s) (fst (stored_len s))"
    unfolding stored_len_def by (intro keeps_case_bits) simp
  ultimately show ?thesis by (rule keeps_trans)
qed

lemma keeps_stored_byte [simp]: "keeps s (fst (stored_byte ops s))"
  unfolding stored_byte_def by (auto intro!: keeps_andthen keeps_case_bits)

lemma keeps_stored_bytes [simp]: "keeps s (fst (stored_bytes ops n s))"
  by (induction n arbitrary: s) (auto intro!: keeps_andthen)

lemma keeps_code_lengths [simp]: "keeps s (fst (code_lengths code lengths index s))"
  unfolding code_lengths_def by (auto intro!: keeps_andthen keeps_case_bits simp: Let_def)

lemma keeps_code_lengths_loop [simp]: "keeps s (fst (code_lengths_loop code lengths index s))"
proof (induction code lengths index s rule: code_lengths_loop.induct)
  case (1 code lengths index s)
  then show ?case by (subst code_lengths_loop.simps) (auto intro!: keeps_andthen)
qed

lemma keeps_read_order [simp]: "keeps s (fst (read_order order lengths s))"
  by (induction order lengths s rule: read_order.induct) (auto intro!: keeps_case_bits)

lemma keeps_compressed_loop [simp]: "keeps s (fst (compressed_loop ops lh dh s))"
proof (induction ops lh dh s rule: compressed_loop.induct)
  case (1 ops lh dh s)
  then show ?case
    by (subst compressed_loop.simps) (auto intro!: keeps_andthen split: inf_symbol.split)
qed

lemma keeps_compressed [simp]: "keeps s (fst (compressed ops lengths n s))"
  by (simp add: compressed_def split: prod.split sum.split)

lemma keeps_dynamic_head [simp]: "keeps s (fst (dynamic_head s))"
  unfolding dynamic_head_def by (intro keeps_case_bits) (simp add: Let_def)

lemma keeps_dynamic [simp]: "keeps s (fst (dynamic ops s))"
  unfolding dynamic_def
proof (rule keeps_andthen, simp, goal_cases)
  case (1 t x)
  obtain a b c where x: "x = (a, b, c)" by (cases x)
  obtain s2 ls where r: "read_order (take c ORDER) (replicate MAX_SYMS 0) t = (s2, ls)" by fastforce
  then have "keeps t s2" using keeps_read_order [of t "take c ORDER" "replicate MAX_SYMS 0"] by simp
  then show ?case
    by (auto simp: x r Let_def intro!: keeps_andthen intro: keeps_trans)
qed

lemma keeps_block [simp]: "keeps s (fst (inf_block ops k s))"
  by (auto simp: inf_block_def intro!: keeps_andthen)

section \<open>Blocks\<close>

lemma compressed_loop_ready:
  "compressed_loop ops lh dh s = (s', Inr ()) \<Longrightarrow> \<not> in_exhausted s'"
proof (induction ops lh dh s rule: compressed_loop.induct)
  case (1 ops lh dh s)
  from 1(3) obtain s1 sm where l: "inf_length ops lh s = (s1, Inr sm)"
    by (subst (asm) compressed_loop.simps) (auto simp: andthen_Inr)
  show ?case
  proof (cases sm)
    case SymLiteral
    with 1(3) l have "compressed_loop ops lh dh s1 = (s', Inr ())" by (subst (asm) compressed_loop.simps) simp
    with 1(1) [OF l SymLiteral] show ?thesis .
  next
    case SymEnd
    with 1(3) l have "s' = s1" by (subst (asm) compressed_loop.simps) simp
    with inf_length_end l SymEnd show ?thesis by blast
  next
    case (SymMatch len)
    with 1(3) l obtain s2 dist s3 where d: "inf_distance ops dh s1 = (s2, Inr dist)"
      "on_sink (\<lambda>o1. op_copy ops o1 dist len) s2 = (s3, Inr ())" "compressed_loop ops lh dh s3 = (s', Inr ())"
      by (subst (asm) compressed_loop.simps) (auto simp: andthen_Inr)
    with 1(2) [OF l SymMatch] show ?thesis by blast
  qed
qed

lemma compressed_ready: "compressed ops lengths n s = (s', Inr ()) \<Longrightarrow> \<not> in_exhausted s'"
  by (auto simp: compressed_def dest: compressed_loop_ready split: prod.splits sum.splits)

lemma dynamic_ready:
  assumes "dynamic ops s = (s', Inr ())"
  shows "\<not> in_exhausted s'"
proof -
  from assms obtain s1 a b c where h: "dynamic_head s = (s1, Inr (a, b, c))"
    by (auto simp: dynamic_def andthen_Inr)
  obtain s2 ls where r: "read_order (take c ORDER) (replicate MAX_SYMS 0) s1 = (s2, ls)" by fastforce
  from assms show ?thesis
    by (auto simp: dynamic_def h r Let_def andthen_Inr dest: compressed_ready split: if_splits)
qed

lemma stored_bytes_ready:
  "stored_bytes ops n s = (s', Inr ()) \<Longrightarrow> n \<noteq> 0 \<or> \<not> in_exhausted s \<Longrightarrow> \<not> in_exhausted s'"
proof (induction n arbitrary: s)
  case (Suc n)
  from Suc.prems(1) obtain s1 where s1: "stored_byte ops s = (s1, Inr ())" "stored_bytes ops n s1 = (s', Inr ())"
    by (auto simp: andthen_Inr)
  from s1(1) have "\<not> in_exhausted s1"
    by (auto simp: stored_byte_def andthen_Inr inf_ready_def split: prod.splits if_splits dest: on_sink_left)
  with Suc.IH [OF s1(2)] show ?case by blast
qed simp

lemma inf_block_ready:
  assumes "inf_block ops k s = (s', Inr ())" and "in_inv s"
  shows "\<not> in_exhausted s'"
proof -
  consider "k = 0" | "k = 1" | "k = 2"
    using assms(1) by (auto simp: inf_block_def split: if_splits)
  then show ?thesis
  proof cases
    case 1
    with assms(1) obtain s2 len where l: "stored_len s = (s2, Inr len)" "stored_bytes ops (unat len) s2 = (s', Inr ())"
      by (auto simp: inf_block_def andthen_Inr)
    from l(1) obtain s1 where r: "inf_bits 16 (inf_align s) = (s1, len)" "inf_bits 16 s1 = (s2, NOT len)"
      by (auto simp: stored_len_def split: prod.splits if_splits)
    have "in_inv (inf_align s)" using assms(2) keeps_bits' unfolding inf_align_def keeps_def by blast
    with inf_bits_inv(1) [OF r(1)] have "in_inv s1" by blast
    have "\<not> in_exhausted s2" if "unat len = 0"
    proof
      assume "in_exhausted s2"
      with inf_bits_inv(2) [OF r(2) \<open>in_inv s1\<close>] have "\<not> bit (NOT len) 15" by simp
      with that show False by (simp add: unat_eq_0 bit_not_iff)
    qed
    with stored_bytes_ready [OF l(2)] show ?thesis by blast
  next
    case 2
    with assms(1) show ?thesis
      by (auto simp: inf_block_def dest: compressed_ready)
  next
    case 3
    with assms(1) show ?thesis
      by (auto simp: inf_block_def dest: dynamic_ready)
  qed
qed

lemma inf_blocks_total:
  "in_inv s \<Longrightarrow> \<exists>s' r. inf_blocks ops s = Some (s', r) \<and> keeps s s'"
proof (induction "if in_exhausted s then 0 else Suc (inf_left s)" arbitrary: s rule: less_induct)
  case less
  obtain s1 f where f: "inf_bits 1 s = (s1, f)" by fastforce
  obtain s2 k where k: "inf_bits 2 s1 = (s2, k)" by fastforce
  obtain s3 r where b: "inf_block ops (unat k) s2 = (s3, r)" by fastforce
  have keeps: "keeps s s1" "keeps s1 s2" "keeps s2 s3"
    using keeps_bits [OF f] keeps_bits [OF k] keeps_block [of s2 ops "unat k"] b by simp_all
  then have all: "keeps s s3" by (blast intro: keeps_trans)
  show ?case
  proof (cases r)
    case (Inl e)
    with f k b all show ?thesis by (subst inf_blocks.simps) simp
  next
    case (Inr u)
    show ?thesis
    proof (cases "f = 0")
      case False
      moreover have "keeps s3 (inf_align s3)" by (simp add: inf_align_def)
      ultimately show ?thesis using Inr f k b all by (subst inf_blocks.simps) (auto intro: keeps_trans)
    next
      case True
      have inv: "in_inv s2" "in_inv s3" using keeps less.prems by (auto simp: keeps_def)
      have e: "\<not> in_exhausted s3" using inf_block_ready [of ops "unat k" s2 s3] inv(1) b Inr by simp
      with keeps have e': "\<not> in_exhausted s" "\<not> in_exhausted s1" by (auto simp: keeps_def)
      then have "inf_left s1 < inf_left s" using inf_bits_left [OF f] by simp
      moreover have "inf_left s3 \<le> inf_left s1" using keeps e by (auto simp: keeps_def)
      ultimately have "(if in_exhausted s3 then 0 else Suc (inf_left s3)) < (if in_exhausted s then 0 else Suc (inf_left s))"
        using e e' by simp
      from less.hyps [OF this inv(2)] all True Inr f k b show ?thesis
        by (subst inf_blocks.simps) (auto intro: keeps_trans)
    qed
  qed
qed

section \<open>Containers\<close>

lemma inf_skip_text_total:
  "in_inv s \<Longrightarrow> \<exists>s'. inf_skip_text s = Some s' \<and> keeps s s'"
proof (induction "if in_exhausted s then 0 else Suc (inf_left s)" arbitrary: s rule: less_induct)
  case less
  obtain s1 v where v: "inf_bits 8 s = (s1, v)" by fastforce
  have k: "keeps s s1" by (rule keeps_bits [OF v])
  show ?case
  proof (cases "v = 0")
    case True
    with v k show ?thesis by (subst inf_skip_text.simps) simp
  next
    case False
    have inv: "in_inv s1" using k less.prems by (simp add: keeps_def)
    have e: "\<not> in_exhausted s" using inf_bits_inv(3) [OF v less.prems] False by blast
    have "(if in_exhausted s1 then 0 else Suc (inf_left s1)) < (if in_exhausted s then 0 else Suc (inf_left s))"
      using inf_bits_left [OF v] e by simp
    from less.hyps [OF this inv] k v False show ?thesis
      by (subst inf_skip_text.simps) (auto intro: keeps_trans)
  qed
qed

lemma keeps_skip [simp]: "keeps s (inf_skip n s)"
  by (induction n arbitrary: s) (auto intro: keeps_trans keeps_bits')

lemma keeps_inv: "keeps s t \<Longrightarrow> in_inv s \<Longrightarrow> in_inv t"
  by (simp add: keeps_def)

lemma gzip_fields_total:
  assumes "in_inv s"
  shows "\<exists>s'. gzip_fields flags s = Some s' \<and> keeps s s'"
proof -
  let ?s1 = "inf_skip 6 s"
  define s2 where "s2 = (if flags AND FEXTRA \<noteq> 0 then (case inf_bits 16 ?s1 of (s', len) \<Rightarrow> inf_skip (unat len) s') else ?s1)"
  have k2: "keeps s s2"
  proof -
    have "keeps ?s1 s2" unfolding s2_def
      by (cases "inf_bits 16 ?s1") (auto intro: keeps_trans keeps_bits)
    then show ?thesis using keeps_skip keeps_trans by blast
  qed
  have texts: "\<exists>s'. (if c then inf_skip_text s else Some s) = Some s' \<and> keeps s s'" if "in_inv s" for c and s :: "'a inflate"
    using inf_skip_text_total [OF that] by simp
  obtain s3 where s3: "(if flags AND FNAME \<noteq> 0 then inf_skip_text s2 else Some s2) = Some s3" "keeps s2 s3"
    using texts [OF keeps_inv [OF k2 assms]] by blast
  obtain s4 where s4: "(if flags AND FCOMMENT \<noteq> 0 then inf_skip_text s3 else Some s3) = Some s4" "keeps s3 s4"
    using texts [OF keeps_inv [OF s3(2) keeps_inv [OF k2 assms]]] by blast
  have "gzip_fields flags s = Some (if flags AND FHCRC \<noteq> 0 then inf_skip 2 s4 else s4)"
    unfolding gzip_fields_def Let_def s2_def [symmetric] s3(1) s4(1) bind.bind_lunit ..
  moreover have "keeps s (if flags AND FHCRC \<noteq> 0 then inf_skip 2 s4 else s4)"
  proof -
    have "keeps s s4" using k2 s3(2) s4(2) by (blast intro: keeps_trans)
    then show ?thesis by (rule keeps_trans) simp
  qed
  ultimately show ?thesis by blast
qed

lemma gzip_header_total:
  assumes "in_inv s"
  shows "\<exists>s' r. gzip_header s = Some (s', r) \<and> keeps s s'
    \<and> (r = Inr () \<longrightarrow> \<not> in_exhausted s' \<longrightarrow> inf_left s' < inf_left s)"
proof -
  obtain s1 v where b1: "inf_bits 16 s = (s1, v)" by fastforce
  obtain s2 cm where b2: "inf_bits 8 s1 = (s2, cm)" by fastforce
  obtain s3 fl where b3: "inf_bits 8 s2 = (s3, fl)" by fastforce
  have k: "keeps s s1" "keeps s1 s2" "keeps s2 s3"
    using keeps_bits [OF b1] keeps_bits [OF b2] keeps_bits [OF b3] .
  then have k3: "keeps s s2" "keeps s s3" by (blast intro: keeps_trans)+
  obtain s4 where s4: "gzip_fields fl s3 = Some s4" "keeps s3 s4"
    using gzip_fields_total [OF keeps_inv [OF k3(2) assms]] by blast
  have "inf_left s4 < inf_left s" if "\<not> in_exhausted s4"
  proof -
    have "\<not> in_exhausted s1" "inf_left s4 \<le> inf_left s1"
      using that k s4(2) keeps_trans [OF k(2) keeps_trans [OF k(3) s4(2)]] by (auto simp: keeps_def)
    then show ?thesis using inf_bits_left [OF b1] by simp
  qed
  with k k3 s4 b1 b2 b3 show ?thesis
    by (auto simp: gzip_header_def intro: keeps_trans)
qed

lemma keeps_word: "inf_word s = (s', v) \<Longrightarrow> keeps s s'"
  by (auto simp: inf_word_def dest!: keeps_bits intro: keeps_trans split: prod.splits)

lemma keeps_gzip_trailer [simp]: "keeps s (fst (gzip_trailer fmt ops start s))"
proof -
  obtain s1 v where w1: "inf_word s = (s1, v)" by fastforce
  obtain s2 n where w2: "inf_word s1 = (s2, n)" by fastforce
  have "keeps s s2" using keeps_word [OF w1] keeps_word [OF w2] by (rule keeps_trans)
  then show ?thesis
    by (cases "inf_verify fmt ops s2 start v") (simp_all add: gzip_trailer_def w1 w2)
qed

lemma inf_member_total:
  assumes "in_inv s"
  shows "\<exists>s' r. inf_member fmt ops s = Some (s', r) \<and> keeps s s'
    \<and> (r = Inr () \<longrightarrow> \<not> in_exhausted s' \<longrightarrow> inf_left s' < inf_left s)"
proof -
  obtain s1 r1 where h: "gzip_header s = Some (s1, r1)" "keeps s s1"
    "r1 = Inr () \<Longrightarrow> \<not> in_exhausted s1 \<Longrightarrow> inf_left s1 < inf_left s"
    using gzip_header_total [OF assms] by blast
  show ?thesis
  proof (cases r1)
    case (Inl e)
    with h show ?thesis by (simp add: inf_member_def)
  next
    case (Inr u)
    obtain s2 r2 where b: "inf_blocks ops s1 = Some (s2, r2)" "keeps s1 s2"
      using inf_blocks_total [OF keeps_inv [OF h(2) assms]] by blast
    let ?r = "andthen (s2, r2) (\<lambda>s _. gzip_trailer fmt ops (op_written ops (in_sink s1)) s)"
    obtain s3 r3 where r3: "andthen (s2, r2) (\<lambda>s2 _. gzip_trailer fmt ops (op_written ops (in_sink s)) s2) = (s3, r3)" by fastforce
    have "keeps s2 (fst (andthen (s2, r2) (\<lambda>s2 _. gzip_trailer fmt ops (op_written ops (in_sink s)) s2)))"
      by (rule keeps_andthen) simp_all
    then have "keeps s2 s3" unfolding r3 by simp
    with b(2) have k: "keeps s1 s3" by (rule keeps_trans)
    with h Inr have "\<not> in_exhausted s3 \<Longrightarrow> inf_left s3 < inf_left s" by (auto simp: keeps_def)
    with h(1) Inr b(1) r3 keeps_trans [OF h(2) k] show ?thesis
      by (simp add: inf_member_def)
  qed
qed

lemma inf_members_total:
  "in_inv s \<Longrightarrow> \<exists>s' r. inf_members fmt ops s = Some (s', r)"
proof (induction "inf_left s" arbitrary: s rule: less_induct)
  case less
  obtain s1 r1 where m: "inf_member fmt ops s = Some (s1, r1)" "keeps s s1"
    "r1 = Inr () \<Longrightarrow> \<not> in_exhausted s1 \<Longrightarrow> inf_left s1 < inf_left s"
    using inf_member_total [OF less.prems] by blast
  show ?case
  proof (cases "r1 = Inr () \<and> in_input s1 \<noteq> [] \<and> hd (in_input s1) = 0x1f")
    case True
    have "in_inv s1" by (rule keeps_inv [OF m(2) less.prems])
    moreover from this True have "\<not> in_exhausted s1" by (auto simp: in_inv_def)
    ultimately show ?thesis using less.hyps [of s1] m(3) True m(1)
      by (subst inf_members.simps) simp
  next
    case False
    then show ?thesis using m(1) by (subst inf_members.simps) (cases r1; auto)
  qed
qed

text \<open>C8. The one-shot decoder returns on every input, whatever its container and its output.\<close>

theorem oneshot_decode_total: "\<exists>out' r. oneshot_decode fmt ops input out = Some (out', r)"
proof -
  let ?s = "\<lparr>in_input = input, in_sink = out, in_bit_buf = 0, in_bit_cnt = 0, in_exhausted = False\<rparr>"
  have inv: "in_inv ?s" by (simp add: in_inv_def)
  have "\<exists>s r. inf_container fmt ops ?s = Some (s, r)"
  proof -
    obtain s1 cmf where b1: "inf_bits 8 ?s = (s1, cmf)" by fastforce
    obtain s2 flg where b2: "inf_bits 8 s1 = (s2, flg)" by fastforce
    have "in_inv s2" using keeps_inv [OF keeps_trans [OF keeps_bits [OF b1] keeps_bits [OF b2]] inv] .
    from inf_blocks_total [OF this] obtain s3 r where "inf_blocks ops s2 = Some (s3, r)" by blast
    then have "\<exists>s r. zlib_container fmt ops ?s = Some (s, r)"
      unfolding zlib_container_def b1 b2 prod.case by (auto split: if_splits)
    with inf_members_total [OF inv, of fmt ops] inf_blocks_total [OF inv, of ops] show ?thesis
      by (auto simp: inf_container_def)
  qed
  then show ?thesis by (auto simp: oneshot_decode_def)
qed

end
