(* ===== verification/EmbedPush.thy ===== *)
theory EmbedPush
  imports EmbedTotal Codec
begin

text \<open>
  The push decoder of the embedded family (\<open>src/embed/decoder.rs\<close> and the window of
  \<open>src/embed/inflate.rs\<close>): a state machine whose steps run on whatever input there is.  A step
  that runs out of input, or a literal that finds no room, is taken back.
\<close>

section \<open>The window and the output\<close>

record window =
  wd_buf :: "byte list"
  wd_pos :: u32
  wd_avail :: nat
  wd_max_dist :: nat

definition window_valid :: "nat \<Rightarrow> bool" where
  "window_valid N \<longleftrightarrow> N \<noteq> 0 \<and> N AND (N - 1) = 0 \<and> N \<le> 32768"

definition window_new :: "nat \<Rightarrow> window" where
  "window_new N = \<lparr>wd_buf = replicate N 0, wd_pos = 0, wd_avail = 0, wd_max_dist = 0\<rparr>"

definition window_set_max_dist :: "nat \<Rightarrow> window \<Rightarrow> window" where
  "window_set_max_dist d w = w\<lparr>wd_max_dist := max 1 (min d (length (wd_buf w)))\<rparr>"

definition window_reset :: "window \<Rightarrow> window" where
  "window_reset w = w\<lparr>wd_pos := 0, wd_avail := 0\<rparr>"

definition window_put :: "window \<Rightarrow> byte \<Rightarrow> window" where
  "window_put w b =
     w\<lparr>wd_buf := (wd_buf w)[unat (wd_pos w) AND (length (wd_buf w) - 1) := b], wd_pos := wd_pos w + 1,
       wd_avail := (if wd_avail w < length (wd_buf w) then wd_avail w + 1 else wd_avail w)\<rparr>"

definition window_back :: "window \<Rightarrow> nat \<Rightarrow> byte" where
  "window_back w dist =
     (let i = unat (wd_pos w - word_of_nat dist) AND (length (wd_buf w) - 1) in
      if i < length (wd_buf w) then wd_buf w ! i else 0)"

definition window_check_dist :: "window \<Rightarrow> nat \<Rightarrow> error + unit" where
  "window_check_dist w dist =
     (let max_dist = (if wd_max_dist w = 0 then length (wd_buf w) else wd_max_dist w) in
      if dist = 0 \<or> max_dist < dist \<or> wd_avail w < dist then Inl InvalidDistance else Inr ())"

record 'f windowed =
  ws_window :: window
  ws_format :: 'f
  ws_room :: nat
  ws_out :: "byte list"
  ws_flushed :: nat
  ws_full :: bool

definition ws_new :: "window \<Rightarrow> 'f \<Rightarrow> nat \<Rightarrow> 'f windowed" where
  "ws_new w f n = \<lparr>ws_window = w, ws_format = f, ws_room = n, ws_out = [], ws_flushed = 0, ws_full = False\<rparr>"

definition ws_left :: "'f windowed \<Rightarrow> nat" where
  "ws_left o1 = ws_room o1 - length (ws_out o1)"

definition ws_push :: "'f windowed \<Rightarrow> byte \<Rightarrow> 'f windowed" where
  "ws_push o1 b = o1\<lparr>ws_window := window_put (ws_window o1) b, ws_out := ws_out o1 @ [b]\<rparr>"

fun ws_copy_loop :: "nat \<Rightarrow> nat \<Rightarrow> 'f windowed \<Rightarrow> 'f windowed" where
  "ws_copy_loop dist 0 o1 = o1"
| "ws_copy_loop dist (Suc n) o1 = ws_copy_loop dist n (ws_push o1 (window_back (ws_window o1) dist))"

definition ws_copy :: "nat \<Rightarrow> nat \<Rightarrow> 'f windowed \<Rightarrow> 'f windowed \<times> (error + unit)" where
  "ws_copy dist n o1 =
     (case window_check_dist (ws_window o1) dist of
        Inl e \<Rightarrow> (o1, Inl e)
      | Inr _ \<Rightarrow> (ws_copy_loop dist n o1, Inr ()))"

definition ws_flush :: "'f format_ops \<Rightarrow> 'f windowed \<Rightarrow> 'f windowed" where
  "ws_flush fmt o1 =
     o1\<lparr>ws_format := fm_update fmt (ws_format o1) (drop (ws_flushed o1) (ws_out o1)), ws_flushed := length (ws_out o1)\<rparr>"

definition ws_put :: "'f windowed \<Rightarrow> byte \<Rightarrow> 'f windowed \<times> (error + unit)" where
  "ws_put o1 b = (if ws_left o1 = 0 then o1\<lparr>ws_full := True\<rparr> else ws_push o1 b, Inr ())"

definition ws_ops :: "'f windowed out_ops" where
  "ws_ops = \<lparr>out_put = ws_put, out_check_dist = (\<lambda>o1 dist. window_check_dist (ws_window o1) dist)\<rparr>"

type_synonym 'f push = "'f windowed inflate"

definition inf_copy :: "nat \<Rightarrow> nat \<Rightarrow> 'f push \<Rightarrow> ('f windowed, nat) inf_result" where
  "inf_copy dist len s =
     (let n = min len (ws_left (in_sink s)) in
      andthen (on_sink (ws_copy dist n) s) (\<lambda>s1 _. (s1, Inr (len - n))))"

section \<open>Steps\<close>

datatype push_state =
    PStart
  | PMember
  | PSkip nat u16
  | PFields u16
  | PBlock
  | PStoredLen
  | PStored nat
  | PCodeLengths nat
  | PLengths nat
  | PLength
  | PDistance nat
  | PCopy nat nat
  | PChecksum
  | PSize u32
  | PNext
  | PDone

record push_context =
  cx_last :: bool
  cx_len_syms :: nat
  cx_syms :: nat
  cx_code_syms :: nat
  cx_start :: u32
  cx_lengths :: "nat list"
  cx_tables :: tables

definition push_context_new :: push_context where
  "push_context_new =
     \<lparr>cx_last = False, cx_len_syms = 0, cx_syms = 0, cx_code_syms = 0, cx_start = 0,
      cx_lengths = replicate MAX_SYMS 0, cx_tables = tables_new\<rparr>"

text \<open>A step's result: the reader and the context, and an error or the state that follows.\<close>

type_synonym ('f, 'a) push_result = "('f push \<times> push_context) \<times> (error + 'a)"

definition with_context :: "push_context \<Rightarrow> ('f windowed, 'a) inf_result \<Rightarrow> ('f, 'a) push_result" where
  "with_context c r = (case r of (s, x) \<Rightarrow> ((s, c), x))"

definition push_block_end :: "'f format_ops \<Rightarrow> 'f push \<Rightarrow> push_context \<Rightarrow> ('f, push_state) push_result" where
  "push_block_end fmt s c =
     (if \<not> cx_last c then ((s, c), Inr PBlock)
      else
        let s1 = inf_align s; s2 = s1\<lparr>in_sink := ws_flush fmt (in_sink s1)\<rparr> in
        ((s2, c), Inr (if fm_trailer fmt = 0 then PDone else PChecksum)))"

definition push_verify ::
  "'f format_ops \<Rightarrow> 'f push \<Rightarrow> push_context \<Rightarrow> u32 \<Rightarrow> u32 \<Rightarrow> ('f, push_state) push_result" where
  "push_verify fmt s c check size32 =
     (let written = wd_pos (ws_window (in_sink s)) - cx_start c;
          expected = fm_words fmt (ws_format (in_sink s)) written ! 0 in
      if check \<noteq> expected then ((s, c), Inl ChecksumMismatch)
      else if fm_gzip fmt \<and> size32 \<noteq> written then ((s, c), Inl TrailerMismatch)
      else ((s, c), Inr (if fm_gzip fmt then PNext else PDone)))"

definition push_start :: "'f format_ops \<Rightarrow> 'f push \<Rightarrow> push_context \<Rightarrow> ('f, push_state) push_result" where
  "push_start fmt s c =
     (if fm_gzip fmt then ((s, c), Inr PMember)
      else if fm_trailer fmt = 0 then ((s, c), Inr PBlock)
      else
        case inf_bits 8 s of (s1, cmf) \<Rightarrow>
        case inf_bits 8 s1 of (s2, flg) \<Rightarrow>
        if cmf AND 0x0f \<noteq> 8 then ((s2, c), Inl Unsupported)
        else if (cmf * 256 + flg) mod 31 \<noteq> 0 then ((s2, c), Inl BadHeader)
        else if flg AND FDICT \<noteq> 0 then ((s2, c), Inl Unsupported)
        else ((s2, c\<lparr>cx_start := wd_pos (ws_window (in_sink s2))\<rparr>), Inr PBlock))"

definition push_member :: "'f format_ops \<Rightarrow> 'f push \<Rightarrow> push_context \<Rightarrow> ('f, push_state) push_result" where
  "push_member fmt s c =
     (let s0 = s\<lparr>in_sink := (in_sink s)\<lparr>ws_format := fm_init fmt\<rparr>\<rparr>;
          c1 = c\<lparr>cx_start := wd_pos (ws_window (in_sink s))\<rparr> in
      case inf_bits 16 s0 of (s1, magic) \<Rightarrow>
      if magic \<noteq> 0x8b1f then ((s1, c1), Inl BadHeader)
      else
        case inf_bits 8 s1 of (s2, cm) \<Rightarrow>
        if cm \<noteq> 8 then ((s2, c1), Inl Unsupported)
        else
          case inf_bits 8 s2 of (s3, flags) \<Rightarrow>
          if flags AND GZ_RESERVED \<noteq> 0 then ((s3, c1), Inl Unsupported)
          else ((s3, c1), Inr (PSkip 6 flags)))"

definition push_fields :: "u16 \<Rightarrow> 'f push \<Rightarrow> push_context \<Rightarrow> ('f, push_state) push_result" where
  "push_fields flags s c =
     (let txt = flags AND (FNAME OR FCOMMENT) in
      if flags AND FEXTRA \<noteq> 0 then
        (case inf_bits 16 s of (s1, len) \<Rightarrow> ((s1, c), Inr (PSkip (unat len) (flags AND NOT FEXTRA))))
      else if txt \<noteq> 0 then
        (case inf_bits 8 s of (s1, b) \<Rightarrow>
           ((s1, c), Inr (PFields (if b = 0 then flags AND NOT (txt AND - txt) else flags))))
      else if flags AND FHCRC \<noteq> 0 then ((s, c), Inr (PSkip 2 (flags AND NOT FHCRC)))
      else ((s, c), Inr PBlock))"

definition push_block :: "'f push \<Rightarrow> push_context \<Rightarrow> ('f, push_state) push_result" where
  "push_block s c =
     (case inf_bits 1 s of (s1, fin) \<Rightarrow>
      let c1 = c\<lparr>cx_last := (fin \<noteq> 0)\<rparr> in
      case inf_bits 2 s1 of (s2, kind) \<Rightarrow>
      if kind = 0 then ((inf_align s2, c1), Inr PStoredLen)
      else if kind = 1 then
        (case build_codes fixed_lengths MAX_LEN_SYMS (cx_tables c1) of (t, r) \<Rightarrow>
           ((s2, c1\<lparr>cx_lengths := fixed_lengths, cx_tables := t\<rparr>),
            case r of Inl e \<Rightarrow> Inl e | Inr _ \<Rightarrow> Inr PLength))
      else if kind = 2 then
        (case dynamic_head s2 of
           (s3, Inl e) \<Rightarrow> ((s3, c1), Inl e)
         | (s3, Inr (len_syms, dist_syms, code_syms)) \<Rightarrow>
             ((s3, c1\<lparr>cx_len_syms := len_syms, cx_syms := len_syms + dist_syms, cx_code_syms := code_syms,
                      cx_lengths := replicate 19 0 @ drop 19 (cx_lengths c1)\<rparr>),
              Inr (PCodeLengths 0)))
      else ((s2, c1), Inl InvalidBlockType))"

definition push_code_lengths :: "nat \<Rightarrow> 'f push \<Rightarrow> push_context \<Rightarrow> ('f, push_state) push_result" where
  "push_code_lengths index s c =
     (if index < length ORDER \<and> index < cx_code_syms c then
        case inf_bits 3 s of (s1, v) \<Rightarrow>
        ((s1, c\<lparr>cx_lengths := (cx_lengths c)[ORDER ! index mod 32 := unat v]\<rparr>), Inr (PCodeLengths (index + 1)))
      else
        let t = cx_tables c; code = huff_build (take 19 (cx_lengths c)) (tb_len t); c1 = c\<lparr>cx_tables := t\<lparr>tb_len := code\<rparr>\<rparr> in
        if hf_left code \<noteq> 0 then ((s, c1), Inl InvalidHuffmanTree) else ((s, c1), Inr (PLengths 0)))"

definition push_lengths :: "nat \<Rightarrow> 'f push \<Rightarrow> push_context \<Rightarrow> ('f, push_state) push_result" where
  "push_lengths index s c =
     (if length (cx_lengths c) < cx_syms c then ((s, c), Inl Corrupt)
      else
        let lengths = take (cx_syms c) (cx_lengths c) in
        if index < length lengths then
          (case code_lengths (tb_len (cx_tables c)) lengths index s of
             (s1, Inl e) \<Rightarrow> ((s1, c), Inl e)
           | (s1, Inr (ls, stop)) \<Rightarrow>
               ((s1, c\<lparr>cx_lengths := ls @ drop (cx_syms c) (cx_lengths c)\<rparr>), Inr (PLengths stop)))
        else if 256 < length lengths \<and> lengths ! 256 = 0 then ((s, c), Inl InvalidHuffmanTree)
        else
          case build_codes lengths (cx_len_syms c) (cx_tables c) of (t, r) \<Rightarrow>
          ((s, c\<lparr>cx_tables := t\<rparr>), case r of Inl e \<Rightarrow> Inl e | Inr _ \<Rightarrow> Inr PLength))"

definition push_length :: "'f format_ops \<Rightarrow> 'f push \<Rightarrow> push_context \<Rightarrow> ('f, push_state) push_result" where
  "push_length fmt s c =
     (case inf_length ws_ops (tb_len (cx_tables c)) s of
        (s1, Inl e) \<Rightarrow> ((s1, c), Inl e)
      | (s1, Inr SymLiteral) \<Rightarrow> ((s1, c), Inr PLength)
      | (s1, Inr SymEnd) \<Rightarrow> push_block_end fmt s1 c
      | (s1, Inr (SymMatch len)) \<Rightarrow> ((s1, c), Inr (PDistance len)))"

definition push_step :: "'f format_ops \<Rightarrow> push_state \<Rightarrow> 'f push \<Rightarrow> push_context \<Rightarrow> ('f, push_state) push_result" where
  "push_step fmt st s c =
     (let gz = (case st of PMember \<Rightarrow> True | PSkip _ _ \<Rightarrow> True | PFields _ \<Rightarrow> True | PSize _ \<Rightarrow> True | _ \<Rightarrow> False) in
      if gz \<and> \<not> fm_gzip fmt \<or> st = PChecksum \<and> fm_trailer fmt = 0 then ((s, c), Inl Corrupt)
      else
        case st of
          PStart \<Rightarrow> push_start fmt s c
        | PMember \<Rightarrow> push_member fmt s c
        | PSkip bytes flags \<Rightarrow>
            if bytes = 0 then ((s, c), Inr (PFields flags))
            else ((fst (inf_bits 8 s), c), Inr (PSkip (bytes - 1) flags))
        | PFields flags \<Rightarrow> push_fields flags s c
        | PBlock \<Rightarrow> push_block s c
        | PStoredLen \<Rightarrow> with_context c (andthen (stored_len s) (\<lambda>s1 len. (s1, Inr (PStored (unat len)))))
        | PStored bytes \<Rightarrow>
            if bytes = 0 then push_block_end fmt s c
            else with_context c (andthen (stored_byte ws_ops s) (\<lambda>s1 _. (s1, Inr (PStored (bytes - 1)))))
        | PCodeLengths index \<Rightarrow> push_code_lengths index s c
        | PLengths index \<Rightarrow> push_lengths index s c
        | PLength \<Rightarrow> push_length fmt s c
        | PDistance len \<Rightarrow>
            with_context c (andthen (inf_distance ws_ops (tb_dist (cx_tables c)) s) (\<lambda>s1 dist. (s1, Inr (PCopy dist len))))
        | PCopy dist len \<Rightarrow>
            with_context c (andthen (inf_copy dist len s) (\<lambda>s1 left. (s1, Inr (if left = 0 then PLength else PCopy dist left))))
        | PChecksum \<Rightarrow>
            (case inf_word s of (s1, check) \<Rightarrow>
               if fm_gzip fmt then ((s1, c), Inr (PSize check)) else push_verify fmt s1 c check 0)
        | PSize check \<Rightarrow> (case inf_word s of (s1, size32) \<Rightarrow> push_verify fmt s1 c check size32)
        | _ \<Rightarrow> ((s, c), Inl Corrupt))"

section \<open>Runs\<close>

function push_reload :: "'f push \<Rightarrow> 'f push" where
  "push_reload s =
     (case in_input s of
        b # rest \<Rightarrow>
          if in_bit_cnt s \<le> 24 then
            push_reload (s\<lparr>in_bit_buf := in_bit_buf s OR push_bit (in_bit_cnt s) (ucast b),
                           in_bit_cnt := in_bit_cnt s + 8, in_input := rest\<rparr>)
          else s
      | [] \<Rightarrow> s)"
  by pat_completeness auto
termination by (relation "measure (\<lambda>s. length (in_input s))") auto

declare push_reload.simps [simp del]

text \<open>Taking a step back: the bits and the input as they were.\<close>

definition push_back :: "'f push \<Rightarrow> 'f push \<Rightarrow> 'f push" where
  "push_back s s1 = s1\<lparr>in_bit_buf := in_bit_buf s, in_bit_cnt := in_bit_cnt s, in_input := in_input s\<rparr>"

text \<open>One turn of the loop of \<open>run\<close>: the next state, or \<open>None\<close> where the loop is left.\<close>

definition push_waits :: "push_state \<Rightarrow> bool" where
  "push_waits st = (case st of PStored bytes \<Rightarrow> 1 \<le> bytes | PCopy _ _ \<Rightarrow> True | _ \<Rightarrow> False)"

definition push_turn ::
  "'f format_ops \<Rightarrow> push_state \<Rightarrow> 'f push \<Rightarrow> push_context \<Rightarrow> ('f, push_state option) push_result" where
  "push_turn fmt st s c =
     (if st = PDone then ((s, c), Inr None)
      else if push_waits st \<and> ws_left (in_sink s) = 0 then ((s, c), Inr None)
      else if st = PNext \<and> fm_gzip fmt then
        (case in_input s of
           [] \<Rightarrow> ((s, c), Inr None)
         | b # _ \<Rightarrow> ((s, c), Inr (Some (if b = 0x1f then PMember else PDone))))
      else
        case push_step fmt st s c of ((s1, c1), r) \<Rightarrow>
        if ws_full (in_sink s1) then ((push_back s s1, c1), Inr None)
        else if in_exhausted s1 then
          ((push_reload ((push_back s s1)\<lparr>in_exhausted := False\<rparr>), c1), Inr None)
        else ((s1, c1), map_sum id Some r))"

text \<open>What the loop's turns lower: the bits left, then the rank of the state, then the room.\<close>

definition push_rank :: "push_state \<Rightarrow> nat" where
  "push_rank st =
     (case st of
        PStart \<Rightarrow> 5 | PMember \<Rightarrow> 4 | PNext \<Rightarrow> 5
      | PSkip _ flags \<Rightarrow> if flags AND FHCRC \<noteq> 0 then 5 else 3
      | PFields flags \<Rightarrow> if flags AND FHCRC \<noteq> 0 then 4 else 2
      | PStored _ \<Rightarrow> 2 | PCodeLengths _ \<Rightarrow> 3 | PLengths _ \<Rightarrow> 2 | PCopy _ _ \<Rightarrow> 2
      | PDone \<Rightarrow> 0 | _ \<Rightarrow> 1)"

lemma inf_bits_less: "inf_bits need s = (s', v) \<Longrightarrow> \<not> in_exhausted s' \<Longrightarrow> 0 < need \<Longrightarrow> inf_left s' < inf_left s"
  using inf_bits_left [of need s s' v] by simp

lemma inf_bits_down:
  "inf_bits need s = (s', v) \<Longrightarrow>
   (\<not> in_exhausted s' \<longrightarrow> inf_left s = inf_left s' + need \<and> \<not> in_exhausted s) \<and> inf_left s' \<le> inf_left s"
  using inf_bits_left [of need s s' v] inf_bits_left_le [of need s s' v] inf_bits_exhausted [of need s s' v] by auto

lemma inf_align_left: "inf_left (inf_align s) \<le> inf_left s"
  unfolding inf_align_def using inf_bits_left_le [of "in_bit_cnt s mod 8" s] by (metis prod.collapse)

lemma inf_align_exhausted: "in_exhausted s \<Longrightarrow> in_exhausted (inf_align s)"
  unfolding inf_align_def using inf_bits_exhausted [of "in_bit_cnt s mod 8" s] by (metis prod.collapse)

lemma inf_sink_left [simp]: "inf_left (s\<lparr>in_sink := o1\<rparr>) = inf_left s"
  by (simp add: inf_left_def)

lemma inf_word_less:
  assumes "inf_word s = (s', v)" and "\<not> in_exhausted s'"
  shows "inf_left s' < inf_left s"
proof -
  obtain s1 low where b1: "inf_bits 16 s = (s1, low)" by fastforce
  obtain s2 high where b2: "inf_bits 16 s1 = (s2, high)" by fastforce
  from assms(1) b1 b2 have "s' = s2" by (simp add: inf_word_def)
  with inf_bits_left [OF b2] inf_bits_left_le [OF b1] assms(2) show ?thesis by simp
qed

lemma push_block_end_left:
  "push_block_end fmt s c = ((s1, c1), Inr st') \<Longrightarrow>
   inf_left s1 \<le> inf_left s \<and> push_rank st' \<le> 1"
  using inf_align_left [of s]
  by (auto simp: push_block_end_def push_rank_def Let_def split: if_splits)

lemma fhcrc_clear: "(flags AND NOT FHCRC) AND FHCRC = 0"
  by (simp add: bit_eq_iff bit_simps)

text \<open>The order the turns go down in.\<close>

definition push_down :: "push_state \<Rightarrow> 'f push \<Rightarrow> push_state \<Rightarrow> 'f push \<Rightarrow> bool" where
  "push_down st' s' st s \<longleftrightarrow>
     inf_left s' < inf_left s \<or> inf_left s' = inf_left s \<and> push_rank st' < push_rank st"

lemma push_down_left: "inf_left s' < inf_left s \<Longrightarrow> push_down st' s' st s"
  by (simp add: push_down_def)

lemma push_down_rank: "inf_left s' \<le> inf_left s \<Longrightarrow> push_rank st' < push_rank st \<Longrightarrow> push_down st' s' st s"
  by (auto simp: push_down_def)

lemma ws_copy_loop_out: "length (ws_out (ws_copy_loop dist n o1)) = length (ws_out o1) + n"
  "ws_room (ws_copy_loop dist n o1) = ws_room o1"
  by (induction dist n o1 rule: ws_copy_loop.induct) (simp_all add: ws_push_def)

lemma push_copy_step:
  "push_step fmt (PCopy dist len) s c =
     (case window_check_dist (ws_window (in_sink s)) dist of
        Inl e \<Rightarrow> ((s, c), Inl e)
      | Inr _ \<Rightarrow>
          let n = min len (ws_left (in_sink s)) in
          ((s\<lparr>in_sink := ws_copy_loop dist n (in_sink s)\<rparr>, c), Inr (if len - n = 0 then PLength else PCopy dist (len - n))))"
  by (simp add: push_step_def with_context_def inf_copy_def Let_def on_sink_def ws_copy_def split: sum.split)

lemma push_step_down:
  assumes "push_step fmt st s c = ((s1, c1), Inr st')" and "\<not> in_exhausted s1" and "\<And>dist len. st \<noteq> PCopy dist len"
  shows "push_down st' s1 st s"
proof (cases st)
  case PStart
  with assms(1,2) show ?thesis
    by (auto simp: push_step_def push_start_def push_rank_def dest!: inf_bits_down
        intro: push_down_rank push_down_left split: if_splits prod.splits)
next
  case PMember
  with assms(1,2) show ?thesis
    by (auto simp: push_step_def push_member_def Let_def dest!: inf_bits_down
        intro!: push_down_left split: if_splits prod.splits)
next
  case (PSkip bytes flags)
  show ?thesis
  proof (cases "bytes = 0")
    case True
    with PSkip assms(1) show ?thesis
      by (auto simp: push_step_def push_rank_def intro!: push_down_rank split: if_splits)
  next
    case False
    obtain s2 v where "inf_bits 8 s = (s2, v)" by fastforce
    with PSkip assms(1,2) False show ?thesis
      by (auto simp: push_step_def dest: inf_bits_less intro!: push_down_left split: if_splits)
  qed
next
  case (PFields flags)
  with assms(1,2) show ?thesis
    by (auto simp: push_step_def push_fields_def push_rank_def Let_def fhcrc_clear dest: inf_bits_less
        intro: push_down_left push_down_rank split: if_splits prod.splits)
next
  case PBlock
  with assms(1,2) show ?thesis
    by (auto simp: push_step_def push_block_def dynamic_head_def Let_def dest!: inf_bits_down
        intro!: push_down_left split: if_splits prod.splits sum.splits
        intro: order_le_less_trans [OF inf_align_left] inf_align_exhausted)
next
  case PStoredLen
  with assms(1,2) inf_align_left [of s] show ?thesis
    by (auto simp: push_step_def with_context_def stored_len_def andthen_Inr dest!: inf_bits_down
        intro!: push_down_left split: if_splits prod.splits)
next
  case (PStored bytes)
  show ?thesis
  proof (cases "bytes = 0")
    case True
    with PStored assms(1) show ?thesis
      using push_block_end_left [of fmt s c s1 c1 st']
      by (auto simp: push_step_def push_rank_def intro!: push_down_rank split: if_splits)
  next
    case False
    with PStored assms(1,2) show ?thesis
      by (auto simp: push_step_def with_context_def stored_byte_def andthen_Inr dest!: inf_bits_down on_sink_left
          intro!: push_down_left split: if_splits prod.splits)
  qed
next
  case (PCodeLengths index)
  with assms(1,2) show ?thesis
    by (auto simp: push_step_def push_code_lengths_def push_rank_def Let_def dest: inf_bits_less
        intro: push_down_left push_down_rank split: if_splits prod.splits)
next
  case (PLengths index)
  with assms(1,2) show ?thesis
    by (auto simp: push_step_def push_lengths_def push_rank_def Let_def dest!: code_lengths_left
        intro: push_down_left push_down_rank split: if_splits prod.splits sum.splits)
next
  case PLength
  with assms(1,2) show ?thesis
    by (auto simp: push_step_def push_length_def dest!: inf_length_left push_block_end_left
        intro!: push_down_left split: if_splits prod.splits sum.splits inf_symbol.splits)
next
  case (PDistance len)
  with assms(1,2) show ?thesis
    by (auto simp: push_step_def with_context_def andthen_Inr dest!: inf_distance_left
        intro!: push_down_left split: if_splits prod.splits)
next
  case PChecksum
  with assms(1,2) show ?thesis
    by (auto simp: push_step_def push_verify_def Let_def dest: inf_word_less
        intro!: push_down_left split: if_splits prod.splits)
next
  case (PSize check)
  with assms(1,2) show ?thesis
    by (auto simp: push_step_def push_verify_def Let_def dest: inf_word_less
        intro!: push_down_left split: if_splits prod.splits)
qed (use assms(1,3) in \<open>simp_all add: push_step_def split: if_splits\<close>)

definition push_less :: "push_state \<Rightarrow> 'f push \<Rightarrow> push_state \<Rightarrow> 'f push \<Rightarrow> bool" where
  "push_less st' s' st s \<longleftrightarrow>
     push_down st' s' st s
     \<or> inf_left s' = inf_left s \<and> push_rank st' = push_rank st \<and> ws_left (in_sink s') < ws_left (in_sink s)"

lemma push_step_less:
  assumes "push_step fmt st s c = ((s1, c1), Inr st')" and "\<not> in_exhausted s1"
    and "push_waits st \<Longrightarrow> 0 < ws_left (in_sink s)"
  shows "push_less st' s1 st s"
proof (cases "\<exists>dist len. st = PCopy dist len")
  case False
  with push_step_down [OF assms(1,2)] show ?thesis by (auto simp: push_less_def)
next
  case True
  then obtain dist len where st: "st = PCopy dist len" by blast
  let ?n = "min len (ws_left (in_sink s))"
  from st assms(1,3) have s1: "s1 = s\<lparr>in_sink := ws_copy_loop dist ?n (in_sink s)\<rparr>"
    and st': "st' = (if len - ?n = 0 then PLength else PCopy dist (len - ?n))" and "0 < ws_left (in_sink s)"
    by (auto simp: push_copy_step Let_def push_waits_def split: sum.splits)
  then show ?thesis
    by (cases "len \<le> ws_left (in_sink s)")
      (auto simp: st push_less_def push_down_def push_rank_def ws_left_def ws_copy_loop_out)
qed

text \<open>The loop of \<open>run\<close>: the state, the reader and the context where it is left.\<close>

function push_loop ::
  "'f format_ops \<Rightarrow> push_state \<Rightarrow> 'f push \<Rightarrow> push_context \<Rightarrow> (push_state \<times> 'f push \<times> push_context) \<times> (error + unit)" where
  "push_loop fmt st s c =
     (case push_turn fmt st s c of
        ((s1, c1), Inl e) \<Rightarrow> ((st, s1, c1), Inl e)
      | ((s1, c1), Inr None) \<Rightarrow> ((st, s1, c1), Inr ())
      | ((s1, c1), Inr (Some st')) \<Rightarrow> push_loop fmt st' s1 c1)"
  by pat_completeness auto

lemma push_turn_less:
  assumes "push_turn fmt st s c = ((s1, c1), Inr (Some st'))"
  shows "push_less st' s1 st s"
proof (cases "st = PNext \<and> fm_gzip fmt")
  case True
  with assms have "s1 = s" "push_rank st' < push_rank st"
    by (auto simp: push_turn_def push_waits_def push_rank_def split: list.splits if_splits)
  then show ?thesis by (auto simp: push_less_def intro: push_down_rank)
next
  case False
  from assms False have wait: "\<not> (push_waits st \<and> ws_left (in_sink s) = 0)" "st \<noteq> PDone"
    by (auto simp: push_turn_def split: if_splits)
  obtain s2 c2 r where step: "push_step fmt st s c = ((s2, c2), r)" by (metis prod.collapse)
  from assms wait step False have "\<not> in_exhausted s2" "s1 = s2" "c1 = c2" "r = Inr st'"
    by (auto simp: push_turn_def split: if_splits sum.splits) (cases r; simp)+
  with step wait show ?thesis by (auto intro: push_step_less)
qed

termination push_loop
proof (relation "inv_image (less_than <*lex*> less_than <*lex*> less_than)
    (\<lambda>(_, st, s, _). (inf_left s, push_rank st, ws_left (in_sink s)))", goal_cases)
  case 1
  show ?case by (intro wf_inv_image wf_lex_prod wf_less_than)
next
  case 2
  then show ?case by (auto simp: push_less_def push_down_def dest!: push_turn_less [OF sym])
qed

declare push_loop.simps [simp del]

section \<open>The decoder\<close>

record 'f push_decoder =
  pd_window :: window
  pd_context :: push_context
  pd_format :: 'f
  pd_state :: push_state
  pd_bit_buf :: u32
  pd_bit_cnt :: nat
  pd_poisoned :: bool

definition push_new :: "'f format_ops \<Rightarrow> nat \<Rightarrow> 'f push_decoder" where
  "push_new fmt N =
     \<lparr>pd_window = window_new N, pd_context = push_context_new, pd_format = fm_init fmt, pd_state = PStart,
      pd_bit_buf = 0, pd_bit_cnt = 0, pd_poisoned = False\<rparr>"

definition push_set_window_size :: "nat \<Rightarrow> 'f push_decoder \<Rightarrow> 'f push_decoder" where
  "push_set_window_size n d = d\<lparr>pd_window := window_set_max_dist n (pd_window d)\<rparr>"

definition push_poison :: "'f push_decoder \<Rightarrow> 'f push_decoder" where
  "push_poison d = d\<lparr>pd_poisoned := True\<rparr>"

definition push_run ::
  "'f format_ops \<Rightarrow> 'f push_decoder \<Rightarrow> byte list \<Rightarrow> nat \<Rightarrow> 'f push_decoder \<times> (error + nat \<times> byte list)" where
  "push_run fmt d input room =
     (case push_loop fmt (pd_state d)
        \<lparr>in_input = input, in_sink = ws_new (pd_window d) (pd_format d) room, in_bit_buf = pd_bit_buf d,
         in_bit_cnt = pd_bit_cnt d, in_exhausted = False\<rparr> (pd_context d) of
        ((st, s, c), r) \<Rightarrow>
          let o1 = (case r of Inl e \<Rightarrow> in_sink s | Inr _ \<Rightarrow> ws_flush fmt (in_sink s));
              d1 = d\<lparr>pd_window := ws_window o1, pd_context := c, pd_format := ws_format o1, pd_state := st\<rparr>
          in case r of
               Inl e \<Rightarrow> (d1, Inl e)
             | Inr _ \<Rightarrow>
                 (d1\<lparr>pd_bit_buf := in_bit_buf s, pd_bit_cnt := in_bit_cnt s\<rparr>,
                  Inr (length input - length (in_input s), ws_out o1)))"

definition push_decode :: "'f format_ops \<Rightarrow> 'f push_decoder \<Rightarrow> byte list \<Rightarrow> nat \<Rightarrow> 'f push_decoder raw_result" where
  "push_decode fmt d input room =
     (if pd_poisoned d then (d, Inl Corrupt)
      else
        case push_run fmt d input room of
          (d1, Inl e) \<Rightarrow> (push_poison d1, Inl e)
        | (d1, Inr (consumed, out)) \<Rightarrow> raw_ok d1 consumed out (pd_state d1 = PDone))"

definition push_finish :: "'f format_ops \<Rightarrow> 'f push_decoder \<Rightarrow> nat \<Rightarrow> 'f push_decoder raw_result" where
  "push_finish fmt d room =
     (case push_decode fmt d [] room of
        (d1, Inl e) \<Rightarrow> (d1, Inl e)
      | (d1, Inr (p, out)) \<Rightarrow>
          if pd_state d1 = PDone \<or> pd_state d1 = PNext then
            (d1\<lparr>pd_state := PDone\<rparr>, Inr (p\<lparr>rp_done := True\<rparr>, out))
          else if rp_written p = room \<and> room \<noteq> 0 then (d1, Inr (p, out))
          else (push_poison d1, Inl UnexpectedEnd))"

definition push_reset :: "'f format_ops \<Rightarrow> 'f push_decoder \<Rightarrow> 'f push_decoder" where
  "push_reset fmt d =
     d\<lparr>pd_window := window_reset (pd_window d), pd_format := fm_init fmt, pd_state := PStart,
       pd_bit_buf := 0, pd_bit_cnt := 0, pd_poisoned := False\<rparr>"

function push_skip_loop ::
  "'f format_ops \<Rightarrow> 'f push_decoder \<Rightarrow> byte list \<Rightarrow> nat \<Rightarrow> nat \<Rightarrow> nat \<Rightarrow> 'f push_decoder \<times> (error + nat \<times> nat)" where
  "push_skip_loop fmt d input n consumed written =
     (if written < n then
        let want = min (n - written) 64 in
        case push_run fmt d (drop consumed input) want of
          (d1, Inl e) \<Rightarrow> (push_poison d1, Inl e)
        | (d1, Inr (k, out)) \<Rightarrow>
            if length out < want then (d1, Inr (consumed + k, written + length out))
            else push_skip_loop fmt d1 input n (consumed + k) (written + length out)
      else (d, Inr (consumed, written)))"
  by pat_completeness auto
termination
  by (relation "measure (\<lambda>(_, _, _, n, _, written). n - written)") auto

declare push_skip_loop.simps [simp del]

definition push_skip ::
  "'f format_ops \<Rightarrow> 'f push_decoder \<Rightarrow> byte list \<Rightarrow> nat \<Rightarrow> 'f push_decoder \<times> (error + raw_progress)" where
  "push_skip fmt d input n =
     (if pd_poisoned d then (d, Inl Corrupt)
      else
        case push_skip_loop fmt d input n 0 0 of
          (d1, Inl e) \<Rightarrow> (d1, Inl e)
        | (d1, Inr (consumed, written)) \<Rightarrow>
            (d1, Inr \<lparr>rp_consumed = consumed, rp_written = written, rp_done = (pd_state d1 = PDone)\<rparr>))"

end
