(* ===== verification/EmbedTracks.thy ===== *)
theory EmbedTracks
  imports EmbedTotal
begin

text \<open>
  Two readers side by side.  \<open>ahead ext s t\<close>: the unread bits of \<open>t\<close> are those of \<open>s\<close>, then
  \<open>ext\<close>.  A step that \<open>s\<close> can take on what it has, \<open>t\<close> takes in the same way; \<open>tracks\<close> says so
  of the results, up to errors in \<open>esc\<close>, and the rules below prove it of the steps of
  \<open>src/embed/inflate.rs\<close> from their parts.
\<close>

definition ahead :: "bool list \<Rightarrow> 'o inflate \<Rightarrow> 'p inflate \<Rightarrow> bool" where
  "ahead ext s t \<longleftrightarrow> in_ok s \<and> in_ok t \<and> in_bits t = in_bits s @ ext \<and> 8 dvd length ext"

text \<open>The same of readers that may have read past the end, with the outputs related by \<open>Q\<close>.\<close>

definition tracking :: "bool list \<Rightarrow> ('o \<Rightarrow> 'p \<Rightarrow> bool) \<Rightarrow> 'o inflate \<Rightarrow> 'p inflate \<Rightarrow> bool" where
  "tracking ext Q s t \<longleftrightarrow> (\<not> in_exhausted s \<longrightarrow> ahead ext s t \<and> Q (in_sink s) (in_sink t))"

definition tracks ::
  "(error \<Rightarrow> bool) \<Rightarrow> bool list \<Rightarrow> ('o \<Rightarrow> 'p \<Rightarrow> bool) \<Rightarrow> ('a \<Rightarrow> 'b \<Rightarrow> bool) \<Rightarrow> ('o, 'a) inf_result \<Rightarrow> ('p, 'b) inf_result \<Rightarrow> bool" where
  "tracks esc ext Q R x y \<longleftrightarrow>
     \<not> in_exhausted (fst x) \<longrightarrow>
       (\<exists>e. snd x = Inl e \<and> esc e)
       \<or> ahead ext (fst x) (fst y) \<and> Q (in_sink (fst x)) (in_sink (fst y)) \<and> rel_sum (=) R (snd x) (snd y)"

lemma in_ok_left: "in_ok s \<Longrightarrow> inf_left s = length (in_bits s)"
  by (simp add: in_ok_def inf_left_def in_bits_def)

lemma ahead_cnt:
  assumes "ahead ext s t"
  shows "in_bit_cnt s mod 8 = in_bit_cnt t mod 8"
proof -
  from assms obtain q where q: "length ext = 8 * q" by (auto simp: ahead_def dvd_def)
  from assms have "length (in_bits t) = length (in_bits s) + length ext" by (simp add: ahead_def)
  then have "in_bit_cnt t + 8 * length (in_input t) = in_bit_cnt s + 8 * (length (in_input s) + q)"
    by (simp add: in_bits_def q)
  then have "(in_bit_cnt t + 8 * length (in_input t)) mod 8 = (in_bit_cnt s + 8 * (length (in_input s) + q)) mod 8"
    by simp
  then show ?thesis by (simp only: mod_mult_self2)
qed

text \<open>A read.\<close>

lemma ahead_bits:
  assumes "ahead ext s t" and "inf_bits n s = (s1, v)" and "\<not> in_exhausted s1" and "n \<le> 16"
  obtains t1 where "inf_bits n t = (t1, v)" "ahead ext s1 t1" "in_sink s1 = in_sink s" "in_sink t1 = in_sink t"
proof -
  from assms(1) have ok: "in_ok s" "in_ok t" "in_bits t = in_bits s @ ext" by (simp_all add: ahead_def)
  from inf_bits_left [OF assms(2,3)] in_ok_left [OF ok(1)] have n: "n \<le> length (in_bits s)" by simp
  define p where "p = take n (in_bits s)"
  define rest where "rest = drop n (in_bits s)"
  have p: "in_bits s = p @ rest" "in_bits t = p @ rest @ ext" "length p = n"
    using ok(3) n by (simp_all add: p_def rest_def)
  from inf_bits_ok [OF ok(1) p(1,3) assms(4)] assms(2)
  have s1: "v = word_of_nat (lsb_value p)" "in_ok s1" "in_bits s1 = rest" "in_sink s1 = in_sink s" by auto
  obtain t1 where "inf_bits n t = (t1, word_of_nat (lsb_value p))" "in_ok t1" "in_bits t1 = rest @ ext"
    "in_sink t1 = in_sink t"
    using inf_bits_ok [OF ok(2) p(2,3) assms(4)] by auto
  with that s1 assms(1) show ?thesis by (simp add: ahead_def)
qed

lemma ahead_sym: "ahead [] s t \<Longrightarrow> ahead [] t s"
  by (simp add: ahead_def)

lemma ahead_sink [simp]:
  "ahead ext (s\<lparr>in_sink := o1\<rparr>) t = ahead ext s t" "ahead ext s (t\<lparr>in_sink := o2\<rparr>) = ahead ext s t"
  by (simp_all add: ahead_def in_ok_def in_bits_def)

section \<open>Rules\<close>

lemma tracking_start: "ahead ext s t \<Longrightarrow> Q (in_sink s) (in_sink t) \<Longrightarrow> tracking ext Q s t"
  by (simp add: tracking_def)

lemma tracking_exhausted: "in_exhausted s \<Longrightarrow> tracking ext Q s t"
  by (simp add: tracking_def)

lemma tracking_bits:
  assumes "tracking ext Q s t" and "inf_bits n s = (s1, v)" and "inf_bits n t = (t1, w)" and "n \<le> 16"
  shows "tracking ext Q s1 t1" and "\<not> in_exhausted s1 \<Longrightarrow> w = v"
proof -
  have "tracking ext Q s1 t1 \<and> (\<not> in_exhausted s1 \<longrightarrow> w = v)"
  proof (cases "in_exhausted s1")
    case True
    then show ?thesis by (simp add: tracking_exhausted)
  next
    case False
    with inf_bits_exhausted [OF assms(2)] assms(1) have a: "ahead ext s t" and q: "Q (in_sink s) (in_sink t)"
      by (auto simp: tracking_def)
    obtain t' where t': "inf_bits n t = (t', v)" "ahead ext s1 t'" "in_sink s1 = in_sink s" "in_sink t' = in_sink t"
      using ahead_bits [OF a assms(2) False assms(4)] .
    from t'(1) assms(3) have "t' = t1" "w = v" by simp_all
    with t'(2-4) q show ?thesis by (simp add: tracking_def)
  qed
  then show "tracking ext Q s1 t1" and "\<not> in_exhausted s1 \<Longrightarrow> w = v" by blast+
qed

lemma tracks_exhausted: "in_exhausted (fst x) \<Longrightarrow> tracks esc ext Q R x y"
  by (simp add: tracks_def)

lemma tracks_Inr: "tracking ext Q s t \<Longrightarrow> (\<not> in_exhausted s \<Longrightarrow> R a b) \<Longrightarrow> tracks esc ext Q R (s, Inr a) (t, Inr b)"
  by (simp add: tracks_def tracking_def)

lemma tracks_Inl: "tracking ext Q s t \<Longrightarrow> (\<not> in_exhausted s \<Longrightarrow> e = e') \<Longrightarrow> tracks esc ext Q R (s, Inl e) (t, Inl e')"
  by (simp add: tracks_def tracking_def)

lemma tracks_mono:
  "tracks esc ext Q R x y \<Longrightarrow> (\<And>o1 o2. Q o1 o2 \<Longrightarrow> Q' o1 o2) \<Longrightarrow> (\<And>a b. R a b \<Longrightarrow> R' a b) \<Longrightarrow> tracks esc ext Q' R' x y"
  unfolding tracks_def using sum.rel_mono [of "(=)" "(=)" R R'] by blast

lemma tracks_case_bits:
  assumes "tracking ext Q s t" and "n \<le> 16"
    and "\<And>s1 t1 v. tracking ext Q s1 t1 \<Longrightarrow> tracks esc ext Q' R (f s1 v) (g t1 v)"
    and "\<And>s1 v. keeps s1 (fst (f s1 v))"
  shows "tracks esc ext Q' R (case inf_bits n s of (s1, v) \<Rightarrow> f s1 v) (case inf_bits n t of (t1, v) \<Rightarrow> g t1 v)"
proof -
  obtain s1 v where b: "inf_bits n s = (s1, v)" by fastforce
  obtain t1 w where c: "inf_bits n t = (t1, w)" by fastforce
  note tr = tracking_bits [OF assms(1) b c assms(2)]
  show ?thesis
  proof (cases "in_exhausted s1")
    case True
    with assms(4) [of s1 v] have "in_exhausted (fst (f s1 v))" by (auto simp: keeps_def)
    then show ?thesis by (simp add: b tracks_exhausted)
  next
    case False
    with tr assms(3) [of s1 t1 v] show ?thesis by (simp add: b c)
  qed
qed

lemma tracks_andthen:
  assumes "tracks esc ext Q R x y"
    and "\<And>s t a b. x = (s, Inr a) \<Longrightarrow> tracking ext Q s t \<Longrightarrow> R a b \<Longrightarrow> tracks esc ext Q' R' (f s a) (g t b)"
    and "\<And>s a. keeps s (fst (f s a))"
    and "\<And>o1 o2. Q o1 o2 \<Longrightarrow> Q' o1 o2"
  shows "tracks esc ext Q' R' (andthen x f) (andthen y g)"
proof (cases "in_exhausted (fst x)")
  case True
  have "in_exhausted (fst (andthen x f))"
    using True assms(3) by (cases x; cases "snd x") (auto simp: keeps_def)
  then show ?thesis by (rule tracks_exhausted)
next
  case False
  obtain s r where x: "x = (s, r)" by fastforce
  obtain t r' where y: "y = (t, r')" by fastforce
  show ?thesis
  proof (cases "\<exists>e. r = Inl e \<and> esc e")
    case True
    then show ?thesis by (auto simp: x tracks_def)
  next
    case noesc: False
    with assms(1) False have a: "ahead ext s t" "Q (in_sink s) (in_sink t)" "rel_sum (=) R r r'"
      by (auto simp: tracks_def x y)
    from a(3) show ?thesis
    proof cases
      case (1 e e')
      with a assms(4) show ?thesis by (simp add: x y tracks_def)
    next
      case (2 u v)
      with assms(2) [of s u t v] a(1,2) show ?thesis by (simp add: x y tracking_start)
    qed
  qed
qed

lemma tracking_align:
  assumes "tracking ext Q s t"
  shows "tracking ext Q (inf_align s) (inf_align t)"
proof (cases "in_exhausted s")
  case True
  then show ?thesis
    unfolding inf_align_def using keeps_bits' [of s "in_bit_cnt s mod 8"] by (simp add: keeps_def tracking_def)
next
  case False
  with assms have "in_bit_cnt t mod 8 = in_bit_cnt s mod 8" using ahead_cnt [of ext s t] by (simp add: tracking_def)
  moreover obtain s1 v where b: "inf_bits (in_bit_cnt s mod 8) s = (s1, v)" by fastforce
  moreover obtain t1 w where c: "inf_bits (in_bit_cnt s mod 8) t = (t1, w)" by fastforce
  moreover have "in_bit_cnt s mod 8 \<le> 16" using mod_less_divisor [of 8 "in_bit_cnt s"] by linarith
  ultimately show ?thesis using tracking_bits(1) [OF assms b c] by (simp add: inf_align_def)
qed

lemma tracks_ready: "tracking ext Q s t \<Longrightarrow> tracks esc ext Q (=) (s, inf_ready s) (t, inf_ready t)"
  by (auto simp: tracks_def tracking_def inf_ready_def ahead_def in_ok_def)

lemma tracks_if:
  "(c \<Longrightarrow> tracks esc ext Q R x y) \<Longrightarrow> (\<not> c \<Longrightarrow> tracks esc ext Q R x' y') \<Longrightarrow>
   tracks esc ext Q R (if c then x else x') (if c then y else y')"
  by simp

section \<open>Huffman codes up to stale symbols\<close>

text \<open>Building a code leaves the symbols past its own as they were; decoding does not see them.\<close>

definition same_code :: "huffman \<Rightarrow> huffman \<Rightarrow> bool" where
  "same_code h h' \<longleftrightarrow> hf_count h = hf_count h' \<and> hf_left h = hf_left h' \<and> length (hf_symbol h) = length (hf_symbol h')
     \<and> (\<forall>i < sum_list (tl (hf_count h)). i < length (hf_symbol h) \<longrightarrow> hf_symbol h ! i = hf_symbol h' ! i)"

lemma same_code_refl [simp]: "same_code h h"
  by (simp add: same_code_def)

lemma same_code_sym: "same_code h h' \<Longrightarrow> same_code h' h"
  by (simp add: same_code_def)

lemma tracks_decode_loop:
  assumes "length symbol = length symbol'"
    and "\<And>i. i < index + sum_list counts \<Longrightarrow> i < length symbol \<Longrightarrow> symbol ! i = symbol' ! i"
    and "tracking ext Q s t"
  shows "tracks esc ext Q (=) (inf_decode_loop symbol counts bits first (int index) s)
    (inf_decode_loop symbol' counts bits first (int index) t)"
  using assms(2,3)
proof (induction counts arbitrary: bits first index s t)
  case Nil
  then show ?case by (simp add: tracks_Inl)
next
  case (Cons count counts)
  show ?case unfolding inf_decode_loop.simps
  proof (rule tracks_case_bits [OF Cons.prems(2)], goal_cases)
    case 1
    then show ?case by simp
  next
    case (2 s1 t1 v)
    show ?case
    proof (cases "bits + int (unat v) - int count < first")
      case True
      have "nat (int index + (bits + int (unat v)) - first) < index + sum_list (count # counts)"
        if "0 \<le> int index + (bits + int (unat v)) - first" using that True by simp
      with 2 True Cons.prems(1) assms(1) show ?thesis
        by (auto simp: Let_def inf_ready_def tracks_def tracking_def ahead_def in_ok_def)
    next
      case False
      have "tracks esc ext Q (=) (inf_decode_loop symbol counts (2 * (bits + int (unat v))) (2 * (first + int count)) (int (index + count)) s1)
        (inf_decode_loop symbol' counts (2 * (bits + int (unat v))) (2 * (first + int count)) (int (index + count)) t1)"
        using Cons.prems(1) by (intro Cons.IH 2) simp
      with False show ?thesis by (simp add: Let_def)
    qed
  next
    case (3 s1 v)
    then show ?case
      by (auto simp: Let_def inf_ready_def keeps_decode_loop split: sum.split)
  qed
qed

lemma tracks_decode:
  assumes "same_code h h'" and "tracking ext Q s t"
  shows "tracks esc ext Q (=) (inf_decode h s) (inf_decode h' t)"
  using tracks_decode_loop [of "hf_symbol h" "hf_symbol h'" 0 "tl (hf_count h)" ext Q s t esc 0 0] assms
  by (simp add: inf_decode_def same_code_def)

section \<open>Steps\<close>

lemma tracks_stored_len: "tracking ext Q s t \<Longrightarrow> tracks esc ext Q (=) (stored_len s) (stored_len t)"
  unfolding stored_len_def
  by (intro tracks_case_bits tracking_align) (auto intro!: tracks_if tracks_Inr tracks_Inl keeps_case_bits)

lemma tracks_dynamic_head: "tracking ext Q s t \<Longrightarrow> tracks esc ext Q (=) (dynamic_head s) (dynamic_head t)"
  unfolding dynamic_head_def Let_def
  by (intro tracks_case_bits) (auto intro!: tracks_if tracks_Inr tracks_Inl keeps_case_bits)

text \<open>What writing a byte does to related outputs.\<close>

definition put_related ::
  "(error \<Rightarrow> bool) \<Rightarrow> ('o \<Rightarrow> 'p \<Rightarrow> bool) \<Rightarrow> 'o \<times> (error + unit) \<Rightarrow> 'p \<times> (error + unit) \<Rightarrow> bool" where
  "put_related esc Q x y \<longleftrightarrow> (\<exists>e. snd x = Inl e \<and> esc e) \<or> Q (fst x) (fst y) \<and> snd x = snd y"

lemma tracks_on_sink:
  assumes "tracking ext Q s t" and "\<And>o1 o2. Q o1 o2 \<Longrightarrow> put_related esc Q' (f o1) (g o2)"
  shows "tracks esc ext Q' (=) (on_sink f s) (on_sink g t)"
proof -
  obtain o1 r where f: "f (in_sink s) = (o1, r)" by fastforce
  obtain o2 r' where g: "g (in_sink t) = (o2, r')" by fastforce
  have "in_exhausted s \<or> (\<exists>e. r = Inl e \<and> esc e) \<or> ahead ext s t \<and> Q' o1 o2 \<and> r = r'"
    using assms(1) assms(2) [of "in_sink s" "in_sink t"] by (auto simp: tracking_def put_related_def f g)
  then show ?thesis by (auto simp: tracks_def on_sink_def f g sum.rel_eq)
qed

lemma tracks_stored_byte:
  assumes "tracking ext Q s t" and "\<And>o1 o2 b. Q o1 o2 \<Longrightarrow> put_related esc Q' (out_put ops o1 b) (out_put ops' o2 b)"
    and "\<And>o1 o2. Q o1 o2 \<Longrightarrow> Q' o1 o2"
  shows "tracks esc ext Q' (=) (stored_byte ops s) (stored_byte ops' t)"
  unfolding stored_byte_def
  by (intro tracks_case_bits [OF assms(1)] tracks_andthen [OF tracks_ready] tracks_on_sink assms keeps_andthen) simp_all

lemma tracks_length:
  assumes "tracking ext Q s t" and "same_code h h'"
    and "\<And>o1 o2 b. Q o1 o2 \<Longrightarrow> put_related esc Q' (out_put ops o1 b) (out_put ops' o2 b)"
    and "\<And>o1 o2. Q o1 o2 \<Longrightarrow> Q' o1 o2"
  shows "tracks esc ext Q' (=) (inf_length ops h s) (inf_length ops' h' t)"
  unfolding inf_length_def
proof (rule tracks_andthen [OF tracks_decode [OF assms(2,1)] _ _ assms(4)], goal_cases)
  case (1 s1 t1 a b)
  then have ab: "b = a" and tr: "tracking ext Q s1 t1" by simp_all
  then have tr': "tracking ext Q' s1 t1" using assms(4) by (auto simp: tracking_def)
  have lit: "tracks esc ext Q' (=) (andthen (on_sink (\<lambda>o1. out_put ops o1 (byte_of a)) s1) (\<lambda>s2 _. (s2, Inr SymLiteral)))
    (andthen (on_sink (\<lambda>o1. out_put ops' o1 (byte_of a)) t1) (\<lambda>s2 _. (s2, Inr SymLiteral)))"
    by (intro tracks_andthen [OF tracks_on_sink [OF tr assms(3)]] tracks_Inr) simp_all
  have extra: "(a - 257 - 4) div 4 \<le> 16" if "a - 257 \<le> 27" using that by simp
  show ?case unfolding ab
    using lit extra by (auto simp: Let_def intro!: tracks_if tracks_case_bits [OF tr'] tracks_Inr [OF tr'] tracks_Inl [OF tr'] intro: tracks_Inr)
next
  case (2 s1 a)
  then show ?case by (auto simp: Let_def intro!: keeps_andthen keeps_case_bits)
qed

lemma tracks_distance:
  assumes "tracking ext Q s t" and "same_code h h'"
    and "\<And>o1 o2 d. Q o1 o2 \<Longrightarrow> out_check_dist ops' o2 d = out_check_dist ops o1 d"
  shows "tracks esc ext Q (=) (inf_distance ops h s) (inf_distance ops' h' t)"
  unfolding inf_distance_def
proof (rule tracks_andthen [OF tracks_decode [OF assms(2,1)]], goal_cases)
  case (1 s1 t1 a b)
  then have ab: "b = a" and tr: "tracking ext Q s1 t1" by simp_all
  have extra: "(a - 2) div 2 \<le> 16" if "a \<le> 29" using that by simp
  have dist: "tracks esc ext Q (=)
      (if a \<le> 1 then (s1, Inr (a + 1)) else if a \<le> 29 then
         let extra = (a - 2) div 2 in (case inf_bits extra s1 of (s2, v) \<Rightarrow> (s2, Inr ((2 + a mod 2) * 2 ^ extra + 1 + unat v)))
       else (s1, Inl InvalidHuffmanTree))
      (if a \<le> 1 then (t1, Inr (a + 1)) else if a \<le> 29 then
         let extra = (a - 2) div 2 in (case inf_bits extra t1 of (s2, v) \<Rightarrow> (s2, Inr ((2 + a mod 2) * 2 ^ extra + 1 + unat v)))
       else (t1, Inl InvalidHuffmanTree))"
    using extra by (auto simp: Let_def intro!: tracks_if tracks_case_bits [OF tr] tracks_Inr [OF tr] tracks_Inl [OF tr] intro: tracks_Inr)
  show ?case unfolding ab
  proof (rule tracks_andthen [OF dist], goal_cases)
    case (1 s2 t2 d d')
    then have dd: "d' = d" and tr2: "tracking ext Q s2 t2" by simp_all
    show ?case unfolding dd
    proof (rule tracks_andthen [OF tracks_ready [OF tr2]], goal_cases)
      case (1 s3 t3)
      then have "tracks esc ext Q (=) (s3, out_check_dist ops (in_sink s3) d) (t3, out_check_dist ops' (in_sink t3) d)"
        using assms(3) by (auto simp: tracks_def tracking_def sum.rel_refl)
      then show ?case by (rule tracks_andthen) (auto intro: tracks_Inr)
    qed (auto intro!: keeps_andthen)
  qed (auto intro!: keeps_andthen)
next
  case (2 s1 a)
  then show ?case by (auto simp: Let_def intro!: keeps_andthen keeps_case_bits)
qed simp

lemma tracks_code_lengths:
  assumes "tracking ext Q s t" and "same_code h h'" and "length ls = length ls'" and "take i ls = take i ls'"
  shows "tracks esc ext Q (\<lambda>x y. snd x = snd y \<and> take (snd x) (fst x) = take (snd x) (fst y))
    (code_lengths h ls i s) (code_lengths h' ls' i t)"
  unfolding code_lengths_def
proof (rule tracks_andthen [OF tracks_decode [OF assms(2,1)]], goal_cases)
  case (1 s1 t1 a b)
  then have ab: "b = a" and tr: "tracking ext Q s1 t1" by simp_all
  have prev: "ls ! (i - 1) = ls' ! (i - 1)" if "i \<noteq> 0"
    using arg_cong [OF assms(4), of "\<lambda>xs. xs ! (i - 1)"] that by simp
  have run: "tracks esc ext Q (=)
         (if a \<le> 15 then (s1, Inr (a, 1))
          else if a = 16 then
            (if i = 0 \<or> length ls < i then (s1, Inl InvalidHuffmanTree)
             else case inf_bits 2 s1 of (s2, v) \<Rightarrow> (s2, Inr (ls ! (i - 1), 3 + unat v)))
          else if a = 17 then (case inf_bits 3 s1 of (s2, v) \<Rightarrow> (s2, Inr (0, 3 + unat v)))
          else (case inf_bits 7 s1 of (s2, v) \<Rightarrow> (s2, Inr (0, 11 + unat v))))
         (if a \<le> 15 then (t1, Inr (a, 1))
          else if a = 16 then
            (if i = 0 \<or> length ls' < i then (t1, Inl InvalidHuffmanTree)
             else case inf_bits 2 t1 of (s2, v) \<Rightarrow> (s2, Inr (ls' ! (i - 1), 3 + unat v)))
          else if a = 17 then (case inf_bits 3 t1 of (s2, v) \<Rightarrow> (s2, Inr (0, 3 + unat v)))
          else (case inf_bits 7 t1 of (s2, v) \<Rightarrow> (s2, Inr (0, 11 + unat v))))"
    using prev assms(3)
    by (auto intro!: tracks_if tracks_case_bits [OF tr] tracks_Inr [OF tr] tracks_Inl [OF tr] intro: tracks_Inr)
  show ?case unfolding ab
    by (rule tracks_andthen [OF run]) (auto simp: Let_def assms(3,4) intro!: tracks_if intro: tracks_Inr tracks_Inl)
next
  case (2 s1 a)
  then show ?case by (auto simp: Let_def intro!: keeps_andthen keeps_case_bits)
qed simp

end
