(* ===== verification/EmbedPushSim.thy ===== *)
theory EmbedPushSim
  imports EmbedPush EmbedTracks
begin

text \<open>
  The push decoder with all the input and all the room it could want: \<open>push_ideal\<close> is what the
  rest of a stream decodes to.  The lemmas show that one step of the decoder as it is called, on
  part of the input and into some slice, is a step of the ideal one or is taken back whole.
\<close>

section \<open>The ideal run\<close>

definition push_afresh :: "nat \<Rightarrow> 'f push \<Rightarrow> 'f push" where
  "push_afresh n s = s\<lparr>in_sink := ws_new (ws_window (in_sink s)) (ws_format (in_sink s)) n\<rparr>"

definition push_flush :: "'f format_ops \<Rightarrow> 'f push \<Rightarrow> 'f push" where
  "push_flush fmt s = s\<lparr>in_sink := ws_flush fmt (in_sink s)\<rparr>"

definition push_need :: "push_state \<Rightarrow> nat" where
  "push_need st = (case st of PCopy _ len \<Rightarrow> len | _ \<Rightarrow> 1)"

function push_ideal :: "'f format_ops \<Rightarrow> push_state \<Rightarrow> 'f push \<Rightarrow> push_context \<Rightarrow> outcome" where
  "push_ideal fmt st s c =
     (if st = PDone then ([], None)
      else if st = PNext \<and> fm_gzip fmt then
        (case in_input s of
           [] \<Rightarrow> ([], None)
         | b # _ \<Rightarrow> push_ideal fmt (if b = 0x1f then PMember else PDone) s c)
      else
        case push_step fmt st (push_afresh (push_need st) s) c of ((s1, c1), r) \<Rightarrow>
        if in_exhausted s1 then ([], Some UnexpectedEnd)
        else
          case r of
            Inl e \<Rightarrow> (ws_out (in_sink s1), Some e)
          | Inr st' \<Rightarrow> emit (ws_out (in_sink s1)) (push_ideal fmt st' (push_flush fmt s1) c1))"
  by pat_completeness auto

lemma push_sinks_left [simp]: "inf_left (push_afresh n s) = inf_left s" "inf_left (push_flush fmt s) = inf_left s"
  by (simp_all add: push_afresh_def push_flush_def)

lemma push_ideal_down:
  assumes "push_step fmt st (push_afresh (push_need st) s) c = ((s1, c1), Inr st')" and "\<not> in_exhausted s1"
  shows "push_down st' s1 st s"
proof (cases "\<exists>dist len. st = PCopy dist len")
  case False
  with push_step_down [OF assms] show ?thesis by (auto simp: push_down_def)
next
  case True
  with assms(1) show ?thesis
    by (auto simp: push_copy_step push_need_def push_afresh_def ws_new_def ws_left_def Let_def push_rank_def
        intro!: push_down_rank split: sum.splits)
qed

termination push_ideal
proof (relation "inv_image (less_than <*lex*> less_than) (\<lambda>(_, st, s, _). (inf_left s, push_rank st))", goal_cases)
  case 1
  show ?case by (intro wf_inv_image wf_lex_prod wf_less_than)
next
  case (2 fmt st s c b rest)
  then show ?case by (simp add: push_rank_def)
next
  case 3
  then show ?case by (auto simp: push_down_def dest!: push_ideal_down [OF sym])
qed

declare push_ideal.simps [simp del]

section \<open>Contexts up to what is void\<close>

text \<open>The sizes of the tables and the ranges of what is in them.\<close>

definition ctx_ok :: "push_context \<Rightarrow> bool" where
  "ctx_ok c \<longleftrightarrow> length (cx_lengths c) = MAX_SYMS \<and> list_all (\<lambda>l. l \<le> MAX_BITS) (cx_lengths c)
     \<and> length (hf_symbol (tb_len (cx_tables c))) = MAX_LEN_SYMS
     \<and> length (hf_symbol (tb_dist (cx_tables c))) = MAX_DIST_SYMS
     \<and> length (hf_count (tb_len (cx_tables c))) = MAX_BITS + 1
     \<and> length (hf_count (tb_dist (cx_tables c))) = MAX_BITS + 1
     \<and> cx_len_syms c \<le> 286 \<and> cx_syms c \<le> cx_len_syms c + 30"

text \<open>Whether a state is inside a block, and what of the context each state still goes by.\<close>

definition push_in_block :: "push_state \<Rightarrow> bool" where
  "push_in_block st =
     (case st of
        PStoredLen \<Rightarrow> True | PStored _ \<Rightarrow> True | PCodeLengths _ \<Rightarrow> True | PLengths _ \<Rightarrow> True
      | PLength \<Rightarrow> True | PDistance _ \<Rightarrow> True | PCopy _ _ \<Rightarrow> True | _ \<Rightarrow> False)"

definition ctx_like :: "'f format_ops \<Rightarrow> push_state \<Rightarrow> push_context \<Rightarrow> push_context \<Rightarrow> bool" where
  "ctx_like fmt st c c' \<longleftrightarrow>
     (st \<noteq> PStart \<and> st \<noteq> PMember \<and> (fm_gzip fmt \<or> fm_trailer fmt \<noteq> 0) \<longrightarrow> cx_start c = cx_start c')
     \<and> (push_in_block st \<longrightarrow> cx_last c = cx_last c')
     \<and> (case st of
          PCodeLengths i \<Rightarrow> cx_len_syms c = cx_len_syms c' \<and> cx_syms c = cx_syms c' \<and> cx_code_syms c = cx_code_syms c'
            \<and> (\<forall>j < 19. cx_lengths c ! j = cx_lengths c' ! j \<or> i < length ORDER \<and> i < cx_code_syms c \<and> j = ORDER ! i mod 32)
        | PLengths i \<Rightarrow> cx_len_syms c = cx_len_syms c' \<and> cx_syms c = cx_syms c'
            \<and> take i (cx_lengths c) = take i (cx_lengths c')
            \<and> same_code (tb_len (cx_tables c)) (tb_len (cx_tables c'))
        | PLength \<Rightarrow> same_code (tb_len (cx_tables c)) (tb_len (cx_tables c'))
            \<and> same_code (tb_dist (cx_tables c)) (tb_dist (cx_tables c'))
        | PDistance _ \<Rightarrow> same_code (tb_len (cx_tables c)) (tb_len (cx_tables c'))
            \<and> same_code (tb_dist (cx_tables c)) (tb_dist (cx_tables c'))
        | PCopy _ _ \<Rightarrow> same_code (tb_len (cx_tables c)) (tb_len (cx_tables c'))
            \<and> same_code (tb_dist (cx_tables c)) (tb_dist (cx_tables c'))
        | _ \<Rightarrow> True)"

definition ctx_sim :: "'f format_ops \<Rightarrow> push_state \<Rightarrow> push_context \<Rightarrow> push_context \<Rightarrow> bool" where
  "ctx_sim fmt st c c' \<longleftrightarrow> ctx_ok c \<and> ctx_ok c' \<and> ctx_like fmt st c c'"

lemma ctx_sim_ok: "ctx_sim fmt st c c' \<Longrightarrow> ctx_ok c \<and> ctx_ok c'"
  by (simp add: ctx_sim_def)

lemma ctx_sim_refl: "ctx_ok c \<Longrightarrow> ctx_sim fmt st c c"
  by (simp add: ctx_sim_def ctx_like_def split: push_state.split)

lemma ctx_sim_sym: "ctx_sim fmt st c c' \<Longrightarrow> ctx_sim fmt st c' c"
  by (cases st) (auto simp: ctx_sim_def ctx_like_def push_in_block_def intro: same_code_sym)

section \<open>Codes built over different leftovers\<close>

lemma count_list_rank: "r < count_list xs x \<Longrightarrow> \<exists>s < length xs. xs ! s = x \<and> count_list (take s xs) x = r"
proof (induction xs rule: rev_induct)
  case (snoc y xs)
  show ?case
  proof (cases "r < count_list xs x")
    case True
    with snoc.IH obtain s where "s < length xs" "xs ! s = x" "count_list (take s xs) x = r" by blast
    then show ?thesis by (intro exI [of _ s]) (simp add: nth_append)
  next
    case False
    with snoc.prems have "y = x" "r = count_list xs x" by (auto split: if_splits)
    then show ?thesis by (intro exI [of _ "length xs"]) simp
  qed
qed simp

lemma huff_offset_find:
  "i < huff_offset lengths l \<Longrightarrow> \<exists>k. 1 \<le> k \<and> k < l \<and> huff_offset lengths k \<le> i \<and> i < huff_offset lengths k + len_count lengths k"
proof (induction l)
  case (Suc l)
  show ?case
  proof (cases "i < huff_offset lengths l")
    case True
    with Suc.IH obtain k where "1 \<le> k" "k < l" "huff_offset lengths k \<le> i" "i < huff_offset lengths k + len_count lengths k"
      by blast
    then show ?thesis using less_SucI by blast
  next
    case False
    with Suc.prems have "1 \<le> l" by (cases l) (simp_all add: len_count_def)
    with Suc.prems False show ?thesis by (intro exI [of _ l]) simp
  qed
qed simp

lemma built_sum:
  assumes "built lengths h"
  shows "sum_list (tl (hf_count h)) = huff_offset lengths 16"
proof -
  have len: "length (hf_count h) = 16" using assms by (simp add: built_def)
  have "sum_list (take k (tl (hf_count h))) = huff_offset lengths (Suc k)" if "k \<le> 15" for k
    using that
  proof (induction k)
    case 0
    then show ?case by (simp add: len_count_def)
  next
    case (Suc k)
    then have "tl (hf_count h) ! k = len_count lengths (Suc k)"
      using assms len by (simp add: built_def nth_tl)
    with Suc len show ?case by (simp add: take_Suc_conv_app_nth)
  qed
  from this [of 15] have "sum_list (take 15 (tl (hf_count h))) = huff_offset lengths (Suc 15)" by (simp del: huff_offset.simps)
  moreover have "take 15 (tl (hf_count h)) = tl (hf_count h)" using len by simp
  ultimately show ?thesis by (simp del: huff_offset.simps)
qed

text \<open>The symbols of a code that was built are a matter of its lengths alone.\<close>

definition symbol_at :: "nat list \<Rightarrow> nat \<Rightarrow> nat \<Rightarrow> bool" where
  "symbol_at lengths i s \<longleftrightarrow> s < length lengths \<and> lengths ! s \<noteq> 0
     \<and> huff_offset lengths (lengths ! s) + len_rank lengths s = i"

lemma symbol_at_ex: "i < huff_offset lengths 16 \<Longrightarrow> \<exists>s. symbol_at lengths i s"
proof -
  assume "i < huff_offset lengths 16"
  then obtain k where k: "1 \<le> k" "k < 16" "huff_offset lengths k \<le> i" "i < huff_offset lengths k + len_count lengths k"
    using huff_offset_find by blast
  then have "i - huff_offset lengths k < count_list lengths k" by (simp add: len_count_def split: if_splits)
  from count_list_rank [OF this] obtain s
    where s: "s < length lengths" "lengths ! s = k" "count_list (take s lengths) k = i - huff_offset lengths k"
    by (elim exE conjE)
  with k(1,3) have "symbol_at lengths i s" by (simp add: symbol_at_def len_rank_def)
  then show ?thesis by blast
qed

lemma built_symbol:
  assumes "built lengths h" and "i < sum_list (tl (hf_count h))"
  shows "i < length (hf_symbol h) \<and> hf_symbol h ! i = (SOME s. symbol_at lengths i s)"
proof -
  from assms built_sum have "i < huff_offset lengths 16" by simp
  from someI_ex [OF symbol_at_ex [OF this]] have "symbol_at lengths i (SOME s. symbol_at lengths i s)" .
  with assms(1) show ?thesis by (auto simp: symbol_at_def built_def)
qed

lemma built_same:
  assumes "built lengths h" and "built lengths h'" and "length (hf_symbol h) = length (hf_symbol h')"
  shows "same_code h h'"
proof -
  have "hf_count h ! l = hf_count h' ! l" if "l < 16" for l
    using assms(1,2) that by (cases l) (simp_all add: built_def)
  then have count: "hf_count h = hf_count h'"
    using assms(1,2) by (intro nth_equalityI) (simp_all add: built_def)
  have "hf_symbol h ! i = hf_symbol h' ! i" if "i < sum_list (tl (hf_count h))" for i
    using built_symbol [OF assms(1)] built_symbol [OF assms(2)] that by (metis count)
  with count assms show ?thesis by (simp add: same_code_def built_def)
qed

text \<open>Decoding sees nothing else of a code: not even how long its table is.\<close>

lemma inf_decode_loop_cong:
  assumes "\<And>i. i < index + sum_list counts \<Longrightarrow> i < length symbol \<and> i < length symbol' \<and> symbol ! i = symbol' ! i"
  shows "inf_decode_loop symbol counts bits first (int index) s = inf_decode_loop symbol' counts bits first (int index) s"
  using assms
proof (induction counts arbitrary: bits first index s)
  case (Cons count counts)
  obtain s1 b where b: "inf_bits 1 s = (s1, b)" by fastforce
  have rest: "inf_decode_loop symbol counts bits' first' (int (index + count)) s1
      = inf_decode_loop symbol' counts bits' first' (int (index + count)) s1" for bits' first'
    using Cons.prems by (intro Cons.IH) simp
  have "nat (int index + (bits + int (unat b)) - first) < index + sum_list (count # counts)"
    if "bits + int (unat b) - int count < first" "0 \<le> int index + (bits + int (unat b)) - first" using that by simp
  with Cons.prems [of "nat (int index + (bits + int (unat b)) - first)"] rest show ?case
    by (auto simp: b Let_def simp del: One_nat_def split: sum.split)
qed simp

lemma built_decode:
  assumes "built lengths h" and "built lengths h'"
  shows "inf_decode h s = inf_decode h' s"
proof -
  have "hf_count h ! l = hf_count h' ! l" if "l < 16" for l
    using assms that by (cases l) (simp_all add: built_def)
  then have count: "hf_count h = hf_count h'" using assms by (intro nth_equalityI) (simp_all add: built_def)
  show ?thesis
    using inf_decode_loop_cong [of 0 "tl (hf_count h)" "hf_symbol h" "hf_symbol h'" 0 0 s]
      built_symbol [OF assms(1)] built_symbol [OF assms(2)]
    by (simp add: inf_decode_def count)
qed

lemma same_code_build:
  assumes "list_all (\<lambda>l. l \<le> MAX_BITS) lengths" and "length lengths \<le> length (hf_symbol h)"
    and "length (hf_symbol h) = length (hf_symbol h')"
  shows "same_code (huff_build lengths h) (huff_build lengths h')"
  using huff_build_built [of lengths h] huff_build_built [of lengths h'] assms
  by (intro built_same [of lengths]) simp_all

text \<open>The two codes of a block, built over two contexts.\<close>

lemma build_codes_sizes:
  assumes "build_codes lengths n t = (t1, r)"
  shows "length (hf_symbol (tb_len t1)) = length (hf_symbol (tb_len t))"
    and "length (hf_symbol (tb_dist t1)) = length (hf_symbol (tb_dist t))"
    and "length (hf_count (tb_len t)) = MAX_BITS + 1 \<Longrightarrow> length (hf_count (tb_len t1)) = MAX_BITS + 1"
    and "length (hf_count (tb_dist t)) = MAX_BITS + 1 \<Longrightarrow> length (hf_count (tb_dist t1)) = MAX_BITS + 1"
  using assms by (auto simp: build_codes_def huff_build_def Let_def split: if_splits prod.splits)

lemma build_codes_same:
  assumes "list_all (\<lambda>l. l \<le> MAX_BITS) lengths" and "n \<le> length (hf_symbol (tb_len t))"
    and "length lengths \<le> n + length (hf_symbol (tb_dist t))"
    and "length (hf_symbol (tb_len t)) = length (hf_symbol (tb_len t'))"
    and "length (hf_symbol (tb_dist t)) = length (hf_symbol (tb_dist t'))"
    and "build_codes lengths n t = (t1, r)" and "build_codes lengths n t' = (t1', r')"
  shows "r = r'" and "n \<le> length lengths \<Longrightarrow>
    same_code (tb_len t1) (tb_len t1') \<and> same_code (tb_dist t1) (tb_dist t1')"
proof -
  have ok: "list_all (\<lambda>l. l \<le> MAX_BITS) (take n lengths)" "list_all (\<lambda>l. l \<le> MAX_BITS) (drop n lengths)"
    using assms(1) by (auto simp: list_all_iff dest: in_set_takeD in_set_dropD)
  have s: "same_code (huff_build (take n lengths) (tb_len t)) (huff_build (take n lengths) (tb_len t'))"
    "same_code (huff_build (drop n lengths) (tb_dist t)) (huff_build (drop n lengths) (tb_dist t'))"
    using assms(2-5) ok by (auto intro!: same_code_build)
  then have v: "huff_is_valid (huff_build (take n lengths) (tb_len t)) k = huff_is_valid (huff_build (take n lengths) (tb_len t')) k"
    "huff_is_valid (huff_build (drop n lengths) (tb_dist t)) k = huff_is_valid (huff_build (drop n lengths) (tb_dist t')) k" for k
    by (simp_all add: same_code_def huff_is_valid_def)
  show "r = r'" using assms(6,7) v by (auto simp: build_codes_def Let_def split: if_splits)
  show "same_code (tb_len t1) (tb_len t1') \<and> same_code (tb_dist t1) (tb_dist t1')" if "n \<le> length lengths"
    using assms(6,7) s that by (auto simp: build_codes_def Let_def split: if_splits)
qed

end
