(* ===== verification/EmbedPushStep.thy ===== *)
theory EmbedPushStep
  imports EmbedPushSim
begin

text \<open>
  One step of the push decoder: what it keeps of the context, what it leaves when it is void,
  and that two decoders with the same bits before them, one of them with more to come, take it
  alike.
\<close>

section \<open>The context stays well formed\<close>

lemma inf_bits_value: "inf_bits n s = (s1, v) \<Longrightarrow> unat v < 2 ^ n"
proof -
  assume "inf_bits n s = (s1, v)"
  then have "v = ucast (take_bit n (in_bit_buf (inf_fill n s)))"
    by (auto simp: inf_bits_def Let_def take_bit_eq_mask)
  then have "unat v \<le> unat (take_bit n (in_bit_buf (inf_fill n s)))"
    by (simp add: unsigned_ucast_eq take_bit_nat_less_eq_self)
  also have "\<dots> < 2 ^ n" by (simp add: unsigned_take_bit_eq)
  finally show ?thesis .
qed

lemma huff_build_size [simp]: "length (hf_symbol (huff_build lengths h)) = length (hf_symbol h)"
  "length (hf_count (huff_build lengths h)) = MAX_BITS + 1"
  by (simp_all add: huff_build_def Let_def split: prod.split)

lemma list_all_update: "list_all P xs \<Longrightarrow> P x \<Longrightarrow> list_all P (xs[i := x])"
  by (cases "i < length xs") (auto simp: list_all_length nth_list_update)

lemma list_all_take_drop:
  "list_all P xs \<Longrightarrow> list_all P (take n xs)" "list_all P xs \<Longrightarrow> list_all P (drop n xs)"
  by (auto simp: list_all_iff dest: in_set_takeD in_set_dropD)

lemma code_lengths_range:
  assumes "code_lengths h ls i s = (s1, Inr (ls1, stop))" and "list_all (\<lambda>l. l \<le> MAX_BITS) ls"
  shows "length ls1 = length ls" and "list_all (\<lambda>l. l \<le> MAX_BITS) ls1" and "stop \<le> length ls" and "i \<le> stop"
    and "take i ls1 = take i ls"
proof -
  have le: "ls ! (i - 1) \<le> 15" if "i \<noteq> 0" "i \<le> length ls"
    using assms(2) that by (simp add: list_all_length MAX_BITS_def)
  from assms(1) obtain s0 sm s2 len n where
    run: "(if sm \<le> 15 then (s0, Inr (sm, 1))
          else if sm = 16 then
            (if i = 0 \<or> length ls < i then (s0, Inl InvalidHuffmanTree)
             else case inf_bits 2 s0 of (s2, v) \<Rightarrow> (s2, Inr (ls ! (i - 1), 3 + unat v)))
          else if sm = 17 then (case inf_bits 3 s0 of (s2, v) \<Rightarrow> (s2, Inr (0, 3 + unat v)))
          else (case inf_bits 7 s0 of (s2, v) \<Rightarrow> (s2, Inr (0, 11 + unat v)))) = (s2, Inr (len, n))"
    and rest: "(let stop = i + n in if length ls < stop then (s2, Inl InvalidHuffmanTree)
            else (s2, Inr (take i ls @ replicate n len @ drop stop ls, stop))) = (s1, Inr (ls1, stop))"
    unfolding code_lengths_def andthen_Inr by (auto simp only: split_paired_Ex prod.case)
  from rest have "i + n \<le> length ls" "stop = i + n" "ls1 = take i ls @ replicate n len @ drop stop ls"
    by (auto simp: Let_def split: if_splits)
  moreover have "len \<le> MAX_BITS" using run le by (auto simp: MAX_BITS_def split: if_splits prod.splits)
  ultimately have r: "i + n \<le> length ls" "stop = i + n"
    "ls1 = take i ls @ replicate n len @ drop stop ls" "len \<le> MAX_BITS" .
  with assms(2) show "length ls1 = length ls" "stop \<le> length ls" "i \<le> stop" "take i ls1 = take i ls"
    by simp_all
  show "list_all (\<lambda>l. l \<le> MAX_BITS) ls1"
    using r assms(2) by (auto simp: list_all_iff dest: in_set_takeD in_set_dropD)
qed

lemma fixed_lengths_ok: "length fixed_lengths = MAX_SYMS" "list_all (\<lambda>l. l \<le> MAX_BITS) fixed_lengths"
  by (auto simp: fixed_lengths_def MAX_SYMS_def MAX_LEN_SYMS_def MAX_DIST_SYMS_def MAX_BITS_def list_all_iff)

lemma sizes: "MAX_SYMS = 320" "MAX_LEN_SYMS = 288" "MAX_DIST_SYMS = 32"
  by (simp_all add: MAX_SYMS_def MAX_LEN_SYMS_def MAX_DIST_SYMS_def)

lemma push_block_ctx_ok:
  assumes "push_block s c = ((s1, c1), r)" and "ctx_ok c"
  shows "ctx_ok c1"
proof -
  obtain s2 fin where b1: "inf_bits 1 s = (s2, fin)" by fastforce
  obtain s3 kind where b2: "inf_bits 2 s2 = (s3, kind)" by fastforce
  obtain t q where t: "build_codes fixed_lengths MAX_LEN_SYMS (cx_tables c) = (t, q)" by fastforce
  obtain s4 d where d: "dynamic_head s3 = (s4, d)" by fastforce
  have dims: "len_syms \<le> 286 \<and> dist_syms \<le> 30" if "d = Inr (len_syms, dist_syms, code_syms)" for len_syms dist_syms code_syms
    using d that by (auto simp: dynamic_head_def Let_def split: prod.splits if_splits)
  note fixed_lengths_ok [unfolded list_all_iff sizes, simp] build_codes_sizes [OF t, simp]
  note t' = t [unfolded sizes]
  show ?thesis
    using assms dims
    by (auto simp: push_block_def b1 b2 t' d Let_def ctx_ok_def sizes list_all_iff
        simp del: One_nat_def dest!: in_set_dropD split: if_splits sum.splits prod.splits)
qed

lemma push_lengths_ctx_ok:
  assumes "push_lengths i s c = ((s1, c1), r)" and "ctx_ok c"
  shows "ctx_ok c1"
proof -
  obtain t q where t: "build_codes (take (cx_syms c) (cx_lengths c)) (cx_len_syms c) (cx_tables c) = (t, q)" by fastforce
  obtain s2 x where x: "code_lengths (tb_len (cx_tables c)) (take (cx_syms c) (cx_lengths c)) i s = (s2, x)" by fastforce
  have range: "length ls = min (length (cx_lengths c)) (cx_syms c) \<and> list_all (\<lambda>l. l \<le> MAX_BITS) ls" if "x = Inr (ls, stop)" for ls stop
    using code_lengths_range(1,2) [OF x [unfolded that]] assms(2)
    by (simp add: ctx_ok_def list_all_take_drop)
  note build_codes_sizes [OF t, simp]
  show ?thesis
    using assms range
    by (auto simp: push_lengths_def Let_def t x ctx_ok_def sizes list_all_take_drop split: if_splits sum.splits)
qed

lemma push_code_lengths_ctx_ok:
  assumes "push_code_lengths i s c = ((s1, c1), r)" and "ctx_ok c"
  shows "ctx_ok c1"
proof -
  obtain s2 v where b: "inf_bits 3 s = (s2, v)" by fastforce
  have "unat v \<le> MAX_BITS" using inf_bits_value [OF b] by (simp add: MAX_BITS_def)
  with assms b show ?thesis
    by (auto simp: push_code_lengths_def Let_def ctx_ok_def list_all_update split: if_splits)
qed

text \<open>The steps that leave the tables alone.\<close>

lemma ctx_ok_start [simp]: "ctx_ok (c\<lparr>cx_start := x\<rparr>) = ctx_ok c"
  by (simp add: ctx_ok_def)

lemma with_context_fst [simp]: "fst (fst (with_context c r)) = fst r" "snd (fst (with_context c r)) = c"
  by (simp_all add: with_context_def split: prod.split)

lemma push_step_ctx_ok:
  assumes "push_step fmt st s c = ((s1, c1), r)" and "ctx_ok c"
  shows "ctx_ok c1"
proof (cases st)
  case PBlock
  with assms push_block_ctx_ok [of s c s1 c1 r] show ?thesis by (auto simp: push_step_def)
next
  case (PCodeLengths i)
  with assms push_code_lengths_ctx_ok [of i s c s1 c1 r] show ?thesis by (auto simp: push_step_def)
next
  case (PLengths i)
  with assms push_lengths_ctx_ok [of i s c s1 c1 r] show ?thesis by (auto simp: push_step_def)
qed (use assms in \<open>auto simp: push_step_def push_start_def push_member_def push_fields_def push_length_def
    push_block_end_def push_verify_def with_context_def Let_def split: if_splits prod.splits sum.splits inf_symbol.splits\<close>)

section \<open>Void steps\<close>

lemma inf_align_here: "in_exhausted (inf_align s) = in_exhausted s"
proof -
  have "\<not> in_bit_cnt s < in_bit_cnt s mod 8" by (simp add: not_less)
  then have "inf_fill (in_bit_cnt s mod 8) s = s" by (subst inf_fill.simps) (simp only: if_False)
  then show ?thesis by (simp add: inf_align_def inf_bits_def Let_def)
qed

lemma inf_align_sink [simp]: "in_sink (inf_align s) = in_sink s"
  by (cases "inf_bits (in_bit_cnt s mod 8) s") (simp add: inf_align_def)

lemma inf_decode_loop_sink:
  "inf_decode_loop symbol counts bits first index s = (s', r) \<Longrightarrow> in_sink s' = in_sink s"
proof (induction symbol counts bits first index s rule: inf_decode_loop.induct)
  case (2 symbol count counts bits first index s)
  obtain s1 b where b: "inf_bits 1 s = (s1, b)" by fastforce
  show ?case
  proof (cases "bits + int (unat b) - int count < first")
    case True
    with 2(2) b have "s' = s1" by (auto simp: Let_def inf_ready_def split: if_splits)
    with inf_bits_sink [OF b] show ?thesis by simp
  next
    case False
    with 2(2) b inf_bits_sink [OF b] show ?thesis
      using 2(1) [OF b [symmetric] refl False] by (simp add: Let_def)
  qed
qed simp

lemma inf_decode_sink: "inf_decode h s = (s', r) \<Longrightarrow> in_sink s' = in_sink s"
  unfolding inf_decode_def by (rule inf_decode_loop_sink)

lemma inf_decode_live: "inf_decode h s = (s', Inr x) \<Longrightarrow> in_sink s' = in_sink s \<and> \<not> in_exhausted s'"
  using inf_decode_sink inf_decode_left by blast

lemma andthen_cases:
  "andthen r f = (t, y) \<Longrightarrow> (\<exists>e. r = (t, Inl e) \<and> y = Inl e) \<or> (\<exists>s x. r = (s, Inr x) \<and> f s x = (t, y))"
  by (auto simp: andthen_def split: prod.splits sum.splits)

lemma inf_ready_here: "inf_ready s = Inr u \<longleftrightarrow> \<not> in_exhausted s"
  by (simp add: inf_ready_def)

lemma inf_length_void:
  assumes "inf_length ops h s = (s', r)" and "in_exhausted s'"
  shows "in_sink s' = in_sink s"
  using assms
  by (auto simp: inf_length_def Let_def on_sink_def dest!: andthen_cases inf_decode_live
      dest: inf_decode_sink inf_bits_sink split: if_splits prod.splits)

lemma inf_distance_sink:
  assumes "inf_distance ops h s = (s', r)"
  shows "in_sink s' = in_sink s"
  using assms
  by (auto simp: inf_distance_def Let_def dest!: andthen_cases inf_decode_sink inf_bits_sink split: if_splits prod.splits)

lemma stored_byte_void:
  assumes "stored_byte ops s = (s', r)" and "in_exhausted s'"
  shows "in_sink s' = in_sink s"
  using assms
  by (auto simp: stored_byte_def on_sink_def inf_ready_def dest!: andthen_cases inf_bits_sink split: if_splits prod.splits)

lemma stored_len_sink: "stored_len s = (s', r) \<Longrightarrow> in_sink s' = in_sink s"
  by (auto simp: stored_len_def dest!: inf_bits_sink split: if_splits prod.splits)

lemma dynamic_head_sink: "dynamic_head s = (s', r) \<Longrightarrow> in_sink s' = in_sink s"
  by (auto simp: dynamic_head_def Let_def dest!: inf_bits_sink split: if_splits prod.splits)

lemma code_lengths_sink: "code_lengths h ls i s = (s', r) \<Longrightarrow> in_sink s' = in_sink s"
  by (auto simp: code_lengths_def Let_def dest!: andthen_cases inf_decode_sink inf_bits_sink split: if_splits prod.splits)

lemma inf_word_sink: "inf_word s = (s', v) \<Longrightarrow> in_sink s' = in_sink s"
  by (auto simp: inf_word_def dest!: inf_bits_sink split: prod.splits)

lemma push_block_end_here: "push_block_end fmt s c = ((s1, c1), r) \<Longrightarrow> in_exhausted s1 = in_exhausted s \<and> c1 = c"
  by (auto simp: push_block_end_def Let_def inf_align_here split: if_splits)

text \<open>A void step leaves the output as it was, and the context for all that still counts.\<close>

lemma push_step_void_sink:
  assumes "push_step fmt st s c = ((s1, c1), r)" and "in_exhausted s1" and "\<not> in_exhausted s"
  shows "in_sink s1 = (if st = PMember then (in_sink s)\<lparr>ws_format := fm_init fmt\<rparr> else in_sink s)"
proof (cases st)
  case PLength
  then show ?thesis using assms
    by (auto simp: push_step_def push_length_def dest: inf_length_void push_block_end_here inf_length_end
        split: if_splits prod.splits sum.splits inf_symbol.splits)
next
  case (PStored n)
  then show ?thesis using assms
    by (auto simp: push_step_def with_context_def dest!: andthen_cases dest: stored_byte_void push_block_end_here
        split: if_splits prod.splits)
next
  case (PCopy dist len)
  then show ?thesis using assms
    by (auto simp: push_copy_step Let_def split: sum.splits)
next
  case (PSkip n flags)
  then show ?thesis using assms
    by (cases "inf_bits 8 s") (auto simp: push_step_def dest!: inf_bits_sink split: if_splits)
qed (use assms in \<open>auto simp: push_step_def push_start_def push_member_def push_fields_def push_block_def
    push_code_lengths_def push_lengths_def push_verify_def with_context_def Let_def
    dest!: andthen_cases inf_bits_sink inf_distance_sink stored_len_sink dynamic_head_sink code_lengths_sink inf_word_sink
    split: if_splits prod.splits sum.splits\<close>)

lemma push_lengths_void:
  assumes "push_lengths i s c = ((s1, c1), r)" and "in_exhausted s1" and "\<not> in_exhausted s" and "ctx_ok c"
  shows "cx_start c1 = cx_start c" "cx_last c1 = cx_last c" "cx_len_syms c1 = cx_len_syms c" "cx_syms c1 = cx_syms c"
    "take i (cx_lengths c1) = take i (cx_lengths c)" "cx_tables c1 = cx_tables c"
proof -
  let ?ls = "take (cx_syms c) (cx_lengths c)"
  have i: "i < length ?ls" and big: "\<not> length (cx_lengths c) < cx_syms c"
    using assms by (auto simp: push_lengths_def Let_def split: if_splits prod.splits)
  obtain s2 x where x: "code_lengths (tb_len (cx_tables c)) ?ls i s = (s2, x)" by fastforce
  have lens: "take i (ls @ drop (cx_syms c) (cx_lengths c)) = take i (cx_lengths c)" if "x = Inr (ls, stop)" for ls stop
  proof -
    have "length ls = length ?ls" "take i ls = take i ?ls"
      using code_lengths_range [OF x [unfolded that]] assms(4) by (simp_all add: ctx_ok_def list_all_take_drop)
    with i show ?thesis by simp
  qed
  show "cx_start c1 = cx_start c" "cx_last c1 = cx_last c" "cx_len_syms c1 = cx_len_syms c" "cx_syms c1 = cx_syms c"
    "take i (cx_lengths c1) = take i (cx_lengths c)" "cx_tables c1 = cx_tables c"
    using assms(1) i big x lens by (auto simp: push_lengths_def Let_def split: sum.splits)
qed

lemma push_step_void:
  assumes "push_step fmt st s c = ((s1, c1), r)" and "in_exhausted s1" and "\<not> in_exhausted s"
    and "ctx_sim fmt st c c'"
  shows "ctx_sim fmt st c1 c'"
proof (cases st)
  case PStart
  then have "c1 = c \<or> (\<exists>x. c1 = c\<lparr>cx_start := x\<rparr>)"
    using assms(1) by (auto simp: push_step_def push_start_def split: if_splits prod.splits)
  with assms(4) PStart show ?thesis by (auto simp: ctx_sim_def ctx_like_def push_in_block_def)
next
  case PMember
  then have "c1 = c \<or> (\<exists>x. c1 = c\<lparr>cx_start := x\<rparr>)"
    using assms(1) by (auto simp: push_step_def push_member_def Let_def split: if_splits prod.splits)
  with assms(4) PMember show ?thesis by (auto simp: ctx_sim_def ctx_like_def push_in_block_def)
next
  case PBlock
  then have "ctx_ok c1" "cx_start c1 = cx_start c"
    using assms(1) push_step_ctx_ok [OF assms(1)] ctx_sim_ok [OF assms(4)]
    by (auto simp: push_step_def push_block_def Let_def split: if_splits prod.splits sum.splits)
  with assms(4) PBlock show ?thesis by (auto simp: ctx_sim_def ctx_like_def push_in_block_def)
next
  case (PCodeLengths i)
  obtain s2 v where b: "inf_bits 3 s = (s2, v)" by fastforce
  from PCodeLengths assms(1-3) b have "i < length ORDER" "i < cx_code_syms c"
    "c1 = c\<lparr>cx_lengths := (cx_lengths c)[ORDER ! i mod 32 := unat v]\<rparr>"
    by (auto simp: push_step_def push_code_lengths_def Let_def split: if_splits)
  moreover have "ctx_ok c1" using push_step_ctx_ok [OF assms(1)] ctx_sim_ok [OF assms(4)] by blast
  ultimately show ?thesis using assms(4) PCodeLengths
    by (auto simp: ctx_sim_def ctx_like_def push_in_block_def nth_list_update)
next
  case (PLengths i)
  have ok: "ctx_ok c" "ctx_ok c1" using push_step_ctx_ok [OF assms(1)] ctx_sim_ok [OF assms(4)] by blast+
  have "push_lengths i s c = ((s1, c1), r)" using assms(1) PLengths by (simp add: push_step_def)
  from push_lengths_void [OF this assms(2,3) ok(1)] ok assms(4) PLengths show ?thesis
    by (simp add: ctx_sim_def ctx_like_def push_in_block_def)
next
  case PLength
  then have "c1 = c" using assms(1) push_block_end_here
    by (fastforce simp: push_step_def push_length_def split: if_splits prod.splits sum.splits inf_symbol.splits)
  with assms(4) show ?thesis by simp
next
  case (PStored n)
  then have "c1 = c" using assms(1) push_block_end_here
    by (fastforce simp: push_step_def with_context_def split: if_splits prod.splits)
  with assms(4) show ?thesis by simp
qed (use assms in \<open>auto simp: push_step_def push_fields_def push_verify_def with_context_def Let_def
    split: if_splits prod.splits\<close>)

section \<open>Steps that find no room\<close>

lemma inf_length_full:
  assumes "inf_length ws_ops h s = (s', r)" and "ws_full (in_sink s')" and "\<not> ws_full (in_sink s)"
  shows "in_sink s' = (in_sink s)\<lparr>ws_full := True\<rparr> \<and> ws_left (in_sink s) = 0 \<and> r = Inr SymLiteral"
  using assms
  by (auto simp: inf_length_def Let_def on_sink_def ws_ops_def ws_put_def ws_push_def dest!: andthen_cases inf_decode_sink
      dest: inf_bits_sink split: if_splits prod.splits)

lemma stored_byte_full:
  assumes "stored_byte ws_ops s = (s', r)" and "ws_full (in_sink s')" and "\<not> ws_full (in_sink s)"
  shows "in_sink s' = (in_sink s)\<lparr>ws_full := True\<rparr> \<and> ws_left (in_sink s) = 0"
  using assms
  by (auto simp: stored_byte_def on_sink_def ws_ops_def ws_put_def ws_push_def dest!: andthen_cases inf_bits_sink
      split: if_splits prod.splits)

lemma ws_copy_loop_full [simp]: "ws_full (ws_copy_loop dist n o1) = ws_full o1"
  by (induction dist n o1 rule: ws_copy_loop.induct) (simp_all add: ws_push_def)

lemma push_step_full:
  assumes "push_step fmt st s c = ((s1, c1), r)" and "ws_full (in_sink s1)" and "\<not> ws_full (in_sink s)"
  shows "in_sink s1 = (in_sink s)\<lparr>ws_full := True\<rparr> \<and> ws_left (in_sink s) = 0 \<and> c1 = c"
proof (cases st)
  case PLength
  then obtain s2 x where l: "inf_length ws_ops (tb_len (cx_tables c)) s = (s2, x)" and full: "ws_full (in_sink s2)"
    and rest: "x = Inr SymLiteral \<longrightarrow> s1 = s2 \<and> c1 = c"
    using assms(1,2)
    by (fastforce simp: push_step_def push_length_def push_block_end_def Let_def ws_flush_def
        split: if_splits prod.splits sum.splits inf_symbol.splits)
  from inf_length_full [OF l full assms(3)] rest show ?thesis by simp
next
  case (PStored n)
  show ?thesis
  proof (cases "n = 0")
    case True
    with PStored assms show ?thesis
      by (auto simp: push_step_def push_block_end_def Let_def ws_flush_def split: if_splits)
  next
    case False
    with PStored assms(1) obtain x where "stored_byte ws_ops s = (s1, x)" "c1 = c"
      by (auto simp: push_step_def with_context_def dest!: andthen_cases split: prod.splits)
    with stored_byte_full [of s s1 x] assms(2,3) show ?thesis by simp
  qed
next
  case (PCopy dist len)
  with assms show ?thesis by (auto simp: push_copy_step Let_def split: sum.splits)
next
  case (PSkip n flags)
  with assms show ?thesis
    by (cases "inf_bits 8 s") (auto simp: push_step_def dest!: inf_bits_sink split: if_splits)
qed (use assms in \<open>auto simp: push_step_def push_start_def push_member_def push_fields_def push_block_def
    push_code_lengths_def push_lengths_def push_verify_def with_context_def Let_def
    dest!: andthen_cases inf_bits_sink inf_distance_sink stored_len_sink dynamic_head_sink code_lengths_sink inf_word_sink
    split: if_splits prod.splits sum.splits\<close>)

end
