(* ===== verification/EmbedPushRun.thy ===== *)
theory EmbedPushRun
  imports EmbedPushStep
begin

text \<open>
  The simulation: a step of the decoder as it is called against the step of the ideal one, for
  any container whose trailer is a function of its data.
\<close>

section \<open>Related outputs\<close>

text \<open>The data a container has been fed, once what the slice holds has been flushed.\<close>

definition fmt_at :: "(byte list \<Rightarrow> 'f) \<Rightarrow> 'f windowed \<Rightarrow> byte list \<Rightarrow> bool" where
  "fmt_at fed o1 h \<longleftrightarrow> ws_flushed o1 \<le> length (ws_out o1)
     \<and> (\<exists>h0. ws_format o1 = fed h0 \<and> h = h0 @ drop (ws_flushed o1) (ws_out o1))"

definition sinks_at :: "(byte list \<Rightarrow> 'f) \<Rightarrow> byte list \<Rightarrow> byte list \<Rightarrow> byte list \<Rightarrow> 'f windowed \<Rightarrow> 'f windowed \<Rightarrow> bool" where
  "sinks_at fed a b h o1 o2 \<longleftrightarrow> ws_window o1 = ws_window o2 \<and> \<not> ws_full o1 \<and> \<not> ws_full o2 \<and> ws_out o1 = a \<and> ws_out o2 = b
     \<and> fmt_at fed o1 h \<and> fmt_at fed o2 h \<and> 0 < ws_left o2"

definition sinks_by :: "(byte list \<Rightarrow> 'f) \<Rightarrow> byte list \<Rightarrow> byte list \<Rightarrow> 'f windowed \<Rightarrow> 'f windowed \<Rightarrow> bool" where
  "sinks_by fed a b o1 o2 \<longleftrightarrow> ws_full o1
     \<or> \<not> ws_full o2 \<and> ws_window o1 = ws_window o2 \<and> (\<exists>d. ws_out o1 = a @ d \<and> ws_out o2 = b @ d) \<and> (\<exists>h. fmt_at fed o1 h \<and> fmt_at fed o2 h)"

lemma sinks_at_by: "sinks_at fed a b h o1 o2 \<Longrightarrow> sinks_by fed a b o1 o2"
  by (auto simp: sinks_at_def sinks_by_def)

lemma fmt_at_push: "fmt_at fed o1 h \<Longrightarrow> fmt_at fed (ws_push o1 b) (h @ [b])"
  by (auto simp: fmt_at_def ws_push_def)

lemma sinks_put:
  assumes "sinks_at fed a b h o1 o2"
  shows "put_related (\<lambda>_. False) (sinks_by fed a b) (out_put ws_ops o1 x) (out_put ws_ops o2 x)"
proof (cases "ws_left o1 = 0")
  case True
  then show ?thesis using assms
    by (simp add: put_related_def ws_ops_def ws_put_def sinks_by_def)
next
  case False
  from assms have left: "ws_left o2 \<noteq> 0" by (simp add: sinks_at_def)
  from assms have "fmt_at fed (ws_push o1 x) (h @ [x])" "fmt_at fed (ws_push o2 x) (h @ [x])"
    by (simp_all add: sinks_at_def fmt_at_push)
  then have "sinks_by fed a b (ws_push o1 x) (ws_push o2 x)"
    using assms by (auto simp: sinks_at_def sinks_by_def ws_push_def)
  with False left show ?thesis by (simp add: put_related_def ws_ops_def ws_put_def)
qed

lemma sinks_check_dist:
  "sinks_at fed a b h o1 o2 \<Longrightarrow> out_check_dist ws_ops o2 d = out_check_dist ws_ops o1 d"
  by (simp add: sinks_at_def ws_ops_def)

section \<open>A step as a result with its context\<close>

definition regroup :: "('f, 'a) push_result \<Rightarrow> ('f windowed, 'a \<times> push_context) inf_result" where
  "regroup r = (fst (fst r), map_sum id (\<lambda>x. (x, snd (fst r))) (snd r))"

lemma regroup_simps [simp]:
  "regroup ((s, c), Inl e) = (s, Inl e)" "regroup ((s, c), Inr x) = (s, Inr (x, c))"
  "regroup (if b then r1 else r2) = (if b then regroup r1 else regroup r2)"
  "regroup (case p of (x, y) \<Rightarrow> f x y) = (case p of (x, y) \<Rightarrow> regroup (f x y))"
  by (simp_all add: regroup_def split: prod.split)

lemma regroup_with_context [simp]: "regroup (with_context c r) = andthen r (\<lambda>s x. (s, Inr (x, c)))"
  by (auto simp: regroup_def with_context_def andthen_def split: prod.split sum.split)

lemma regroup_length [simp]:
  "regroup (push_length fmt s c) =
     andthen (inf_length ws_ops (tb_len (cx_tables c)) s) (\<lambda>s1 x.
       case x of
         SymLiteral \<Rightarrow> (s1, Inr (PLength, c))
       | SymEnd \<Rightarrow> regroup (push_block_end fmt s1 c)
       | SymMatch len \<Rightarrow> (s1, Inr (PDistance len, c)))"
  by (auto simp: push_length_def andthen_def split: prod.split sum.split inf_symbol.split)

definition ctx_rel :: "'f format_ops \<Rightarrow> push_state \<times> push_context \<Rightarrow> push_state \<times> push_context \<Rightarrow> bool" where
  "ctx_rel fmt x y \<longleftrightarrow> fst x = fst y \<and> ctx_like fmt (fst x) (snd x) (snd y)"

lemma keeps_verify [simp]: "keeps s (fst (regroup (push_verify fmt s c check n)))"
  by (simp add: push_verify_def Let_def)

lemma keeps_align [simp]: "keeps s (inf_align s)"
  by (simp add: inf_align_def)

lemma keeps_set_sink [simp]: "keeps s (s\<lparr>in_sink := o1\<rparr>)"
  by (simp add: keeps_def in_inv_def)

lemma keeps_block_end [simp]: "keeps s (fst (regroup (push_block_end fmt s c)))"
  by (auto simp: push_block_end_def Let_def intro: keeps_trans [OF keeps_align])

definition push_flushed :: "push_state \<Rightarrow> 'f windowed \<Rightarrow> bool" where
  "push_flushed st o1 \<longleftrightarrow>
     (case st of PStart \<Rightarrow> True | PMember \<Rightarrow> True | PNext \<Rightarrow> True | PChecksum \<Rightarrow> True | PSize _ \<Rightarrow> True | _ \<Rightarrow> False)
     \<longrightarrow> ws_flushed o1 = length (ws_out o1)"

lemma tracking_word:
  assumes "tracking ext Q s t" and "inf_word s = (s1, v)" and "inf_word t = (t1, w)"
  shows "tracking ext Q s1 t1" and "\<not> in_exhausted s1 \<Longrightarrow> w = v"
proof -
  obtain s2 low where b1: "inf_bits 16 s = (s2, low)" by fastforce
  obtain s3 high where b2: "inf_bits 16 s2 = (s3, high)" by fastforce
  obtain t2 low' where c1: "inf_bits 16 t = (t2, low')" by fastforce
  obtain t3 high' where c2: "inf_bits 16 t2 = (t3, high')" by fastforce
  from assms(2,3) have eqs: "s1 = s3" "v = push_bit 16 (ucast high) OR ucast low"
    "t1 = t3" "w = push_bit 16 (ucast high') OR ucast low'"
    by (simp_all add: inf_word_def b1 b2 c1 c2)
  note tr1 = tracking_bits [OF assms(1) b1 c1, simplified]
  note tr2 = tracking_bits [OF tr1(1) b2 c2, simplified]
  from tr2(1) eqs show "tracking ext Q s1 t1" by simp
  show "w = v" if "\<not> in_exhausted s1"
    using that tr1(2) tr2(2) inf_bits_exhausted [OF b2] eqs by auto
qed

lemma tracks_case_word:
  assumes "tracking ext Q s t"
    and "\<And>s1 t1 v. tracking ext Q s1 t1 \<Longrightarrow> tracks esc ext Q' R (f s1 v) (g t1 v)"
    and "\<And>s1 v. keeps s1 (fst (f s1 v))"
  shows "tracks esc ext Q' R (case inf_word s of (s1, v) \<Rightarrow> f s1 v) (case inf_word t of (t1, v) \<Rightarrow> g t1 v)"
proof -
  obtain s1 v where b: "inf_word s = (s1, v)" by fastforce
  obtain t1 w where c: "inf_word t = (t1, w)" by fastforce
  note tr = tracking_word [OF assms(1) b c]
  show ?thesis
  proof (cases "in_exhausted s1")
    case True
    with assms(3) [of s1 v] have "in_exhausted (fst (f s1 v))" by (auto simp: keeps_def)
    then show ?thesis by (simp add: b tracks_exhausted)
  next
    case False
    with tr assms(2) [of s1 t1 v] show ?thesis by (simp add: b c)
  qed
qed

context container
begin

lemma fmt_at_flush: "fmt_at fed o1 h \<Longrightarrow> fmt_at fed (ws_flush fmt o1) h \<and> ws_format (ws_flush fmt o1) = fed h"
  by (auto simp: fmt_at_def ws_flush_def fed_update)

lemma ws_flush_simps [simp]:
  "ws_window (ws_flush f o1) = ws_window o1" "ws_out (ws_flush f o1) = ws_out o1" "ws_full (ws_flush f o1) = ws_full o1"
  "ws_flushed (ws_flush f o1) = length (ws_out o1)" "ws_room (ws_flush f o1) = ws_room o1"
  by (simp_all add: ws_flush_def)

lemma sinks_by_flush: "sinks_by fed a b o1 o2 \<Longrightarrow> sinks_by fed a b (ws_flush fmt o1) (ws_flush fmt o2)"
  unfolding sinks_by_def ws_flush_simps by (blast dest: fmt_at_flush)

lemma tracks_block_end:
  assumes "tracking ext (sinks_by fed a b) s t" and "ctx_like fmt st c c'" and "push_in_block st"
  shows "tracks esc ext (sinks_by fed a b) (ctx_rel fmt) (regroup (push_block_end fmt s c)) (regroup (push_block_end fmt t c'))"
proof -
  have last: "cx_last c = cx_last c'" and start: "fm_gzip fmt \<or> fm_trailer fmt \<noteq> 0 \<Longrightarrow> cx_start c = cx_start c'"
    using assms(2,3) by (auto simp: ctx_like_def push_in_block_def)
  have "tracking ext (sinks_by fed a b) ((inf_align s)\<lparr>in_sink := ws_flush fmt (in_sink (inf_align s))\<rparr>)
    ((inf_align t)\<lparr>in_sink := ws_flush fmt (in_sink (inf_align t))\<rparr>)"
    using tracking_align [OF assms(1)] sinks_by_flush by (auto simp: tracking_def)
  with assms(1) last start show ?thesis
    by (auto simp: push_block_end_def Let_def ctx_rel_def ctx_like_def push_in_block_def intro!: tracks_Inr)
qed

lemma tracks_verify:
  assumes "tracking ext (\<lambda>o1 o2. Q o1 o2 \<and> ws_window o1 = ws_window o2 \<and> ws_format o1 = ws_format o2) s t"
    and "fm_gzip fmt \<or> fm_trailer fmt \<noteq> 0 \<Longrightarrow> cx_start c = cx_start c'" and "fm_gzip fmt \<or> fm_trailer fmt \<noteq> 0"
  shows "tracks esc ext Q (ctx_rel fmt) (regroup (push_verify fmt s c check n)) (regroup (push_verify fmt t c' check n))"
proof (cases "in_exhausted s")
  case True
  have "fst (regroup (push_verify fmt s c check n)) = s" by (simp add: push_verify_def Let_def)
  with True show ?thesis by (simp add: tracks_exhausted)
next
  case False
  with assms(1) have tr: "tracking ext Q s t" and w: "ws_window (in_sink t) = ws_window (in_sink s)"
    "ws_format (in_sink t) = ws_format (in_sink s)"
    by (auto simp: tracking_def)
  have start: "cx_start c' = cx_start c" using assms(2,3) by simp
  show ?thesis
    unfolding push_verify_def Let_def w start regroup_simps
    by (intro tracks_if tracks_Inr tracks_Inl tr refl) (simp add: ctx_rel_def ctx_like_def push_in_block_def start)
qed

end

section \<open>A step against a step\<close>

text \<open>The steps that only read.\<close>

lemma regroup_sum [simp]:
  "regroup ((s, c), case r of Inl e \<Rightarrow> Inl e | Inr (_ :: unit) \<Rightarrow> Inr x) = (s, case r of Inl e \<Rightarrow> Inl e | Inr _ \<Rightarrow> Inr (x, c))"
  by (cases r) simp_all

lemma tracks_push_start:
  assumes "tracking ext Q s t" and "\<And>o1 o2. Q o1 o2 \<Longrightarrow> Q' o1 o2 \<and> ws_window o1 = ws_window o2"
  shows "tracks esc ext Q' (ctx_rel fmt) (regroup (push_start fmt s c)) (regroup (push_start fmt t c'))"
proof -
  have tr: "tracking ext Q' s t" using assms by (auto simp: tracking_def)
  have start: "tracks esc ext Q' (ctx_rel fmt) (s2, Inr (PBlock, c\<lparr>cx_start := wd_pos (ws_window (in_sink s2))\<rparr>))
      (t2, Inr (PBlock, c'\<lparr>cx_start := wd_pos (ws_window (in_sink t2))\<rparr>))"
    if "tracking ext Q s2 t2" for s2 t2
    using that assms(2) by (intro tracks_Inr) (auto simp: tracking_def ctx_rel_def ctx_like_def push_in_block_def)
  have err: "tracks esc ext Q' (ctx_rel fmt) (s2, Inl e) (t2, Inl e)" if "tracking ext Q s2 t2" for s2 t2 e
    using that assms(2) by (intro tracks_Inl) (auto simp: tracking_def)
  show ?thesis
    unfolding push_start_def regroup_simps
    by (intro tracks_if tracks_case_bits [OF assms(1)] tracks_case_bits start err tracks_Inr tr)
      (auto simp: ctx_rel_def ctx_like_def push_in_block_def intro!: keeps_case_bits)
qed

lemma tracks_push_fields:
  assumes "tracking ext Q s t" and "ctx_like fmt (PFields flags) c c'"
  shows "tracks esc ext Q (ctx_rel fmt) (regroup (push_fields flags s c)) (regroup (push_fields flags t c'))"
  using assms(2) unfolding push_fields_def Let_def regroup_simps
  by (intro tracks_if tracks_case_bits [OF assms(1)] tracks_Inr assms(1))
    (auto simp: ctx_rel_def ctx_like_def push_in_block_def)

lemma regroup_block:
  "regroup (push_block s c) =
     (case inf_bits 1 s of (s1, fin) \<Rightarrow>
      let c1 = c\<lparr>cx_last := (fin \<noteq> 0)\<rparr> in
      case inf_bits 2 s1 of (s2, kind) \<Rightarrow>
      if kind = 0 then (inf_align s2, Inr (PStoredLen, c1))
      else if kind = 1 then
        (s2, case snd (build_codes fixed_lengths MAX_LEN_SYMS (cx_tables c)) of
               Inl e \<Rightarrow> Inl e
             | Inr _ \<Rightarrow> Inr (PLength, c1\<lparr>cx_lengths := fixed_lengths,
                 cx_tables := fst (build_codes fixed_lengths MAX_LEN_SYMS (cx_tables c))\<rparr>))
      else if kind = 2 then
        andthen (dynamic_head s2) (\<lambda>s3 (len_syms, dist_syms, code_syms).
          (s3, Inr (PCodeLengths 0,
             c1\<lparr>cx_len_syms := len_syms, cx_syms := len_syms + dist_syms, cx_code_syms := code_syms,
                cx_lengths := replicate 19 0 @ drop 19 (cx_lengths c)\<rparr>)))
      else (s2, Inl InvalidBlockType))"
  by (auto simp: push_block_def Let_def andthen_def split: prod.split sum.split)

lemma tracks_push_block:
  assumes "tracking ext Q s t" and "ctx_sim fmt PBlock c c'"
  shows "tracks esc ext Q (ctx_rel fmt) (regroup (push_block s c)) (regroup (push_block t c'))"
proof -
  have ok: "ctx_ok c" "ctx_ok c'" and start: "fm_gzip fmt \<or> fm_trailer fmt \<noteq> 0 \<Longrightarrow> cx_start c = cx_start c'"
    using assms(2) by (auto simp: ctx_sim_def ctx_like_def)
  obtain t1 r1 where b1: "build_codes fixed_lengths MAX_LEN_SYMS (cx_tables c) = (t1, r1)" by fastforce
  obtain t2 r2 where b2: "build_codes fixed_lengths MAX_LEN_SYMS (cx_tables c') = (t2, r2)" by fastforce
  have same: "r1 = r2" "same_code (tb_len t1) (tb_len t2)" "same_code (tb_dist t1) (tb_dist t2)"
    using build_codes_same [OF fixed_lengths_ok(2) _ _ _ _ b1 b2] ok
    by (simp_all add: ctx_ok_def fixed_lengths_ok sizes)
  have fixed: "tracks esc ext Q (ctx_rel fmt)
      (s2, case r1 of Inl e \<Rightarrow> Inl e | Inr _ \<Rightarrow> Inr (PLength, c\<lparr>cx_last := l, cx_lengths := fixed_lengths, cx_tables := t1\<rparr>))
      (u2, case r2 of Inl e \<Rightarrow> Inl e | Inr _ \<Rightarrow> Inr (PLength, c'\<lparr>cx_last := l, cx_lengths := fixed_lengths, cx_tables := t2\<rparr>))"
    if "tracking ext Q s2 u2" for s2 u2 l
    using that same start
    by (cases r2) (auto simp: ctx_rel_def ctx_like_def push_in_block_def intro!: tracks_Inr tracks_Inl)
  have dyn: "tracks esc ext Q (ctx_rel fmt)
      (s3, Inr (PCodeLengths 0, c\<lparr>cx_last := l, cx_len_syms := a, cx_syms := b, cx_code_syms := d,
         cx_lengths := replicate 19 0 @ drop 19 (cx_lengths c)\<rparr>))
      (u3, Inr (PCodeLengths 0, c'\<lparr>cx_last := l, cx_len_syms := a, cx_syms := b, cx_code_syms := d,
         cx_lengths := replicate 19 0 @ drop 19 (cx_lengths c')\<rparr>))"
    if "tracking ext Q s3 u3" for s3 u3 l a b d
    using that start
    by (intro tracks_Inr) (auto simp: ctx_rel_def ctx_like_def push_in_block_def nth_append)
  show ?thesis
    unfolding regroup_block b1 b2 fst_conv snd_conv Let_def
  proof (rule tracks_case_bits [OF assms(1)], goal_cases)
    case (2 s1 u1 v)
    show ?case
    proof (rule tracks_case_bits [OF 2], goal_cases)
      case (2 s2 u2 k)
      have al: "tracks esc ext Q (ctx_rel fmt) (inf_align s2, Inr (PStoredLen, c\<lparr>cx_last := v \<noteq> 0\<rparr>))
          (inf_align u2, Inr (PStoredLen, c'\<lparr>cx_last := v \<noteq> 0\<rparr>))"
        using start by (intro tracks_Inr tracking_align [OF 2]) (auto simp: ctx_rel_def ctx_like_def push_in_block_def)
      show ?case
      proof (intro tracks_if al, goal_cases)
        case 1
        show ?case using fixed [OF 2, of "v \<noteq> 0"] by simp
      next
        case 2
        show ?case
          by (rule tracks_andthen [OF tracks_dynamic_head [OF \<open>tracking ext Q s2 u2\<close>]]) (auto intro: dyn)
      next
        case 3
        show ?case by (rule tracks_Inl [OF \<open>tracking ext Q s2 u2\<close> refl])
      qed
    next
      case (3 s2 k)
      then show ?case by (auto intro!: keeps_andthen)
    qed simp
  next
    case (3 s1 v)
    then show ?case by (intro keeps_case_bits) (auto intro!: keeps_andthen)
  qed simp
qed

lemma tracks_push_code_lengths:
  assumes "tracking ext Q s t" and "ctx_sim fmt (PCodeLengths i) c c'"
  shows "tracks esc ext Q (ctx_rel fmt) (regroup (push_code_lengths i s c)) (regroup (push_code_lengths i t c'))"
proof -
  have ok: "ctx_ok c" "ctx_ok c'" and like: "ctx_like fmt (PCodeLengths i) c c'" using assms(2) by (auto simp: ctx_sim_def)
  from like have syms: "cx_code_syms c' = cx_code_syms c" by (simp add: ctx_like_def)
  have read: "tracks esc ext Q (ctx_rel fmt)
      (s1, Inr (PCodeLengths (i + 1), c\<lparr>cx_lengths := (cx_lengths c)[ORDER ! i mod 32 := unat v]\<rparr>))
      (t1, Inr (PCodeLengths (i + 1), c'\<lparr>cx_lengths := (cx_lengths c')[ORDER ! i mod 32 := unat v]\<rparr>))"
    if "tracking ext Q s1 t1" for s1 t1 and v :: u16
  proof (rule tracks_Inr [OF that])
    have "(cx_lengths c)[ORDER ! i mod 32 := unat v] ! j = (cx_lengths c')[ORDER ! i mod 32 := unat v] ! j" if "j < 19" for j
    proof (cases "j = ORDER ! i mod 32")
      case True
      with ok \<open>j < 19\<close> show ?thesis by (simp add: ctx_ok_def sizes)
    next
      case False
      with like \<open>j < 19\<close> have "cx_lengths c ! j = cx_lengths c' ! j" by (simp add: ctx_like_def) blast
      with False show ?thesis by simp
    qed
    with like show "ctx_rel fmt (PCodeLengths (i + 1), c\<lparr>cx_lengths := (cx_lengths c)[ORDER ! i mod 32 := unat v]\<rparr>)
        (PCodeLengths (i + 1), c'\<lparr>cx_lengths := (cx_lengths c')[ORDER ! i mod 32 := unat v]\<rparr>)"
      by (simp add: ctx_rel_def ctx_like_def push_in_block_def)
  qed
  have build: "take 19 (cx_lengths c) = take 19 (cx_lengths c')
      \<and> same_code (huff_build (take 19 (cx_lengths c)) (tb_len (cx_tables c)))
        (huff_build (take 19 (cx_lengths c')) (tb_len (cx_tables c')))"
    if "\<not> (i < length ORDER \<and> i < cx_code_syms c)"
  proof -
    have "take 19 (cx_lengths c) = take 19 (cx_lengths c')"
      using like ok that by (intro nth_equalityI) (auto simp: ctx_like_def ctx_ok_def sizes)
    moreover from this have "same_code (huff_build (take 19 (cx_lengths c)) (tb_len (cx_tables c)))
        (huff_build (take 19 (cx_lengths c)) (tb_len (cx_tables c')))"
      using ok by (intro same_code_build) (auto simp: ctx_ok_def sizes list_all_take_drop)
    ultimately show ?thesis by simp
  qed
  show ?thesis
  proof (cases "i < length ORDER \<and> i < cx_code_syms c")
    case True
    then show ?thesis
      by (simp add: push_code_lengths_def syms) (intro tracks_case_bits [OF assms(1)] read [simplified]; simp)
  next
    case False
    have left: "hf_left (huff_build (take 19 (cx_lengths c')) (tb_len (cx_tables c')))
        = hf_left (huff_build (take 19 (cx_lengths c)) (tb_len (cx_tables c)))"
      using conjunct2 [OF build [OF False]] unfolding same_code_def by (elim conjE) (rule sym)
    show ?thesis
      unfolding push_code_lengths_def syms if_not_P [OF False] Let_def left regroup_simps
      using build [OF False] like
      by (intro tracks_if tracks_Inr tracks_Inl assms(1) refl)
        (auto simp: ctx_rel_def ctx_like_def push_in_block_def)
  qed
qed

lemma regroup_lengths:
  "regroup (push_lengths i s c) =
     (if length (cx_lengths c) < cx_syms c then (s, Inl Corrupt)
      else
        let lengths = take (cx_syms c) (cx_lengths c) in
        if i < length lengths then
          andthen (code_lengths (tb_len (cx_tables c)) lengths i s) (\<lambda>s1 x.
            (s1, Inr (PLengths (snd x), c\<lparr>cx_lengths := fst x @ drop (cx_syms c) (cx_lengths c)\<rparr>)))
        else if 256 < length lengths \<and> lengths ! 256 = 0 then (s, Inl InvalidHuffmanTree)
        else
          (s, case snd (build_codes lengths (cx_len_syms c) (cx_tables c)) of
                Inl e \<Rightarrow> Inl e
              | Inr _ \<Rightarrow> Inr (PLength, c\<lparr>cx_tables := fst (build_codes lengths (cx_len_syms c) (cx_tables c))\<rparr>)))"
  by (auto simp: push_lengths_def Let_def andthen_def split: prod.split sum.split)

lemma tracks_push_lengths:
  assumes "tracking ext Q s t" and "ctx_sim fmt (PLengths i) c c'"
  shows "tracks esc ext Q (ctx_rel fmt) (regroup (push_lengths i s c)) (regroup (push_lengths i t c'))"
proof -
  have ok: "ctx_ok c" "ctx_ok c'" and like: "ctx_like fmt (PLengths i) c c'" using assms(2) by (auto simp: ctx_sim_def)
  from like have syms: "cx_syms c' = cx_syms c" "cx_len_syms c' = cx_len_syms c"
    and lens: "take i (cx_lengths c) = take i (cx_lengths c')"
    and code: "same_code (tb_len (cx_tables c)) (tb_len (cx_tables c'))" by (auto simp: ctx_like_def)
  have big: "cx_syms c \<le> 320" using ok by (simp add: ctx_ok_def)
  let ?ls = "take (cx_syms c) (cx_lengths c)" and ?ls' = "take (cx_syms c) (cx_lengths c')"
  have len: "length ?ls = cx_syms c" "length ?ls' = cx_syms c" using big ok by (simp_all add: ctx_ok_def sizes)
  show ?thesis
  proof (cases "i < cx_syms c")
    case True
    have pre: "take i ?ls = take i ?ls'" using lens True by simp
    have next_like: "ctx_like fmt (PLengths stop) (c\<lparr>cx_lengths := ls1 @ drop (cx_syms c) (cx_lengths c)\<rparr>)
        (c'\<lparr>cx_lengths := ls2 @ drop (cx_syms c) (cx_lengths c')\<rparr>)"
      if "take stop ls1 = take stop ls2" "stop \<le> length ls1" "stop \<le> length ls2" for stop ls1 ls2
      using that like by (simp add: ctx_like_def push_in_block_def)
    have run: "tracks esc ext Q (\<lambda>x y. snd x = snd y \<and> take (snd x) (fst x) = take (snd x) (fst y)
          \<and> snd x \<le> length (fst x) \<and> snd x \<le> length (fst y))
        (code_lengths (tb_len (cx_tables c)) ?ls i s) (code_lengths (tb_len (cx_tables c')) ?ls' i t)"
    proof -
      have tr: "tracks esc ext Q (\<lambda>x y. snd x = snd y \<and> take (snd x) (fst x) = take (snd x) (fst y))
          (code_lengths (tb_len (cx_tables c)) ?ls i s) (code_lengths (tb_len (cx_tables c')) ?ls' i t)"
        using len by (intro tracks_code_lengths [OF assms(1) code _ pre]) simp
      obtain s1 x where x: "code_lengths (tb_len (cx_tables c)) ?ls i s = (s1, x)" by fastforce
      obtain t1 y where y: "code_lengths (tb_len (cx_tables c')) ?ls' i t = (t1, y)" by fastforce
      have all: "list_all (\<lambda>l. l \<le> MAX_BITS) ?ls" "list_all (\<lambda>l. l \<le> MAX_BITS) ?ls'"
        using ok by (simp_all add: ctx_ok_def list_all_take_drop)
      have "b \<le> length a" if "x = Inr (a, b)" for a b
        using code_lengths_range(1,3) [OF x [unfolded that] all(1)] by simp
      moreover have "b \<le> length a" if "y = Inr (a, b)" for a b
        using code_lengths_range(1,3) [OF y [unfolded that] all(2)] by simp
      ultimately show ?thesis
        using tr unfolding x y tracks_def fst_conv snd_conv
        by (cases x; cases y) auto
    qed
    show ?thesis
      unfolding regroup_lengths syms using True big ok
      by (simp add: Let_def ctx_ok_def sizes)
        (rule tracks_andthen [OF run]; auto intro!: tracks_Inr next_like simp: ctx_rel_def)
  next
    case False
    have same: "?ls' = ?ls" using arg_cong [OF lens, of "take (cx_syms c)"] False by (simp add: min_absorb1)
    obtain t1 r1 where b1: "build_codes ?ls (cx_len_syms c) (cx_tables c) = (t1, r1)" by fastforce
    obtain t2 r2 where b2: "build_codes ?ls (cx_len_syms c) (cx_tables c') = (t2, r2)" by fastforce
    have bc: "r1 = r2" "cx_len_syms c \<le> length ?ls \<Longrightarrow> same_code (tb_len t1) (tb_len t2) \<and> same_code (tb_dist t1) (tb_dist t2)"
      using build_codes_same [OF _ _ _ _ _ b1 b2] ok len by (simp_all add: ctx_ok_def sizes list_all_take_drop)
    have short: "r1 = Inl Corrupt" if "\<not> cx_len_syms c \<le> length ?ls"
      using b1 that unfolding build_codes_def by (simp only: not_le if_True prod.inject)
    have last: "tracks esc ext Q (ctx_rel fmt)
        (s, case r1 of Inl e \<Rightarrow> Inl e | Inr _ \<Rightarrow> Inr (PLength, c\<lparr>cx_tables := t1\<rparr>))
        (t, case r2 of Inl e \<Rightarrow> Inl e | Inr _ \<Rightarrow> Inr (PLength, c'\<lparr>cx_tables := t2\<rparr>))"
    proof (cases r1)
      case (Inl e)
      with bc(1) show ?thesis by (auto intro!: tracks_Inl [OF assms(1)])
    next
      case (Inr u)
      with short have "cx_len_syms c \<le> length ?ls" by fastforce
      with Inr bc like show ?thesis
        by (auto simp: ctx_rel_def ctx_like_def push_in_block_def intro!: tracks_Inr [OF assms(1)])
    qed
    have no: "\<not> length (cx_lengths c) < cx_syms c" "\<not> length (cx_lengths c') < cx_syms c" "\<not> i < length ?ls"
      using big ok False len by (simp_all add: ctx_ok_def sizes)
    show ?thesis
      unfolding regroup_lengths syms Let_def same if_not_P [OF no(1)] if_not_P [OF no(2)] if_not_P [OF no(3)] b1 b2 fst_conv snd_conv
      by (intro tracks_if tracks_Inl [OF assms(1) refl] last)
  qed
qed

lemma ctx_like_block:
  "push_in_block st \<Longrightarrow> ctx_like fmt st c c' \<Longrightarrow>
   cx_last c = cx_last c' \<and> (fm_gzip fmt \<or> fm_trailer fmt \<noteq> 0 \<longrightarrow> cx_start c = cx_start c')"
  by (auto simp: ctx_like_def push_in_block_def)

lemma tracks_push_member:
  assumes "ahead ext s t" and "ws_window (in_sink s) = ws_window (in_sink t)"
    and "Q ((in_sink s)\<lparr>ws_format := fm_init fmt\<rparr>) ((in_sink t)\<lparr>ws_format := fm_init fmt\<rparr>)"
  shows "tracks esc ext Q (ctx_rel fmt) (regroup (push_member fmt s c)) (regroup (push_member fmt t c'))"
proof -
  have tr: "tracking ext Q (s\<lparr>in_sink := (in_sink s)\<lparr>ws_format := fm_init fmt\<rparr>\<rparr>)
      (t\<lparr>in_sink := (in_sink t)\<lparr>ws_format := fm_init fmt\<rparr>\<rparr>)"
    using assms(1,3) by (intro tracking_start) simp_all
  show ?thesis
    unfolding push_member_def Let_def regroup_simps assms(2)
    by (intro tracks_if tracks_case_bits [OF tr] tracks_case_bits tracks_Inr tracks_Inl)
      (auto simp: ctx_rel_def ctx_like_def push_in_block_def intro!: keeps_case_bits)
qed

context container
begin

lemma tracks_push_step:
  assumes "ahead ext s t" and "sinks_at fed a b h (in_sink s) (in_sink t)" and "ctx_sim fmt st c c'"
    and "\<And>dist len. st \<noteq> PCopy dist len" and "push_flushed st (in_sink s)" and "push_flushed st (in_sink t)"
  shows "tracks (\<lambda>_. False) ext (sinks_by fed a b) (ctx_rel fmt)
    (regroup (push_step fmt st s c)) (regroup (push_step fmt st t c'))"
proof -
  have like: "ctx_like fmt st c c'" using assms(3) by (simp add: ctx_sim_def)
  have tr: "tracking ext (sinks_at fed a b h) s t" using assms(1,2) by (rule tracking_start)
  then have tr': "tracking ext (sinks_by fed a b) s t" by (auto simp: tracking_def sinks_at_by)
  have same: "ws_window (in_sink s) = ws_window (in_sink t)" using assms(2) by (simp add: sinks_at_def)
  define gz where "gz \<longleftrightarrow> (case st of PMember \<Rightarrow> True | PSkip _ _ \<Rightarrow> True | PFields _ \<Rightarrow> True | PSize _ \<Rightarrow> True | _ \<Rightarrow> False)
    \<and> \<not> fm_gzip fmt \<or> st = PChecksum \<and> fm_trailer fmt = 0"
  show ?thesis
  proof (cases gz)
    case True
    then have "push_step fmt st s c = ((s, c), Inl Corrupt)" "push_step fmt st t c' = ((t, c'), Inl Corrupt)"
      by (auto simp: push_step_def gz_def Let_def)
    then show ?thesis by (simp add: tracks_Inl [OF tr'])
  next
    case False
    then have step: "push_step fmt st u d =
        (case st of
          PStart \<Rightarrow> push_start fmt u d
        | PMember \<Rightarrow> push_member fmt u d
        | PSkip bytes flags \<Rightarrow>
            if bytes = 0 then ((u, d), Inr (PFields flags))
            else ((fst (inf_bits 8 u), d), Inr (PSkip (bytes - 1) flags))
        | PFields flags \<Rightarrow> push_fields flags u d
        | PBlock \<Rightarrow> push_block u d
        | PStoredLen \<Rightarrow> with_context d (andthen (stored_len u) (\<lambda>s1 len. (s1, Inr (PStored (unat len)))))
        | PStored bytes \<Rightarrow>
            if bytes = 0 then push_block_end fmt u d
            else with_context d (andthen (stored_byte ws_ops u) (\<lambda>s1 _. (s1, Inr (PStored (bytes - 1)))))
        | PCodeLengths index \<Rightarrow> push_code_lengths index u d
        | PLengths index \<Rightarrow> push_lengths index u d
        | PLength \<Rightarrow> push_length fmt u d
        | PDistance len \<Rightarrow>
            with_context d (andthen (inf_distance ws_ops (tb_dist (cx_tables d)) u) (\<lambda>s1 dist. (s1, Inr (PCopy dist len))))
        | PCopy dist len \<Rightarrow>
            with_context d (andthen (inf_copy dist len u) (\<lambda>s1 left. (s1, Inr (if left = 0 then PLength else PCopy dist left))))
        | PChecksum \<Rightarrow>
            (case inf_word u of (s1, check) \<Rightarrow>
               if fm_gzip fmt then ((s1, d), Inr (PSize check)) else push_verify fmt s1 d check 0)
        | PSize check \<Rightarrow> (case inf_word u of (s1, size32) \<Rightarrow> push_verify fmt s1 d check size32)
        | _ \<Rightarrow> ((u, d), Inl Corrupt))" for u d
      unfolding push_step_def gz_def Let_def by (simp only: if_not_P if_False)
    have trailer: "tracking ext (\<lambda>o1 o2. sinks_by fed a b o1 o2 \<and> ws_window o1 = ws_window o2 \<and> ws_format o1 = ws_format o2) s t"
      if "st = PChecksum \<or> (\<exists>n. st = PSize n)"
    proof (rule tracking_start [OF assms(1)])
      have "ws_format (in_sink s) = ws_format (in_sink t)"
        using that assms(2,5,6) by (auto simp: push_flushed_def sinks_at_def fmt_at_def)
      with assms(2) show "sinks_by fed a b (in_sink s) (in_sink t) \<and> ws_window (in_sink s) = ws_window (in_sink t)
          \<and> ws_format (in_sink s) = ws_format (in_sink t)" by (simp add: sinks_at_by same)
    qed
    show ?thesis
    proof (cases st)
      case PStart
      show ?thesis unfolding step unfolding PStart push_state.case
        by (rule tracks_push_start [OF tr]) (auto simp: sinks_at_by sinks_at_def)
    next
      case PMember
      have "fmt_at fed ((in_sink s)\<lparr>ws_format := fm_init fmt\<rparr>) []" "fmt_at fed ((in_sink t)\<lparr>ws_format := fm_init fmt\<rparr>) []"
        using assms(5,6) by (auto simp: fmt_at_def fed_init [symmetric] push_flushed_def PMember)
      with assms(2) have "sinks_by fed a b ((in_sink s)\<lparr>ws_format := fm_init fmt\<rparr>) ((in_sink t)\<lparr>ws_format := fm_init fmt\<rparr>)"
        by (auto simp: sinks_by_def sinks_at_def)
      then show ?thesis unfolding step unfolding PMember push_state.case
        by (rule tracks_push_member [OF assms(1) same])
    next
      case (PSkip n flags)
      obtain s1 v where b: "inf_bits 8 s = (s1, v)" by fastforce
      obtain t1 w where d: "inf_bits 8 t = (t1, w)" by fastforce
      have "tracking ext (sinks_by fed a b) s1 t1" by (rule tracking_bits(1) [OF tr' b d]) simp
      with like tr' show ?thesis unfolding step unfolding PSkip push_state.case
        by (auto simp: b d ctx_rel_def ctx_like_def push_in_block_def PSkip intro!: tracks_Inr)
    next
      case (PFields flags)
      show ?thesis unfolding step unfolding PFields push_state.case
        by (rule tracks_push_fields [OF tr' like [unfolded PFields]])
    next
      case PBlock
      show ?thesis unfolding step unfolding PBlock push_state.case
        by (rule tracks_push_block [OF tr' assms(3) [unfolded PBlock]])
    next
      case PStoredLen
      have rel: "ctx_rel fmt (PStored n, c) (PStored n, c')" for n
        using like by (simp add: ctx_rel_def ctx_like_def push_in_block_def PStoredLen)
      show ?thesis unfolding step unfolding PStoredLen push_state.case regroup_with_context
        by (rule tracks_andthen [OF tracks_andthen [OF tracks_stored_len [OF tr'],
              where R' = "(\<lambda>x y. x = y \<and> (\<exists>n. x = PStored n))"]])
          (auto intro!: tracks_Inr rel)
    next
      case (PStored n)
      show ?thesis
      proof (cases "n = 0")
        case True
        have "push_in_block st" by (simp add: PStored push_in_block_def)
        with tr' like show ?thesis unfolding step unfolding PStored push_state.case
          by (simp add: True tracks_block_end)
      next
        case False
        have byte: "tracks (\<lambda>_. False) ext (sinks_by fed a b) (=) (stored_byte ws_ops s) (stored_byte ws_ops t)"
          by (rule tracks_stored_byte [OF tr sinks_put sinks_at_by])
        have "ctx_rel fmt (PStored (n - 1), c) (PStored (n - 1), c')"
          using like by (auto simp: ctx_rel_def ctx_like_def push_in_block_def PStored)
        with False show ?thesis unfolding step unfolding PStored push_state.case
          by simp (intro tracks_andthen [OF tracks_andthen [OF byte, where R' = "\<lambda>x y. x = y \<and> x = PStored (n - 1)"]];
              auto intro!: tracks_Inr)
      qed
    next
      case (PCodeLengths i)
      show ?thesis unfolding step unfolding PCodeLengths push_state.case
        by (rule tracks_push_code_lengths [OF tr' assms(3) [unfolded PCodeLengths]])
    next
      case (PLengths i)
      show ?thesis unfolding step unfolding PLengths push_state.case
        by (rule tracks_push_lengths [OF tr' assms(3) [unfolded PLengths]])
    next
      case PLength
      have code: "same_code (tb_len (cx_tables c)) (tb_len (cx_tables c'))" using like by (simp add: ctx_like_def PLength)
      have sm: "tracks (\<lambda>_. False) ext (sinks_by fed a b) (=) (inf_length ws_ops (tb_len (cx_tables c)) s)
          (inf_length ws_ops (tb_len (cx_tables c')) t)"
        by (rule tracks_length [OF tr code sinks_put sinks_at_by])
      have "push_in_block st" by (simp add: PLength push_in_block_def)
      note fin = tracks_block_end [OF _ like this]
      have rel: "ctx_rel fmt (PLength, c) (PLength, c')" "ctx_rel fmt (PDistance n, c) (PDistance n, c')" for n
        using like by (simp_all add: ctx_rel_def ctx_like_def push_in_block_def PLength)
      show ?thesis unfolding step unfolding PLength push_state.case regroup_length
        by (rule tracks_andthen [OF sm]) (auto intro!: tracks_Inr fin rel split: inf_symbol.split)
    next
      case (PDistance len)
      have code: "same_code (tb_dist (cx_tables c)) (tb_dist (cx_tables c'))" using like by (simp add: ctx_like_def PDistance)
      have dist: "tracks (\<lambda>_. False) ext (sinks_at fed a b h) (=) (inf_distance ws_ops (tb_dist (cx_tables c)) s)
          (inf_distance ws_ops (tb_dist (cx_tables c')) t)"
        by (rule tracks_distance [OF tr code sinks_check_dist])
      have dist': "tracks (\<lambda>_. False) ext (sinks_by fed a b) (=) (inf_distance ws_ops (tb_dist (cx_tables c)) s)
          (inf_distance ws_ops (tb_dist (cx_tables c')) t)"
        by (rule tracks_mono [OF dist sinks_at_by])
      have rel: "ctx_rel fmt (PCopy n len, c) (PCopy n len, c')" for n
        using like by (simp add: ctx_rel_def ctx_like_def push_in_block_def PDistance)
      show ?thesis unfolding step unfolding PDistance push_state.case regroup_with_context
        by (rule tracks_andthen [OF tracks_andthen [OF dist', where R' = "(\<lambda>x y. x = y \<and> (\<exists>n. x = PCopy n len))"]])
          (auto intro!: tracks_Inr rel)
    next
      case PChecksum
      have tl: "fm_trailer fmt \<noteq> 0" using False by (simp add: gz_def PChecksum)
      have start: "cx_start c = cx_start c'" using like tl by (simp add: ctx_like_def PChecksum)
      have rel: "ctx_rel fmt (PSize n, c) (PSize n, c')" for n
        using start by (simp add: ctx_rel_def ctx_like_def push_in_block_def)
      show ?thesis unfolding step unfolding PChecksum push_state.case regroup_simps
        by (rule tracks_case_word [OF trailer])
          (use PChecksum tl start in \<open>auto intro!: tracks_if tracks_Inr tracks_verify rel simp: tracking_def\<close>)
    next
      case (PSize n)
      have gzip: "fm_gzip fmt" using False by (simp add: gz_def PSize)
      have start: "cx_start c = cx_start c'" using like gzip by (simp add: ctx_like_def PSize)
      show ?thesis unfolding step unfolding PSize push_state.case regroup_simps
        by (rule tracks_case_word [OF trailer])
          (use PSize gzip start in \<open>auto intro!: tracks_verify simp: tracking_def\<close>)
    qed (use assms(4) in \<open>auto simp: push_step_def intro!: tracks_Inl [OF tr']\<close>)
  qed
qed

end

end
