(* ===== verification/EmbedPushKeep.thy ===== *)
theory EmbedPushKeep
  imports EmbedPushRun
begin

text \<open>
  What the steps of the push decoder keep of the reader: how many bits one reads at most (what
  is left after a void step fits in the bit buffer), and where it leaves the byte boundary.
\<close>

section \<open>How far a step reads\<close>

definition within :: "nat \<Rightarrow> 'o inflate \<Rightarrow> 'o inflate \<Rightarrow> bool" where
  "within k s s' \<longleftrightarrow> keeps s s'
     \<and> (\<not> in_exhausted s \<longrightarrow> (if in_exhausted s' then inf_left s < k else inf_left s \<le> inf_left s' + k))"

lemma withinD: "within k s s' \<Longrightarrow> \<not> in_exhausted s \<Longrightarrow> in_exhausted s' \<Longrightarrow> inf_left s < k"
  by (simp add: within_def)

lemma within_refl [simp]: "within 0 s s"
  by (simp add: within_def)

lemma within_trans: "within a s t \<Longrightarrow> within b t u \<Longrightarrow> within (a + b) s u"
  by (auto simp: within_def keeps_def intro: suffix_order.trans split: if_splits)

lemma within_mono: "within a s t \<Longrightarrow> a \<le> b \<Longrightarrow> within b s t"
  by (auto simp: within_def split: if_splits)

lemma inf_fill_within: "\<not> in_exhausted s \<Longrightarrow> in_exhausted (inf_fill n s) \<Longrightarrow> inf_left s < n"
proof (induction n s rule: inf_fill.induct)
  case (1 n s)
  show ?case
  proof (cases "in_bit_cnt s < n")
    case False
    then have "inf_fill n s = s" by (subst inf_fill.simps) simp
    with 1(2,3) show ?thesis by simp
  next
    case True
    show ?thesis
    proof (cases "in_input s")
      case Nil
      with True 1(2) show ?thesis by (simp add: inf_left_def)
    next
      case (Cons b bs)
      let ?s = "s\<lparr>in_bit_buf := in_bit_buf s OR push_bit (in_bit_cnt s) (ucast b), in_input := bs,
        in_bit_cnt := in_bit_cnt s + 8\<rparr>"
      have "inf_fill n s = inf_fill n ?s" using True Cons 1(2) by (subst inf_fill.simps) simp
      with 1(1) [OF True] Cons 1(2,3) have "inf_left ?s < n" by simp
      with Cons 1(2) show ?thesis by (simp add: inf_left_def)
    qed
  qed
qed

lemma within_bits: "inf_bits n s = (s', v) \<Longrightarrow> within n s s'"
  using inf_fill_within [of s n] keeps_bits [of n s s' v] inf_bits_left [of n s s' v]
  by (auto simp: within_def inf_bits_def Let_def)

lemma within_bits' [simp]: "within n s (fst (inf_bits n s))"
  using within_bits [of n s] by (cases "inf_bits n s") simp

lemma within_sink [simp]: "within 0 s (fst (on_sink f s))"
  by (simp add: within_def inf_left_def)

lemma within_set_sink [simp]: "within 0 s (s\<lparr>in_sink := o1\<rparr>)"
  by (simp add: within_def)

lemma within_align: "within 7 s (inf_align s)"
  using within_mono [OF within_bits' [of "in_bit_cnt s mod 8" s]] by (simp add: inf_align_def less_Suc_eq_le [symmetric])

lemma within_case_bits:
  "within k s (fst (case inf_bits n s of (t, v) \<Rightarrow> f t v))"
  if "\<And>t v. within m t (fst (f t v))" and "n + m \<le> k"
  using that within_mono [OF within_trans [OF within_bits that(1)] that(2)] by (cases "inf_bits n s") simp

lemma within_andthen:
  assumes "within a s (fst r)" and "\<And>t x. within b t (fst (f t x))" and "a + b \<le> k"
  shows "within k s (fst (andthen r f))"
  using within_mono [OF assms(1)] within_mono [OF within_trans [OF assms(1) assms(2)] assms(3)] assms(3)
  by (cases r; cases "snd r") auto

lemma within_decode_loop: "within (length counts) s (fst (inf_decode_loop symbol counts bits first index s))"
proof (induction symbol counts bits first index s rule: inf_decode_loop.induct)
  case (2 symbol count counts bits first index s)
  obtain s1 b where b: "inf_bits 1 s = (s1, b)" by fastforce
  show ?case
  proof (cases "bits + int (unat b) - int count < first")
    case True
    have "fst (inf_decode_loop symbol (count # counts) bits first index s) = s1"
      using True b by (auto simp: Let_def inf_ready_def)
    with within_mono [OF within_bits [OF b]] show ?thesis by simp
  next
    case False
    with within_trans [OF within_bits [OF b] 2(1) [OF b [symmetric] refl False]] b
    show ?thesis by (simp add: Let_def)
  qed
qed simp

lemma within_decode: "length (hf_count h) = MAX_BITS + 1 \<Longrightarrow> within 15 s (fst (inf_decode h s))"
  using within_decode_loop [of "tl (hf_count h)" s "hf_symbol h" 0 0 0] by (simp add: inf_decode_def MAX_BITS_def)

lemma within_length: "length (hf_count h) = MAX_BITS + 1 \<Longrightarrow> within 20 s (fst (inf_length ops h s))"
  unfolding inf_length_def
  by (rule within_andthen [OF within_decode, where b = 5])
    (auto simp: Let_def intro!: within_case_bits [where m = 0] within_andthen [where a = 0 and b = 0] within_mono [OF within_refl])

lemma within_distance:
  assumes "length (hf_count h) = MAX_BITS + 1"
  shows "within 28 s (fst (inf_distance ops h s))"
  unfolding inf_distance_def
proof (rule within_andthen [OF within_decode [OF assms], where b = 13], goal_cases)
  case (1 s1 sm)
  have "within 13 s1 (fst (if sm \<le> 1 then (s1, Inr (sm + 1)) else if sm \<le> 29 then
      let extra = (sm - 2) div 2 in (case inf_bits extra s1 of (s2, v) \<Rightarrow> (s2, Inr ((2 + sm mod 2) * 2 ^ extra + 1 + unat v)))
    else (s1, Inl InvalidHuffmanTree)))"
    by (auto simp: Let_def intro!: within_case_bits [where m = 0] within_mono [OF within_refl])
  then show ?case
    by (rule within_andthen [where b = 0]) (auto intro!: within_andthen [where a = 0 and b = 0])
qed simp

lemma within_code_lengths: "length (hf_count h) = MAX_BITS + 1 \<Longrightarrow> within 22 s (fst (code_lengths h ls i s))"
  unfolding code_lengths_def
  by (rule within_andthen [OF within_decode, where b = 7])
    (auto simp: Let_def intro!: within_andthen [where a = 7 and b = 0] within_case_bits [where m = 0] within_mono [OF within_refl])

lemma within_dynamic_head: "within 14 s (fst (dynamic_head s))"
  unfolding dynamic_head_def Let_def
  by (intro within_case_bits [where m = 9] within_case_bits [where m = 4] within_case_bits [where m = 0]) auto

lemma within_stored_byte: "within 8 s (fst (stored_byte ops s))"
  unfolding stored_byte_def
  by (intro within_case_bits [where m = 0] within_andthen [where a = 0 and b = 0]) auto

lemma inf_align_aligned: "8 dvd in_bit_cnt s \<Longrightarrow> within 0 s (inf_align s)"
  using within_bits' [of 0 s] by (simp add: inf_align_def dvd_eq_mod_eq_0)

lemma within_stored_len: "8 dvd in_bit_cnt s \<Longrightarrow> within 32 s (fst (stored_len s))"
proof -
  assume "8 dvd in_bit_cnt s"
  from inf_align_aligned [OF this] have "within (0 + 32) s (fst (stored_len s))"
    by (rule within_trans)
      (unfold stored_len_def, rule within_case_bits [where m = 16], rule within_case_bits [where m = 0], auto)
  then show ?thesis by simp
qed

lemma within_word:
  assumes "inf_word s = (s', v)"
  shows "within 32 s s'"
proof -
  obtain s1 low where b1: "inf_bits 16 s = (s1, low)" by fastforce
  obtain s2 high where b2: "inf_bits 16 s1 = (s2, high)" by fastforce
  from assms b1 b2 have "s' = s2" by (simp add: inf_word_def)
  with within_trans [OF within_bits [OF b1] within_bits [OF b2]] show ?thesis by simp
qed

section \<open>Byte boundaries\<close>

text \<open>Where a state starts on a byte boundary, and where it starts with nothing buffered.\<close>

definition push_place :: "push_state \<Rightarrow> nat \<Rightarrow> bool" where
  "push_place st cnt \<longleftrightarrow>
     (case st of PStoredLen \<Rightarrow> 8 dvd cnt | PChecksum \<Rightarrow> 8 dvd cnt | PSize _ \<Rightarrow> 8 dvd cnt | PNext \<Rightarrow> cnt = 0 | _ \<Rightarrow> True)"

lemma inf_align_cnt: "8 dvd in_bit_cnt (inf_align s)"
proof -
  have "\<not> in_bit_cnt s < in_bit_cnt s mod 8" by (simp add: not_less)
  then have "inf_fill (in_bit_cnt s mod 8) s = s" by (subst inf_fill.simps) (simp only: if_False)
  then show ?thesis by (simp add: inf_align_def inf_bits_def Let_def dvd_minus_mod)
qed

lemma inf_fill_cnt_dvd: "8 dvd in_bit_cnt s \<Longrightarrow> 8 dvd n \<Longrightarrow> in_bit_cnt (inf_fill n s) = max (in_bit_cnt s) n"
proof (induction n s rule: inf_fill.induct)
  case (1 n s)
  show ?case
  proof (cases "in_bit_cnt s < n")
    case False
    then have "inf_fill n s = s" by (subst inf_fill.simps) simp
    with False show ?thesis by simp
  next
    case True
    from 1(2,3) obtain a b where ab: "in_bit_cnt s = 8 * a" "n = 8 * b" by (auto simp: dvd_def)
    with True have "in_bit_cnt s + 8 \<le> n" by simp
    with 1(1) [OF True] 1(2,3) True show ?thesis
      by (subst inf_fill.simps) (simp add: dvd_add split: list.split)
  qed
qed

lemma inf_word_cnt:
  assumes "inf_word s = (s', v)" and "8 dvd in_bit_cnt s" and "in_bit_cnt s \<le> 32"
  shows "in_bit_cnt s' = 0"
proof -
  have step: "in_bit_cnt s2 = max (in_bit_cnt s1) 16 - 16 \<and> 8 dvd in_bit_cnt s2"
    if "inf_bits 16 s1 = (s2, w)" "8 dvd in_bit_cnt s1" for s1 s2 :: "'a inflate" and w
    using that inf_fill_cnt_dvd [of s1 16] by (auto simp: inf_bits_def Let_def dvd_diff_nat max_def)
  obtain s1 low where b1: "inf_bits 16 s = (s1, low)" by fastforce
  obtain s2 high where b2: "inf_bits 16 s1 = (s2, high)" by fastforce
  from assms(1) b1 b2 have "s' = s2" by (simp add: inf_word_def)
  moreover have d1: "8 dvd in_bit_cnt s1" using step [OF b1 assms(2)] by blast
  moreover have "in_bit_cnt s1 \<le> 16" using step [OF b1 assms(2)] assms(3) by linarith
  moreover from step [OF b2 d1] this have "in_bit_cnt s2 = 0" by simp
  ultimately show ?thesis by simp
qed

section \<open>A whole step\<close>

lemma within_push_bits:
  "within k s (fst (fst (case inf_bits n s of (t, v) \<Rightarrow> f t v)))"
  if "\<And>t v. within m t (fst (fst (f t v)))" and "n + m \<le> k"
  using that within_mono [OF within_trans [OF within_bits that(1)] that(2)] by (cases "inf_bits n s") simp

lemma within_here: "within k s s"
  by (rule within_mono [OF within_refl]) simp

lemma push_step_within:
  assumes "ctx_ok c" and "push_place st (in_bit_cnt s)"
  shows "within 32 s (fst (fst (push_step fmt st s c)))"
proof -
  have counts: "length (hf_count (tb_len (cx_tables c))) = MAX_BITS + 1" "length (hf_count (tb_dist (cx_tables c))) = MAX_BITS + 1"
    using assms(1) by (simp_all add: ctx_ok_def)
  have end_: "within 7 t (fst (fst (push_block_end fmt t c')))" for t c'
    using within_trans [OF within_align within_set_sink, of t]
    by (simp add: push_block_end_def Let_def within_here)
  have ctx: "within 32 s (fst (andthen r (\<lambda>s1 x. (s1, Inr (f x)))))" if "within 32 s (fst r)"
    for r :: "('a windowed, 'd) inf_result" and f :: "'d \<Rightarrow> push_state"
    using that by (intro within_andthen [where a = 32 and b = 0]) (auto simp: within_here)
  show ?thesis
  proof (cases st)
    case PStart
    have "within 16 s (fst (fst (push_start fmt s c)))"
      unfolding push_start_def
      by (auto simp: within_here intro!: within_push_bits [where n = 8 and m = 8 and k = 16])
        (rule within_push_bits [where m = 0], auto simp: within_here)
    from within_mono [OF this] show ?thesis by (simp add: push_step_def PStart within_here)
  next
    case PMember
    let ?s = "s\<lparr>in_sink := (in_sink s)\<lparr>ws_format := fm_init fmt\<rparr>\<rparr>"
    have "within (0 + 32) s (fst (fst (push_member fmt s c)))"
      unfolding push_member_def Let_def
      by (rule within_trans [OF within_set_sink [of s "(in_sink s)\<lparr>ws_format := fm_init fmt\<rparr>"]],
          rule within_push_bits [where m = 16])
        (auto simp: within_here intro!: within_push_bits [where n = 8 and m = 8 and k = 16]
           within_push_bits [where n = 8 and m = 0 and k = 8])
    then show ?thesis by (simp add: push_step_def PMember within_here)
  next
    case (PSkip n flags)
    show ?thesis using within_mono [OF within_bits', of 8 32 s] by (simp add: push_step_def PSkip within_here)
  next
    case (PFields flags)
    have "within 32 s (fst (fst (push_fields flags s c)))"
      unfolding push_fields_def Let_def
      by (auto simp: within_here intro!: within_push_bits [where m = 0])
    then show ?thesis by (simp add: push_step_def PFields within_here)
  next
    case PBlock
    have fixed: "within 14 t (fst (fst (case build_codes l m (cx_tables d) of (t1, r) \<Rightarrow> ((t, g t1), f r))))"
      for t d and l m and g :: "tables \<Rightarrow> push_context" and f :: "error + unit \<Rightarrow> error + push_state"
      by (simp add: within_here split: prod.split)
    have dyn: "within 14 t (fst (fst (case dynamic_head t of
           (s3, Inl e) \<Rightarrow> ((s3, d), Inl e)
         | (s3, Inr (len_syms, dist_syms, code_syms)) \<Rightarrow> ((s3, g len_syms dist_syms code_syms), Inr (PCodeLengths 0)))))"
      for t d and g :: "nat \<Rightarrow> nat \<Rightarrow> nat \<Rightarrow> push_context"
      using within_dynamic_head [of t] by (auto split: prod.splits sum.splits)
    have "within 32 s (fst (fst (push_block s c)))"
      unfolding push_block_def Let_def
      by (rule within_push_bits [where m = 16], rule within_push_bits [where m = 14])
        (auto simp: within_here fixed dyn intro: within_mono [OF within_align])
    then show ?thesis by (simp add: push_step_def PBlock)
  next
    case PStoredLen
    have "within 32 s (fst (stored_len s))" using assms(2) by (intro within_stored_len) (simp add: push_place_def PStoredLen)
    from ctx [OF this] show ?thesis by (simp add: push_step_def PStoredLen)
  next
    case (PStored n)
    show ?thesis
      using within_mono [OF end_, of 32 s c] ctx [OF within_mono [OF within_stored_byte], of ws_ops "\<lambda>_. PStored (n - 1)"]
      by (simp add: push_step_def PStored)
  next
    case (PCodeLengths i)
    have "within 32 s (fst (fst (push_code_lengths i s c)))"
      by (auto simp: push_code_lengths_def Let_def within_here intro!: within_push_bits [where m = 0])
    then show ?thesis by (simp add: push_step_def PCodeLengths)
  next
    case (PLengths i)
    obtain s2 x where x: "code_lengths (tb_len (cx_tables c)) (take (cx_syms c) (cx_lengths c)) i s = (s2, x)" by fastforce
    have "within 32 s s2"
      using within_mono [OF within_code_lengths [OF counts(1), of s "take (cx_syms c) (cx_lengths c)" i], of 32] x by simp
    then have "within 32 s (fst (fst (push_lengths i s c)))"
      by (auto simp: push_lengths_def Let_def within_here x split: prod.split sum.split)
    then show ?thesis by (simp add: push_step_def PLengths)
  next
    case PLength
    have "within 32 s (fst (regroup (push_length fmt s c)))"
      unfolding regroup_length
      by (rule within_andthen [OF within_length [OF counts(1)], where b = 7])
        (auto simp: within_here end_ [unfolded regroup_def] regroup_def split: inf_symbol.split)
    then show ?thesis by (simp add: push_step_def PLength regroup_def)
  next
    case (PDistance len)
    from ctx [OF within_mono [OF within_distance [OF counts(2)]]] show ?thesis by (simp add: push_step_def PDistance)
  next
    case (PCopy dist len)
    show ?thesis using within_mono [OF within_set_sink, of 32 s]
      by (auto simp: PCopy push_copy_step Let_def within_here split: sum.split)
  next
    case PChecksum
    show ?thesis using within_word [of s]
      by (auto simp: push_step_def PChecksum push_verify_def Let_def within_here split: prod.split)
  next
    case (PSize n)
    show ?thesis using within_word [of s]
      by (auto simp: push_step_def PSize push_verify_def Let_def within_here split: prod.split)
  qed (simp_all add: push_step_def within_here)
qed

text \<open>The byte boundary, and what has been flushed, where the next state counts on it.\<close>

lemma push_block_end_place:
  assumes "push_block_end fmt s c = ((s1, c1), Inr st')"
  shows "push_place st' (in_bit_cnt s1)" and "push_flushed st' (in_sink s1)"
  using assms inf_align_cnt [of s]
  by (auto simp: push_block_end_def Let_def push_place_def push_flushed_def ws_flush_def split: if_splits)

lemma push_step_place:
  assumes "push_step fmt st s c = ((s1, c1), Inr st')" and "push_place st (in_bit_cnt s)" and "in_bit_cnt s \<le> 32"
  shows "push_place st' (in_bit_cnt s1)"
proof (cases st)
  case PBlock
  with assms(1) inf_align_cnt show ?thesis
    by (auto simp: push_step_def push_block_def push_place_def Let_def split: if_splits prod.splits sum.splits)
next
  case (PStored n)
  with assms(1) push_block_end_place(1) [of fmt s c s1 c1 st'] show ?thesis
    by (auto simp: push_step_def with_context_def andthen_Inr push_place_def split: if_splits prod.splits)
next
  case PLength
  with assms(1) push_block_end_place(1) [of fmt _ c s1 c1 st'] show ?thesis
    by (auto simp: push_step_def push_length_def push_place_def split: if_splits prod.splits sum.splits inf_symbol.splits)
next
  case PChecksum
  with assms have "8 dvd in_bit_cnt s" by (simp add: push_place_def)
  with PChecksum assms(1,3) inf_word_cnt [of s] show ?thesis
    by (auto simp: push_step_def push_verify_def Let_def push_place_def split: if_splits prod.splits)
next
  case (PSize n)
  with assms have "8 dvd in_bit_cnt s" by (simp add: push_place_def)
  with PSize assms(1,3) inf_word_cnt [of s] show ?thesis
    by (auto simp: push_step_def push_verify_def Let_def push_place_def split: if_splits prod.splits)
next
  case (PCopy dist len)
  with assms(1) show ?thesis by (auto simp: push_copy_step push_place_def Let_def split: sum.splits if_splits)
qed (use assms(1) in \<open>auto simp: push_step_def push_start_def push_member_def push_fields_def push_code_lengths_def
    push_lengths_def with_context_def andthen_Inr push_place_def Let_def split: if_splits prod.splits sum.splits\<close>)

lemma push_step_flushed:
  assumes "push_step fmt st s c = ((s1, c1), Inr st')" and "push_flushed st (in_sink s)"
  shows "push_flushed st' (in_sink s1)"
proof (cases st)
  case (PStored n)
  with assms(1) push_block_end_place(2) [of fmt s c s1 c1 st'] show ?thesis
    by (auto simp: push_step_def with_context_def andthen_Inr push_flushed_def split: if_splits prod.splits)
next
  case PLength
  with assms(1) push_block_end_place(2) [of fmt _ c s1 c1 st'] show ?thesis
    by (auto simp: push_step_def push_length_def push_flushed_def split: if_splits prod.splits sum.splits inf_symbol.splits)
next
  case (PCopy dist len)
  with assms(1) show ?thesis by (auto simp: push_copy_step push_flushed_def Let_def split: sum.splits if_splits)
next
  case PChecksum
  with assms show ?thesis
    by (auto simp: push_step_def push_verify_def Let_def push_flushed_def dest!: inf_word_sink split: if_splits prod.splits)
next
  case (PSize n)
  with assms show ?thesis
    by (auto simp: push_step_def push_verify_def Let_def push_flushed_def dest!: inf_word_sink split: if_splits prod.splits)
next
  case PStart
  with assms show ?thesis
    by (auto simp: push_step_def push_start_def push_flushed_def split: if_splits prod.splits)
qed (use assms in \<open>auto simp: push_step_def push_member_def push_fields_def push_block_def push_code_lengths_def
    push_lengths_def with_context_def andthen_Inr push_flushed_def Let_def split: if_splits prod.splits sum.splits\<close>)

lemma push_step_next: "push_step fmt st s c = ((s1, c1), Inr PNext) \<Longrightarrow> fm_gzip fmt"
  by (cases st) (auto simp: push_step_def push_start_def push_member_def push_fields_def push_block_def push_code_lengths_def
    push_lengths_def push_length_def push_block_end_def push_verify_def with_context_def andthen_Inr Let_def
    split: if_splits prod.splits sum.splits inf_symbol.splits)

end
