(* ===== verification/EmbedPushIdeal.thy ===== *)
theory EmbedPushIdeal
  imports EmbedPushKeep
begin

text \<open>
  The ideal run of the push decoder depends on its reader and its context only through the bits to
  come, the window, the data its container has been fed and what of the context is live.
\<close>

section \<open>Copies\<close>

fun copied :: "nat \<Rightarrow> nat \<Rightarrow> window \<Rightarrow> byte list \<times> window" where
  "copied dist 0 w = ([], w)"
| "copied dist (Suc n) w =
     (window_back w dist # fst (copied dist n (window_put w (window_back w dist))),
      snd (copied dist n (window_put w (window_back w dist))))"

lemma ws_copy_loop_copied:
  "ws_copy_loop dist n o1 =
     o1\<lparr>ws_window := snd (copied dist n (ws_window o1)), ws_out := ws_out o1 @ fst (copied dist n (ws_window o1))\<rparr>"
  by (induction dist n o1 rule: ws_copy_loop.induct) (simp_all add: ws_push_def)

lemma copied_add:
  "copied dist (m + n) w =
     (fst (copied dist m w) @ fst (copied dist n (snd (copied dist m w))), snd (copied dist n (snd (copied dist m w))))"
  by (induction dist m w rule: copied.induct) simp_all

lemma length_copied [simp]: "length (fst (copied dist n w)) = n"
  by (induction dist n w rule: copied.induct) simp_all

lemma check_dist_put: "window_check_dist w d = Inr () \<Longrightarrow> window_check_dist (window_put w b) d = Inr ()"
  by (auto simp: window_check_dist_def window_put_def Let_def split: if_splits)

lemma check_dist_copied: "window_check_dist w d = Inr () \<Longrightarrow> window_check_dist (snd (copied dist n w)) d = Inr ()"
  by (induction dist n w rule: copied.induct) (simp_all add: check_dist_put)

section \<open>The ideal run goes by the bits, the window and the data fed\<close>

lemma ahead_input:
  assumes "ahead [] s t" and "in_bit_cnt s = 0" and "in_bit_cnt t = 0"
  shows "in_input s = in_input t"
  using assms by (auto simp: ahead_def in_bits_def intro: stream_bits_inject)

lemma push_afresh_simps [simp]:
  "in_sink (push_afresh n s) = ws_new (ws_window (in_sink s)) (ws_format (in_sink s)) n"
  "in_input (push_afresh n s) = in_input s" "in_bit_cnt (push_afresh n s) = in_bit_cnt s"
  "in_exhausted (push_afresh n s) = in_exhausted s"
  "ahead ext (push_afresh n s) t = ahead ext s t" "ahead ext u (push_afresh n s) = ahead ext u s"
  by (simp_all add: push_afresh_def)

lemma push_flush_simps [simp]:
  "in_sink (push_flush fmt s) = ws_flush fmt (in_sink s)"
  "in_input (push_flush fmt s) = in_input s" "in_bit_cnt (push_flush fmt s) = in_bit_cnt s"
  "ahead ext (push_flush fmt s) t = ahead ext s t" "ahead ext u (push_flush fmt s) = ahead ext u s"
  by (simp_all add: push_flush_def)

lemma ws_new_simps [simp]:
  "ws_window (ws_new w f n) = w" "ws_format (ws_new w f n) = f" "ws_room (ws_new w f n) = n"
  "ws_out (ws_new w f n) = []" "ws_flushed (ws_new w f n) = 0" "\<not> ws_full (ws_new w f n)" "ws_left (ws_new w f n) = n"
  by (simp_all add: ws_new_def ws_left_def)

lemma push_flushed_new [simp]: "push_flushed st (ws_new w f n)"
  by (simp add: push_flushed_def)

lemma push_need_pos: "\<not> (\<exists>dist len. st = PCopy dist len) \<Longrightarrow> push_need st = 1"
  by (cases st) (simp_all add: push_need_def)

text \<open>A copy, all at once.\<close>

lemma push_ideal_copy:
  "push_ideal fmt (PCopy dist len) s c =
     (if in_exhausted s then ([], Some UnexpectedEnd)
      else case window_check_dist (ws_window (in_sink s)) dist of
        Inl e \<Rightarrow> ([], Some e)
      | Inr _ \<Rightarrow>
          (case copied dist len (ws_window (in_sink s)) of
             (bs, w) \<Rightarrow> emit bs (push_ideal fmt PLength
               (push_flush fmt (s\<lparr>in_sink := (ws_new w (ws_format (in_sink s)) len)\<lparr>ws_out := bs\<rparr>\<rparr>)) c)))"
  by (subst push_ideal.simps)
    (simp add: push_copy_step push_need_def ws_copy_loop_copied ws_new_def push_afresh_def Let_def ws_left_def split: sum.split prod.split)

definition ideal_rel ::
  "'f format_ops \<Rightarrow> (byte list \<Rightarrow> 'f) \<Rightarrow> byte list \<Rightarrow> push_state \<Rightarrow> 'f push \<Rightarrow> push_context \<Rightarrow> 'f push \<Rightarrow> push_context \<Rightarrow> bool" where
  "ideal_rel fmt fed h st s c t c' \<longleftrightarrow> ahead [] s t \<and> ws_window (in_sink s) = ws_window (in_sink t)
     \<and> ws_format (in_sink s) = fed h \<and> ws_format (in_sink t) = fed h \<and> ctx_sim fmt st c c'
     \<and> push_place st (in_bit_cnt s) \<and> push_place st (in_bit_cnt t)"

lemma ideal_rel_sym: "ideal_rel fmt fed h st s c t c' \<Longrightarrow> ideal_rel fmt fed h st t c' s c"
  by (auto simp: ideal_rel_def ahead_sym ctx_sim_sym)

lemma ctx_sim_next:
  "ctx_sim fmt PNext c c' \<Longrightarrow> ctx_sim fmt PMember c c'" "ctx_sim fmt PNext c c' \<Longrightarrow> ctx_sim fmt PDone c c'"
  "ctx_sim fmt (PCopy dist len) c c' \<Longrightarrow> ctx_sim fmt PLength c c'"
  "ctx_sim fmt (PCopy dist len) c c' \<Longrightarrow> ctx_sim fmt (PCopy dist n) c c'"
  by (auto simp: ctx_sim_def ctx_like_def push_in_block_def)

lemma tracks_rel:
  assumes "tracks (\<lambda>_. False) ext (sinks_by fed a b) (ctx_rel fmt) (regroup ((s1, c1), r)) (regroup ((t1, c1'), r'))"
    and "\<not> in_exhausted s1" and "\<not> ws_full (in_sink s1)"
  shows "ahead ext s1 t1" and "ws_window (in_sink s1) = ws_window (in_sink t1)"
    and "\<exists>d. ws_out (in_sink s1) = a @ d \<and> ws_out (in_sink t1) = b @ d" and "\<not> ws_full (in_sink t1)"
    and "\<exists>h. fmt_at fed (in_sink s1) h \<and> fmt_at fed (in_sink t1) h"
    and "r = Inl e \<Longrightarrow> r' = Inl e" and "r = Inr st \<Longrightarrow> r' = Inr st \<and> ctx_like fmt st c1 c1'"
    and "\<not> in_exhausted t1"
proof -
  have "fst (regroup ((s1, c1), r)) = s1" "fst (regroup ((t1, c1'), r')) = t1" by (simp_all add: regroup_def)
  with assms have *: "ahead ext s1 t1" "sinks_by fed a b (in_sink s1) (in_sink t1)"
    "rel_sum (=) (ctx_rel fmt) (snd (regroup ((s1, c1), r))) (snd (regroup ((t1, c1'), r')))"
    by (auto simp: tracks_def)
  then show "ahead ext s1 t1" and "ws_window (in_sink s1) = ws_window (in_sink t1)"
    and "\<exists>d. ws_out (in_sink s1) = a @ d \<and> ws_out (in_sink t1) = b @ d" and "\<not> ws_full (in_sink t1)"
    and "\<exists>h. fmt_at fed (in_sink s1) h \<and> fmt_at fed (in_sink t1) h" and "\<not> in_exhausted t1"
    using assms(3) by (auto simp: sinks_by_def ahead_def in_ok_def)
  show "r = Inl e \<Longrightarrow> r' = Inl e" and "r = Inr st \<Longrightarrow> r' = Inr st \<and> ctx_like fmt st c1 c1'"
    using *(3) by (cases r; cases r'; auto simp: regroup_def ctx_rel_def)+
qed

context container
begin

lemma fresh_sinks:
  assumes "ideal_rel fmt fed h st s c t c'" and "0 < n"
  shows "sinks_at fed [] [] h (ws_new (ws_window (in_sink s)) (ws_format (in_sink s)) n) (ws_new (ws_window (in_sink t)) (ws_format (in_sink t)) n)"
  using assms by (auto simp: sinks_at_def ideal_rel_def fmt_at_def)

text \<open>One step of two related ideal runs.\<close>

lemma ideal_step:
  assumes "ideal_rel fmt fed h st s c t c'" and "\<not> (\<exists>dist len. st = PCopy dist len)"
    and s1: "push_step fmt st (push_afresh (push_need st) s) c = ((s1, c1), r)"
    and t1: "push_step fmt st (push_afresh (push_need st) t) c' = ((t1, c1'), r')"
    and "\<not> in_exhausted s1"
  shows "\<not> in_exhausted t1" and "ws_out (in_sink s1) = ws_out (in_sink t1)"
    and "r = Inl e \<Longrightarrow> r' = Inl e"
    and "r = Inr st' \<Longrightarrow> r' = Inr st' \<and> (\<exists>h'. ideal_rel fmt fed h' st' (push_flush fmt s1) c1 (push_flush fmt t1) c1')"
proof -
  have need: "0 < push_need st" using push_need_pos [OF assms(2)] by simp
  have rel: "ahead [] s t" "ctx_sim fmt st c c'" "push_place st (in_bit_cnt s)" "push_place st (in_bit_cnt t)"
    using assms(1) by (simp_all add: ideal_rel_def)
  have full: "\<not> ws_full (in_sink s1)"
    using push_step_full [OF s1] need by auto
  have "tracks (\<lambda>_. False) [] (sinks_by fed [] []) (ctx_rel fmt)
      (regroup (push_step fmt st (push_afresh (push_need st) s) c)) (regroup (push_step fmt st (push_afresh (push_need st) t) c'))"
    by (rule tracks_push_step [where h = h]) (use rel assms(2) fresh_sinks [OF assms(1) need] in auto)
  note tr = tracks_rel [OF this [unfolded s1 t1] assms(5) full]
  show "\<not> in_exhausted t1" "ws_out (in_sink s1) = ws_out (in_sink t1)" and "r = Inl e \<Longrightarrow> r' = Inl e"
    using tr by auto
  have ok: "in_bit_cnt s \<le> 32" "in_bit_cnt t \<le> 32" using rel(1) by (simp_all add: ahead_def in_ok_def)
  obtain h' where h': "fmt_at fed (in_sink s1) h'" "fmt_at fed (in_sink t1) h'" using tr(5) by blast
  show "r' = Inr st' \<and> (\<exists>h'. ideal_rel fmt fed h' st' (push_flush fmt s1) c1 (push_flush fmt t1) c1')" if "r = Inr st'"
  proof -
    from tr(7) [OF that] have r': "r' = Inr st'" and like: "ctx_like fmt st' c1 c1'" by simp_all
    have "ctx_sim fmt st' c1 c1'"
      using like push_step_ctx_ok [OF s1] push_step_ctx_ok [OF t1] rel(2) by (simp add: ctx_sim_def)
    moreover have "push_place st' (in_bit_cnt s1)" "push_place st' (in_bit_cnt t1)"
      using push_step_place [OF s1 [unfolded that]] push_step_place [OF t1 [unfolded r']] rel(3,4) ok by simp_all
    ultimately have "ideal_rel fmt fed h' st' (push_flush fmt s1) c1 (push_flush fmt t1) c1'"
      using tr(1,2) conjunct2 [OF fmt_at_flush [OF h'(1)]] conjunct2 [OF fmt_at_flush [OF h'(2)]]
      by (simp add: ideal_rel_def)
    with r' show ?thesis by blast
  qed
qed

lemma ideal_rel_copy:
  assumes "ideal_rel fmt fed h (PCopy dist len) s c t c'"
    and "ws_window o1 = ws_window o2" and "ws_format o1 = ws_format (in_sink s)" and "ws_format o2 = ws_format (in_sink t)"
    and "ws_out o1 = bs" and "ws_out o2 = bs" and "ws_flushed o1 = 0" and "ws_flushed o2 = 0"
  shows "ideal_rel fmt fed (h @ bs) PLength (push_flush fmt (s\<lparr>in_sink := o1\<rparr>)) c (push_flush fmt (t\<lparr>in_sink := o2\<rparr>)) c'"
proof -
  have "fm_update fmt (fed h) bs = fed (h @ bs)" by (rule fed_update)
  then show ?thesis
    using assms ctx_sim_next(3) [of fmt dist len c c']
    by (auto simp: ideal_rel_def ws_flush_def push_place_def)
qed

lemma ideal_cong:
  "ideal_rel fmt fed h st s c t c' \<Longrightarrow> push_ideal fmt st s c = push_ideal fmt st t c'"
proof (induction fm \<equiv> fmt st s c arbitrary: h t c' rule: push_ideal.induct)
  case (1 st s c)
  note rel = "1.prems"
  show ?case
  proof (cases "st = PDone \<or> st = PNext \<and> fm_gzip fmt")
    case True
    show ?thesis
    proof (cases "st = PDone")
      case True
      then show ?thesis by (subst (1 2) push_ideal.simps) simp
    next
      case False
      with True have st: "st = PNext" "fm_gzip fmt" by simp_all
      with rel have "ahead [] s t" "in_bit_cnt s = 0" "in_bit_cnt t = 0" by (simp_all add: ideal_rel_def push_place_def)
      from ahead_input [OF this] have input: "in_input t = in_input s" by simp
      have to: "ideal_rel fmt fed h st' s c t c'" if "st' = PMember \<or> st' = PDone" for st'
        using rel that ctx_sim_next(1,2) unfolding st(1) by (auto simp: ideal_rel_def push_place_def)
      have "push_ideal fmt (if b = 0x1f then PMember else PDone) s c
          = push_ideal fmt (if b = 0x1f then PMember else PDone) t c'" if "in_input s = b # bs" for b bs
      proof (rule "1.hyps"(1) [OF False _ that])
        show "st = PNext \<and> fm_gzip fmt" by (simp add: st)
        show "ideal_rel fmt fed h (if b = 0x1f then PMember else PDone) s c t c'" 
          by (intro to) simp
      qed
      then show ?thesis
        by (subst (1 2) push_ideal.simps) (auto simp: st input split: list.split)
    qed
  next
    case run: False
    show ?thesis
    proof (cases "\<exists>dist len. st = PCopy dist len")
      case True
      then obtain dist len where st: "st = PCopy dist len" by blast
      from rel have ok: "\<not> in_exhausted s" "\<not> in_exhausted t" and w: "ws_window (in_sink t) = ws_window (in_sink s)"
        by (simp_all add: ideal_rel_def ahead_def in_ok_def)
      show ?thesis
      proof (cases "window_check_dist (ws_window (in_sink s)) dist")
        case (Inl e)
        with ok w show ?thesis by (simp add: st push_ideal_copy)
      next
        case (Inr u)
        obtain bs w' where b: "copied dist len (ws_window (in_sink s)) = (bs, w')" by fastforce
        let ?s = "s\<lparr>in_sink := (ws_new w' (ws_format (in_sink s)) len)\<lparr>ws_out := bs\<rparr>\<rparr>"
        let ?t = "t\<lparr>in_sink := (ws_new w' (ws_format (in_sink t)) len)\<lparr>ws_out := bs\<rparr>\<rparr>"
        have s1: "push_step fmt st (push_afresh (push_need st) s) c = ((?s, c), Inr PLength)"
          using Inr b by (simp add: st push_copy_step push_need_def ws_copy_loop_copied Let_def ws_new_def ws_left_def push_afresh_def)
        have "ideal_rel fmt fed (h @ bs) PLength (push_flush fmt ?s) c (push_flush fmt ?t) c'"
          by (rule ideal_rel_copy [OF rel [unfolded st]]) (simp_all add: ws_new_def)
        then have "push_ideal fmt PLength (push_flush fmt ?s) c = push_ideal fmt PLength (push_flush fmt ?t) c'"
          by (intro "1.hyps"(2) [OF _ _ s1 [symmetric] refl _ refl]) (use run ok in auto)
        with Inr b ok w show ?thesis by (simp add: st push_ideal_copy)
      qed
    next
      case False
      obtain s1 c1 r where s1: "push_step fmt st (push_afresh (push_need st) s) c = ((s1, c1), r)" by (metis prod.collapse)
      obtain t1 c1' r' where t1: "push_step fmt st (push_afresh (push_need st) t) c' = ((t1, c1'), r')" by (metis prod.collapse)
      note step = ideal_step [OF rel False s1 t1]
      note pets = ideal_step [OF ideal_rel_sym [OF rel] False t1 s1]
      have ex: "in_exhausted s1 = in_exhausted t1" using step(1) pets(1) by blast
      show ?thesis
      proof (cases "in_exhausted s1")
        case True
        with ex run s1 t1 show ?thesis by (subst (1 2) push_ideal.simps) (auto simp: s1 t1)
      next
        case live: False
        show ?thesis
        proof (cases r)
          case (Inl e)
          with ex run live s1 t1 step(2,3) show ?thesis by (subst (1 2) push_ideal.simps) (auto simp: s1 t1)
        next
          case (Inr st')
          obtain h' where r': "r' = Inr st'" and rel': "ideal_rel fmt fed h' st' (push_flush fmt s1) c1 (push_flush fmt t1) c1'"
            using step(4) [OF live Inr] by blast
          have "push_ideal fmt st' (push_flush fmt s1) c1 = push_ideal fmt st' (push_flush fmt t1) c1'"
            by (rule "1.hyps"(2) [OF _ _ s1 [symmetric] refl live Inr rel']) (use run in auto)
          with Inr r' ex run live step(2) show ?thesis by (subst (1 2) push_ideal.simps) (auto simp: s1 t1)
        qed
      qed
    qed
  qed
qed

end

end
