(* ===== verification/EmbedPushTurn.thy ===== *)
theory EmbedPushTurn
  imports EmbedPushIdeal
begin

text \<open>
  A turn of the push decoder's loop against the ideal run: a step that is taken is the ideal run's
  step, a copy cut short goes on where it was left, and a step taken back leaves the decoder where
  it was.  The loop then produces a first part of what \<open>push_ideal\<close> says the stream decodes to.
\<close>

section \<open>Taking a step back\<close>

lemma push_reload_ok:
  assumes "in_ok s" and "inf_left s < 32"
  shows "in_ok (push_reload s) \<and> in_bits (push_reload s) = in_bits s \<and> in_input (push_reload s) = []
    \<and> in_sink (push_reload s) = in_sink s \<and> (8 dvd in_bit_cnt (push_reload s) \<longleftrightarrow> 8 dvd in_bit_cnt s)
    \<and> (in_input s = [] \<longrightarrow> push_reload s = s)"
  using assms
proof (induction s rule: push_reload.induct)
  case (1 s)
  have ok: "\<not> in_exhausted s" "\<And>i. in_bit_cnt s \<le> i \<Longrightarrow> \<not> bit (in_bit_buf s) i" using "1.prems"(1) by (simp_all add: in_ok_def)
  show ?case
  proof (cases "in_input s")
    case Nil
    then have "push_reload s = s" by (subst push_reload.simps) simp
    with Nil "1.prems" show ?thesis by simp
  next
    case (Cons b rest)
    with "1.prems"(2) ok have cnt: "in_bit_cnt s \<le> 24" "in_bit_cnt s + 8 \<le> 32" by (simp_all add: inf_left_def)
    let ?s = "s\<lparr>in_bit_buf := in_bit_buf s OR push_bit (in_bit_cnt s) (ucast b), in_bit_cnt := in_bit_cnt s + 8, in_input := rest\<rparr>"
    have step: "push_reload s = push_reload ?s" using Cons cnt by (subst push_reload.simps) simp
    have "in_ok ?s"
      using "1.prems"(1) cnt by (auto simp: in_ok_def bit_simps dest!: bit_imp_le_length [where w = b])
    moreover have "inf_left ?s < 32" using "1.prems"(2) ok Cons by (simp add: inf_left_def)
    moreover have "in_bits ?s = in_bits s"
    proof -
      have "lsb_bits 8 (ucast b :: u32) = lsb_bits 8 b" by (rule lsb_bits_ucast) simp
      then show ?thesis
        using lsb_bits_push_or [of "in_bit_cnt s" "in_bit_buf s" 8 "ucast b"] ok(2) cnt
        by (simp add: in_bits_def Cons)
    qed
    ultimately show ?thesis using "1.IH" [OF Cons cnt(1)] Cons unfolding step by auto
  qed
qed

lemma push_ideal_member:
  "push_ideal fmt PMember (s\<lparr>in_sink := (in_sink s)\<lparr>ws_format := f\<rparr>\<rparr>) c = push_ideal fmt PMember s c"
proof (cases "fm_gzip fmt")
  case True
  have "push_step fmt PMember (push_afresh n (s\<lparr>in_sink := (in_sink s)\<lparr>ws_format := f\<rparr>\<rparr>)) c
      = push_step fmt PMember (push_afresh n s) c" for n
    using True by (simp add: push_step_def push_member_def push_afresh_def ws_new_def Let_def)
  then show ?thesis by (subst (1 2) push_ideal.simps) simp
next
  case False
  then show ?thesis by (subst (1 2) push_ideal.simps) (simp add: push_step_def push_afresh_def ws_new_def)
qed

section \<open>A turn\<close>

definition push_rel ::
  "'f format_ops \<Rightarrow> (byte list \<Rightarrow> 'f) \<Rightarrow> bool list \<Rightarrow> byte list \<Rightarrow> push_state \<Rightarrow> 'f push \<Rightarrow> push_context \<Rightarrow> 'f push \<Rightarrow> push_context \<Rightarrow> bool" where
  "push_rel fmt fed ext h st s c t c' \<longleftrightarrow> ahead ext s t \<and> ws_window (in_sink s) = ws_window (in_sink t)
     \<and> \<not> ws_full (in_sink s) \<and> fmt_at fed (in_sink s) h \<and> ws_format (in_sink t) = fed h \<and> ctx_sim fmt st c c'
     \<and> push_place st (in_bit_cnt s) \<and> push_place st (in_bit_cnt t) \<and> push_flushed st (in_sink s) \<and> (st = PNext \<longrightarrow> fm_gzip fmt)"

text \<open>The reader as a call leaves it: the flags are the call's own.\<close>

definition push_calm :: "'f push \<Rightarrow> 'f push" where
  "push_calm s = s\<lparr>in_exhausted := False, in_sink := (in_sink s)\<lparr>ws_full := False\<rparr>\<rparr>"

lemma fmt_at_full [simp]: "fmt_at fed (o1\<lparr>ws_full := b\<rparr>) h = fmt_at fed o1 h" "push_flushed st (o1\<lparr>ws_full := b\<rparr>) = push_flushed st o1"
  by (simp_all add: fmt_at_def push_flushed_def)

lemma ahead_ok: "ahead ext s t \<Longrightarrow> in_ok s \<and> in_ok t"
  by (simp add: ahead_def)

lemma ahead_left:
  assumes "in_ok u" and "in_bits u = in_bits s" and "ahead ext s t"
  shows "ahead ext u t"
  using assms by (simp add: ahead_def)

lemma push_turn_step:
  assumes "st \<noteq> PDone" and "\<not> (push_waits st \<and> ws_left (in_sink s) = 0)" and "\<not> (st = PNext \<and> fm_gzip fmt)"
    and "push_step fmt st s c = ((s1, c1), r)"
  shows "push_turn fmt st s c =
     (if ws_full (in_sink s1) then ((push_back s s1, c1), Inr None)
      else if in_exhausted s1 then ((push_reload ((push_back s s1)\<lparr>in_exhausted := False\<rparr>), c1), Inr None)
      else ((s1, c1), map_sum id Some r))"
  using assms by (auto simp: push_turn_def)

text \<open>A step never writes past the slice.\<close>

definition ws_within :: "'f windowed \<Rightarrow> 'f windowed \<Rightarrow> bool" where
  "ws_within o1 o2 \<longleftrightarrow> ws_room o2 = ws_room o1 \<and> (length (ws_out o1) \<le> ws_room o1 \<longrightarrow> length (ws_out o2) \<le> ws_room o2)"

lemma ws_within_refl [simp]: "ws_within o1 o1"
  by (simp add: ws_within_def)

lemma ws_within_trans: "ws_within o1 o2 \<Longrightarrow> ws_within o2 o3 \<Longrightarrow> ws_within o1 o3"
  by (auto simp: ws_within_def)

lemma ws_within_simps [simp]:
  "ws_within o1 (o1\<lparr>ws_format := f\<rparr>)" "ws_within o1 (o1\<lparr>ws_full := b\<rparr>)" "ws_within o1 (ws_flush fmt o1)"
  by (simp_all add: ws_within_def ws_flush_def)

lemma ws_within_put: "ws_put o1 b = (o2, r) \<Longrightarrow> ws_within o1 o2"
  by (auto simp: ws_put_def ws_within_def ws_push_def ws_left_def split: if_splits)

lemma ws_within_copy: "n \<le> ws_left o1 \<Longrightarrow> ws_within o1 (ws_copy_loop dist n o1)"
  by (auto simp: ws_within_def ws_copy_loop_out ws_left_def)

lemma inf_length_ws: "inf_length ws_ops h s = (s', r) \<Longrightarrow> ws_within (in_sink s) (in_sink s')"
  by (auto simp: inf_length_def Let_def on_sink_def ws_ops_def dest!: andthen_cases inf_decode_sink
      dest!: inf_bits_sink ws_within_put split: if_splits prod.splits)

lemma stored_byte_ws: "stored_byte ws_ops s = (s', r) \<Longrightarrow> ws_within (in_sink s) (in_sink s')"
  by (auto simp: stored_byte_def on_sink_def ws_ops_def dest!: andthen_cases inf_bits_sink ws_within_put split: if_splits prod.splits)

lemma push_block_end_ws: "push_block_end fmt s c = ((s1, c1), r) \<Longrightarrow> ws_within (in_sink s) (in_sink s1)"
  by (auto simp: push_block_end_def Let_def split: if_splits)

lemma push_step_ws:
  assumes "push_step fmt st s c = ((s1, c1), r)"
  shows "ws_within (in_sink s) (in_sink s1)"
proof (cases st)
  case PLength
  with assms show ?thesis
    by (auto simp: push_step_def push_length_def dest: inf_length_ws push_block_end_ws intro: ws_within_trans
        split: if_splits prod.splits sum.splits inf_symbol.splits)
next
  case (PStored n)
  with assms show ?thesis
    by (auto simp: push_step_def with_context_def dest!: andthen_cases dest: stored_byte_ws push_block_end_ws
        split: if_splits prod.splits)
next
  case (PCopy dist len)
  with assms show ?thesis by (auto simp: push_copy_step Let_def intro!: ws_within_copy split: sum.splits)
next
  case (PSkip n flags)
  with assms show ?thesis
    by (cases "inf_bits 8 s") (auto simp: push_step_def dest!: inf_bits_sink split: if_splits)
qed (use assms in \<open>auto simp: push_step_def push_start_def push_member_def push_fields_def push_block_def
    push_code_lengths_def push_lengths_def push_verify_def with_context_def Let_def
    dest!: andthen_cases inf_bits_sink inf_distance_sink stored_len_sink dynamic_head_sink code_lengths_sink inf_word_sink
    split: if_splits prod.splits sum.splits\<close>)

lemma push_calm_simps [simp]:
  "in_input (push_calm s) = in_input s" "ws_out (in_sink (push_calm s)) = ws_out (in_sink s)"
  "ws_left (in_sink (push_calm s)) = ws_left (in_sink s)" "in_bit_buf (push_calm s) = in_bit_buf s" "in_bit_cnt (push_calm s) = in_bit_cnt s"
  "ws_window (in_sink (push_calm s)) = ws_window (in_sink s)" "ws_format (in_sink (push_calm s)) = ws_format (in_sink s)"
  by (simp_all add: push_calm_def ws_left_def)

lemma push_calm_id: "\<not> in_exhausted s \<Longrightarrow> \<not> ws_full (in_sink s) \<Longrightarrow> push_calm s = s"
  by (simp add: push_calm_def)

lemma push_reload_suffix: "suffix (in_input (push_reload s)) (in_input s) \<and> in_sink (push_reload s) = in_sink s"
proof (induction s rule: push_reload.induct)
  case (1 s)
  then show ?case by (subst (1 2) push_reload.simps) (auto simp: suffix_Cons split: list.split)
qed

lemma stream_bits_next:
  assumes "ahead ext s t" and "in_bit_cnt s = 0" and "in_bit_cnt t = 0" and "in_input s = b # bs"
  shows "\<exists>bs'. in_input t = b # bs'"
proof -
  from assms have bits: "stream_bits (in_input t) = lsb_bits 8 b @ stream_bits bs @ ext" by (simp add: ahead_def in_bits_def)
  then obtain b' bs' where t: "in_input t = b' # bs'" by (cases "in_input t") (auto dest: arg_cong [where f = length])
  with bits have "lsb_bits 8 b' @ stream_bits bs' = lsb_bits 8 b @ stream_bits bs @ ext" by simp
  then have "lsb_bits 8 b' = lsb_bits 8 b" by (simp add: append_eq_append_conv)
  then have "b' = b" using stream_bits_inject [of "[b']" "[b]"] by simp
  with t show ?thesis by blast
qed

context container
begin

lemma push_rel_ideal: "push_rel fmt fed [] h st s c t c' \<Longrightarrow> ws_flushed (in_sink s) = length (ws_out (in_sink s)) \<Longrightarrow> ideal_rel fmt fed h st s c t c'"
  by (auto simp: push_rel_def ideal_rel_def fmt_at_def)

text \<open>A step that is taken: the ideal run takes it too.\<close>

lemma turn_taken:
  assumes rel: "push_rel fmt fed ext h st s c t c'" and "st \<noteq> PDone" and "\<not> (st = PNext \<and> fm_gzip fmt)"
    and "\<not> (\<exists>dist len. st = PCopy dist len)"
    and step: "push_step fmt st s c = ((s1, c1), r)" and "\<not> ws_full (in_sink s1)" and "\<not> in_exhausted s1"
  shows "r = Inl e \<Longrightarrow> snd (push_ideal fmt st t c') = Some e"
    and "r = Inr st' \<Longrightarrow> \<exists>h' d t1 c1'. push_rel fmt fed ext h' st' s1 c1 t1 c1'
      \<and> ws_out (in_sink s1) = ws_out (in_sink s) @ d \<and> push_ideal fmt st t c' = emit d (push_ideal fmt st' t1 c1')"
proof -
  obtain t1 c1' r' where t1: "push_step fmt st (push_afresh (push_need st) t) c' = ((t1, c1'), r')" by (metis prod.collapse)
  have facts: "ahead ext s t" "ws_window (in_sink s) = ws_window (in_sink t)" "\<not> ws_full (in_sink s)" "fmt_at fed (in_sink s) h"
    "ws_format (in_sink t) = fed h" "ctx_sim fmt st c c'" "push_place st (in_bit_cnt s)" "push_place st (in_bit_cnt t)"
    "push_flushed st (in_sink s)" using rel by (simp_all add: push_rel_def)
  have "sinks_at fed (ws_out (in_sink s)) [] h (in_sink s) (in_sink (push_afresh (push_need st) t))"
    using facts push_need_pos [OF assms(4)] by (auto simp: sinks_at_def fmt_at_def)
  then have "tracks (\<lambda>_. False) ext (sinks_by fed (ws_out (in_sink s)) []) (ctx_rel fmt)
      (regroup (push_step fmt st s c)) (regroup (push_step fmt st (push_afresh (push_need st) t) c'))"
    by (rule tracks_push_step [rotated]) (use facts assms(4) in auto)
  note tr = tracks_rel [OF this [unfolded step t1] assms(7,6)]
  have ideal: "push_ideal fmt st t c' = (case r' of Inl e \<Rightarrow> (ws_out (in_sink t1), Some e)
      | Inr st' \<Rightarrow> emit (ws_out (in_sink t1)) (push_ideal fmt st' (push_flush fmt t1) c1'))"
    using assms(2,3) tr(8) by (subst push_ideal.simps) (auto simp: t1)
  show "snd (push_ideal fmt st t c') = Some e" if "r = Inl e"
    using tr(6) [OF that] ideal by simp
  show "\<exists>h' d t1 c1'. push_rel fmt fed ext h' st' s1 c1 t1 c1'
      \<and> ws_out (in_sink s1) = ws_out (in_sink s) @ d \<and> push_ideal fmt st t c' = emit d (push_ideal fmt st' t1 c1')"
    if "r = Inr st'"
  proof -
    obtain h' where h': "fmt_at fed (in_sink s1) h'" "fmt_at fed (in_sink t1) h'" using tr(5) by blast
    obtain d where d: "ws_out (in_sink s1) = ws_out (in_sink s) @ d" "ws_out (in_sink t1) = d" using tr(3) by auto
    have r': "r' = Inr st'" and like: "ctx_like fmt st' c1 c1'" using tr(7) [OF that] by simp_all
    have cnt: "in_bit_cnt s \<le> 32" "in_bit_cnt t \<le> 32" using facts(1) by (simp_all add: ahead_def in_ok_def)
    have "ctx_sim fmt st' c1 c1'"
      using like push_step_ctx_ok [OF step] push_step_ctx_ok [OF t1] facts(6) by (simp add: ctx_sim_def)
    then have "push_rel fmt fed ext h' st' s1 c1 (push_flush fmt t1) c1'"
      using tr(1,2) h' conjunct2 [OF fmt_at_flush [OF h'(2)]] assms(6) push_step_flushed [OF step [unfolded that]] facts(7-9) cnt
        push_step_place [OF step [unfolded that]] push_step_place [OF t1 [unfolded r']] push_step_next [of fmt st s c s1 c1] step that
      by (auto simp: push_rel_def)
    with d ideal r' show ?thesis by auto
  qed
qed

text \<open>A copy that is cut short goes on where it was left.\<close>

lemma turn_copy:
  assumes rel: "push_rel fmt fed ext h (PCopy dist len) s c t c'"
    and step: "push_step fmt (PCopy dist len) s c = ((s1, c1), r)"
  shows "r = Inl e \<Longrightarrow> snd (push_ideal fmt (PCopy dist len) t c') = Some e"
    and "r = Inr st' \<Longrightarrow> \<exists>h' d t1 c1'. push_rel fmt fed ext h' st' s1 c1 t1 c1'
      \<and> ws_out (in_sink s1) = ws_out (in_sink s) @ d
      \<and> push_ideal fmt (PCopy dist len) t c' = emit d (push_ideal fmt st' t1 c1')"
    and "in_exhausted s1 = in_exhausted s" and "ws_full (in_sink s1) = ws_full (in_sink s)"
proof -
  have facts: "ahead ext s t" "ws_window (in_sink s) = ws_window (in_sink t)" "\<not> ws_full (in_sink s)" "fmt_at fed (in_sink s) h"
    "ws_format (in_sink t) = fed h" "ctx_sim fmt (PCopy dist len) c c'"
    using rel by (simp_all add: push_rel_def)
  have live: "\<not> in_exhausted t" using facts(1) by (simp add: ahead_def in_ok_def)
  show "in_exhausted s1 = in_exhausted s" and "ws_full (in_sink s1) = ws_full (in_sink s)"
    using step by (auto simp: push_copy_step Let_def split: sum.splits)
  show "snd (push_ideal fmt (PCopy dist len) t c') = Some e" if "r = Inl e"
    using step that facts(2) live by (auto simp: push_copy_step push_ideal_copy Let_def split: sum.splits)
  show "\<exists>h' d t1 c1'. push_rel fmt fed ext h' st' s1 c1 t1 c1'
      \<and> ws_out (in_sink s1) = ws_out (in_sink s) @ d
      \<and> push_ideal fmt (PCopy dist len) t c' = emit d (push_ideal fmt st' t1 c1')" if "r = Inr st'"
  proof -
    define n where "n = min len (ws_left (in_sink s))"
    define w where "w = ws_window (in_sink t)"
    define bs where "bs = fst (copied dist n w)"
    define w1 where "w1 = snd (copied dist n w)"
    define t1 where "t1 = push_flush fmt (t\<lparr>in_sink := (ws_new w1 (fed h) n)\<lparr>ws_out := bs\<rparr>\<rparr>)"
    from step that have chk: "window_check_dist w dist = Inr ()" and c1: "c1 = c"
      and st': "st' = (if len - n = 0 then PLength else PCopy dist (len - n))"
      and s1: "s1 = s\<lparr>in_sink := ws_copy_loop dist n (in_sink s)\<rparr>"
      using facts(2) by (auto simp: push_copy_step n_def w_def Let_def split: sum.splits)
    have fmt1: "fmt_at fed (in_sink s1) (h @ bs)"
      using facts(2,4) by (auto simp: s1 ws_copy_loop_copied fmt_at_def bs_def w_def)
    have up: "fm_update fmt (fed h) x = fed (h @ x)" for x by (rule fed_update)
    have ctx: "ctx_sim fmt st' c c'"
      using ctx_sim_next(3,4) [OF facts(6)] by (simp add: st')
    have rel1: "push_rel fmt fed ext (h @ bs) st' s1 c1 t1 c'"
      using facts(1,2,3) fmt1 ctx up
      by (auto simp: push_rel_def t1_def s1 ws_copy_loop_copied push_flush_def ws_flush_def w1_def w_def c1 st' push_place_def push_flushed_def)
    have out: "ws_out (in_sink s1) = ws_out (in_sink s) @ bs"
      using facts(2) by (simp add: s1 ws_copy_loop_copied bs_def w_def)
    have "push_ideal fmt (PCopy dist len) t c' = emit bs (push_ideal fmt st' t1 c')"
    proof (cases "len - n = 0")
      case True
      then have "n = len" by (simp add: n_def)
      with True live chk show ?thesis
        by (simp add: push_ideal_copy st' t1_def bs_def w1_def w_def facts(5) split: prod.split)
    next
      case False
      define m where "m = len - n"
      have len: "len = n + m" using False by (simp add: m_def n_def)
      define bs2 where "bs2 = fst (copied dist m w1)"
      define w2 where "w2 = snd (copied dist m w1)"
      have all: "copied dist len w = (bs @ bs2, w2)"
        by (simp add: len copied_add bs_def w1_def bs2_def w2_def)
      let ?a = "push_flush fmt (t\<lparr>in_sink := (ws_new w2 (fed h) len)\<lparr>ws_out := bs @ bs2\<rparr>\<rparr>)"
      let ?b = "push_flush fmt (t1\<lparr>in_sink := (ws_new w2 (fed (h @ bs)) m)\<lparr>ws_out := bs2\<rparr>\<rparr>)"
      have live1: "\<not> in_exhausted t1" using live by (simp add: t1_def push_flush_def)
      have sink1: "ws_window (in_sink t1) = w1" "ws_format (in_sink t1) = fed (h @ bs)"
        by (simp_all add: t1_def push_flush_def ws_flush_def up)
      have "window_check_dist w1 dist = Inr ()" unfolding w1_def by (rule check_dist_copied [OF chk])
      then have second: "push_ideal fmt (PCopy dist m) t1 c' = emit bs2 (push_ideal fmt PLength ?b c')"
        using live1 by (simp add: push_ideal_copy sink1 bs2_def w2_def split: prod.split)
      have "ideal_rel fmt fed (h @ bs @ bs2) PLength ?a c' ?b c'"
        using facts(1) up [of "bs @ bs2"] fed_update [of "h @ bs" bs2] ctx_sim_refl [of c' fmt PLength] ctx_sim_ok [OF facts(6)]
        by (auto simp: ideal_rel_def ws_flush_def push_place_def t1_def ahead_def in_ok_def in_bits_def push_flush_def)
      from ideal_cong [OF this] have "push_ideal fmt (PCopy dist len) t c' = emit (bs @ bs2) (push_ideal fmt PLength ?b c')"
        using live chk all by (simp add: push_ideal_copy w_def facts(5))
      with second False show ?thesis by (simp add: st' m_def)
    qed
    with rel1 out show ?thesis by blast
  qed
qed

text \<open>A void step, and a literal without room: the decoder is where it was.\<close>

lemma turn_void:
  assumes rel: "push_rel fmt fed ext h st s c t c'" and "st \<noteq> PDone" and "\<not> (st = PNext \<and> fm_gzip fmt)"
    and "\<not> (\<exists>dist len. st = PCopy dist len)"
    and step: "push_step fmt st s c = ((s1, c1), r)" and "in_exhausted s1"
    and u: "u = push_calm (push_reload ((push_back s s1)\<lparr>in_exhausted := False\<rparr>))"
  shows "\<exists>h' t1. push_rel fmt fed ext h' st u c1 t1 c' \<and> push_ideal fmt st t1 c' = push_ideal fmt st t c'"
    and "ws_out (in_sink u) = ws_out (in_sink s)" and "ws_left (in_sink u) = ws_left (in_sink s)" and "in_input u = []"
    and "ext = [] \<Longrightarrow> 0 < ws_left (in_sink s) \<Longrightarrow> push_ideal fmt st t c' = ([], Some UnexpectedEnd)"
proof -
  have facts: "ahead ext s t" "ws_window (in_sink s) = ws_window (in_sink t)" "\<not> ws_full (in_sink s)" "fmt_at fed (in_sink s) h"
    "ws_format (in_sink t) = fed h" "ctx_sim fmt st c c'" "push_place st (in_bit_cnt s)" "push_place st (in_bit_cnt t)"
    "push_flushed st (in_sink s)" using rel by (simp_all add: push_rel_def)
  have ok: "in_ok s" "\<not> in_exhausted s" using facts(1) by (simp_all add: ahead_def in_ok_def)
  have ctx_ok: "ctx_ok c" using ctx_sim_ok [OF facts(6)] by blast
  have next_: "st \<noteq> PNext" using rel assms(3) by (auto simp: push_rel_def)
  define v where "v = (push_back s s1)\<lparr>in_exhausted := False\<rparr>"
  have "inf_left s < 32"
    using push_step_within [OF ctx_ok facts(7), of fmt] ok(2) assms(6) by (auto simp: step intro: withinD)
  then have v: "in_ok v" "inf_left v < 32" "in_bits v = in_bits s" "in_bit_cnt v = in_bit_cnt s" "in_sink v = in_sink s1"
    using ok by (auto simp: v_def push_back_def in_ok_def inf_left_def in_bits_def)
  note r = push_reload_ok [OF v(1,2)]
  have sink1: "in_sink s1 = (if st = PMember then (in_sink s)\<lparr>ws_format := fm_init fmt\<rparr> else in_sink s)"
    by (rule push_step_void_sink [OF step assms(6) ok(2)])
  have usink: "in_sink u = in_sink s1"
    using r v(5) sink1 facts(3) by (simp add: u push_calm_def v_def [symmetric])
  have ubits: "in_ok u" "in_bits u = in_bits s" "in_input u = []" "push_place st (in_bit_cnt u)"
    using r v facts(7) next_
    by (auto simp: u push_calm_def v_def [symmetric] in_ok_def in_bits_def push_place_def split: push_state.splits)
  show "ws_out (in_sink u) = ws_out (in_sink s)" "ws_left (in_sink u) = ws_left (in_sink s)"
    by (simp_all add: usink sink1 ws_left_def)
  show "in_input u = []" by (rule ubits)
  have ctx1: "ctx_sim fmt st c1 c'" by (rule push_step_void [OF step assms(6) ok(2) facts(6)])
  show "\<exists>h' t1. push_rel fmt fed ext h' st u c1 t1 c' \<and> push_ideal fmt st t1 c' = push_ideal fmt st t c'"
  proof (cases "st = PMember")
    case True
    let ?t = "t\<lparr>in_sink := (in_sink t)\<lparr>ws_format := fm_init fmt\<rparr>\<rparr>"
    have "ahead ext u ?t" using ahead_left [OF ubits(1,2) facts(1)] by simp
    moreover have "fmt_at fed (in_sink u) []" "push_flushed st (in_sink u)"
      using facts(9) by (auto simp: usink sink1 True fmt_at_def push_flushed_def fed_init [symmetric])
    ultimately have "push_rel fmt fed ext [] st u c1 ?t c'"
      using facts ubits(4) ctx1 next_ by (simp add: push_rel_def usink sink1 True fed_init)
    with push_ideal_member [where s = t and c = c'] True show ?thesis by blast
  next
    case False
    have "push_rel fmt fed ext h st u c1 t c'"
      using ahead_left [OF ubits(1,2) facts(1)] facts ubits(4) ctx1 next_ by (simp add: push_rel_def usink sink1 False)
    then show ?thesis by blast
  qed
  show "push_ideal fmt st t c' = ([], Some UnexpectedEnd)" if e: "ext = []" and room: "0 < ws_left (in_sink s)"
  proof -
    obtain t1 c1' r' where t1: "push_step fmt st (push_afresh (push_need st) t) c' = ((t1, c1'), r')" by (metis prod.collapse)
    have "in_exhausted t1"
    proof (rule ccontr)
      assume live: "\<not> in_exhausted t1"
      have need: "push_need st = 1" by (rule push_need_pos [OF assms(4)])
      have "sinks_at fed [] (ws_out (in_sink s)) h (in_sink (push_afresh (push_need st) t)) (in_sink s)"
        using facts room need by (auto simp: sinks_at_def fmt_at_def)
      moreover have "ahead [] (push_afresh (push_need st) t) s" using facts(1) e by (simp add: ahead_sym)
      ultimately have "tracks (\<lambda>_. False) [] (sinks_by fed [] (ws_out (in_sink s))) (ctx_rel fmt)
          (regroup (push_step fmt st (push_afresh (push_need st) t) c')) (regroup (push_step fmt st s c))"
        using assms(4) facts(9) ctx_sim_sym [OF facts(6)] by (intro tracks_push_step) auto
      moreover have "\<not> ws_full (in_sink t1)" using push_step_full [OF t1] need by auto
      ultimately have "\<not> in_exhausted s1" using tracks_rel(8) [OF _ live] unfolding t1 step by blast
      with assms(6) show False by blast
    qed
    with assms(2) next_ show ?thesis by (subst push_ideal.simps) (simp add: t1)
  qed
qed

text \<open>A turn of the loop, all cases.\<close>

definition push_stuck :: "bool list \<Rightarrow> push_state \<Rightarrow> 'f push \<Rightarrow> outcome \<Rightarrow> bool" where
  "push_stuck ext st s rest \<longleftrightarrow> st = PDone \<or> ws_left (in_sink s) = 0
     \<or> in_input s = [] \<and> (st = PNext \<or> (ext = [] \<longrightarrow> rest = ([], Some UnexpectedEnd)))"

lemma turn_sim:
  assumes rel: "push_rel fmt fed ext h st s c t c'" and turn: "push_turn fmt st s c = ((s1, c1), x)"
  shows "x = Inl e \<Longrightarrow> snd (push_ideal fmt st t c') = Some e"
    and "x = Inr (Some st') \<Longrightarrow> \<exists>h' d t1 c1'. push_rel fmt fed ext h' st' s1 c1 t1 c1'
      \<and> ws_out (in_sink s1) = ws_out (in_sink s) @ d \<and> push_ideal fmt st t c' = emit d (push_ideal fmt st' t1 c1')"
    and "x = Inr None \<Longrightarrow> \<exists>h' t1. push_rel fmt fed ext h' st (push_calm s1) c1 t1 c' \<and> ws_out (in_sink s1) = ws_out (in_sink s)
      \<and> push_ideal fmt st t c' = push_ideal fmt st t1 c' \<and> push_stuck ext st s1 (push_ideal fmt st t1 c')"
    and "suffix (in_input s1) (in_input s)" and "ws_within (in_sink s) (in_sink s1)"
proof -
  have live: "\<not> in_exhausted s" "\<not> ws_full (in_sink s)" using rel by (simp_all add: push_rel_def ahead_def in_ok_def)
  have calm: "push_calm s = s" by (rule push_calm_id [OF live])
  let ?E = "\<forall>e. x = Inl e \<longrightarrow> snd (push_ideal fmt st t c') = Some e"
  let ?S = "\<forall>st'. x = Inr (Some st') \<longrightarrow> (\<exists>h' d t1 c1'. push_rel fmt fed ext h' st' s1 c1 t1 c1'
      \<and> ws_out (in_sink s1) = ws_out (in_sink s) @ d \<and> push_ideal fmt st t c' = emit d (push_ideal fmt st' t1 c1'))"
  let ?N = "x = Inr None \<longrightarrow> (\<exists>h' t1. push_rel fmt fed ext h' st (push_calm s1) c1 t1 c' \<and> ws_out (in_sink s1) = ws_out (in_sink s)
      \<and> push_ideal fmt st t c' = push_ideal fmt st t1 c' \<and> push_stuck ext st s1 (push_ideal fmt st t1 c'))"
  let ?F = "suffix (in_input s1) (in_input s) \<and> ws_within (in_sink s) (in_sink s1)"
  have "?E \<and> ?S \<and> ?N \<and> ?F"
  proof (cases "st = PDone \<or> push_waits st \<and> ws_left (in_sink s) = 0")
    case True
    then have "push_turn fmt st s c = ((s, c), Inr None)" by (auto simp: push_turn_def)
    with turn have "s1 = s" "c1 = c" "x = Inr None" by simp_all
    with True rel calm show ?thesis by (auto simp: push_stuck_def)
  next
    case go: False
    show ?thesis
    proof (cases "st = PNext \<and> fm_gzip fmt")
      case True
      then have st: "st = PNext" by simp
      have cnt: "ahead ext s t" "in_bit_cnt s = 0" "in_bit_cnt t = 0" using rel by (simp_all add: push_rel_def push_place_def st)
      show ?thesis
      proof (cases "in_input s")
        case Nil
        with turn go True have "s1 = s" "c1 = c" "x = Inr None" by (auto simp: push_turn_def)
        with Nil rel calm show ?thesis by (auto simp: push_stuck_def st)
      next
        case (Cons b bs)
        let ?st = "if b = 0x1f then PMember else PDone"
        from turn go True Cons have r: "s1 = s" "c1 = c" "x = Inr (Some ?st)" by (auto simp: push_turn_def)
        obtain bs' where "in_input t = b # bs'" using stream_bits_next [OF cnt Cons] by blast
        then have a: "push_ideal fmt st t c' = push_ideal fmt ?st t c'"
          by (subst push_ideal.simps) (use True in simp)
        have b: "push_rel fmt fed ext h ?st s c t c'"
          using rel ctx_sim_next(1,2) unfolding st by (auto simp: push_rel_def push_place_def push_flushed_def)
        have "\<exists>h' d t1 c1'. push_rel fmt fed ext h' ?st s c t1 c1' \<and> ws_out (in_sink s) = ws_out (in_sink s) @ d
            \<and> push_ideal fmt st t c' = emit d (push_ideal fmt ?st t1 c1')"
          by (rule exI [of _ h], rule exI [of _ "[]"], rule exI [of _ t], rule exI [of _ c']) (use a b in simp)
        then show ?thesis unfolding r by simp
      qed
    next
      case run: False
      obtain s2 c2 r where step: "push_step fmt st s c = ((s2, c2), r)" by (metis prod.collapse)
      have frame: "keeps s s2" "ws_within (in_sink s) (in_sink s2)"
        using push_step_within [of c st s fmt] push_step_ws [OF step] ctx_sim_ok [of fmt st c c'] rel
        by (simp_all add: push_rel_def within_def step)
      note eq = push_turn_step [OF _ _ run step]
      show ?thesis
      proof (cases "ws_full (in_sink s2)")
        case True
        from push_step_full [OF step True live(2)]
        have f: "in_sink s2 = (in_sink s)\<lparr>ws_full := True\<rparr>" "ws_left (in_sink s) = 0" "c2 = c" by simp_all
        from eq go True turn have r: "s1 = push_back s s2" "c1 = c2" "x = Inr None" by auto
        have "push_calm s1 = s" using f live by (simp add: r push_calm_def push_back_def)
        with rel f show ?thesis
          by (auto simp: r push_stuck_def push_back_def ws_left_def)
      next
        case notfull: False
        show ?thesis
        proof (cases "in_exhausted s2")
          case True
          have nocopy: "\<not> (\<exists>dist len. st = PCopy dist len)"
            using True step live by (auto simp: push_copy_step Let_def split: sum.splits)
          from eq go True notfull turn
          have r: "s1 = push_reload ((push_back s s2)\<lparr>in_exhausted := False\<rparr>)" "c1 = c2" "x = Inr None" by auto
          note void = turn_void [OF rel _ run nocopy step True refl]
          have sinks: "in_sink s1 = in_sink s2" "suffix (in_input s1) (in_input s)"
            using push_reload_suffix [of "(push_back s s2)\<lparr>in_exhausted := False\<rparr>"] by (simp_all add: r push_back_def)
          from void(1) go obtain h' t1 where t1: "push_rel fmt fed ext h' st (push_calm s1) c1 t1 c'"
            "push_ideal fmt st t1 c' = push_ideal fmt st t c'" unfolding r by blast
          have stuck: "push_stuck ext st s1 (push_ideal fmt st t1 c')"
            using void(3-5) go t1(2) by (auto simp: push_stuck_def r)
          have out: "ws_out (in_sink s1) = ws_out (in_sink s)" using void(2) go by (simp add: r)
          have ?N
            by (rule impI, rule exI [of _ h'], rule exI [of _ t1]) (simp only: t1 out stuck [unfolded t1(2)] simp_thms)
          then show ?thesis using frame(2) sinks by (simp add: r(3))
        next
          case False
          from eq go notfull False turn have r: "s1 = s2" "c1 = c2" "x = map_sum id Some r" by auto
          have sfx: "?F" using frame by (simp add: r keeps_def)
          show ?thesis
          proof (cases "\<exists>dist len. st = PCopy dist len")
            case True
            then obtain dist len where st: "st = PCopy dist len" by blast
            note copy = turn_copy [OF rel [unfolded st] step [unfolded st]]
            show ?thesis using copy(1,2) sfx unfolding r st by (cases r) auto
          next
            case nocopy: False
            note taken = turn_taken [OF rel _ run nocopy step notfull False]
            show ?thesis using taken go sfx unfolding r by (cases r) auto
          qed
        qed
      qed
    qed
  qed
  then show "x = Inl e \<Longrightarrow> snd (push_ideal fmt st t c') = Some e"
    and "x = Inr (Some st') \<Longrightarrow> \<exists>h' d t1 c1'. push_rel fmt fed ext h' st' s1 c1 t1 c1'
      \<and> ws_out (in_sink s1) = ws_out (in_sink s) @ d \<and> push_ideal fmt st t c' = emit d (push_ideal fmt st' t1 c1')"
    and "x = Inr None \<Longrightarrow> \<exists>h' t1. push_rel fmt fed ext h' st (push_calm s1) c1 t1 c' \<and> ws_out (in_sink s1) = ws_out (in_sink s)
      \<and> push_ideal fmt st t c' = push_ideal fmt st t1 c' \<and> push_stuck ext st s1 (push_ideal fmt st t1 c')"
    and "suffix (in_input s1) (in_input s)" and "ws_within (in_sink s) (in_sink s1)"
    by blast+
qed

text \<open>The loop: what it produced, then what the ideal run of what is left produces.\<close>

lemma loop_sim:
  assumes "push_rel fmt fed ext h st s c t c'" and "push_loop fmt st s c = ((st1, s1, c1), r)"
  shows "(\<forall>e. r = Inl e \<longrightarrow> snd (push_ideal fmt st t c') = Some e)
    \<and> (r = Inr () \<longrightarrow> (\<exists>h' t1 c1' d. push_rel fmt fed ext h' st1 (push_calm s1) c1 t1 c1'
        \<and> ws_out (in_sink s1) = ws_out (in_sink s) @ d \<and> push_ideal fmt st t c' = emit d (push_ideal fmt st1 t1 c1')
        \<and> push_stuck ext st1 s1 (push_ideal fmt st1 t1 c1')))
    \<and> suffix (in_input s1) (in_input s) \<and> ws_within (in_sink s) (in_sink s1)"
  using assms
proof (induction fm \<equiv> fmt st s c arbitrary: h t c' rule: push_loop.induct)
  case (1 st s c)
  obtain s2 c2 x where turn: "push_turn fmt st s c = ((s2, c2), x)" by (metis prod.collapse)
  note sim = turn_sim [OF "1.prems"(1) turn]
  consider (err) e where "x = Inl e" | (stop) "x = Inr None" | (go) st' where "x = Inr (Some st')" by (metis option.exhaust sum.exhaust)
  then show ?case
  proof cases
    case err
    with "1.prems"(2) turn have "r = Inl e" "s1 = s2" by (subst (asm) push_loop.simps; simp)+
    with sim err show ?thesis by simp
  next
    case stop
    with "1.prems"(2) turn have r: "r = Inr ()" "s1 = s2" "c1 = c2" "st1 = st" by (subst (asm) push_loop.simps; simp)+
    from sim(3) [OF stop] obtain h' t1 where "push_rel fmt fed ext h' st (push_calm s2) c2 t1 c'" "ws_out (in_sink s2) = ws_out (in_sink s)"
      "push_ideal fmt st t c' = push_ideal fmt st t1 c'" "push_stuck ext st s2 (push_ideal fmt st t1 c')" by blast
    then have "\<exists>h' t1 c1' d. push_rel fmt fed ext h' st (push_calm s2) c2 t1 c1'
        \<and> ws_out (in_sink s2) = ws_out (in_sink s) @ d \<and> push_ideal fmt st t c' = emit d (push_ideal fmt st t1 c1')
        \<and> push_stuck ext st s2 (push_ideal fmt st t1 c1')"
      by (metis append_Nil2 emit_simps(1))
    with sim(4,5) show ?thesis by (simp add: r)
  next
    case go
    from sim(2) [OF go] obtain h' d t1 c1' where rel: "push_rel fmt fed ext h' st' s2 c2 t1 c1'"
      and d: "ws_out (in_sink s2) = ws_out (in_sink s) @ d" "push_ideal fmt st t c' = emit d (push_ideal fmt st' t1 c1')" by blast
    have "push_loop fmt st' s2 c2 = ((st1, s1, c1), r)"
      using "1.prems"(2) turn go by (subst (asm) push_loop.simps) simp
    from "1.hyps" [OF turn [symmetric] refl go refl rel this] sim(4,5) d
    show ?thesis by (auto intro: suffix_order.trans ws_within_trans) (metis append.assoc emit_simps(2))
  qed
qed

end

end
