(* ===== verification/EmbedPushContract.thy ===== *)
theory EmbedPushContract
  imports EmbedPushTurn Codec
begin

text \<open>
  The push decoder keeps its trait's contract: however the input and the output are cut into
  calls, what comes out is what \<open>push_ideal\<close> says the stream decodes to.
\<close>

section \<open>The contract\<close>

definition push_reader :: "'f push_decoder \<Rightarrow> byte list \<Rightarrow> nat \<Rightarrow> 'f push" where
  "push_reader d input room =
     \<lparr>in_input = input, in_sink = ws_new (pd_window d) (pd_format d) room, in_bit_buf = pd_bit_buf d,
      in_bit_cnt = pd_bit_cnt d, in_exhausted = False\<rparr>"

definition push_valid :: "'f format_ops \<Rightarrow> (byte list \<Rightarrow> 'f) \<Rightarrow> 'f push_decoder \<Rightarrow> bool" where
  "push_valid fmt fed d \<longleftrightarrow> ctx_ok (pd_context d)
     \<and> (pd_poisoned d
        \<or> in_ok (push_reader d [] 0) \<and> (\<exists>h. pd_format d = fed h)
          \<and> push_place (pd_state d) (pd_bit_cnt d) \<and> (pd_state d = PNext \<longrightarrow> fm_gzip fmt))"

text \<open>What the bytes \<open>input\<close>, then the end of the stream, decode to from a decoder's state.\<close>

definition push_yields :: "'f format_ops \<Rightarrow> 'f push_decoder \<Rightarrow> byte list \<Rightarrow> outcome" where
  "push_yields fmt d input =
     (if pd_poisoned d then ([], Some Corrupt)
      else push_ideal fmt (pd_state d) (push_reader d input 0) (pd_context d))"

text \<open>A caller that does not call \<open>finish\<close> with an empty slice.\<close>

definition push_finish_some :: "'f format_ops \<Rightarrow> 'f push_decoder \<Rightarrow> nat \<Rightarrow> 'f push_decoder raw_result" where
  "push_finish_some fmt d room = (if room = 0 then raw_ok d 0 [] False else push_finish fmt d room)"

lemma push_reader_simps [simp]:
  "in_input (push_reader d xs n) = xs" "in_sink (push_reader d xs n) = ws_new (pd_window d) (pd_format d) n"
  "in_bit_buf (push_reader d xs n) = pd_bit_buf d" "in_bit_cnt (push_reader d xs n) = pd_bit_cnt d"
  "\<not> in_exhausted (push_reader d xs n)"
  by (simp_all add: push_reader_def)

lemma in_ok_reader: "in_ok (push_reader d xs n) = in_ok (push_reader d [] 0)"
  by (simp add: in_ok_def)

lemma in_bits_reader: "in_bits (push_reader d xs n) = lsb_bits (pd_bit_cnt d) (pd_bit_buf d) @ stream_bits xs"
  by (simp add: in_bits_def)

context container
begin

lemma reader_rel:
  assumes "push_valid fmt fed d" and "\<not> pd_poisoned d"
  shows "\<exists>h. push_rel fmt fed (stream_bits ys) h (pd_state d) (push_reader d xs n) (pd_context d)
    (push_reader d (xs @ ys) 0) (pd_context d)"
  using assms in_ok_reader [of d]
  by (auto simp: push_valid_def push_rel_def ahead_def in_bits_reader fmt_at_def ctx_sim_refl)

lemma loop_ctx_ok: "push_loop fm st s c = ((st1, s1, c1), r) \<Longrightarrow> ctx_ok c \<Longrightarrow> ctx_ok c1"
proof (induction fm st s c rule: push_loop.induct)
  case (1 fm st s c)
  obtain s2 c2 x where turn: "push_turn fm st s c = ((s2, c2), x)" by (metis prod.collapse)
  obtain s3 c3 q where step: "push_step fm st s c = ((s3, c3), q)" by (metis prod.collapse)
  have ok: "ctx_ok c2"
    using turn step push_step_ctx_ok [OF step "1.prems"(2)] "1.prems"(2)
    by (auto simp: push_turn_def split: if_splits list.splits)
  consider (err) e where "x = Inl e" | (stop) "x = Inr None" | (go) st' where "x = Inr (Some st')" by (metis option.exhaust sum.exhaust)
  then show ?case
  proof cases
    case go
    have "push_loop fm st' s2 c2 = ((st1, s1, c1), r)"
      using "1.prems"(1) turn go by (subst (asm) push_loop.simps) simp
    from "1.IH" [OF turn [symmetric] refl go refl this ok] show ?thesis .
  qed (use "1.prems"(1) turn ok in \<open>subst (asm) push_loop.simps; simp\<close>)+
qed

text \<open>A call that succeeds.\<close>

lemma run_sim:
  assumes "push_valid fmt fed d" and "\<not> pd_poisoned d" and "push_run fmt d xs n = (d1, r)"
  shows "r = Inl e \<Longrightarrow> snd (push_yields fmt d (xs @ ys)) = Some e"
    and "r = Inr (k, out) \<Longrightarrow> push_valid fmt fed d1 \<and> \<not> pd_poisoned d1 \<and> k \<le> length xs \<and> length out \<le> n
      \<and> push_yields fmt d (xs @ ys) = emit out (push_yields fmt d1 (drop k xs @ ys))
      \<and> (pd_state d1 = PDone \<or> length out = n \<or> k = length xs)"
    and "r = Inr (k, out) \<Longrightarrow> xs = [] \<Longrightarrow> pd_state d1 = PDone \<or> pd_state d1 = PNext \<or> length out = n
      \<or> push_yields fmt d1 [] = ([], Some UnexpectedEnd)"
proof -
  obtain st s c res where loop: "push_loop fmt (pd_state d) (push_reader d xs n) (pd_context d) = ((st, s, c), res)"
    by (metis prod.collapse)
  note run = assms(3) [unfolded push_run_def, folded push_reader_def, unfolded loop prod.case Let_def]
  have sim: "(\<forall>e. res = Inl e \<longrightarrow> snd (push_yields fmt d (xs @ ys)) = Some e)
    \<and> (res = Inr () \<longrightarrow> (\<exists>h t1 c1. push_rel fmt fed (stream_bits ys) h st (push_calm s) c t1 c1
        \<and> push_yields fmt d (xs @ ys) = emit (ws_out (in_sink s)) (push_ideal fmt st t1 c1)
        \<and> push_stuck (stream_bits ys) st s (push_ideal fmt st t1 c1)))
    \<and> suffix (in_input s) xs \<and> ws_room (in_sink s) = n \<and> length (ws_out (in_sink s)) \<le> n" for ys
  proof -
    obtain h where "push_rel fmt fed (stream_bits ys) h (pd_state d) (push_reader d xs n) (pd_context d)
        (push_reader d (xs @ ys) 0) (pd_context d)" using reader_rel [OF assms(1,2)] by blast
    from loop_sim [OF this loop] assms(2) show ?thesis by (auto simp: push_yields_def ws_within_def)
  qed
  show "snd (push_yields fmt d (xs @ ys)) = Some e" if "r = Inl e"
    using run sim [of ys] that by (cases res) auto
  define d' where "d' = d\<lparr>pd_window := ws_window (in_sink s), pd_context := c, pd_format := ws_format (ws_flush fmt (in_sink s)),
    pd_state := st, pd_bit_buf := in_bit_buf s, pd_bit_cnt := in_bit_cnt s\<rparr>"
  have ctx: "ctx_ok c" using loop_ctx_ok [OF loop] assms(1) by (simp add: push_valid_def)
  have ok: "res = Inr ()" "d1 = d'" "k = length xs - length (in_input s)" "out = ws_out (in_sink s)" if "r = Inr (k, out)" for k out
    using run that by (cases res; simp add: d'_def)+
  have main: "push_valid fmt fed d' \<and> push_yields fmt d (xs @ zs) = emit (ws_out (in_sink s)) (push_yields fmt d' (in_input s @ zs))
      \<and> push_stuck (stream_bits zs) st s (push_yields fmt d' (in_input s @ zs))" if res: "res = Inr ()" for zs
  proof -
    obtain h t1 c1 where rel: "push_rel fmt fed (stream_bits zs) h st (push_calm s) c t1 c1"
      and y: "push_yields fmt d (xs @ zs) = emit (ws_out (in_sink s)) (push_ideal fmt st t1 c1)"
      and stuck: "push_stuck (stream_bits zs) st s (push_ideal fmt st t1 c1)" using sim [of zs] res by blast
    have fmt1: "ws_format (ws_flush fmt (in_sink s)) = fed h"
      using rel fmt_at_flush [of "in_sink (push_calm s)" h] by (auto simp: push_rel_def push_calm_def ws_flush_def)
    have bits: "in_ok (push_calm s)" "in_bits (push_calm s) = lsb_bits (in_bit_cnt s) (in_bit_buf s) @ stream_bits (in_input s)"
      "in_bits t1 = in_bits (push_calm s) @ stream_bits zs" "in_ok t1"
      using rel by (auto simp: push_rel_def ahead_def in_bits_def push_calm_def)
    have valid: "push_valid fmt fed d'"
      using rel bits(1) fmt1 ctx
      by (auto simp: push_valid_def d'_def push_rel_def in_ok_def)
    have "ideal_rel fmt fed h st (push_reader d' (in_input s @ zs) 0) c t1 c1"
      using rel bits fmt1 by (auto simp: ideal_rel_def push_rel_def ahead_def in_bits_reader d'_def in_ok_def)
    from ideal_cong [OF this] have "push_yields fmt d' (in_input s @ zs) = push_ideal fmt st t1 c1"
      using assms(2) by (simp add: push_yields_def d'_def)
    with valid y stuck show ?thesis by simp
  qed
  have suf: "in_input s = drop (length xs - length (in_input s)) xs" using sim [of "[]"] by (auto simp: suffix_def)
  show "push_valid fmt fed d1 \<and> \<not> pd_poisoned d1 \<and> k \<le> length xs \<and> length out \<le> n
      \<and> push_yields fmt d (xs @ ys) = emit out (push_yields fmt d1 (drop k xs @ ys))
      \<and> (pd_state d1 = PDone \<or> length out = n \<or> k = length xs)" if r: "r = Inr (k, out)"
  proof -
    note o = ok [OF r]
    have "pd_state d' = PDone \<or> length (ws_out (in_sink s)) = n \<or> length xs - length (in_input s) = length xs"
      using main [OF o(1), of ys] sim [of ys] by (auto simp: push_stuck_def d'_def ws_left_def)
    with main [OF o(1), of ys] sim [of ys] suf assms(2) show ?thesis by (simp add: o d'_def)
  qed
  show "pd_state d1 = PDone \<or> pd_state d1 = PNext \<or> length out = n \<or> push_yields fmt d1 [] = ([], Some UnexpectedEnd)"
    if r: "r = Inr (k, out)" and "xs = []"
  proof -
    note o = ok [OF r]
    have "in_input s = []" using sim [of "[]"] \<open>xs = []\<close> by simp
    with main [OF o(1), of "[]"] sim [of "[]"] show ?thesis by (auto simp: o push_stuck_def d'_def ws_left_def)
  qed
qed

lemma push_yields_done: "pd_state d = PDone \<Longrightarrow> \<not> pd_poisoned d \<Longrightarrow> push_yields fmt d zs = ([], None)"
  by (simp add: push_yields_def) (subst push_ideal.simps, simp)

lemma push_yields_next: "pd_state d = PNext \<Longrightarrow> fm_gzip fmt \<Longrightarrow> \<not> pd_poisoned d \<Longrightarrow> push_yields fmt d [] = ([], None)"
  by (simp add: push_yields_def) (subst push_ideal.simps, simp)

lemma push_decode_law:
  assumes "push_valid fmt fed d"
  shows "decode_law (push_valid fmt fed) (push_yields fmt) d xs ys n (push_decode fmt d xs n)"
proof (cases "pd_poisoned d")
  case True
  then show ?thesis by (simp add: decode_law_def push_decode_def push_yields_def)
next
  case False
  obtain d1 r where run: "push_run fmt d xs n = (d1, r)" by fastforce
  note sim = run_sim [OF assms False run]
  show ?thesis
  proof (cases r)
    case (Inl e)
    with sim(1) [OF Inl, of ys] False run show ?thesis by (simp add: decode_law_def push_decode_def)
  next
    case (Inr p)
    obtain k out where p: "p = (k, out)" by fastforce
    note sim2 = sim(2) [OF Inr [unfolded p], of ys]
    have "push_decode fmt d xs n = raw_ok d1 k out (pd_state d1 = PDone)"
      using False run Inr p by (simp add: push_decode_def)
    with sim2 show ?thesis
      unfolding decode_law_def using push_yields_done [of d1]
      by (intro disjI2 exI [of _ d1] exI [of _ k] exI [of _ out] exI [of _ "pd_state d1 = PDone"]) auto
  qed
qed

lemma push_drain_law:
  assumes "push_valid fmt fed d"
  shows "drain_law (push_valid fmt fed) (push_yields fmt) d n (push_finish_some fmt d n)"
proof (cases "n = 0 \<or> pd_poisoned d")
  case True
  then show ?thesis
  proof
    assume "n = 0"
    with assms show ?thesis by (auto simp: drain_law_def push_finish_some_def)
  next
    assume p: "pd_poisoned d"
    show ?thesis
    proof (cases "n = 0")
      case True
      with assms show ?thesis by (auto simp: drain_law_def push_finish_some_def)
    next
      case False
      with p show ?thesis by (simp add: drain_law_def push_finish_some_def push_finish_def push_decode_def push_yields_def)
    qed
  qed
next
  case False
  then have n: "n \<noteq> 0" and live: "\<not> pd_poisoned d" by simp_all
  obtain d1 r where run: "push_run fmt d [] n = (d1, r)" by fastforce
  note sim = run_sim [OF assms live run, of _ "[]"]
  show ?thesis
  proof (cases r)
    case (Inl e)
    with sim(1) [OF Inl] n live run show ?thesis
      by (simp add: drain_law_def push_finish_some_def push_finish_def push_decode_def)
  next
    case (Inr p)
    obtain k out where p: "p = (k, out)" by fastforce
    note sim2 = run_sim(2) [OF assms live run Inr [unfolded p], of "[]", simplified]
    note sim3 = run_sim(3) [OF assms live run Inr [unfolded p] refl]
    have dec: "push_decode fmt d [] n = raw_ok d1 0 out (pd_state d1 = PDone)"
      using live run Inr p sim2 by (simp add: push_decode_def)
    show ?thesis
    proof (cases "pd_state d1 = PDone \<or> pd_state d1 = PNext")
      case True
      have "push_yields fmt d1 [] = ([], None)"
        using True sim2 push_yields_done [of d1] push_yields_next [of d1] by (auto simp: push_valid_def)
      moreover have "push_valid fmt fed (d1\<lparr>pd_state := PDone\<rparr>)"
        using sim2 by (auto simp: push_valid_def push_place_def in_ok_def)
      moreover have "push_yields fmt (d1\<lparr>pd_state := PDone\<rparr>) [] = ([], None)"
        using sim2 by (intro push_yields_done) simp_all
      moreover have "push_finish fmt d n = raw_ok (d1\<lparr>pd_state := PDone\<rparr>) 0 out True"
        using dec True by (simp add: push_finish_def)
      ultimately show ?thesis using n sim2
        unfolding drain_law_def by (intro disjI2 exI [of _ "d1\<lparr>pd_state := PDone\<rparr>"] exI [of _ out] exI [of _ True]) (simp add: push_finish_some_def)
    next
      case False
      show ?thesis
      proof (cases "length out = n")
        case True
        then have "push_finish fmt d n = raw_ok d1 0 out False"
          using dec False n by (simp add: push_finish_def)
        with True n sim2 show ?thesis
          unfolding drain_law_def by (intro disjI2 exI [of _ d1] exI [of _ out] exI [of _ False]) (simp add: push_finish_some_def)
      next
        case short: False
        then have "push_finish fmt d n = (push_poison d1, Inl UnexpectedEnd)"
          using dec False n by (simp add: push_finish_def)
        moreover have "snd (push_yields fmt d []) = Some UnexpectedEnd"
          using sim2 sim3 False short by simp
        ultimately show ?thesis using n by (simp add: drain_law_def push_finish_some_def)
      qed
    qed
  qed
qed

lemma push_contract:
  "decoder_contract (push_decode fmt) (push_finish_some fmt) (push_valid fmt fed) (push_valid fmt fed) (push_yields fmt)"
  by unfold_locales (auto intro: push_decode_law push_drain_law)

text \<open>Skipping: the same bytes, dropped.\<close>

lemma skip_loop_sim:
  assumes "push_valid fmt fed d" and "\<not> pd_poisoned d" and "written \<le> n" and "consumed \<le> length xs"
    and "push_skip_loop fmt d xs n consumed written = (d1, r)"
  shows "(\<forall>e. r = Inl e \<longrightarrow> pd_poisoned d1 \<and> snd (push_yields fmt d (drop consumed xs @ ys)) = Some e)
    \<and> (\<forall>c w. r = Inr (c, w) \<longrightarrow> push_valid fmt fed d1 \<and> \<not> pd_poisoned d1 \<and> c \<le> length xs \<and> w \<le> n
        \<and> (pd_state d1 = PDone \<or> w = n \<or> c = length xs)
        \<and> (\<exists>out. length out = w - written \<and> written \<le> w
            \<and> push_yields fmt d (drop consumed xs @ ys) = emit out (push_yields fmt d1 (drop c xs @ ys))))"
  using assms
proof (induction fm \<equiv> fmt d xs n consumed written rule: push_skip_loop.induct)
  case (1 d xs n consumed written)
  show ?case
  proof (cases "written < n")
    case False
    with "1.prems"(5) have "d1 = d" "r = Inr (consumed, written)" by (subst (asm) push_skip_loop.simps; simp)+
    with "1.prems" False show ?thesis by auto
  next
    case True
    define want where "want = min (n - written) 64"
    obtain d2 q where run: "push_run fmt d (drop consumed xs) want = (d2, q)" by fastforce
    note sim = run_sim [OF "1.prems"(1,2) run]
    have step: "push_skip_loop fmt d xs n consumed written =
      (case q of Inl e \<Rightarrow> (push_poison d2, Inl e)
       | Inr (k, out) \<Rightarrow> if length out < want then (d2, Inr (consumed + k, written + length out))
           else push_skip_loop fmt d2 xs n (consumed + k) (written + length out))"
      using True run by (subst push_skip_loop.simps) (simp add: want_def split: sum.split prod.split)
    show ?thesis
    proof (cases q)
      case (Inl e)
      with step "1.prems"(5) sim(1) [OF Inl, of ys] show ?thesis by (auto simp: push_poison_def)
    next
      case (Inr p)
      obtain k out where p: "p = (k, out)" by fastforce
      note s = sim(2) [OF Inr [unfolded p], of ys]
      have le: "written + length out \<le> n" using s True by (auto simp: want_def)
      have ck: "consumed + k \<le> length xs" using s "1.prems"(4) by auto
      show ?thesis
      proof (cases "length out < want")
        case True
        with step "1.prems"(5) Inr p have r: "d1 = d2" "r = Inr (consumed + k, written + length out)" by simp_all
        have "pd_state d2 = PDone \<or> consumed + k = length xs" using s True "1.prems"(4) by auto
        with s le ck r show ?thesis by (auto simp: add.commute)
      next
        case False
        have "push_skip_loop fmt d2 xs n (consumed + k) (written + length out) = (d1, r)"
          using step "1.prems"(5) Inr p False by simp
        moreover have v: "push_valid fmt fed d2" "\<not> pd_poisoned d2" using s by simp_all
        ultimately have loop: "push_skip_loop fmt d2 xs n (consumed + k) (written + length out) = (d1, r)" by simp
        note IH = "1.hyps" [OF \<open>written < n\<close> want_def run [symmetric] Inr p [symmetric] False v le ck loop]
        from s have y: "push_yields fmt d (drop consumed xs @ ys) = emit out (push_yields fmt d2 (drop (consumed + k) xs @ ys))"
          by (simp add: add.commute)
        show ?thesis
        proof (intro conjI allI impI)
          fix e assume "r = Inl e"
          with IH y show "pd_poisoned d1" "snd (push_yields fmt d (drop consumed xs @ ys)) = Some e" by simp_all
        next
          fix c w assume r: "r = Inr (c, w)"
          with IH show "push_valid fmt fed d1" "\<not> pd_poisoned d1" "c \<le> length xs" "w \<le> n" "pd_state d1 = PDone \<or> w = n \<or> c = length xs" by simp_all
          from IH r obtain o2 where o2: "length o2 = w - (written + length out)" "written + length out \<le> w"
            "push_yields fmt d2 (drop (consumed + k) xs @ ys) = emit o2 (push_yields fmt d1 (drop c xs @ ys))" by blast
          with y show "\<exists>out. length out = w - written \<and> written \<le> w
            \<and> push_yields fmt d (drop consumed xs @ ys) = emit out (push_yields fmt d1 (drop c xs @ ys))"
            by (intro exI [of _ "out @ o2"]) simp
        qed
      qed
    qed
  qed
qed

text \<open>The invariant, through every operation.\<close>

lemma run_ctx_ok: "push_run fmt d xs n = (d1, r) \<Longrightarrow> ctx_ok (pd_context d) \<Longrightarrow> ctx_ok (pd_context d1)"
  using loop_ctx_ok [of fmt "pd_state d" "push_reader d xs n" "pd_context d"]
  by (cases "push_loop fmt (pd_state d) (push_reader d xs n) (pd_context d)")
    (auto simp: push_run_def push_reader_def Let_def split: sum.splits prod.splits)

lemma skip_loop_ctx_ok:
  "push_skip_loop fm d xs n consumed written = (d1, r) \<Longrightarrow> fm = fmt \<Longrightarrow> ctx_ok (pd_context d) \<Longrightarrow> ctx_ok (pd_context d1)"
proof (induction fm d xs n consumed written rule: push_skip_loop.induct)
  case (1 fm d xs n consumed written)
  obtain d2 q where run: "push_run fm d (drop consumed xs) (min (n - written) 64) = (d2, q)" by fastforce
  have ok: "ctx_ok (pd_context d2)" using run_ctx_ok run "1.prems"(2,3) by blast
  show ?case
  proof (cases "written < n \<and> (\<exists>k out. q = Inr (k, out) \<and> \<not> length out < min (n - written) 64)")
    case True
    then obtain k out where q: "written < n" "q = Inr (k, out)" "\<not> length out < min (n - written) 64" by blast
    have "push_skip_loop fm d2 xs n (consumed + k) (written + length out) = (d1, r)"
      using "1.prems"(1) unfolding push_skip_loop.simps [of fm d xs n consumed written] Let_def run q(2)
      by (simp only: q(1,3) if_True if_False prod.case sum.case)
    from "1.IH" [OF q(1) refl run [symmetric] q(2) refl q(3) this "1.prems"(2) ok] show ?thesis .
  next
    case False
    with "1.prems" run ok show ?thesis
      by (subst (asm) push_skip_loop.simps) (auto simp: Let_def push_poison_def split: if_splits sum.splits)
  qed
qed

lemma decode_valid:
  assumes "push_valid fmt fed d"
  shows "push_valid fmt fed (fst (push_decode fmt d xs n))"
proof -
  obtain d1 r where run: "push_run fmt d xs n = (d1, r)" by fastforce
  have "ctx_ok (pd_context d1)" using run_ctx_ok [OF run] assms by (simp add: push_valid_def)
  moreover have "push_valid fmt fed d1" if "r = Inr (k, out)" "\<not> pd_poisoned d" for k out
    using run_sim(2) [OF assms that(2) run that(1), of "[]"] by blast
  moreover from this have "push_valid fmt fed (push_poison d1)" using \<open>ctx_ok (pd_context d1)\<close> by (simp add: push_valid_def push_poison_def)
  ultimately show ?thesis using assms run by (cases r) (auto simp: push_decode_def)
qed

lemma finish_valid:
  assumes "push_valid fmt fed d"
  shows "push_valid fmt fed (fst (push_finish fmt d n))"
proof -
  obtain d1 r where dec: "push_decode fmt d [] n = (d1, r)" by fastforce
  with decode_valid [OF assms, of "[]" n] have valid: "push_valid fmt fed d1" by simp
  then have "push_valid fmt fed (d1\<lparr>pd_state := PDone\<rparr>)" "push_valid fmt fed (push_poison d1)"
    by (auto simp: push_valid_def push_place_def push_poison_def in_ok_def)
  with valid show ?thesis
    by (cases r) (auto simp: push_finish_def dec)
qed

lemma skip_valid:
  assumes "push_valid fmt fed d"
  shows "push_valid fmt fed (fst (push_skip fmt d xs n))"
proof (cases "pd_poisoned d")
  case True
  with assms show ?thesis by (simp add: push_skip_def)
next
  case False
  obtain d1 r where loop: "push_skip_loop fmt d xs n 0 0 = (d1, r)" by fastforce
  have "ctx_ok (pd_context d1)" using skip_loop_ctx_ok [OF loop refl] assms by (simp add: push_valid_def)
  with skip_loop_sim [OF assms False _ _ loop, of "[]"] False loop show ?thesis
    by (cases r) (auto simp: push_skip_def push_valid_def)
qed

lemma reset_valid: "push_valid fmt fed d \<Longrightarrow> push_valid fmt fed (push_reset fmt d)"
  by (auto simp: push_valid_def push_reset_def in_ok_def push_place_def fed_init [symmetric])

lemma new_valid: "push_valid fmt fed (push_new fmt N)"
  by (auto simp: push_valid_def push_new_def in_ok_def push_place_def fed_init [symmetric] ctx_ok_def push_context_new_def
      tables_new_def huffman_new_def sizes list_all_length)

lemma window_valid: "push_valid fmt fed d \<Longrightarrow> push_valid fmt fed (push_set_window_size n d)"
  by (auto simp: push_valid_def push_set_window_size_def in_ok_def)

end

end
