(* ===== verification/EmbedPushWindow.thy ===== *)
theory EmbedPushWindow
  imports EmbedPushContract EmbedDecode
begin

text \<open>
  A full-size window against the whole history: while the output is \<open>h\<close>, a window of 32768 bytes
  answers every question about a deflate distance as \<open>h\<close> itself does.
\<close>

definition win_holds :: "window \<Rightarrow> byte list \<Rightarrow> bool" where
  "win_holds w h \<longleftrightarrow> length (wd_buf w) = 32768 \<and> wd_max_dist w = 0 \<and> wd_pos w = word_of_nat (length h)
     \<and> wd_avail w = min (length h) 32768
     \<and> (\<forall>i < length h. length h \<le> i + 32768 \<longrightarrow> wd_buf w ! (i mod 32768) = h ! i)"

lemma win_holds_new: "win_holds (window_new 32768) []"
  by (simp add: win_holds_def window_new_def)

lemma pos_index: "unat (word_of_nat n :: u32) AND (32768 - 1) = n mod 32768"
proof -
  have "(32768 - 1 :: nat) = mask 15" by (simp add: mask_eq_exp_minus_1)
  then have "unat (word_of_nat n :: u32) AND (32768 - 1) = unat (word_of_nat n :: u32) mod 2 ^ 15"
    by (simp only: take_bit_eq_mask [symmetric] take_bit_eq_mod)
  also have "\<dots> = n mod 2 ^ 32 mod 2 ^ 15" by (simp add: unat_of_nat)
  also have "\<dots> = n mod 2 ^ 15" by (rule mod_mod_cancel) simp
  finally show ?thesis by simp
qed

lemma win_put:
  assumes "win_holds w h"
  shows "win_holds (window_put w b) (h @ [b])"
proof -
  let ?n = "length h"
  have len: "length (wd_buf w) = 32768" and pos: "wd_pos w = word_of_nat ?n" using assms by (simp_all add: win_holds_def)
  have at: "unat (wd_pos w) AND (length (wd_buf w) - 1) = ?n mod 32768"
    unfolding len pos by (rule pos_index)
  have "(wd_buf w)[?n mod 32768 := b] ! (i mod 32768) = (h @ [b]) ! i" if "i < Suc ?n" "Suc ?n \<le> i + 32768" for i
  proof (cases "i = ?n")
    case True
    with len show ?thesis by simp
  next
    case False
    with that have i: "i < ?n" "?n - i < 32768" by simp_all
    have "i mod 32768 \<noteq> ?n mod 32768"
    proof
      assume "i mod 32768 = ?n mod 32768"
      then have "32768 dvd ?n - i" using mod_eq_dvd_iff_nat [of i ?n 32768] i(1) by simp
      with i show False by (auto dest: dvd_imp_le)
    qed
    with assms that i show ?thesis by (simp add: win_holds_def nth_append)
  qed
  with assms at show ?thesis by (auto simp: win_holds_def window_put_def)
qed

lemma win_back:
  assumes "win_holds w h" and "0 < d" and "d \<le> length h" and "d \<le> 32768"
  shows "window_back w d = h ! (length h - d)"
proof -
  have len: "length (wd_buf w) = 32768" and pos: "wd_pos w = word_of_nat (length h)" using assms by (simp_all add: win_holds_def)
  have "wd_pos w - word_of_nat d = (word_of_nat (length h - d) :: u32)" using assms(3) by (simp add: pos of_nat_diff)
  then have at: "unat (wd_pos w - word_of_nat d) AND (length (wd_buf w) - 1) = (length h - d) mod 32768"
    unfolding len by (simp only: pos_index)
  have "wd_buf w ! ((length h - d) mod 32768) = h ! (length h - d)"
    using assms by (simp add: win_holds_def)
  then show ?thesis unfolding window_back_def at Let_def by (simp add: len)
qed

lemma win_check:
  assumes "win_holds w h" and "d \<le> 32768"
  shows "window_check_dist w d = (if d = 0 \<or> length h < d then Inl InvalidDistance else Inr ())"
  using assms by (auto simp: window_check_dist_def win_holds_def)

lemma win_copied:
  assumes "win_holds w h" and "0 < dist" and "dist \<le> length h" and "dist \<le> 32768"
  shows "win_holds (snd (copied dist n w)) (h @ fst (copied dist n w)) \<and> h @ fst (copied dist n w) = copy_bytes h dist n"
  using assms(1,3)
proof (induction n arbitrary: w h)
  case (Suc n)
  define b where "b = window_back w dist"
  have src: "b = h ! (length h - dist)" unfolding b_def by (rule win_back [OF Suc.prems(1) assms(2) Suc.prems(2) assms(4)])
  have "win_holds (window_put w b) (h @ [b])" by (rule win_put [OF Suc.prems(1)])
  moreover have "dist \<le> length (h @ [b])" using Suc.prems(2) by simp
  ultimately have "win_holds (snd (copied dist n (window_put w b))) ((h @ [b]) @ fst (copied dist n (window_put w b)))
    \<and> (h @ [b]) @ fst (copied dist n (window_put w b)) = copy_bytes (h @ [b]) dist n"
    unfolding b_def by (rule Suc.IH)
  then show ?case
    unfolding copied.simps copy_bytes.simps fst_conv snd_conv b_def [symmetric] src [symmetric]
    by (simp only: append_assoc append.simps) (elim conjE, simp)
qed simp

end
