(* ===== verification/EmbedPushOneshot.thy ===== *)
theory EmbedPushOneshot
  imports EmbedPushWindow
begin

text \<open>
  The push decoder against the one-shot decoder of \<open>src/embed/oneshot.rs\<close>: over a full window the
  two are shown to read the same streams to the same bytes and the same errors, step by step of
  the one, loop by loop of the other.
\<close>

section \<open>Running out of input does not depend on the output\<close>

definition free_ops :: "'o out_ops" where
  "free_ops = \<lparr>out_put = (\<lambda>o1 b. (o1, Inr ())), out_check_dist = (\<lambda>o1 d. Inr ())\<rparr>"

lemma inf_length_free: "in_exhausted (fst (inf_length ops h s)) = in_exhausted (fst (inf_length free_ops h s))"
  by (auto simp: inf_length_def Let_def andthen_def on_sink_def free_ops_def split: prod.split sum.split)

lemma stored_byte_free: "in_exhausted (fst (stored_byte ops s)) = in_exhausted (fst (stored_byte free_ops s))"
  by (auto simp: stored_byte_def andthen_def on_sink_def free_ops_def split: prod.split sum.split)

lemma tracks_live: "tracks (\<lambda>_. False) ext Q R x y \<Longrightarrow> \<not> in_exhausted (fst x) \<Longrightarrow> \<not> in_exhausted (fst y)"
  by (auto simp: tracks_def ahead_def in_ok_def)

lemma inf_length_ex:
  assumes "ahead [] s t" and "same_code h h'"
  shows "in_exhausted (fst (inf_length ops h s)) = in_exhausted (fst (inf_length ops' h' t))"
proof -
  let ?Q = "\<lambda>_ _. True"
  have put: "put_related (\<lambda>_. False) ?Q (out_put free_ops o1 b) (out_put free_ops o2 b)" for o1 :: 'c and o2 :: 'd and b
    by (simp add: put_related_def free_ops_def)
  have st: "tracks (\<lambda>_. False) [] ?Q (=) (inf_length free_ops h s) (inf_length free_ops h' t)"
    by (rule tracks_length [OF tracking_start [OF assms(1)] assms(2)]) (simp_all add: put_related_def free_ops_def)
  have ts: "tracks (\<lambda>_. False) [] ?Q (=) (inf_length free_ops h' t) (inf_length free_ops h s)"
    by (rule tracks_length [OF tracking_start [OF ahead_sym [OF assms(1)]] same_code_sym [OF assms(2)]])
      (simp_all add: put_related_def free_ops_def)
  have "in_exhausted (fst (inf_length free_ops h s)) = in_exhausted (fst (inf_length free_ops h' t))"
    using tracks_live [OF st] tracks_live [OF ts] by blast
  then show ?thesis by (metis inf_length_free)
qed

lemma stored_byte_ex:
  assumes "ahead [] s t"
  shows "in_exhausted (fst (stored_byte ops s)) = in_exhausted (fst (stored_byte ops' t))"
proof -
  let ?Q = "\<lambda>_ _. True"
  have st: "tracks (\<lambda>_. False) [] ?Q (=) (stored_byte free_ops s) (stored_byte free_ops t)"
    by (rule tracks_stored_byte [OF tracking_start [OF assms(1)]]) (simp_all add: put_related_def free_ops_def)
  have ts: "tracks (\<lambda>_. False) [] ?Q (=) (stored_byte free_ops t) (stored_byte free_ops s)"
    by (rule tracks_stored_byte [OF tracking_start [OF ahead_sym [OF assms(1)]]]) (simp_all add: put_related_def free_ops_def)
  have "in_exhausted (fst (stored_byte free_ops s)) = in_exhausted (fst (stored_byte free_ops t))"
    using tracks_live [OF st] tracks_live [OF ts] by blast
  then show ?thesis by (metis stored_byte_free)
qed

text \<open>The distance, before it is checked against the output.\<close>

lemma inf_distance_free:
  "inf_distance ops h s =
     andthen (inf_distance free_ops h s) (\<lambda>s1 d. andthen (s1, out_check_dist ops (in_sink s1) d) (\<lambda>s2 _. (s2, Inr d)))"
  by (auto simp: inf_distance_def Let_def andthen_def free_ops_def inf_ready_def split: prod.split sum.split)

lemma inf_distance_range:
  fixes s :: "'o inflate"
  assumes "inf_distance ops h s = (s', Inr d)"
  shows "0 < d \<and> d \<le> 32768"
proof -
  from assms have "\<exists>(s1 :: 'o inflate) sm s2.
    (if sm \<le> 1 then (s1, Inr (sm + 1)) else if sm \<le> 29 then
        let extra = (sm - 2) div 2 in (case inf_bits extra s1 of (s2, v) \<Rightarrow> (s2, Inr ((2 + sm mod 2) * 2 ^ extra + 1 + unat v)))
      else (s1, Inl InvalidHuffmanTree)) = (s2, Inr d)"
    unfolding inf_distance_def andthen_Inr by (auto simp only: split_paired_Ex prod.case prod.inject sum.inject)
  then obtain s1 :: "'o inflate" and sm s2 where
    "(if sm \<le> 1 then (s1, Inr (sm + 1)) else if sm \<le> 29 then
        let extra = (sm - 2) div 2 in (case inf_bits extra s1 of (s2, v) \<Rightarrow> (s2, Inr ((2 + sm mod 2) * 2 ^ extra + 1 + unat v)))
      else (s1, Inl InvalidHuffmanTree)) = (s2, Inr d)" by blast
  note run = this
  have bound: "(2 + sm mod 2) * 2 ^ extra + 1 + v \<le> (32768 :: nat)" if "extra \<le> 13" "v < 2 ^ extra" for extra v :: nat
  proof -
    have "(2 + sm mod 2) * 2 ^ extra + 1 + v \<le> 3 * 2 ^ extra + 2 ^ extra"
    proof -
      have "sm mod 2 * 2 ^ extra \<le> 1 * 2 ^ extra" by (rule mult_le_mono1) simp
      with that(2) show ?thesis unfolding add_mult_distrib by linarith
    qed
    also have "\<dots> \<le> 3 * 2 ^ 13 + (2 ^ 13 :: nat)"
      using that(1) power_increasing [of extra 13 "2 :: nat"] by simp
    finally show ?thesis by simp
  qed
  show ?thesis
  proof (cases "sm \<le> 1 \<or> 29 < sm")
    case True
    with run show ?thesis by (auto split: if_splits)
  next
    case False
    define extra where "extra = (sm - 2) div 2"
    obtain s3 v where b: "inf_bits extra s1 = (s3, v)" by fastforce
    with run False have "d = (2 + sm mod 2) * 2 ^ extra + 1 + unat v" by (simp add: extra_def Let_def)
    moreover have "sm - 2 \<le> 27" using False by linarith
    with div_le_mono [of "sm - 2" 27 2] have "extra \<le> 13" by (simp add: extra_def)
    ultimately show ?thesis using bound [of extra "unat v"] inf_bits_value [OF b] by simp
  qed
qed

lemma inf_distance_ex:
  assumes "ahead [] s t" and "same_code h h'"
  shows "in_exhausted (fst (inf_distance ops h s)) = in_exhausted (fst (inf_distance ops' h' t))"
proof -
  let ?Q = "\<lambda>_ _. True"
  have st: "tracks (\<lambda>_. False) [] ?Q (=) (inf_distance free_ops h s) (inf_distance free_ops h' t)"
    by (rule tracks_distance [OF tracking_start [OF assms(1)] assms(2)]) (simp_all add: free_ops_def)
  have ts: "tracks (\<lambda>_. False) [] ?Q (=) (inf_distance free_ops h' t) (inf_distance free_ops h s)"
    by (rule tracks_distance [OF tracking_start [OF ahead_sym [OF assms(1)]] same_code_sym [OF assms(2)]]) (simp_all add: free_ops_def)
  have free: "in_exhausted (fst (inf_distance ops h s)) = in_exhausted (fst (inf_distance free_ops h s))"
    for ops :: "('x, 'z) out_ops_scheme" and h and s :: "'x inflate"
    by (subst inf_distance_free) (auto simp: andthen_def split: prod.split sum.split)
  have "in_exhausted (fst (inf_distance free_ops h s)) = in_exhausted (fst (inf_distance free_ops h' t))"
    using tracks_live [OF st] tracks_live [OF ts] by blast
  then show ?thesis by (simp only: free [of ops] free [of ops'])
qed

section \<open>The two decoders side by side\<close>

text \<open>One turn of the ideal run.\<close>

lemma push_ideal_at:
  assumes "push_step fmt st (push_afresh (push_need st) t) c = ((t1, c1), r)" and "st \<noteq> PDone" and "\<not> (st = PNext \<and> fm_gzip fmt)"
  shows "push_ideal fmt st t c =
     (if in_exhausted t1 then ([], Some UnexpectedEnd)
      else case r of
        Inl e \<Rightarrow> (ws_out (in_sink t1), Some e)
      | Inr st' \<Rightarrow> emit (ws_out (in_sink t1)) (push_ideal fmt st' (push_flush fmt t1) c1))"
  unfolding push_ideal.simps [of fmt st t c] if_not_P [OF assms(2)] if_not_P [OF assms(3)] assms(1) prod.case by (rule refl)

text \<open>The end of a block, and the ideal run from there.\<close>

definition ideal_end :: "'f format_ops \<Rightarrow> 'f push \<Rightarrow> push_context \<Rightarrow> outcome" where
  "ideal_end fmt t c =
     (case push_block_end fmt t c of
        ((t1, c1), Inl e) \<Rightarrow> ([], Some e)
      | ((t1, c1), Inr st) \<Rightarrow> push_ideal fmt st (push_flush fmt t1) c1)"

text \<open>
  What the one-shot decoder's result \<open>x\<close> says of the ideal outcome \<open>y\<close>, if it is not that the
  output is full; \<open>K\<close> says how the ideal run goes on where the one-shot decoder does.
\<close>

definition agrees :: "error \<Rightarrow> ('o, 'a) inf_result \<Rightarrow> outcome \<Rightarrow> ('a \<Rightarrow> 'o inflate \<Rightarrow> bool) \<Rightarrow> bool" where
  "agrees full x y K \<longleftrightarrow>
     (if in_exhausted (fst x) then snd y = Some UnexpectedEnd
      else case snd x of Inl e \<Rightarrow> e = full \<or> snd y = Some e | Inr v \<Rightarrow> K v (fst x))"

lemma agrees_emit:
  "agrees full x y K \<Longrightarrow> (\<And>v s. K v s \<Longrightarrow> K' v s) \<Longrightarrow> agrees full x (emit d y) K'"
  by (auto simp: agrees_def split: sum.splits)

lemma agrees_andthen:
  assumes "agrees full x y K" and "\<And>s v. x = (s, Inr v) \<Longrightarrow> \<not> in_exhausted s \<Longrightarrow> K v s \<Longrightarrow> agrees full (f s v) y K'"
    and "\<And>s v. keeps s (fst (f s v))"
  shows "agrees full (andthen x f) y K'"
proof (cases "in_exhausted (fst x)")
  case True
  then have "in_exhausted (fst (andthen x f))" using assms(3) by (cases x; cases "snd x") (auto simp: keeps_def)
  with True assms(1) show ?thesis by (simp add: agrees_def)
next
  case False
  with assms(1,2) show ?thesis by (cases x; cases "snd x") (auto simp: agrees_def)
qed

lemma keeps_small: "keeps s s' \<Longrightarrow> in_bit_cnt s < 8 \<Longrightarrow> in_bit_cnt s' < 8"
  by (simp add: keeps_def)

locale embed_pair =
  container fmt fed + output_sink ops holds room full
  for fmt :: "'f format_ops" and fed :: "byte list \<Rightarrow> 'f" and ops :: "'o output_ops"
    and holds :: "'o \<Rightarrow> byte list \<Rightarrow> bool" and room :: "'o \<Rightarrow> nat" and full :: error +
  assumes verifies: "op_verify ops"
begin

definition pair_at :: "nat \<Rightarrow> byte list \<Rightarrow> 'o \<Rightarrow> 'f windowed \<Rightarrow> bool" where
  "pair_at b h o1 p \<longleftrightarrow> holds o1 h \<and> win_holds (ws_window p) h \<and> b \<le> length h \<and> ws_format p = fed (drop b h)
     \<and> ws_out p = [] \<and> ws_flushed p = 0 \<and> 0 < ws_left p"

definition pair_by :: "nat \<Rightarrow> byte list \<Rightarrow> 'o \<Rightarrow> 'f windowed \<Rightarrow> bool" where
  "pair_by b h o1 p \<longleftrightarrow> b \<le> length h \<and> ws_format p = fed (drop b h) \<and> ws_flushed p = 0
     \<and> holds o1 (h @ ws_out p) \<and> win_holds (ws_window p) (h @ ws_out p)"

text \<open>The readers between two steps: \<open>h\<close> is the output so far, from \<open>b\<close> on the member's.\<close>

definition os_rel :: "nat \<Rightarrow> byte list \<Rightarrow> 'o inflate \<Rightarrow> 'f push \<Rightarrow> bool" where
  "os_rel b h s t \<longleftrightarrow> ahead [] s t \<and> in_bit_cnt s < 8 \<and> in_bit_cnt t < 8 \<and> holds (in_sink s) h \<and> win_holds (ws_window (in_sink t)) h \<and> b \<le> length h
     \<and> ws_format (in_sink t) = fed (drop b h)"

lemma pair_at_by: "pair_at b h o1 p \<Longrightarrow> pair_by b h o1 p"
  by (auto simp: pair_at_def pair_by_def)

lemma os_afresh: "os_rel b h s t \<Longrightarrow> 0 < n \<Longrightarrow> pair_at b h (in_sink s) (in_sink (push_afresh n t))"
  by (simp add: os_rel_def pair_at_def)

lemma os_tracking: "os_rel b h s t \<Longrightarrow> 0 < n \<Longrightarrow> tracking [] (pair_at b h) s (push_afresh n t)"
  by (auto intro!: tracking_start os_afresh simp: os_rel_def)

lemma os_flush:
  assumes "ahead [] s t" and "pair_by b h (in_sink s) (in_sink t)" and "in_bit_cnt s < 8" and "in_bit_cnt t < 8"
  shows "os_rel b (h @ ws_out (in_sink t)) s (push_flush fmt t)"
  using assms fed_update [of "drop b h" "ws_out (in_sink t)"]
  by (auto simp: os_rel_def pair_by_def ws_flush_def)

lemma pair_put:
  assumes "pair_at b h o1 p"
  shows "put_related (\<lambda>e. e = full) (pair_by b h) (out_put ops o1 x) (out_put ws_ops p x)"
proof (cases "length h < room o1")
  case True
  have holds: "holds o1 h" using assms by (simp add: pair_at_def)
  obtain o2 where "out_put ops o1 x = (o2, Inr ())" "holds o2 (h @ [x])" using put_fits [OF holds True] by blast
  with assms win_put [of "ws_window p" h x] show ?thesis
    by (auto simp: put_related_def ws_ops_def ws_put_def ws_push_def pair_at_def pair_by_def)
next
  case False
  with assms put_full [of o1 h x] show ?thesis by (simp add: put_related_def pair_at_def)
qed

text \<open>Readers that have been read from, in step.\<close>

lemma read_bits:
  assumes "tracking [] Q s t" and "\<not> in_exhausted s" and "inf_bits n s = (s1, v)" and "inf_bits n t = (t1, w)" and "n \<le> 16"
  shows "in_exhausted t1 = in_exhausted s1" and "\<not> in_exhausted s1 \<Longrightarrow> w = v \<and> tracking [] Q s1 t1"
proof -
  from assms(1,2) have a: "ahead [] s t" by (simp add: tracking_def)
  have "\<not> in_exhausted t" using a by (simp add: ahead_def in_ok_def)
  have "in_exhausted t1" if "in_exhausted s1"
  proof (rule ccontr)
    assume "\<not> in_exhausted t1"
    from ahead_bits [OF ahead_sym [OF a] assms(4) this assms(5)] assms(3) have "ahead [] t1 s1" by auto
    with that show False by (simp add: ahead_def in_ok_def)
  qed
  moreover have "\<not> in_exhausted t1" if "\<not> in_exhausted s1"
    using tracking_bits(1) [OF assms(1,3,4,5)] that by (simp add: tracking_def ahead_def in_ok_def)
  ultimately show "in_exhausted t1 = in_exhausted s1" by blast
  show "w = v \<and> tracking [] Q s1 t1" if "\<not> in_exhausted s1"
    using tracking_bits [OF assms(1,3,4,5)] that by blast
qed

lemma tracking_ahead: "tracking [] (pair_at b h) s t \<Longrightarrow> \<not> in_exhausted s \<Longrightarrow> in_bit_cnt s < 8 \<Longrightarrow> in_bit_cnt t < 8 \<Longrightarrow> os_rel b h s (push_flush fmt t)"
  using os_flush [of s t b h] pair_at_by [of b h "in_sink s" "in_sink t"] by (auto simp: tracking_def pair_at_def)

end

end
