(* ===== verification/EmbedPushBlocks.thy ===== *)
theory EmbedPushBlocks
  imports EmbedPushOneshot
begin

text \<open>
  Blocks: the one-shot decoder's loops against the ideal run of the push decoder.
\<close>

lemma inf_length_quiet: "inf_length ops h s = (s', Inr r) \<Longrightarrow> r \<noteq> SymLiteral \<Longrightarrow> in_sink s' = in_sink s"
  by (auto simp: inf_length_def Let_def andthen_Inr dest!: inf_decode_sink inf_bits_sink split: if_splits prod.splits)

lemma push_afresh_window [simp]: "in_bit_buf (push_afresh n t) = in_bit_buf t"
  by (simp add: push_afresh_def)

context embed_pair
begin

lemma length_step:
  assumes "os_rel b h s t" and "same_code lc lc'"
    and x: "inf_length ops lc s = (s1, r)" and y: "inf_length ws_ops lc' (push_afresh 1 t) = (t1, r')"
  shows "in_exhausted t1 = in_exhausted s1"
    and "\<not> in_exhausted s1 \<Longrightarrow> r = Inl e \<Longrightarrow> e = full \<or> r' = Inl e"
    and "\<not> in_exhausted s1 \<Longrightarrow> r = Inr v \<Longrightarrow> r' = Inr v \<and> os_rel b (h @ ws_out (in_sink t1)) s1 (push_flush fmt t1)
      \<and> ahead [] s1 t1 \<and> pair_by b h (in_sink s1) (in_sink t1)"
proof -
  have a: "ahead [] s (push_afresh 1 t)" using assms(1) by (simp add: os_rel_def)
  have "keeps s s1" "keeps (push_afresh 1 t) t1"
    using keeps_length [of s ops lc] keeps_length [of "push_afresh 1 t" ws_ops lc'] unfolding x y by simp_all
  with assms(1) have small: "in_bit_cnt s1 < 8" "in_bit_cnt t1 < 8" by (auto simp: os_rel_def dest: keeps_small)
  show "in_exhausted t1 = in_exhausted s1" using inf_length_ex [OF a assms(2), of ops ws_ops] x y by simp
  have "tracks (\<lambda>e. e = full) [] (pair_by b h) (=) (s1, r) (t1, r')"
    unfolding x [symmetric] y [symmetric]
    by (rule tracks_length [OF os_tracking [OF assms(1)] assms(2) pair_put pair_at_by]) simp
  then have tr: "(\<exists>e. r = Inl e \<and> e = full) \<or> ahead [] s1 t1 \<and> pair_by b h (in_sink s1) (in_sink t1) \<and> rel_sum (=) (=) r r'"
    if "\<not> in_exhausted s1" using that by (simp add: tracks_def)
  show "e = full \<or> r' = Inl e" if "\<not> in_exhausted s1" "r = Inl e"
    using tr [OF that(1)] that(2) by (auto simp: sum.rel_eq)
  show "r' = Inr v \<and> os_rel b (h @ ws_out (in_sink t1)) s1 (push_flush fmt t1) \<and> ahead [] s1 t1 \<and> pair_by b h (in_sink s1) (in_sink t1)"
    if "\<not> in_exhausted s1" "r = Inr v"
    using tr [OF that(1)] that(2) os_flush [of s1 t1 b h] small by (auto simp: sum.rel_eq)
qed

text \<open>A distance, as the one-shot decoder reads it and as the push decoder does.\<close>

lemma distance_step:
  assumes "os_rel b h s t" and "same_code dc dc'"
    and x: "inf_distance ops dc s = (s1, r)" and y: "inf_distance ws_ops dc' (push_afresh 1 t) = (t1, r')"
  shows "in_exhausted t1 = in_exhausted s1"
    and "\<not> in_exhausted s1 \<Longrightarrow> r = Inl e \<Longrightarrow> r' = Inl e"
    and "\<not> in_exhausted s1 \<Longrightarrow> r = Inr d \<Longrightarrow> 0 < d \<and> d \<le> 32768 \<and> os_rel b h s1 (push_flush fmt t1) \<and> ws_out (in_sink t1) = []
      \<and> r' = (if length h < d then Inl InvalidDistance else Inr d)"
proof -
  have a: "ahead [] s (push_afresh 1 t)" using assms(1) by (simp add: os_rel_def)
  have "keeps s s1" "keeps (push_afresh 1 t) t1"
    using keeps_distance [of s ops dc] keeps_distance [of "push_afresh 1 t" ws_ops dc'] unfolding x y by simp_all
  with assms(1) have small: "in_bit_cnt s1 < 8" "in_bit_cnt t1 < 8" by (auto simp: os_rel_def dest: keeps_small)
  show ex: "in_exhausted t1 = in_exhausted s1" using inf_distance_ex [OF a assms(2), of ops ws_ops] x y by simp
  obtain s2 q where q: "inf_distance free_ops dc s = (s2, q)" by fastforce
  obtain t2 q' where q': "inf_distance free_ops dc' (push_afresh 1 t) = (t2, q')" by fastforce
  have "tracks (\<lambda>_. False) [] (pair_at b h) (=) (s2, q) (t2, q')"
    unfolding q [symmetric] q' [symmetric]
    by (rule tracks_distance [OF os_tracking [OF assms(1)] assms(2)]) (simp_all add: free_ops_def)
  then have tr: "ahead [] s2 t2 \<and> pair_at b h (in_sink s2) (in_sink t2) \<and> q' = q" if "\<not> in_exhausted s2"
    using that by (auto simp: tracks_def sum.rel_eq)
  have s1: "s1 = s2" "r = q"
    using x unfolding inf_distance_free [of ops] q by (cases q; simp add: check_dist)+
  have t1: "t1 = t2" using y unfolding inf_distance_free [of ws_ops] q'
    by (cases q') (auto simp: andthen_def split: sum.splits)
  have r': "r' = (case q' of Inl e \<Rightarrow> Inl e | Inr d \<Rightarrow>
      case window_check_dist (ws_window (in_sink t2)) d of Inl e \<Rightarrow> Inl e | Inr _ \<Rightarrow> Inr d)"
    using y unfolding inf_distance_free [of ws_ops] q'
    by (cases q') (auto simp: andthen_def ws_ops_def split: sum.splits)
  show "r' = Inl e" if "\<not> in_exhausted s1" "r = Inl e"
    using tr that r' by (simp add: s1)
  show "0 < d \<and> d \<le> 32768 \<and> os_rel b h s1 (push_flush fmt t1) \<and> ws_out (in_sink t1) = []
      \<and> r' = (if length h < d then Inl InvalidDistance else Inr d)"
    if "\<not> in_exhausted s1" "r = Inr d"
  proof -
    have d: "0 < d \<and> d \<le> 32768" using inf_distance_range [of free_ops dc s s2 d] q that by (simp add: s1)
    have p: "ahead [] s2 t2" "pair_at b h (in_sink s2) (in_sink t2)" "q' = q" using tr that by (simp_all add: s1)
    then have w: "win_holds (ws_window (in_sink t2)) h" "ws_out (in_sink t2) = []" by (simp_all add: pair_at_def)
    have "os_rel b (h @ ws_out (in_sink t2)) s2 (push_flush fmt t2)"
      using small by (intro os_flush [OF p(1) pair_at_by [OF p(2)]]) (simp_all add: s1 t1)
    with w d p(3) that show ?thesis
      by (simp add: s1 t1 r' win_check split: if_splits)
  qed
qed

lemma agrees_exhausted: "in_exhausted (fst x) \<Longrightarrow> snd y = Some UnexpectedEnd \<Longrightarrow> agrees full x y K"
  by (simp add: agrees_def)

lemma agrees_Inl: "x = (s, Inl e) \<Longrightarrow> \<not> in_exhausted s \<Longrightarrow> e = full \<or> snd y = Some e \<Longrightarrow> agrees full x y K"
  by (simp add: agrees_def)

lemma agrees_Inr: "x = (s, Inr v) \<Longrightarrow> \<not> in_exhausted s \<Longrightarrow> K v s \<Longrightarrow> agrees full x y K"
  by (simp add: agrees_def)

text \<open>The ideal run reaches the end of a block after the bytes \<open>d\<close>.\<close>

definition reaches_end :: "nat \<Rightarrow> byte list \<Rightarrow> push_context \<Rightarrow> outcome \<Rightarrow> unit \<Rightarrow> 'o inflate \<Rightarrow> bool" where
  "reaches_end b h c y u s \<longleftrightarrow> (\<exists>d t. y = emit d (ideal_end fmt t c) \<and> os_rel b (h @ d) s t \<and> ws_out (in_sink t) = [])"

lemma reaches_end_emit: "reaches_end b (h @ d) c y u s \<Longrightarrow> reaches_end b h c (emit d y) u s"
  unfolding reaches_end_def by (elim exE conjE, rule exI, rule exI) (auto simp: emit_def)

lemma push_block_end_ideal:
  assumes "push_block_end fmt t c = ((t1, c1), r)" and "ws_out (in_sink t) = []"
  shows "ws_out (in_sink t1) = []" and "in_exhausted t1 = in_exhausted t" and "\<exists>st. r = Inr st"
  using assms by (auto simp: push_block_end_def Let_def ws_flush_def inf_align_here split: if_splits)

lemma ideal_end_step:
  assumes "push_step fmt st (push_afresh (push_need st) t) c = push_block_end fmt t1 c" and "ws_out (in_sink t1) = []"
    and "\<not> in_exhausted t1" and "st \<noteq> PDone" and "\<not> (st = PNext \<and> fm_gzip fmt)"
  shows "push_ideal fmt st t c = ideal_end fmt t1 c"
proof -
  obtain t2 c2 r where e: "push_block_end fmt t1 c = ((t2, c2), r)" by (metis prod.collapse)
  note q = push_block_end_ideal [OF e assms(2)]
  then show ?thesis
    using push_ideal_at [OF assms(1) [unfolded e] assms(4,5)] assms(3) by (auto simp: ideal_end_def e)
qed

lemma copy_sim:
  assumes "os_rel b h s t" and "\<not> in_exhausted s" and "0 < d" and "d \<le> 32768"
    and K: "\<And>s' t' h'. inf_left s' = inf_left s \<Longrightarrow> os_rel b h' s' t' \<Longrightarrow>
      agrees full (k s') (push_ideal fmt PLength t' c) (reaches_end b h' c (push_ideal fmt PLength t' c))"
    and far: "d \<le> length h"
  shows "agrees full (andthen (on_sink (\<lambda>o1. op_copy ops o1 d len) s) (\<lambda>s3 _. k s3))
    (push_ideal fmt (PCopy d len) t c) (reaches_end b h c (push_ideal fmt (PCopy d len) t c))"
proof (cases "length h + len \<le> room (in_sink s)")
  case False
  with assms(1) far have "op_copy ops (in_sink s) d len = (in_sink s, Inl full)" by (intro copy_full) (auto simp: os_rel_def not_le)
  with assms(2) show ?thesis by (intro agrees_Inl [where e = full]) (simp_all add: on_sink_def)
next
  case True
  obtain o2 where o2: "op_copy ops (in_sink s) d len = (o2, Inr ())" "holds o2 (copy_bytes h d len)"
    using copy_fits [of "in_sink s" h d len] assms(1,3) far True by (auto simp: os_rel_def)
  obtain bs w where w: "copied d len (ws_window (in_sink t)) = (bs, w)" by fastforce
  have win: "win_holds (ws_window (in_sink t)) h" using assms(1) by (simp add: os_rel_def)
  from win_copied [OF win assms(3) far assms(4), of len]
  have c: "win_holds w (h @ bs)" "copy_bytes h d len = h @ bs" unfolding w by auto
  let ?t = "push_flush fmt (t\<lparr>in_sink := (ws_new w (ws_format (in_sink t)) len)\<lparr>ws_out := bs\<rparr>\<rparr>)"
  have "window_check_dist (ws_window (in_sink t)) d = Inr ()" using win_check [OF win assms(4)] assms(3) far by simp
  then have y: "push_ideal fmt (PCopy d len) t c = emit bs (push_ideal fmt PLength ?t c)"
    using assms(1) w by (simp add: push_ideal_copy os_rel_def ahead_def in_ok_def)
  have "os_rel b (h @ bs) (s\<lparr>in_sink := o2\<rparr>) ?t"
    using assms(1) o2(2) c fed_update [of "drop b h" bs]
    by (auto simp: os_rel_def ws_flush_def)
  from K [OF _ this] have "agrees full (k (s\<lparr>in_sink := o2\<rparr>)) (push_ideal fmt PLength ?t c)
      (reaches_end b (h @ bs) c (push_ideal fmt PLength ?t c))" by simp
  then show ?thesis unfolding y by (simp only: on_sink_def o2(1) prod.case andthen_simps) (elim agrees_emit reaches_end_emit)
qed

lemma match_sim:
  assumes "os_rel b h s t" and "same_code dc (tb_dist (cx_tables c))"
    and K: "\<And>s' t' h'. inf_left s' < inf_left s \<Longrightarrow> os_rel b h' s' t' \<Longrightarrow>
      agrees full (k s') (push_ideal fmt PLength t' c) (reaches_end b h' c (push_ideal fmt PLength t' c))"
    and keeps_k: "\<And>s. keeps s (fst (k s))"
  shows "agrees full
    (andthen (inf_distance ops dc s) (\<lambda>s2 dist. andthen (on_sink (\<lambda>o1. op_copy ops o1 dist len) s2) (\<lambda>s3 _. k s3)))
    (push_ideal fmt (PDistance len) t c) (reaches_end b h c (push_ideal fmt (PDistance len) t c))"
proof -
  obtain s1 r where x: "inf_distance ops dc s = (s1, r)" by fastforce
  obtain t1 r' where y: "inf_distance ws_ops (tb_dist (cx_tables c)) (push_afresh 1 t) = (t1, r')" by fastforce
  note step = distance_step [OF assms(1,2) x y]
  have push: "push_step fmt (PDistance len) (push_afresh (push_need (PDistance len)) t) c
      = ((t1, c), case r' of Inl e \<Rightarrow> Inl e | Inr d \<Rightarrow> Inr (PCopy d len))"
    using y by (simp add: push_step_def push_need_def with_context_def andthen_def split: sum.split)
  note ideal = push_ideal_at [OF push, simplified]
  show ?thesis
  proof (cases "in_exhausted s1")
    case True
    have "keeps s1 (fst (andthen (on_sink (\<lambda>o1. op_copy ops o1 d len) s1) (\<lambda>s3 _. k s3)))" for d
      by (intro keeps_andthen keeps_k) simp
    then have "in_exhausted (fst (andthen (s1, r) (\<lambda>s2 dist. andthen (on_sink (\<lambda>o1. op_copy ops o1 dist len) s2) (\<lambda>s3 _. k s3))))"
      using True by (cases r) (simp_all add: keeps_def)
    with True step(1) ideal show ?thesis unfolding x by (intro agrees_exhausted) simp_all
  next
    case live: False
    show ?thesis
    proof (cases r)
      case (Inl e)
      with step(1,2) live ideal x show ?thesis by (intro agrees_Inl [where s = s1 and e = e]) simp_all
    next
      case (Inr d)
      note ok = step(3) [OF live Inr]
      show ?thesis
      proof (cases "length h < d")
        case True
        have "op_copy ops (in_sink s1) d len = (in_sink s1, Inl InvalidDistance)"
          using ok True by (intro copy_far [of _ h]) (simp_all add: os_rel_def)
        with step(1) live ideal x Inr True ok show ?thesis
          by (intro agrees_Inl [where s = s1 and e = InvalidDistance]) (simp_all add: on_sink_def)
      next
        case False
        have less: "inf_left s1 < inf_left s" using inf_distance_left x Inr by blast
        have "agrees full (andthen (on_sink (\<lambda>o1. op_copy ops o1 d len) s1) (\<lambda>s3 _. k s3))
            (push_ideal fmt (PCopy d len) (push_flush fmt t1) c)
            (reaches_end b h c (push_ideal fmt (PCopy d len) (push_flush fmt t1) c))"
          using ok False live less by (intro copy_sim K) auto
        moreover have "push_ideal fmt (PDistance len) t c = push_ideal fmt (PCopy d len) (push_flush fmt t1) c"
          using ideal step(1) live ok False by simp
        ultimately show ?thesis by (simp add: x Inr)
      qed
    qed
  qed
qed

lemma compressed_sim:
  assumes "os_rel b h s t" and "same_code lc (tb_len (cx_tables c))" and "same_code dc (tb_dist (cx_tables c))"
  shows "agrees full (compressed_loop ops lc dc s) (push_ideal fmt PLength t c)
    (reaches_end b h c (push_ideal fmt PLength t c))"
  using assms(1)
proof (induction "inf_left s" arbitrary: s t h rule: less_induct)
  case less
  obtain s1 r where x: "inf_length ops lc s = (s1, r)" by fastforce
  obtain t1 r' where y: "inf_length ws_ops (tb_len (cx_tables c)) (push_afresh 1 t) = (t1, r')" by fastforce
  note step = length_step [OF less.prems assms(2) x y]
  have push: "push_step fmt PLength (push_afresh (push_need PLength) t) c =
    (case r' of Inl e \<Rightarrow> ((t1, c), Inl e) | Inr SymLiteral \<Rightarrow> ((t1, c), Inr PLength)
      | Inr SymEnd \<Rightarrow> push_block_end fmt t1 c | Inr (SymMatch len) \<Rightarrow> ((t1, c), Inr (PDistance len)))"
    using y by (simp add: push_step_def push_length_def push_need_def split: sum.split)
  let ?f = "\<lambda>s1 sm. case sm of SymLiteral \<Rightarrow> compressed_loop ops lc dc s1 | SymEnd \<Rightarrow> (s1, Inr ())
       | SymMatch len \<Rightarrow> andthen (inf_distance ops dc s1) (\<lambda>s2 dist.
             andthen (on_sink (\<lambda>o1. op_copy ops o1 dist len) s2) (\<lambda>s3 _. compressed_loop ops lc dc s3))"
  have loop: "compressed_loop ops lc dc s = andthen (s1, r) ?f" by (subst compressed_loop.simps) (simp only: x)
  have keeps_f: "keeps s1 (fst (?f s1 sm))" for s1 :: "'o inflate" and sm
    by (auto intro!: keeps_andthen split: inf_symbol.split)
  show ?case
  proof (cases "in_exhausted s1")
    case True
    with step(1) have ex: "in_exhausted t1" by simp
    have "in_exhausted (fst (compressed_loop ops lc dc s))"
      unfolding loop using True keeps_f by (cases r) (auto simp: keeps_def)
    moreover have "snd (push_ideal fmt PLength t c) = Some UnexpectedEnd"
    proof -
      obtain t2 c2 q where p: "push_step fmt PLength (push_afresh (push_need PLength) t) c = ((t2, c2), q)" by (metis prod.collapse)
      have "in_exhausted t2"
        using p ex unfolding push by (auto split: sum.splits inf_symbol.splits dest: push_block_end_here)
      with push_ideal_at [OF p] show ?thesis by simp
    qed
    ultimately show ?thesis by (rule agrees_exhausted)
  next
    case live: False
    with step(1) have lt: "\<not> in_exhausted t1" by simp
    show ?thesis
    proof (cases r)
      case (Inl e)
      from step(2) [OF live Inl] show ?thesis
      proof
        assume "e = full"
        with Inl live show ?thesis by (intro agrees_Inl [where s = s1 and e = e]) (simp_all add: loop)
      next
        assume "r' = Inl e"
        then have p: "push_step fmt PLength (push_afresh (push_need PLength) t) c = ((t1, c), Inl e)" using push by simp
        from push_ideal_at [OF p] lt have "snd (push_ideal fmt PLength t c) = Some e" by simp
        with Inl live show ?thesis by (intro agrees_Inl [where s = s1 and e = e]) (simp_all add: loop)
      qed
    next
      case (Inr v)
      note ok = step(3) [OF live Inr]
      have less: "inf_left s1 < inf_left s" using inf_length_left x Inr by blast
      show ?thesis
      proof (cases v)
        case SymLiteral
        with ok push have p: "push_step fmt PLength (push_afresh (push_need PLength) t) c = ((t1, c), Inr PLength)" by simp
        have y': "push_ideal fmt PLength t c = emit (ws_out (in_sink t1)) (push_ideal fmt PLength (push_flush fmt t1) c)"
          using push_ideal_at [OF p] lt by simp
        have "agrees full (compressed_loop ops lc dc s1) (push_ideal fmt PLength (push_flush fmt t1) c)
            (reaches_end b (h @ ws_out (in_sink t1)) c (push_ideal fmt PLength (push_flush fmt t1) c))"
          using ok by (intro less.hyps less) simp
        moreover have "compressed_loop ops lc dc s = compressed_loop ops lc dc s1" using Inr SymLiteral by (simp add: loop)
        ultimately show ?thesis unfolding y' by (simp only:) (elim agrees_emit reaches_end_emit)
      next
        case SymEnd
        from ok push SymEnd have p: "push_step fmt PLength (push_afresh (push_need PLength) t) c = push_block_end fmt t1 c" by simp
        have "in_sink t1 = in_sink (push_afresh 1 t)"
          using y ok SymEnd by (intro inf_length_quiet [of ws_ops]) auto
        then have quiet: "ws_out (in_sink t1) = []" by simp
        have "os_rel b h s1 t1" using ok quiet by (auto simp: os_rel_def pair_by_def)
        moreover have "push_ideal fmt PLength t c = emit [] (ideal_end fmt t1 c)"
          using ideal_end_step [OF p quiet lt] by simp
        ultimately have "reaches_end b h c (push_ideal fmt PLength t c) () s1"
          unfolding reaches_end_def using quiet by (metis append_Nil2)
        with Inr SymEnd live show ?thesis by (intro agrees_Inr [where s = s1]) (simp_all add: loop)
      next
        case (SymMatch len)
        from ok push SymMatch have p: "push_step fmt PLength (push_afresh (push_need PLength) t) c = ((t1, c), Inr (PDistance len))" by simp
        have "in_sink t1 = in_sink (push_afresh 1 t)"
          using y ok SymMatch by (intro inf_length_quiet [of ws_ops]) auto
        then have quiet: "ws_out (in_sink t1) = []" by simp
        have "push_ideal fmt PLength t c = push_ideal fmt (PDistance len) (push_flush fmt t1) c"
          using push_ideal_at [OF p] lt quiet by simp
        moreover have "compressed_loop ops lc dc s = andthen (inf_distance ops dc s1) (\<lambda>s2 dist.
             andthen (on_sink (\<lambda>o1. op_copy ops o1 dist len) s2) (\<lambda>s3 _. compressed_loop ops lc dc s3))"
          using Inr SymMatch by (simp add: loop)
        ultimately show ?thesis using ok quiet less
          by (auto intro!: match_sim [OF _ assms(3)] less.hyps)
      qed
    qed
  qed
qed

text \<open>Stored blocks.\<close>

lemma push_stored_step:
  "0 < n \<Longrightarrow> stored_byte ws_ops (push_afresh 1 t) = (t1, r) \<Longrightarrow>
   push_step fmt (PStored n) (push_afresh (push_need (PStored n)) t) c
     = ((t1, c), case r of Inl e \<Rightarrow> Inl e | Inr _ \<Rightarrow> Inr (PStored (n - 1)))"
  by (simp add: push_step_def push_need_def with_context_def andthen_def split: sum.split)

lemma stored_sim:
  "os_rel b h s t \<Longrightarrow> agrees full (stored_bytes ops n s) (push_ideal fmt (PStored n) t c)
    (reaches_end b h c (push_ideal fmt (PStored n) t c))"
proof (induction n arbitrary: s t h)
  case 0
  then have live: "\<not> in_exhausted s" "\<not> in_exhausted t" by (simp_all add: os_rel_def ahead_def in_ok_def)
  have p: "push_step fmt (PStored 0) (push_afresh (push_need (PStored 0)) t) c = push_block_end fmt (push_afresh 1 t) c"
    by (simp add: push_step_def push_need_def)
  have "push_ideal fmt (PStored 0) t c = ideal_end fmt (push_afresh 1 t) c"
    by (rule ideal_end_step [OF p]) (use live in simp_all)
  moreover have "os_rel b (h @ []) s (push_afresh 1 t)" using 0 by (simp add: os_rel_def)
  ultimately have "reaches_end b h c (push_ideal fmt (PStored 0) t c) () s"
    unfolding reaches_end_def by (intro exI [of _ "[]"] exI [of _ "push_afresh 1 t"]) simp
  with live show ?case by (intro agrees_Inr [where s = s]) simp_all
next
  case (Suc n)
  obtain s1 r where x: "stored_byte ops s = (s1, r)" by fastforce
  obtain t1 r' where y: "stored_byte ws_ops (push_afresh 1 t) = (t1, r')" by fastforce
  have ex: "in_exhausted t1 = in_exhausted s1"
    using stored_byte_ex [of s "push_afresh 1 t" ops ws_ops] Suc.prems x y by (simp add: os_rel_def)
  have "keeps s s1" "keeps (push_afresh 1 t) t1"
    using keeps_stored_byte [of s ops] keeps_stored_byte [of "push_afresh 1 t" ws_ops] unfolding x y by simp_all
  with Suc.prems have small: "in_bit_cnt s1 < 8" "in_bit_cnt t1 < 8" by (auto simp: os_rel_def dest: keeps_small)
  have "tracks (\<lambda>e. e = full) [] (pair_by b h) (=) (s1, r) (t1, r')"
    unfolding x [symmetric] y [symmetric]
    by (rule tracks_stored_byte [OF os_tracking [OF Suc.prems] pair_put pair_at_by]) simp
  then have tr: "(\<exists>e. r = Inl e \<and> e = full) \<or> ahead [] s1 t1 \<and> pair_by b h (in_sink s1) (in_sink t1) \<and> r' = r"
    if "\<not> in_exhausted s1" using that by (auto simp: tracks_def sum.rel_eq)
  note ideal = push_ideal_at [OF push_stored_step [OF _ y, of "Suc n" c], simplified]
  show ?case
  proof (cases "in_exhausted s1")
    case True
    then have "in_exhausted (fst (stored_bytes ops (Suc n) s))"
      using keeps_stored_bytes [of s1 ops n] by (cases r) (simp_all add: x keeps_def)
    with True ex ideal show ?thesis by (intro agrees_exhausted) simp_all
  next
    case live: False
    show ?thesis
    proof (cases r)
      case (Inl e)
      with tr [OF live] ex live ideal x show ?thesis by (intro agrees_Inl [where s = s1 and e = e]) auto
    next
      case (Inr u)
      with tr [OF live] have ok: "ahead [] s1 t1" "pair_by b h (in_sink s1) (in_sink t1)" "r' = Inr ()" by auto
      have y': "push_ideal fmt (PStored (Suc n)) t c = emit (ws_out (in_sink t1)) (push_ideal fmt (PStored n) (push_flush fmt t1) c)"
        using ideal ex live ok(3) by simp
      have "stored_bytes ops (Suc n) s = stored_bytes ops n s1" using x Inr by simp
      with Suc.IH [OF os_flush [OF ok(1,2) small]] show ?thesis
        unfolding y' by (simp only:) (elim agrees_emit reaches_end_emit)
    qed
  qed
qed

end

end
