(* ===== verification/EmbedPushDynamic.thy ===== *)
theory EmbedPushDynamic
  imports EmbedPushBlocks
begin

text \<open>
  Dynamic blocks: the one-shot decoder reads the code lengths into fresh tables, the push decoder
  into the tables and lengths the last block left.
\<close>

lemma code_lengths_ex:
  assumes "ahead [] s t" and "length ls = length ls'" and "take i ls = take i ls'"
  shows "in_exhausted (fst (code_lengths h ls i s)) = in_exhausted (fst (code_lengths h ls' i t))"
proof -
  let ?Q = "\<lambda>_ _. True"
  have st: "tracks (\<lambda>_. False) [] ?Q (\<lambda>x y. snd x = snd y \<and> take (snd x) (fst x) = take (snd x) (fst y))
      (code_lengths h ls i s) (code_lengths h ls' i t)"
    by (rule tracks_code_lengths [OF tracking_start [OF assms(1)]]) (use assms in simp_all)
  have ts: "tracks (\<lambda>_. False) [] ?Q (\<lambda>x y. snd x = snd y \<and> take (snd x) (fst x) = take (snd x) (fst y))
      (code_lengths h ls' i t) (code_lengths h ls i s)"
    by (rule tracks_code_lengths [OF tracking_start [OF ahead_sym [OF assms(1)]]]) (use assms in simp_all)
  show ?thesis using tracks_live [OF st] tracks_live [OF ts] by blast
qed

lemma code_lengths_cong:
  "inf_decode h s = inf_decode h' s \<Longrightarrow> code_lengths h ls i s = code_lengths h' ls i s"
  by (simp add: code_lengths_def)

lemma tables_new_sizes [simp]:
  "length (hf_symbol (tb_len tables_new)) = 288" "length (hf_symbol (tb_dist tables_new)) = 32"
  by (simp_all add: tables_new_def huffman_new_def sizes)

context embed_pair
begin

text \<open>The ideal run reaches the end of the block in a context that is still this block's.\<close>

definition block_ends :: "nat \<Rightarrow> byte list \<Rightarrow> push_context \<Rightarrow> outcome \<Rightarrow> unit \<Rightarrow> 'o inflate \<Rightarrow> bool" where
  "block_ends b h c0 y u s \<longleftrightarrow>
     (\<exists>c. ctx_ok c \<and> cx_last c = cx_last c0 \<and> cx_start c = cx_start c0 \<and> reaches_end b h c y u s)"

lemma agrees_mono: "agrees full x y K \<Longrightarrow> (\<And>v s. K v s \<Longrightarrow> K' v s) \<Longrightarrow> agrees full x y K'"
  using agrees_emit [of full x y K K' "[]"] by simp

lemma codes_sim:
  assumes "os_rel b h s t" and "ctx_ok c" and "list_all (\<lambda>l. l \<le> MAX_BITS) ls" and "n \<le> length ls"
    and "n \<le> 288" and "length ls \<le> n + 32" and "build_codes ls n (cx_tables c) = (tb, r)"
  shows "r = Inl e \<Longrightarrow> compressed ops ls n s = (s, Inl e)"
    and "r = Inr () \<Longrightarrow> ctx_ok (c\<lparr>cx_tables := tb\<rparr>)
      \<and> agrees full (compressed ops ls n s) (push_ideal fmt PLength t (c\<lparr>cx_tables := tb\<rparr>))
          (reaches_end b h (c\<lparr>cx_tables := tb\<rparr>) (push_ideal fmt PLength t (c\<lparr>cx_tables := tb\<rparr>)))"
proof -
  obtain t1 q where new: "build_codes ls n tables_new = (t1, q)" by fastforce
  have same: "q = r" "same_code (tb_len t1) (tb_len tb) \<and> same_code (tb_dist t1) (tb_dist tb)"
    using build_codes_same [OF assms(3) _ _ _ _ new assms(7)] assms(2,4-6) by (simp_all add: ctx_ok_def sizes)
  show "compressed ops ls n s = (s, Inl e)" if "r = Inl e" using that new same by (simp add: compressed_def)
  note build_codes_sizes [OF assms(7), simp]
  have "ctx_ok (c\<lparr>cx_tables := tb\<rparr>)" using assms(2) by (simp add: ctx_ok_def)
  with same new assms(1) show "ctx_ok (c\<lparr>cx_tables := tb\<rparr>)
      \<and> agrees full (compressed ops ls n s) (push_ideal fmt PLength t (c\<lparr>cx_tables := tb\<rparr>))
          (reaches_end b h (c\<lparr>cx_tables := tb\<rparr>) (push_ideal fmt PLength t (c\<lparr>cx_tables := tb\<rparr>)))" if "r = Inr ()"
    using that by (auto simp: compressed_def intro!: compressed_sim)
qed

text \<open>What follows the code lengths.\<close>

definition after_lengths :: "nat \<Rightarrow> 'o inflate \<Rightarrow> nat list \<Rightarrow> ('o, unit) inf_result" where
  "after_lengths n s ls =
     (if 256 < length ls \<and> ls ! 256 = 0 then (s, Inl InvalidHuffmanTree) else compressed ops ls n s)"

lemma keeps_after_lengths [simp]: "keeps s (fst (after_lengths n s ls))"
  by (simp add: after_lengths_def)

lemma lengths_done_sim:
  assumes "os_rel b h s t" and "ctx_ok c" and "take (cx_syms c) (cx_lengths c) = ls" and "cx_syms c = length ls"
    and "list_all (\<lambda>l. l \<le> MAX_BITS) ls" and "cx_len_syms c \<le> length ls"
  shows "agrees full (after_lengths (cx_len_syms c) s ls) (push_ideal fmt (PLengths (length ls)) t c)
    (block_ends b h c (push_ideal fmt (PLengths (length ls)) t c))"
proof -
  let ?n = "cx_len_syms c"
  have live: "\<not> in_exhausted s" "\<not> in_exhausted t" using assms(1) by (simp_all add: os_rel_def ahead_def in_ok_def)
  have size: "?n \<le> 288" "length ls \<le> ?n + 32" "\<not> length (cx_lengths c) < cx_syms c"
    using assms(2,4) by (simp_all add: ctx_ok_def sizes)
  obtain tb r where build: "build_codes ls ?n (cx_tables c) = (tb, r)" by fastforce
  note codes = codes_sim [OF assms(1,2,5,6) size(1,2) build]
  have push: "push_step fmt (PLengths (length ls)) (push_afresh (push_need (PLengths (length ls))) t) c =
      (if 256 < length ls \<and> ls ! 256 = 0 then ((push_afresh 1 t, c), Inl InvalidHuffmanTree)
       else ((push_afresh 1 t, c\<lparr>cx_tables := tb\<rparr>), case r of Inl e \<Rightarrow> Inl e | Inr _ \<Rightarrow> Inr PLength))"
    using size(3) by (simp add: push_step_def push_lengths_def push_need_def assms(3) build)
  show ?thesis
  proof (cases "256 < length ls \<and> ls ! 256 = 0")
    case True
    with push have "push_step fmt (PLengths (length ls)) (push_afresh (push_need (PLengths (length ls))) t) c
      = ((push_afresh 1 t, c), Inl InvalidHuffmanTree)" by simp
    from push_ideal_at [OF this] live True show ?thesis
      by (intro agrees_Inl [where s = s and e = InvalidHuffmanTree]) (simp_all add: after_lengths_def)
  next
    case False
    with push have p: "push_step fmt (PLengths (length ls)) (push_afresh (push_need (PLengths (length ls))) t) c
      = ((push_afresh 1 t, c\<lparr>cx_tables := tb\<rparr>), case r of Inl e \<Rightarrow> Inl e | Inr _ \<Rightarrow> Inr PLength)" by simp
    note ideal = push_ideal_at [OF p, simplified]
    have comp: "after_lengths ?n s ls = compressed ops ls ?n s" using False by (auto simp: after_lengths_def)
    show ?thesis
    proof (cases r)
      case (Inl e)
      with codes(1) [OF Inl] ideal live show ?thesis
        unfolding comp by (intro agrees_Inl [where s = s and e = e]) simp_all
    next
      case (Inr u)
      let ?t = "push_flush fmt (push_afresh 1 t)"
      have "os_rel b h s ?t" using assms(1) fed_update [of "drop b h" "[]"] by (simp add: os_rel_def ws_flush_def)
      from codes_sim(2) [OF this assms(2,5,6) size(1,2) build] Inr
      have ok: "ctx_ok (c\<lparr>cx_tables := tb\<rparr>)" "agrees full (compressed ops ls ?n s) (push_ideal fmt PLength ?t (c\<lparr>cx_tables := tb\<rparr>))
          (reaches_end b h (c\<lparr>cx_tables := tb\<rparr>) (push_ideal fmt PLength ?t (c\<lparr>cx_tables := tb\<rparr>)))" by simp_all
      have y: "push_ideal fmt (PLengths (length ls)) t c = push_ideal fmt PLength ?t (c\<lparr>cx_tables := tb\<rparr>)"
        using ideal Inr live by simp
      show ?thesis unfolding y comp
        by (rule agrees_mono [OF ok(2)]) (use ok(1) in \<open>auto simp: block_ends_def intro!: exI [of _ "c\<lparr>cx_tables := tb\<rparr>"]\<close>)
    qed
  qed
qed

lemma lengths_step:
  assumes "os_rel b h s t" and "ctx_ok c" and "i < cx_syms c" and "length ls = cx_syms c"
    and "take i ls = take i (cx_lengths c)" and "list_all (\<lambda>l. l \<le> MAX_BITS) ls"
    and code: "\<And>s :: 'o inflate. inf_decode code s = inf_decode (tb_len (cx_tables c)) s"
    and x: "code_lengths code ls i s = (s1, r)"
    and y: "push_step fmt (PLengths i) (push_afresh (push_need (PLengths i)) t) c = ((t1, c1), r')"
  shows "in_exhausted t1 = in_exhausted s1"
    and "\<not> in_exhausted s1 \<Longrightarrow> r = Inl e \<Longrightarrow> r' = Inl e"
    and "\<not> in_exhausted s1 \<Longrightarrow> r = Inr (ls1, j) \<Longrightarrow> r' = Inr (PLengths j) \<and> ws_out (in_sink t1) = []
      \<and> os_rel b h s1 (push_flush fmt t1) \<and> ctx_ok c1 \<and> length ls1 = cx_syms c \<and> j \<le> cx_syms c
      \<and> take j ls1 = take j (cx_lengths c1) \<and> list_all (\<lambda>l. l \<le> MAX_BITS) ls1
      \<and> cx_syms c1 = cx_syms c \<and> cx_len_syms c1 = cx_len_syms c \<and> cx_last c1 = cx_last c \<and> cx_start c1 = cx_start c
      \<and> tb_len (cx_tables c1) = tb_len (cx_tables c)"
proof -
  let ?ls' = "take (cx_syms c) (cx_lengths c)"
  have size: "\<not> length (cx_lengths c) < cx_syms c" "length ?ls' = cx_syms c" using assms(2) by (simp_all add: ctx_ok_def sizes)
  have x': "code_lengths (tb_len (cx_tables c)) ls i s = (s1, r)" using code_lengths_cong [OF code] x by simp
  obtain t2 q where q: "code_lengths (tb_len (cx_tables c)) ?ls' i (push_afresh 1 t) = (t2, q)" by fastforce
  have push: "((t1, c1), r') = (case q of Inl e \<Rightarrow> ((t2, c), Inl e)
      | Inr (ls2, j) \<Rightarrow> ((t2, c\<lparr>cx_lengths := ls2 @ drop (cx_syms c) (cx_lengths c)\<rparr>), Inr (PLengths j)))"
    unfolding y [symmetric] using assms(3) size
    by (simp add: push_step_def push_lengths_def push_need_def q del: One_nat_def split: sum.split prod.split)
  then have t1: "t1 = t2" by (auto split: sum.splits prod.splits)
  have "keeps s s1" "keeps (push_afresh 1 t) t2"
    using keeps_code_lengths [of s code ls i] keeps_code_lengths [of "push_afresh 1 t" "tb_len (cx_tables c)" ?ls' i]
    unfolding x q by simp_all
  with assms(1) have small: "in_bit_cnt s1 < 8" "in_bit_cnt t2 < 8" by (auto simp: os_rel_def dest: keeps_small)
  have a: "ahead [] s (push_afresh 1 t)" using assms(1) by (simp add: os_rel_def)
  have pre: "length ls = length ?ls'" "take i ls = take i ?ls'" using size assms(3-5) by (simp_all add: min_absorb1)
  show "in_exhausted t1 = in_exhausted s1" unfolding t1 using code_lengths_ex [OF a pre, of "tb_len (cx_tables c)"] x' q by simp
  have "tracks (\<lambda>_. False) [] (pair_at b h) (\<lambda>x y. snd x = snd y \<and> take (snd x) (fst x) = take (snd x) (fst y)) (s1, r) (t2, q)"
    unfolding x' [symmetric] q [symmetric]
    by (rule tracks_code_lengths [OF os_tracking [OF assms(1)]]) (use pre in simp_all)
  then have tr: "ahead [] s1 t2 \<and> pair_at b h (in_sink s1) (in_sink t2)
      \<and> rel_sum (=) (\<lambda>x y. snd x = snd y \<and> take (snd x) (fst x) = take (snd x) (fst y)) r q" if "\<not> in_exhausted s1"
    using that by (simp add: tracks_def)
  show "r' = Inl e" if "\<not> in_exhausted s1" "r = Inl e"
    using tr [OF that(1)] that(2) push by (cases q) auto
  show "r' = Inr (PLengths j) \<and> ws_out (in_sink t1) = []
      \<and> os_rel b h s1 (push_flush fmt t1) \<and> ctx_ok c1 \<and> length ls1 = cx_syms c \<and> j \<le> cx_syms c
      \<and> take j ls1 = take j (cx_lengths c1) \<and> list_all (\<lambda>l. l \<le> MAX_BITS) ls1
      \<and> cx_syms c1 = cx_syms c \<and> cx_len_syms c1 = cx_len_syms c \<and> cx_last c1 = cx_last c \<and> cx_start c1 = cx_start c
      \<and> tb_len (cx_tables c1) = tb_len (cx_tables c)" if "\<not> in_exhausted s1" "r = Inr (ls1, j)"
  proof -
    from tr [OF that(1)] that(2) obtain ls2 where ok: "ahead [] s1 t2" "pair_at b h (in_sink s1) (in_sink t2)"
      "q = Inr (ls2, j)" "take j ls1 = take j ls2" by (cases q) auto
    have c1: "c1 = c\<lparr>cx_lengths := ls2 @ drop (cx_syms c) (cx_lengths c)\<rparr>" "r' = Inr (PLengths j)" using push ok(3) by simp_all
    have all: "list_all (\<lambda>l. l \<le> MAX_BITS) ?ls'" using assms(2) by (simp add: ctx_ok_def list_all_take_drop)
    note range1 = code_lengths_range [OF x' [unfolded that(2)] assms(6)]
    note range2 = code_lengths_range [OF q [unfolded ok(3)] all]
    have "os_rel b (h @ ws_out (in_sink t2)) s1 (push_flush fmt t2)" by (rule os_flush [OF ok(1) pair_at_by [OF ok(2)] small])
    moreover have "ws_out (in_sink t2) = []" using ok(2) by (simp add: pair_at_def)
    moreover have "ctx_ok c1" by (rule push_step_ctx_ok [OF y assms(2)])
    moreover have "take j ls1 = take j (ls2 @ drop (cx_syms c) (cx_lengths c))" using range2(1,3) ok(4) by simp
    ultimately show ?thesis using range1(1-3) assms(4) by (simp add: c1 t1)
  qed
qed

lemma block_ends_ctx:
  "cx_last c1 = cx_last c \<Longrightarrow> cx_start c1 = cx_start c \<Longrightarrow> block_ends b h c1 y u s \<Longrightarrow> block_ends b h c y u s"
  by (auto simp: block_ends_def)

lemma lengths_sim:
  assumes "os_rel b h s t" and "ctx_ok c" and "i \<le> cx_syms c" and "length ls = cx_syms c" and "cx_len_syms c \<le> cx_syms c"
    and "take i ls = take i (cx_lengths c)" and "list_all (\<lambda>l. l \<le> MAX_BITS) ls"
    and "\<And>s :: 'o inflate. inf_decode code s = inf_decode (tb_len (cx_tables c)) s"
  shows "agrees full (andthen (code_lengths_loop code ls i s) (after_lengths (cx_len_syms c)))
    (push_ideal fmt (PLengths i) t c) (block_ends b h c (push_ideal fmt (PLengths i) t c))"
  using assms
proof (induction "inf_left s" arbitrary: s t c i ls rule: less_induct)
  case less
  note prems = less.prems
  show ?case
  proof (cases "i < cx_syms c")
    case False
    with prems have i: "i = length ls" by simp
    then have "code_lengths_loop code ls i s = (s, Inr ls)" by (subst code_lengths_loop.simps) simp
    moreover have "take (cx_syms c) (cx_lengths c) = ls" using prems(4,6) i by simp
    note lengths_done_sim [OF prems(1,2) this prems(4) [symmetric] prems(7)]
    ultimately show ?thesis unfolding i using prems(4,5) by simp
  next
    case True
    obtain s1 r where x: "code_lengths code ls i s = (s1, r)" by fastforce
    obtain t1 c1 r' where y: "push_step fmt (PLengths i) (push_afresh (push_need (PLengths i)) t) c = ((t1, c1), r')"
      by (metis prod.collapse)
    note step = lengths_step [OF prems(1,2) True prems(4,6,7,8) x y]
    note ideal = push_ideal_at [OF y, simplified]
    have loop: "andthen (code_lengths_loop code ls i s) (after_lengths (cx_len_syms c)) =
      andthen (s1, r) (\<lambda>s1 li. andthen (code_lengths_loop code (fst li) (snd li) s1) (after_lengths (cx_len_syms c)))"
      using True prems(4) by (subst code_lengths_loop.simps) (cases r; simp add: x)
    have keeps_f: "keeps s1 (fst (andthen (code_lengths_loop code ls i s1) (after_lengths n)))" for s1 :: "'o inflate" and ls i n
      by (intro keeps_andthen) simp_all
    show ?thesis
    proof (cases "in_exhausted s1")
      case True
      have "in_exhausted (fst (andthen (code_lengths_loop code ls i s) (after_lengths (cx_len_syms c))))"
        unfolding loop using True keeps_f by (cases r) (auto simp: keeps_def)
      with True step(1) ideal show ?thesis by (intro agrees_exhausted) simp_all
    next
      case live: False
      show ?thesis
      proof (cases r)
        case (Inl e)
        with step(1,2) live ideal show ?thesis unfolding loop by (intro agrees_Inl [where s = s1 and e = e]) simp_all
      next
        case (Inr p)
        obtain ls1 j where p: "p = (ls1, j)" by fastforce
        note ok = step(3) [OF live Inr [unfolded p]]
        have "inf_left s1 < inf_left s" using code_lengths_left x Inr by blast
        then have "agrees full (andthen (code_lengths_loop code ls1 j s1) (after_lengths (cx_len_syms c1)))
            (push_ideal fmt (PLengths j) (push_flush fmt t1) c1)
            (block_ends b h c1 (push_ideal fmt (PLengths j) (push_flush fmt t1) c1))"
          using ok prems(5,8) by (intro less.hyps) simp_all
        moreover have "push_ideal fmt (PLengths i) t c = push_ideal fmt (PLengths j) (push_flush fmt t1) c1"
          using ideal ok live step(1) by simp
        moreover have "andthen (code_lengths_loop code ls i s) (after_lengths (cx_len_syms c))
            = andthen (code_lengths_loop code ls1 j s1) (after_lengths (cx_len_syms c1))"
          unfolding loop Inr p using ok by simp
        ultimately show ?thesis using ok
          by (simp only:) (rule agrees_mono, assumption, rule block_ends_ctx [of c1], simp_all)
      qed
    qed
  qed
qed

text \<open>The code length code, and what follows it.\<close>

definition after_order :: "nat \<Rightarrow> nat \<Rightarrow> 'o inflate \<Rightarrow> nat list \<Rightarrow> ('o, unit) inf_result" where
  "after_order n m s lengths =
     (let code = huff_build (take 19 lengths) (huffman_new (replicate (MAX_BITS + 1) 0) (replicate 19 0)) in
      if hf_left code \<noteq> 0 then (s, Inl InvalidHuffmanTree)
      else if length lengths < m then (s, Inl Corrupt)
      else andthen (code_lengths_loop code (take m lengths) 0 s) (after_lengths n))"

lemma keeps_after_order [simp]: "keeps s (fst (after_order n m s lengths))"
  by (auto simp: after_order_def Let_def intro!: keeps_andthen)

definition order_like :: "push_context \<Rightarrow> nat list \<Rightarrow> bool" where
  "order_like c lens \<longleftrightarrow> ctx_ok c \<and> cx_len_syms c \<le> cx_syms c \<and> length lens = MAX_SYMS
     \<and> take 19 lens = take 19 (cx_lengths c) \<and> list_all (\<lambda>l. l \<le> MAX_BITS) lens"

lemma order_done_sim:
  assumes "os_rel b h s t" and "order_like c lens" and "\<not> (i < length ORDER \<and> i < cx_code_syms c)"
  shows "agrees full (after_order (cx_len_syms c) (cx_syms c) s lens)
    (push_ideal fmt (PCodeLengths i) t c) (block_ends b h c (push_ideal fmt (PCodeLengths i) t c))"
proof -
  have live: "\<not> in_exhausted s" "\<not> in_exhausted t" using assms(1) by (simp_all add: os_rel_def ahead_def in_ok_def)
  have c: "ctx_ok c" "cx_len_syms c \<le> cx_syms c" "length lens = 320" "take 19 lens = take 19 (cx_lengths c)"
    "list_all (\<lambda>l. l \<le> MAX_BITS) lens" "cx_syms c \<le> 316"
    using assms(2) by (auto simp: order_like_def sizes ctx_ok_def)
  let ?new = "huff_build (take 19 lens) (huffman_new (replicate (MAX_BITS + 1) 0) (replicate 19 0))"
  let ?old = "huff_build (take 19 lens) (tb_len (cx_tables c))"
  have built: "built (take 19 lens) ?new" "built (take 19 lens) ?old"
    using huff_build_built [of "take 19 lens"] c(1,3,5) by (simp_all add: list_all_take_drop huffman_new_def ctx_ok_def sizes)
  then have left: "hf_left ?new = hf_left ?old" by (simp add: built_def)
  let ?c = "c\<lparr>cx_tables := (cx_tables c)\<lparr>tb_len := ?old\<rparr>\<rparr>"
  have y: "push_step fmt (PCodeLengths i) (push_afresh (push_need (PCodeLengths i)) t) c =
      ((push_afresh 1 t, ?c), if hf_left ?old \<noteq> 0 then Inl InvalidHuffmanTree else Inr (PLengths 0))"
    using assms(3) by (auto simp: push_step_def push_code_lengths_def push_need_def c(4) Let_def)
  note ideal = push_ideal_at [OF y, simplified]
  show ?thesis
  proof (cases "hf_left ?old = 0")
    case False
    with ideal live left show ?thesis
      by (intro agrees_Inl [where s = s and e = InvalidHuffmanTree]) (simp_all add: after_order_def)
  next
    case True
    let ?t = "push_flush fmt (push_afresh 1 t)"
    have t: "os_rel b h s ?t" using assms(1) fed_update [of "drop b h" "[]"] by (simp add: os_rel_def ws_flush_def)
    have ok: "ctx_ok ?c" by (rule push_step_ctx_ok [OF y c(1)])
    have "agrees full (andthen (code_lengths_loop ?new (take (cx_syms c) lens) 0 s) (after_lengths (cx_len_syms ?c)))
        (push_ideal fmt (PLengths 0) ?t ?c) (block_ends b h ?c (push_ideal fmt (PLengths 0) ?t ?c))"
      by (rule lengths_sim [OF t ok]) (use c built_decode [OF built] in \<open>simp_all add: list_all_take_drop\<close>)
    moreover have "push_ideal fmt (PCodeLengths i) t c = push_ideal fmt (PLengths 0) ?t ?c"
      using ideal live True by simp
    moreover have "after_order (cx_len_syms c) (cx_syms c) s lens
        = andthen (code_lengths_loop ?new (take (cx_syms c) lens) 0 s) (after_lengths (cx_len_syms ?c))"
      using True left c(3,6) by (simp add: after_order_def)
    ultimately show ?thesis by (simp only:) (rule agrees_mono, assumption, rule block_ends_ctx [of ?c], simp_all)
  qed
qed

lemma order_sim:
  assumes "os_rel b h s t" and "order_like c lens"
  shows "agrees full (case read_order (drop i (take (cx_code_syms c) ORDER)) lens s of
      (s2, lengths) \<Rightarrow> after_order (cx_len_syms c) (cx_syms c) s2 lengths)
    (push_ideal fmt (PCodeLengths i) t c) (block_ends b h c (push_ideal fmt (PCodeLengths i) t c))"
  using assms
proof (induction "length ORDER - i" arbitrary: s t c lens i)
  case 0
  then have "\<not> (i < length ORDER \<and> i < cx_code_syms c)" "drop i (take (cx_code_syms c) ORDER) = []" by simp_all
  with 0 order_done_sim show ?case by simp
next
  case (Suc k)
  show ?case
  proof (cases "i < cx_code_syms c")
    case False
    then have "\<not> (i < length ORDER \<and> i < cx_code_syms c)" "drop i (take (cx_code_syms c) ORDER) = []" by simp_all
    with Suc order_done_sim show ?thesis by simp
  next
    case True
    have i: "i < length ORDER" using Suc.hyps(2) by simp
    have order: "drop i (take (cx_code_syms c) ORDER) = ORDER ! i # drop (Suc i) (take (cx_code_syms c) ORDER)"
      using i True by (simp add: Cons_nth_drop_Suc [symmetric])
    let ?sm = "ORDER ! i mod 32"
    obtain s1 v where x: "inf_bits 3 s = (s1, v)" by fastforce
    obtain t1 w where y: "inf_bits 3 (push_afresh 1 t) = (t1, w)" by fastforce
    have live: "\<not> in_exhausted s" using Suc.prems(1) by (simp add: os_rel_def ahead_def in_ok_def)
    have tr: "tracking [] (pair_at b h) s (push_afresh 1 t)" by (rule os_tracking [OF Suc.prems(1)]) simp
    note rd = read_bits [OF tr live x y, simplified]
    let ?c = "c\<lparr>cx_lengths := (cx_lengths c)[?sm := unat w]\<rparr>"
    have p: "push_step fmt (PCodeLengths i) (push_afresh (push_need (PCodeLengths i)) t) c = ((t1, ?c), Inr (PCodeLengths (i + 1)))"
      using i True y by (simp add: push_step_def push_code_lengths_def push_need_def)
    note ideal = push_ideal_at [OF p, simplified]
    have read: "(case read_order (drop i (take (cx_code_syms c) ORDER)) lens s of
          (s2, lengths) \<Rightarrow> after_order (cx_len_syms c) (cx_syms c) s2 lengths)
        = (case read_order (drop (Suc i) (take (cx_code_syms c) ORDER)) (lens[?sm := unat v]) s1 of
          (s2, lengths) \<Rightarrow> after_order (cx_len_syms c) (cx_syms c) s2 lengths)"
      unfolding order by (simp add: x)
    show ?thesis
    proof (cases "in_exhausted s1")
      case True
      have "keeps s1 (fst (case read_order (drop (Suc i) (take (cx_code_syms c) ORDER)) (lens[?sm := unat v]) s1 of
          (s2, lengths) \<Rightarrow> after_order (cx_len_syms c) (cx_syms c) s2 lengths))"
      proof -
        obtain s2 ls where r: "read_order (drop (Suc i) (take (cx_code_syms c) ORDER)) (lens[?sm := unat v]) s1 = (s2, ls)" by fastforce
        have "keeps s1 s2" using keeps_read_order [of s1 "drop (Suc i) (take (cx_code_syms c) ORDER)" "lens[?sm := unat v]"]
          unfolding r by simp
        from keeps_trans [OF this keeps_after_order] show ?thesis by (simp add: r)
      qed
      with True rd ideal show ?thesis unfolding read by (intro agrees_exhausted) (simp_all add: keeps_def)
    next
      case ok: False
      with rd have w: "w = v" and tr1: "tracking [] (pair_at b h) s1 t1" and tl: "\<not> in_exhausted t1" by simp_all
      have rel: "os_rel b h s1 (push_flush fmt t1)" using Suc.prems(1) inf_bits_small [OF x] inf_bits_small [OF y]
        by (intro tracking_ahead [OF tr1 ok]) (simp_all add: os_rel_def)
      have out: "ws_out (in_sink t1) = []" using tr1 ok by (simp add: tracking_def pair_at_def)
      have "unat v \<le> MAX_BITS" using inf_bits_value [OF x] by (simp add: MAX_BITS_def)
      then have like: "order_like ?c (lens[?sm := unat v])"
        using Suc.prems(2) push_step_ctx_ok [OF p] by (auto simp: order_like_def w list_all_update take_update_swap)
      have "agrees full (case read_order (drop (Suc i) (take (cx_code_syms ?c) ORDER)) (lens[?sm := unat v]) s1 of
            (s2, lengths) \<Rightarrow> after_order (cx_len_syms ?c) (cx_syms ?c) s2 lengths)
          (push_ideal fmt (PCodeLengths (Suc i)) (push_flush fmt t1) ?c)
          (block_ends b h ?c (push_ideal fmt (PCodeLengths (Suc i)) (push_flush fmt t1) ?c))"
        using Suc.hyps(2) by (intro Suc.hyps(1) rel like) simp
      moreover have "push_ideal fmt (PCodeLengths i) t c = push_ideal fmt (PCodeLengths (Suc i)) (push_flush fmt t1) ?c"
        using ideal tl out by simp
      ultimately show ?thesis unfolding read
        by simp (rule agrees_mono, assumption, rule block_ends_ctx [of ?c], simp_all)
    qed
  qed
qed

end

end
