(* ===== verification/EmbedPushStream.thy ===== *)
theory EmbedPushStream
  imports EmbedPushDynamic
begin

text \<open>
  Whole deflate streams: block headers, and blocks up to the last one, in both decoders.
\<close>

lemma inf_align_align: "inf_align (inf_align s) = inf_align s"
proof -
  have "inf_bits 0 t = (t, 0)" for t :: "'a inflate"
    by (simp add: inf_bits_def Let_def) (subst inf_fill.simps, simp)+
  moreover have "in_bit_cnt (inf_align s) mod 8 = 0" using inf_align_cnt [of s] by (simp add: dvd_eq_mod_eq_0)
  ultimately show ?thesis by (subst inf_align_def) simp
qed

lemma inf_align_zero: "in_bit_cnt s < 8 \<Longrightarrow> in_bit_cnt (inf_align s) = 0"
proof -
  assume "in_bit_cnt s < 8"
  moreover have "keeps s (inf_align s)" by (simp add: inf_align_def)
  ultimately have "in_bit_cnt (inf_align s) < 8" by (simp add: keeps_def)
  with inf_align_cnt [of s] show ?thesis using nat_dvd_not_less gr_zeroI by blast
qed

lemma stored_len_align: "stored_len (inf_align s) = stored_len s"
  by (simp add: stored_len_def inf_align_align)

lemma stored_len_ex:
  assumes "ahead [] s t"
  shows "in_exhausted (fst (stored_len s)) = in_exhausted (fst (stored_len t))"
  using tracks_live [OF tracks_stored_len [OF tracking_start [OF assms, of "\<lambda>_ _. True"]]]
    tracks_live [OF tracks_stored_len [OF tracking_start [OF ahead_sym [OF assms], of "\<lambda>_ _. True"]]] by blast

lemma dynamic_head_ex:
  assumes "ahead [] s t"
  shows "in_exhausted (fst (dynamic_head s)) = in_exhausted (fst (dynamic_head t))"
  using tracks_live [OF tracks_dynamic_head [OF tracking_start [OF assms, of "\<lambda>_ _. True"]]]
    tracks_live [OF tracks_dynamic_head [OF tracking_start [OF ahead_sym [OF assms], of "\<lambda>_ _. True"]]] by blast

text \<open>The ideal run from the result of a step on.\<close>

definition ideal_after :: "'f format_ops \<Rightarrow> ('f, push_state) push_result \<Rightarrow> outcome" where
  "ideal_after fmt r =
     (case r of ((t1, c1), x) \<Rightarrow>
        if in_exhausted t1 then ([], Some UnexpectedEnd)
        else case x of
          Inl e \<Rightarrow> (ws_out (in_sink t1), Some e)
        | Inr st' \<Rightarrow> emit (ws_out (in_sink t1)) (push_ideal fmt st' (push_flush fmt t1) c1))"

lemma ideal_after_exhausted: "in_exhausted (fst (fst r)) \<Longrightarrow> ideal_after fmt r = ([], Some UnexpectedEnd)"
  by (cases r; cases "fst r") (simp add: ideal_after_def)

lemma push_ideal_after:
  "st \<noteq> PDone \<Longrightarrow> \<not> (st = PNext \<and> fm_gzip fmt) \<Longrightarrow>
   push_ideal fmt st t c = ideal_after fmt (push_step fmt st (push_afresh (push_need st) t) c)"
  using push_ideal_at [of fmt st t c] unfolding ideal_after_def
  by (cases "push_step fmt st (push_afresh (push_need st) t) c") (simp split: prod.split)

text \<open>What a block's header leads to, by the kind of the block.\<close>

definition push_kind :: "'f push \<Rightarrow> push_context \<Rightarrow> u16 \<Rightarrow> ('f, push_state) push_result" where
  "push_kind s c kind =
     (if kind = 0 then ((inf_align s, c), Inr PStoredLen)
      else if kind = 1 then
        (case build_codes fixed_lengths MAX_LEN_SYMS (cx_tables c) of (t, r) \<Rightarrow>
           ((s, c\<lparr>cx_lengths := fixed_lengths, cx_tables := t\<rparr>), case r of Inl e \<Rightarrow> Inl e | Inr _ \<Rightarrow> Inr PLength))
      else if kind = 2 then
        (case dynamic_head s of
           (s3, Inl e) \<Rightarrow> ((s3, c), Inl e)
         | (s3, Inr (len_syms, dist_syms, code_syms)) \<Rightarrow>
             ((s3, c\<lparr>cx_len_syms := len_syms, cx_syms := len_syms + dist_syms, cx_code_syms := code_syms,
                     cx_lengths := replicate 19 0 @ drop 19 (cx_lengths c)\<rparr>), Inr (PCodeLengths 0)))
      else ((s, c), Inl InvalidBlockType))"

lemma push_block_kind:
  "push_block s c = (case inf_bits 1 s of (s1, fin) \<Rightarrow> case inf_bits 2 s1 of (s2, kind) \<Rightarrow>
     push_kind s2 (c\<lparr>cx_last := (fin \<noteq> 0)\<rparr>) kind)"
  by (simp add: push_block_def push_kind_def Let_def)

lemma push_kind_exhausted: "in_exhausted s \<Longrightarrow> in_exhausted (fst (fst (push_kind s c kind)))"
  using keeps_dynamic_head [of s] unfolding push_kind_def keeps_def
  by (auto simp: inf_align_here split: prod.split sum.split)

lemma kind_unat: "(unat (k :: u16) = 0) = (k = 0)" "(unat (k :: u16) = 1) = (k = 1)" "(unat (k :: u16) = 2) = (k = 2)"
  by (auto simp: word_unat_eq_iff)

context embed_pair
begin

lemma tracking_align_rel:
  assumes "tracking [] (pair_at b h) s t" and "\<not> in_exhausted s" and "in_bit_cnt s < 8" and "in_bit_cnt t < 8"
  shows "tracking [] (pair_at b h) (inf_align s) (inf_align t) \<and> \<not> in_exhausted (inf_align s)
    \<and> in_bit_cnt (inf_align s) = 0 \<and> in_bit_cnt (inf_align t) = 0"
proof -
  show ?thesis using tracking_align [OF assms(1)] assms by (simp add: inf_align_here inf_align_zero)
qed

lemma bad_kind_sim:
  assumes tr: "tracking [] (pair_at b h) s t" and live: "\<not> in_exhausted s"
    and small: "in_bit_cnt s < 8" "in_bit_cnt t < 8" and ok: "ctx_ok c" and "kind \<noteq> 0" and "kind \<noteq> 1" and "kind \<noteq> 2"
  shows "agrees full (inf_block ops (unat kind) s) (ideal_after fmt (push_kind t c kind))
    (block_ends b h c (ideal_after fmt (push_kind t c kind)))"
proof -
  have a: "ahead [] s t" and live2: "\<not> in_exhausted t" and out: "ws_out (in_sink t) = []"
    using tr live by (auto simp: tracking_def ahead_def in_ok_def pair_at_def)
  have rel: "os_rel b h s (push_flush fmt t)" by (rule tracking_ahead [OF tr live small])
  have "inf_block ops (unat kind) s = (s, Inl InvalidBlockType)" using assms(6-8) by (simp add: inf_block_def kind_unat del: One_nat_def)
  with assms(6-8) live live2 show ?thesis
    by (intro agrees_Inl [where s = s and e = InvalidBlockType]) (simp_all add: push_kind_def ideal_after_def)
qed

lemma fixed_sim:
  assumes tr: "tracking [] (pair_at b h) s t" and live: "\<not> in_exhausted s"
    and small: "in_bit_cnt s < 8" "in_bit_cnt t < 8" and ok: "ctx_ok c" and kind: "kind = 1"
  shows "agrees full (inf_block ops (unat kind) s) (ideal_after fmt (push_kind t c kind))
    (block_ends b h c (ideal_after fmt (push_kind t c kind)))"
proof -
  have a: "ahead [] s t" and live2: "\<not> in_exhausted t" and out: "ws_out (in_sink t) = []"
    using tr live by (auto simp: tracking_def ahead_def in_ok_def pair_at_def)
  have rel: "os_rel b h s (push_flush fmt t)" by (rule tracking_ahead [OF tr live small])
  obtain tb r where build: "build_codes fixed_lengths 288 (cx_tables c) = (tb, r)" by fastforce
  let ?c = "c\<lparr>cx_lengths := fixed_lengths\<rparr>"
  have ok': "ctx_ok ?c" using ok fixed_lengths_ok by (simp add: ctx_ok_def)
  have "288 \<le> length fixed_lengths" "(288 :: nat) \<le> 288" "length fixed_lengths \<le> 288 + 32" "build_codes fixed_lengths 288 (cx_tables ?c) = (tb, r)"
    using fixed_lengths_ok(1) build by (simp_all add: sizes)
  note codes = codes_sim [OF rel ok' fixed_lengths_ok(2) this]
  have block: "inf_block ops (unat kind) s = compressed ops fixed_lengths 288 s" using kind by (simp add: inf_block_def sizes del: One_nat_def)
  have kind: "push_kind t c kind = ((t, ?c\<lparr>cx_tables := tb\<rparr>), case r of Inl e \<Rightarrow> Inl e | Inr _ \<Rightarrow> Inr PLength)"
    using kind build by (simp add: push_kind_def sizes)
  show ?thesis
  proof (cases r)
    case (Inl e)
    with codes(1) fixed_lengths_ok(1) live live2 kind block show ?thesis
      by (intro agrees_Inl [where s = s and e = e]) (simp_all add: ideal_after_def sizes)
  next
    case (Inr u)
    let ?c2 = "?c\<lparr>cx_tables := tb\<rparr>"
    have y: "ideal_after fmt (push_kind t c kind) = push_ideal fmt PLength (push_flush fmt t) ?c2"
      using Inr kind live2 out by (simp add: ideal_after_def)
    have "ctx_ok ?c2 \<and> agrees full (compressed ops fixed_lengths 288 s) (push_ideal fmt PLength (push_flush fmt t) ?c2)
        (reaches_end b h ?c2 (push_ideal fmt PLength (push_flush fmt t) ?c2))"
      using codes(2) Inr fixed_lengths_ok(1) by (simp add: sizes)
    then show ?thesis unfolding y block
      by (elim conjE agrees_mono) (auto simp: block_ends_def intro!: exI [of _ ?c2])
  qed
qed

lemma stored_block_sim:
  assumes tr: "tracking [] (pair_at b h) s t" and live: "\<not> in_exhausted s"
    and small: "in_bit_cnt s < 8" "in_bit_cnt t < 8" and ok: "ctx_ok c" and kind: "kind = 0"
  shows "agrees full (inf_block ops (unat kind) s) (ideal_after fmt (push_kind t c kind))
    (block_ends b h c (ideal_after fmt (push_kind t c kind)))"
proof -
  have a: "ahead [] s t" and live2: "\<not> in_exhausted t" and out: "ws_out (in_sink t) = []"
    using tr live by (auto simp: tracking_def ahead_def in_ok_def pair_at_def)
  have rel: "os_rel b h s (push_flush fmt t)" by (rule tracking_ahead [OF tr live small])
  let ?s = "inf_align s" and ?t = "push_flush fmt (inf_align t)"
  have al: "tracking [] (pair_at b h) ?s (inf_align t)" "\<not> in_exhausted ?s" "in_bit_cnt ?s = 0" "in_bit_cnt (inf_align t) = 0"
    using tracking_align_rel [OF tr live small] by simp_all
  have rel1: "os_rel b h ?s ?t" by (rule tracking_ahead [OF al(1,2)]) (simp_all add: al)
  have y: "ideal_after fmt (push_kind t c kind) = push_ideal fmt PStoredLen ?t c"
    using kind live2 out by (simp add: push_kind_def ideal_after_def inf_align_here)
  obtain s1 r where x: "stored_len ?s = (s1, r)" by fastforce
  obtain t1 r' where x': "stored_len (push_afresh 1 ?t) = (t1, r')" by fastforce
  have "keeps ?s s1" "keeps (push_afresh 1 ?t) t1"
    using keeps_stored_len [of ?s] keeps_stored_len [of "push_afresh 1 ?t"] unfolding x x' by simp_all
  with rel1 have small1: "in_bit_cnt s1 < 8" "in_bit_cnt t1 < 8" by (auto simp: os_rel_def dest: keeps_small)
  have ex: "in_exhausted t1 = in_exhausted s1" using stored_len_ex [of ?s "push_afresh 1 ?t"] rel1 x x' by (simp add: os_rel_def)
  have tr1: "ahead [] s1 t1 \<and> pair_at b h (in_sink s1) (in_sink t1) \<and> r' = r" if "\<not> in_exhausted s1"
    using tracks_stored_len [OF os_tracking [OF rel1, of 1], of "\<lambda>_. False"] that x x' by (auto simp: tracks_def sum.rel_eq)
  have block: "inf_block ops (unat kind) s = andthen (s1, r) (\<lambda>s1 len. stored_bytes ops (unat len) s1)"
    using kind x by (simp add: inf_block_def stored_len_align)
  have push: "push_ideal fmt PStoredLen ?t c
      = ideal_after fmt ((t1, c), case r' of Inl e \<Rightarrow> Inl e | Inr len \<Rightarrow> Inr (PStored (unat len)))"
    using push_ideal_after [of PStoredLen fmt ?t c] x'
    by (simp add: push_step_def push_need_def with_context_def andthen_def split: sum.split)
  show ?thesis
  proof (cases "in_exhausted s1")
    case True
    then have "in_exhausted (fst (andthen (s1, r) (\<lambda>s1 len. stored_bytes ops (unat len) s1)))"
      using keeps_stored_bytes [of s1 ops] by (cases r) (simp_all add: keeps_def)
    with True ex show ?thesis unfolding block y push by (intro agrees_exhausted) (simp_all add: ideal_after_def)
  next
    case l1: False
    show ?thesis
    proof (cases r)
      case (Inl e)
      with tr1 l1 ex show ?thesis unfolding block y push
        by (intro agrees_Inl [where s = s1 and e = e]) (simp_all add: ideal_after_def)
    next
      case (Inr len)
      from tr1 [OF l1] have p: "ahead [] s1 t1" "pair_at b h (in_sink s1) (in_sink t1)" "r' = r" by simp_all
      have o: "ws_out (in_sink t1) = []" using p(2) by (simp add: pair_at_def)
      have "os_rel b (h @ ws_out (in_sink t1)) s1 (push_flush fmt t1)" by (rule os_flush [OF p(1) pair_at_by [OF p(2)] small1])
      then have r1: "os_rel b h s1 (push_flush fmt t1)" by (simp add: o)
      have "ideal_after fmt ((t1, c), case r' of Inl e \<Rightarrow> Inl e | Inr len \<Rightarrow> Inr (PStored (unat len)))
          = push_ideal fmt (PStored (unat len)) (push_flush fmt t1) c"
        using l1 ex p(3) Inr o by (simp add: ideal_after_def)
      then show ?thesis unfolding block y push using stored_sim [OF r1, of "unat len" c] ok Inr
        by simp (rule agrees_mono, assumption, auto simp: block_ends_def)
    qed
  qed
qed

lemma dynamic_sim:
  assumes tr: "tracking [] (pair_at b h) s t" and live: "\<not> in_exhausted s"
    and small: "in_bit_cnt s < 8" "in_bit_cnt t < 8" and ok: "ctx_ok c" and kind: "kind = 2"
  shows "agrees full (inf_block ops (unat kind) s) (ideal_after fmt (push_kind t c kind))
    (block_ends b h c (ideal_after fmt (push_kind t c kind)))"
proof -
  have a: "ahead [] s t" and live2: "\<not> in_exhausted t" and out: "ws_out (in_sink t) = []"
    using tr live by (auto simp: tracking_def ahead_def in_ok_def pair_at_def)
  have rel: "os_rel b h s (push_flush fmt t)" by (rule tracking_ahead [OF tr live small])
  obtain s1 r where x: "dynamic_head s = (s1, r)" by fastforce
  obtain t1 r' where x': "dynamic_head t = (t1, r')" by fastforce
  have "keeps s s1" "keeps t t1" using keeps_dynamic_head [of s] keeps_dynamic_head [of t] unfolding x x' by simp_all
  with small have small1: "in_bit_cnt s1 < 8" "in_bit_cnt t1 < 8" by (auto dest: keeps_small)
  have ex: "in_exhausted t1 = in_exhausted s1" using dynamic_head_ex [OF a] x x' by simp
  have tr1: "tracking [] (pair_at b h) s1 t1 \<and> r' = r" if "\<not> in_exhausted s1"
    using tracks_dynamic_head [OF tr, of "\<lambda>_. False"] that x x' by (auto simp: tracks_def sum.rel_eq tracking_def)
  have block: "inf_block ops (unat kind) s = andthen (s1, r) (\<lambda>s1 (l, d, cs).
      case read_order (drop 0 (take cs ORDER)) (replicate MAX_SYMS 0) s1 of (s2, lengths) \<Rightarrow> after_order l (l + d) s2 lengths)"
  proof -
    have "after_lengths l = (\<lambda>s3 ls. if 256 < length ls \<and> ls ! 256 = 0 then (s3, Inl InvalidHuffmanTree) else compressed ops ls l s3)" for l
      by (intro ext) (simp add: after_lengths_def)
    with kind show ?thesis by (simp add: inf_block_def dynamic_def x after_order_def cong: if_cong)
  qed
  have push: "push_kind t c kind = (case r' of Inl e \<Rightarrow> ((t1, c), Inl e) | Inr (l, d, cs) \<Rightarrow>
      ((t1, c\<lparr>cx_len_syms := l, cx_syms := l + d, cx_code_syms := cs, cx_lengths := replicate 19 0 @ drop 19 (cx_lengths c)\<rparr>),
        Inr (PCodeLengths 0)))"
    using kind by (simp add: push_kind_def x' split: sum.split)
  show ?thesis
  proof (cases "in_exhausted s1")
    case True
    have "in_exhausted (fst (case read_order order lens s1 of (s2, lengths) \<Rightarrow> after_order l m s2 lengths))" for order lens l m
    proof -
      obtain s2 ls where r: "read_order order lens s1 = (s2, ls)" by fastforce
      have "keeps s1 s2" using keeps_read_order [of s1 order lens] unfolding r by simp
      from keeps_trans [OF this keeps_after_order [of s2 l m ls]] True show ?thesis by (simp add: r keeps_def)
    qed
    with True have "in_exhausted (fst (andthen (s1, r) (\<lambda>s1 (l, d, cs).
        case read_order (drop 0 (take cs ORDER)) (replicate MAX_SYMS 0) s1 of (s2, lengths) \<Rightarrow> after_order l (l + d) s2 lengths)))"
      by (cases r) (simp_all split: prod.split)
    with True ex show ?thesis unfolding block push
      by (intro agrees_exhausted) (auto simp: ideal_after_def split: sum.split)
  next
    case l1: False
    show ?thesis
    proof (cases r)
      case (Inl e)
      with tr1 l1 ex show ?thesis unfolding block push
        by (intro agrees_Inl [where s = s1 and e = e]) (simp_all add: ideal_after_def)
    next
      case (Inr q)
      obtain l d cs where q: "q = (l, d, cs)" by (cases q)
      let ?c = "c\<lparr>cx_len_syms := l, cx_syms := l + d, cx_code_syms := cs, cx_lengths := replicate 19 0 @ drop 19 (cx_lengths c)\<rparr>"
      have dims: "l \<le> 286" "d \<le> 30" using x Inr q by (auto simp: dynamic_head_def Let_def split: prod.splits if_splits)
      have like: "order_like ?c (replicate MAX_SYMS 0)"
        using ok dims by (auto simp: order_like_def ctx_ok_def sizes list_all_iff dest!: in_set_dropD)
      have rel1: "os_rel b h s1 (push_flush fmt t1)" using tr1 [OF l1] small1 by (intro tracking_ahead l1) simp_all
      have o: "ws_out (in_sink t1) = []" using tr1 [OF l1] l1 by (simp add: tracking_def pair_at_def)
      have y: "ideal_after fmt (push_kind t c kind) = push_ideal fmt (PCodeLengths 0) (push_flush fmt t1) ?c"
        using tr1 [OF l1] l1 ex o by (simp add: push Inr q ideal_after_def)
      show ?thesis unfolding block y using order_sim [OF rel1 like, of 0] Inr q
        by simp (rule agrees_mono, assumption, rule block_ends_ctx [of ?c], simp_all)
    qed
  qed
qed

lemma kind_sim:
  assumes "tracking [] (pair_at b h) s t" and "\<not> in_exhausted s"
    and "in_bit_cnt s < 8" and "in_bit_cnt t < 8" and "ctx_ok c"
  shows "agrees full (inf_block ops (unat kind) s) (ideal_after fmt (push_kind t c kind))
    (block_ends b h c (ideal_after fmt (push_kind t c kind)))"
  using stored_block_sim [OF assms] fixed_sim [OF assms] dynamic_sim [OF assms] bad_kind_sim [OF assms] by blast

text \<open>All the blocks of a stream.\<close>

definition stream_ends :: "nat \<Rightarrow> byte list \<Rightarrow> push_context \<Rightarrow> outcome \<Rightarrow> unit \<Rightarrow> 'o inflate \<Rightarrow> bool" where
  "stream_ends b h c0 y u s \<longleftrightarrow>
     (\<exists>d t c. y = emit d (push_ideal fmt (if fm_trailer fmt = 0 then PDone else PChecksum) t c) \<and> os_rel b (h @ d) s t
        \<and> ctx_ok c \<and> cx_start c = cx_start c0 \<and> in_bit_cnt s = 0 \<and> in_bit_cnt t = 0)"

lemma stream_ends_emit: "stream_ends b (h @ d) c y u s \<Longrightarrow> stream_ends b h c (emit d y) u s"
  unfolding stream_ends_def by (elim exE conjE, rule exI, rule exI, rule exI) (auto simp: emit_def)

lemma stream_ends_ctx: "cx_start c1 = cx_start c \<Longrightarrow> stream_ends b h c1 y u s \<Longrightarrow> stream_ends b h c y u s"
  by (auto simp: stream_ends_def)

lemma last_block_ends:
  assumes "block_ends b h c y () s" and "cx_last c"
  shows "stream_ends b h c y () (inf_align s)"
proof -
  from assms obtain c1 d t where c1: "ctx_ok c1" "cx_last c1" "cx_start c1 = cx_start c"
    and y: "y = emit d (ideal_end fmt t c1)" and rel: "os_rel b (h @ d) s t" and out: "ws_out (in_sink t) = []"
    by (auto simp: block_ends_def reaches_end_def)
  have live: "\<not> in_exhausted s" using rel by (simp add: os_rel_def ahead_def in_ok_def)
  let ?t = "push_flush fmt (push_afresh 1 (inf_align t))"
  let ?t2 = "push_flush fmt ((inf_align t)\<lparr>in_sink := ws_flush fmt (in_sink (inf_align t))\<rparr>)"
  have tr: "tracking [] (pair_at b (h @ d)) s (push_afresh 1 t)" by (rule os_tracking [OF rel]) simp
  have al: "tracking [] (\<lambda>_ _. True) (inf_align s) (inf_align t)"
    using rel by (intro tracking_align tracking_start) (simp_all add: os_rel_def)
  have "ahead [] (inf_align s) (inf_align t)" using al live by (simp add: tracking_def inf_align_here)
  moreover have zero: "in_bit_cnt (inf_align s) = 0" "in_bit_cnt (inf_align t) = 0"
    using rel by (simp_all add: os_rel_def inf_align_zero)
  moreover have "fm_update fmt (fm_update fmt (fed (drop b (h @ d))) []) [] = fed (drop b (h @ d))"
    by (simp add: fed_update)
  ultimately have "os_rel b (h @ d) (inf_align s) ?t2"
    using rel out by (auto simp: os_rel_def ws_flush_def)
  moreover have "ideal_end fmt t c1 = push_ideal fmt (if fm_trailer fmt = 0 then PDone else PChecksum) ?t2 c1"
    using c1(2) by (simp add: ideal_end_def push_block_end_def Let_def)
  ultimately show ?thesis using y c1 zero unfolding stream_ends_def
    by (intro exI [of _ d] exI [of _ ?t2] exI [of _ c1]) simp
qed

lemma blocks_sim:
  assumes "os_rel b h s t" and "ctx_ok c" and "inf_blocks ops s = Some (s', r)"
  shows "agrees full (s', r) (push_ideal fmt PBlock t c) (stream_ends b h c (push_ideal fmt PBlock t c))"
  using assms
proof (induction "inf_left s" arbitrary: s t h c rule: less_induct)
  case less
  obtain s1 fin where b1: "inf_bits 1 s = (s1, fin)" by fastforce
  obtain s2 kind where b2: "inf_bits 2 s1 = (s2, kind)" by fastforce
  obtain s3 q where blk: "inf_block ops (unat kind) s2 = (s3, q)" by fastforce
  obtain t1 fin' where d1: "inf_bits 1 (push_afresh 1 t) = (t1, fin')" by fastforce
  obtain t2 kind' where d2: "inf_bits 2 t1 = (t2, kind')" by fastforce
  have live: "\<not> in_exhausted s" and small: "in_bit_cnt s < 8" "in_bit_cnt (push_afresh 1 t) < 8" and inv: "in_inv s"
    using less.prems(1) by (auto simp: os_rel_def ahead_def in_ok_def in_inv_def)
  have small2: "in_bit_cnt s2 < 8" "in_bit_cnt t2 < 8"
    using inf_bits_small [OF b2 inf_bits_small [OF b1 small(1)]] inf_bits_small [OF d2 inf_bits_small [OF d1 small(2)]] .
  have k: "keeps s s2" "keeps s2 s3"
    using keeps_trans [OF keeps_bits [OF b1] keeps_bits [OF b2]] keeps_block [of s2 ops "unat kind"] blk by simp_all
  have tr: "tracking [] (pair_at b h) s (push_afresh 1 t)" by (rule os_tracking [OF less.prems(1)]) simp
  let ?c = "c\<lparr>cx_last := (fin' \<noteq> 0)\<rparr>"
  have y: "push_ideal fmt PBlock t c = ideal_after fmt (push_kind t2 ?c kind')"
    using push_ideal_after [of PBlock fmt t c] d1 d2 by (simp add: push_step_def push_need_def push_block_kind)
  have x: "Some (s', r) = (case q of Inl e \<Rightarrow> Some (s3, Inl e)
      | Inr _ \<Rightarrow> if fin \<noteq> 0 then Some (inf_align s3, Inr ()) else inf_blocks ops s3)"
    using less.prems(3) unfolding inf_blocks.simps [of ops s] b1 b2 blk prod.case by simp
  have rest: "keeps s3 s'"
  proof -
    have "keeps s3 (inf_align s3)" by (simp add: inf_align_def)
    moreover have "in_inv s3" using k inv by (auto simp: keeps_def)
    ultimately show ?thesis using x inf_blocks_total [of s3 ops] by (auto split: sum.splits if_splits)
  qed
  show ?case
  proof (cases "in_exhausted s2")
    case True
    then have "in_exhausted s'" using k rest by (auto simp: keeps_def)
    moreover have "in_exhausted t2"
    proof (cases "in_exhausted s1")
      case True
      with read_bits(1) [OF tr live b1 d1] inf_bits_exhausted [OF d2] show ?thesis by simp
    next
      case False
      with read_bits(2) [OF tr live b1 d1] read_bits(1) [OF _ False b2 d2] True False show ?thesis by auto
    qed
    with push_kind_exhausted [of t2 ?c kind'] have "snd (push_ideal fmt PBlock t c) = Some UnexpectedEnd"
      unfolding y by (simp add: ideal_after_exhausted)
    ultimately show ?thesis by (intro agrees_exhausted) simp_all
  next
    case l2: False
    then have l1: "\<not> in_exhausted s1" using inf_bits_exhausted [OF b2] by blast
    from read_bits(2) [OF tr live b1 d1] l1 have r1: "fin' = fin" "tracking [] (pair_at b h) s1 t1" by simp_all
    from read_bits(2) [OF r1(2) l1 b2 d2] l2 have r2: "kind' = kind" "tracking [] (pair_at b h) s2 t2" by simp_all
    have "ctx_ok ?c" using less.prems(2) by (simp add: ctx_ok_def)
    from kind_sim [OF r2(2) l2 small2 this, of kind]
    have sim: "agrees full (s3, q) (push_ideal fmt PBlock t c) (block_ends b h ?c (push_ideal fmt PBlock t c))"
      by (simp add: y r2(1) blk)
    show ?thesis
    proof (cases "in_exhausted s3")
      case True
      with sim rest show ?thesis by (intro agrees_exhausted) (auto simp: agrees_def keeps_def)
    next
      case l3: False
      show ?thesis
      proof (cases q)
        case (Inl e)
        with sim x l3 show ?thesis by (simp add: agrees_def)
      next
        case (Inr u)
        with sim l3 have ends: "block_ends b h ?c (push_ideal fmt PBlock t c) () s3" by (simp add: agrees_def)
        show ?thesis
        proof (cases "fin = 0")
          case False
          with x Inr have s': "s' = inf_align s3" "r = Inr ()" by simp_all
          have "stream_ends b h ?c (push_ideal fmt PBlock t c) () (inf_align s3)"
            using last_block_ends [OF ends] False r1(1) by simp
          then have "stream_ends b h c (push_ideal fmt PBlock t c) () (inf_align s3)" by (rule stream_ends_ctx [rotated]) simp
          with l3 s' show ?thesis by (intro agrees_Inr [where s = s']) (simp_all add: inf_align_here)
        next
          case True
          from ends obtain c1 d t3 where c1: "ctx_ok c1" "\<not> cx_last c1" "cx_start c1 = cx_start c"
            and y3: "push_ideal fmt PBlock t c = emit d (ideal_end fmt t3 c1)" and rel: "os_rel b (h @ d) s3 t3"
            and out: "ws_out (in_sink t3) = []" using True r1(1) by (auto simp: block_ends_def reaches_end_def)
          have e: "ideal_end fmt t3 c1 = push_ideal fmt PBlock (push_flush fmt t3) c1"
            using c1(2) by (simp add: ideal_end_def push_block_end_def)
          have rel3: "os_rel b (h @ d) s3 (push_flush fmt t3)"
            using rel out fed_update [of "drop b (h @ d)" "[]"] by (auto simp: os_rel_def ws_flush_def)
          have "inf_left s1 < inf_left s" using inf_bits_left [OF b1 l1] by simp
          moreover have "inf_left s3 \<le> inf_left s1"
            using keeps_trans [OF keeps_bits [OF b2] k(2)] l3 by (simp add: keeps_def)
          ultimately have "agrees full (s', r) (push_ideal fmt PBlock (push_flush fmt t3) c1)
              (stream_ends b (h @ d) c1 (push_ideal fmt PBlock (push_flush fmt t3) c1))"
            using x Inr True by (intro less.hyps [OF _ rel3 c1(1)]) simp_all
          then show ?thesis unfolding y3 e
            by (rule agrees_emit) (rule stream_ends_emit, rule stream_ends_ctx [OF c1(3)])
        qed
      qed
    qed
  qed
qed

end

end
