(* ===== verification/EmbedPushHeader.thy ===== *)
theory EmbedPushHeader
  imports EmbedPushStream
begin

text \<open>
  The containers' headers, read by the one-shot decoder in one go and by the push decoder field by
  field.
\<close>

section \<open>Fixed fields\<close>

definition gzip_flags :: "'o inflate \<Rightarrow> ('o, u16) inf_result" where
  "gzip_flags s =
     (case inf_bits 16 s of (s1, magic) \<Rightarrow>
      if magic \<noteq> 0x8b1f then (s1, Inl BadHeader)
      else
        case inf_bits 8 s1 of (s2, cm) \<Rightarrow>
        if cm \<noteq> 8 then (s2, Inl Unsupported)
        else
          case inf_bits 8 s2 of (s3, flags) \<Rightarrow>
          if flags AND GZ_RESERVED \<noteq> 0 then (s3, Inl Unsupported) else (s3, Inr flags))"

definition zlib_head :: "'o inflate \<Rightarrow> ('o, unit) inf_result" where
  "zlib_head s =
     (case inf_bits 8 s of (s1, cmf) \<Rightarrow>
      case inf_bits 8 s1 of (s2, flg) \<Rightarrow>
      if cmf AND 0x0f \<noteq> 8 then (s2, Inl Unsupported)
      else if (cmf * 256 + flg) mod 31 \<noteq> 0 then (s2, Inl BadHeader)
      else if flg AND FDICT \<noteq> 0 then (s2, Inl Unsupported)
      else (s2, Inr ()))"

definition word_of :: "'o inflate \<Rightarrow> ('o, u32) inf_result" where
  "word_of s = (case inf_word s of (s1, w) \<Rightarrow> (s1, Inr w))"

lemma word_of_bits:
  "word_of s = (case inf_bits 16 s of (s1, low) \<Rightarrow> case inf_bits 16 s1 of (s2, high) \<Rightarrow>
     (s2, Inr (push_bit 16 (ucast high) OR ucast low)))"
  by (simp add: word_of_def inf_word_def split: prod.split)

lemma keeps_fields [simp]: "keeps s (fst (gzip_flags s))" "keeps s (fst (zlib_head s))" "keeps s (fst (word_of s))"
proof -
  show "keeps s (fst (gzip_flags s))" unfolding gzip_flags_def by (auto intro!: keeps_case_bits)
  show "keeps s (fst (zlib_head s))" unfolding zlib_head_def by (auto intro!: keeps_case_bits)
  show "keeps s (fst (word_of s))" using keeps_word [of s] by (auto simp: word_of_def split: prod.split)
qed

lemma tracks_fields:
  assumes "tracking ext Q s t"
  shows "tracks esc ext Q (=) (gzip_flags s) (gzip_flags t)" and "tracks esc ext Q (=) (zlib_head s) (zlib_head t)"
    and "tracks esc ext Q (=) (word_of s) (word_of t)"
proof -
  show "tracks esc ext Q (=) (gzip_flags s) (gzip_flags t)" unfolding gzip_flags_def
    by (intro tracks_case_bits [OF assms]) (auto intro!: tracks_case_bits tracks_if tracks_Inr tracks_Inl keeps_case_bits)
  show "tracks esc ext Q (=) (zlib_head s) (zlib_head t)" unfolding zlib_head_def
    by (intro tracks_case_bits [OF assms]) (auto intro!: tracks_case_bits tracks_if tracks_Inr tracks_Inl keeps_case_bits)
  show "tracks esc ext Q (=) (word_of s) (word_of t)" unfolding word_of_bits
    by (intro tracks_case_bits [OF assms]) (auto intro!: tracks_case_bits tracks_Inr keeps_case_bits)
qed

lemma fields_ex:
  assumes "ahead [] s t"
  shows "in_exhausted (fst (gzip_flags t)) = in_exhausted (fst (gzip_flags s))"
    and "in_exhausted (fst (zlib_head t)) = in_exhausted (fst (zlib_head s))"
    and "in_exhausted (fst (word_of t)) = in_exhausted (fst (word_of s))"
  using tracks_fields [OF tracking_start [OF assms, of "\<lambda>_ _. True"], of "\<lambda>_. False", THEN tracks_live]
    tracks_fields [OF tracking_start [OF ahead_sym [OF assms], of "\<lambda>_ _. True"], of "\<lambda>_. False", THEN tracks_live]
  by blast+

lemma gzip_header_flags:
  "gzip_header s = (case gzip_flags s of (s1, Inl e) \<Rightarrow> Some (s1, Inl e)
     | (s1, Inr flags) \<Rightarrow> map_option (\<lambda>s2. (s2, Inr ())) (gzip_fields flags s1))"
  by (simp add: gzip_header_def gzip_flags_def split: prod.split)

lemma zlib_container_head:
  "zlib_container fmt ops s = (case zlib_head s of (s1, Inl e) \<Rightarrow> Some (s1, Inl e)
     | (s1, Inr _) \<Rightarrow> map_option (\<lambda>r. andthen r (\<lambda>s2 _. case inf_word s2 of (s3, check) \<Rightarrow> (s3, inf_verify fmt ops s3 0 check)))
         (inf_blocks ops s1))"
  by (simp add: zlib_container_def zlib_head_def split: prod.split)

lemma push_member_flags:
  "push_member fmt t c = with_context (c\<lparr>cx_start := wd_pos (ws_window (in_sink t))\<rparr>)
     (andthen (gzip_flags (t\<lparr>in_sink := (in_sink t)\<lparr>ws_format := fm_init fmt\<rparr>\<rparr>)) (\<lambda>t1 flags. (t1, Inr (PSkip 6 flags))))"
  by (simp add: push_member_def gzip_flags_def with_context_def Let_def split: prod.split)

lemma push_start_head:
  assumes "\<not> fm_gzip fmt" and "fm_trailer fmt \<noteq> 0"
  shows "fst (fst (push_start fmt t c)) = fst (zlib_head t)"
    and "snd (push_start fmt t c) = map_sum id (\<lambda>_. PBlock) (snd (zlib_head t))"
    and "\<exists>w. snd (fst (push_start fmt t c)) = c\<lparr>cx_start := w\<rparr> \<or> snd (fst (push_start fmt t c)) = c"
  using assms by (auto simp: push_start_def zlib_head_def split: prod.split)

section \<open>The flags of a gzip header\<close>

lemma flag_bits:
  "flags AND FEXTRA \<noteq> 0 \<longleftrightarrow> bit flags 2" "flags AND FNAME \<noteq> 0 \<longleftrightarrow> bit flags 3"
  "flags AND FCOMMENT \<noteq> 0 \<longleftrightarrow> bit flags 4" "flags AND FHCRC \<noteq> 0 \<longleftrightarrow> bit flags 1" for flags :: u16
  using and_exp_eq_0_iff_not_bit [of flags 2] and_exp_eq_0_iff_not_bit [of flags 3]
    and_exp_eq_0_iff_not_bit [of flags 4] and_exp_eq_0_iff_not_bit [of flags 1]
  by (simp_all add: FEXTRA_def FNAME_def FCOMMENT_def FHCRC_def)

lemma bit_clear: "k < 16 \<Longrightarrow> bit (flags AND NOT (push_bit k 1)) i \<longleftrightarrow> bit flags i \<and> i \<noteq> k" for flags :: u16
  using bit_imp_le_length [of flags i] by (auto simp: bit_and_iff bit_not_iff bit_exp_iff)

lemma bit_only: "k < 16 \<Longrightarrow> flags AND push_bit k 1 = (if bit flags k then push_bit k 1 else 0)" for flags :: u16
  by (rule bit_word_eqI) (auto simp: bit_and_iff bit_exp_iff)

lemmas flag_clear =
  bit_clear [of 2, folded FEXTRA_def, simplified] bit_clear [of 3, folded FNAME_def, simplified]
  bit_clear [of 4, folded FCOMMENT_def, simplified] bit_clear [of 1, folded FHCRC_def, simplified]

text \<open>The lowest flag of a text that is still to be skipped.\<close>

lemma text_flags:
  fixes flags :: u16
  defines "txt \<equiv> flags AND (FNAME OR FCOMMENT)"
  shows "txt \<noteq> 0 \<longleftrightarrow> bit flags 3 \<or> bit flags 4"
    and "bit flags 3 \<Longrightarrow> txt AND - txt = FNAME" and "\<not> bit flags 3 \<Longrightarrow> bit flags 4 \<Longrightarrow> txt AND - txt = FCOMMENT"
proof -
  have t: "txt = (flags AND FNAME) OR (flags AND FCOMMENT)" by (simp add: txt_def and.commute bit.conj_disj_distrib)
  have n: "flags AND FNAME = (if bit flags 3 then FNAME else 0)" "flags AND FCOMMENT = (if bit flags 4 then FCOMMENT else 0)"
    unfolding FNAME_def FCOMMENT_def by (rule bit_only, simp)+
  have v: "FNAME = 8" "FCOMMENT = 16" by (simp_all add: FNAME_def FCOMMENT_def)
  show "txt \<noteq> 0 \<longleftrightarrow> bit flags 3 \<or> bit flags 4" unfolding t n unfolding v by simp
  show "bit flags 3 \<Longrightarrow> txt AND - txt = FNAME" unfolding t n unfolding v by simp
  show "\<not> bit flags 3 \<Longrightarrow> bit flags 4 \<Longrightarrow> txt AND - txt = FCOMMENT" unfolding t n unfolding v by simp
qed

section \<open>Header fields in both decoders\<close>

context embed_pair
begin

text \<open>
  The one-shot decoder is at \<open>s\<close> with the output \<open>h\<close>, where the ideal outcome \<open>y\<close> is that of the
  push decoder in the state \<open>st\<close>; unless the input has run out, of which \<open>y\<close> knows too.
\<close>

definition leads :: "nat \<Rightarrow> byte list \<Rightarrow> 'o inflate \<Rightarrow> outcome \<Rightarrow> push_state \<Rightarrow> push_context \<Rightarrow> bool" where
  "leads b h s y st c \<longleftrightarrow>
     (if in_exhausted s then snd y = Some UnexpectedEnd else \<exists>t. os_rel b h s t \<and> y = push_ideal fmt st t c)"

text \<open>A step that reads some field.\<close>

lemma result_sim:
  assumes "tracks (\<lambda>_. False) [] (pair_at b h) (=) x x'" and "in_exhausted (fst x') = in_exhausted (fst x)"
    and "in_bit_cnt (fst x) < 8" and "in_bit_cnt (fst x') < 8"
    and "y = ideal_after fmt ((fst x', c), map_sum id g (snd x'))"
  shows "agrees full x y (\<lambda>v s1. leads b h s1 y (g v) c)"
proof (cases "in_exhausted (fst x)")
  case True
  with assms(2,5) show ?thesis by (intro agrees_exhausted) (simp_all add: ideal_after_def)
next
  case False
  from assms(1) False have a: "ahead [] (fst x) (fst x')" "pair_at b h (in_sink (fst x)) (in_sink (fst x'))" "snd x' = snd x"
    by (auto simp: tracks_def sum.rel_eq)
  show ?thesis
  proof (cases "snd x")
    case (Inl e)
    with False a assms(2,5) show ?thesis by (intro agrees_Inl [where s = "fst x" and e = e]) (auto simp: ideal_after_def prod_eq_iff)
  next
    case (Inr v)
    have "os_rel b h (fst x) (push_flush fmt (fst x'))"
      using os_flush [OF a(1) pair_at_by [OF a(2)] assms(3,4)] a(2) by (simp add: pair_at_def)
    moreover have "y = push_ideal fmt (g v) (push_flush fmt (fst x')) c"
      using Inr False a assms(2,5) by (simp add: ideal_after_def pair_at_def)
    ultimately show ?thesis using False Inr
      by (intro agrees_Inr [where s = "fst x" and v = v]) (auto simp: leads_def prod_eq_iff)
  qed
qed

text \<open>A step that only changes the state.\<close>

lemma leads_skip_step:
  assumes "leads b h s y st c" and "\<And>t. push_step fmt st t c = ((t, c), Inr st')" and "push_need st = 1"
    and "st \<noteq> PDone" and "st \<noteq> PNext"
  shows "leads b h s y st' c"
proof (cases "in_exhausted s")
  case True
  with assms(1) show ?thesis by (simp add: leads_def)
next
  case False
  with assms(1) obtain t where rel: "os_rel b h s t" and y: "y = push_ideal fmt st t c" by (auto simp: leads_def)
  have tr: "tracking [] (pair_at b h) s (push_afresh 1 t)" by (rule os_tracking [OF rel]) simp
  have live: "\<not> in_exhausted t" using rel by (simp add: os_rel_def ahead_def in_ok_def)
  have "os_rel b h s (push_flush fmt (push_afresh 1 t))"
    using tracking_ahead [OF tr False] rel by (simp add: os_rel_def)
  moreover have "y = push_ideal fmt st' (push_flush fmt (push_afresh 1 t)) c"
    using push_ideal_after [of st fmt t c] assms(2-5) live by (simp add: y ideal_after_def push_afresh_def ws_new_def)
  ultimately show ?thesis using False by (auto simp: leads_def)
qed

text \<open>A step that reads a field and goes on whatever it is.\<close>

lemma leads_read:
  assumes "leads b h s y st c" and "inf_bits n s = (s1, v)" and "n \<le> 16"
    and "\<And>t t1 w. inf_bits n t = (t1, w) \<Longrightarrow> push_step fmt st t c = ((t1, c), Inr (g w))" and "push_need st = 1"
    and "st \<noteq> PDone" and "st \<noteq> PNext"
  shows "leads b h s1 y (g v) c"
proof (cases "in_exhausted s")
  case True
  with assms(1) inf_bits_exhausted [OF assms(2)] show ?thesis by (auto simp: leads_def)
next
  case False
  with assms(1) obtain t where rel: "os_rel b h s t" and y: "y = push_ideal fmt st t c" by (auto simp: leads_def)
  obtain t1 w where w: "inf_bits n (push_afresh 1 t) = (t1, w)" by fastforce
  have tr: "tracking [] (pair_at b h) s (push_afresh 1 t)" by (rule os_tracking [OF rel]) simp
  note read = read_bits [OF tr False assms(2) w assms(3)]
  have small: "in_bit_cnt s1 < 8" "in_bit_cnt t1 < 8"
    using rel inf_bits_small [OF assms(2)] inf_bits_small [OF w] by (simp_all add: os_rel_def)
  have step: "y = ideal_after fmt ((t1, c), Inr (g w))"
    using push_ideal_after [of st fmt t c] assms(4) [OF w] assms(5-7) by (simp add: y)
  show ?thesis
  proof (cases "in_exhausted s1")
    case True
    with read(1) step show ?thesis by (simp add: leads_def ideal_after_def)
  next
    case live: False
    from read(2) [OF live] have r: "w = v" "tracking [] (pair_at b h) s1 t1" by simp_all
    have "ws_out (in_sink t1) = []" using r(2) live by (simp add: tracking_def pair_at_def)
    with step read(1) live r(1) have "y = push_ideal fmt (g v) (push_flush fmt t1) c" by (simp add: ideal_after_def)
    with tracking_ahead [OF r(2) live small] live show ?thesis by (auto simp: leads_def)
  qed
qed

section \<open>The optional fields of a gzip header\<close>

lemma leads_skip:
  assumes "fm_gzip fmt"
  shows "leads b h s y (PSkip n flags) c \<Longrightarrow> leads b h (inf_skip n s) y (PFields flags) c"
proof (induction n arbitrary: s)
  case 0
  then show ?case using assms by (auto intro: leads_skip_step simp: push_step_def push_need_def)
next
  case (Suc n)
  obtain s1 v where b: "inf_bits 8 s = (s1, v)" by fastforce
  have "leads b h s1 y (PSkip n flags) c"
    using leads_read [OF Suc.prems b, of "\<lambda>_. PSkip n flags"] assms by (auto simp: push_step_def push_need_def)
  from Suc.IH [OF this] show ?case by (simp add: b)
qed

lemma leads_extra:
  assumes "fm_gzip fmt" and "leads b h s y (PFields flags) c" and "bit flags 2" and "inf_bits 16 s = (s1, len)"
  shows "leads b h (inf_skip (unat len) s1) y (PFields (flags AND NOT FEXTRA)) c"
  using leads_read [OF assms(2,4), of "\<lambda>len. PSkip (unat len) (flags AND NOT FEXTRA)"] assms(1,3)
  by (intro leads_skip [OF assms(1)]) (auto simp: push_step_def push_fields_def push_need_def flag_bits Let_def)

lemma leads_text:
  assumes "fm_gzip fmt" and "inf_skip_text s = Some s'" and "leads b h s y (PFields flags) c" and "\<not> bit flags 2"
    and some: "flags AND (FNAME OR FCOMMENT) \<noteq> 0"
    and low: "(flags AND (FNAME OR FCOMMENT)) AND - (flags AND (FNAME OR FCOMMENT)) = low"
  shows "leads b h s' y (PFields (flags AND NOT low)) c"
proof -
  let ?P = "\<lambda>s s'. leads b h s y (PFields flags) c \<longrightarrow> leads b h s' y (PFields (flags AND NOT low)) c"
  have "?P s s'"
  proof (rule inf_skip_text.raw_induct [where P = ?P, OF _ assms(2)], goal_cases)
    case (1 skip s s')
    show ?case
    proof
      assume lead: "leads b h s y (PFields flags) c"
      obtain s1 v where b: "inf_bits 8 s = (s1, v)" by fastforce
      have step: "leads b h s1 y (PFields (if v = 0 then flags AND NOT low else flags)) c"
        by (rule leads_read [OF lead b, of "\<lambda>v. PFields (if v = 0 then flags AND NOT low else flags)"])
          (use assms(1,4) some low in \<open>auto simp: push_step_def push_fields_def push_need_def flag_bits Let_def\<close>)
      show "leads b h s' y (PFields (flags AND NOT low)) c"
        using step 1(1) [of s1 s'] 1(2) b by (cases "v = 0") simp_all
    qed
  qed
  with assms(3) show ?thesis by blast
qed

lemma leads_hcrc:
  assumes "fm_gzip fmt" and "leads b h s y (PFields flags) c" and "\<not> bit flags 2" and "\<not> bit flags 3" and "\<not> bit flags 4" and "bit flags 1"
  shows "leads b h (inf_skip 2 s) y (PFields (flags AND NOT FHCRC)) c"
  using assms by (intro leads_skip leads_skip_step [OF assms(2)]) (auto simp: push_step_def push_fields_def push_need_def flag_bits text_flags Let_def)

lemma leads_fields_end:
  assumes "fm_gzip fmt" and "leads b h s y (PFields flags) c" and "\<not> bit flags 2" and "\<not> bit flags 3" and "\<not> bit flags 4" and "\<not> bit flags 1"
  shows "leads b h s y PBlock c"
  using assms(1,3-) by (intro leads_skip_step [OF assms(2)]) (auto simp: push_step_def push_fields_def push_need_def flag_bits text_flags Let_def)

lemma leads_fields:
  assumes gz: "fm_gzip fmt" and lead: "leads b h s y (PSkip 6 flags) c" and run: "gzip_fields flags s = Some s'"
  shows "leads b h s' y PBlock c"
proof -
  let ?extra = "\<lambda>s1. if bit flags 2 then (case inf_bits 16 s1 of (s', len) \<Rightarrow> inf_skip (unat len) s') else s1"
  define f1 where "f1 = (if bit flags 2 then flags AND NOT FEXTRA else flags)"
  define f2 where "f2 = (if bit f1 3 then f1 AND NOT FNAME else f1)"
  define f3 where "f3 = (if bit f2 4 then f2 AND NOT FCOMMENT else f2)"
  define f4 where "f4 = (if bit f3 1 then f3 AND NOT FHCRC else f3)"
  have bits: "\<not> bit f1 2" "bit f1 3 = bit flags 3" "\<not> bit f2 2" "\<not> bit f2 3" "bit f2 4 = bit flags 4"
    "\<not> bit f3 2" "\<not> bit f3 3" "\<not> bit f3 4" "bit f3 1 = bit flags 1" "\<not> bit f4 2" "\<not> bit f4 3" "\<not> bit f4 4" "\<not> bit f4 1"
    by (auto simp: f1_def f2_def f3_def f4_def flag_clear)
  have "leads b h (inf_skip 6 s) y (PFields flags) c" by (rule leads_skip [OF gz lead])
  then have l1: "leads b h (?extra (inf_skip 6 s)) y (PFields f1) c"
    using leads_extra [OF gz] by (auto simp: f1_def split: prod.split)
  obtain s3 where s3: "(if bit flags 3 then inf_skip_text (?extra (inf_skip 6 s)) else Some (?extra (inf_skip 6 s))) = Some s3"
    using run by (auto simp: gzip_fields_def flag_bits Let_def Option.bind_eq_Some_conv split: if_splits)
  then have l2: "leads b h s3 y (PFields f2) c"
    using l1 leads_text [OF gz _ l1 bits(1), of s3 FNAME] text_flags(1,2) [of f1] bits(2) by (auto simp: f2_def split: if_splits)
  obtain s4 where s4: "(if bit flags 4 then inf_skip_text s3 else Some s3) = Some s4"
    using run s3 by (auto simp: gzip_fields_def flag_bits Let_def Option.bind_eq_Some_conv split: if_splits)
  then have l3: "leads b h s4 y (PFields f3) c"
    using l2 leads_text [OF gz _ l2 bits(3), of s4 FCOMMENT] text_flags(1,3) [of f2] bits(4,5) by (auto simp: f3_def split: if_splits)
  have s': "s' = (if bit flags 1 then inf_skip 2 s4 else s4)"
    using run s3 s4 by (simp add: gzip_fields_def flag_bits Let_def)
  then have "leads b h s' y (PFields f4) c"
    using l3 leads_hcrc [OF gz l3 bits(6-8)] bits(9) by (auto simp: f4_def)
  from leads_fields_end [OF gz this bits(10-13)] show ?thesis .
qed

end

end
