(* ===== verification/EmbedPushMembers.thy ===== *)
theory EmbedPushMembers
  imports EmbedPushHeader
begin

text \<open>
  Trailers, gzip members and whole containers: the one-shot decoder's result against the ideal run
  of the push decoder.
\<close>

context embed_pair
begin

lemma word_step:
  assumes "os_rel b h s t" and "in_bit_cnt s = 0" and "in_bit_cnt t = 0"
    and v: "inf_word s = (s1, v)" and w: "inf_word (push_afresh 1 t) = (t1, w)"
  shows "in_exhausted t1 = in_exhausted s1" and "in_bit_cnt s1 = 0" and "in_bit_cnt t1 = 0"
    and "\<not> in_exhausted s1 \<Longrightarrow> w = v \<and> os_rel b h s1 (push_flush fmt t1) \<and> pair_at b h (in_sink s1) (in_sink t1)"
proof -
  have a: "ahead [] s (push_afresh 1 t)" using assms(1) by (simp add: os_rel_def)
  show ex: "in_exhausted t1 = in_exhausted s1" using fields_ex(3) [OF a] v w by (simp add: word_of_def)
  show cnt: "in_bit_cnt s1 = 0" "in_bit_cnt t1 = 0" using inf_word_cnt [OF v] inf_word_cnt [OF w] assms(2,3) by simp_all
  assume live: "\<not> in_exhausted s1"
  have "tracks (\<lambda>_. False) [] (pair_at b h) (=) (word_of s) (word_of (push_afresh 1 t))"
    by (rule tracks_fields [OF os_tracking [OF assms(1)]]) simp
  with live v w have r: "w = v" "ahead [] s1 t1" "pair_at b h (in_sink s1) (in_sink t1)"
    by (auto simp: tracks_def word_of_def)
  with os_flush [OF r(2) pair_at_by [OF r(3)]] cnt show "w = v \<and> os_rel b h s1 (push_flush fmt t1) \<and> pair_at b h (in_sink s1) (in_sink t1)"
    by (simp add: pair_at_def)
qed

text \<open>The check of the trailer.\<close>

lemma verify_sim:
  assumes "pair_at b h (in_sink s) (in_sink t)"
  shows "inf_verify fmt ops s b check = (if check \<noteq> fm_words fmt (fed (drop b h)) n ! 0 then Inl ChecksumMismatch else Inr ())"
    and "fm_words fmt (ws_format (in_sink t)) n' ! 0 = fm_words fmt (fed (drop b h)) n ! 0"
proof -
  have d: "op_data ops (in_sink s) b = drop b h" using assms data [of "in_sink s" h b] verifies by (simp add: pair_at_def)
  show "inf_verify fmt ops s b check = (if check \<noteq> fm_words fmt (fed (drop b h)) n ! 0 then Inl ChecksumMismatch else Inr ())"
    using check_size [of "fed (drop b h)" 0 n] by (simp add: inf_verify_def verifies d fed_fresh Let_def)
  show "fm_words fmt (ws_format (in_sink t)) n' ! 0 = fm_words fmt (fed (drop b h)) n ! 0"
    using assms check_size [of "fed (drop b h)" n' n] by (simp add: pair_at_def)
qed

text \<open>The outcome has ended after the bytes \<open>d\<close>.\<close>

definition all_ends :: "byte list \<Rightarrow> outcome \<Rightarrow> unit \<Rightarrow> 'o inflate \<Rightarrow> bool" where
  "all_ends h y u s \<longleftrightarrow> (\<exists>d. y = (d, None) \<and> holds (in_sink s) (h @ d))"

lemma all_ends_emit: "all_ends (h @ d) y u s \<Longrightarrow> all_ends h (emit d y) u s"
  by (auto simp: all_ends_def)

lemma push_ideal_done [simp]: "push_ideal fmt PDone t c = ([], None)"
  by (subst push_ideal.simps) simp

lemma zlib_trailer_sim:
  assumes "\<not> fm_gzip fmt" and "fm_trailer fmt \<noteq> 0" and "os_rel b h s t" and "in_bit_cnt s = 0" and "in_bit_cnt t = 0"
  shows "agrees full (case inf_word s of (s1, check) \<Rightarrow> (s1, inf_verify fmt ops s1 b check)) (push_ideal fmt PChecksum t c)
    (all_ends h (push_ideal fmt PChecksum t c))"
proof -
  obtain s1 v where v: "inf_word s = (s1, v)" by fastforce
  obtain t1 w where w: "inf_word (push_afresh 1 t) = (t1, w)" by fastforce
  note word = word_step [OF assms(3-5) v w]
  have y: "push_ideal fmt PChecksum t c = ideal_after fmt (push_verify fmt t1 c w 0)"
    using push_ideal_after [of PChecksum fmt t c] assms(1,2) w by (simp add: push_step_def push_need_def)
  show ?thesis
  proof (cases "in_exhausted s1")
    case True
    with word(1) v show ?thesis unfolding y
      by (intro agrees_exhausted) (simp_all add: push_verify_def ideal_after_def Let_def)
  next
    case False
    from word(4) [OF False] have r: "w = v" "pair_at b h (in_sink s1) (in_sink t1)" by simp_all
    note check = verify_sim [OF r(2), where n = 0]
    show ?thesis
      using False r word(1) v assms(1)
      by (simp add: y agrees_def push_verify_def ideal_after_def check Let_def all_ends_def)
        (simp add: pair_at_def)
  qed
qed

text \<open>A gzip member has ended, and the outcome goes on after it.\<close>

definition member_ends :: "byte list \<Rightarrow> outcome \<Rightarrow> unit \<Rightarrow> 'o inflate \<Rightarrow> bool" where
  "member_ends h y u s \<longleftrightarrow>
     (\<exists>d t c b. y = emit d (push_ideal fmt PNext t c) \<and> os_rel b (h @ d) s t \<and> ctx_ok c \<and> in_bit_cnt s = 0 \<and> in_bit_cnt t = 0)"

lemma member_ends_emit: "member_ends (h @ d) y u s \<Longrightarrow> member_ends h (emit d y) u s"
  unfolding member_ends_def by (elim exE conjE, rule exI, rule exI, rule exI, rule exI) (auto simp: emit_def)

lemma gzip_trailer_sim:
  assumes gz: "fm_gzip fmt" "fm_trailer fmt \<noteq> 0" and rel: "os_rel b h s t" "in_bit_cnt s = 0" "in_bit_cnt t = 0"
    and c: "ctx_ok c" "cx_start c = word_of_nat b"
  shows "agrees full (gzip_trailer fmt ops b s) (push_ideal fmt PChecksum t c) (member_ends h (push_ideal fmt PChecksum t c))"
proof -
  obtain s1 v where v: "inf_word s = (s1, v)" by fastforce
  obtain t1 w where w: "inf_word (push_afresh 1 t) = (t1, w)" by fastforce
  obtain s2 n where n: "inf_word s1 = (s2, n)" by fastforce
  note word = word_step [OF rel v w]
  have y: "push_ideal fmt PChecksum t c = ideal_after fmt ((t1, c), Inr (PSize w))"
    using push_ideal_after [of PChecksum fmt t c] gz w by (simp add: push_step_def push_need_def)
  have x: "gzip_trailer fmt ops b s = (case inf_verify fmt ops s2 b v of Inl e \<Rightarrow> (s2, Inl e)
      | Inr _ \<Rightarrow> if n \<noteq> word_of_nat (op_written ops (in_sink s2) - b) then (s2, Inl TrailerMismatch) else (s2, Inr ()))"
    using v n by (simp add: gzip_trailer_def andthen_def split: sum.split)
  then have fst: "fst (gzip_trailer fmt ops b s) = s2" by (simp split: sum.split)
  show ?thesis
  proof (cases "in_exhausted s1")
    case True
    then have "in_exhausted s2" using keeps_word [OF n] by (simp add: keeps_def)
    with True word(1) fst y show ?thesis by (intro agrees_exhausted) (simp_all add: ideal_after_def)
  next
    case live: False
    from word(4) [OF live] have r: "w = v" "os_rel b h s1 (push_flush fmt t1)" "pair_at b h (in_sink s1) (in_sink t1)" by simp_all
    obtain t2 m where m: "inf_word (push_afresh 1 (push_flush fmt t1)) = (t2, m)" by fastforce
    have cnt: "in_bit_cnt (push_flush fmt t1) = 0" using word(3) by (simp add: push_flush_def)
    note size = word_step [OF r(2) word(2) cnt n m]
    have y2: "push_ideal fmt PChecksum t c = ideal_after fmt (push_verify fmt t2 c v m)"
      using y push_ideal_after [of "PSize v" fmt "push_flush fmt t1" c] gz m word(1) live r(1,3)
      by (simp add: push_step_def push_need_def ideal_after_def pair_at_def)
    show ?thesis
    proof (cases "in_exhausted s2")
      case True
      with size(1) fst show ?thesis unfolding y2
        by (intro agrees_exhausted) (simp_all add: push_verify_def ideal_after_def Let_def)
    next
      case False
      from size(4) [OF False] have q: "m = n" "os_rel b h s2 (push_flush fmt t2)" "pair_at b h (in_sink s2) (in_sink t2)" by simp_all
      have len: "wd_pos (ws_window (in_sink t2)) - cx_start c = word_of_nat (length h - b)" "op_written ops (in_sink s2) = length h"
        using q(3) c(2) written [of "in_sink s2" h] by (auto simp: pair_at_def win_holds_def of_nat_diff)
      note check = verify_sim [OF q(3), where n = "word_of_nat (length h - b)"]
      have ends: "member_ends h (push_ideal fmt PNext (push_flush fmt t2) c) () s2"
        unfolding member_ends_def using q(2) c(1) size(2,3)
        by (intro exI [of _ "[]"] exI [of _ "push_flush fmt t2"] exI [of _ c] exI [of _ b]) (simp add: push_flush_def)
      have out: "ws_out (in_sink t2) = []" using q(3) by (simp add: pair_at_def)
      show ?thesis
        using False q(1) size(1) gz ends out
        by (simp add: x y2 agrees_def push_verify_def ideal_after_def check len Let_def)
    qed
  qed
qed

section \<open>Members\<close>

lemma gzip_header_sim:
  assumes gz: "fm_gzip fmt" and rel: "os_rel b h s t" and run: "gzip_header s = Some (s', r)"
    and y: "y = push_ideal fmt PMember t c"
  shows "agrees full (s', r) y (\<lambda>_ s1. leads (length h) h s1 y PBlock (c\<lparr>cx_start := word_of_nat (length h)\<rparr>))"
proof -
  let ?c = "c\<lparr>cx_start := word_of_nat (length h)\<rparr>"
  define t0 where "t0 = (push_afresh 1 t)\<lparr>in_sink := (in_sink (push_afresh 1 t))\<lparr>ws_format := fm_init fmt\<rparr>\<rparr>"
  have "ahead [] s (push_afresh 1 t)" using rel by (simp add: os_rel_def)
  then have a: "ahead [] s t0" by (simp add: t0_def)
  have t0: "ahead [] s t0" "pair_at (length h) h (in_sink s) (in_sink t0)" "in_bit_cnt s < 8" "in_bit_cnt t0 < 8" "in_inv s"
    using rel a by (auto simp: t0_def os_rel_def pair_at_def push_afresh_def ws_new_def ws_left_def fed_init in_inv_def)
      (simp add: ahead_def in_ok_def)+
  have "wd_pos (ws_window (in_sink (push_afresh 1 t))) = word_of_nat (length h)"
    using rel by (simp add: os_rel_def win_holds_def push_afresh_def ws_new_def)
  then have "push_step fmt PMember (push_afresh 1 t) c
      = with_context ?c (andthen (gzip_flags t0) (\<lambda>t1 flags. (t1, Inr (PSkip 6 flags))))"
    using gz by (simp add: push_step_def push_member_flags t0_def)
  also have "\<dots> = ((fst (gzip_flags t0), ?c), map_sum id (PSkip 6) (snd (gzip_flags t0)))"
    by (simp add: with_context_def andthen_def split: prod.split sum.split)
  finally have step: "y = ideal_after fmt ((fst (gzip_flags t0), ?c), map_sum id (PSkip 6) (snd (gzip_flags t0)))"
    using push_ideal_after [of PMember fmt t c] by (simp add: y push_need_def)
  have k: "keeps s (fst (gzip_flags s))" "keeps t0 (fst (gzip_flags t0))" by simp_all
  have "tracking [] (pair_at (length h) h) s t0" using t0(1,2) by (simp add: tracking_def)
  from result_sim [OF tracks_fields(1) [OF this] fields_ex(1) [OF t0(1)]
      keeps_small [OF k(1) t0(3)] keeps_small [OF k(2) t0(4)] step]
  have flags: "agrees full (gzip_flags s) y (\<lambda>v s1. leads (length h) h s1 y (PSkip 6 v) ?c)" .
  obtain s1 q where q: "gzip_flags s = (s1, q)" by fastforce
  show ?thesis
  proof (cases q)
    case (Inl e)
    with run q flags show ?thesis by (auto simp: gzip_header_flags agrees_def)
  next
    case (Inr v)
    with run q have r: "r = Inr ()" and f: "gzip_fields v s1 = Some s'" by (auto simp: gzip_header_flags)
    have "leads (length h) h s1 y (PSkip 6 v) ?c"
      using flags q Inr by (auto simp: agrees_def leads_def split: if_splits)
    from leads_fields [OF gz this f] r show ?thesis by (simp add: agrees_def leads_def)
  qed
qed

lemma member_sim:
  assumes gz: "fm_gzip fmt" "fm_trailer fmt \<noteq> 0" and rel: "os_rel b h s t" and ok: "ctx_ok c"
    and run: "inf_member fmt ops s = Some (s', r)"
  shows "agrees full (s', r) (push_ideal fmt PMember t c) (member_ends h (push_ideal fmt PMember t c))"
proof -
  define y where "y = push_ideal fmt PMember t c"
  let ?c = "c\<lparr>cx_start := word_of_nat (length h)\<rparr>"
  have inv: "in_inv s" using rel by (simp add: os_rel_def ahead_def in_ok_def in_inv_def)
  have len: "op_written ops (in_sink s) = length h" using rel by (simp add: os_rel_def written)
  obtain s1 r1 where head: "gzip_header s = Some (s1, r1)" and k1: "keeps s s1" using gzip_header_total [OF inv] by blast
  note sim = gzip_header_sim [OF gz(1) rel head y_def]
  show ?thesis unfolding y_def [symmetric]
  proof (cases r1)
    case (Inl e)
    with run head sim show "agrees full (s', r) y (member_ends h y)" by (auto simp: inf_member_def agrees_def)
  next
    case (Inr u)
    obtain s2 r2 where blocks: "inf_blocks ops s1 = Some (s2, r2)" and k2: "keeps s1 s2"
      using inf_blocks_total [of s1 ops] k1 inv by (auto simp: keeps_def)
    have x: "(s', r) = andthen (s2, r2) (\<lambda>s2 _. gzip_trailer fmt ops (length h) s2)"
      using run head Inr blocks by (simp add: inf_member_def len)
    show "agrees full (s', r) y (member_ends h y)"
    proof (cases "in_exhausted s1")
      case True
      then have "in_exhausted s2" using k2 by (simp add: keeps_def)
      moreover have "keeps s2 s'" using x by (cases r2) (auto dest: arg_cong [where f = fst])
      ultimately show ?thesis using True sim Inr by (auto simp: agrees_def keeps_def)
    next
      case False
      with sim Inr obtain t1 where t1: "os_rel (length h) h s1 t1" "y = push_ideal fmt PBlock t1 ?c"
        by (auto simp: agrees_def leads_def)
      have "ctx_ok ?c" using ok by (simp add: ctx_ok_def)
      from blocks_sim [OF t1(1) this blocks] have stream: "agrees full (s2, r2) y (stream_ends (length h) h ?c y)"
        by (simp add: t1(2))
      show ?thesis unfolding x
      proof (rule agrees_andthen [OF stream])
        fix s3 v
        assume "stream_ends (length h) h ?c y v s3"
        then obtain d t2 c2 where y2: "y = emit d (push_ideal fmt PChecksum t2 c2)" and rel2: "os_rel (length h) (h @ d) s3 t2"
          "in_bit_cnt s3 = 0" "in_bit_cnt t2 = 0" and c2: "ctx_ok c2" "cx_start c2 = word_of_nat (length h)"
          using gz(2) by (auto simp: stream_ends_def)
        from gzip_trailer_sim [OF gz rel2 c2] show "agrees full (gzip_trailer fmt ops (length h) s3) y (member_ends h y)"
          unfolding y2 by (rule agrees_emit) (rule member_ends_emit)
      qed simp
    qed
  qed
qed

lemma members_sim:
  assumes "fm_gzip fmt" and "fm_trailer fmt \<noteq> 0" and "os_rel b h s t" and "ctx_ok c" and "inf_members fmt ops s = Some (s', r)"
  shows "agrees full (s', r) (push_ideal fmt PMember t c) (all_ends h (push_ideal fmt PMember t c))"
  using assms(3-)
proof (induction "inf_left s" arbitrary: s t h b c rule: less_induct)
  case less
  define y where "y = push_ideal fmt PMember t c"
  have inv: "in_inv s" using less.prems(1) by (simp add: os_rel_def ahead_def in_ok_def in_inv_def)
  obtain s1 r1 where m: "inf_member fmt ops s = Some (s1, r1)" and k: "keeps s s1"
    and left: "r1 = Inr () \<Longrightarrow> \<not> in_exhausted s1 \<Longrightarrow> inf_left s1 < inf_left s" using inf_member_total [OF inv] by blast
  have sim: "agrees full (s1, r1) y (member_ends h y)"
    unfolding y_def by (rule member_sim [OF assms(1,2) less.prems(1,2) m])
  have x: "Some (s', r) = (case r1 of Inl e \<Rightarrow> Some (s1, Inl e)
      | Inr _ \<Rightarrow> if in_input s1 \<noteq> [] \<and> hd (in_input s1) = 0x1f then inf_members fmt ops s1 else Some (s1, Inr ()))"
    using less.prems(3) unfolding inf_members.simps [of fmt ops s] m by simp
  show ?case unfolding y_def [symmetric]
  proof (cases "in_exhausted s1")
    case True
    then have "in_input s1 = []" using k inv by (auto simp: keeps_def in_inv_def)
    with x True sim show "agrees full (s', r) y (all_ends h y)" by (auto simp: agrees_def split: sum.splits)
  next
    case live: False
    show "agrees full (s', r) y (all_ends h y)"
    proof (cases r1)
      case (Inl e)
      with x sim live show ?thesis by (simp add: agrees_def)
    next
      case (Inr u)
      with sim live obtain d t1 c1 b1 where y1: "y = emit d (push_ideal fmt PNext t1 c1)" and rel: "os_rel b1 (h @ d) s1 t1"
        and c1: "ctx_ok c1" and cnt: "in_bit_cnt s1 = 0" "in_bit_cnt t1 = 0"
        by (auto simp: agrees_def member_ends_def)
      have input: "in_input t1 = in_input s1" using ahead_input [OF _ cnt] rel by (simp add: os_rel_def)
      have holds: "holds (in_sink s1) (h @ d)" using rel by (simp add: os_rel_def)
      show ?thesis
      proof (cases "in_input s1 \<noteq> [] \<and> hd (in_input s1) = 0x1f")
        case True
        then have "push_ideal fmt PNext t1 c1 = push_ideal fmt PMember t1 c1"
          using assms(1) input by (subst push_ideal.simps) (auto split: list.split)
        moreover have "agrees full (s', r) (push_ideal fmt PMember t1 c1) (all_ends (h @ d) (push_ideal fmt PMember t1 c1))"
          using x Inr True live left by (intro less.hyps [OF _ rel c1]) simp_all
        ultimately show ?thesis unfolding y1 by (simp only:) (rule agrees_emit, assumption, rule all_ends_emit)
      next
        case False
        then have "push_ideal fmt PNext t1 c1 = ([], None)"
          using assms(1) input by (subst push_ideal.simps) (auto split: list.split)
        moreover have "s' = s1" "r = Inr ()" using x Inr False by simp_all
        ultimately show ?thesis using live holds by (simp add: y1 agrees_def all_ends_def)
      qed
    qed
  qed
qed

section \<open>Containers\<close>

lemma zlib_sim:
  assumes zlib: "\<not> fm_gzip fmt" "fm_trailer fmt \<noteq> 0" and rel: "os_rel 0 [] s t" and zero: "in_bit_cnt s = 0" "in_bit_cnt t = 0"
    and ok: "ctx_ok c" and run: "inf_container fmt ops s = Some (s', r)" and y_def: "y = push_ideal fmt PStart t c"
  shows "agrees full (s', r) y (all_ends [] y)"
proof -
  have inv: "in_inv s" using rel by (auto simp: os_rel_def ahead_def in_ok_def in_inv_def)
  let ?t = "push_afresh 1 t"
  obtain c1 where c1: "snd (fst (push_start fmt ?t c)) = c1" "ctx_ok c1"
    using push_start_head(3) [OF zlib, of ?t c] ok by (auto simp: ctx_ok_def)
  have a: "ahead [] s ?t" using rel by (simp add: os_rel_def)
  have tr: "tracking [] (pair_at 0 []) s ?t" by (rule os_tracking [OF rel]) simp
  have step: "y = ideal_after fmt ((fst (zlib_head ?t), c1), map_sum id (\<lambda>_. PBlock) (snd (zlib_head ?t)))"
    using push_ideal_after [of PStart fmt t c] push_start_head(1,2) [OF zlib, of ?t c] c1(1)
    by (simp add: y_def push_step_def push_need_def prod_eq_iff)
      (metis prod.collapse)
  have k: "keeps s (fst (zlib_head s))" "keeps ?t (fst (zlib_head ?t))" by simp_all
  have small: "in_bit_cnt s < 8" "in_bit_cnt ?t < 8" using zero by simp_all
  from result_sim [OF tracks_fields(2) [OF tr] fields_ex(2) [OF a] keeps_small [OF k(1) small(1)] keeps_small [OF k(2) small(2)] step]
  have head: "agrees full (zlib_head s) y (\<lambda>_ s1. leads 0 [] s1 y PBlock c1)" .
  obtain s1 q where q: "zlib_head s = (s1, q)" by fastforce
  show "agrees full (s', r) y (all_ends [] y)"
  proof (cases q)
    case (Inl e)
    with run q head zlib show ?thesis by (auto simp: inf_container_def zlib_container_head agrees_def)
  next
    case (Inr u)
    let ?f = "\<lambda>s2 (_ :: unit). case inf_word s2 of (s3, check) \<Rightarrow> (s3, inf_verify fmt ops s3 0 check)"
    have kf: "keeps s2 (fst (?f s2 v))" for s2 v using keeps_word [of s2] by (auto split: prod.split)
    obtain s2 r2 where blocks: "inf_blocks ops s1 = Some (s2, r2)" and k2: "keeps s1 s2"
      using inf_blocks_total [of s1 ops] k(1) inv q by (auto simp: keeps_def)
    have x: "(s', r) = andthen (s2, r2) ?f"
      using run q Inr zlib blocks by (simp add: inf_container_def zlib_container_head)
    show ?thesis
    proof (cases "in_exhausted s1")
      case True
      then have "in_exhausted s2" using k2 by (simp add: keeps_def)
      moreover have "keeps s2 s'" using x kf [of s2] by (cases r2) (auto dest: arg_cong [where f = fst])
      ultimately show ?thesis using True head q by (auto simp: agrees_def keeps_def)
    next
      case False
      with head q Inr obtain t1 where t1: "os_rel 0 [] s1 t1" "y = push_ideal fmt PBlock t1 c1"
        by (auto simp: agrees_def leads_def)
      from blocks_sim [OF t1(1) c1(2) blocks] have stream: "agrees full (s2, r2) y (stream_ends 0 [] c1 y)"
        by (simp add: t1(2))
      show ?thesis unfolding x
      proof (rule agrees_andthen [OF stream _ kf])
        fix s3 v
        assume "stream_ends 0 [] c1 y v s3"
        then obtain d t2 c2 where y2: "y = emit d (push_ideal fmt PChecksum t2 c2)"
          and rel2: "os_rel 0 ([] @ d) s3 t2" "in_bit_cnt s3 = 0" "in_bit_cnt t2 = 0"
          using zlib(2) by (auto simp: stream_ends_def)
        from zlib_trailer_sim [OF zlib rel2, of c2] show "agrees full (?f s3 v) y (all_ends [] y)"
          unfolding y2 by (rule agrees_emit) (rule all_ends_emit)
      qed
    qed
  qed
qed

lemma container_sim:
  assumes rel: "os_rel 0 [] s t" and zero: "in_bit_cnt s = 0" "in_bit_cnt t = 0" and ok: "ctx_ok c"
    and gz: "fm_gzip fmt \<Longrightarrow> fm_trailer fmt \<noteq> 0" and run: "inf_container fmt ops s = Some (s', r)"
  shows "agrees full (s', r) (push_ideal fmt PStart t c) (all_ends [] (push_ideal fmt PStart t c))"
proof -
  define y where "y = push_ideal fmt PStart t c"
  have live: "\<not> in_exhausted s" and inv: "in_inv s" using rel by (auto simp: os_rel_def ahead_def in_ok_def in_inv_def)
  have start: "leads 0 [] s y PStart c" using rel live by (auto simp: leads_def y_def)
  consider (gzip) "fm_gzip fmt" | (raw) "\<not> fm_gzip fmt" "fm_trailer fmt = 0" | (zlib) "\<not> fm_gzip fmt" "fm_trailer fmt \<noteq> 0" by blast
  then show ?thesis unfolding y_def [symmetric]
  proof cases
    case gzip
    have "leads 0 [] s y PMember c"
      using gzip by (intro leads_skip_step [OF start]) (simp_all add: push_step_def push_start_def push_need_def)
    then obtain t1 where t1: "os_rel 0 [] s t1" "y = push_ideal fmt PMember t1 c" using live by (auto simp: leads_def)
    from members_sim [OF gzip gz [OF gzip] t1(1) ok] run gzip show "agrees full (s', r) y (all_ends [] y)"
      by (simp add: t1(2) inf_container_def)
  next
    case raw
    have "leads 0 [] s y PBlock c"
      using raw by (intro leads_skip_step [OF start]) (simp_all add: push_step_def push_start_def push_need_def)
    then obtain t1 where t1: "os_rel 0 [] s t1" "y = push_ideal fmt PBlock t1 c" using live by (auto simp: leads_def)
    have "inf_blocks ops s = Some (s', r)" using run raw by (simp add: inf_container_def)
    from blocks_sim [OF t1(1) ok this] have "agrees full (s', r) y (stream_ends 0 [] c y)" by (simp add: t1(2))
    then show "agrees full (s', r) y (all_ends [] y)"
      using raw(2) by (auto simp: agrees_def stream_ends_def all_ends_def os_rel_def split: sum.splits if_splits)
  next
    case zlib
    show "agrees full (s', r) y (all_ends [] y)" by (rule zlib_sim [OF zlib rel zero ok run y_def])
  qed
qed

end

end
