(* ===== verification/EmbedPushed.thy ===== *)
theory EmbedPushed
  imports EmbedPushContract
begin

text \<open>
  The push decoder in its three formats.  The contract of \<open>EmbedPushContract\<close>, interpreted on
  them: the chunking of the input and the output does not show in what comes out, and the
  one-shot helpers of \<open>src/vec.rs\<close> return what the stream decodes to.
\<close>

interpretation raw_push: decoder_contract "push_decode raw_format" "push_finish_some raw_format"
  "push_valid raw_format (\<lambda>_. ())" "push_valid raw_format (\<lambda>_. ())" "push_yields raw_format"
  by (rule raw_ct.push_contract)

interpretation zlib_push: decoder_contract "push_decode zlib_format" "push_finish_some zlib_format"
  "push_valid zlib_format embed_adler_of" "push_valid zlib_format embed_adler_of" "push_yields zlib_format"
  by (rule zlib_ct.push_contract)

interpretation gzip_push: decoder_contract "push_decode gzip_format" "push_finish_some gzip_format"
  "push_valid gzip_format (embed_crc_update 0)" "push_valid gzip_format (embed_crc_update 0)" "push_yields gzip_format"
  by (rule gzip_ct.push_contract)

section \<open>The one-shot helpers\<close>

text \<open>The finishing loop only calls \<open>finish\<close> with its own scratch buffer, which is not empty.\<close>

lemma drive_finish_cong:
  assumes "drive_finish_loop fin s n out = Some r" and "\<And>s. fin s n = fin' s n"
  shows "drive_finish_loop fin' s n out = Some r"
proof -
  let ?P = "\<lambda>f s m out r. f = fin \<longrightarrow> m = n \<longrightarrow> drive_finish_loop fin' s n out = Some r"
  have "?P fin s n out r"
  proof (rule drive_finish_loop.raw_induct [where P = ?P, OF _ assms(1)], goal_cases)
    case (1 loop f s m out r)
    show ?case
    proof (intro impI)
      assume f: "f = fin" "m = n"
      obtain s1 x where x: "fin s n = (s1, x)" by fastforce
      with assms(2) have x': "fin' s n = (s1, x)" by simp
      show "drive_finish_loop fin' s n out = Some r"
        using 1 f x x' by (subst drive_finish_loop.simps) (auto split: sum.splits if_splits)
    qed
  qed
  then show ?thesis by simp
qed

lemma drive_decoder_cong:
  assumes "drive_decoder dec fin s input n = Some r" and "\<And>s. fin s n = fin' s n"
  shows "drive_decoder dec fin' s input n = Some r"
  using assms(1) drive_finish_cong [of fin _ n _ r fin'] assms(2)
  by (auto simp: drive_decoder_def split: option.splits sum.splits prod.splits if_splits)

lemma push_finish_called: "0 < n \<Longrightarrow> push_finish_some fmt d n = push_finish fmt d n"
  by (simp add: push_finish_some_def)

context container
begin

lemma push_decompress:
  assumes "push_valid fmt fed d"
  shows "decompress_to_vec (push_decode fmt) (push_finish fmt) d input = Some (outcome_result (push_yields fmt d input))"
  using decoder_contract.vec_decompress [OF push_contract assms, of input]
  unfolding decompress_to_vec_def decompress_to_vec_with_def
  by (rule drive_decoder_cong) (simp add: decoder_finish_def push_finish_called)

lemma push_capped:
  assumes "push_valid fmt fed d" and "push_yields fmt d input = (out, None)" and "m \<le> u64_max"
  shows "decompress_to_vec_capped (push_decode fmt) (push_finish fmt) d input m
    = Some (if length out \<le> m then Inr out else Inl OutputLimitExceeded)"
  using decoder_contract.vec_capped [OF push_contract assms]
  unfolding decompress_to_vec_capped_def decompress_to_vec_capped_with_def
  by (rule drive_decoder_cong)
    (simp add: limited_finish_def decoder_finish_def push_finish_called Let_def)

text \<open>Any successful run of calls to \<open>finish\<close>, empty slices among them.\<close>

lemma push_finish_ok:
  assumes "push_valid fmt fed d" and "push_finish fmt d n = (d1, Inr (p, out))"
  shows "push_valid fmt fed d1 \<and> push_yields fmt d [] = emit out (push_yields fmt d1 [])
    \<and> (rp_done p \<longrightarrow> push_yields fmt d1 [] = ([], None))"
proof (cases "n = 0")
  case False
  then have "push_finish_some fmt d n = (d1, Inr (p, out))" using assms(2) by (simp add: push_finish_some_def)
  with push_drain_law [OF assms(1), of n] show ?thesis by (auto simp: drain_law_def)
next
  case True
  obtain d2 r where dec: "push_decode fmt d [] 0 = (d2, r)" by fastforce
  with assms(2) True obtain q where q: "r = Inr (q, out)" "pd_state d2 = PDone \<or> pd_state d2 = PNext"
    "d1 = d2\<lparr>pd_state := PDone\<rparr>" by (auto simp: push_finish_def split: sum.splits if_splits)
  have live: "\<not> pd_poisoned d" using dec q by (auto simp: push_decode_def)
  have live2: "\<not> pd_poisoned d2"
    using dec q live by (auto simp: push_decode_def push_run_def Let_def split: prod.splits sum.splits)
  from push_decode_law [OF assms(1), of "[]" "[]" 0, unfolded dec q]
  have v: "push_valid fmt fed d2" "push_yields fmt d [] = emit out (push_yields fmt d2 [])" by (auto simp: decode_law_def)
  have "push_yields fmt d2 [] = ([], None)"
    using q(2) v(1) live2 push_yields_done [of d2] push_yields_next [of d2] by (auto simp: push_valid_def)
  moreover have "push_yields fmt d1 [] = ([], None)" using live2 by (intro push_yields_done) (simp_all add: q)
  moreover have "push_valid fmt fed d1"
    using v(1) by (auto simp: q push_valid_def push_place_def in_ok_def)
  ultimately show ?thesis using v(2) by simp
qed

lemma push_finish_run:
  assumes "finish_run (push_finish fmt) d got fin d1" and "push_valid fmt fed d"
  shows "push_valid fmt fed d1 \<and> push_yields fmt d [] = emit got (push_yields fmt d1 [])
    \<and> (fin \<longrightarrow> push_yields fmt d1 [] = ([], None))"
  using assms
proof (induction rule: finish_run.induct)
  case (finish_run_step got fin s1 n s2 p out)
  then have "push_valid fmt fed s1" and IH: "push_yields fmt d [] = emit got (push_yields fmt s1 [])" by simp_all
  from push_finish_ok [OF this(1) finish_run_step.hyps(2)] IH show ?case by simp
qed simp

lemma push_chunked:
  assumes "push_valid fmt fed d" and "decode_run (push_decode fmt) d input got [] d1"
    and "finish_run (push_finish fmt) d1 rest True d2"
  shows "push_yields fmt d input = (got @ rest, None)"
  using decoder_contract.decode_run_yields [OF push_contract assms(2,1)] push_finish_run [OF assms(3)] by simp

end

section \<open>Properties\<close>

lemma with_fst: "snd x = y \<Longrightarrow> x = (fst x, y)"
  by (cases x) simp

text \<open>C5. However the compressed bytes and the room for output are cut into calls, a run of the push
  decoder that completes has written what the one-shot helper returns for the whole stream.\<close>

theorem push_chunking:
  assumes "container fmt fed" and "decode_run (push_decode fmt) (push_new fmt N) input got [] d1"
    and "finish_run (push_finish fmt) d1 rest True d2"
  shows "decompress_to_vec (push_decode fmt) (push_finish fmt) (push_new fmt N) input = Some (Inr (got @ rest))"
  using container.push_chunked [OF assms(1) container.new_valid [OF assms(1)] assms(2,3)]
  by (simp add: container.push_decompress [OF assms(1) container.new_valid [OF assms(1)]] outcome_result_def)

lemma push_chunking_witness:
  defines "input \<equiv> [0x01, 0x01, 0x00, 0xFE, 0xFF, 0x41]" and "d0 \<equiv> push_new raw_format 8"
  shows "\<exists>d1 d2 d3. decode_run (push_decode raw_format) d0 input [0x41] [] d2
    \<and> finish_run (push_finish raw_format) d2 [] True d3
    \<and> decompress_to_vec (push_decode raw_format) (push_finish raw_format) d0 input = Some (Inr [0x41])"
proof -
  let ?d1 = "fst (push_decode raw_format d0 [0x01, 0x01, 0x00] 0)"
  let ?d2 = "fst (push_decode raw_format ?d1 [0xFE, 0xFF, 0x41] 1)"
  have "snd (push_decode raw_format d0 [0x01, 0x01, 0x00] 0) = Inr (\<lparr>rp_consumed = 3, rp_written = 0, rp_done = False\<rparr>, [])"
    "snd (push_decode raw_format ?d1 [0xFE, 0xFF, 0x41] 1) = Inr (\<lparr>rp_consumed = 3, rp_written = 1, rp_done = True\<rparr>, [0x41])"
    "snd (push_finish raw_format ?d2 1) = Inr (\<lparr>rp_consumed = 0, rp_written = 0, rp_done = True\<rparr>, [])"
    unfolding d0_def by code_simp+
  note calls = this [THEN with_fst]
  have "decode_run (push_decode raw_format) d0 input [] ([0x01, 0x01, 0x00] @ [0xFE, 0xFF, 0x41]) d0"
    unfolding input_def by (simp add: decode_run_start)
  from decode_run_step [OF this calls(1)]
  have "decode_run (push_decode raw_format) d0 input [] [0xFE, 0xFF, 0x41] ?d1" by simp
  then have "decode_run (push_decode raw_format) d0 input [0x41] [] ?d2"
    using decode_run_step [of "push_decode raw_format" d0 input "[]" "[0xFE, 0xFF, 0x41]" "[]" ?d1 1, OF _ calls(2)] by simp
  moreover have "finish_run (push_finish raw_format) ?d2 [] True (fst (push_finish raw_format ?d2 1))"
    using finish_run_step [OF finish_run_start [of "push_finish raw_format" ?d2] calls(3)] by simp
  ultimately show ?thesis
    using push_chunking [OF raw_ct.container_axioms] unfolding d0_def by fastforce
qed

text \<open>C7. The decoder's invariant holds of a new decoder, of whatever format and window, and every
  operation keeps it: on any bytes, into any slice, whether the call succeeds or fails.\<close>

theorem push_keeps_valid:
  assumes "container fmt fed" and "push_valid fmt fed d"
  shows "push_valid fmt fed (push_new fmt N) \<and> push_valid fmt fed (push_set_window_size k d)
    \<and> push_valid fmt fed (fst (push_decode fmt d input room)) \<and> push_valid fmt fed (fst (push_finish fmt d room))
    \<and> push_valid fmt fed (fst (push_skip fmt d input n)) \<and> push_valid fmt fed (push_reset fmt d)"
  using container.new_valid [OF assms(1)] container.window_valid [OF assms] container.decode_valid [OF assms]
    container.finish_valid [OF assms] container.skip_valid [OF assms] container.reset_valid [OF assms] by blast

lemma push_keeps_valid_witness:
  "push_valid gzip_format (embed_crc_update 0)
     (fst (push_decode gzip_format (push_reset gzip_format (push_new gzip_format 4096)) [0x1f, 0x8b, 9] 5))"
proof -
  have new: "push_valid gzip_format (embed_crc_update 0) (push_new gzip_format 4096)" by (rule gzip_ct.new_valid)
  have "push_valid gzip_format (embed_crc_update 0) (push_reset gzip_format (push_new gzip_format 4096))"
    using push_keeps_valid [OF gzip_ct.container_axioms new] by blast
  from push_keeps_valid [OF gzip_ct.container_axioms this] show ?thesis by blast
qed

text \<open>C6. \<open>skip\<close> decodes and drops: where it succeeds, so many bytes of what the stream decodes to
  are gone, no more than were asked for, and what is left decodes as it would have; where it fails,
  the stream does with the same error.\<close>

theorem push_skip_drops:
  assumes "container fmt fed" and "push_valid fmt fed d" and "push_skip fmt d xs n = (d1, r)"
  shows "(\<forall>e. r = Inl e \<longrightarrow> decompress_to_vec (push_decode fmt) (push_finish fmt) d (xs @ ys) = Some (Inl e))
    \<and> (\<forall>p. r = Inr p \<longrightarrow> rp_consumed p \<le> length xs \<and> rp_written p \<le> n
        \<and> (rp_done p \<or> rp_written p = n \<or> rp_consumed p = length xs)
        \<and> (\<exists>out. length out = rp_written p
            \<and> decompress_to_vec (push_decode fmt) (push_finish fmt) d (xs @ ys)
              = map_option (map_sum id (append out))
                  (decompress_to_vec (push_decode fmt) (push_finish fmt) d1 (drop (rp_consumed p) xs @ ys))))"
proof (cases "pd_poisoned d")
  case True
  with assms container.push_decompress [OF assms(1,2)] show ?thesis
    by (auto simp: push_skip_def push_yields_def outcome_result_def)
next
  case False
  obtain d2 q where loop: "push_skip_loop fmt d xs n 0 0 = (d2, q)" by fastforce
  note sim = container.skip_loop_sim [OF assms(1,2) False _ _ loop, of ys]
  note vec = container.push_decompress [OF assms(1)]
  show ?thesis
  proof (cases q)
    case (Inl e)
    with False loop assms(3) sim vec [OF assms(2), of "xs @ ys"] show ?thesis
      by (auto simp: push_skip_def outcome_result_def)
  next
    case (Inr cw)
    obtain c w where cw: "cw = (c, w)" by fastforce
    with Inr sim obtain out where v: "push_valid fmt fed d2" "c \<le> length xs" "w \<le> n" "pd_state d2 = PDone \<or> w = n \<or> c = length xs"
      "length out = w" "push_yields fmt d (xs @ ys) = emit out (push_yields fmt d2 (drop c xs @ ys))" by auto
    have r: "d1 = d2" "r = Inr \<lparr>rp_consumed = c, rp_written = w, rp_done = (pd_state d2 = PDone)\<rparr>"
      using False loop assms(3) Inr cw by (auto simp: push_skip_def)
    have "decompress_to_vec (push_decode fmt) (push_finish fmt) d (xs @ ys)
        = map_option (map_sum id (append out)) (decompress_to_vec (push_decode fmt) (push_finish fmt) d2 (drop c xs @ ys))"
      unfolding vec [OF assms(2)] vec [OF v(1)] v(6)
      by (cases "push_yields fmt d2 (drop c xs @ ys)") (simp add: outcome_result_def emit_def split: option.split)
    with v r show ?thesis by auto
  qed
qed

lemma push_skip_drops_witness:
  defines "input \<equiv> [0x01, 0x02, 0x00, 0xFD, 0xFF, 0x41, 0x42]" and "d \<equiv> push_new raw_format 8"
  shows "\<exists>d1 out. push_skip raw_format d input 1 = (d1, Inr \<lparr>rp_consumed = 6, rp_written = 1, rp_done = False\<rparr>)
    \<and> length out = 1
    \<and> decompress_to_vec (push_decode raw_format) (push_finish raw_format) d input
      = map_option (map_sum id (append out)) (decompress_to_vec (push_decode raw_format) (push_finish raw_format) d1 [0x42])"
proof -
  have "snd (push_skip raw_format d input 1) = Inr \<lparr>rp_consumed = 6, rp_written = 1, rp_done = False\<rparr>"
    unfolding d_def input_def by code_simp
  note skip = this [THEN with_fst]
  have valid: "push_valid raw_format (\<lambda>_. ()) d" unfolding d_def by (rule raw_ct.new_valid)
  from push_skip_drops [OF raw_ct.container_axioms valid skip, of "[]"] skip show ?thesis
    by (auto simp: input_def)
qed

end
