(* ===== verification/EmbedPushDecompress.thy ===== *)
theory EmbedPushDecompress
  imports EmbedPushMembers EmbedPushed
begin

text \<open>
  The push decoder with a full window returns what the one-shot decoder writes: the two decoders of
  the embedded family read the same streams, to the same bytes and the same errors.
\<close>

context container
begin

lemma buffer_pair: "embed_pair fmt fed buffer_ops buffer_holds (\<lambda>o1. length (bf_buf o1)) OutputTooSmall"
  by (intro embed_pair.intro container_axioms buffer_sink.output_sink_axioms embed_pair_axioms.intro)
    (simp add: buffer_ops_def)

end

interpretation raw_pair: embed_pair raw_format "\<lambda>_. ()" buffer_ops buffer_holds "\<lambda>o1. length (bf_buf o1)" OutputTooSmall
  by (rule raw_ct.buffer_pair)

interpretation zlib_pair: embed_pair zlib_format embed_adler_of buffer_ops buffer_holds "\<lambda>o1. length (bf_buf o1)" OutputTooSmall
  by (rule zlib_ct.buffer_pair)

interpretation gzip_pair: embed_pair gzip_format "embed_crc_update 0" buffer_ops buffer_holds "\<lambda>o1. length (bf_buf o1)" OutputTooSmall
  by (rule gzip_ct.buffer_pair)

text \<open>A decoder at the start of a stream, with a window of the full reach of deflate.\<close>

definition full_window :: "'f push_decoder \<Rightarrow> bool" where
  "full_window d \<longleftrightarrow> length (wd_buf (pd_window d)) = 32768 \<and> wd_max_dist (pd_window d) = 0"

context container
begin

lemma fresh_related:
  assumes "full_window d"
  shows "embed_pair.os_rel fed buffer_holds 0 []
    \<lparr>in_input = input, in_sink = \<lparr>bf_buf = output, bf_pos = 0\<rparr>, in_bit_buf = 0, in_bit_cnt = 0, in_exhausted = False\<rparr>
    (push_reader (push_reset fmt d) input 0)"
proof -
  have "win_holds (window_reset (pd_window d)) []"
    using assms by (simp add: full_window_def win_holds_def window_reset_def)
  then show ?thesis
    using fed_init
    by (simp add: embed_pair.os_rel_def [OF buffer_pair] ahead_def in_ok_def in_bits_def buffer_holds_def push_reset_def
        push_reader_def ws_new_def)
qed

lemma decompress_reset:
  assumes "push_valid fmt fed d" and "full_window d" and "fm_gzip fmt \<Longrightarrow> fm_trailer fmt \<noteq> 0"
    and "embed_decompress fmt input output = Some (buf, r)" and "r \<noteq> Inl OutputTooSmall"
  shows "decompress_to_vec (push_decode fmt) (push_finish fmt) (push_reset fmt d) input = Some (map_sum id (\<lambda>n. take n buf) r)"
proof -
  let ?s = "\<lparr>in_input = input, in_sink = \<lparr>bf_buf = output, bf_pos = 0\<rparr>, in_bit_buf = 0, in_bit_cnt = 0, in_exhausted = False\<rparr>"
  let ?y = "push_ideal fmt PStart (push_reader (push_reset fmt d) input 0) (pd_context d)"
  have op_written: "op_written buffer_ops = bf_pos" by (simp add: buffer_ops_def)
  obtain s q where run: "inf_container fmt buffer_ops ?s = Some (s, q)" and buf: "buf = bf_buf (in_sink s)"
    and r: "r = (if in_exhausted s then Inl UnexpectedEnd else map_sum id (\<lambda>_. bf_pos (in_sink s)) q)"
    using assms(4) op_written by (auto simp: embed_decompress_def oneshot_decode_def id_def map_sum_def map_option_case
        split: option.splits prod.splits sum.splits)
  have "ctx_ok (pd_context d)" using assms(1) by (simp add: push_valid_def)
  from embed_pair.container_sim [OF buffer_pair fresh_related [OF assms(2)] _ _ this assms(3) run]
  have sim: "agrees OutputTooSmall (s, q) ?y (embed_pair.all_ends buffer_holds [] ?y)" by (simp add: push_reset_def)
  have "outcome_result ?y = map_sum id (\<lambda>n. take n buf) r"
  proof (cases "in_exhausted s")
    case True
    with sim r show ?thesis by (simp add: agrees_def outcome_result_def)
  next
    case False
    show ?thesis
    proof (cases q)
      case (Inl e)
      with sim False r assms(5) show ?thesis by (auto simp: agrees_def outcome_result_def)
    next
      case (Inr u)
      with sim False obtain h where "?y = (h, None)" "buffer_holds (in_sink s) h"
        by (auto simp: agrees_def embed_pair.all_ends_def [OF buffer_pair])
      with Inr False r buf show ?thesis by (simp add: outcome_result_def buffer_holds_def)
    qed
  qed
  moreover have "push_yields fmt (push_reset fmt d) input = ?y" by (simp add: push_yields_def push_reset_def)
  ultimately show ?thesis using push_decompress [OF reset_valid [OF assms(1)]] by simp
qed

end

lemma push_new_reset: "push_reset fmt (push_new fmt N) = push_new fmt N"
  by (simp add: push_reset_def push_new_def window_reset_def window_new_def)

lemma full_window_new: "full_window (push_new fmt 32768)"
  by (simp add: full_window_def push_new_def window_new_def)

section \<open>Properties\<close>

text \<open>C40. The push decoder refines the one-shot decoder.  Whatever \<open>decompress\<close> makes of a stream,
  provided the slice it was given is not too small for it, a push decoder with a full window, new or
  reset from any valid state, makes of it too: the same bytes, or the same error.\<close>

theorem push_refines_oneshot:
  assumes "container fmt fed" and "fm_gzip fmt \<longrightarrow> fm_trailer fmt \<noteq> 0"
    and "embed_decompress fmt input output = Some (buf, r)" and "r \<noteq> Inl OutputTooSmall"
    and "push_valid fmt fed d" and "length (wd_buf (pd_window d)) = 32768" and "wd_max_dist (pd_window d) = 0"
  shows "decompress_to_vec (push_decode fmt) (push_finish fmt) (push_new fmt 32768) input = Some (map_sum id (\<lambda>n. take n buf) r)
    \<and> decompress_to_vec (push_decode fmt) (push_finish fmt) (push_reset fmt d) input = Some (map_sum id (\<lambda>n. take n buf) r)"
proof -
  note reset = container.decompress_reset [OF assms(1) _ _ _ assms(3,4)]
  show ?thesis
    using reset [OF container.new_valid [OF assms(1)] full_window_new] reset [OF assms(5)] assms(2,6,7)
    by (simp add: push_new_reset full_window_def)
qed

lemma push_refines_oneshot_witness:
  "decompress_to_vec (push_decode raw_format) (push_finish raw_format) (push_new raw_format 32768) [0x01, 0x01, 0x00, 0xFE, 0xFF, 0x41]
    = Some (Inr [0x41])"
proof -
  have "embed_decompress raw_format [0x01, 0x01, 0x00, 0xFE, 0xFF, 0x41] [0, 0] = Some ([0x41, 0], Inr 1)"
    unfolding embed_decompress_def oneshot_decode_def inf_container_def by (subst inf_blocks.simps) code_simp
  moreover have "push_valid raw_format (\<lambda>_. ()) (push_new raw_format 32768)" by (rule raw_ct.new_valid)
  ultimately show ?thesis
    using push_refines_oneshot [OF raw_ct.container_axioms] full_window_new [unfolded full_window_def, where ?fmt = raw_format]
    by (fastforce simp: raw_format_def)
qed

end
