(* ===== verification/EmbedBlock.thy ===== *)
theory EmbedBlock
  imports EmbedRoundtrip Codec
begin

text \<open>
  The streaming embedded encoder (\<open>Encoder\<close> of \<open>src/embed/encoder.rs\<close>): input is gathered a block
  at a time and each block compressed as one deflate block; when the output is full the block
  keeps its place.  \<open>be_rest\<close> is the reference: the bits still to be written for given further
  input, in one pass over whole blocks, whatever the sizes of the calls.
\<close>

datatype embed_phase = Gather | Open | Trailer nat | Finished

record 'f block_encoder =
  be_block :: "byte list"
  be_pos :: nat
  be_table :: "u16 list"
  be_format :: 'f
  be_size :: u32
  be_bit_buf :: u32
  be_bit_cnt :: nat
  be_header :: nat
  be_phase :: embed_phase

definition be_valid :: "nat \<Rightarrow> nat \<Rightarrow> bool" where
  "be_valid B T \<longleftrightarrow> 0 < B \<and> B \<le> 65536 \<and> 0 < T \<and> T AND (T - 1) = 0 \<and> T \<le> 65536"

definition be_new :: "'f format_ops \<Rightarrow> nat \<Rightarrow> 'f block_encoder" where
  "be_new fmt T =
     \<lparr>be_block = [], be_pos = 0, be_table = replicate T 0, be_format = fm_init fmt, be_size = 0,
      be_bit_buf = 0, be_bit_cnt = 0, be_header = 0, be_phase = Gather\<rparr>"

definition be_out :: "'f block_encoder \<Rightarrow> nat \<Rightarrow> ewriter" where
  "be_out e n = \<lparr>ew_room = n, ew_out = [], ew_bit_buf = be_bit_buf e, ew_bit_cnt = be_bit_cnt e\<rparr>"

definition be_end :: "'f block_encoder \<Rightarrow> ewriter \<Rightarrow> 'f block_encoder \<times> byte list" where
  "be_end e w =
     (let w1 = ew_flush w in (e\<lparr>be_bit_buf := ew_bit_buf w1, be_bit_cnt := ew_bit_cnt w1\<rparr>, ew_out w1))"

function be_write_header :: "'f format_ops \<Rightarrow> 'f block_encoder \<Rightarrow> ewriter \<Rightarrow> 'f block_encoder \<times> ewriter \<times> bool" where
  "be_write_header fmt e w =
     (if be_header e < length (fm_header fmt) then
        case ew_ready 8 w of (w1, room) \<Rightarrow>
        if \<not> room then (e, w1, False)
        else be_write_header fmt (e\<lparr>be_header := be_header e + 1\<rparr>)
               (fst (ew_put (ucast (fm_header fmt ! be_header e)) 8 w1))
      else (e, w, True))"
  by pat_completeness auto
termination by (relation "measure (\<lambda>(fmt, e, _). length (fm_header fmt) - be_header e)") auto

declare be_write_header.simps [simp del]

text \<open>An open block, from where it was left.\<close>

definition be_compress_open :: "'f block_encoder \<Rightarrow> ewriter \<Rightarrow> 'f block_encoder \<times> ewriter \<times> bool" where
  "be_compress_open e w =
     (case ew_tokens True (be_table e) (length (be_table e) - 1) (be_block e) (be_pos e) w of
        (table, w1, r) \<Rightarrow>
          let e1 = e\<lparr>be_table := table, be_pos := (case r of Inl _ \<Rightarrow> be_pos e | Inr pos \<Rightarrow> pos)\<rparr> in
          if be_pos e1 < length (be_block e1) then (e1, w1, False)
          else
            case ew_ready 7 w1 of (w2, room) \<Rightarrow>
            if \<not> room then (e1, w2, False)
            else (e1\<lparr>be_block := [], be_pos := 0, be_phase := Gather\<rparr>, fst (ew_symbol END_OF_BLOCK w2), True))"

definition be_compress :: "'f format_ops \<Rightarrow> 'f block_encoder \<Rightarrow> ewriter \<Rightarrow> 'f block_encoder \<times> ewriter \<times> bool" where
  "be_compress fmt e w =
     (if be_phase e = Gather then
        case be_write_header fmt e w of (e1, w1, wrote) \<Rightarrow>
        if \<not> wrote then (e1, w1, False)
        else
          case ew_ready 3 w1 of (w2, room) \<Rightarrow>
          if \<not> room then (e1, w2, False)
          else
            be_compress_open
              (e1\<lparr>be_format := fm_update fmt (be_format e1) (be_block e1),
                  be_size := be_size e1 + word_of_nat (length (be_block e1)), be_pos := 0, be_phase := Open\<rparr>)
              (fst (ew_put 2 3 w2))
      else be_compress_open e w)"

text \<open>The loop of \<open>raw_encode\<close>; a block of no bytes, with which \<open>n\<close> could be zero, does not build.\<close>

function be_encode_loop ::
  "'f format_ops \<Rightarrow> nat \<Rightarrow> byte list \<Rightarrow> nat \<Rightarrow> 'f block_encoder \<Rightarrow> ewriter \<Rightarrow> 'f block_encoder \<times> ewriter \<times> nat" where
  "be_encode_loop fmt B input consumed e w =
     (case (if length (be_block e) = B \<or> be_phase e = Open then be_compress fmt e w else (e, w, True)) of
        (e1, w1, go) \<Rightarrow>
          if \<not> go then (e1, w1, consumed)
          else if length input \<le> consumed then (e1, w1, consumed)
          else
            let rest = drop consumed input; n = min (B - length (be_block e1)) (length rest) in
            if n = 0 then (e1, w1, consumed)
            else be_encode_loop fmt B input (consumed + n) (e1\<lparr>be_block := be_block e1 @ take n rest\<rparr>) w1)"
  by pat_completeness auto
termination by (relation "measure (\<lambda>(_, _, input, consumed, _). length input - consumed)") auto

declare be_encode_loop.simps [simp del]

definition be_raw_encode ::
  "'f format_ops \<Rightarrow> nat \<Rightarrow> 'f block_encoder \<Rightarrow> byte list \<Rightarrow> nat \<Rightarrow> 'f block_encoder raw_result" where
  "be_raw_encode fmt B e input n =
     (if be_phase e \<noteq> Gather \<and> be_phase e \<noteq> Open then (e, Inl Corrupt)
      else
        case be_encode_loop fmt B input 0 e (be_out e n) of (e1, w1, consumed) \<Rightarrow>
        case be_end e1 w1 of (e2, out) \<Rightarrow> raw_ok e2 consumed out False)"

lemma be_compress_True:
  "be_compress fmt e w = (e', w', True) \<Longrightarrow> be_block e' = [] \<and> be_phase e' = Gather"
  by (auto simp: be_compress_def be_compress_open_def Let_def split: prod.splits if_splits sum.splits)

text \<open>One turn of the loop of \<open>raw_finish\<close>: whether it goes round again.\<close>

definition be_final :: "'f format_ops \<Rightarrow> 'f block_encoder \<Rightarrow> ewriter \<Rightarrow> 'f block_encoder \<times> ewriter \<times> bool" where
  "be_final fmt e w =
     (case be_write_header fmt e w of (e1, w1, wrote) \<Rightarrow>
      if \<not> wrote then (e1, w1, False)
      else
        case ew_ready (3 + 7 + 7) w1 of (w2, room) \<Rightarrow>
        if \<not> room then (e1, w2, False)
        else
          (e1\<lparr>be_phase := Trailer 0\<rparr>,
           fst (ew_pad (fst (ew_symbol END_OF_BLOCK (fst (ew_put 3 3 w2))))), True))"

definition be_half :: "'f format_ops \<Rightarrow> 'f block_encoder \<Rightarrow> nat \<Rightarrow> u32" where
  "be_half fmt e half =
     (let words = fm_words fmt (be_format e) (be_size e);
          word = (if half div 2 < length words then words ! (half div 2) else 0)
      in if half mod 2 = 0 then word AND 0xffff else drop_bit 16 word)"

definition be_finish_turn :: "'f format_ops \<Rightarrow> 'f block_encoder \<Rightarrow> ewriter \<Rightarrow> 'f block_encoder \<times> ewriter \<times> bool" where
  "be_finish_turn fmt e w =
     (case be_phase e of
        Gather \<Rightarrow> if be_block e \<noteq> [] then be_compress fmt e w else be_final fmt e w
      | Open \<Rightarrow> be_compress fmt e w
      | Trailer half \<Rightarrow>
          if half < 2 * fm_trailer fmt then
            case ew_ready 16 w of (w1, room) \<Rightarrow>
            if \<not> room then (e, w1, False)
            else (e\<lparr>be_phase := Trailer (half + 1)\<rparr>, fst (ew_put (be_half fmt e half) 16 w1), True)
          else (e\<lparr>be_phase := Finished\<rparr>, w, True)
      | Finished \<Rightarrow> (e, w, False))"

definition be_left :: "'f format_ops \<Rightarrow> 'f block_encoder \<Rightarrow> nat" where
  "be_left fmt e =
     (case be_phase e of
        Gather \<Rightarrow> if be_block e = [] then 2 * fm_trailer fmt + 2 else 2 * fm_trailer fmt + 3
      | Open \<Rightarrow> 2 * fm_trailer fmt + 3
      | Trailer half \<Rightarrow> 2 * fm_trailer fmt - half + 1
      | Finished \<Rightarrow> 0)"

lemma be_finish_turn_left: "be_finish_turn fmt e w = (e', w', True) \<Longrightarrow> be_left fmt e' < be_left fmt e"
  by (auto simp: be_finish_turn_def be_final_def be_left_def dest: be_compress_True
      split: embed_phase.splits prod.splits if_splits)

function be_finish_loop :: "'f format_ops \<Rightarrow> 'f block_encoder \<Rightarrow> ewriter \<Rightarrow> 'f block_encoder \<times> ewriter" where
  "be_finish_loop fmt e w =
     (case be_finish_turn fmt e w of (e1, w1, go) \<Rightarrow> if go then be_finish_loop fmt e1 w1 else (e1, w1))"
  by pat_completeness auto
termination
  by (relation "measure (\<lambda>(fmt, e, _). be_left fmt e)") (auto dest!: be_finish_turn_left [OF sym])

declare be_finish_loop.simps [simp del]

definition be_raw_finish :: "'f format_ops \<Rightarrow> 'f block_encoder \<Rightarrow> nat \<Rightarrow> 'f block_encoder raw_result" where
  "be_raw_finish fmt e n =
     (case be_finish_loop fmt e (be_out e n) of (e1, w1) \<Rightarrow>
      case be_end e1 w1 of (e2, out) \<Rightarrow> raw_ok e2 0 out (be_phase e2 = Finished \<and> be_bit_cnt e2 = 0))"

definition be_raw_reset :: "'f format_ops \<Rightarrow> 'f block_encoder \<Rightarrow> 'f block_encoder" where
  "be_raw_reset fmt e =
     e\<lparr>be_block := [], be_pos := 0, be_header := 0, be_size := 0, be_bit_buf := 0, be_bit_cnt := 0,
       be_format := fm_init fmt, be_phase := Gather\<rparr>"

definition be_raw_flush :: "'f block_encoder \<Rightarrow> nat \<Rightarrow> flush \<Rightarrow> 'f block_encoder raw_result" where
  "be_raw_flush e n mode = (e, Inl Unsupported)"

end
