(* ===== verification/EmbedBlockSpec.thy ===== *)
theory EmbedBlockSpec
  imports EmbedBlock
begin

text \<open>
  The streaming encoder keeps the encoder contract: the bytes it owes are those of \<open>be_rest\<close>, in
  calls of any sizes.
\<close>

section \<open>Bits as bytes\<close>

definition bits_bytes :: "bool list \<Rightarrow> byte list" where
  "bits_bytes bs = map (\<lambda>i. word_of_nat (lsb_value (take 8 (drop (8 * i) bs)))) [0..<length bs div 8]"

lemma bits_bytes_Nil [simp]: "bits_bytes [] = []"
  by (simp add: bits_bytes_def)

lemma lsb_bits_value: "length p = n \<Longrightarrow> n \<le> LENGTH('a) \<Longrightarrow> lsb_bits n (word_of_nat (lsb_value p) :: 'a::len word) = p"
  by (rule lsb_value_inject) (use lsb_value_less [of p] in \<open>simp_all add: lsb_bits_of_nat\<close>)

lemma bits_bytes_Cons: "length p = 8 \<Longrightarrow> bits_bytes (p @ bs) = word_of_nat (lsb_value p) # bits_bytes bs"
proof -
  assume p: "length p = 8"
  have up: "[0..<Suc (length bs div 8)] = 0 # map Suc [0..<length bs div 8]" by (simp add: map_Suc_upt upt_conv_Cons)
  have len: "length (p @ bs) div 8 = Suc (length bs div 8)" using p by simp
  have "drop (8 * Suc i) (p @ bs) = drop (8 * i) bs" for i using p by simp
  then show ?thesis unfolding bits_bytes_def len up using p by (simp add: comp_def del: mult_Suc_right)
qed

lemma stream_bits_bytes: "8 dvd length bs \<Longrightarrow> stream_bits (bits_bytes bs) = bs"
proof (induction "length bs" arbitrary: bs rule: less_induct)
  case less
  show ?case
  proof (cases "bs = []")
    case False
    with less.prems have "8 \<le> length bs" by (meson dvd_imp_le length_greater_0_conv)
    then have split: "bs = take 8 bs @ drop 8 bs" "length (take 8 bs) = 8" by simp_all
    have "8 dvd length (drop 8 bs)" using less.prems \<open>8 \<le> length bs\<close> by (simp add: dvd_diff_nat)
    then have "stream_bits (bits_bytes (drop 8 bs)) = drop 8 bs"
      using less.hyps [of "drop 8 bs"] \<open>8 \<le> length bs\<close> by simp
    then have "stream_bits (bits_bytes (take 8 bs @ drop 8 bs)) = take 8 bs @ drop 8 bs"
      unfolding bits_bytes_Cons [OF split(2)] using lsb_bits_value [of "take 8 bs" 8, where ?'a = 8] split(2) by simp
    then show ?thesis by simp
  qed simp
qed

lemma bits_bytes_stream: "bits_bytes (stream_bits xs) = xs"
  by (rule stream_bits_inject) (simp add: stream_bits_bytes)

lemma pad_bits_mod: "pad_bits (8 * k + n) = pad_bits n"
  by (simp add: pad_bits_def)

section \<open>What is left to write\<close>

lemma embed_find_length: "embed_find table m data pos = (table1, len, dist) \<Longrightarrow> length table1 = length table"
  by (auto simp: embed_find_def Let_def split: if_splits)

lemma ew_tokens_length: "ew_tokens chk table m data pos w = (t', w', r) \<Longrightarrow> length t' = length table"
proof (induction chk table m data pos w arbitrary: t' w' r rule: ew_tokens.induct)
  case (1 chk table m data pos w)
  show ?case
  proof (cases "pos < length data")
    case True
    obtain w1 room where w1: "(if chk then ew_ready TOKEN_BITS w else (w, True)) = (w1, room)" by fastforce
    obtain t2 len dist where f: "embed_find table m data pos = (t2, len, dist)" by (cases "embed_find table m data pos")
    note l = embed_find_length [OF f]
    show ?thesis
    proof (cases room)
      case r: True
      show ?thesis
      proof (cases "len < MIN_MATCH")
        case lit: True
        obtain w2 r2 where s: "ew_symbol (unat (data ! pos)) w1 = (w2, r2)" by fastforce
        show ?thesis
        proof (cases r2)
          case (Inl e)
          with "1.prems" True w1 f r lit s l show ?thesis by (subst (asm) ew_tokens.simps) simp
        next
          case (Inr u)
          with "1.prems" True w1 f r lit s have "ew_tokens chk t2 m data (pos + 1) w2 = (t', w', r)"
            by (subst (asm) ew_tokens.simps) simp
          with "1.IH"(1) [OF True w1 [symmetric] _ f [symmetric] refl lit s [symmetric] Inr] r l show ?thesis by simp
        qed
      next
        case copy: False
        obtain w2 r2 where s: "ew_copy len dist w1 = (w2, r2)" by fastforce
        show ?thesis
        proof (cases r2)
          case (Inl e)
          with "1.prems" True w1 f r copy s l show ?thesis by (subst (asm) ew_tokens.simps) simp
        next
          case (Inr u)
          with "1.prems" True w1 f r copy s have "ew_tokens chk t2 m data (pos + len) w2 = (t', w', r)"
            by (subst (asm) ew_tokens.simps) simp
          with "1.IH"(2) [OF True w1 [symmetric] _ f [symmetric] refl copy s [symmetric] Inr] r l show ?thesis by simp
        qed
      qed
    next
      case False
      with "1.prems" True w1 show ?thesis by (subst (asm) ew_tokens.simps) simp
    qed
  qed (use "1.prems" in \<open>subst (asm) ew_tokens.simps, simp\<close>)
qed

function be_blocks :: "nat \<Rightarrow> u16 list \<Rightarrow> byte list \<Rightarrow> bool list" where
  "be_blocks B table data =
     (if data = [] \<or> B = 0 then []
      else
        case greedy table (length table - 1) (take B data) 0 of (table1, toks) \<Rightarrow>
        [False, True, False] @ fixed_bits toks @ be_blocks B table1 (drop B data))"
  by pat_completeness auto
termination by (relation "measure (\<lambda>(_, _, data). length data)") auto

declare be_blocks.simps [simp del]

definition be_tail :: "'f format_ops \<Rightarrow> 'f block_encoder \<Rightarrow> nat \<Rightarrow> byte list \<Rightarrow> bool list \<Rightarrow> bool list" where
  "be_tail fmt e n data p =
     p @ close_bits @ pad_bits (n + length (p @ close_bits))
     @ concat (map (lsb_bits 32) (take (fm_trailer fmt)
         (fm_words fmt (fm_update fmt (be_format e) data) (be_size e + word_of_nat (length data)))))"

definition be_rest :: "'f format_ops \<Rightarrow> nat \<Rightarrow> 'f block_encoder \<Rightarrow> nat \<Rightarrow> byte list \<Rightarrow> bool list" where
  "be_rest fmt B e n input =
     (case be_phase e of
        Gather \<Rightarrow> be_tail fmt e n (be_block e @ input)
          (stream_bits (drop (be_header e) (fm_header fmt)) @ be_blocks B (be_table e) (be_block e @ input))
      | Open \<Rightarrow>
          (case greedy (be_table e) (length (be_table e) - 1) (be_block e) (be_pos e) of (table, toks) \<Rightarrow>
             be_tail fmt e n input (fixed_bits toks @ be_blocks B table input))
      | Trailer half \<Rightarrow> concat (map (\<lambda>i. lsb_bits 16 (be_half fmt e i)) [half..<2 * fm_trailer fmt])
      | Finished \<Rightarrow> [])"

lemma be_tail_mod: "be_tail fmt e (8 * k + n) data p = be_tail fmt e n data p"
  using pad_bits_mod [of k "n + length (p @ close_bits)"] by (simp add: be_tail_def add.assoc)

lemma be_tail_append: "p @ be_tail fmt e (n + length p) data q = be_tail fmt e n data (p @ q)"
  by (simp add: be_tail_def add.assoc)

lemma be_rest_mod: "be_rest fmt B e (8 * k + n) input = be_rest fmt B e n input"
  by (simp add: be_rest_def be_tail_mod split: embed_phase.split prod.split)

lemma be_rest_move:
  "be_phase e = Gather \<Longrightarrow> be_rest fmt B (e\<lparr>be_block := be_block e @ ys\<rparr>) n zs = be_rest fmt B e n (ys @ zs)"
  by (simp add: be_rest_def be_tail_def)

lemma dvd_be_tail: "8 dvd n + length (be_tail fmt e n data p)"
proof -
  have "8 dvd n + length (p @ close_bits) + length (pad_bits (n + length (p @ close_bits)))"
    using length_pad [of "n + length (p @ close_bits)"] by (simp only: dvd_eq_mod_eq_0)
  then have "8 dvd n + length (p @ close_bits) + length (pad_bits (n + length (p @ close_bits)))
      + 8 * (4 * length (take (fm_trailer fmt)
         (fm_words fmt (fm_update fmt (be_format e) data) (be_size e + word_of_nat (length data)))))"
    using dvd_triv_left by (rule dvd_add)
  then show ?thesis by (simp only: be_tail_def length_append length_words ac_simps)
qed

lemma writes_fits:
  assumes "writes w p r" and "length (ew_bits w @ p) < 8 * ew_room w + 32"
  shows "r = (fst r, Inr ()) \<and> ew_ok (fst r) \<and> ew_bits (fst r) = ew_bits w @ p \<and> ew_room (fst r) = ew_room w"
  using assms by (auto simp: writes_def)

context container
begin

definition be_inv :: "nat \<Rightarrow> 'f block_encoder \<Rightarrow> bool" where
  "be_inv B e \<longleftrightarrow> length (be_block e) \<le> B \<and> be_pos e \<le> length (be_block e) \<and> be_header e \<le> length (fm_header fmt)
     \<and> (be_phase e = Open \<longrightarrow> be_header e = length (fm_header fmt)) \<and> (\<exists>xs. be_format e = fed xs)"

definition be_law ::
  "nat \<Rightarrow> 'f block_encoder \<Rightarrow> ewriter \<Rightarrow> byte list \<Rightarrow> 'f block_encoder \<Rightarrow> ewriter \<Rightarrow> byte list \<Rightarrow> bool" where
  "be_law B e w input e' w' input' \<longleftrightarrow> be_inv B e' \<and> ew_ok w' \<and> ew_room w' = ew_room w
     \<and> ew_bits w @ be_rest fmt B e (length (ew_bits w)) input
       = ew_bits w' @ be_rest fmt B e' (length (ew_bits w')) input'"

lemma be_law_refl: "be_inv B e \<Longrightarrow> ew_ok w \<Longrightarrow> be_law B e w input e w input"
  by (simp add: be_law_def)

lemma be_law_trans: "be_law B e w i e1 w1 i1 \<Longrightarrow> be_law B e1 w1 i1 e2 w2 i2 \<Longrightarrow> be_law B e w i e2 w2 i2"
  by (auto simp: be_law_def)

lemma be_law_ready:
  assumes "be_inv B e" and "ew_ok w" and "ew_ready n w = (w', r)" and "n \<le> 31"
  shows "be_law B e w input e w' input"
  using ew_ready_spec [OF assms(2,3,4)] assms(1) by (simp add: be_law_def)

lemma be_law_write:
  assumes "ew_ok w" and "writes w p r" and "length (ew_bits w) + length p < 8 * ew_room w + 32"
    and "be_inv B e'" and "be_rest fmt B e (length (ew_bits w)) input = p @ be_rest fmt B e' (length (ew_bits w) + length p) input'"
  shows "be_law B e w input e' (fst r) input'"
  using writes_fits [OF assms(2)] assms(3-5) by (auto simp: be_law_def)

lemma be_law_fits:
  assumes "ew_ready n w = (w1, ok)" and ok and "ew_ok w" and "n \<le> 31" and "length p \<le> n"
  shows "length (ew_bits w1) + length p < 8 * ew_room w1 + 32"
  using ew_ready_spec [OF assms(3,1,4)] assms(2,5) by simp

lemma writes_byte: "ew_ok w \<Longrightarrow> writes w (lsb_bits 8 b) (ew_put (ucast (b :: byte)) 8 w)"
proof -
  assume ok: "ew_ok w"
  have "lsb_bits 8 (ucast b :: u32) = lsb_bits 8 b" by (rule lsb_bits_ucast) simp
  moreover have "writes w (lsb_bits 8 (ucast b :: u32)) (ew_put (ucast b) 8 w)"
    by (rule writes_put [OF ok]) (auto simp: bit_ucast_iff dest: bit_imp_le_length)
  ultimately show ?thesis by simp
qed

lemma be_write_header_law:
  assumes "be_inv B e" and "be_phase e = Gather" and "ew_ok w" and "be_write_header fmt e w = (e', w', r)"
  shows "be_law B e w input e' w' input \<and> e' = e\<lparr>be_header := be_header e'\<rparr>
    \<and> (if r then be_header e' = length (fm_header fmt) else length (ew_out w') = ew_room w)"
  using assms
proof (induction "length (fm_header fmt) - be_header e" arbitrary: e w rule: less_induct)
  case less
  show ?case
  proof (cases "be_header e < length (fm_header fmt)")
    case False
    with less.prems have "e' = e" "w' = w" "r" by (subst (asm) be_write_header.simps, simp)+
    with less.prems False show ?thesis by (simp add: be_law_refl be_inv_def)
  next
    case True
    obtain w1 ok where rd: "ew_ready 8 w = (w1, ok)" by fastforce
    note ready = be_law_ready [OF less.prems(1,3) rd, of input] ew_ready_spec [OF less.prems(3) rd]
    show ?thesis
    proof (cases ok)
      case False
      with less.prems(4) True rd have "e' = e" "w' = w1" "\<not> r" by (subst (asm) be_write_header.simps, simp)+
      with ready False show ?thesis by simp
    next
      case ok: True
      let ?e = "e\<lparr>be_header := be_header e + 1\<rparr>" and ?b = "fm_header fmt ! be_header e"
      let ?w = "fst (ew_put (ucast ?b) 8 w1)"
      have w1: "ew_ok w1" using ready(2) by simp
      have inv: "be_inv B ?e" using less.prems(1,2) True by (auto simp: be_inv_def)
      have rest: "be_rest fmt B e (length (ew_bits w1)) input
          = lsb_bits 8 ?b @ be_rest fmt B ?e (length (ew_bits w1) + length (lsb_bits 8 ?b)) input"
        using less.prems(2) Cons_nth_drop_Suc [OF True, symmetric] 
        by (simp add: be_rest_def be_tail_def add.assoc)
      have "be_law B e w1 input ?e ?w input"
        by (rule be_law_write [OF w1 writes_byte [OF w1] _ inv rest])
          (use be_law_fits [OF rd ok less.prems(3), of "lsb_bits 8 ?b"] in simp)
      with ready(1) have law: "be_law B e w input ?e ?w input" by (simp add: be_law_trans)
      have step: "be_write_header fmt ?e ?w = (e', w', r)"
        using less.prems(4) True rd ok by (subst (asm) be_write_header.simps) simp
      have ok': "ew_ok ?w" "ew_room ?w = ew_room w" using law by (simp_all add: be_law_def)
      from less.hyps [OF _ inv _ ok'(1) step] True less.prems(2)
      have IH: "be_law B ?e ?w input e' w' input" "e' = ?e\<lparr>be_header := be_header e'\<rparr>"
        "if r then be_header e' = length (fm_header fmt) else length (ew_out w') = ew_room ?w" by simp_all
      show ?thesis using be_law_trans [OF law IH(1)] IH(2,3) ok'(2) by simp
    qed
  qed
qed

lemma be_compress_open_law:
  assumes "be_inv B e" and "be_phase e = Open" and "ew_ok w" and "be_compress_open e w = (e', w', r)"
  shows "be_law B e w input e' w' input
    \<and> (if r then be_phase e' = Gather \<and> be_block e' = [] else be_phase e' = Open \<and> length (ew_out w') = ew_room w)"
proof -
  let ?m = "length (be_table e) - 1"
  obtain tg toks where g: "greedy (be_table e) ?m (be_block e) (be_pos e) = (tg, toks)" by fastforce
  obtain t1 w1 r1 where tk: "ew_tokens True (be_table e) ?m (be_block e) (be_pos e) w = (t1, w1, r1)"
    by (cases "ew_tokens True (be_table e) ?m (be_block e) (be_pos e) w")
  have "be_pos e \<le> length (be_block e)" using assms(1) by (simp add: be_inv_def)
  from ew_tokens_law [OF assms(3) this g, of True] obtain pos ts us where
    l: "r1 = Inr pos" "pos \<le> length (be_block e)" "ew_ok w1" "ew_room w1 = ew_room w" "toks = ts @ us"
      "greedy t1 ?m (be_block e) pos = (tg, us)" "ew_bits w1 = ew_bits w @ tok_bits ts"
      "pos < length (be_block e) \<Longrightarrow> length (ew_out w1) = ew_room w"
    unfolding tk tokens_law_def by auto
  have len: "length t1 = length (be_table e)" by (rule ew_tokens_length [OF tk])
  let ?e = "e\<lparr>be_table := t1, be_pos := pos\<rparr>"
  have inv: "be_inv B ?e" using assms(1) l(2) by (simp add: be_inv_def)
  have law1: "be_law B e w input ?e w1 input"
    unfolding be_law_def using inv l(3,4) assms(2) g l(6,7) len
    by (simp add: be_rest_def fixed_bits_def l(5) be_tail_def add.assoc)
  show ?thesis
  proof (cases "pos < length (be_block e)")
    case True
    with assms(2,4) tk l(1) have "e' = ?e" "w' = w1" "\<not> r" by (simp_all add: be_compress_open_def)
    with law1 assms(2) l(8) True show ?thesis by simp
  next
    case False
    obtain w2 ok where rd: "ew_ready 7 w1 = (w2, ok)" by fastforce
    note ready = be_law_ready [OF inv l(3) rd, of input] ew_ready_spec [OF l(3) rd]
    show ?thesis
    proof (cases ok)
      case False
      with assms(4) tk l(1) \<open>\<not> pos < _\<close> rd have "e' = ?e" "w' = w2" "\<not> r" by (simp_all add: be_compress_open_def)
      with law1 ready False l(4) assms(2) show ?thesis by (auto intro: be_law_trans)
    next
      case ok: True
      let ?e2 = "?e\<lparr>be_block := [], be_pos := 0, be_phase := Gather\<rparr>"
      have w2: "ew_ok w2" using ready(2) by simp
      have inv2: "be_inv B ?e2" using inv assms(2) by (simp add: be_inv_def)
      have "us = []" "tg = t1" using l(2,6) False by (simp_all add: greedy.simps [of t1])
      with l(6) len have rest: "be_rest fmt B ?e (length (ew_bits w2)) input = huff_code fixed_ll 256
          @ be_rest fmt B ?e2 (length (ew_bits w2) + length (huff_code fixed_ll 256)) input"
        using assms(1,2) by (simp add: be_rest_def be_inv_def fixed_bits_def be_tail_def add.assoc)
      have eob: "length (huff_code fixed_ll 256) = 7" by (simp add: huff_code_def fixed_ll_nth)
      have "be_law B ?e w2 input ?e2 (fst (ew_symbol END_OF_BLOCK w2)) input"
        by (rule be_law_write [OF w2 writes_eob [OF w2] _ inv2 rest])
          (use be_law_fits [OF rd ok l(3), of "huff_code fixed_ll 256"] eob in simp)
      moreover have "e' = ?e2" "w' = fst (ew_symbol END_OF_BLOCK w2)" "r"
        using assms(4) tk l(1) \<open>\<not> pos < _\<close> rd ok by (simp_all add: be_compress_open_def)
      ultimately show ?thesis using law1 ready(1) by (auto intro: be_law_trans)
    qed
  qed
qed

lemma fed_append: "\<exists>xs. f = fed xs \<Longrightarrow> fm_update fmt (fm_update fmt f ys) zs = fm_update fmt f (ys @ zs)"
  by (auto simp: fed_update)

text \<open>A block is closed off when it is full, or when no input is to follow it.\<close>

lemma be_compress_law:
  assumes "be_inv B e" and "ew_ok w" and "be_compress fmt e w = (e', w', r)"
    and "be_phase e = Gather \<and> be_block e \<noteq> [] \<and> (length (be_block e) = B \<or> input = []) \<or> be_phase e = Open"
  shows "be_law B e w input e' w' input
    \<and> (if r then be_phase e' = Gather \<and> be_block e' = []
       else (be_phase e' = Gather \<or> be_phase e' = Open) \<and> length (ew_out w') = ew_room w)"
proof (cases "be_phase e = Gather")
  case False
  with assms(3,4) have o: "be_phase e = Open" "be_compress_open e w = (e', w', r)" by (simp_all add: be_compress_def)
  from be_compress_open_law [OF assms(1) o(1) assms(2) o(2), of input] show ?thesis by (cases r) simp_all
next
  case gather: True
  with assms(4) have full: "be_block e \<noteq> []" "length (be_block e) = B \<or> input = []" by simp_all
  obtain e1 w1 wrote where h: "be_write_header fmt e w = (e1, w1, wrote)" by (cases "be_write_header fmt e w")
  note hl = be_write_header_law [OF assms(1) gather assms(2) h, of input]
  have e1: "be_inv B e1" "ew_ok w1" "ew_room w1 = ew_room w" using hl by (simp_all add: be_law_def)
  have same: "be_phase e1 = Gather" "be_block e1 = be_block e"
  proof -
    have e: "e1 = e\<lparr>be_header := be_header e1\<rparr>" using hl by simp
    show "be_phase e1 = Gather" "be_block e1 = be_block e" by (subst e, simp add: gather)+
  qed
  show ?thesis
  proof (cases wrote)
    case False
    with assms(3) gather h have "e' = e1" "w' = w1" "\<not> r" by (simp_all add: be_compress_def)
    with hl False same show ?thesis by simp
  next
    case True
    obtain w2 ok where rd: "ew_ready 3 w1 = (w2, ok)" by fastforce
    note ready = be_law_ready [OF e1(1,2) rd, of input] ew_ready_spec [OF e1(2) rd]
    show ?thesis
    proof (cases ok)
      case False
      with assms(3) gather h True rd have "e' = e1" "w' = w2" "\<not> r" by (simp_all add: be_compress_def)
      with hl ready False same e1(3) show ?thesis by (auto intro: be_law_trans)
    next
      case ok: True
      let ?e2 = "e1\<lparr>be_format := fm_update fmt (be_format e1) (be_block e1),
                  be_size := be_size e1 + word_of_nat (length (be_block e1)), be_pos := 0, be_phase := Open\<rparr>"
      let ?w3 = "fst (ew_put 2 3 w2)"
      have w2: "ew_ok w2" using ready(2) by simp
      have head: "be_header e1 = length (fm_header fmt)" using hl True by simp
      obtain xs where xs: "be_format e1 = fed xs" using e1(1) by (auto simp: be_inv_def)
      have inv2: "be_inv B ?e2" using e1(1) head xs by (auto simp: be_inv_def fed_update)
      have blk: "take B (be_block e1 @ input) = be_block e1" "drop B (be_block e1 @ input) = input" "B \<noteq> 0" "be_block e1 @ input \<noteq> []"
      proof -
        have "0 < length (be_block e)" "length (be_block e) \<le> B" using full(1) assms(1) by (simp_all add: be_inv_def)
        then show "B \<noteq> 0" by linarith
        show "take B (be_block e1 @ input) = be_block e1" "drop B (be_block e1 @ input) = input"
          using full(2) same(2) \<open>length (be_block e) \<le> B\<close> by auto
        show "be_block e1 @ input \<noteq> []" using full(1) same(2) by simp
      qed
      obtain t toks where g: "greedy (be_table e1) (length (be_table e1) - 1) (be_block e1) 0 = (t, toks)" by fastforce
      have bl: "be_blocks B (be_table e1) (be_block e1 @ input) = [False, True, False] @ fixed_bits toks @ be_blocks B t input"
        unfolding be_blocks.simps [of B "be_table e1" "be_block e1 @ input"] blk(1,2) g using blk(3,4) by simp
      have "be_rest fmt B e1 (length (ew_bits w2)) input
          = [False, True, False] @ be_rest fmt B ?e2 (length (ew_bits w2) + length [False, True, False]) input"
        using same(1) head g by (simp add: be_rest_def be_tail_def bl xs fed_update add.assoc)
      then have l3: "be_law B e1 w2 input ?e2 ?w3 input"
        by (intro be_law_write [OF w2 writes_head(1) [OF w2] _ inv2])
          (use be_law_fits [OF rd ok e1(2), of "[False, True, False]"] in simp_all)
      have l1: "be_law B e w input e1 w1 input" and l2: "be_law B e1 w1 input e1 w2 input" using hl ready(1) by simp_all
      have law: "be_law B e w input ?e2 ?w3 input" by (rule be_law_trans [OF be_law_trans [OF l1 l2] l3])
      then have w3: "ew_ok ?w3" "ew_room ?w3 = ew_room w" by (simp_all add: be_law_def)
      have step: "be_compress_open ?e2 ?w3 = (e', w', r)"
        using assms(3) gather h True rd ok by (simp add: be_compress_def)
      from be_compress_open_law [OF inv2 _ w3(1) step, of input] law w3(2) show ?thesis
        by (auto intro: be_law_trans)
    qed
  qed
qed

lemma be_encode_loop_law:
  assumes "0 < B" and "be_inv B e" and "be_phase e = Gather \<or> be_phase e = Open" and "ew_ok w" and "k \<le> length xs"
    and "be_encode_loop fmt B xs k e w = (e', w', c)"
  shows "be_law B e w (drop k xs @ ys) e' w' (drop c xs @ ys) \<and> k \<le> c \<and> c \<le> length xs
    \<and> (c < length xs \<longrightarrow> length (ew_out w') = ew_room w) \<and> (be_phase e' = Gather \<or> be_phase e' = Open)"
  using assms(2-)
proof (induction "length xs - k" arbitrary: k e w rule: less_induct)
  case less
  let ?i = "drop k xs @ ys"
  obtain e1 w1 go where c: "(if length (be_block e) = B \<or> be_phase e = Open then be_compress fmt e w else (e, w, True)) = (e1, w1, go)"
    by (cases "if length (be_block e) = B \<or> be_phase e = Open then be_compress fmt e w else (e, w, True)")
  have c1: "be_law B e w ?i e1 w1 ?i" and c2: "be_phase e1 = Gather \<or> be_phase e1 = Open"
    and c3: "\<not> go \<Longrightarrow> length (ew_out w1) = ew_room w"
    and c4: "go \<Longrightarrow> be_phase e1 = Gather \<and> length (be_block e1) < B"
  proof -
    have "be_law B e w ?i e1 w1 ?i \<and> (be_phase e1 = Gather \<or> be_phase e1 = Open)
      \<and> (\<not> go \<longrightarrow> length (ew_out w1) = ew_room w) \<and> (go \<longrightarrow> be_phase e1 = Gather \<and> length (be_block e1) < B)"
    proof (cases "length (be_block e) = B \<or> be_phase e = Open")
      case True
      with c have b: "be_compress fmt e w = (e1, w1, go)" by simp
      have "be_phase e = Gather \<and> be_block e \<noteq> [] \<and> (length (be_block e) = B \<or> ?i = []) \<or> be_phase e = Open"
        using True less.prems(2) \<open>0 < B\<close> by auto
      from be_compress_law [OF less.prems(1,3) b this] \<open>0 < B\<close> show ?thesis by (cases go) simp_all
    next
      case False
      with c less.prems \<open>0 < B\<close> show ?thesis by (auto simp: be_law_refl be_inv_def)
    qed
    then show "be_law B e w ?i e1 w1 ?i" "be_phase e1 = Gather \<or> be_phase e1 = Open"
      "\<not> go \<Longrightarrow> length (ew_out w1) = ew_room w" "go \<Longrightarrow> be_phase e1 = Gather \<and> length (be_block e1) < B" by blast+
  qed
  note unfold = be_encode_loop.simps [of fmt B xs k e w, unfolded c Let_def prod.case]
  show ?case
  proof (cases "\<not> go \<or> length xs \<le> k")
    case True
    with less.prems(5) have "e' = e1" "w' = w1" "c = k" by (auto simp: unfold split: if_splits)
    with True c1 c2 c3 less.prems(4) show ?thesis by auto
  next
    case False
    let ?n = "min (B - length (be_block e1)) (length (drop k xs))"
    let ?e = "e1\<lparr>be_block := be_block e1 @ take ?n (drop k xs)\<rparr>"
    have n: "0 < ?n" "k + ?n \<le> length xs" using False c4 by auto
    have step: "be_encode_loop fmt B xs (k + ?n) ?e w1 = (e', w', c)"
      using less.prems(5) False n(1) by (simp only: unfold) (simp split: if_splits)
    have gather: "be_phase e1 = Gather" "length (be_block e1) < B" using False c4 by auto
    have inv1: "be_inv B e1" and ok1: "ew_ok w1" "ew_room w1 = ew_room w" using c1 by (simp_all add: be_law_def)
    have inv: "be_inv B ?e" using inv1 gather by (auto simp: be_inv_def)
    have "drop k xs = take ?n (drop k xs) @ drop (k + ?n) xs" by (metis append_take_drop_id drop_drop add.commute)
    then have "?i = take ?n (drop k xs) @ drop (k + ?n) xs @ ys" by (metis append.assoc)
    then have "be_rest fmt B e1 (length (ew_bits w1)) ?i = be_rest fmt B ?e (length (ew_bits w1)) (drop (k + ?n) xs @ ys)"
      using be_rest_move [OF gather(1)] by metis
    then have "be_law B e1 w1 ?i ?e w1 (drop (k + ?n) xs @ ys)"
      unfolding be_law_def using inv ok1 by simp
    with c1 have law: "be_law B e w ?i ?e w1 (drop (k + ?n) xs @ ys)" by (rule be_law_trans)
    have "length xs - (k + ?n) < length xs - k" using n by linarith
    from less.hyps [OF this inv _ ok1(1) n(2) step] gather
    have IH: "be_law B ?e w1 (drop (k + ?n) xs @ ys) e' w' (drop c xs @ ys)" "k + ?n \<le> c" "c \<le> length xs"
      "c < length xs \<Longrightarrow> length (ew_out w') = ew_room w1" "be_phase e' = Gather \<or> be_phase e' = Open" by simp_all
    then show ?thesis using be_law_trans [OF law IH(1)] ok1(2) by auto
  qed
qed

section \<open>Finishing\<close>

lemma halves_bits:
  assumes "length ws = 2" and "n \<le> 2"
  shows "concat (map (lsb_bits 32) (take n (ws :: u32 list)))
    = concat (map (\<lambda>i. lsb_bits 16 (if i mod 2 = 0 then ws ! (i div 2) AND 0xffff else drop_bit 16 (ws ! (i div 2)))) [0..<2 * n])"
proof -
  have m: "(0xffff :: u32) = mask 16" by (simp add: mask_eq_exp_minus_1)
  have w: "lsb_bits 32 c = lsb_bits 16 (c AND 0xffff) @ lsb_bits 16 (drop_bit 16 c)" for c :: u32
    unfolding m lsb_bits_mask [OF order_refl] using lsb_bits_add [of 16 16 c] by simp
  obtain a b where ws: "ws = [a, b]" using assms(1) by (auto simp: length_Suc_conv numeral_2_eq_2)
  consider "n = 0" | "n = 1" | "n = 2" using assms(2) by linarith
  then show ?thesis by cases (simp_all add: ws w upt_rec)
qed

lemma be_final_law:
  assumes "be_inv B e" and "be_phase e = Gather" and "be_block e = []" and "ew_ok w" and "be_final fmt e w = (e', w', r)"
  shows "be_law B e w [] e' w' [] \<and> (\<not> r \<longrightarrow> length (ew_out w') = ew_room w)"
proof -
  obtain e1 w1 wrote where h: "be_write_header fmt e w = (e1, w1, wrote)" by (cases "be_write_header fmt e w")
  note hl = be_write_header_law [OF assms(1,2,4) h, of "[]"]
  have e1: "be_inv B e1" "ew_ok w1" "ew_room w1 = ew_room w" using hl by (simp_all add: be_law_def)
  have same: "be_phase e1 = Gather" "be_block e1 = []"
  proof -
    have e: "e1 = e\<lparr>be_header := be_header e1\<rparr>" using hl by simp
    show "be_phase e1 = Gather" "be_block e1 = []" by (subst e, simp add: assms)+
  qed
  show ?thesis
  proof (cases wrote)
    case False
    with assms(5) h have "e' = e1" "w' = w1" "\<not> r" by (simp_all add: be_final_def)
    with hl False show ?thesis by simp
  next
    case True
    obtain w2 ok where rd: "ew_ready (3 + 7 + 7) w1 = (w2, ok)" by fastforce
    note ready = be_law_ready [OF e1(1,2) rd, of "[]"] ew_ready_spec [OF e1(2) rd]
    show ?thesis
    proof (cases ok)
      case False
      with assms(5) h True rd have "e' = e1" "w' = w2" "\<not> r" by (simp_all add: be_final_def)
      with hl ready False e1(3) show ?thesis by (auto intro: be_law_trans)
    next
      case ok: True
      have w2: "ew_ok w2" using ready(2) by simp
      let ?w3 = "fst (ew_put 3 3 w2)" and ?w4 = "fst (ew_symbol END_OF_BLOCK (fst (ew_put 3 3 w2)))"
      let ?w5 = "fst (ew_pad ?w4)" and ?e = "e1\<lparr>be_phase := Trailer 0\<rparr>"
      have fits: "length (ew_bits w2) + 17 < 8 * ew_room w2 + 32"
        using be_law_fits [OF rd ok e1(2), of "replicate 17 False"] by simp
      have w3: "ew_ok ?w3" "ew_bits ?w3 = ew_bits w2 @ [True, True, False]" "ew_room ?w3 = ew_room w2"
        using writes_fits [OF writes_head(2) [OF w2]] fits by auto
      have eob: "length (huff_code fixed_ll 256) = 7" by (simp add: huff_code_def fixed_ll_nth)
      have w4: "ew_ok ?w4" "ew_bits ?w4 = ew_bits w2 @ close_bits" "ew_room ?w4 = ew_room w2"
        using writes_fits [OF writes_eob [OF w3(1)]] fits w3(2,3) eob by (auto simp: close_bits_def)
      have pad: "length (pad_bits n) \<le> 7" for n by (simp add: pad_bits_def)
      have cl: "length close_bits = 10" by (simp add: close_bits_def eob)
      have w5: "ew_ok ?w5" "ew_bits ?w5 = ew_bits w2 @ close_bits @ pad_bits (length (ew_bits w2 @ close_bits))" "ew_room ?w5 = ew_room w2"
        using writes_fits [OF writes_pad [OF w4(1)]] fits w4(2,3) cl pad [of "length (ew_bits w2) + 10"] by auto
      have inv: "be_inv B ?e" using e1(1) by (simp add: be_inv_def)
      have words: "length (fm_words fmt (be_format e1) (be_size e1)) = 2" by (rule trailer_words)
      obtain xs where xs: "be_format e1 = fed xs" using e1(1) by (auto simp: be_inv_def)
      have half: "be_half fmt ?e i = (if i mod 2 = 0 then fm_words fmt (be_format e1) (be_size e1) ! (i div 2) AND 0xffff
          else drop_bit 16 (fm_words fmt (be_format e1) (be_size e1) ! (i div 2)))" if "i < 2 * fm_trailer fmt" for i
        using that trailer_le words by (auto simp: be_half_def Let_def)
      have tw: "concat (map (lsb_bits 32) (take (fm_trailer fmt) (fm_words fmt (be_format e1) (be_size e1))))
          = concat (map (\<lambda>i. lsb_bits 16 (be_half fmt ?e i)) [0..<2 * fm_trailer fmt])"
        unfolding halves_bits [OF words trailer_le] using half by (intro arg_cong [of _ _ concat] map_cong) auto
      have "be_law B e1 w2 [] ?e ?w5 []"
        unfolding be_law_def using inv w5 same hl True tw xs
        by (simp add: be_rest_def be_tail_def be_blocks.simps [of B _ "[]"] fed_update)
      moreover have "e' = ?e" "w' = ?w5" "r" using assms(5) h True rd ok by (simp_all add: be_final_def)
      ultimately show ?thesis using hl ready(1) by (auto intro: be_law_trans)
    qed
  qed
qed

lemma be_half_bits: "16 \<le> i \<Longrightarrow> \<not> bit (be_half fmt e h) i"
proof -
  have m: "(0xffff :: u32) = mask 16" by (simp add: mask_eq_exp_minus_1)
  show "16 \<le> i \<Longrightarrow> ?thesis"
    unfolding be_half_def Let_def m
    by (auto simp: bit_and_iff bit_mask_iff bit_drop_bit_eq dest: bit_imp_le_length)
qed

lemma be_finish_turn_law:
  assumes "be_inv B e" and "ew_ok w" and "be_finish_turn fmt e w = (e', w', r)"
  shows "be_law B e w [] e' w' [] \<and> (\<not> r \<longrightarrow> be_phase e' = Finished \<or> length (ew_out w') = ew_room w)"
proof (cases "be_phase e")
  case Gather
  show ?thesis
  proof (cases "be_block e = []")
    case True
    with Gather assms(3) have "be_final fmt e w = (e', w', r)" by (simp add: be_finish_turn_def)
    from be_final_law [OF assms(1) Gather True assms(2) this] show ?thesis by blast
  next
    case False
    with Gather assms(3) have c: "be_compress fmt e w = (e', w', r)" by (simp add: be_finish_turn_def)
    have "be_phase e = Gather \<and> be_block e \<noteq> [] \<and> (length (be_block e) = B \<or> [] = ([] :: byte list)) \<or> be_phase e = Open"
      using Gather False by simp
    from be_compress_law [OF assms(1,2) c this] show ?thesis by (cases r) simp_all
  qed
next
  case Open
  with assms(3) have c: "be_compress fmt e w = (e', w', r)" by (simp add: be_finish_turn_def)
  from be_compress_law [OF assms(1,2) c, of "[]"] Open show ?thesis by (cases r) simp_all
next
  case Finished
  with assms show ?thesis by (simp add: be_finish_turn_def be_law_refl)
next
  case (Trailer half)
  show ?thesis
  proof (cases "half < 2 * fm_trailer fmt")
    case False
    with Trailer assms(3) have "e' = e\<lparr>be_phase := Finished\<rparr>" "w' = w" r by (simp_all add: be_finish_turn_def)
    with False Trailer assms(1,2) show ?thesis by (simp add: be_law_def be_inv_def be_rest_def)
  next
    case True
    obtain w1 ok where rd: "ew_ready 16 w = (w1, ok)" by fastforce
    have l1: "be_law B e w [] e w1 []" by (rule be_law_ready [OF assms(1,2) rd]) simp
    note ready = ew_ready_spec [OF assms(2) rd]
    show ?thesis
    proof (cases ok)
      case False
      with True Trailer assms(3) rd have "e' = e" "w' = w1" "\<not> r" by (simp_all add: be_finish_turn_def)
      with l1 ready(5) False show ?thesis by simp
    next
      case ok: True
      let ?e = "e\<lparr>be_phase := Trailer (half + 1)\<rparr>"
      have w1: "ew_ok w1" using ready(1) by simp
      have inv: "be_inv B ?e" using assms(1) by (simp add: be_inv_def)
      have half: "be_half fmt ?e = be_half fmt e" by (simp add: be_half_def fun_eq_iff)
      have wr: "writes w1 (lsb_bits 16 (be_half fmt e half)) (ew_put (be_half fmt e half) 16 w1)"
        by (rule writes_put [OF w1]) (simp_all add: be_half_bits)
      have l2: "be_law B e w1 [] ?e (fst (ew_put (be_half fmt e half) 16 w1)) []"
        by (rule be_law_write [OF w1 wr _ inv])
          (use be_law_fits [OF rd ok assms(2), of "lsb_bits 16 (be_half fmt e half)"] True Trailer half
            in \<open>simp_all add: be_rest_def upt_conv_Cons\<close>)
      have "e' = ?e" "w' = fst (ew_put (be_half fmt e half) 16 w1)" r
        using True Trailer assms(3) rd ok by (simp_all add: be_finish_turn_def)
      with be_law_trans [OF l1 l2] show ?thesis by simp
    qed
  qed
qed

lemma be_finish_loop_law:
  assumes "be_inv B e" and "ew_ok w" and "be_finish_loop fmt e w = (e', w')"
  shows "be_law B e w [] e' w' [] \<and> (be_phase e' = Finished \<or> length (ew_out w') = ew_room w)"
  using assms
proof (induction "be_left fmt e" arbitrary: e w rule: less_induct)
  case less
  obtain e1 w1 go where t: "be_finish_turn fmt e w = (e1, w1, go)" by (cases "be_finish_turn fmt e w")
  note tl = be_finish_turn_law [OF less.prems(1,2) t]
  show ?case
  proof (cases go)
    case False
    with less.prems(3) t have "e' = e1" "w' = w1" by (subst (asm) be_finish_loop.simps, simp)+
    with tl False show ?thesis by simp
  next
    case True
    with less.prems(3) t have step: "be_finish_loop fmt e1 w1 = (e', w')" by (subst (asm) be_finish_loop.simps) simp
    have e1: "be_inv B e1" "ew_ok w1" "ew_room w1 = ew_room w" using tl by (simp_all add: be_law_def)
    have "be_left fmt e1 < be_left fmt e" using be_finish_turn_left t True by simp
    from less.hyps [OF this e1(1,2) step] tl e1(3) show ?thesis by (auto intro: be_law_trans)
  qed
qed

section \<open>The contract\<close>

definition be_ok :: "'f block_encoder \<Rightarrow> bool" where
  "be_ok e \<longleftrightarrow> be_bit_cnt e < 32 \<and> (\<forall>i \<ge> be_bit_cnt e. \<not> bit (be_bit_buf e) i)"

definition be_bits :: "nat \<Rightarrow> 'f block_encoder \<Rightarrow> byte list \<Rightarrow> bool list" where
  "be_bits B e input = lsb_bits (be_bit_cnt e) (be_bit_buf e) @ be_rest fmt B e (be_bit_cnt e) input"

definition be_owed :: "nat \<Rightarrow> 'f block_encoder \<Rightarrow> byte list \<Rightarrow> byte list" where
  "be_owed B e input = bits_bytes (be_bits B e input)"

definition be_ready :: "nat \<Rightarrow> 'f block_encoder \<Rightarrow> byte list \<Rightarrow> bool" where
  "be_ready B e input \<longleftrightarrow> be_inv B e \<and> be_ok e \<and> (be_phase e = Gather \<or> be_phase e = Open)"

definition be_closing :: "nat \<Rightarrow> 'f block_encoder \<Rightarrow> bool" where
  "be_closing B e \<longleftrightarrow> be_inv B e \<and> be_ok e \<and> 8 dvd length (be_bits B e [])"

lemma be_rest_bits: "be_rest fmt B (e\<lparr>be_bit_buf := b, be_bit_cnt := c\<rparr>) n input = be_rest fmt B e n input"
  by (simp add: be_rest_def be_tail_def be_half_def split: embed_phase.split prod.split)

lemma be_bits_dvd: "be_phase e = Gather \<or> be_phase e = Open \<Longrightarrow> 8 dvd length (be_bits B e input)"
  by (auto simp: be_bits_def be_rest_def dvd_be_tail split: prod.split)

text \<open>The end of a call: what went out and what is still owed make up what was owed.\<close>

lemma be_end_owed:
  assumes "be_ok e" and "be_law B e (be_out e n) input e1 w1 input1" and "be_end e1 w1 = (e2, out)"
    and "8 dvd length (be_bits B e input)"
  shows "be_inv B e2 \<and> be_ok e2 \<and> length out \<le> n \<and> (length (ew_out w1) = n \<longrightarrow> length out = n)
    \<and> (be_bit_cnt e2 < 8 \<or> length out = n) \<and> be_phase e2 = be_phase e1
    \<and> be_owed B e input = out @ be_owed B e2 input1 \<and> 8 dvd length (be_bits B e2 input1)"
proof -
  let ?w = "be_out e n" and ?f = "ew_flush w1"
  have w: "ew_ok ?w" "ew_bits ?w = lsb_bits (be_bit_cnt e) (be_bit_buf e)" "ew_room ?w = n"
    using assms(1) by (simp_all add: be_out_def ew_ok_def ew_bits_def be_ok_def)
  have l: "be_inv B e1" "ew_ok w1" "ew_room w1 = n"
    "be_bits B e input = ew_bits w1 @ be_rest fmt B e1 (length (ew_bits w1)) input1"
    using assms(2) w by (simp_all add: be_law_def be_bits_def)
  note f = ew_flush_spec [OF l(2)]
  have e2: "e2 = e1\<lparr>be_bit_buf := ew_bit_buf ?f, be_bit_cnt := ew_bit_cnt ?f\<rparr>" "out = ew_out ?f"
    using assms(3) by (simp_all add: be_end_def Let_def)
  have bits: "ew_bits w1 = stream_bits out @ lsb_bits (be_bit_cnt e2) (be_bit_buf e2)"
    using f by (simp add: ew_bits_def e2)
  then have len: "length (ew_bits w1) = 8 * length out + be_bit_cnt e2" by simp
  have eq: "be_bits B e input = stream_bits out @ be_bits B e2 input1"
    unfolding l(4) len be_rest_mod bits by (simp add: be_bits_def e2 be_rest_bits be_rest_mod)
  then have dvd: "8 dvd length (be_bits B e2 input1)"
    using assms(4) by (simp add: dvd_add_right_iff)
  have "stream_bits (be_owed B e input) = stream_bits (out @ be_owed B e2 input1)"
    unfolding be_owed_def using eq assms(4) dvd by (simp add: stream_bits_bytes)
  then have owed: "be_owed B e input = out @ be_owed B e2 input1" by (rule stream_bits_inject)
  have "be_inv B e2" using l(1) by (simp add: be_inv_def e2)
  moreover have "be_ok e2" using f by (simp add: be_ok_def e2 ew_ok_def)
  moreover have le: "length out \<le> n" using f l(3) by (simp add: ew_ok_def e2)
  moreover have "length (ew_out w1) = n \<longrightarrow> length out = n" using f le by (auto simp: e2)
  moreover have "be_bit_cnt e2 < 8 \<or> length out = n" using f l(3) by (simp add: e2)
  ultimately show ?thesis using owed dvd by (simp add: e2)
qed

lemma be_contract:
  assumes "0 < B"
  shows "encoder_contract (be_raw_encode fmt B) (be_raw_finish fmt) (be_ready B) (be_closing B) (be_owed B)"
proof
  fix s xs ys n
  assume r: "be_ready B s (xs @ ys)"
  then have inv: "be_inv B s" "be_ok s" "be_phase s = Gather \<or> be_phase s = Open" by (simp_all add: be_ready_def)
  obtain e1 w1 c where lp: "be_encode_loop fmt B xs 0 s (be_out s n) = (e1, w1, c)"
    by (cases "be_encode_loop fmt B xs 0 s (be_out s n)")
  obtain e2 out where en: "be_end e1 w1 = (e2, out)" by fastforce
  have ok: "ew_ok (be_out s n)" using inv(2) by (simp add: be_out_def ew_ok_def be_ok_def)
  have "be_law B s (be_out s n) (xs @ ys) e1 w1 (drop c xs @ ys) \<and> c \<le> length xs
    \<and> (c < length xs \<longrightarrow> length (ew_out w1) = n) \<and> (be_phase e1 = Gather \<or> be_phase e1 = Open)"
    using be_encode_loop_law [OF assms inv(1,3) ok _ lp, of ys] by (simp add: be_out_def)
  with be_end_owed [OF inv(2) _ en] be_bits_dvd [OF inv(3)] have
    "be_inv B e2 \<and> be_ok e2 \<and> length out \<le> n \<and> (c < length xs \<longrightarrow> length out = n) \<and> be_phase e2 = be_phase e1
      \<and> be_owed B s (xs @ ys) = out @ be_owed B e2 (drop c xs @ ys)" "c \<le> length xs" "be_phase e1 = Gather \<or> be_phase e1 = Open"
    by blast+
  moreover have "be_raw_encode fmt B s xs n = raw_ok e2 c out False"
    using inv(3) lp en by (auto simp: be_raw_encode_def)
  ultimately show "encode_law (be_ready B) (be_owed B) s xs ys n (be_raw_encode fmt B s xs n)"
    unfolding encode_law_def by (intro exI [of _ e2] exI [of _ c] exI [of _ out]) (auto simp: be_ready_def)
next
  fix s
  assume "be_ready B s []"
  then show "be_closing B s" using be_bits_dvd [of s B "[]"] by (simp add: be_ready_def be_closing_def)
next
  fix s n
  assume "be_closing B s"
  then have inv: "be_inv B s" "be_ok s" "8 dvd length (be_bits B s [])" by (simp_all add: be_closing_def)
  obtain e1 w1 where lp: "be_finish_loop fmt s (be_out s n) = (e1, w1)" by fastforce
  obtain e2 out where en: "be_end e1 w1 = (e2, out)" by fastforce
  have ok: "ew_ok (be_out s n)" using inv(2) by (simp add: be_out_def ew_ok_def be_ok_def)
  have l: "be_law B s (be_out s n) [] e1 w1 []" "be_phase e1 = Finished \<or> length (ew_out w1) = n"
    using be_finish_loop_law [OF inv(1) ok lp] by (simp_all add: be_out_def)
  note e = be_end_owed [OF inv(2) l(1) en inv(3)]
  have fin: "be_bits B e2 [] = lsb_bits (be_bit_cnt e2) (be_bit_buf e2)" if "be_phase e2 = Finished"
    using that by (simp add: be_bits_def be_rest_def)
  have "be_owed B e2 [] = []" if "be_phase e2 = Finished" "be_bit_cnt e2 = 0"
    using fin [OF that(1)] that(2) by (simp add: be_owed_def)
  moreover have "length out = n" if "\<not> (be_phase e2 = Finished \<and> be_bit_cnt e2 = 0)"
  proof (cases "be_phase e2 = Finished")
    case True
    with fin e have "8 dvd be_bit_cnt e2" by simp
    with True that have "8 \<le> be_bit_cnt e2" by (auto dest: dvd_imp_le)
    with e show ?thesis by auto
  qed (use e l(2) in auto)
  moreover have "be_raw_finish fmt s n = raw_ok e2 0 out (be_phase e2 = Finished \<and> be_bit_cnt e2 = 0)"
    using lp en by (simp add: be_raw_finish_def)
  ultimately show "finish_law (be_closing B) (be_owed B) s n (be_raw_finish fmt s n)"
    using e unfolding finish_law_def
    by (intro exI [of _ e2] exI [of _ out] exI [of _ "be_phase e2 = Finished \<and> be_bit_cnt e2 = 0"])
      (auto simp: be_closing_def)
qed

end

end
