(* ===== verification/EmbedBlockRoundtrip.thy ===== *)
theory EmbedBlockRoundtrip
  imports EmbedBlockSpec
begin

text \<open>
  The stream of the streaming encoder, written through calls of any sizes, is read back by the
  one-shot decoder: its blocks follow one another in the history of the output, and matches
  stay within a block.
\<close>

section \<open>Several blocks\<close>

lemma copy_bytes_prefix:
  "0 < d \<Longrightarrow> d \<le> length ys \<Longrightarrow> copy_bytes (xs @ ys) d n = xs @ copy_bytes ys d n"
proof (induction n arbitrary: ys)
  case (Suc n)
  have "length (xs @ ys) - d = length xs + (length ys - d)" using Suc.prems by simp
  then have "(xs @ ys) ! (length (xs @ ys) - d) = ys ! (length ys - d)" by (simp only: nth_append_length_plus)
  with Suc.IH [of "ys @ [ys ! (length ys - d)]"] Suc.prems show ?case by simp
qed simp

lemma tokens_ok_prefix:
  "tokens_ok ll dl ys toks \<Longrightarrow> tokens_ok ll dl (xs @ ys) toks \<and> expand (xs @ ys) toks = xs @ expand ys toks"
proof (induction toks arbitrary: ys)
  case (Cons t toks)
  show ?case
  proof (cases t)
    case (TLit b)
    with Cons.IH [of "ys @ [b]"] Cons.prems show ?thesis by simp
  next
    case (TCopy len dist)
    obtain ls le lv where lc: "len_code len = (ls, le, lv)" by (cases "len_code len")
    obtain ds de dv where dc: "dist_code dist = (ds, de, dv)" by (cases "dist_code dist")
    from TCopy Cons.prems have "1 \<le> dist" "dist \<le> length ys" by (simp_all add: lc dc)
    then have "copy_bytes (xs @ ys) dist len = xs @ copy_bytes ys dist len" by (intro copy_bytes_prefix) simp_all
    with TCopy Cons.IH [of "copy_bytes ys dist len"] Cons.prems show ?thesis by (simp add: lc dc)
  qed
qed simp

context output_sink
begin

lemma inf_blocks_more:
  assumes "at_bits s (be_blocks B table data @ close_bits @ pad @ stream_bits rest)" and "length pad < 8" and "0 < B"
    and "holds (in_sink s) xs" and "length xs + length data \<le> room (in_sink s)"
  shows "\<exists>s'. inf_blocks ops s = Some (s', Inr ()) \<and> at_bits s' (stream_bits rest) \<and> holds (in_sink s') (xs @ data)
    \<and> room (in_sink s') = room (in_sink s)"
  using assms(1,4,5)
proof (induction "length data" arbitrary: table data xs s rule: less_induct)
  case less
  show ?case
  proof (cases "data = []")
    case True
    with less.prems inf_blocks_close [of s pad rest xs] assms(2) show ?thesis by (simp add: be_blocks.simps)
  next
    case False
    obtain t toks where g: "greedy table (length table - 1) (take B data) 0 = (t, toks)" by fastforce
    from greedy_expands [OF _ g] have "tokens_ok fixed_ll fixed_dl [] toks" "expand [] toks = take B data" by simp_all
    with tokens_ok_prefix [of fixed_ll fixed_dl "[]" toks xs]
    have toks: "tokens_ok fixed_ll fixed_dl xs toks" "expand xs toks = xs @ take B data" by simp_all
    have "at_bits s ([False, True, False] @ fixed_bits toks @ be_blocks B t (drop B data) @ close_bits @ pad @ stream_bits rest)"
      using less.prems(1) False assms(3) g by (simp add: be_blocks.simps [of B table data])
    then obtain s1 s2 where s: "inf_bits 1 s = (s1, of_bool False)" "inf_bits 2 s1 = (s2, of_bool True + 2 * of_bool False)"
      "at_bits s2 (fixed_bits toks @ be_blocks B t (drop B data) @ close_bits @ pad @ stream_bits rest)" "in_sink s2 = in_sink s"
      by (rule block_head)
    have "length (expand xs toks) \<le> room (in_sink s2)" using less.prems(3) s(4) toks(2) by simp
    then obtain s3 where s3: "inf_block ops 1 s2 = (s3, Inr ())"
      "at_bits s3 (be_blocks B t (drop B data) @ close_bits @ pad @ stream_bits rest)"
      "holds (in_sink s3) (xs @ take B data)" "room (in_sink s3) = room (in_sink s)"
      using fixed_block [OF s(3) toks(1)] toks(2) less.prems(2) s(4) by auto
    have "length (drop B data) < length data" "length (xs @ take B data) + length (drop B data) \<le> room (in_sink s3)"
      using False assms(3) less.prems(3) s3(4) by auto
    from less.hyps [OF this(1) s3(2,3) this(2)] s s3(1,4) show ?thesis
      by (subst inf_blocks.simps) simp
  qed
qed

lemma be_blocks_body: "0 < B \<Longrightarrow> body_of (be_blocks B table data) data"
proof (rule body_ofI)
  fix s pad rest
  assume "0 < B" "at_bits s (be_blocks B table data @ close_bits @ pad @ stream_bits rest)" "length pad < 8"
    "holds (in_sink s) []" "length data \<le> room (in_sink s)"
  with inf_blocks_more [of s B table data pad rest "[]"]
  show "\<exists>s'. inf_blocks ops s = Some (s', Inr ()) \<and> at_bits s' (stream_bits rest) \<and> holds (in_sink s') data
    \<and> room (in_sink s') = room (in_sink s)" by simp
qed

end

section \<open>A fresh encoder\<close>

context container
begin

lemma be_new_ready: "be_ready B (be_new fmt T) data"
  using fed_init [symmetric] by (auto simp: be_ready_def be_new_def be_inv_def be_ok_def)

lemma be_reset_ready: "be_ready B (be_raw_reset fmt e) data"
  using fed_init [symmetric] by (auto simp: be_ready_def be_raw_reset_def be_inv_def be_ok_def)

lemma be_start_bits:
  assumes "e = be_new fmt T \<or> e = be_raw_reset fmt e0"
  shows "stream_bits (be_owed B e data) = stream_with fmt (be_blocks B (be_table e) data) data"
proof -
  have ph: "be_phase e = Gather" using assms by (auto simp: be_new_def be_raw_reset_def)
  have "be_bits B e data = stream_with fmt (be_blocks B (be_table e) data) data"
    using assms by (auto simp: be_bits_def be_rest_def be_tail_def be_new_def be_raw_reset_def stream_with_def with_pad_def trailer_words_def)
  with be_bits_dvd [of e B data] ph show ?thesis by (simp add: be_owed_def stream_bits_bytes)
qed

end

text \<open>A complete run exists: one call takes all the input, another ends the stream.\<close>

context encoder_contract
begin

lemma complete_run:
  assumes "ready s input"
  shows "\<exists>got s1 rest s2. encode_run raw_encode s input got [] s1 \<and> finish_run raw_finish s1 rest True s2"
proof -
  let ?n = "Suc (length (owed s input))"
  have "encode_law ready owed s input [] ?n (raw_encode s input ?n)" using encode_contract assms by simp
  then obtain s1 c out where
    e: "raw_encode s input ?n = raw_ok s1 c out False" "c \<le> length input" "length out \<le> ?n" "c < length input \<longrightarrow> length out = ?n"
      "ready s1 (drop c input @ [])" "owed s (input @ []) = out @ owed s1 (drop c input @ [])"
    unfolding encode_law_def by blast
  have "length out \<le> length (owed s input)" using arg_cong [OF e(6), of length] by simp
  with e(2,4) have c: "c = length input" by auto
  have "encode_run raw_encode s input ([] @ out) (drop c input @ []) s1"
  proof -
    have "encode_run raw_encode s input [] (input @ []) s" unfolding append_Nil2 by (rule encode_run_start)
    from encode_run_step [OF this e(1)] show ?thesis by (simp only: raw_progress.select_convs)
  qed
  with c have run: "encode_run raw_encode s input out [] s1" by (simp only: append_Nil append_Nil2 drop_all order_refl)
  let ?m = "Suc (length (owed s1 []))"
  from e(5) c closing_ready have "closing s1" by simp
  from finish_contract [OF this, of ?m] have "finish_law closing owed s1 ?m (raw_finish s1 ?m)" .
  then obtain s2 tail d where
    f: "raw_finish s1 ?m = raw_ok s2 0 tail d" "length tail \<le> ?m" "\<not> d \<longrightarrow> length tail = ?m" "closing s2"
      "owed s1 [] = tail @ owed s2 []" "d \<longrightarrow> owed s2 [] = []"
    unfolding finish_law_def by blast
  have "length tail \<le> length (owed s1 [])" using arg_cong [OF f(5), of length] by simp
  with f(3) have d: d by fastforce
  have "finish_run raw_finish s1 ([] @ tail) d s2"
    using finish_run_step [OF finish_run_start [of raw_finish s1] f(1)] by (simp only: raw_progress.select_convs)
  with d have "finish_run raw_finish s1 tail True s2" by (simp only: append_Nil)
  with run show ?thesis by blast
qed

end

interpretation raw_be: encoder_contract "be_raw_encode raw_format (Suc b)" "be_raw_finish raw_format"
  "raw_ct.be_ready (Suc b)" "raw_ct.be_closing (Suc b)" "raw_ct.be_owed (Suc b)" for b
  by (rule raw_ct.be_contract) simp

interpretation zlib_be: encoder_contract "be_raw_encode zlib_format (Suc b)" "be_raw_finish zlib_format"
  "zlib_ct.be_ready (Suc b)" "zlib_ct.be_closing (Suc b)" "zlib_ct.be_owed (Suc b)" for b
  by (rule zlib_ct.be_contract) simp

interpretation gzip_be: encoder_contract "be_raw_encode gzip_format (Suc b)" "be_raw_finish gzip_format"
  "gzip_ct.be_ready (Suc b)" "gzip_ct.be_closing (Suc b)" "gzip_ct.be_owed (Suc b)" for b
  by (rule gzip_ct.be_contract) simp

section \<open>Properties\<close>

text \<open>C3. Streaming compression round trip: whatever the sizes of the slices given to \<open>encode\<close> and
  \<open>finish\<close>, and of the block and the table, the bytes written decompress in one shot to the
  input, in each of the three containers.\<close>

theorem embed_streaming_roundtrip:
  assumes "0 < B" and "length data \<le> length out"
  shows "(encode_run (be_raw_encode raw_format B) (be_new raw_format T) data c1 [] e1 \<longrightarrow>
      finish_run (be_raw_finish raw_format) e1 t1 True f1 \<longrightarrow>
      (\<exists>out'. embed_decompress raw_format (c1 @ t1) out = Some (out', Inr (length data)) \<and> take (length data) out' = data))
    \<and> (encode_run (be_raw_encode zlib_format B) (be_new zlib_format T) data c2 [] e2 \<longrightarrow>
      finish_run (be_raw_finish zlib_format) e2 t2 True f2 \<longrightarrow>
      (\<exists>out'. embed_decompress zlib_format (c2 @ t2) out = Some (out', Inr (length data)) \<and> take (length data) out' = data))
    \<and> (encode_run (be_raw_encode gzip_format B) (be_new gzip_format T) data c3 [] e3 \<longrightarrow>
      finish_run (be_raw_finish gzip_format) e3 t3 True f3 \<longrightarrow>
      (\<exists>out'. embed_decompress gzip_format (c3 @ t3) out = Some (out', Inr (length data)) \<and> take (length data) out' = data))"
proof -
  obtain b where B: "B = Suc b" using assms(1) by (cases B) simp_all
  note raw = buffer_reads_back [OF buffer_sink.raw_reads_back [OF buffer_sink.be_blocks_body] _ assms(2)]
  note zlib = buffer_reads_back [OF buffer_sink.zlib_reads_back [OF buffer_sink.be_blocks_body] _ assms(2)]
  note gzip = buffer_reads_back [OF buffer_sink.gzip_reads_back [OF buffer_sink.be_blocks_body] _ assms(2)]
  show ?thesis
    using raw_be.chunked_output [of b "be_new raw_format T" data c1 e1 t1 f1]
      zlib_be.chunked_output [of b "be_new zlib_format T" data c2 e2 t2 f2]
      gzip_be.chunked_output [of b "be_new gzip_format T" data c3 e3 t3 f3]
      raw_ct.be_new_ready zlib_ct.be_new_ready gzip_ct.be_new_ready
      raw [OF assms(1) raw_ct.be_start_bits] zlib [OF assms(1) zlib_ct.be_start_bits] gzip [OF assms(1) gzip_ct.be_start_bits]
    unfolding B by metis
qed

lemma embed_streaming_roundtrip_witness:
  "\<exists>c t e f out'. encode_run (be_raw_encode gzip_format 2) (be_new gzip_format 4) [7, 7, 7] c [] e
    \<and> finish_run (be_raw_finish gzip_format) e t True f
    \<and> embed_decompress gzip_format (c @ t) [0, 0, 0] = Some (out', Inr 3) \<and> take 3 out' = [7, 7, 7]"
proof -
  have two: "Suc 1 = (2 :: nat)" and three: "length [7, 7, 7 :: byte] = 3" by simp_all
  obtain c e t f where r: "encode_run (be_raw_encode gzip_format 2) (be_new gzip_format 4) [7, 7, 7] c [] e"
    "finish_run (be_raw_finish gzip_format) e t True f"
    using gzip_be.complete_run [of 1 "be_new gzip_format 4" "[7, 7, 7]"] gzip_ct.be_new_ready unfolding two by blast
  have "0 < (2 :: nat)" "length [7, 7, 7 :: byte] \<le> length [0, 0, 0 :: byte]" by simp_all
  from embed_streaming_roundtrip [OF this, THEN conjunct2, THEN conjunct2, rule_format, OF r] r show ?thesis
    unfolding three by blast
qed

text \<open>C4. The one-shot helper over the streaming encoder, fresh or reset after any use, returns a gzip
  stream that decompresses to the input.\<close>

theorem embed_gzip_vec_roundtrip:
  assumes "e = be_new gzip_format T \<or> e = be_raw_reset gzip_format e0" and "0 < B"
  shows "\<exists>stream out'. compress_to_vec (be_raw_encode gzip_format B) (be_raw_finish gzip_format) e data = Some (Inr stream)
    \<and> embed_decompress gzip_format stream (replicate (length data) 0) = Some (out', Inr (length data)) \<and> out' = data"
proof -
  obtain b where B: "B = Suc b" using assms(2) by (cases B) simp_all
  have "gzip_ct.be_ready (Suc b) e data" using assms(1) gzip_ct.be_new_ready gzip_ct.be_reset_ready by auto
  then have "compress_to_vec (be_raw_encode gzip_format B) (be_raw_finish gzip_format) e data = Some (Inr (gzip_ct.be_owed B e data))"
    unfolding B by (rule gzip_be.vec_compress)
  moreover have "length data \<le> length (replicate (length data) (0 :: byte))" by simp
  with buffer_reads_back [OF buffer_sink.gzip_reads_back [OF buffer_sink.be_blocks_body [OF assms(2)]] gzip_ct.be_start_bits [OF assms(1)]]
  obtain out' where "embed_decompress gzip_format (gzip_ct.be_owed B e data) (replicate (length data) 0) = Some (out', Inr (length data))"
    "take (length data) out' = data" "length out' = length data" by fastforce
  ultimately show ?thesis by auto
qed

lemma embed_gzip_vec_roundtrip_witness:
  "\<exists>stream out'. compress_to_vec (be_raw_encode gzip_format 2) (be_raw_finish gzip_format)
      (be_new gzip_format 4) [7, 7, 7, 7, 7] = Some (Inr stream)
    \<and> embed_decompress gzip_format stream (replicate 5 0) = Some (out', Inr 5) \<and> out' = [7, 7, 7, 7, 7]"
proof -
  have "length [7, 7, 7, 7, 7 :: byte] = 5" "0 < (2 :: nat)" by simp_all
  from embed_gzip_vec_roundtrip [OF disjI1 [OF refl] this(2), of 4 "[7, 7, 7, 7, 7]", unfolded this(1)] show ?thesis .
qed

end
