(* ===== verification/Spec2Isabelle.thy ===== *)
theory Spec2Isabelle
  imports Rle Mtf Delta Packbits Rle90 Crc32 Adler32 H2Codec HpackSync QpackConn Lz4Stream EmbedPushDecompress EmbedBlockRoundtrip
begin

text \<open>
  Verification of \<open>compcol\<close>, a Rust collection of streaming compression codecs (\<open>src/src/\<close>).

  \<^bold>\<open>The program.\<close>  Every codec implements the raw traits of \<open>traits.rs\<close>: \<open>raw_encode\<close> and
  \<open>raw_decode\<close> take an input and an output slice of any lengths and report how much of each they
  used; \<open>raw_finish\<close> is called until it reports the end; \<open>raw_reset\<close> makes the object fresh.
  Blanket bridges turn them into the public \<open>Encoder\<close> and \<open>Decoder\<close>, \<open>vec.rs\<close> drives those to
  the end over growing buffers and \<open>limit.rs\<close> caps a decoder's output.  A codec is therefore a
  state machine that may be interrupted at any byte of either side, and what makes it correct is
  that the interruptions do not show.

  \<^bold>\<open>Shared theories.\<close>
  \<^item> \<open>Prelude\<close>: machine words, errors as values, list and option lemmas, the named collections.
  \<^item> \<open>Slices\<close>, \<open>MsbBits\<close>, \<open>LsbBits\<close>, \<open>LeBytes\<close>, \<open>LzWindow\<close>, \<open>CanonCode\<close>: chunks of a slice, bit
    strings in either order, little-endian words, the byte-wise match copy and prefix codes, used
    by several codecs.
  \<^item> \<open>Traits\<close> (\<open>traits.rs\<close>, \<open>error.rs\<close>): progress records, the bridges, \<open>raw_skip\<close>.  The locales
    \<open>encoder_contract\<close> and \<open>decoder_contract\<close> state what a codec owes its callers: a call consumes
    what it says, stops short only when the output is full, never fails on what it accepts, and
    what it has written plus what it still owes is fixed by the input alone.  From them follow,
    once for all codecs, the independence from chunk sizes, the behaviour of \<open>raw_skip\<close> and that a
    call history can always be completed.
  \<^item> \<open>OneShot\<close> (\<open>vec.rs\<close>), \<open>Limit\<close> (\<open>limit.rs\<close>), \<open>Codec\<close>: the one-shot helpers terminate and return
    what the contract says, the capped helper fails exactly past the cap; the locale \<open>codec\<close> pairs
    an encoder with its decoder and gives the round trips.  \<open>Queued\<close> and \<open>Filters\<close> are two more
    contracts on the way (codecs with an output queue, byte-for-byte filters).

  \<^bold>\<open>Codecs.\<close>  Each interprets the locales above on its own definitions.
  \<^item> \<open>Rle\<close> (\<open>rle.rs\<close>), \<open>Packbits\<close> (\<open>packbits.rs\<close>), \<open>Rle90\<close> (\<open>rle90.rs\<close>): run-length codecs.
  \<^item> \<open>Mtf\<close> (\<open>mtf/\<close>), \<open>Delta\<close> (\<open>delta/\<close>): byte filters; the bulk delta equals the bytewise one.
  \<^item> \<open>Crc32\<close>, \<open>Adler32\<close> (\<open>checksum.rs\<close>): the sliced and lane-parallel updates equal the bitwise and
    bytewise definitions.
  \<^item> \<open>H2Table\<close>, \<open>H2Trie\<close>, \<open>H2Huffman\<close>, \<open>H2Codec\<close> (\<open>hpack/huffman.rs\<close>): the Huffman code of
    HTTP/2, its byte automaton against the bit-by-bit reading, and the codec over it.
  \<^item> \<open>HpackInt\<close>, \<open>HpackTable\<close>, \<open>Hpack\<close>, \<open>HpackSync\<close> (\<open>hpack/\<close>) and \<open>QpackTable\<close>, \<open>Qpack\<close>,
    \<open>QpackSync\<close>, \<open>QpackConn\<close> (\<open>qpack/\<close>): header compression.  The invariant is that the tables of the
    two ends hold the same entries after every block; from it follow the round trips over a
    whole connection, and from the size invariants the safety of the decoders on any bytes.
  \<^item> \<open>Lz4Block\<close>, \<open>Lz4Codes\<close>, \<open>Lz4Fast\<close>, \<open>Lz4Hc\<close>, \<open>Lz4Opt\<close> (\<open>lz4/block.rs\<close>): the block format, its
    three parsers and the decoder; every parser emits a sequence of valid copies of its input.
    \<open>Lz4Stream\<close> (\<open>lz4/mod.rs\<close>): the streaming codec over length-prefixed blocks.
  \<^item> The embedded DEFLATE family (\<open>embed/\<close>).  \<open>EmbedBits\<close>, \<open>EmbedHuffman\<close>, \<open>EmbedInflate\<close>
    (\<open>inflate.rs\<close>): the bit reader, canonical Huffman codes and the steps of a block;
    \<open>EmbedChecksum\<close>, \<open>EmbedFormat\<close> (\<open>checksum.rs\<close>, \<open>format.rs\<close>): the raw, zlib and gzip containers,
    an instance of the locale \<open>container\<close> each; \<open>EmbedOneshot\<close> (\<open>oneshot.rs\<close>): the one-shot
    decoder over a slice or a counter, both instances of the locale \<open>output_sink\<close> of
    \<open>EmbedDecode\<close>; \<open>DeflateTokens\<close>, \<open>EmbedOut\<close>, \<open>EmbedFixed\<close>, \<open>EmbedEncoder\<close>, \<open>EmbedStream\<close>
    (\<open>encoder.rs\<close>): the match finder, the bit writer with the fixed codes and the one-shot
    encoder, whose output is the bit string \<open>stream_of\<close> exactly when it fits;
    \<open>EmbedRoundtrip\<close>: decoding inverts it; \<open>EmbedTotal\<close>: the decoder returns on any input;
    \<open>EmbedBlock\<close>, \<open>EmbedBlockSpec\<close>, \<open>EmbedBlockRoundtrip\<close>: the streaming block encoder keeps
    \<open>encoder_contract\<close> and its stream decodes to the input.
  \<^item> \<open>EmbedPush\<close> (\<open>decoder.rs\<close> and the window of \<open>inflate.rs\<close>): the push decoder, a state machine
    whose steps read from the caller's slice and are taken back when the slice ends within one.
    \<open>EmbedPushSim\<close> defines \<open>push_ideal\<close>, the run of the same steps with all the input and room at
    once.  \<open>EmbedTracks\<close>, \<open>EmbedPushStep\<close>, \<open>EmbedPushRun\<close> relate two readers of which one sees more
    input: a step that is not taken back is the same step of both.  \<open>EmbedPushKeep\<close> bounds what a
    step reads, \<open>EmbedPushIdeal\<close> shows what the ideal run depends on, \<open>EmbedPushTurn\<close> relates the
    loop to it, and \<open>EmbedPushContract\<close> concludes that the decoder keeps \<open>decoder_contract\<close>,
    for callers that do not finish into an empty slice (\<open>push_finish_some\<close>), as those of \<open>vec.rs\<close>
    never do; \<open>push_finish_ok\<close> covers the others.
    \<open>EmbedPushed\<close> interprets that on the three formats: the result does not depend on the calls,
    \<open>raw_skip\<close> drops what \<open>raw_decode\<close> would have written, and the decoder stays valid.  Two
    readers hold the same bits if the stream has them in the same order; the bit buffer may be
    filled to different depths, which is why the simulation is up to the bits to come.
    \<open>EmbedPushWindow\<close>, \<open>EmbedPushOneshot\<close>, \<open>EmbedPushBlocks\<close>, \<open>EmbedPushDynamic\<close>, \<open>EmbedPushStream\<close>,
    \<open>EmbedPushHeader\<close>, \<open>EmbedPushMembers\<close> relate \<open>push_ideal\<close> to the one-shot decoder of
    \<open>EmbedOneshot\<close>, step against loop, in the locale \<open>embed_pair\<close>; \<open>EmbedPushDecompress\<close>
    interprets it on the three formats over a slice: with a full window both decoders make the same
    of every stream.

  \<^bold>\<open>Conventions.\<close>  A Rust struct is a record, an enum a datatype, \<open>Result\<close> is \<open>error + 'a\<close>, a
  mutable slice is its length together with the bytes written to it, \<open>u8\<close> to \<open>u64\<close> are words
  and \<open>usize\<close> is a natural number, with the 64-bit bound written out where it matters
  (\<open>HpackInt\<close>, the cap of \<open>Limit\<close>).  Loops are structural or measured recursion.  Where only a
  property of the data ends a loop it is a \<open>partial_function\<close> into options, and that it ends is a
  theorem (the drive loops of \<open>OneShot\<close>, \<open>oneshot_decode_total\<close>); no fuel is used.  Generic
  parameters of the code (\<open>B\<close>, \<open>T\<close>, the format, the level) are arguments.

  \<^bold>\<open>Not modelled.\<close>  The codecs that are listed so in the manifest: the \<open>flate\<close>
  interface of the embedded family, the full-size DEFLATE, zlib and gzip, Brotli, Zstandard, the LZMA
  family, PPMd, bzip2, the archive and Microsoft formats, the LZ4 frame container.  \<open>io.rs\<close>,
  \<open>tokio_io.rs\<close>, \<open>factory.rs\<close> and the command line are glue to libraries outside the
  repository.  Allocation failure, capacity hints and timing have no counterpart in the model.
\<close>

end
